(* ===== verification/Value.thy ===== *)
theory Value
  imports Prelude Complex_Main
begin

text \<open>
  The scalar cell values of \<^verbatim>\<open>apps/engine/src/value.rs\<close>: the \<open>Value\<close> enum with its derived total
  order, its JSON wire encoding and its primary-key string form, and the positional row.

  A double is one of the four kinds OrderedFloat orders (\<open>-inf < finite < inf < NaN\<close>); the finite
  ones are rationals, so the two signed zeros are one value, as they are for OrderedFloat's
  equality, order and hash. How a double is parsed, printed and computed with is a parameter,
  a record of operations, of the definitions that need it.
\<close>

section \<open>Doubles\<close>

datatype f64 = NegInf | Finite rat | PosInf | NaN

instantiation f64 :: linorder
begin

fun less_eq_f64 :: "f64 \<Rightarrow> f64 \<Rightarrow> bool" where
  "less_eq_f64 NegInf _ = True"
| "less_eq_f64 (Finite a) NegInf = False"
| "less_eq_f64 (Finite a) (Finite b) = (a \<le> b)"
| "less_eq_f64 (Finite a) _ = True"
| "less_eq_f64 PosInf y = (y = PosInf \<or> y = NaN)"
| "less_eq_f64 NaN y = (y = NaN)"

definition less_f64 :: "f64 \<Rightarrow> f64 \<Rightarrow> bool" where
  "less_f64 x y = (x \<le> y \<and> \<not> y \<le> x)"

instance
proof
  fix x y z :: f64
  show "(x < y) = (x \<le> y \<and> \<not> y \<le> x)" by (rule less_f64_def)
  show "x \<le> x" by (cases x) auto
  show "x \<le> y \<Longrightarrow> y \<le> z \<Longrightarrow> x \<le> z" by (cases x; cases y; cases z) auto
  show "x \<le> y \<Longrightarrow> y \<le> x \<Longrightarrow> x = y" by (cases x; cases y) auto
  show "x \<le> y \<or> y \<le> x" by (cases x; cases y) auto
qed

end

text \<open>What the code uses of \<open>f64\<close>: \<open>str::parse\<close>, \<open>to_string\<close>, \<open>as\<close>, \<open>+\<close>, \<open>*\<close>, \<open>/\<close>.\<close>

record f64_ops =
  f64_parse :: "string \<Rightarrow> f64 option"
  f64_show :: "f64 \<Rightarrow> string"
  f64_of_int :: "int \<Rightarrow> f64"
  f64_add :: "f64 \<Rightarrow> f64 \<Rightarrow> f64"
  f64_mul :: "f64 \<Rightarrow> f64 \<Rightarrow> f64"
  f64_div :: "f64 \<Rightarrow> f64 \<Rightarrow> f64"

text \<open>Printing then parsing a double gives it back, as \<open>Display\<close> of \<open>f64\<close> documents.\<close>

definition f64_roundtrips_at :: "f64_ops \<Rightarrow> f64 \<Rightarrow> bool" where
  "f64_roundtrips_at F f \<longleftrightarrow> f64_parse F (f64_show F f) = Some f"

text \<open>A concrete instance for the witnesses: exact arithmetic on the finite doubles, and integral
  doubles printed in decimal.\<close>

definition f64_lift :: "(rat \<Rightarrow> rat \<Rightarrow> rat) \<Rightarrow> f64 \<Rightarrow> f64 \<Rightarrow> f64" where
  "f64_lift g x y = (case (x, y) of (Finite a, Finite b) \<Rightarrow> Finite (g a b) | _ \<Rightarrow> NaN)"

definition exact_f64 :: f64_ops where
  "exact_f64 =
     \<lparr>f64_parse = (\<lambda>s. map_option (\<lambda>i. Finite (of_int i)) (parse_i64 s)),
      f64_show = (\<lambda>f. case f of Finite q \<Rightarrow> show_int \<lfloor>q\<rfloor> | NegInf \<Rightarrow> ''-inf'' | PosInf \<Rightarrow> ''inf'' | NaN \<Rightarrow> ''NaN''),
      f64_of_int = (\<lambda>i. Finite (of_int i)),
      f64_add = f64_lift (+), f64_mul = f64_lift (*), f64_div = f64_lift (/)\<rparr>"

section \<open>JSON\<close>

text \<open>A \<open>serde_json::Number\<close> is an integer in the range of \<open>i64\<close> and \<open>u64\<close>, or a double.\<close>

datatype json_num = NInt int | NFloat f64

datatype json =
    JNull | JBool bool | JNum json_num | JStr string
  | JArr "json list" | JObj "(string \<times> json) list"

definition is_null :: "json \<Rightarrow> bool" where
  "is_null j \<longleftrightarrow> j = JNull"

definition as_i64 :: "json \<Rightarrow> int option" where
  "as_i64 j = (case j of JNum (NInt i) \<Rightarrow> if in_i64 i then Some i else None | _ \<Rightarrow> None)"

definition as_u64 :: "json \<Rightarrow> nat option" where
  "as_u64 j = (case j of JNum (NInt i) \<Rightarrow> if 0 \<le> i \<and> i \<le> int u64_max then Some (nat i) else None
               | _ \<Rightarrow> None)"

definition as_f64 :: "f64_ops \<Rightarrow> json \<Rightarrow> f64 option" where
  "as_f64 F j = (case j of JNum (NInt i) \<Rightarrow> Some (f64_of_int F i) | JNum (NFloat f) \<Rightarrow> Some f
                 | _ \<Rightarrow> None)"

definition as_str :: "json \<Rightarrow> string option" where
  "as_str j = (case j of JStr s \<Rightarrow> Some s | _ \<Rightarrow> None)"

definition as_bool :: "json \<Rightarrow> bool option" where
  "as_bool j = (case j of JBool b \<Rightarrow> Some b | _ \<Rightarrow> None)"

definition as_object :: "json \<Rightarrow> (string \<times> json) list option" where
  "as_object j = (case j of JObj m \<Rightarrow> Some m | _ \<Rightarrow> None)"

text \<open>\<open>serde_json::json!(f64)\<close>: a non-finite double becomes \<open>null\<close>.\<close>

definition json_of_f64 :: "f64 \<Rightarrow> json" where
  "json_of_f64 f = (case f of Finite _ \<Rightarrow> JNum (NFloat f) | _ \<Rightarrow> JNull)"

text \<open>\<open>serde_json::to_string\<close>: compact, strings escaped as JSON requires.\<close>

definition hex_char :: "nat \<Rightarrow> char" where
  "hex_char d = (if d < 10 then char_of (48 + d) else char_of (87 + d))"

definition json_escape_char :: "char \<Rightarrow> string" where
  "json_escape_char c =
     (let n = code_of c; bs = CHR 0x5C in
      if n = 34 then [bs, CHR 0x22]
      else if n = 92 then [bs, bs]
      else if n = 8 then [bs, CHR ''b'']
      else if n = 12 then [bs, CHR ''f'']
      else if n = 10 then [bs, CHR ''n'']
      else if n = 13 then [bs, CHR ''r'']
      else if n = 9 then [bs, CHR ''t'']
      else if n < 32 then [bs, CHR ''u'', CHR ''0'', CHR ''0'', hex_char (n div 16), hex_char (n mod 16)]
      else [c])"

definition json_quote :: "string \<Rightarrow> string" where
  "json_quote s = CHR 0x22 # concat (map json_escape_char s) @ [CHR 0x22]"

fun json_to_string :: "f64_ops \<Rightarrow> json \<Rightarrow> string" where
  "json_to_string F JNull = ''null''"
| "json_to_string F (JBool b) = (if b then ''true'' else ''false'')"
| "json_to_string F (JNum (NInt i)) = show_int i"
| "json_to_string F (JNum (NFloat f)) = f64_show F f"
| "json_to_string F (JStr s) = json_quote s"
| "json_to_string F (JArr xs) = ''['' @ join '','' (map (json_to_string F) xs) @ '']''"
| "json_to_string F (JObj m) =
     ''{'' @ join '','' (map (\<lambda>(k, v). json_quote k @ '':'' @ json_to_string F v) m) @ ''}''"

section \<open>Column types and values\<close>

datatype column_type = TInt | TText | TBool | TFloat

datatype val = VNull | VInt int | VText string | VBool bool | VFloat f64

text \<open>\<open>JSON_EXACT_INT_MAX\<close>, the largest integer every JSON reader reproduces.\<close>

definition JSON_EXACT_INT_MAX :: int where
  "JSON_EXACT_INT_MAX = 9007199254740991"

text \<open>The derived \<open>Ord\<close>: the order of the variants, then that of the contents.\<close>

instantiation val :: linorder
begin

fun val_rank :: "val \<Rightarrow> nat" where
  "val_rank VNull = 0"
| "val_rank (VInt _) = 1"
| "val_rank (VText _) = 2"
| "val_rank (VBool _) = 3"
| "val_rank (VFloat _) = 4"

fun less_eq_val :: "val \<Rightarrow> val \<Rightarrow> bool" where
  "less_eq_val (VInt a) (VInt b) = (a \<le> b)"
| "less_eq_val (VText a) (VText b) = (a \<le> b)"
| "less_eq_val (VBool a) (VBool b) = (a \<le> b)"
| "less_eq_val (VFloat a) (VFloat b) = (a \<le> b)"
| "less_eq_val x y = (val_rank x \<le> val_rank y)"

definition less_val :: "val \<Rightarrow> val \<Rightarrow> bool" where
  "less_val x y = (x \<le> y \<and> \<not> y \<le> x)"

instance
proof
  fix x y z :: val
  show "(x < y) = (x \<le> y \<and> \<not> y \<le> x)" by (rule less_val_def)
  show "x \<le> x" by (cases x) auto
  show "x \<le> y \<Longrightarrow> y \<le> z \<Longrightarrow> x \<le> z" by (cases x; cases y; cases z) auto
  show "x \<le> y \<Longrightarrow> y \<le> x \<Longrightarrow> x = y" by (cases x; cases y) auto
  show "x \<le> y \<or> y \<le> x" by (cases x; cases y) auto
qed

end

text \<open>\<open>Value::from_json\<close>: parse a JSON scalar against a column type.\<close>

definition from_json :: "f64_ops \<Rightarrow> json \<Rightarrow> column_type \<Rightarrow> val result" where
  "from_json F j ty =
     (if is_null j then Ok VNull
      else case ty of
        TInt \<Rightarrow>
          (case j of
             JStr s \<Rightarrow> rbind (ok_or (parse_i64 s) ExpectedInteger) (\<lambda>i. Ok (VInt i))
           | _ \<Rightarrow> rbind (ok_or (as_i64 j) ExpectedInteger) (\<lambda>i. Ok (VInt i)))
      | TFloat \<Rightarrow> rbind (ok_or (as_f64 F j) ExpectedFloat) (\<lambda>f. Ok (VFloat f))
      | TText \<Rightarrow> rbind (ok_or (as_str j) ExpectedString) (\<lambda>s. Ok (VText s))
      | TBool \<Rightarrow> rbind (ok_or (as_bool j) ExpectedBool) (\<lambda>b. Ok (VBool b)))"

text \<open>\<open>Value::literal_from_json\<close>: the lenient reading of a where-clause literal.\<close>

definition literal_from_json :: "f64_ops \<Rightarrow> json \<Rightarrow> column_type \<Rightarrow> val result" where
  "literal_from_json F j ty =
     (case j of
        JStr s \<Rightarrow>
          (case ty of
             TText \<Rightarrow> Ok (VText s)
           | TInt \<Rightarrow> rbind (ok_or (parse_i64 s) (InvalidLiteral s)) (\<lambda>i. Ok (VInt i))
           | TFloat \<Rightarrow> rbind (ok_or (f64_parse F s) (InvalidLiteral s)) (\<lambda>f. Ok (VFloat f))
           | TBool \<Rightarrow>
               (if s \<in> {''t'', ''true'', ''TRUE'', ''True''} then Ok (VBool True)
                else if s \<in> {''f'', ''false'', ''FALSE'', ''False''} then Ok (VBool False)
                else Err (InvalidLiteral s)))
      | _ \<Rightarrow> from_json F j ty)"

text \<open>\<open>Value::from_key_string\<close>: a stringified primary key back into a value (\<open>bool\<close> parses \<open>true\<close>/\<open>false\<close> only).\<close>

definition from_key_string :: "f64_ops \<Rightarrow> string \<Rightarrow> column_type \<Rightarrow> val result" where
  "from_key_string F s ty =
     (case ty of
        TInt \<Rightarrow> rbind (ok_or (parse_i64 s) ExpectedInteger) (\<lambda>i. Ok (VInt i))
      | TFloat \<Rightarrow> rbind (ok_or (f64_parse F s) ExpectedFloat) (\<lambda>f. Ok (VFloat f))
      | TText \<Rightarrow> Ok (VText s)
      | TBool \<Rightarrow> (if s = ''true'' then Ok (VBool True)
                 else if s = ''false'' then Ok (VBool False) else Err ExpectedBool))"

text \<open>\<open>Value::to_json\<close>: a JSON number while it is exact, a decimal string beyond.\<close>

definition to_json :: "val \<Rightarrow> json" where
  "to_json v =
     (case v of
        VNull \<Rightarrow> JNull
      | VInt i \<Rightarrow> if \<bar>i\<bar> \<le> JSON_EXACT_INT_MAX then JNum (NInt i) else JStr (show_int i)
      | VFloat f \<Rightarrow> json_of_f64 f
      | VText s \<Rightarrow> JStr s
      | VBool b \<Rightarrow> JBool b)"

text \<open>\<open>Value::to_key_string\<close>.\<close>

definition to_key_string :: "f64_ops \<Rightarrow> val \<Rightarrow> string" where
  "to_key_string F v =
     (case v of
        VNull \<Rightarrow> ''null''
      | VInt i \<Rightarrow> show_int i
      | VFloat f \<Rightarrow> f64_show F f
      | VText s \<Rightarrow> s
      | VBool b \<Rightarrow> if b then ''true'' else ''false'')"

text \<open>A row is a positional vector of values; \<open>Row::get\<close> fails out of range.\<close>

type_synonym row = "val list"

definition row_get :: "row \<Rightarrow> nat \<Rightarrow> val result" where
  "row_get r idx = ok_or (get_at r idx) (ColumnOutOfRange idx)"

text \<open>The Z-set delta of one change: rows with signed weights.\<close>

type_synonym zdelta = "(row \<times> int) list"

text \<open>\<open>row.0.get(i).unwrap_or(&Value::Null)\<close>.\<close>

definition cell_at :: "row \<Rightarrow> nat \<Rightarrow> val" where
  "cell_at r i = (case get_at r i of None \<Rightarrow> VNull | Some v \<Rightarrow> v)"

section \<open>Well-typed values\<close>

text \<open>A value a column of the given type can hold: its variant, an \<open>i64\<close>, a finite double.\<close>

fun val_has_type :: "val \<Rightarrow> column_type \<Rightarrow> bool" where
  "val_has_type VNull ty = True"
| "val_has_type (VInt i) ty = (ty = TInt \<and> in_i64 i)"
| "val_has_type (VText s) ty = (ty = TText)"
| "val_has_type (VBool b) ty = (ty = TBool)"
| "val_has_type (VFloat f) ty = (ty = TFloat \<and> (\<exists>q. f = Finite q))"

lemma cell_at_simps [simp]:
  "i < length r \<Longrightarrow> cell_at r i = r ! i" "length r \<le> i \<Longrightarrow> cell_at r i = VNull"
  by (simp_all add: cell_at_def get_at_def)

lemma cell_at_nonnull: "cell_at r i \<noteq> VNull \<Longrightarrow> get_at r i = Some (cell_at r i)"
  by (auto simp: cell_at_def split: option.splits)

lemma row_get_Inr [simp]: "row_get r i = Inr v \<longleftrightarrow> i < length r \<and> r ! i = v"
  by (auto simp: row_get_def res_simps)

lemma in_i64_exact: "\<bar>i\<bar> \<le> JSON_EXACT_INT_MAX \<Longrightarrow> in_i64 i"
  by (auto simp: JSON_EXACT_INT_MAX_def in_i64_def i64_min_def i64_max_def abs_le_iff)

lemma from_json_to_json: "val_has_type v ty \<Longrightarrow> from_json F (to_json v) ty = Ok v"
proof (cases v)
  case (VInt i)
  assume "val_has_type v ty"
  with VInt show ?thesis
    by (simp add: from_json_def to_json_def is_null_def as_i64_def)
qed (auto simp: from_json_def to_json_def is_null_def as_str_def as_bool_def as_f64_def json_of_f64_def
       split: column_type.splits)

lemma from_json_typed:
  assumes "from_json F j ty = Inr v"
  shows "v = VNull \<or> val_has_type v ty \<or> (\<exists>f. v = VFloat f \<and> ty = TFloat)"
  using assms
  by (auto simp: from_json_def is_null_def res_simps as_i64_def parse_i64_range
      split: column_type.splits json.splits json_num.splits if_splits)

lemma from_key_to_key:
  assumes "val_has_type v ty" and "v \<noteq> VNull"
    and "\<And>f. v = VFloat f \<Longrightarrow> f64_roundtrips_at F f"
  shows "from_key_string F (to_key_string F v) ty = Ok v"
  using assms by (cases v) (auto simp: from_key_string_def to_key_string_def f64_roundtrips_at_def)

section \<open>Properties\<close>

text \<open>The wire encoding of a cell is lossless. Whatever value a column of type \<open>ty\<close> holds
  (every 64-bit integer, every text, boolean, null and finite double), \<open>Value::to_json\<close> followed by
  \<open>Value::from_json\<close> at that type gives the value back.\<close>

theorem value_json_roundtrip:
  assumes "val_has_type v ty"
  shows "from_json F (to_json v) ty = Ok v"
  using assms by (rule from_json_to_json)

theorem value_json_roundtrip_witness:
  "from_json exact_f64 (to_json (VInt 9007199254740993)) TInt = Ok (VInt 9007199254740993)
   \<and> (\<exists>s. to_json (VInt 9007199254740993) = JStr s)"
proof
  have "val_has_type (VInt 9007199254740993) TInt"
    by (simp add: in_i64_def i64_min_def i64_max_def)
  from value_json_roundtrip [OF this]
  show "from_json exact_f64 (to_json (VInt 9007199254740993)) TInt = Ok (VInt 9007199254740993)" .
  show "\<exists>s. to_json (VInt 9007199254740993) = JStr s"
    by (simp add: to_json_def JSON_EXACT_INT_MAX_def)
qed

text \<open>A primary-key cell survives its stringified form. For every non-null value a column of
  type \<open>ty\<close> holds, \<open>Value::from_key_string\<close> reads \<open>Value::to_key_string\<close> back, given for a double
  that the standard library reads back what it printed.\<close>

theorem key_string_roundtrip:
  assumes "val_has_type v ty" and "v \<noteq> VNull"
    and "\<And>f. v = VFloat f \<Longrightarrow> f64_roundtrips_at F f"
  shows "from_key_string F (to_key_string F v) ty = Ok v"
  using assms by (rule from_key_to_key)

theorem key_string_roundtrip_witness:
  "from_key_string exact_f64 (to_key_string exact_f64 (VFloat (Finite 3))) TFloat
     = Ok (VFloat (Finite 3))"
proof -
  have "f64_roundtrips_at exact_f64 (Finite 3)"
    by (simp add: f64_roundtrips_at_def exact_f64_def in_i64_def i64_min_def i64_max_def)
  then show ?thesis by (intro key_string_roundtrip) auto
qed

end
