(* ===== verification/TableRef.thy ===== *)
theory TableRef
  imports Value
begin

text \<open>
  Table identity (\<^verbatim>\<open>apps/engine/src/table_ref.rs\<close>) and the identifier quoting of \<^verbatim>\<open>pg.rs\<close>: a
  relation is \<open>schema.name\<close>, stored as one canonical string with the offset of its separator. The
  offset counts characters here where the code counts bytes; the slices are the same.
\<close>

section \<open>Operations\<close>

definition PUBLIC_SCHEMA :: string where "PUBLIC_SCHEMA = ''public''"
definition RESERVED_SCHEMA :: string where "RESERVED_SCHEMA = ''__circuits''"

record table_ref =
  canon :: string
  dot :: nat

text \<open>\<open>pg::quote_ident\<close>: double quotes around, internal ones doubled.\<close>

definition quote_ident :: "string \<Rightarrow> string" where
  "quote_ident s =
     CHR 0x22 # concat (map (\<lambda>c. if c = CHR 0x22 then [CHR 0x22, CHR 0x22] else [c]) s) @ [CHR 0x22]"

definition check_part :: "string \<Rightarrow> string \<Rightarrow> unit result" where
  "check_part what part =
     (if part = [] then Err (EmptyPart what)
      else if CHR ''.'' \<in> set part then Err (DottedPart what)
      else if CHR 0x22 \<in> set part then Err (QuotedPart what)
      else if CHR ''*'' \<in> set part then Err (StarPart what)
      else Ok ())"

definition check_schema :: "string \<Rightarrow> unit result" where
  "check_schema sch =
     rbind (check_part ''schema'' sch) (\<lambda>_.
       if sch = RESERVED_SCHEMA then Err ReservedSchema else Ok ())"

definition table_new :: "string \<Rightarrow> string \<Rightarrow> table_ref result" where
  "table_new sch nm =
     rbind (check_schema sch) (\<lambda>_. rbind (check_part ''name'' nm) (\<lambda>_.
       Ok \<lparr>canon = sch @ ''.'' @ nm, dot = length sch\<rparr>))"

definition table_public :: "string \<Rightarrow> table_ref result" where
  "table_public nm = table_new PUBLIC_SCHEMA nm"

definition table_parse :: "string \<Rightarrow> table_ref result" where
  "table_parse s0 =
     (let s = trim s0 in
      if s = [] then Err EmptyTableRef
      else case split_once (CHR ''.'') s of
             Some (sch, nm) \<Rightarrow> table_new sch nm
           | None \<Rightarrow> table_public s)"

definition table_schema :: "table_ref \<Rightarrow> string" where
  "table_schema t = take (dot t) (canon t)"

definition table_name :: "table_ref \<Rightarrow> string" where
  "table_name t = drop (dot t + 1) (canon t)"

definition table_as_str :: "table_ref \<Rightarrow> string" where
  "table_as_str t = canon t"

definition is_public :: "table_ref \<Rightarrow> bool" where
  "is_public t \<longleftrightarrow> table_schema t = PUBLIC_SCHEMA"

definition quote_qualified :: "table_ref \<Rightarrow> string" where
  "quote_qualified t = quote_ident (table_schema t) @ ''.'' @ quote_ident (table_name t)"

text \<open>What one entry of the table list selects.\<close>

datatype table_selector = AllIn string | One table_ref

definition selector_parse :: "string \<Rightarrow> table_selector result" where
  "selector_parse s0 =
     (let s = trim s0 in
      if s = ''*'' then Ok (AllIn PUBLIC_SCHEMA)
      else case strip_suffix ''.*'' s of
             Some sch \<Rightarrow> rbind (check_schema sch) (\<lambda>_. Ok (AllIn sch))
           | None \<Rightarrow> rbind (table_parse s) (\<lambda>t. Ok (One t)))"

definition selector_show :: "table_selector \<Rightarrow> string" where
  "selector_show sel = (case sel of AllIn sch \<Rightarrow> sch @ ''.*'' | One t \<Rightarrow> table_as_str t)"

section \<open>Well-formed references\<close>

definition ok_part :: "string \<Rightarrow> bool" where
  "ok_part p \<longleftrightarrow> p \<noteq> [] \<and> CHR ''.'' \<notin> set p \<and> CHR 0x22 \<notin> set p \<and> CHR ''*'' \<notin> set p"

definition table_wf :: "table_ref \<Rightarrow> bool" where
  "table_wf t \<longleftrightarrow>
     canon t = table_schema t @ ''.'' @ table_name t \<and> dot t = length (table_schema t) \<and>
     ok_part (table_schema t) \<and> ok_part (table_name t) \<and> table_schema t \<noteq> RESERVED_SCHEMA"

lemma check_part_Inr [simp]: "check_part w p = Inr u \<longleftrightarrow> ok_part p"
  by (auto simp: check_part_def ok_part_def)

lemma check_schema_Inr [simp]: "check_schema s = Inr u \<longleftrightarrow> ok_part s \<and> s \<noteq> RESERVED_SCHEMA"
  by (auto simp: check_schema_def res_simps)

lemma table_new_Inr:
  "table_new s n = Inr t \<longleftrightarrow>
     ok_part s \<and> s \<noteq> RESERVED_SCHEMA \<and> ok_part n \<and> t = \<lparr>canon = s @ ''.'' @ n, dot = length s\<rparr>"
  by (auto simp: table_new_def res_simps)

lemma table_new_parts:
  assumes "table_new s n = Inr t"
  shows "table_schema t = s" "table_name t = n" "table_wf t"
  using assms by (auto simp: table_new_Inr table_schema_def table_name_def table_wf_def)

lemma trim_hd_last:
  "trim s = [] \<or> (\<not> is_whitespace (hd (trim s)) \<and> \<not> is_whitespace (last (trim s)))"
proof (cases "trim s = []")
  case False
  let ?u = "trim_start s" and ?w = "trim_start (rev (trim_start s))"
  from False have ne: "?w \<noteq> []" by (simp add: trim_def)
  have suf: "\<exists>p. xs = p @ trim_start xs" for xs
    by (induction xs) (auto intro: exI [of _ "[]"] exI [of _ "_ # _"])
  obtain p where p: "rev ?u = p @ ?w" using suf [of "rev ?u"] by blast
  then have u: "?u = trim s @ rev p" by (metis rev_append rev_rev_ident trim_def)
  with False have "hd ?u = hd (trim s)" "?u \<noteq> []" by auto
  with trim_start_hd [of s] have "\<not> is_whitespace (hd (trim s))" by auto
  moreover from ne trim_start_hd [of "rev ?u"] have "\<not> is_whitespace (last (trim s))"
    by (simp add: trim_def last_rev)
  ultimately show ?thesis by simp
qed simp

lemma table_parse_edges:
  assumes "table_parse s = Inr t"
  shows "table_wf t" "\<not> is_whitespace (hd (canon t))" "\<not> is_whitespace (last (canon t))"
proof -
  have pub: "\<not> is_whitespace (hd ''public'')" by (simp add: is_whitespace_def code_of_def)
  show "table_wf t"
    using assms table_new_parts(3)
    by (auto simp: table_parse_def table_public_def Let_def split: if_splits option.splits)
  show "\<not> is_whitespace (hd (canon t))" "\<not> is_whitespace (last (canon t))"
    using assms trim_hd_last [of s] pub
    by (auto simp: table_parse_def table_public_def PUBLIC_SCHEMA_def Let_def table_new_Inr ok_part_def
        dest!: split_once_SomeD split: if_splits option.splits)
qed

lemma table_parse_wf_id:
  assumes "table_wf t" "\<not> is_whitespace (hd (canon t))" "\<not> is_whitespace (last (canon t))"
  shows "table_parse (canon t) = Ok t"
proof -
  from assms have "trim (canon t) = canon t" by (simp add: trim_id)
  with assms(1) show ?thesis
    by (auto simp: table_parse_def Let_def table_wf_def ok_part_def table_new_Inr)
qed

section \<open>Properties\<close>

text \<open>The constructor is laxer than the parser: a name with a trailing space is accepted by
  \<open>TableRef::new\<close>, but its canonical form parses to a different table.\<close>

lemma table_new_trailing_space:
  "table_new ''public'' ''users '' = Ok \<lparr>canon = ''public.users '', dot = 6\<rparr>
   \<and> table_parse ''public.users '' = Ok \<lparr>canon = ''public.users'', dot = 6\<rparr>"
  by code_simp

text \<open>One table has one spelling. Whatever text is accepted as a table reference, its canonical
  form is \<open>schema.name\<close> with two non-empty parts free of dots, quotes and stars, never in the
  engine's reserved schema, and parsing the canonical form again gives the same reference.\<close>

theorem table_parse_canonical:
  assumes "table_parse s = Ok t"
  shows "table_parse (table_as_str t) = Ok t \<and> table_wf t"
  using table_parse_edges [OF assms] table_parse_wf_id by (auto simp: table_as_str_def)

theorem table_parse_canonical_witness:
  "table_parse ''public.users'' = Ok \<lparr>canon = ''public.users'', dot = 6\<rparr>"
proof -
  have "table_parse '' users '' = Ok \<lparr>canon = ''public.users'', dot = 6\<rparr>" by code_simp
  from table_parse_canonical [OF this] show ?thesis by (simp add: table_as_str_def)
qed

text \<open>A bare name is sugar for the public schema. For every name without a dot (and without
  surrounding white space) the bare spelling and \<open>public.\<close> followed by it are accepted together and
  denote the same table.\<close>

theorem table_parse_bare_name:
  assumes "CHR ''.'' \<notin> set n" and "trim n = n" and "n \<noteq> []"
  shows "table_parse n = table_parse (''public.'' @ n)"
proof -
  have "\<not> is_whitespace (last n)"
    using trim_hd_last [of n] assms by auto
  then have "trim (''public.'' @ n) = ''public.'' @ n"
    using assms(3) by (intro trim_id) (simp add: is_whitespace_def code_of_def)
  moreover have "split_once (CHR ''.'') (''public'' @ CHR ''.'' # n) = Some (''public'', n)"
    by (intro split_once_append) simp
  moreover have "split_once (CHR ''.'') n = None" using assms(1) by simp
  ultimately show ?thesis
    using assms(2,3) by (simp add: table_parse_def table_public_def PUBLIC_SCHEMA_def Let_def del: split_once_None)
qed

theorem table_parse_bare_name_witness:
  "table_parse ''issues'' = table_parse (''public.'' @ ''issues'')"
  by (rule table_parse_bare_name) code_simp+

end
