(* ===== verification/Schema.thy ===== *)
theory Schema
  imports TableRef
begin

text \<open>
  Table schemas (\<^verbatim>\<open>apps/engine/src/schema.rs\<close>): the declared and the compiled positional form, the
  row codec, the composite-key encoding, and the fingerprint comparison that decides schema drift.
\<close>

section \<open>Fingerprints and drift\<close>

definition REPLICA_IDENTITY_FULL :: char where "REPLICA_IDENTITY_FULL = CHR ''f''"

record fingerprint_column =
  fc_name :: string
  type_oid :: nat
  typmod :: int

record schema_fingerprint =
  fp_columns :: "fingerprint_column list"
  replident :: char
  fp_pk :: "string list option"

definition pk_matches :: "schema_fingerprint \<Rightarrow> schema_fingerprint \<Rightarrow> bool" where
  "pk_matches c ob =
     (case (fp_pk c, fp_pk ob) of (Some a, Some b) \<Rightarrow> a = b | _ \<Rightarrow> True)"

definition still_serves :: "schema_fingerprint \<Rightarrow> schema_fingerprint \<Rightarrow> bool" where
  "still_serves c ob \<longleftrightarrow>
     fp_columns c = fp_columns ob \<and> replident ob = REPLICA_IDENTITY_FULL \<and> pk_matches c ob"

definition column_names :: "schema_fingerprint \<Rightarrow> string list" where
  "column_names f = map fc_name (fp_columns f)"

text \<open>The \<open>BTreeMap\<close> of the columns by name: sorted keys, a later duplicate winning.\<close>

definition fp_map :: "schema_fingerprint \<Rightarrow> string \<Rightarrow> fingerprint_column option" where
  "fp_map f = map_of (rev (map (\<lambda>c. (fc_name c, c)) (fp_columns f)))"

definition fp_keys :: "schema_fingerprint \<Rightarrow> string list" where
  "fp_keys f = sort (remdups (column_names f))"

definition single_quoted :: "string \<Rightarrow> string" where
  "single_quoted s = CHR 0x27 # s @ [CHR 0x27]"

definition describe_drift :: "schema_fingerprint \<Rightarrow> schema_fingerprint \<Rightarrow> string list" where
  "describe_drift c ob =
     (let added = map (\<lambda>n. ''column '' @ single_quoted n @ '' added'') (filter (\<lambda>n. fp_map c n = None) (fp_keys ob));
          dropped = map (\<lambda>n. ''column '' @ single_quoted n @ '' dropped'') (filter (\<lambda>n. fp_map ob n = None) (fp_keys c));
          retyped = concat (map (\<lambda>n.
              (case (fp_map c n, fp_map ob n) of
                 (Some o1, Some c1) \<Rightarrow>
                   if type_oid o1 \<noteq> type_oid c1 \<or> typmod o1 \<noteq> typmod c1
                   then [''column '' @ single_quoted n @ '' retyped (oid '' @ show_nat (type_oid o1) @ ''/typmod ''
                         @ show_int (typmod o1) @ '' -> oid '' @ show_nat (type_oid c1) @ ''/typmod ''
                         @ show_int (typmod c1) @ '')'']
                   else []
               | _ \<Rightarrow> [])) (fp_keys ob));
          out = added @ dropped @ retyped;
          reordered =
            (if out = [] \<and> column_names c \<noteq> column_names ob
             then [''columns reordered ('' @ join '','' (column_names c) @ '' -> ''
                   @ join '','' (column_names ob) @ '')'']
             else []);
          pk = (case (fp_pk c, fp_pk ob) of
                  (Some before, Some after) \<Rightarrow>
                    if before \<noteq> after
                    then [''primary key changed ('' @ join '','' before @ '' -> '' @ join '','' after @ '')'']
                    else []
                | _ \<Rightarrow> []);
          ident = (if replident ob \<noteq> REPLICA_IDENTITY_FULL
                   then [''replica identity '' @ single_quoted [replident ob] @ '' (expected '' @ single_quoted ''f'' @ '' = FULL)''] else [])
      in out @ reordered @ pk @ ident)"

section \<open>Definitions and compiled schemas\<close>

record column_def =
  cd_ty :: column_type
  cd_pg_type :: "string option"
  cd_has_default :: bool

text \<open>\<open>columns\<close> is a \<open>BTreeMap\<close>: an association list with strictly increasing keys.\<close>

record table_def =
  td_columns :: "(string \<times> column_def) list"
  td_primary_key :: "string list"
  td_fingerprint :: "schema_fingerprint option"

record tschema =
  ts_table :: table_ref
  ts_columns :: "(string \<times> column_type) list"
  ts_index :: "string \<Rightarrow> nat option"
  ts_pk_index :: nat
  ts_pk_name :: string
  ts_pk_type :: column_type
  ts_pk_cols :: "nat list"
  ts_pg_types :: "string option list"
  ts_has_defaults :: "bool list"
  ts_fingerprint :: "schema_fingerprint option"

definition PK_SEP :: char where "PK_SEP = CHR 0x1F"

definition escape_char :: "char \<Rightarrow> string" where
  "escape_char c =
     (if c = CHR 0x5C then [CHR 0x5C, CHR 0x5C]
      else if c = PK_SEP then CHR 0x5C # ''x1f''
      else [c])"

definition escape_key_component :: "string \<Rightarrow> string" where
  "escape_key_component part =
     (if CHR 0x5C \<notin> set part \<and> PK_SEP \<notin> set part then part
      else concat (map escape_char part))"

definition join_key_components :: "string list \<Rightarrow> string" where
  "join_key_components parts = join [PK_SEP] (map escape_key_component parts)"

definition from_def :: "table_ref \<Rightarrow> table_def \<Rightarrow> tschema result" where
  "from_def t d =
     (let columns = map (\<lambda>(c, x). (c, cd_ty x)) (td_columns d);
          pg_types = map (\<lambda>(c, x). cd_pg_type x) (td_columns d);
          has_defaults = map (\<lambda>(c, x). cd_has_default x) (td_columns d);
          index = map_of (rev (zip (map fst columns) [0..<length columns]))
      in if td_primary_key d = [] then Err NoPrimaryKey
         else rbind (map_res (\<lambda>c. ok_or (index c) (PkNotAColumn c)) (td_primary_key d)) (\<lambda>pk_cols.
           Ok \<lparr>ts_table = t, ts_columns = columns, ts_index = index, ts_pk_index = hd pk_cols,
               ts_pk_name = hd (td_primary_key d), ts_pk_type = snd (columns ! hd pk_cols),
               ts_pk_cols = pk_cols, ts_pg_types = pg_types, ts_has_defaults = has_defaults,
               ts_fingerprint = td_fingerprint d\<rparr>))"

definition is_collatable_text :: "tschema \<Rightarrow> nat \<Rightarrow> bool" where
  "is_collatable_text s col \<longleftrightarrow>
     map_option snd (get_at (ts_columns s) col) = Some TText \<and>
     (case get_at (ts_pg_types s) col of
        Some (Some t) \<Rightarrow> t \<in> {''text'', ''varchar'', ''bpchar'', ''char'', ''name'', ''citext''}
      | _ \<Rightarrow> False)"

definition pg_type_of :: "tschema \<Rightarrow> string \<Rightarrow> string option" where
  "pg_type_of s col =
     (case ts_index s col of None \<Rightarrow> None
      | Some i \<Rightarrow> (case get_at (ts_pg_types s) i of None \<Rightarrow> None | Some x \<Rightarrow> x))"

definition key_string :: "f64_ops \<Rightarrow> tschema \<Rightarrow> row \<Rightarrow> string result" where
  "key_string F s r =
     (if length (ts_pk_cols s) = 1
      then rbind (row_get r (ts_pk_cols s ! 0)) (\<lambda>v. Ok (to_key_string F v))
      else rbind (map_res (\<lambda>i. rbind (row_get r i) (\<lambda>v. Ok (to_key_string F v))) (ts_pk_cols s))
             (\<lambda>parts. Ok (join_key_components parts)))"

definition column_index :: "tschema \<Rightarrow> string \<Rightarrow> nat result" where
  "column_index s col = ok_or (ts_index s col) (UnknownColumn col)"

text \<open>\<open>self.columns[idx].1\<close>, the panic out of range being an error.\<close>

definition column_type_at :: "tschema \<Rightarrow> nat \<Rightarrow> column_type result" where
  "column_type_at s i = rbind (ok_or (get_at (ts_columns s) i) (ColumnOutOfRange i)) (\<lambda>c. Ok (snd c))"

definition json_get :: "(string \<times> json) list \<Rightarrow> string \<Rightarrow> json" where
  "json_get obj c = (case map_of obj c of None \<Rightarrow> JNull | Some j \<Rightarrow> j)"

definition row_from_json :: "f64_ops \<Rightarrow> tschema \<Rightarrow> (string \<times> json) list \<Rightarrow> row result" where
  "row_from_json F s obj = map_res (\<lambda>(cname, cty). from_json F (json_get obj cname) cty) (ts_columns s)"

definition row_to_json_cols :: "tschema \<Rightarrow> row \<Rightarrow> nat list option \<Rightarrow> (string \<times> json) list" where
  "row_to_json_cols s r cols =
     fold (\<lambda>i m. case get_at (ts_columns s) i of
                   Some (cname, _) \<Rightarrow> AList.update cname (to_json (cell_at r i)) m
                 | None \<Rightarrow> m)
       (case cols of Some is \<Rightarrow> is | None \<Rightarrow> [0..<length (ts_columns s)]) []"

definition row_to_json :: "tschema \<Rightarrow> row \<Rightarrow> (string \<times> json) list" where
  "row_to_json s r = row_to_json_cols s r None"

definition pk_of :: "tschema \<Rightarrow> row \<Rightarrow> val result" where
  "pk_of s r = row_get r (ts_pk_index s)"

definition compile_schema :: "(table_ref \<times> table_def) list \<Rightarrow> (table_ref \<times> tschema) list result" where
  "compile_schema tables =
     map_res (\<lambda>(t, d). if td_columns d = [] then Err NoColumns
                       else rbind (from_def t d) (\<lambda>s. Ok (t, s))) tables"

section \<open>Well-formed schemas and typed rows\<close>

text \<open>The invariant of a compiled schema: distinct column names, an index that is exactly the
  position of each name, parallel per-column vectors, and a non-empty list of key columns whose
  head is the single-column view of the key.\<close>

definition schema_wf :: "tschema \<Rightarrow> bool" where
  "schema_wf s \<longleftrightarrow>
     distinct (map fst (ts_columns s)) \<and>
     (\<forall>c i. ts_index s c = Some i \<longleftrightarrow> i < length (ts_columns s) \<and> fst (ts_columns s ! i) = c) \<and>
     length (ts_pg_types s) = length (ts_columns s) \<and>
     length (ts_has_defaults s) = length (ts_columns s) \<and>
     ts_pk_cols s \<noteq> [] \<and> (\<forall>i \<in> set (ts_pk_cols s). i < length (ts_columns s)) \<and>
     ts_pk_index s = hd (ts_pk_cols s) \<and>
     ts_pk_name s = fst (ts_columns s ! ts_pk_index s) \<and>
     ts_pk_type s = snd (ts_columns s ! ts_pk_index s)"

definition typed_row :: "tschema \<Rightarrow> row \<Rightarrow> bool" where
  "typed_row s r \<longleftrightarrow> list_all2 (\<lambda>v c. val_has_type v (snd c)) r (ts_columns s)"

text \<open>The key cells of a row: never null in Postgres, and doubles that print back.\<close>

definition key_cells_ok :: "f64_ops \<Rightarrow> tschema \<Rightarrow> row \<Rightarrow> bool" where
  "key_cells_ok F s r \<longleftrightarrow>
     (\<forall>i \<in> set (ts_pk_cols s). r ! i \<noteq> VNull \<and> (\<forall>f. r ! i = VFloat f \<longrightarrow> f64_roundtrips_at F f))"

lemma typed_row_length: "typed_row s r \<Longrightarrow> length r = length (ts_columns s)"
  by (simp add: typed_row_def list_all2_lengthD)

lemma typed_row_nth:
  "typed_row s r \<Longrightarrow> i < length (ts_columns s) \<Longrightarrow> val_has_type (r ! i) (snd (ts_columns s ! i))"
  by (auto simp: typed_row_def list_all2_conv_all_nth)

lemma schema_wf_index:
  "schema_wf s \<Longrightarrow> ts_index s c = Some i \<longleftrightarrow> i < length (ts_columns s) \<and> fst (ts_columns s ! i) = c"
  by (simp add: schema_wf_def)

lemma column_index_Inr:
  "schema_wf s \<Longrightarrow> column_index s c = Inr i \<longleftrightarrow> i < length (ts_columns s) \<and> fst (ts_columns s ! i) = c"
  by (simp add: column_index_def ok_or_eq_Inr schema_wf_index)

lemma schema_wf_pk:
  "schema_wf s \<Longrightarrow> i \<in> set (ts_pk_cols s) \<Longrightarrow> i < length (ts_columns s)"
  by (simp add: schema_wf_def)

lemma map_of_rev_zip_upt:
  assumes "distinct xs"
  shows "map_of (rev (zip xs [0..<length xs])) c = Some i \<longleftrightarrow> i < length xs \<and> xs ! i = c"
proof -
  have "distinct (map fst (rev (zip xs [0..<length xs])))"
    using assms by (simp add: rev_map [symmetric])
  then have "map_of (rev (zip xs [0..<length xs])) c = Some i
      \<longleftrightarrow> (c, i) \<in> set (zip xs [0..<length xs])"
    by (simp add: map_of_eq_Some_iff)
  then show ?thesis by (auto simp: in_set_zip)
qed

lemma from_def_wf:
  assumes "from_def t d = Inr s" and "distinct (map fst (td_columns d))"
  shows "schema_wf s"
proof -
  let ?cols = "map (\<lambda>(c, x). (c, cd_ty x)) (td_columns d)"
  have fstc: "map fst ?cols = map fst (td_columns d)" by auto
  have ix: "map_of (rev (zip (map fst ?cols) [0..<length ?cols])) c = Some i
      \<longleftrightarrow> i < length ?cols \<and> map fst ?cols ! i = c" for c i
    using map_of_rev_zip_upt [of "map fst ?cols" c i] assms(2) unfolding fstc by simp
  from assms(1) obtain pks where
    pks: "list_all2 (\<lambda>c i. i < length ?cols \<and> map fst ?cols ! i = c) (td_primary_key d) pks"
    and ne: "td_primary_key d \<noteq> []"
    and s: "s = \<lparr>ts_table = t, ts_columns = ?cols,
        ts_index = map_of (rev (zip (map fst ?cols) [0..<length ?cols])), ts_pk_index = hd pks,
        ts_pk_name = hd (td_primary_key d), ts_pk_type = snd (?cols ! hd pks),
        ts_pk_cols = pks, ts_pg_types = map (\<lambda>(c, x). cd_pg_type x) (td_columns d),
        ts_has_defaults = map (\<lambda>(c, x). cd_has_default x) (td_columns d),
        ts_fingerprint = td_fingerprint d\<rparr>"
    by (auto simp: from_def_def Let_def res_simps ix simp del: length_map map_map split: if_splits)
  from pks ne have pne: "pks \<noteq> []" by auto
  have hd: "hd pks < length ?cols" "map fst ?cols ! hd pks = hd (td_primary_key d)"
    using pks ne pne by (cases pks; cases "td_primary_key d"; simp)+
  have all: "i < length ?cols" if "i \<in> set pks" for i
    using pks that by (auto simp: list_all2_conv_all_nth in_set_conv_nth)
  have "distinct (map fst ?cols)" using assms(2) by (simp only: fstc)
  moreover have "map_of (rev (zip (map fst ?cols) [0..<length ?cols])) c = Some i
      \<longleftrightarrow> i < length ?cols \<and> fst (?cols ! i) = c" for c i
    unfolding ix by auto
  moreover have "hd (td_primary_key d) = fst (?cols ! hd pks)" using hd by simp
  ultimately show ?thesis
    using hd(1) all pne unfolding schema_wf_def s by (simp del: map_map)
qed

lemma from_def_table: "from_def t d = Inr s \<Longrightarrow> ts_table s = t"
  by (auto simp: from_def_def Let_def res_simps simp del: map_map split: if_splits)

section \<open>The composite-key encoding\<close>

lemma escape_key_component_concat: "escape_key_component p = concat (map escape_char p)"
proof (cases "CHR 0x5C \<notin> set p \<and> PK_SEP \<notin> set p")
  case True
  then have "concat (map escape_char p) = p"
    by (induction p) (auto simp: escape_char_def)
  with True show ?thesis by (simp add: escape_key_component_def)
qed (auto simp: escape_key_component_def)

lemma escape_no_sep: "PK_SEP \<notin> set (escape_key_component p)"
  by (auto simp: escape_key_component_concat escape_char_def PK_SEP_def split: if_splits)

lemma escape_char_cancel: "escape_char c @ u = escape_char d @ v \<longleftrightarrow> c = d \<and> u = v"
  by (auto simp: escape_char_def PK_SEP_def split: if_splits)

lemma concat_escape_inj: "concat (map escape_char p) = concat (map escape_char q) \<Longrightarrow> p = q"
proof (induction p arbitrary: q)
  case Nil
  then show ?case by (cases q) (auto simp: escape_char_def split: if_splits)
next
  case (Cons c p)
  then obtain d q' where q: "q = d # q'"
    by (cases q) (auto simp: escape_char_def split: if_splits)
  have "c = d \<and> concat (map escape_char p) = concat (map escape_char q')"
    using Cons.prems unfolding q by (simp add: escape_char_cancel)
  with Cons.IH q show ?case by blast
qed

lemma append_sep_eq:
  "x \<notin> set a \<Longrightarrow> x \<notin> set b \<Longrightarrow> a @ x # u = b @ x # v \<longleftrightarrow> a = b \<and> u = v"
proof (induction a arbitrary: b)
  case Nil
  then show ?case by (cases b) auto
next
  case (Cons y a)
  then show ?case by (cases b) auto
qed

lemma join_sep_inj:
  assumes "length xs = length ys" "\<And>z. z \<in> set xs \<union> set ys \<Longrightarrow> c \<notin> set z"
    and "join [c] xs = join [c] ys"
  shows "xs = ys"
  using assms
proof (induction xs ys rule: list_induct2)
  case (Cons x xs y ys)
  show ?case
  proof (cases xs)
    case Nil
    with Cons show ?thesis by simp
  next
    case (Cons x' xs')
    with \<open>length xs = length ys\<close> obtain y' ys' where ys: "ys = y' # ys'" by (cases ys) auto
    have "c \<notin> set x" "c \<notin> set y" using Cons.prems(1) by auto
    moreover have "x @ c # join [c] xs = y @ c # join [c] ys"
      using Cons.prems(2) Cons ys by simp
    ultimately have "x = y" "join [c] xs = join [c] ys" by (simp_all add: append_sep_eq)
    with Cons.IH Cons.prems(1) show ?thesis by auto
  qed
qed simp

lemma join_key_components_inj:
  assumes "length ps = length qs" "join_key_components ps = join_key_components qs"
  shows "ps = qs"
proof -
  have "map escape_key_component ps = map escape_key_component qs"
    using assms by (intro join_sep_inj [where c = PK_SEP]) (auto simp: join_key_components_def escape_no_sep)
  moreover have "inj escape_key_component"
    by (rule injI) (auto simp: escape_key_component_concat dest: concat_escape_inj)
  ultimately show ?thesis by (simp add: inj_map_eq_map)
qed

lemma key_string_parts:
  assumes "schema_wf s" "length r = length (ts_columns s)"
  shows "key_string F s r =
     Ok (let parts = map (\<lambda>i. to_key_string F (r ! i)) (ts_pk_cols s)
         in if length (ts_pk_cols s) = 1 then hd parts else join_key_components parts)"
proof -
  have "row_get r i = Ok (r ! i)" if "i \<in> set (ts_pk_cols s)" for i
    using schema_wf_pk [OF assms(1) that] assms(2) by simp
  then have "map_res (\<lambda>i. rbind (row_get r i) (\<lambda>v. Ok (to_key_string F v))) (ts_pk_cols s)
      = Ok (map (\<lambda>i. to_key_string F (r ! i)) (ts_pk_cols s))"
      "ts_pk_cols s \<noteq> [] \<Longrightarrow> row_get r (ts_pk_cols s ! 0) = Ok (r ! hd (ts_pk_cols s))"
    by (auto intro!: map_res_all_ok simp: hd_conv_nth simp del: row_get_Inr)
  moreover have "ts_pk_cols s \<noteq> []" using assms(1) by (simp add: schema_wf_def)
  ultimately show ?thesis by (simp add: key_string_def Let_def hd_map del: row_get_Inr)
qed

lemma key_parts_inj:
  assumes "schema_wf s" "typed_row s r" "typed_row s r'"
    and "key_cells_ok F s r" "key_cells_ok F s r'"
    and "map (\<lambda>i. to_key_string F (r ! i)) (ts_pk_cols s) = map (\<lambda>i. to_key_string F (r' ! i)) (ts_pk_cols s)"
  shows "map ((!) r) (ts_pk_cols s) = map ((!) r') (ts_pk_cols s)"
proof (rule map_cong [OF refl])
  fix i assume i: "i \<in> set (ts_pk_cols s)"
  let ?ty = "snd (ts_columns s ! i)"
  have "from_key_string F (to_key_string F (x ! i)) ?ty = Ok (x ! i)"
    if "typed_row s x" "key_cells_ok F s x" for x
  proof (rule from_key_to_key)
    show "val_has_type (x ! i) ?ty"
      using that(1) schema_wf_pk [OF assms(1) i] by (rule typed_row_nth)
  qed (use that(2) i in \<open>auto simp: key_cells_ok_def\<close>)
  from this [OF assms(2,4)] this [OF assms(3,5)]
  have "from_key_string F (to_key_string F (r ! i)) ?ty = Ok (r ! i)"
    "from_key_string F (to_key_string F (r' ! i)) ?ty = Ok (r' ! i)" .
  moreover have "to_key_string F (r ! i) = to_key_string F (r' ! i)" using assms(6) i by simp
  ultimately show "r ! i = r' ! i" by (metis sum.inject(2))
qed

section \<open>Drift\<close>

lemma fp_map_distinct:
  assumes "distinct (column_names f)"
  shows "fp_map f n = Some c \<longleftrightarrow> c \<in> set (fp_columns f) \<and> fc_name c = n"
proof -
  have "distinct (map fst (rev (map (\<lambda>c. (fc_name c, c)) (fp_columns f))))"
    using assms by (simp add: column_names_def rev_map [symmetric] o_def)
  then have "fp_map f n = Some c \<longleftrightarrow> (n, c) \<in> set (map (\<lambda>c. (fc_name c, c)) (fp_columns f))"
    unfolding fp_map_def by (simp add: map_of_eq_Some_iff)
  then show ?thesis by auto
qed

lemma fp_map_None: "fp_map f n = None \<longleftrightarrow> n \<notin> set (column_names f)"
  by (auto simp: fp_map_def map_of_eq_None_iff column_names_def image_image)

lemma set_fp_keys [simp]: "set (fp_keys f) = set (column_names f)"
  by (simp add: fp_keys_def)

lemma fp_column_eqI:
  "fc_name a = fc_name b \<Longrightarrow> type_oid a = type_oid b \<Longrightarrow> typmod a = typmod b \<Longrightarrow>
   (a :: fingerprint_column) = b"
  by simp

lemma fp_columns_eqI:
  assumes "distinct (column_names a)" "column_names a = column_names b"
    and same: "\<And>n x y. fp_map a n = Some x \<Longrightarrow> fp_map b n = Some y \<Longrightarrow>
      type_oid x = type_oid y \<and> typmod x = typmod y"
  shows "fp_columns a = fp_columns b"
proof (rule nth_equalityI)
  have names: "map fc_name (fp_columns a) = map fc_name (fp_columns b)"
    using assms(2) by (simp add: column_names_def)
  then show len: "length (fp_columns a) = length (fp_columns b)" by (rule map_eq_imp_length_eq)
  fix i assume i: "i < length (fp_columns a)"
  let ?x = "fp_columns a ! i" and ?y = "fp_columns b ! i"
  have n: "fc_name ?x = fc_name ?y" using names i len by (metis nth_map)
  have "distinct (column_names b)" using assms(1,2) by simp
  then have "fp_map a (fc_name ?x) = Some ?x" "fp_map b (fc_name ?x) = Some ?y"
    using assms(1) i len n by (auto simp: fp_map_distinct)
  with same n show "?x = ?y" by (blast intro: fp_column_eqI)
qed

lemma retyped_Nil_iff:
  "concat (map (\<lambda>n. case (g n, h n) of
       (Some x, Some y) \<Rightarrow> if P x y then [msg n x y] else [] | _ \<Rightarrow> []) ns) = [] \<longleftrightarrow>
   (\<forall>n \<in> set ns. \<forall>x y. g n = Some x \<longrightarrow> h n = Some y \<longrightarrow> \<not> P x y)"
  by (auto split: option.splits if_splits) 

lemma describe_drift_Nil_iff:
  "describe_drift c ob = [] \<longleftrightarrow>
     column_names c = column_names ob \<and>
     (\<forall>n x y. fp_map c n = Some x \<longrightarrow> fp_map ob n = Some y \<longrightarrow>
        type_oid x = type_oid y \<and> typmod x = typmod y) \<and>
     pk_matches c ob \<and> replident ob = REPLICA_IDENTITY_FULL"
proof -
  have split: "out @ (if out = [] \<and> N then [m] else []) @ ps @ ids = [] \<longleftrightarrow>
      out = [] \<and> \<not> N \<and> ps = [] \<and> ids = []" for out ps ids :: "string list" and N m
    by auto
  have pk: "(case (fp_pk c, fp_pk ob) of (Some b, Some a) \<Rightarrow> if b \<noteq> a then [f b a] else [] | _ \<Rightarrow> [])
      = ([] :: string list) \<longleftrightarrow> pk_matches c ob" for f
    by (auto simp: pk_matches_def split: option.splits)
  have dom: "fp_map ob n = Some y \<Longrightarrow> n \<in> set (column_names ob)" for n y
    using fp_map_None [of ob n] by fastforce
  have none: "filter (\<lambda>n. fp_map x n = None) (fp_keys y) = [] \<longleftrightarrow>
      set (column_names y) \<subseteq> set (column_names x)" for x y
    by (auto simp: filter_empty_conv fp_map_None)
  show ?thesis
    unfolding describe_drift_def Let_def split pk
    unfolding append_is_Nil_conv retyped_Nil_iff map_is_Nil_conv none set_fp_keys
    using dom by (cases "column_names c = column_names ob") (simp_all add: if_split_eq1, blast)
qed

section \<open>Row codec\<close>

lemma distinct_fst_nth_eq:
  "distinct (map fst xs) \<Longrightarrow> i < length xs \<Longrightarrow> j < length xs \<Longrightarrow> fst (xs ! i) = fst (xs ! j) \<Longrightarrow> i = j"
  using nth_eq_iff_index_eq [of "map fst xs" i j] by simp

lemma row_to_json_fold:
  assumes "distinct (map fst (ts_columns s))" "n \<le> length (ts_columns s)"
  shows "map_of (fold (\<lambda>i m. case get_at (ts_columns s) i of
            Some (cname, _) \<Rightarrow> AList.update cname (to_json (cell_at r i)) m | None \<Rightarrow> m) [0..<n] [])
         = (\<lambda>c. if \<exists>i<n. fst (ts_columns s ! i) = c
                then Some (to_json (cell_at r (THE i. i < length (ts_columns s) \<and> fst (ts_columns s ! i) = c)))
                else None)"
  using assms(2)
proof (induction n)
  case (Suc n)
  let ?P = "\<lambda>c i. i < length (ts_columns s) \<and> fst (ts_columns s ! i) = c"
  have the: "(THE i. ?P (fst (ts_columns s ! n)) i) = n"
    using assms(1) Suc.prems by (intro the_equality) (auto intro: distinct_fst_nth_eq)
  obtain cn ct where n: "ts_columns s ! n = (cn, ct)" by (cases "ts_columns s ! n")
  with Suc.prems have "get_at (ts_columns s) n = Some (cn, ct)" by simp
  with Suc the n show ?case
    by (auto simp: update_conv' fun_eq_iff less_Suc_eq simp del: get_at_Some_iff)
qed simp

lemma row_to_json_get:
  assumes "distinct (map fst (ts_columns s))" "i < length (ts_columns s)"
  shows "json_get (row_to_json s r) (fst (ts_columns s ! i)) = to_json (cell_at r i)"
proof -
  have "(THE j. j < length (ts_columns s) \<and> fst (ts_columns s ! j) = fst (ts_columns s ! i)) = i"
    using assms by (intro the_equality) (auto intro: distinct_fst_nth_eq)
  with assms show ?thesis
    by (auto simp: json_get_def row_to_json_def row_to_json_cols_def row_to_json_fold)
qed

lemma row_from_to_json:
  assumes "distinct (map fst (ts_columns s))" "typed_row s r"
  shows "row_from_json F s (row_to_json s r) = Ok r"
proof -
  have len: "length r = length (ts_columns s)" using assms(2) by (rule typed_row_length)
  have "from_json F (json_get (row_to_json s r) (fst (ts_columns s ! i))) (snd (ts_columns s ! i)) = Ok (r ! i)"
    if "i < length r" for i
    using that len assms row_to_json_get [OF assms(1), of i r]
    by (simp add: from_json_to_json typed_row_nth)
  with len show ?thesis
    by (auto simp: row_from_json_def map_res_Inr_iff list_all2_conv_all_nth case_prod_beta)
qed

section \<open>Properties\<close>

text \<open>A composite-key table for the witnesses: \<open>public.members(org int, user text, role text)\<close>.\<close>

definition ex_def :: table_def where
  "ex_def =
     \<lparr>td_columns = [(''org'', \<lparr>cd_ty = TInt, cd_pg_type = Some ''int8'', cd_has_default = False\<rparr>),
                    (''role'', \<lparr>cd_ty = TText, cd_pg_type = Some ''text'', cd_has_default = True\<rparr>),
                    (''user'', \<lparr>cd_ty = TText, cd_pg_type = None, cd_has_default = False\<rparr>)],
      td_primary_key = [''org'', ''user''], td_fingerprint = None\<rparr>"

definition ex_table :: table_ref where
  "ex_table = \<lparr>canon = ''public.members'', dot = 6\<rparr>"

definition ex_schema :: tschema where
  "ex_schema =
     \<lparr>ts_table = ex_table, ts_columns = [(''org'', TInt), (''role'', TText), (''user'', TText)],
      ts_index = map_of (rev [(''org'', 0), (''role'', 1), (''user'', 2)]), ts_pk_index = 0, ts_pk_name = ''org'',
      ts_pk_type = TInt, ts_pk_cols = [0, 2],
      ts_pg_types = [Some ''int8'', Some ''text'', None], ts_has_defaults = [False, True, False],
      ts_fingerprint = None\<rparr>"

lemma ex_from_def: "from_def ex_table ex_def = Ok ex_schema"
  by (simp add: from_def_def ex_def_def ex_schema_def Let_def numeral_2_eq_2)

lemma ex_schema_wf: "schema_wf ex_schema"
  by (rule from_def_wf [OF ex_from_def]) (simp add: ex_def_def)

lemma ex_rows_typed:
  "typed_row ex_schema [VInt 1, VNull, VText u]" "typed_row ex_schema [VInt 1, VText r, VText u]"
  by (simp_all add: typed_row_def ex_schema_def in_i64_def i64_min_def i64_max_def)

text \<open>The row codec is lossless. For every compiled schema and every row its column types admit,
  serialising the row to a JSON object and reading the object back gives the same row.\<close>

theorem row_json_roundtrip:
  assumes "schema_wf s" and "typed_row s r"
  shows "row_from_json F s (row_to_json s r) = Ok r"
  using assms by (intro row_from_to_json) (simp_all add: schema_wf_def)

theorem row_json_roundtrip_witness:
  "row_from_json exact_f64 ex_schema (row_to_json ex_schema [VInt 1, VNull, VText ''u''])
     = Ok [VInt 1, VNull, VText ''u'']"
  using ex_schema_wf ex_rows_typed(1) by (rule row_json_roundtrip)

text \<open>C38: the key string is an injective row identity. Two typed rows of one table, single or
  composite key, have the same key string only if all their key cells are equal, whatever
  separators and backslashes the cells contain.\<close>

theorem key_string_injective:
  assumes "schema_wf s" and "typed_row s r" "typed_row s r'"
    and "key_cells_ok F s r" "key_cells_ok F s r'"
    and "key_string F s r = Ok k" and "key_string F s r' = Ok k"
  shows "map ((!) r) (ts_pk_cols s) = map ((!) r') (ts_pk_cols s)"
proof -
  let ?parts = "\<lambda>x. map (\<lambda>i. to_key_string F (x ! i)) (ts_pk_cols s)"
  have eq: "(if length (ts_pk_cols s) = 1 then hd (?parts r) else join_key_components (?parts r))
      = (if length (ts_pk_cols s) = 1 then hd (?parts r') else join_key_components (?parts r'))"
    using assms(6,7) key_string_parts [OF assms(1) typed_row_length [OF assms(2)]]
      key_string_parts [OF assms(1) typed_row_length [OF assms(3)]]
    by (simp add: Let_def)
  have "?parts r = ?parts r'"
  proof (cases "length (ts_pk_cols s) = 1")
    case True
    then obtain i where "ts_pk_cols s = [i]" by (auto simp: length_Suc_conv)
    with eq show ?thesis by simp
  next
    case False
    with eq have "join_key_components (?parts r) = join_key_components (?parts r')" by simp
    then show ?thesis by (intro join_key_components_inj) simp_all
  qed
  then show ?thesis using assms(1-5) by (intro key_parts_inj)
qed

theorem key_string_injective_witness:
  "map ((!) [VInt 1, VNull, VText ''u'']) (ts_pk_cols ex_schema)
   = map ((!) [VInt 1, VText ''admin'', VText ''u'']) (ts_pk_cols ex_schema)"
proof (rule key_string_injective [OF ex_schema_wf ex_rows_typed])
  show "key_cells_ok exact_f64 ex_schema [VInt 1, VNull, VText ''u'']"
    and "key_cells_ok exact_f64 ex_schema [VInt 1, VText ''admin'', VText ''u'']"
    by (simp_all add: key_cells_ok_def ex_schema_def)
  show "key_string exact_f64 ex_schema [VInt 1, VNull, VText ''u''] = Ok (''1'' @ [PK_SEP] @ ''u'')"
    and "key_string exact_f64 ex_schema [VInt 1, VText ''admin'', VText ''u''] = Ok (''1'' @ [PK_SEP] @ ''u'')"
    by code_simp+
qed

text \<open>Drift is reported exactly when the schema no longer serves. For fingerprints with distinct
  column names, as relations have, the list of described differences is empty if and only if the
  compiled columns, order, types and primary key still match and the replica identity is FULL.\<close>

theorem describe_drift_iff:
  assumes "distinct (column_names c)"
  shows "describe_drift c ob = [] \<longleftrightarrow> still_serves c ob"
proof
  assume "describe_drift c ob = []"
  then show "still_serves c ob"
    unfolding describe_drift_Nil_iff still_serves_def using fp_columns_eqI [OF assms] by blast
next
  assume "still_serves c ob"
  then have eq: "fp_columns c = fp_columns ob" and "replident ob = REPLICA_IDENTITY_FULL" "pk_matches c ob"
    by (simp_all add: still_serves_def)
  moreover from eq have "fp_map c = fp_map ob" "column_names c = column_names ob"
    by (simp_all add: fp_map_def column_names_def)
  ultimately show "describe_drift c ob = []" unfolding describe_drift_Nil_iff by simp
qed

theorem describe_drift_iff_witness:
  "describe_drift
     \<lparr>fp_columns = [\<lparr>fc_name = ''id'', type_oid = 20, typmod = -1\<rparr>], replident = CHR ''f'', fp_pk = None\<rparr>
     \<lparr>fp_columns = [\<lparr>fc_name = ''id'', type_oid = 23, typmod = -1\<rparr>], replident = CHR ''f'', fp_pk = None\<rparr>
   \<noteq> []"
  by (subst describe_drift_iff) (simp_all add: column_names_def still_serves_def)

text \<open>C40: every compiled schema satisfies the schema invariant. Compiling a set of table definitions
  either fails or gives, for each table, distinct names, an index that is exactly the column
  positions, and a non-empty key whose columns exist.\<close>

theorem compile_schema_wf:
  assumes "\<And>t d. (t, d) \<in> set tables \<Longrightarrow> distinct (map fst (td_columns d))"
    and "compile_schema tables = Ok out"
  shows "map fst out = map fst tables \<and> (\<forall>(t, s) \<in> set out. schema_wf s \<and> ts_table s = t)"
proof -
  have *: "fst y = fst x \<and> schema_wf (snd y) \<and> ts_table (snd y) = fst y"
    if "x \<in> set tables" "(case x of (t, d) \<Rightarrow> if td_columns d = [] then Err NoColumns
         else rbind (from_def t d) (\<lambda>s. Ok (t, s))) = Ok y" for x y
  proof -
    obtain t d where x: "x = (t, d)" by (cases x)
    with that obtain s where "from_def t d = Inr s" "y = (t, s)"
      by (auto simp: res_simps split: if_splits)
    with that(1) x assms(1) show ?thesis by (auto simp: from_def_wf from_def_table)
  qed
  from assms(2) have "list_all2 (\<lambda>x y. (case x of (t, d) \<Rightarrow> if td_columns d = [] then Err NoColumns
         else rbind (from_def t d) (\<lambda>s. Ok (t, s))) = Ok y) tables out"
    by (simp add: compile_schema_def map_res_Inr_iff)
  then have "list_all2 (\<lambda>x y. fst y = fst x \<and> schema_wf (snd y) \<and> ts_table (snd y) = fst y) tables out"
    by (rule list.rel_mono_strong) (use * in blast)
  then show ?thesis
    by (induction rule: list_all2_induct) auto
qed

theorem compile_schema_wf_witness: "schema_wf ex_schema \<and> ts_table ex_schema = ex_table"
proof -
  have "compile_schema [(ex_table, ex_def)] = Ok [(ex_table, ex_schema)]"
    using ex_from_def by (simp add: compile_schema_def) (simp add: ex_def_def)
  from compile_schema_wf [OF _ this] show ?thesis by (simp add: ex_def_def)
qed

end
