(* ===== verification/Predicates.thy ===== *)
theory Predicates
  imports Schema "HOL-Library.Sublist" "HOL-Library.Multiset"
begin

text \<open>
  Predicates (\<^verbatim>\<open>apps/engine/src/predicate.rs\<close>): the JSON form with its canonical signature and
  subquery template, the compiled positional form, its three-valued evaluation, and the two
  extractions the routing layers use, \<open>equality_template\<close> and \<open>access_leaf\<close>. The test-only fault of
  \<^verbatim>\<open>fault.rs\<close> is an explicit argument.
\<close>

section \<open>Fault injection\<close>

datatype fault = NoFault | DropDeletes | OffByOneCmp

definition detect :: "string option \<Rightarrow> fault" where
  "detect v =
     (case v of
        Some s \<Rightarrow> if s = ''drop_deletes'' then DropDeletes
                  else if s = ''off_by_one_cmp'' then OffByOneCmp else NoFault
      | None \<Rightarrow> NoFault)"

section \<open>The JSON form\<close>

datatype leaf_op = OpEq | OpNeq | OpLt | OpLte | OpGt | OpGte | OpLike

datatype predicate_json =
    PLeaf string leaf_op json
  | PIsNull string bool
  | PAnd "predicate_json list"
  | POr "predicate_json list"
  | PNot predicate_json
  | PIn string subquery_json bool
and subquery_json = Subquery table_ref string "predicate_json option"

definition show_bool :: "bool \<Rightarrow> string" where
  "show_bool b = (if b then ''true'' else ''false'')"

fun show_op :: "leaf_op \<Rightarrow> string" where
  "show_op OpEq = ''Eq''"
| "show_op OpNeq = ''Neq''"
| "show_op OpLt = ''Lt''"
| "show_op OpLte = ''Lte''"
| "show_op OpGt = ''Gt''"
| "show_op OpGte = ''Gte''"
| "show_op OpLike = ''Like''"

fun canonical_pred :: "f64_ops \<Rightarrow> predicate_json \<Rightarrow> string"
  and subquery_canon :: "f64_ops \<Rightarrow> subquery_json \<Rightarrow> string" where
  "canonical_pred F (PLeaf col op v) =
     ''L('' @ col @ '','' @ show_op op @ '','' @ json_to_string F v @ '')''"
| "canonical_pred F (PIsNull col b) = ''U('' @ col @ '','' @ show_bool b @ '')''"
| "canonical_pred F (PAnd ps) = ''A('' @ join '','' (sort (map (canonical_pred F) ps)) @ '')''"
| "canonical_pred F (POr ps) = ''O('' @ join '','' (sort (map (canonical_pred F) ps)) @ '')''"
| "canonical_pred F (PNot p) = ''N('' @ canonical_pred F p @ '')''"
| "canonical_pred F (PIn col q neg) =
     ''I('' @ col @ '','' @ show_bool neg @ '','' @ subquery_canon F q @ '')''"
| "subquery_canon F (Subquery t proj w) =
     table_as_str t @ ''|'' @ proj @ ''|'' @ (case w of None \<Rightarrow> [] | Some p \<Rightarrow> canonical_pred F p)"

definition subquery_sig :: "f64_ops \<Rightarrow> table_ref \<Rightarrow> string \<Rightarrow> predicate_json option \<Rightarrow> string" where
  "subquery_sig F t proj w =
     table_as_str t @ ''|'' @ proj @ ''|'' @ (case w of None \<Rightarrow> [] | Some p \<Rightarrow> canonical_pred F p)"

fun conjuncts :: "predicate_json \<Rightarrow> predicate_json list" where
  "conjuncts (PAnd ps) = concat (map conjuncts ps)"
| "conjuncts p = [p]"

text \<open>One conjunct of the template: lift the first non-null equality of each column, keep the rest.\<close>

fun lift_conjunct ::
  "predicate_json \<Rightarrow> (string \<times> json) list \<times> predicate_json list \<Rightarrow> (string \<times> json) list \<times> predicate_json list"
where
  "lift_conjunct (PLeaf col OpEq v) (lifted, residual) =
     (if \<not> is_null v \<and> col \<notin> fst ` set lifted then (lifted @ [(col, v)], residual)
      else (lifted, residual @ [PLeaf col OpEq v]))"
| "lift_conjunct p (lifted, residual) = (lifted, residual @ [p])"

definition subquery_template ::
  "f64_ops \<Rightarrow> table_ref \<Rightarrow> string \<Rightarrow> predicate_json option
     \<Rightarrow> string \<times> (string \<times> json) list \<times> predicate_json list" where
  "subquery_template F t proj w =
     (let (lifted0, residual) =
            (case w of None \<Rightarrow> ([], [])
             | Some p \<Rightarrow> fold lift_conjunct (sort_key (canonical_pred F) (conjuncts p)) ([], []));
          lifted = sort_key fst lifted0;
          res_canon = sort (map (canonical_pred F) residual);
          key = table_as_str t @ ''|'' @ proj @ ''|P('' @ join '','' (map fst lifted) @ '')|A(''
                @ join '','' res_canon @ '')''
      in (key, lifted, residual))"

section \<open>The compiled form\<close>

datatype compiled_predicate =
    MatchAll
  | Cmp nat leaf_op val
  | IsNull nat bool
  | And "compiled_predicate list"
  | Or "compiled_predicate list"
  | Not compiled_predicate
  | InSubquery nat string bool

text \<open>The \<open>SubqueryCollector\<close> trait: its one method, on a state of the collector's own.\<close>

type_synonym 's collector = "'s \<Rightarrow> table_ref \<Rightarrow> string \<Rightarrow> predicate_json option \<Rightarrow> 's \<times> string result"

definition no_subqueries :: "unit collector" where
  "no_subqueries s t proj w = (s, Err SubqueriesNotSupported)"

fun compile_with :: "f64_ops \<Rightarrow> 's collector \<Rightarrow> tschema \<Rightarrow> predicate_json \<Rightarrow> 's \<Rightarrow> 's \<times> compiled_predicate result"
  and compile_list :: "f64_ops \<Rightarrow> 's collector \<Rightarrow> tschema \<Rightarrow> predicate_json list \<Rightarrow> 's \<Rightarrow> 's \<times> compiled_predicate list result"
where
  "compile_with F C ts (PLeaf col op v) st =
     (st, rbind (column_index ts col) (\<lambda>idx. rbind (column_type_at ts idx) (\<lambda>ty.
            rbind (literal_from_json F v ty) (\<lambda>x. Ok (Cmp idx op x)))))"
| "compile_with F C ts (PIsNull col b) st = (st, rbind (column_index ts col) (\<lambda>idx. Ok (IsNull idx b)))"
| "compile_with F C ts (PAnd ps) st =
     (case compile_list F C ts ps st of (st', r) \<Rightarrow> (st', rbind r (\<lambda>cs. Ok (And cs))))"
| "compile_with F C ts (POr ps) st =
     (case compile_list F C ts ps st of (st', r) \<Rightarrow> (st', rbind r (\<lambda>cs. Ok (Or cs))))"
| "compile_with F C ts (PNot p) st =
     (case compile_with F C ts p st of (st', r) \<Rightarrow> (st', rbind r (\<lambda>c. Ok (Not c))))"
| "compile_with F C ts (PIn col (Subquery t proj w) neg) st =
     (case column_index ts col of
        Inl e \<Rightarrow> (st, Err e)
      | Inr idx \<Rightarrow> (case C st t proj w of (st', r) \<Rightarrow> (st', rbind r (\<lambda>sig. Ok (InSubquery idx sig neg)))))"
| "compile_list F C ts [] st = (st, Ok [])"
| "compile_list F C ts (p # ps) st =
     (case compile_with F C ts p st of
        (st', Inl e) \<Rightarrow> (st', Err e)
      | (st', Inr c) \<Rightarrow> (case compile_list F C ts ps st' of (st'', r) \<Rightarrow> (st'', rbind r (\<lambda>cs. Ok (c # cs)))))"

definition compile :: "f64_ops \<Rightarrow> tschema \<Rightarrow> predicate_json \<Rightarrow> compiled_predicate result" where
  "compile F ts p = snd (compile_with F no_subqueries ts p ())"

definition compile_opt :: "f64_ops \<Rightarrow> tschema \<Rightarrow> predicate_json option \<Rightarrow> compiled_predicate result" where
  "compile_opt F ts p = (case p of Some p \<Rightarrow> compile F ts p | None \<Rightarrow> Ok MatchAll)"

definition compile_opt_with ::
  "f64_ops \<Rightarrow> 's collector \<Rightarrow> tschema \<Rightarrow> predicate_json option \<Rightarrow> 's \<Rightarrow> 's \<times> compiled_predicate result" where
  "compile_opt_with F C ts p st = (case p of Some p \<Rightarrow> compile_with F C ts p st | None \<Rightarrow> (st, Ok MatchAll))"

text \<open>\<open>equality_template\<close>: \<open>eq_collect\<close> is its inner \<open>collect\<close>, \<open>None\<close> where that returns false.\<close>

fun eq_collect :: "compiled_predicate \<Rightarrow> (nat \<times> val) list \<Rightarrow> (nat \<times> val) list option"
  and eq_collect_all :: "compiled_predicate list \<Rightarrow> (nat \<times> val) list \<Rightarrow> (nat \<times> val) list option"
where
  "eq_collect (Cmp col op v) acc = (if op = OpEq \<and> v \<noteq> VNull then Some (acc @ [(col, v)]) else None)"
| "eq_collect (And ps) acc = eq_collect_all ps acc"
| "eq_collect _ acc = None"
| "eq_collect_all [] acc = Some acc"
| "eq_collect_all (p # ps) acc =
     (case eq_collect p acc of None \<Rightarrow> None | Some acc' \<Rightarrow> eq_collect_all ps acc')"

fun adjacent_dup :: "(nat \<times> val) list \<Rightarrow> bool" where
  "adjacent_dup (a # b # xs) = (fst a = fst b \<or> adjacent_dup (b # xs))"
| "adjacent_dup _ = False"

definition equality_template :: "compiled_predicate \<Rightarrow> (nat \<times> val) list option" where
  "equality_template p =
     (case eq_collect p [] of
        None \<Rightarrow> None
      | Some [] \<Rightarrow> None
      | Some (x # xs) \<Rightarrow>
          (let acc = sort_key fst (x # xs) in if adjacent_dup acc then None else Some acc))"

datatype access_leaf = LeafEq nat val | Lower nat val bool | Upper nat val bool

fun leaf_of :: "compiled_predicate \<Rightarrow> access_leaf option" where
  "leaf_of (Cmp col op v) =
     (if v = VNull then None
      else case op of
        OpEq \<Rightarrow> Some (LeafEq col v)
      | OpGt \<Rightarrow> Some (Lower col v True)
      | OpGte \<Rightarrow> Some (Lower col v False)
      | OpLt \<Rightarrow> Some (Upper col v True)
      | OpLte \<Rightarrow> Some (Upper col v False)
      | OpNeq \<Rightarrow> None
      | OpLike \<Rightarrow> None)"
| "leaf_of _ = None"

definition better_leaf :: "access_leaf option \<Rightarrow> access_leaf \<Rightarrow> bool" where
  "better_leaf best l =
     (case best of
        None \<Rightarrow> True
      | Some (LeafEq _ _) \<Rightarrow> False
      | Some _ \<Rightarrow> (case l of LeafEq _ _ \<Rightarrow> True | _ \<Rightarrow> False))"

fun leaf_collect :: "compiled_predicate \<Rightarrow> access_leaf option \<Rightarrow> access_leaf option" where
  "leaf_collect (And ps) best = fold leaf_collect ps best"
| "leaf_collect p best =
     (case leaf_of p of None \<Rightarrow> best | Some l \<Rightarrow> if better_leaf best l then Some l else best)"

definition access_leaf :: "compiled_predicate \<Rightarrow> access_leaf option" where
  "access_leaf p = leaf_collect p None"

section \<open>Three-valued evaluation\<close>

datatype tri = TTrue | TFalse | TUnknown

definition tri_of_bool :: "bool \<Rightarrow> tri" where
  "tri_of_bool b = (if b then TTrue else TFalse)"

fun tri_not :: "tri \<Rightarrow> tri" where
  "tri_not TTrue = TFalse"
| "tri_not TFalse = TTrue"
| "tri_not TUnknown = TUnknown"

text \<open>The loop of \<open>like_match\<close>; the two cursors are the remaining text and pattern, and the saved
  star is the pattern after it with the text it was met at.\<close>

function (sequential) like_loop :: "string \<Rightarrow> string \<Rightarrow> (string \<times> string) option \<Rightarrow> string option" where
  "like_loop [] p star = Some p"
| "like_loop (c # t) p star =
     (if p \<noteq> [] \<and> (hd p = CHR ''_'' \<or> hd p = c) then like_loop t (tl p) star
      else if p \<noteq> [] \<and> hd p = CHR ''%'' then like_loop (c # t) (tl p) (Some (tl p, c # t))
      else case star of
             Some (sp, _ # st) \<Rightarrow> like_loop st sp (Some (sp, st))
           | _ \<Rightarrow> None)"
  by pat_completeness auto
termination
proof (relation "measures
    [\<lambda>(t, p, star). case star of None \<Rightarrow> 0 | Some (sp, st) \<Rightarrow> if suffix p sp then 0 else 1,
     \<lambda>(t, p, star). case star of None \<Rightarrow> Suc (length p) | Some (sp, st) \<Rightarrow> length sp,
     \<lambda>(t, p, star). case star of None \<Rightarrow> 0 | Some (sp, st) \<Rightarrow> length st,
     \<lambda>(t, p, star). length t]", goal_cases)
  case 1
  show ?case by simp
next
  case (2 c t p star)
  have "suffix (tl p) sp" if "suffix p sp" for sp using that by (meson suffix_order.trans suffix_tl)
  with 2 show ?case by (cases p) (auto split: option.splits)
next
  case (3 c t p star)
  have "length (tl p) < length sp" if "suffix p sp" for sp
    using that 3 suffix_length_le [of p sp] by (cases p) auto
  with 3 show ?case by (cases p) (auto split: option.splits)
next
  case (4 c t p star)
  then show ?case by (auto split: option.splits)
qed

definition like_match :: "string \<Rightarrow> string \<Rightarrow> bool" where
  "like_match text pattern =
     (case like_loop text pattern None of
        None \<Rightarrow> False
      | Some p \<Rightarrow> dropWhile (\<lambda>c. c = CHR ''%'') p = [])"

datatype ordering_t = Less | Equal | Greater

definition compare_with :: "'a :: linorder \<Rightarrow> 'a \<Rightarrow> ordering_t" where
  "compare_with a b = (if a < b then Less else if a = b then Equal else Greater)"

fun ordering :: "val \<Rightarrow> val \<Rightarrow> ordering_t option" where
  "ordering (VInt x) (VInt y) = Some (compare_with x y)"
| "ordering (VFloat x) (VFloat y) = Some (compare_with x y)"
| "ordering (VText x) (VText y) = Some (compare_with x y)"
| "ordering (VBool x) (VBool y) = Some (compare_with x y)"
| "ordering _ _ = None"

definition cmp :: "fault \<Rightarrow> val \<Rightarrow> leaf_op \<Rightarrow> val \<Rightarrow> tri" where
  "cmp fl cell op v =
     (if cell = VNull \<or> v = VNull then TUnknown
      else case op of
        OpEq \<Rightarrow> tri_of_bool (cell = v)
      | OpNeq \<Rightarrow> tri_of_bool (cell \<noteq> v)
      | OpLike \<Rightarrow> (case (cell, v) of (VText c, VText p) \<Rightarrow> tri_of_bool (like_match c p) | _ \<Rightarrow> TUnknown)
      | _ \<Rightarrow>
          (case ordering cell v of
             None \<Rightarrow> TUnknown
           | Some ord \<Rightarrow>
               (let off_by_one = (fl = OffByOneCmp) in
                tri_of_bool
                  (case op of
                     OpLt \<Rightarrow> ord = Less
                   | OpLte \<Rightarrow> if off_by_one then ord = Less else ord \<noteq> Greater
                   | OpGt \<Rightarrow> ord = Greater
                   | _ \<Rightarrow> if off_by_one then ord = Greater else ord \<noteq> Less))))"

text \<open>The \<open>SubqueryEval\<close> trait.\<close>

record subq_eval =
  contains :: "string \<Rightarrow> val \<Rightarrow> bool"
  has_null :: "string \<Rightarrow> bool"

fun eval_ctx :: "fault \<Rightarrow> subq_eval \<Rightarrow> row \<Rightarrow> compiled_predicate \<Rightarrow> tri"
  and eval_and :: "fault \<Rightarrow> subq_eval \<Rightarrow> row \<Rightarrow> compiled_predicate list \<Rightarrow> tri \<Rightarrow> tri"
  and eval_or :: "fault \<Rightarrow> subq_eval \<Rightarrow> row \<Rightarrow> compiled_predicate list \<Rightarrow> tri \<Rightarrow> tri"
where
  "eval_ctx fl ev r MatchAll = TTrue"
| "eval_ctx fl ev r (Cmp col op v) = cmp fl (cell_at r col) op v"
| "eval_ctx fl ev r (IsNull col b) = tri_of_bool ((cell_at r col = VNull) = b)"
| "eval_ctx fl ev r (And ps) = eval_and fl ev r ps TTrue"
| "eval_ctx fl ev r (Or ps) = eval_or fl ev r ps TFalse"
| "eval_ctx fl ev r (Not p) = tri_not (eval_ctx fl ev r p)"
| "eval_ctx fl ev r (InSubquery col sig neg) =
     (if cell_at r col = VNull then TUnknown
      else let present = contains ev sig (cell_at r col) in
        if \<not> neg then tri_of_bool present
        else if has_null ev sig then TUnknown
        else tri_of_bool (\<not> present))"
| "eval_and fl ev r [] acc = acc"
| "eval_and fl ev r (p # ps) acc =
     (case eval_ctx fl ev r p of
        TFalse \<Rightarrow> TFalse
      | TUnknown \<Rightarrow> eval_and fl ev r ps TUnknown
      | TTrue \<Rightarrow> eval_and fl ev r ps acc)"
| "eval_or fl ev r [] acc = acc"
| "eval_or fl ev r (p # ps) acc =
     (case eval_ctx fl ev r p of
        TTrue \<Rightarrow> TTrue
      | TUnknown \<Rightarrow> eval_or fl ev r ps TUnknown
      | TFalse \<Rightarrow> eval_or fl ev r ps acc)"

definition matches_ctx :: "fault \<Rightarrow> subq_eval \<Rightarrow> compiled_predicate \<Rightarrow> row \<Rightarrow> bool" where
  "matches_ctx fl ev p r \<longleftrightarrow> eval_ctx fl ev r p = TTrue"

text \<open>\<open>PanicEval\<close>: \<open>matches\<close> is called on subquery-free predicates only, where the evaluator is
  never consulted (\<open>eval_subquery_free\<close> below), so its answers are immaterial.\<close>

definition panic_eval :: subq_eval where
  "panic_eval = \<lparr>contains = (\<lambda>_ _. False), has_null = (\<lambda>_. False)\<rparr>"

definition matches :: "fault \<Rightarrow> compiled_predicate \<Rightarrow> row \<Rightarrow> bool" where
  "matches fl p r \<longleftrightarrow> matches_ctx fl panic_eval p r"

section \<open>Evaluation lemmas\<close>

lemma tri_of_bool_simps [simp]:
  "tri_of_bool b = TTrue \<longleftrightarrow> b" "tri_of_bool b = TFalse \<longleftrightarrow> \<not> b" "tri_of_bool b \<noteq> TUnknown"
  by (simp_all add: tri_of_bool_def)

lemma eval_and_True [simp]:
  "eval_and fl ev r ps acc = TTrue \<longleftrightarrow> acc = TTrue \<and> (\<forall>p \<in> set ps. eval_ctx fl ev r p = TTrue)"
  by (induction ps arbitrary: acc) (auto split: tri.splits)

lemma eval_and_False:
  "acc \<noteq> TFalse \<Longrightarrow> eval_and fl ev r ps acc = TFalse \<longleftrightarrow> (\<exists>p \<in> set ps. eval_ctx fl ev r p = TFalse)"
  by (induction ps arbitrary: acc) (auto split: tri.splits)

lemma eval_or_True [simp]:
  "acc \<noteq> TTrue \<Longrightarrow> eval_or fl ev r ps acc = TTrue \<longleftrightarrow> (\<exists>p \<in> set ps. eval_ctx fl ev r p = TTrue)"
  by (induction ps arbitrary: acc) (auto split: tri.splits)

lemma eval_or_False:
  "eval_or fl ev r ps acc = TFalse \<longleftrightarrow> acc = TFalse \<and> (\<forall>p \<in> set ps. eval_ctx fl ev r p = TFalse)"
  by (induction ps arbitrary: acc) (auto split: tri.splits)

lemma matches_ctx_And [simp]: "matches_ctx fl ev (And ps) r \<longleftrightarrow> (\<forall>p \<in> set ps. matches_ctx fl ev p r)"
  by (simp add: matches_ctx_def)

lemma matches_ctx_Or [simp]: "matches_ctx fl ev (Or ps) r \<longleftrightarrow> (\<exists>p \<in> set ps. matches_ctx fl ev p r)"
  by (simp add: matches_ctx_def)

lemma matches_ctx_MatchAll [simp]: "matches_ctx fl ev MatchAll r"
  by (simp add: matches_ctx_def)

lemma cmp_Eq [simp]: "cmp fl c OpEq v = TTrue \<longleftrightarrow> c = v \<and> v \<noteq> VNull"
  by (auto simp: cmp_def)

lemma matches_ctx_Eq [simp]: "matches_ctx fl ev (Cmp i OpEq v) r \<longleftrightarrow> cell_at r i = v \<and> v \<noteq> VNull"
  by (simp add: matches_ctx_def)

fun subquery_free :: "compiled_predicate \<Rightarrow> bool" where
  "subquery_free (InSubquery _ _ _) = False"
| "subquery_free (And ps) = list_all subquery_free ps"
| "subquery_free (Or ps) = list_all subquery_free ps"
| "subquery_free (Not p) = subquery_free p"
| "subquery_free _ = True"

lemma eval_subquery_free:
  "subquery_free p \<Longrightarrow> eval_ctx fl ev r p = eval_ctx fl ev' r p"
  "list_all subquery_free ps \<Longrightarrow> eval_and fl ev r ps acc = eval_and fl ev' r ps acc"
  "list_all subquery_free ps \<Longrightarrow> eval_or fl ev r ps acc = eval_or fl ev' r ps acc"
  by (induction fl ev r p and fl ev r ps acc and fl ev r ps acc rule: eval_ctx_eval_and_eval_or.induct)
    (auto split: tri.splits)

lemma compile_no_subqueries_free:
  "snd (compile_with F no_subqueries ts p st) = Inr c \<Longrightarrow> subquery_free c"
  "snd (compile_list F no_subqueries ts ps st) = Inr cs \<Longrightarrow> list_all subquery_free cs"
proof (induction F "no_subqueries :: unit collector" ts p st and F "no_subqueries :: unit collector" ts ps st
    arbitrary: c and cs rule: compile_with_compile_list.induct)
  case (8 F ts p ps st)
  then show ?case by (auto simp: res_simps split: prod.splits sum.splits)
qed (auto simp: res_simps no_subqueries_def split: prod.splits sum.splits)

lemma compile_free: "compile F ts p = Inr c \<Longrightarrow> subquery_free c"
  by (simp add: compile_def compile_no_subqueries_free)

lemma compile_opt_free: "compile_opt F ts p = Inr c \<Longrightarrow> subquery_free c"
  by (auto simp: compile_opt_def compile_free split: option.splits)

lemma matches_free: "subquery_free p \<Longrightarrow> matches fl p r = matches_ctx fl ev p r"
  using eval_subquery_free(1) [of p fl panic_eval r ev] by (simp add: matches_def matches_ctx_def)

section \<open>Access leaves\<close>

text \<open>What an access leaf says of a row.\<close>

fun leaf_holds :: "access_leaf \<Rightarrow> row \<Rightarrow> bool" where
  "leaf_holds (LeafEq c v) r = (cell_at r c = v \<and> v \<noteq> VNull)"
| "leaf_holds (Lower c v strict) r =
     (ordering (cell_at r c) v = Some Greater \<or> \<not> strict \<and> ordering (cell_at r c) v = Some Equal)"
| "leaf_holds (Upper c v strict) r =
     (ordering (cell_at r c) v = Some Less \<or> \<not> strict \<and> ordering (cell_at r c) v = Some Equal)"

lemma leaf_of_holds: "leaf_of p = Some l \<Longrightarrow> matches_ctx fl ev p r \<Longrightarrow> leaf_holds l r"
proof (induction p rule: leaf_of.induct)
  case (1 col op v)
  from 1 show ?case
    by (cases op) (auto simp: matches_ctx_def cmp_def Let_def split: if_splits option.splits ordering_t.splits,
        (metis ordering_t.exhaust)+)
qed auto

lemma leaf_collect_holds:
  "leaf_collect p best = Some l \<Longrightarrow> matches_ctx fl ev p r \<Longrightarrow> best = Some l \<or> leaf_holds l r"
proof (induction p best rule: leaf_collect.induct)
  case (1 ps best)
  have "leaf_collect (And qs) b = Some l \<Longrightarrow> set qs \<subseteq> set ps \<Longrightarrow> b = Some l \<or> leaf_holds l r" for qs b
  proof (induction qs arbitrary: b)
    case (Cons q qs)
    then have "leaf_collect q b = Some l \<or> leaf_holds l r" by simp
    with "1.IH" [of q b] "1.prems"(2) Cons.prems(2) show ?case by auto
  qed simp
  with "1.prems"(1) show ?case by blast
qed (auto dest: leaf_of_holds simp del: leaf_of.simps matches_ctx_Or matches_ctx_Eq matches_ctx_MatchAll split: option.splits if_splits)

lemma access_leaf_holds: "access_leaf p = Some l \<Longrightarrow> matches_ctx fl ev p r \<Longrightarrow> leaf_holds l r"
  using leaf_collect_holds [of p None] by (auto simp: access_leaf_def)

section \<open>Equality templates\<close>

lemma eq_collect_matches:
  "eq_collect p acc = Some out \<Longrightarrow> \<exists>kv. out = acc @ kv \<and> (\<forall>(c, v) \<in> set kv. v \<noteq> VNull) \<and>
     (\<forall>r. matches_ctx fl ev p r \<longleftrightarrow> (\<forall>(c, v) \<in> set kv. cell_at r c = v))"
  "eq_collect_all ps acc = Some out \<Longrightarrow> \<exists>kv. out = acc @ kv \<and> (\<forall>(c, v) \<in> set kv. v \<noteq> VNull) \<and>
     (\<forall>r. (\<forall>p \<in> set ps. matches_ctx fl ev p r) \<longleftrightarrow> (\<forall>(c, v) \<in> set kv. cell_at r c = v))"
proof (induction p acc and ps acc arbitrary: out and out rule: eq_collect_eq_collect_all.induct)
  case (5 p ps acc)
  then obtain acc' where h: "eq_collect p acc = Some acc'" "eq_collect_all ps acc' = Some out"
    by (auto split: option.splits)
  from 5(1) [OF h(1)] obtain kv where kv: "acc' = acc @ kv" "\<forall>(c, v) \<in> set kv. v \<noteq> VNull"
      "\<forall>r. matches_ctx fl ev p r \<longleftrightarrow> (\<forall>(c, v) \<in> set kv. cell_at r c = v)" by auto
  from 5(2) [OF h] obtain kv' where kv': "out = acc' @ kv'" "\<forall>(c, v) \<in> set kv'. v \<noteq> VNull"
      "\<forall>r. (\<forall>p \<in> set ps. matches_ctx fl ev p r) \<longleftrightarrow> (\<forall>(c, v) \<in> set kv'. cell_at r c = v)" by auto
  from kv kv' show ?case by (intro exI [of _ "kv @ kv'"]) (auto simp: ball_Un)
qed (auto split: if_splits)

lemma adjacent_dup_sorted:
  "sorted (map fst xs) \<Longrightarrow> \<not> adjacent_dup xs \<longleftrightarrow> distinct (map fst xs)"
proof (induction xs rule: adjacent_dup.induct)
  case (1 a b xs)
  then show ?case by (cases "fst a = fst b") (auto simp: image_iff intro: order.antisym)
qed auto

lemma equality_template_Some:
  assumes "equality_template p = Some kv"
  shows "kv \<noteq> []" "sorted (map fst kv)" "distinct (map fst kv)" "\<forall>(c, v) \<in> set kv. v \<noteq> VNull"
    "matches_ctx fl ev p r \<longleftrightarrow> (\<forall>(c, v) \<in> set kv. cell_at r c = v)"
proof -
  from assms obtain acc where acc: "eq_collect p [] = Some acc" "acc \<noteq> []"
    and kv: "kv = sort_key fst acc" "\<not> adjacent_dup kv"
    by (auto simp: equality_template_def Let_def split: option.splits list.splits if_splits)
  from kv(1) acc(2) show "kv \<noteq> []" by (metis length_0_conv length_sort)
  from kv(1) show "sorted (map fst kv)" by simp
  with kv(2) show "distinct (map fst kv)" by (simp add: adjacent_dup_sorted)
  show "\<forall>(c, v) \<in> set kv. v \<noteq> VNull"
    "matches_ctx fl ev p r \<longleftrightarrow> (\<forall>(c, v) \<in> set kv. cell_at r c = v)"
    using eq_collect_matches(1) [OF acc(1), of fl ev] kv(1) by auto
qed

section \<open>Subquery templates\<close>

text \<open>A collector whose answer does not depend on its state, such as one that returns the canonical
  signature of the subquery, or one that rejects every subquery.\<close>

definition stateless_answers :: "'s collector \<Rightarrow> bool" where
  "stateless_answers C \<longleftrightarrow> (\<forall>s s' t proj w. snd (C s t proj w) = snd (C s' t proj w))"

lemma stateless_answersD: "stateless_answers C \<Longrightarrow> snd (C s t proj w) = snd (C s' t proj w)"
  by (simp add: stateless_answers_def)

lemma snd_case_prod_rbind:
  "snd (case x of (s, r) \<Rightarrow> (s, rbind r f)) = rbind (snd x) f"
  by (cases x) simp

lemma compile_list_Cons_snd:
  "snd (compile_list F C ts (p # ps) st) =
     rbind (snd (compile_with F C ts p st)) (\<lambda>c.
       rbind (snd (compile_list F C ts ps (fst (compile_with F C ts p st)))) (\<lambda>cs. Ok (c # cs)))"
  by (cases "compile_with F C ts p st"; cases "snd (compile_with F C ts p st)")
    (simp_all add: snd_case_prod_rbind)

lemma compile_with_state:
  "stateless_answers C \<Longrightarrow> snd (compile_with F C ts p st) = snd (compile_with F C ts p st')"
  "stateless_answers C \<Longrightarrow> snd (compile_list F C ts ps st) = snd (compile_list F C ts ps st')"
proof (induction F C ts p st and F C ts ps st arbitrary: st' and st' rule: compile_with_compile_list.induct)
  case (6 F C ts col t proj w neg st)
  then show ?case
    by (auto simp: snd_case_prod_rbind stateless_answersD [of C st t proj w st'] split: sum.splits)
next
  case (8 F C ts p ps st)
  show ?case
  proof (cases "snd (compile_with F C ts p st)")
    case (Inr c)
    then have s: "(fst (compile_with F C ts p st), Inr c) = compile_with F C ts p st"
      by (metis prod.collapse)
    have "snd (compile_list F C ts ps (fst (compile_with F C ts p st)))
        = snd (compile_list F C ts ps (fst (compile_with F C ts p st')))"
      using 8(2) [OF s refl 8(3)] .
    with 8(1) [OF 8(3), of st'] show ?thesis by (simp only: compile_list_Cons_snd)
  qed (use 8(1) [OF 8(3), of st'] in \<open>simp only: compile_list_Cons_snd, simp\<close>)
qed (simp_all add: snd_case_prod_rbind, metis+)

text \<open>A stateless collector compiles a list element by element.\<close>

lemma compile_list_map_res:
  assumes "stateless_answers C"
  shows "snd (compile_list F C ts ps st) = map_res (\<lambda>p. snd (compile_with F C ts p st)) ps"
proof (induction ps arbitrary: st)
  case (Cons p ps)
  show ?case
    unfolding compile_list_Cons_snd
    using compile_with_state(2) [OF assms, of F ts ps "fst (compile_with F C ts p st)" st] Cons.IH [of st]
    by (auto simp: rbind_def split: sum.splits)
qed simp

lemma compile_conjuncts:
  assumes "stateless_answers C"
  shows "snd (compile_with F C ts p st) = Inr c \<Longrightarrow>
    \<exists>cs. map_res (\<lambda>q. snd (compile_with F C ts q st)) (conjuncts p) = Inr cs \<and>
      (\<forall>fl ev r. matches_ctx fl ev c r \<longleftrightarrow> (\<forall>d \<in> set cs. matches_ctx fl ev d r))"
proof (induction p arbitrary: c rule: conjuncts.induct)
  case (1 ps)
  let ?comp = "\<lambda>q. snd (compile_with F C ts q st)"
  from "1.prems" obtain ds where c: "c = And ds" and ds: "list_all2 (\<lambda>p d. ?comp p = Inr d) ps ds"
    by (auto simp: snd_case_prod_rbind res_simps compile_list_map_res [OF assms])
  have "\<exists>cs. list_all2 (\<lambda>q c. ?comp q = Inr c) (concat (map conjuncts ps)) cs \<and>
      (\<forall>fl ev r. (\<forall>d \<in> set ds. matches_ctx fl ev d r) \<longleftrightarrow> (\<forall>d \<in> set cs. matches_ctx fl ev d r))"
    using ds "1.IH"
  proof (induction rule: list_all2_induct)
    case (Cons p ps d ds)
    from Cons.prems [of p d] Cons.hyps obtain cs where
      cs: "list_all2 (\<lambda>q c. ?comp q = Inr c) (conjuncts p) cs"
        "\<forall>fl ev r. matches_ctx fl ev d r \<longleftrightarrow> (\<forall>d \<in> set cs. matches_ctx fl ev d r)"
      by (auto simp: map_res_Inr_iff)
    from Cons.IH [OF Cons.prems] obtain cs' where
      cs': "list_all2 (\<lambda>q c. ?comp q = Inr c) (concat (map conjuncts ps)) cs'"
        "\<forall>fl ev r. (\<forall>d \<in> set ds. matches_ctx fl ev d r) \<longleftrightarrow> (\<forall>d \<in> set cs'. matches_ctx fl ev d r)"
      by auto
    with cs show ?case
      by (intro exI [of _ "cs @ cs'"]) (auto intro: list_all2_appendI)
  qed simp
  with c show ?case by (simp add: map_res_Inr_iff)
qed auto

text \<open>Lifting splits the conjuncts into the lifted equalities and the residual.\<close>

definition lifted_preds :: "(string \<times> json) list \<Rightarrow> predicate_json list" where
  "lifted_preds kv = map (\<lambda>(c, v). PLeaf c OpEq v) kv"

lemma lift_conjunct_mset:
  assumes "lift_conjunct p (l, res) = (l', res')"
  shows "mset (lifted_preds l' @ res') = add_mset p (mset (lifted_preds l @ res))"
    and "distinct (map fst l) \<Longrightarrow> distinct (map fst l')"
    and "(\<forall>(c, v) \<in> set l. \<not> is_null v) \<Longrightarrow> (\<forall>(c, v) \<in> set l'. \<not> is_null v)"
  using assms
  by (induction p "(l, res)" rule: lift_conjunct.induct) (auto simp: lifted_preds_def split: if_splits)

lemma fold_lift_conjunct:
  "fold lift_conjunct ps (l, res) = (l', res') \<Longrightarrow>
   mset (lifted_preds l' @ res') = mset ps + mset (lifted_preds l @ res) \<and>
   (distinct (map fst l) \<longrightarrow> distinct (map fst l')) \<and>
   ((\<forall>(c, v) \<in> set l. \<not> is_null v) \<longrightarrow> (\<forall>(c, v) \<in> set l'. \<not> is_null v))"
proof (induction ps arbitrary: l res)
  case (Cons p ps)
  obtain l1 res1 where s: "lift_conjunct p (l, res) = (l1, res1)"
    by (cases "lift_conjunct p (l, res)")
  with Cons.prems have "fold lift_conjunct ps (l1, res1) = (l', res')" by simp
  from Cons.IH [OF this] lift_conjunct_mset [OF s] show ?case by simp
qed simp

lemmas lifting_simps = lifted_preds_def subquery_template_def Let_def

lemma subquery_template_split:
  assumes "subquery_template F t proj (Some w) = (key, lifted, residual)"
  shows "mset (lifted_preds lifted @ residual) = mset (conjuncts w)"
    and "sorted (map fst lifted)" "distinct (map fst lifted)" "\<forall>(c, v) \<in> set lifted. \<not> is_null v"
proof -
  obtain l where l: "fold lift_conjunct (sort_key (canonical_pred F) (conjuncts w)) ([], []) = (l, residual)"
    and lifted: "lifted = sort_key fst l"
    using assms by (auto simp: lifting_simps split: prod.splits)
  have "mset (lifted_preds (sort_key fst l)) = mset (lifted_preds l)" by (simp add: lifted_preds_def)
  with fold_lift_conjunct [OF l] lifted
  show "mset (lifted_preds lifted @ residual) = mset (conjuncts w)" by (simp add: lifted_preds_def)
  show "sorted (map fst lifted)" by (simp add: lifted)
  have "mset (map fst lifted) = mset (map fst l)" by (simp add: lifted)
  then have "distinct (map fst lifted) = distinct (map fst l)" by (rule mset_eq_imp_distinct_iff)
  with fold_lift_conjunct [OF l] show "distinct (map fst lifted)" by simp
  from fold_lift_conjunct [OF l] lifted show "\<forall>(c, v) \<in> set lifted. \<not> is_null v" by simp
qed

section \<open>\<open>LIKE\<close>\<close>

declare like_loop.simps(2) [simp del]

text \<open>The reference meaning: a percent sign matches any sequence, an underscore any one character.\<close>

fun like_spec :: "string \<Rightarrow> string \<Rightarrow> bool" where
  "like_spec [] t = (t = [])"
| "like_spec (c # p) t =
     (if c = CHR ''%'' then \<exists>k \<le> length t. like_spec p (drop k t)
      else t \<noteq> [] \<and> (c = CHR ''_'' \<or> c = hd t) \<and> like_spec p (tl t))"

text \<open>The state of the search: the pattern segment \<open>u\<close> since the last star, which has no star in it
  and has matched the text \<open>x\<close> read since.\<close>

definition segment_matches :: "string \<Rightarrow> string \<Rightarrow> bool" where
  "segment_matches u x \<longleftrightarrow> list_all2 (\<lambda>c d. c \<noteq> CHR ''%'' \<and> (c = CHR ''_'' \<or> c = d)) u x"

lemma like_spec_drop: "like_spec (CHR ''%'' # p) (drop k t) \<Longrightarrow> like_spec (CHR ''%'' # p) t"
proof (cases "k \<le> length t")
  case True
  assume "like_spec (CHR ''%'' # p) (drop k t)"
  then obtain j where "j \<le> length t - k" "like_spec p (drop (j + k) t)" by auto
  with True show ?thesis by (auto intro!: exI [of _ "j + k"])
next
  case False
  assume "like_spec (CHR ''%'' # p) (drop k t)"
  with False show ?thesis by (auto intro!: exI [of _ "length t"])
qed

lemma like_spec_percent:
  "like_spec (CHR ''%'' # p) t \<longleftrightarrow>
     like_spec p t \<or> (\<exists>k. 0 < k \<and> k \<le> length t \<and> like_spec p (drop k t))"
proof
  assume "like_spec (CHR ''%'' # p) t"
  then obtain k where "k \<le> length t" "like_spec p (drop k t)" by auto
  then show "like_spec p t \<or> (\<exists>k. 0 < k \<and> k \<le> length t \<and> like_spec p (drop k t))"
    by (cases "k = 0") auto
qed (auto intro: exI [of _ 0])

lemma ex_drop_Cons:
  "(\<exists>k. 0 < k \<and> k \<le> length (d # st) \<and> P (drop k (d # st))) \<longleftrightarrow>
   P st \<or> (\<exists>k. 0 < k \<and> k \<le> length st \<and> P (drop k st))"
proof
  assume "\<exists>k. 0 < k \<and> k \<le> length (d # st) \<and> P (drop k (d # st))"
  then obtain j where "j \<le> length st" "P (drop j st)" by (auto simp: gr0_conv_Suc)
  then show "P st \<or> (\<exists>k. 0 < k \<and> k \<le> length st \<and> P (drop k st))" by (cases "j = 0") auto
next
  assume "P st \<or> (\<exists>k. 0 < k \<and> k \<le> length st \<and> P (drop k st))"
  then obtain j where "j \<le> length st" "P (drop j st)" by (metis drop0 le0)
  then show "\<exists>k. 0 < k \<and> k \<le> length (d # st) \<and> P (drop k (d # st))"
    by (intro exI [of _ "Suc j"]) auto
qed

lemma like_spec_segment:
  "segment_matches u x \<Longrightarrow> like_spec (u @ p) t \<Longrightarrow> length u \<le> length t \<and> like_spec p (drop (length u) t)"
  unfolding segment_matches_def
proof (induction u x arbitrary: t rule: list_all2_induct)
  case (Cons c u d x)
  then obtain e t' where "t = e # t'" by (cases t) auto
  with Cons show ?case by auto
qed simp

lemma dropWhile_percent: "dropWhile (\<lambda>c. c = CHR ''%'') p = [] \<longleftrightarrow> like_spec p []"
  by (induction p) auto

text \<open>What the search still can find: a match at the cursor, or one that moves the last star on.\<close>

definition like_remaining :: "string \<Rightarrow> string \<Rightarrow> (string \<times> string) option \<Rightarrow> bool" where
  "like_remaining t p star \<longleftrightarrow>
     like_spec p t \<or>
     (\<exists>sp st. star = Some (sp, st) \<and> (\<exists>k. 0 < k \<and> k \<le> length st \<and> like_spec sp (drop k st)))"

definition star_inv :: "string \<Rightarrow> string \<Rightarrow> (string \<times> string) option \<Rightarrow> bool" where
  "star_inv t p star \<longleftrightarrow>
     (\<forall>sp st. star = Some (sp, st) \<longrightarrow> (\<exists>u x. sp = u @ p \<and> st = x @ t \<and> segment_matches u x))"

lemma like_loop_correct:
  assumes "CHR ''%'' \<notin> set t" and "star_inv t p star"
    and "\<And>sp st. star = Some (sp, st) \<Longrightarrow> CHR ''%'' \<notin> set st"
  shows "(case like_loop t p star of None \<Rightarrow> False | Some q \<Rightarrow> like_spec q []) \<longleftrightarrow> like_remaining t p star"
  using assms
proof (induction t p star rule: like_loop.induct)
  case (1 p star)
  have "like_spec p []" if s: "star = Some (sp, st)" "0 < k" "k \<le> length st" "like_spec sp (drop k st)" for sp st k
  proof -
    from "1.prems"(2) s(1) obtain u where u: "sp = u @ p" "segment_matches u st"
      by (auto simp: star_inv_def)
    from like_spec_segment [OF u(2)] s(4) u(1) have "length u \<le> length st - k" by fastforce
    moreover have "length u = length st" using u(2) by (simp add: segment_matches_def list_all2_lengthD)
    ultimately show ?thesis using s(2,3) by simp
  qed
  then show ?case by (auto simp: like_remaining_def)
next
  case (2 c t p star)
  consider (retry) "p = [] \<or> (hd p \<noteq> CHR ''_'' \<and> hd p \<noteq> c \<and> hd p \<noteq> CHR ''%'')"
    | (literal) q where "p = q # tl p" and "q = CHR ''_'' \<or> q = c"
    | (percent) q where "p = q # tl p" and "q \<noteq> c" and "q = CHR ''%''"
    by (cases p) auto
  then show ?case
  proof cases
    case literal
    then have q: "p \<noteq> [] \<and> (hd p = CHR ''_'' \<or> hd p = c)" by (cases p) auto
    have np: "q \<noteq> CHR ''%''" using literal "2.prems"(1) by auto
    have inv: "star_inv t (tl p) star"
      unfolding star_inv_def
    proof (intro allI impI)
      fix sp st assume s: "star = Some (sp, st)"
      with "2.prems"(2) obtain u x where u: "sp = u @ p" "st = x @ c # t" "segment_matches u x"
        by (auto simp: star_inv_def)
      with literal np have "segment_matches (u @ [q]) (x @ [c])" "sp = (u @ [q]) @ tl p" "st = (x @ [c]) @ t"
        by (auto simp: segment_matches_def intro: list_all2_appendI)
      then show "\<exists>u x. sp = u @ tl p \<and> st = x @ t \<and> segment_matches u x" by blast
    qed
    have "like_spec p (c # t) \<longleftrightarrow> like_spec (tl p) t" using literal(2) np by (cases p) (use literal(1) in auto)
    moreover have "like_loop (c # t) p star = like_loop t (tl p) star"
      by (subst like_loop.simps(2)) (simp add: q)
    ultimately show ?thesis using "2.IH"(1) [OF q _ inv "2.prems"(3)] "2.prems"(1)
      by (simp add: like_remaining_def)
  next
    case percent
    then have q: "\<not> (p \<noteq> [] \<and> (hd p = CHR ''_'' \<or> hd p = c))" "p \<noteq> [] \<and> hd p = CHR ''%''"
      by (cases p; auto)+
    have inv: "star_inv (c # t) (tl p) (Some (tl p, c # t))"
      by (auto simp: star_inv_def segment_matches_def)
    have now: "like_spec p (c # t) \<longleftrightarrow> like_remaining (c # t) (tl p) (Some (tl p, c # t))"
      using percent(1,3) like_spec_percent [of "tl p" "c # t"] by (simp add: like_remaining_def)
    have "like_spec p (c # t)"
      if s: "star = Some (sp, st)" "0 < k" "k \<le> length st" "like_spec sp (drop k st)" for sp st k
    proof -
      from "2.prems"(2) s(1) obtain u x where u: "sp = u @ p" "st = x @ c # t" "segment_matches u x"
        by (auto simp: star_inv_def)
      have len: "length u = length x" using u(3) by (simp add: segment_matches_def list_all2_lengthD)
      from like_spec_segment [OF u(3)] s(4) u(1) have "like_spec p (drop (length u + k) st)"
        by (metis add.commute drop_drop)
      then have "like_spec p (drop k (c # t))" using u(2) len by (simp add: add.commute)
      with percent like_spec_drop [of "tl p" k "c # t"] show ?thesis by metis
    qed
    then have "like_remaining (c # t) p star \<longleftrightarrow> like_spec p (c # t)" by (auto simp: like_remaining_def)
    moreover have "like_loop (c # t) p star = like_loop (c # t) (tl p) (Some (tl p, c # t))"
      by (subst like_loop.simps(2)) (use q percent(2,3) in auto)
    ultimately show ?thesis using now "2.IH"(2) [OF q "2.prems"(1) inv] "2.prems"(1) by simp
  next
    case retry
    then have q: "\<not> (p \<noteq> [] \<and> (hd p = CHR ''_'' \<or> hd p = c))" "\<not> (p \<noteq> [] \<and> hd p = CHR ''%'')" by auto
    from retry have no: "\<not> like_spec p (c # t)" by (cases p) auto
    show ?thesis
    proof (cases star)
      case None
      then have "like_loop (c # t) p star = None"
        by (subst like_loop.simps(2)) (simp only: q if_False option.case)
      with None no show ?thesis by (simp add: like_remaining_def)
    next
      case (Some ss)
      with "2.prems"(2) obtain sp d st where s: "star = Some (sp, d # st)"
        by (cases ss; cases "snd ss") (auto simp: star_inv_def)
      have inv: "star_inv st sp (Some (sp, st))" by (auto simp: star_inv_def segment_matches_def)
      have nst: "CHR ''%'' \<notin> set st" using "2.prems"(3) s by fastforce
      have "like_remaining (c # t) p star \<longleftrightarrow> like_remaining st sp (Some (sp, st))"
        unfolding s like_remaining_def using no ex_drop_Cons [of d st "like_spec sp"] by simp
      moreover have "like_loop (c # t) p star = like_loop st sp (Some (sp, st))"
        by (subst like_loop.simps(2)) (simp only: q s if_False option.case prod.case list.case)
      ultimately show ?thesis using "2.IH"(3) [OF q s refl refl nst inv] nst by simp
    qed
  qed
qed

lemma like_match_correct:
  assumes "CHR ''%'' \<notin> set t"
  shows "like_match t p = like_spec p t"
proof -
  have "like_match t p = (case like_loop t p None of None \<Rightarrow> False | Some q \<Rightarrow> like_spec q [])"
    unfolding like_match_def dropWhile_percent ..
  also have "\<dots> = like_remaining t p None"
    using assms by (intro like_loop_correct) (simp_all add: star_inv_def)
  finally show ?thesis by (simp add: like_remaining_def)
qed

section \<open>Properties\<close>

text \<open>A literal percent sign in the text is consumed by the pattern's wildcard as a literal, before the
  wildcard branch is tried: the pattern that matches everything rejects this text.\<close>

lemma like_match_literal_percent:
  "\<not> like_match ''%a'' ''%'' \<and> like_spec ''%'' ''%a''"
proof
  show "\<not> like_match ''%a'' ''%''" by code_simp
  show "like_spec ''%'' ''%a''" by (auto intro: exI [of _ 2])
qed

text \<open>Column names are not escaped in the canonical form, so two different conjunctions can share a
  signature.\<close>

lemma canonical_pred_collision:
  "canonical_pred F (PAnd [PLeaf ''a'' OpEq (JBool True), PLeaf ''b'' OpEq (JBool True)])
   = canonical_pred F (PAnd [PLeaf ''a,Eq,true),L(b'' OpEq (JBool True)])"
  by (simp add: insort_key_def)

text \<open>C27: an access leaf is a necessary conjunct. Whatever leaf is extracted from a predicate to
  index a shape by, every row the predicate matches satisfies that leaf, for any subquery contents.\<close>

theorem access_leaf_necessary:
  assumes "access_leaf p = Some l" and "matches_ctx fl ev p r"
  shows "leaf_holds l r"
  using assms by (rule access_leaf_holds)

theorem access_leaf_necessary_witness:
  "leaf_holds (LeafEq 1 (VText ''open'')) [VInt 7, VText ''open'']"
proof (rule access_leaf_necessary)
  let ?p = "And [Cmp 0 OpGt (VInt 3), And [Cmp 1 OpEq (VText ''open'')], IsNull 0 False]"
  show "access_leaf ?p = Some (LeafEq 1 (VText ''open''))"
    by (simp add: access_leaf_def better_leaf_def)
  show "matches_ctx NoFault panic_eval ?p [VInt 7, VText ''open'']"
    by (simp add: matches_ctx_def cmp_def compare_with_def tri_of_bool_def)
qed

text \<open>C28: an equality template is the predicate. When a predicate factors into column-value pairs,
  the pairs are non-null, sorted and over distinct columns, and a row matches the predicate exactly
  when its cells equal the pairs' values: routing by that key finds the matching shapes and no other.\<close>

theorem equality_template_exact:
  assumes "equality_template p = Some kv"
  shows "sorted_wrt (<) (map fst kv) \<and> kv \<noteq> [] \<and> (\<forall>(c, v) \<in> set kv. v \<noteq> VNull)
    \<and> (matches_ctx fl ev p r \<longleftrightarrow> (\<forall>(c, v) \<in> set kv. cell_at r c = v))"
  using equality_template_Some [OF assms] by (simp add: strict_sorted_iff)

theorem equality_template_exact_witness:
  "matches_ctx NoFault panic_eval (And [Cmp 2 OpEq (VInt 5), And [Cmp 0 OpEq (VBool True)]])
     [VBool True, VNull, VInt 5]"
proof -
  have "equality_template (And [Cmp 2 OpEq (VInt 5), And [Cmp 0 OpEq (VBool True)]])
      = Some [(0, VBool True), (2, VInt 5)]"
    by (simp add: equality_template_def Let_def)
  from equality_template_exact [OF this] show ?thesis by simp
qed

text \<open>C29: factoring a subquery into template, bind and residual preserves its meaning. If the inner
  predicate compiles, so do all lifted equalities and residual conjuncts, and a row matches the
  original exactly when it matches every lifted equality and every residual conjunct; the lifted
  columns are distinct and sorted and their literals non-null.\<close>

theorem subquery_template_meaning:
  assumes "stateless_answers C" and "snd (compile_with F C ts w st) = Ok c"
    and "subquery_template F t proj (Some w) = (key, lifted, residual)"
  shows "\<exists>ls rs. map_res (\<lambda>q. snd (compile_with F C ts q st)) (lifted_preds lifted) = Ok ls \<and>
    map_res (\<lambda>q. snd (compile_with F C ts q st)) residual = Ok rs \<and>
    (\<forall>fl ev r. matches_ctx fl ev c r \<longleftrightarrow>
       (\<forall>d \<in> set ls. matches_ctx fl ev d r) \<and> (\<forall>d \<in> set rs. matches_ctx fl ev d r)) \<and>
    sorted_wrt (<) (map fst lifted) \<and> (\<forall>(col, v) \<in> set lifted. \<not> is_null v)"
proof -
  let ?comp = "\<lambda>q. snd (compile_with F C ts q st)"
  obtain cs where cs: "map_res ?comp (conjuncts w) = Inr cs"
    "\<forall>fl ev r. matches_ctx fl ev c r \<longleftrightarrow> (\<forall>d \<in> set cs. matches_ctx fl ev d r)"
    using compile_conjuncts [OF assms(1,2)] by auto
  note split = subquery_template_split [OF assms(3)]
  have set: "set (lifted_preds lifted) \<union> set residual = set (conjuncts w)"
    using split(1) by (metis set_append set_mset_mset)
  have all: "\<And>q. q \<in> set (conjuncts w) \<Longrightarrow> ?comp q = Inr (projr (?comp q))"
    and cset: "set cs = (\<lambda>q. projr (?comp q)) ` set (conjuncts w)"
    using map_res_Inr_map [OF cs(1)] by auto
  have "map_res ?comp qs = Ok (map (\<lambda>q. projr (?comp q)) qs)" if "set qs \<subseteq> set (conjuncts w)" for qs
    using that all by (intro map_res_all_ok) blast
  then have "map_res ?comp (lifted_preds lifted) = Ok (map (\<lambda>q. projr (?comp q)) (lifted_preds lifted))"
    "map_res ?comp residual = Ok (map (\<lambda>q. projr (?comp q)) residual)"
    using set by blast+
  moreover have "(\<forall>d \<in> set cs. P d) \<longleftrightarrow>
      (\<forall>d \<in> set (map (\<lambda>q. projr (?comp q)) (lifted_preds lifted)). P d) \<and>
      (\<forall>d \<in> set (map (\<lambda>q. projr (?comp q)) residual). P d)" for P
    unfolding cset set [symmetric] by auto
  ultimately show ?thesis
    using cs(2) split(2-4) by (auto simp: strict_sorted_iff)
qed

theorem subquery_template_meaning_witness:
  "\<exists>ls rs. map_res (\<lambda>q. snd (compile_with exact_f64 no_subqueries ex_schema q ()))
      (lifted_preds [(''role'', JStr ''admin'')]) = Ok ls \<and>
    map_res (\<lambda>q. snd (compile_with exact_f64 no_subqueries ex_schema q ())) [PIsNull ''user'' False] = Ok rs \<and>
    (\<forall>fl ev r. matches_ctx fl ev (And [IsNull 2 False, Cmp 1 OpEq (VText ''admin'')]) r \<longleftrightarrow>
       (\<forall>d \<in> set ls. matches_ctx fl ev d r) \<and> (\<forall>d \<in> set rs. matches_ctx fl ev d r)) \<and>
    sorted_wrt (<) (map fst [(''role'', JStr ''admin'')]) \<and>
    (\<forall>(col, v) \<in> set [(''role'', JStr ''admin'')]. \<not> is_null v)"
proof (rule subquery_template_meaning)
  let ?w = "PAnd [PIsNull ''user'' False, PLeaf ''role'' OpEq (JStr ''admin'')]"
  show "stateless_answers no_subqueries"
    by (simp add: stateless_answers_def no_subqueries_def)
  show "snd (compile_with exact_f64 no_subqueries ex_schema ?w ()) =
      Ok (And [IsNull 2 False, Cmp 1 OpEq (VText ''admin'')])"
    by (simp add: ex_schema_def column_index_def column_type_at_def literal_from_json_def get_at_def)
  show "subquery_template exact_f64 ex_table ''org'' (Some ?w) =
      (''public.members|org|P(role)|A(U(user,false))'', [(''role'', JStr ''admin'')], [PIsNull ''user'' False])"
    by code_simp
qed

text \<open>\<open>LIKE\<close> is the SQL wildcard match. For every text without a literal percent sign, the
  iterative backtracking matcher returns, and agrees with the declarative meaning of the pattern.\<close>

theorem like_match_spec:
  assumes "CHR ''%'' \<notin> set t"
  shows "like_match t p = like_spec p t"
  using assms by (rule like_match_correct)

theorem like_match_spec_witness: "like_spec ''%b_'' ''abbc'' = like_match ''abbc'' ''%b_''"
  using like_match_spec [of "''abbc''" "''%b_''"] by simp

text \<open>Compiling without a subquery collector never yields a subquery leaf, so evaluating the
  result never consults a subquery evaluator and the guard that panics there is unreachable.\<close>

theorem compile_never_panics:
  assumes "compile_opt F ts p = Ok c"
  shows "subquery_free c \<and> matches fl c r = matches_ctx fl ev c r"
  using compile_opt_free [OF assms] matches_free by blast

theorem compile_never_panics_witness:
  "subquery_free (IsNull 2 True) \<and>
   matches NoFault (IsNull 2 True) [VInt 1, VNull, VNull] = matches_ctx NoFault panic_eval (IsNull 2 True) [VInt 1, VNull, VNull]"
  by (rule compile_never_panics [of exact_f64 ex_schema "Some (PIsNull ''user'' True)"])
    (simp add: compile_opt_def compile_def ex_schema_def column_index_def)

end
