(* ===== verification/Output.thy ===== *)
theory Output
  imports Predicates
begin

text \<open>
  The envelope codec (\<^verbatim>\<open>apps/engine/src/engine/output.rs\<close>, the \<open>Envelope\<close> types of \<^verbatim>\<open>ds.rs\<close>), the
  stateless filter of \<^verbatim>\<open>engine/executors.rs\<close> and the membership kernel of
  \<^verbatim>\<open>engine/membership.rs\<close>: a change-log envelope becomes a Z-set delta, a delta becomes per-key
  upserts and deletes. The theorems relate the codec to what a client holds after folding them.
\<close>

section \<open>Envelopes\<close>

record envelope_headers =
  h_operation :: string
  h_txid :: "string option"
  h_offset :: "string option"
  h_lsn :: "string option"
  h_seq :: "nat option"
  h_last :: "bool option"

record envelope =
  e_type :: string
  e_key :: string
  e_value :: "json option"
  e_old :: "json option"
  e_headers :: envelope_headers

definition emitted_headers :: "string \<Rightarrow> string option \<Rightarrow> string option \<Rightarrow> envelope_headers" where
  "emitted_headers op txid lsn =
     \<lparr>h_operation = op, h_txid = txid, h_offset = None, h_lsn = lsn, h_seq = None, h_last = None\<rparr>"

section \<open>Envelopes to deltas\<close>

definition env_to_row :: "f64_ops \<Rightarrow> tschema \<Rightarrow> json \<Rightarrow> row result" where
  "env_to_row F ts v = rbind (ok_or (as_object v) RowNotAnObject) (\<lambda>obj. row_from_json F ts obj)"

definition apply_envelope ::
  "f64_ops \<Rightarrow> tschema \<Rightarrow> envelope \<Rightarrow> (zdelta \<times> string option \<times> string option) result" where
  "apply_envelope F ts env =
     (let txid = h_txid (e_headers env); lsn = h_lsn (e_headers env); op = h_operation (e_headers env) in
      if op \<in> {''insert'', ''update'', ''upsert''} then
        rbind (ok_or (e_value env) MissingValue) (\<lambda>v. rbind (env_to_row F ts v) (\<lambda>new.
          case e_old env of
            Some old \<Rightarrow> rbind (env_to_row F ts old) (\<lambda>orow.
              Ok (if orow \<noteq> new then [(orow, -1), (new, 1)] else [], txid, lsn))
          | None \<Rightarrow> Ok ([(new, 1)], txid, lsn)))
      else if op = ''delete'' then
        (case e_old env of
           Some old \<Rightarrow> rbind (env_to_row F ts old) (\<lambda>orow. Ok ([(orow, -1)], txid, lsn))
         | None \<Rightarrow> Ok ([], txid, lsn))
      else Err (UnknownOperation op))"

definition needs_absolute_emission :: "envelope \<Rightarrow> bool" where
  "needs_absolute_emission env \<longleftrightarrow>
     e_old env = None \<and> h_operation (e_headers env) \<in> {''delete'', ''update'', ''upsert''}"

section \<open>Deltas to envelopes\<close>

definition upsert_env :: "tschema \<Rightarrow> string option \<Rightarrow> string option \<Rightarrow> nat list option \<Rightarrow> string \<Rightarrow> row \<Rightarrow> envelope" where
  "upsert_env ts txid lsn out_cols key r =
     \<lparr>e_type = table_as_str (ts_table ts), e_key = key, e_value = Some (JObj (row_to_json_cols ts r out_cols)),
      e_old = None, e_headers = emitted_headers ''upsert'' txid lsn\<rparr>"

definition delete_env :: "tschema \<Rightarrow> string option \<Rightarrow> string option \<Rightarrow> string \<Rightarrow> envelope" where
  "delete_env ts txid lsn key =
     \<lparr>e_type = table_as_str (ts_table ts), e_key = key, e_value = None,
      e_old = None, e_headers = emitted_headers ''delete'' txid lsn\<rparr>"

definition absolute_envelope ::
  "fault \<Rightarrow> tschema \<Rightarrow> string \<Rightarrow> row option \<Rightarrow> string option \<Rightarrow> string option \<Rightarrow> nat list option \<Rightarrow> envelope option" where
  "absolute_envelope fl ts key r txid lsn out_cols =
     (case r of
        Some x \<Rightarrow> Some (upsert_env ts txid lsn out_cols key x)
      | None \<Rightarrow> if fl = DropDeletes then None else Some (delete_env ts txid lsn key))"

text \<open>One row of the grouping loop of \<open>translate_output\<close>: positive rows by key, negative keys, and
  the keys in order of first appearance.\<close>

definition group_row ::
  "f64_ops \<Rightarrow> tschema \<Rightarrow> row \<times> int \<Rightarrow> (string \<Rightarrow> row option) \<times> string set \<times> string list
     \<Rightarrow> (string \<Rightarrow> row option) \<times> string set \<times> string list" where
  "group_row F ts rw st =
     (case (rw, st) of ((r, w), (pos, neg, order)) \<Rightarrow>
        (case key_string F ts r of
           Inl _ \<Rightarrow> st
         | Inr pk \<Rightarrow>
             (let order' = (if pos pk = None \<and> pk \<notin> neg then order @ [pk] else order) in
              if w > 0 then (pos(pk \<mapsto> r), neg, order')
              else if w < 0 then (pos, insert pk neg, order')
              else (pos, neg, order'))))"

definition translate_output ::
  "fault \<Rightarrow> f64_ops \<Rightarrow> tschema \<Rightarrow> (row \<times> int) list \<Rightarrow> string option \<Rightarrow> string option \<Rightarrow> nat list option \<Rightarrow> envelope list" where
  "translate_output fl F ts out txid lsn out_cols =
     (case fold (group_row F ts) out (Map.empty, {}, []) of (pos, neg, order) \<Rightarrow>
        concat (map (\<lambda>pk. case pos pk of Some r \<Rightarrow> [upsert_env ts txid lsn out_cols pk r] | None \<Rightarrow> []) order)
        @ map (delete_env ts txid lsn)
            (filter (\<lambda>pk. pk \<in> neg \<and> \<not> (pos pk \<noteq> None \<or> fl = DropDeletes)) order))"

definition delete_envelopes :: "fault \<Rightarrow> tschema \<Rightarrow> string list \<Rightarrow> string option \<Rightarrow> envelope list" where
  "delete_envelopes fl ts pks txid =
     (if fl = DropDeletes then [] else map (delete_env ts txid None) pks)"

definition agg_envelope :: "table_ref \<Rightarrow> json \<Rightarrow> int \<Rightarrow> string option \<Rightarrow> string option \<Rightarrow> envelope" where
  "agg_envelope t v n txid lsn =
     \<lparr>e_type = table_as_str t, e_key = ''agg'', e_value = Some (JObj [(''n'', JNum (NInt n)), (''value'', v)]),
      e_old = None, e_headers = emitted_headers ''upsert'' txid lsn\<rparr>"

section \<open>The stateless filter and the membership kernel\<close>

definition eval_standalone :: "fault \<Rightarrow> compiled_predicate \<Rightarrow> zdelta \<Rightarrow> (row \<times> int) list" where
  "eval_standalone fl pred delta = filter (\<lambda>(r, w). matches fl pred r) delta"

datatype flip_dir = Enter | Leave

definition refcount_step :: "val \<times> int \<Rightarrow> (val \<Rightarrow> int option) \<times> (val \<times> flip_dir) list
    \<Rightarrow> (val \<Rightarrow> int option) \<times> (val \<times> flip_dir) list" where
  "refcount_step vw st =
     (case (vw, st) of ((v, w), (groups, flips)) \<Rightarrow>
        (let was = (case groups v of None \<Rightarrow> 0 | Some n \<Rightarrow> n);
             now = was + w;
             groups' = (if now \<le> 0 then groups(v := None) else groups(v \<mapsto> now));
             flips' = (if was \<le> 0 \<and> now > 0 then flips @ [(v, Enter)]
                       else if was > 0 \<and> now \<le> 0 then flips @ [(v, Leave)] else flips)
         in (groups', flips')))"

definition fold_refcount_flips ::
  "(val \<Rightarrow> int option) \<Rightarrow> (val \<times> int) list \<Rightarrow> (val \<Rightarrow> int option) \<times> (val \<times> flip_dir) list" where
  "fold_refcount_flips groups cs = fold refcount_step cs (groups, [])"

definition latest_step :: "f64_ops \<Rightarrow> tschema \<Rightarrow> row \<times> int \<Rightarrow> (string \<times> row \<times> bool) list \<Rightarrow> (string \<times> row \<times> bool) list" where
  "latest_step F ts rw by_pk =
     (case rw of (r, w) \<Rightarrow>
        (let pk = (case key_string F ts r of Inl _ \<Rightarrow> [] | Inr k \<Rightarrow> k) in
         if w > 0 then AList.update pk (r, True) by_pk
         else if map_of by_pk pk = None then AList.update pk (r, False) by_pk
         else by_pk))"

definition latest_rows_by_pk :: "f64_ops \<Rightarrow> tschema \<Rightarrow> zdelta \<Rightarrow> (row \<times> bool) list" where
  "latest_rows_by_pk F ts delta = map snd (fold (latest_step F ts) delta [])"

section \<open>Reference semantics: tables, shapes and clients\<close>

text \<open>A table is its rows by key string. A shape of it is the projected JSON of the rows its
  predicate matches. A client folds envelopes into such a map: an upsert replaces the row of its
  key, a delete removes it and is a no-op for a key it does not hold.\<close>

type_synonym table_state = "string \<Rightarrow> row option"
type_synonym client_state = "string \<Rightarrow> json option"

definition shape_view :: "fault \<Rightarrow> tschema \<Rightarrow> compiled_predicate \<Rightarrow> nat list option \<Rightarrow> table_state \<Rightarrow> client_state" where
  "shape_view fl ts p cols T k =
     (case T k of Some r \<Rightarrow> if matches fl p r then Some (JObj (row_to_json_cols ts r cols)) else None
      | None \<Rightarrow> None)"

definition client_apply :: "envelope \<Rightarrow> client_state \<Rightarrow> client_state" where
  "client_apply env m =
     (if h_operation (e_headers env) = ''delete'' then m(e_key env := None)
      else m(e_key env := e_value env))"

definition client_fold :: "envelope list \<Rightarrow> client_state \<Rightarrow> client_state" where
  "client_fold = fold client_apply"

text \<open>A row change, its effect on the table, and the envelope that carries it.\<close>

datatype change = RowInsert row | RowUpdate row row | RowDelete row

fun change_delta :: "change \<Rightarrow> zdelta" where
  "change_delta (RowInsert r) = [(r, 1)]"
| "change_delta (RowUpdate o' r) = (if o' \<noteq> r then [(o', -1), (r, 1)] else [])"
| "change_delta (RowDelete o') = [(o', -1)]"

definition row_key :: "f64_ops \<Rightarrow> tschema \<Rightarrow> row \<Rightarrow> string" where
  "row_key F ts r = (case key_string F ts r of Inl _ \<Rightarrow> [] | Inr k \<Rightarrow> k)"

fun change_table :: "f64_ops \<Rightarrow> tschema \<Rightarrow> change \<Rightarrow> table_state \<Rightarrow> table_state" where
  "change_table F ts (RowInsert r) T = T(row_key F ts r \<mapsto> r)"
| "change_table F ts (RowUpdate o' r) T = (T(row_key F ts o' := None))(row_key F ts r \<mapsto> r)"
| "change_table F ts (RowDelete o') T = T(row_key F ts o' := None)"

text \<open>What the database guarantees of a change it commits: an inserted key is new, the old row of an
  update or delete is the one stored, an update moves to a free key, and rows are well typed.\<close>

fun valid_change :: "f64_ops \<Rightarrow> tschema \<Rightarrow> table_state \<Rightarrow> change \<Rightarrow> bool" where
  "valid_change F ts T (RowInsert r) \<longleftrightarrow> typed_row ts r \<and> T (row_key F ts r) = None"
| "valid_change F ts T (RowUpdate o' r) \<longleftrightarrow>
     typed_row ts o' \<and> typed_row ts r \<and> T (row_key F ts o') = Some o' \<and>
     (row_key F ts r = row_key F ts o' \<or> T (row_key F ts r) = None)"
| "valid_change F ts T (RowDelete o') \<longleftrightarrow> typed_row ts o' \<and> T (row_key F ts o') = Some o'"

definition change_env ::
  "f64_ops \<Rightarrow> tschema \<Rightarrow> string option \<Rightarrow> string option \<Rightarrow> nat option \<Rightarrow> bool option \<Rightarrow> change \<Rightarrow> envelope" where
  "change_env F ts txid lsn sn lst c =
     (let hd = (\<lambda>op. \<lparr>h_operation = op, h_txid = txid, h_offset = None, h_lsn = lsn, h_seq = sn, h_last = lst\<rparr>);
          js = (\<lambda>r. Some (JObj (row_to_json ts r)));
          mk = (\<lambda>k v ol h. \<lparr>e_type = table_as_str (ts_table ts), e_key = k, e_value = v, e_old = ol, e_headers = h\<rparr>)
      in case c of
           RowInsert r \<Rightarrow> mk (row_key F ts r) (js r) None (hd ''insert'')
         | RowUpdate o' r \<Rightarrow> mk (row_key F ts r) (js r) (js o') (hd ''update'')
         | RowDelete o' \<Rightarrow> mk (row_key F ts o') None (js o') (hd ''delete''))"

text \<open>What the engine emits to one standalone shape for one change envelope.\<close>

definition standalone_emit ::
  "fault \<Rightarrow> f64_ops \<Rightarrow> tschema \<Rightarrow> compiled_predicate \<Rightarrow> nat list option \<Rightarrow> envelope \<Rightarrow> envelope list result" where
  "standalone_emit fl F ts p cols env =
     rbind (apply_envelope F ts env) (\<lambda>(delta, txid, lsn).
       Ok (translate_output fl F ts (eval_standalone fl p delta) txid lsn cols))"

section \<open>What the emitted envelopes do to a client\<close>

text \<open>The last positive row of a key, and whether a key has a negative row.\<close>

fun last_pos :: "f64_ops \<Rightarrow> tschema \<Rightarrow> (row \<times> int) list \<Rightarrow> string \<Rightarrow> row option" where
  "last_pos F ts [] k = None"
| "last_pos F ts ((r, w) # out) k =
     (case last_pos F ts out k of Some x \<Rightarrow> Some x
      | None \<Rightarrow> if w > 0 \<and> key_string F ts r = Ok k then Some r else None)"

definition has_neg :: "f64_ops \<Rightarrow> tschema \<Rightarrow> (row \<times> int) list \<Rightarrow> string \<Rightarrow> bool" where
  "has_neg F ts out k \<longleftrightarrow> (\<exists>(r, w) \<in> set out. w < 0 \<and> key_string F ts r = Ok k)"

lemma has_neg_simps [simp]:
  "\<not> has_neg F ts [] k"
  "has_neg F ts ((r, w) # out) k \<longleftrightarrow> w < 0 \<and> key_string F ts r = Ok k \<or> has_neg F ts out k"
  by (auto simp: has_neg_def)

lemma fold_group_row:
  assumes "fold (group_row F ts) out (pos, neg, order) = (pos', neg', order')"
    and "\<forall>x. pos x \<noteq> None \<or> x \<in> neg \<longrightarrow> x \<in> set order"
  shows "pos' k = (case last_pos F ts out k of Some r \<Rightarrow> Some r | None \<Rightarrow> pos k) \<and>
    (k \<in> neg' \<longleftrightarrow> k \<in> neg \<or> has_neg F ts out k) \<and>
    (\<forall>x. pos' x \<noteq> None \<or> x \<in> neg' \<longrightarrow> x \<in> set order')"
  using assms
proof (induction out arbitrary: pos neg order)
  case (Cons rw out)
  obtain r w where rw: "rw = (r, w)" by (cases rw)
  obtain p n ords where g: "group_row F ts rw (pos, neg, order) = (p, n, ords)"
    by (cases "group_row F ts rw (pos, neg, order)")
  have sub: "\<forall>x. p x \<noteq> None \<or> x \<in> n \<longrightarrow> x \<in> set ords"
    and p: "p k = (if w > 0 \<and> key_string F ts r = Ok k then Some r else pos k)"
    and n: "k \<in> n \<longleftrightarrow> k \<in> neg \<or> (w < 0 \<and> key_string F ts r = Ok k)"
    using g rw Cons.prems(2)
    by (auto simp: group_row_def Let_def split: sum.splits if_splits)
  have "fold (group_row F ts) out (p, n, ords) = (pos', neg', order')" using Cons.prems(1) g by simp
  from Cons.IH [OF this sub] p n rw show ?case by (auto split: option.splits)
qed auto

lemma client_fold_append [simp]: "client_fold (xs @ ys) m = client_fold ys (client_fold xs m)"
  by (simp add: client_fold_def)

lemma client_fold_simps [simp]:
  "client_fold [] m = m" "client_fold (e # es) m = client_fold es (client_apply e m)"
  by (simp_all add: client_fold_def)

lemma client_apply_upsert [simp]:
  "client_apply (upsert_env ts txid lsn cols k r) m = m(k \<mapsto> JObj (row_to_json_cols ts r cols))"
  by (simp add: client_apply_def upsert_env_def emitted_headers_def)

lemma client_apply_delete [simp]: "client_apply (delete_env ts txid lsn k) m = m(k := None)"
  by (simp add: client_apply_def delete_env_def emitted_headers_def)

lemma client_fold_upserts:
  "client_fold (concat (map (\<lambda>pk. case pos pk of Some r \<Rightarrow> [upsert_env ts txid lsn cols pk r] | None \<Rightarrow> []) ks)) m k
   = (case pos k of Some r \<Rightarrow> if k \<in> set ks then Some (JObj (row_to_json_cols ts r cols)) else m k | None \<Rightarrow> m k)"
  by (induction ks arbitrary: m) (auto split: option.splits)

lemma client_fold_deletes:
  "client_fold (map (delete_env ts txid lsn) ks) m k = (if k \<in> set ks then None else m k)"
  by (induction ks arbitrary: m) auto

lemma translate_output_client:
  "client_fold (translate_output fl F ts out txid lsn cols) m k =
     (case last_pos F ts out k of
        Some r \<Rightarrow> Some (JObj (row_to_json_cols ts r cols))
      | None \<Rightarrow> if has_neg F ts out k \<and> fl \<noteq> DropDeletes then None else m k)"
proof -
  obtain pos neg order where st: "fold (group_row F ts) out (Map.empty, {}, []) = (pos, neg, order)"
    by (cases "fold (group_row F ts) out (Map.empty, {}, [])")
  from fold_group_row [OF st, of k]
  have "pos k = last_pos F ts out k" "k \<in> neg \<longleftrightarrow> has_neg F ts out k" 
      "pos k \<noteq> None \<or> k \<in> neg \<longrightarrow> k \<in> set order"
    by (auto split: option.splits)
  then show ?thesis
    unfolding translate_output_def st
    by (auto simp: client_fold_upserts client_fold_deletes split: option.splits)
qed

section \<open>Deltas of changes\<close>

lemma row_key_Ok: "schema_wf ts \<Longrightarrow> typed_row ts r \<Longrightarrow> key_string F ts r = Ok (row_key F ts r)"
  using key_string_parts [of ts r F] by (simp add: row_key_def typed_row_length)

lemma env_to_row_Ok: "schema_wf ts \<Longrightarrow> typed_row ts r \<Longrightarrow> env_to_row F ts (JObj (row_to_json ts r)) = Ok r"
  by (simp add: env_to_row_def as_object_def row_from_to_json schema_wf_def)

lemma change_typed:
  "valid_change F ts T c \<Longrightarrow> (r, w) \<in> set (change_delta c) \<Longrightarrow> typed_row ts r"
  by (cases c) (auto split: if_splits)

lemma apply_envelope_change:
  assumes "schema_wf ts" "valid_change F ts T c"
  shows "apply_envelope F ts (change_env F ts txid lsn sn lst c) = Ok (change_delta c, txid, lsn)"
  using assms
  by (cases c) (auto simp: apply_envelope_def change_env_def Let_def env_to_row_Ok)

lemma translate_change:
  assumes "schema_wf ts" "valid_change F ts T c" "fl \<noteq> DropDeletes"
  shows "client_fold (translate_output fl F ts (eval_standalone fl p (change_delta c)) txid lsn cols)
      (shape_view fl ts p cols T) k = shape_view fl ts p cols (change_table F ts c T) k"
proof (cases c)
  case (RowInsert r)
  then have "key_string F ts r = Ok (row_key F ts r)" using assms(1,2) by (simp add: row_key_Ok)
  with RowInsert assms(2) show ?thesis
    by (auto simp: translate_output_client eval_standalone_def shape_view_def)
next
  case (RowDelete r)
  then have "key_string F ts r = Ok (row_key F ts r)" using assms(1,2) by (simp add: row_key_Ok)
  with RowDelete assms(2,3) show ?thesis
    by (auto simp: translate_output_client eval_standalone_def shape_view_def)
next
  case (RowUpdate r0 r)
  then have "key_string F ts r = Ok (row_key F ts r)" "key_string F ts r0 = Ok (row_key F ts r0)"
    using assms(1,2) by (simp_all add: row_key_Ok)
  with RowUpdate assms(2,3) show ?thesis
    by (cases "r0 = r"; cases "matches fl p r0"; cases "matches fl p r";
        cases "k = row_key F ts r"; cases "k = row_key F ts r0")
      (simp_all add: translate_output_client eval_standalone_def shape_view_def)
qed

section \<open>Sequences of changes\<close>

text \<open>A committed change with the headers of its envelope.\<close>

record committed =
  c_change :: change
  c_txid :: "string option"
  c_lsn :: "string option"
  c_seq :: "nat option"
  c_last :: "bool option"

definition committed_env :: "f64_ops \<Rightarrow> tschema \<Rightarrow> committed \<Rightarrow> envelope" where
  "committed_env F ts c = change_env F ts (c_txid c) (c_lsn c) (c_seq c) (c_last c) (c_change c)"

fun valid_changes :: "f64_ops \<Rightarrow> tschema \<Rightarrow> table_state \<Rightarrow> committed list \<Rightarrow> bool" where
  "valid_changes F ts T [] = True"
| "valid_changes F ts T (c # cs) =
     (valid_change F ts T (c_change c) \<and> valid_changes F ts (change_table F ts (c_change c) T) cs)"

definition table_after :: "f64_ops \<Rightarrow> tschema \<Rightarrow> committed list \<Rightarrow> table_state \<Rightarrow> table_state" where
  "table_after F ts cs T = fold (\<lambda>c. change_table F ts (c_change c)) cs T"

lemma standalone_emit_change:
  assumes "schema_wf ts" "valid_change F ts T (c_change c)" "fl \<noteq> DropDeletes"
  shows "\<exists>out. standalone_emit fl F ts p cols (committed_env F ts c) = Ok out \<and>
    client_fold out (shape_view fl ts p cols T) = shape_view fl ts p cols (change_table F ts (c_change c) T)"
  using translate_change [OF assms]
  by (auto simp: standalone_emit_def committed_env_def apply_envelope_change [OF assms(1,2)])

lemma standalone_emit_changes:
  assumes "schema_wf ts" "fl \<noteq> DropDeletes"
  shows "valid_changes F ts T cs \<Longrightarrow>
    \<exists>outs. map_res (\<lambda>c. standalone_emit fl F ts p cols (committed_env F ts c)) cs = Ok outs \<and>
      client_fold (concat outs) (shape_view fl ts p cols T) = shape_view fl ts p cols (table_after F ts cs T)"
proof (induction cs arbitrary: T)
  case (Cons c cs)
  let ?T = "change_table F ts (c_change c) T"
  from Cons.prems obtain out where
    out: "standalone_emit fl F ts p cols (committed_env F ts c) = Ok out"
      "client_fold out (shape_view fl ts p cols T) = shape_view fl ts p cols ?T"
    using standalone_emit_change [OF assms(1) _ assms(2)] by fastforce
  from Cons.IH [of ?T] Cons.prems obtain outs where
    outs: "map_res (\<lambda>c. standalone_emit fl F ts p cols (committed_env F ts c)) cs = Ok outs"
      "client_fold (concat outs) (shape_view fl ts p cols ?T) = shape_view fl ts p cols (table_after F ts cs ?T)"
    by auto
  from out outs show ?case
    by (intro exI [of _ "out # outs"]) (simp add: table_after_def)
qed (simp add: table_after_def)

section \<open>Refcounts and latest rows\<close>

definition members :: "(val \<Rightarrow> int option) \<Rightarrow> val set" where
  "members g = {v. \<exists>n. g v = Some n \<and> n > 0}"

definition apply_flip :: "val \<times> flip_dir \<Rightarrow> val set \<Rightarrow> val set" where
  "apply_flip f S = (case f of (v, Enter) \<Rightarrow> insert v S | (v, Leave) \<Rightarrow> S - {v})"

definition refcount :: "(val \<Rightarrow> int option) \<Rightarrow> val \<Rightarrow> int" where
  "refcount g v = (case g v of None \<Rightarrow> 0 | Some n \<Rightarrow> n)"

lemma refcount_step_flips:
  assumes "refcount_step vw (g, fl) = (g', fl')"
  shows "\<exists>new. fl' = fl @ new \<and> fold apply_flip new (members g) = members g' \<and>
    (\<forall>f \<in> set new. (snd f = Enter \<longleftrightarrow> fst f \<notin> members g))"
  using assms
  by (cases vw) (auto simp: refcount_step_def Let_def members_def apply_flip_def split: if_splits option.splits)

lemma fold_refcount_members:
  "fold refcount_step cs (g, fl) = (g', fl') \<Longrightarrow>
     \<exists>new. fl' = fl @ new \<and> fold apply_flip new (members g) = members g'"
proof (induction cs arbitrary: g fl)
  case (Cons c cs)
  obtain g1 fl1 where s: "refcount_step c (g, fl) = (g1, fl1)" by (cases "refcount_step c (g, fl)")
  obtain n1 where n1: "fl1 = fl @ n1" "fold apply_flip n1 (members g) = members g1"
    using refcount_step_flips [OF s] by blast
  from Cons.IH [of g1 fl1] Cons.prems s obtain n2 where
    "fl' = fl1 @ n2" "fold apply_flip n2 (members g1) = members g'" by auto
  with n1 show ?case by (intro exI [of _ "n1 @ n2"]) simp
qed simp

lemma fold_latest_step:
  assumes "\<And>r w. (r, w) \<in> set delta \<Longrightarrow> key_string F ts r = Ok (row_key F ts r)"
    and "distinct (map fst m)"
  shows "distinct (map fst (fold (latest_step F ts) delta m)) \<and>
    (case last_pos F ts delta k of
       Some r \<Rightarrow> map_of (fold (latest_step F ts) delta m) k = Some (r, True)
     | None \<Rightarrow> (case map_of m k of
          Some x \<Rightarrow> map_of (fold (latest_step F ts) delta m) k = Some x
        | None \<Rightarrow> map_of (fold (latest_step F ts) delta m) k =
            map_option (\<lambda>(r, w). (r, False)) (List.find (\<lambda>(r, w). row_key F ts r = k) delta)))"
  using assms
proof (induction delta arbitrary: m)
  case (Cons rw delta)
  obtain r w where rw: "rw = (r, w)" by (cases rw)
  with Cons.prems(1) have key: "key_string F ts r = Ok (row_key F ts r)" by auto
  define m1 where "m1 = latest_step F ts rw m"
  define M where "M = fold (latest_step F ts) delta m1"
  have "distinct (map fst m1)"
    using Cons.prems(2) by (auto simp: m1_def latest_step_def rw Let_def distinct_update)
  moreover have "\<And>r w. (r, w) \<in> set delta \<Longrightarrow> key_string F ts r = Ok (row_key F ts r)"
    using Cons.prems(1) by (meson list.set_intros(2))
  ultimately have IH: "distinct (map fst M)"
    "(case last_pos F ts delta k of
       Some r \<Rightarrow> map_of M k = Some (r, True)
     | None \<Rightarrow> (case map_of m1 k of
          Some x \<Rightarrow> map_of M k = Some x
        | None \<Rightarrow> map_of M k =
            map_option (\<lambda>(r, w). (r, False)) (List.find (\<lambda>(r, w). row_key F ts r = k) delta)))"
    unfolding M_def using Cons.IH [of m1] by blast+
  have st: "map_of m1 k =
      (if row_key F ts r = k then (if w > 0 then Some (r, True)
         else case map_of m k of None \<Rightarrow> Some (r, False) | Some x \<Rightarrow> Some x) else map_of m k)"
    by (auto simp: m1_def latest_step_def rw Let_def key update_conv' split: option.splits)
  have M: "fold (latest_step F ts) (rw # delta) m = M" by (simp add: M_def m1_def)
  show ?case
    unfolding M
  proof
    show "distinct (map fst M)" by (rule IH(1))
    show "case last_pos F ts (rw # delta) k of
        Some r \<Rightarrow> map_of M k = Some (r, True)
      | None \<Rightarrow> (case map_of m k of Some x \<Rightarrow> map_of M k = Some x
         | None \<Rightarrow> map_of M k = map_option (\<lambda>(r, w). (r, False)) (List.find (\<lambda>(r, w). row_key F ts r = k) (rw # delta)))"
      using IH(2) unfolding st
      by (cases "last_pos F ts delta k"; cases "map_of m k"; cases "row_key F ts r = k"; cases "w > 0")
        (simp_all add: rw key)
  qed
qed (auto split: option.splits)

section \<open>Properties\<close>

text \<open>C13: a shape stream converges to the filtered table. Starting from a client that holds a shape's
  snapshot, take any sequence of changes the database can commit (inserts, updates that may move the
  primary key, deletes), turn each into its change-log envelope, decode it to a delta, filter it with
  the shape's predicate and translate the result: no step fails, and folding everything emitted
  leaves the client with exactly the projected rows of the final table that match the predicate.\<close>

theorem shape_stream_converges:
  assumes "schema_wf ts" and "valid_changes F ts T cs"
  shows "\<exists>outs. map_res (\<lambda>c. standalone_emit NoFault F ts p cols (committed_env F ts c)) cs = Ok outs \<and>
    client_fold (concat outs) (shape_view NoFault ts p cols T)
      = shape_view NoFault ts p cols (table_after F ts cs T)"
  using standalone_emit_changes [OF assms(1) _ assms(2)] by blast

theorem shape_stream_converges_witness:
  "\<exists>outs. map_res (\<lambda>c. standalone_emit NoFault exact_f64 ex_schema (IsNull 1 False) None (committed_env exact_f64 ex_schema c))
      [\<lparr>c_change = RowInsert [VInt 1, VText ''admin'', VText ''u''], c_txid = None, c_lsn = None, c_seq = None, c_last = None\<rparr>,
       \<lparr>c_change = RowUpdate [VInt 1, VText ''admin'', VText ''u''] [VInt 1, VNull, VText ''u''], c_txid = None,
        c_lsn = None, c_seq = None, c_last = Some True\<rparr>] = Ok outs \<and>
    client_fold (concat outs) (shape_view NoFault ex_schema (IsNull 1 False) None Map.empty)
      = shape_view NoFault ex_schema (IsNull 1 False) None
          (table_after exact_f64 ex_schema
             [\<lparr>c_change = RowInsert [VInt 1, VText ''admin'', VText ''u''], c_txid = None, c_lsn = None, c_seq = None, c_last = None\<rparr>,
              \<lparr>c_change = RowUpdate [VInt 1, VText ''admin'', VText ''u''] [VInt 1, VNull, VText ''u''], c_txid = None,
               c_lsn = None, c_seq = None, c_last = Some True\<rparr>] Map.empty)"
proof (rule shape_stream_converges [OF ex_schema_wf])
  have "row_key exact_f64 ex_schema [VInt 1, VText ''admin'', VText ''u''] = ''1'' @ [PK_SEP] @ ''u''"
    "row_key exact_f64 ex_schema [VInt 1, VNull, VText ''u''] = ''1'' @ [PK_SEP] @ ''u''" by code_simp+
  then show "valid_changes exact_f64 ex_schema Map.empty
     [\<lparr>c_change = RowInsert [VInt 1, VText ''admin'', VText ''u''], c_txid = None, c_lsn = None, c_seq = None, c_last = None\<rparr>,
      \<lparr>c_change = RowUpdate [VInt 1, VText ''admin'', VText ''u''] [VInt 1, VNull, VText ''u''], c_txid = None,
       c_lsn = None, c_seq = None, c_last = Some True\<rparr>]"
    by (simp add: ex_rows_typed)
qed

text \<open>Absolute emission is exact from any client state. When an update or delete carries no
  before-image, the one envelope stated outright from the row's current value sets the client's entry
  for that key to the shape's view of it, whatever the client held, and touches no other key.\<close>

theorem absolute_emission_exact:
  "\<exists>env. absolute_envelope NoFault ts k (case T k of Some r \<Rightarrow> if matches NoFault p r then Some r else None | None \<Rightarrow> None)
      txid lsn cols = Some env \<and> client_apply env m = m(k := shape_view NoFault ts p cols T k)"
  by (auto simp: absolute_envelope_def shape_view_def split: option.splits)

text \<open>Membership flips are exact. Folding any weighted contributions into a refcounted group
  map reports a list of flips that, replayed in order on the set of present values, gives exactly the
  set of values with a positive count afterwards.\<close>

theorem refcount_flips_exact:
  "fold apply_flip (snd (fold_refcount_flips g cs)) (members g) = members (fst (fold_refcount_flips g cs))"
  using fold_refcount_members [of cs g "[]"]
  by (cases "fold refcount_step cs (g, [])") (auto simp: fold_refcount_flips_def)

text \<open>The latest-row fold decides each touched key once, by its last inserted row if there is
  one (the row still exists), and otherwise by its first retracted row (the row is gone).\<close>

theorem latest_rows_exact:
  assumes "schema_wf ts" and "\<And>r w. (r, w) \<in> set delta \<Longrightarrow> typed_row ts r"
  shows "distinct (map fst (fold (latest_step F ts) delta [])) \<and>
    latest_rows_by_pk F ts delta = map snd (fold (latest_step F ts) delta []) \<and>
    map_of (fold (latest_step F ts) delta []) k =
      (case last_pos F ts delta k of
         Some r \<Rightarrow> Some (r, True)
       | None \<Rightarrow> map_option (\<lambda>(r, w). (r, False)) (List.find (\<lambda>(r, w). row_key F ts r = k) delta))"
  using fold_latest_step [of delta F ts "[]" k] assms row_key_Ok [OF assms(1) assms(2)]
  by (auto simp: latest_rows_by_pk_def split: option.splits)

theorem latest_rows_exact_witness:
  "map_of (fold (latest_step exact_f64 ex_schema) [([VInt 1, VText ''a'', VText ''u''], -1), ([VInt 1, VNull, VText ''u''], 1)] [])
     (''1'' @ [PK_SEP] @ ''u'') = Some ([VInt 1, VNull, VText ''u''], True)"
proof -
  have "last_pos exact_f64 ex_schema [([VInt 1, VText ''a'', VText ''u''], -1), ([VInt 1, VNull, VText ''u''], 1)]
      (''1'' @ [PK_SEP] @ ''u'') = Some [VInt 1, VNull, VText ''u'']" by code_simp
  with latest_rows_exact [OF ex_schema_wf, of
      "[([VInt 1, VText ''a'', VText ''u''], -1), ([VInt 1, VNull, VText ''u''], 1)]" exact_f64
      "''1'' @ [PK_SEP] @ ''u''"]
  show ?thesis using ex_rows_typed by auto
qed

end
