(* ===== verification/PgGate.thy ===== *)
theory PgGate
  imports Output
begin

text \<open>
  The pure parts of \<^verbatim>\<open>apps/engine/src/pg.rs\<close>: the log sequence number, the snapshot gate that
  fences a backfill against replication, the classification of boot failures, type mapping and
  password redaction. Unsigned 64-bit numbers are naturals bounded where they are parsed.
\<close>

section \<open>Log sequence numbers\<close>

text \<open>\<open>str::split\<close> on one character.\<close>

fun split_char :: "char \<Rightarrow> string \<Rightarrow> string list" where
  "split_char d [] = [[]]"
| "split_char d (c # cs) =
     (if c = d then [] # split_char d cs
      else case split_char d cs of [] \<Rightarrow> [[c]] | w # ws \<Rightarrow> (c # w) # ws)"

definition hex_or_0 :: "string \<Rightarrow> nat" where
  "hex_or_0 s = (case parse_uint 16 u64_max (trim s) of None \<Rightarrow> 0 | Some n \<Rightarrow> n)"

definition lsn_to_u64 :: "string \<Rightarrow> nat" where
  "lsn_to_u64 s =
     (case split_once (CHR ''/'') s of
        Some (hi, lo) \<Rightarrow> Bit_Operations.or (hex_or_0 hi * 2 ^ 32 mod 2 ^ 64) (hex_or_0 lo)
      | None \<Rightarrow> 0)"

section \<open>The snapshot gate\<close>

record snapshot_gate =
  g_lsn :: nat
  g_xmin :: nat
  g_xmax :: nat
  g_xip :: "nat list"

definition gate_passthrough :: snapshot_gate where
  "gate_passthrough = \<lparr>g_lsn = 0, g_xmin = 0, g_xmax = 0, g_xip = []\<rparr>"

definition xid_mask :: "nat \<Rightarrow> nat" where
  "xid_mask v = v mod 2 ^ 32"

definition parse_xid :: "string \<Rightarrow> nat option" where
  "parse_xid s = map_option xid_mask (parse_u64 (trim s))"

definition gate_parse :: "string \<Rightarrow> string \<Rightarrow> snapshot_gate" where
  "gate_parse snapshot lsn =
     (let parts = split_char (CHR '':'') snapshot;
          num = (\<lambda>i. case get_at parts i of None \<Rightarrow> 0
                     | Some s \<Rightarrow> (case parse_xid s of None \<Rightarrow> 0 | Some n \<Rightarrow> n));
          xip = (case get_at parts 2 of None \<Rightarrow> []
                 | Some s \<Rightarrow> List.map_filter parse_xid (split_char (CHR '','') s))
      in \<lparr>g_lsn = lsn_to_u64 lsn, g_xmin = num 0, g_xmax = num 1, g_xip = xip\<rparr>)"

definition gate_visible :: "snapshot_gate \<Rightarrow> nat \<Rightarrow> bool" where
  "gate_visible g xid =
     (if g_xmax g = 0 then False
      else if xid < g_xmin g then True
      else if xid \<ge> g_xmax g then False
      else xid \<notin> set (g_xip g))"

definition should_skip :: "snapshot_gate \<Rightarrow> nat \<Rightarrow> nat option \<Rightarrow> bool" where
  "should_skip g commit_lsn xid =
     (case xid of
        Some x \<Rightarrow> gate_visible g x
      | None \<Rightarrow> commit_lsn \<noteq> 0 \<and> g_lsn g \<noteq> 0 \<and> commit_lsn < g_lsn g)"

section \<open>Boot failures, types, redaction\<close>

datatype boot_failure = Fatal | Retryable

record pg_failure =
  sqlstate :: "string option"
  pf_io :: bool

definition classify :: "pg_failure \<Rightarrow> boot_failure" where
  "classify f =
     (case sqlstate f of
        None \<Rightarrow> Retryable
      | Some code \<Rightarrow>
          if code \<in> {''28000'', ''28P01'', ''42501'', ''3D000''} then Fatal
          else if take (min 2 (length code)) code \<in> {''08'', ''40'', ''53'', ''55'', ''57''} then Retryable
          else Fatal)"

definition failure_name :: "pg_failure \<Rightarrow> string" where
  "failure_name f =
     (case sqlstate f of
        Some code \<Rightarrow>
          if code \<in> {''28000'', ''28P01''} then ''authentication failed''
          else if code = ''42501'' then ''insufficient privilege''
          else if code = ''3D000'' then ''unknown database''
          else if code = ''57P03'' then ''the database system is starting up''
          else ''Postgres refused a boot statement''
      | None \<Rightarrow> if pf_io f then ''Postgres is unreachable''
                else ''Postgres returned an error without a SQLSTATE'')"

definition map_pg_type :: "string \<Rightarrow> column_type" where
  "map_pg_type t =
     (if t \<in> {''integer'', ''bigint'', ''smallint''} then TInt
      else if t = ''boolean'' then TBool
      else if t \<in> {''real'', ''double precision'', ''numeric''} then TFloat
      else TText)"

text \<open>\<open>split_once\<close> on a substring, and \<open>rsplit_once\<close> on one character.\<close>

fun split_once_str :: "string \<Rightarrow> string \<Rightarrow> (string \<times> string) option" where
  "split_once_str pat [] = (if pat = [] then Some ([], []) else None)"
| "split_once_str pat (c # cs) =
     (case strip_prefix pat (c # cs) of
        Some rest \<Rightarrow> Some ([], rest)
      | None \<Rightarrow> map_option (\<lambda>(a, b). (c # a, b)) (split_once_str pat cs))"

definition rsplit_once :: "char \<Rightarrow> string \<Rightarrow> (string \<times> string) option" where
  "rsplit_once d s = map_option (\<lambda>(a, b). (rev b, rev a)) (split_once d (rev s))"

definition redact_pg_url :: "string \<Rightarrow> string" where
  "redact_pg_url url =
     (case split_once_str ''://'' url of
        None \<Rightarrow> url
      | Some (scheme, rest) \<Rightarrow>
          (case rsplit_once (CHR ''@'') rest of
             None \<Rightarrow> url
           | Some (userinfo, host) \<Rightarrow>
               (case split_once (CHR '':'') userinfo of
                  Some (user, _) \<Rightarrow> scheme @ ''://'' @ user @ '':***@'' @ host
                | None \<Rightarrow> url)))"

section \<open>Lemmas\<close>

lemma split_char_nonempty [simp]: "split_char d s \<noteq> []"
  by (induction s) (auto split: list.splits)

lemma split_char_append:
  "d \<notin> set w \<Longrightarrow> split_char d (w @ d # s) = w # split_char d s"
  by (induction w) auto

lemma split_char_no_sep: "d \<notin> set w \<Longrightarrow> split_char d w = [w]"
  by (induction w) auto

lemma split_char_join:
  "xs \<noteq> [] \<Longrightarrow> (\<And>x. x \<in> set xs \<Longrightarrow> d \<notin> set x) \<Longrightarrow> split_char d (join [d] xs) = xs"
proof (induction "[d]" xs rule: join.induct)
  case (3 x y ys)
  then show ?case by (simp add: split_char_append)
qed (auto simp: split_char_no_sep)

lemma trim_digits: "(\<And>c. c \<in> set s \<Longrightarrow> is_ascii_digit c) \<Longrightarrow> trim s = s"
proof (rule trim_id)
  assume dig: "\<And>c. c \<in> set s \<Longrightarrow> is_ascii_digit c"
  have "\<not> is_whitespace c" if "is_ascii_digit c" for c
    using that by (auto simp: is_whitespace_def is_ascii_digit_code Let_def)
  with dig show "s = [] \<or> \<not> is_whitespace (hd s) \<and> \<not> is_whitespace (last s)" by (cases s) auto
qed

lemma trim_show_nat [simp]: "trim (show_nat n) = show_nat n"
  by (rule trim_digits) (rule show_nat_digits)

lemma parse_xid_show: "n < 2 ^ 32 \<Longrightarrow> parse_xid (show_nat n) = Some n"
  by (simp add: parse_xid_def xid_mask_def u64_max_def)

lemma show_nat_no_sep: "\<not> is_ascii_digit d \<Longrightarrow> d \<notin> set (show_nat n)"
  using show_nat_digits by blast

lemma colon_comma_not_digit [simp]: "\<not> is_ascii_digit (CHR '':'')" "\<not> is_ascii_digit (CHR '','')"
  by (simp_all add: is_ascii_digit_code code_of_def)

lemma map_filter_parse_xid:
  "(\<And>x. x \<in> set xs \<Longrightarrow> x < 2 ^ 32) \<Longrightarrow> List.map_filter parse_xid (map show_nat xs) = xs"
  by (induction xs) (auto simp: List.map_filter_def parse_xid_show)

lemma parse_xid_Nil [simp]: "parse_xid [] = None"
  by (simp add: parse_xid_def parse_u64_def parse_uint_def parse_nat_radix_def trim_def)

lemma join_set: "c \<in> set (join sep xs) \<Longrightarrow> c \<in> set sep \<or> (\<exists>x \<in> set xs. c \<in> set x)"
  by (induction sep xs rule: join.induct) auto

lemma split_scheme:
  assumes "CHR '':'' \<notin> set scheme"
  shows "split_once_str ''://'' (scheme @ ''://'' @ s) = Some (scheme, s)"
  using assms by (induction scheme) auto

section \<open>Properties\<close>

text \<open>The text Postgres prints for a snapshot, \<open>xmin:xmax:xip_list\<close>.\<close>

definition snapshot_text :: "nat \<Rightarrow> nat \<Rightarrow> nat list \<Rightarrow> string" where
  "snapshot_text xmin xmax xip =
     show_nat xmin @ '':'' @ show_nat xmax @ '':'' @ join '','' (map show_nat xip)"

text \<open>C23: the snapshot gate decides visibility exactly. For a snapshot in one 32-bit epoch, the
  gate parsed from its text skips a committed transaction precisely when the snapshot saw it: it
  is older than every transaction then in progress, or lies below \<open>xmax\<close> and was not in progress.\<close>

theorem gate_exact:
  assumes "xmin \<le> xmax" and "0 < xmax" and "xmax < 2 ^ 32" and "\<And>x. x \<in> set xip \<Longrightarrow> xmin \<le> x \<and> x < xmax"
  shows "should_skip (gate_parse (snapshot_text xmin xmax xip) lsn) commit (Some x)
     \<longleftrightarrow> x < xmax \<and> x \<notin> set xip"
proof -
  let ?xip = "join '','' (map show_nat xip)"
  have nocolon: "CHR '':'' \<notin> set ?xip"
    using show_nat_no_sep [of "CHR '':''"] by (auto dest!: join_set)
  have parts: "split_char (CHR '':'') (snapshot_text xmin xmax xip) = [show_nat xmin, show_nat xmax, ?xip]"
    using show_nat_no_sep [of "CHR '':''"] nocolon
    by (simp add: snapshot_text_def split_char_append split_char_no_sep)
  have "List.map_filter parse_xid (split_char (CHR '','') ?xip) = xip"
  proof (cases "xip = []")
    case True
    then show ?thesis by (simp add: List.map_filter_def)
  next
    case False
    then have "split_char (CHR '','') ?xip = map show_nat xip"
      using show_nat_no_sep [of "CHR '',''"] by (intro split_char_join) auto
    moreover have "List.map_filter parse_xid (map show_nat xip) = xip"
      using assms(3,4) by (intro map_filter_parse_xid) (meson less_trans)
    ultimately show ?thesis by simp
  qed
  then have "gate_parse (snapshot_text xmin xmax xip) lsn
      = \<lparr>g_lsn = lsn_to_u64 lsn, g_xmin = xmin, g_xmax = xmax, g_xip = xip\<rparr>"
    using assms(1,3) by (simp add: gate_parse_def Let_def parts parse_xid_show get_at_def)
  moreover have "xmin \<le> x" if "x \<in> set xip" using assms(4) that by blast
  ultimately show ?thesis
    using assms(1,2) by (auto simp: should_skip_def gate_visible_def)
qed

theorem gate_exact_witness:
  "should_skip (gate_parse (snapshot_text 100 105 [100, 103]) ''0/10'') 7 (Some 102)
     \<longleftrightarrow> 102 < (105 :: nat) \<and> 102 \<notin> set [100, 103 :: nat]"
  by (rule gate_exact) auto

text \<open>Redaction hides the password. For every connection URL with a user, a password and a
  host, whatever characters the password contains, the redacted text is the same as with any other
  password: scheme, user and host around a mask.\<close>

theorem redact_hides_password:
  assumes "CHR '':'' \<notin> set scheme" and "CHR '':'' \<notin> set user" and "CHR ''@'' \<notin> set host"
  shows "redact_pg_url (scheme @ ''://'' @ user @ '':'' @ pw @ ''@'' @ host)
     = scheme @ ''://'' @ user @ '':***@'' @ host"
proof -
  have "rsplit_once (CHR ''@'') ((user @ '':'' @ pw) @ CHR ''@'' # host) = Some (user @ '':'' @ pw, host)"
    using assms(3) by (simp add: rsplit_once_def)
  then show ?thesis
    using assms(1,2) by (simp add: redact_pg_url_def split_scheme [simplified])
qed

theorem redact_hides_password_witness:
  "redact_pg_url (''postgres'' @ ''://'' @ ''app'' @ '':'' @ ''p@s:s'' @ ''@'' @ ''db/x'')
     = ''postgres'' @ ''://'' @ ''app'' @ '':***@'' @ ''db/x''"
  by (rule redact_hides_password) auto

end
