(* ===== verification/Executors.thy ===== *)
theory Executors
  imports PgGate
begin

text \<open>
  Routing of changes to shapes (\<^verbatim>\<open>apps/engine/src/engine/executors.rs\<close>): the index of standalone
  shapes by a necessary conjunct, with the contract any shape index keeps as a locale, key routing by
  equality template, and column projection.
\<close>

section \<open>Two-level bucket maps\<close>

text \<open>\<open>HashMap<usize, Map<Value, Vec<_>>>\<close> with the entry, retain and prune idioms of the index.\<close>

type_synonym 'a buckets = "(nat \<times> (val \<times> 'a list) list) list"

definition bucket :: "'a buckets \<Rightarrow> nat \<Rightarrow> val \<Rightarrow> 'a list" where
  "bucket m col v =
     (case map_of m col of None \<Rightarrow> [] | Some bv \<Rightarrow> (case map_of bv v of None \<Rightarrow> [] | Some xs \<Rightarrow> xs))"

definition bucket_push :: "nat \<Rightarrow> val \<Rightarrow> 'a \<Rightarrow> 'a buckets \<Rightarrow> 'a buckets" where
  "bucket_push col v x m = upd_default col [] (upd_default v [] (\<lambda>xs. xs @ [x])) m"

definition bucket_retain :: "nat \<Rightarrow> val \<Rightarrow> ('a \<Rightarrow> bool) \<Rightarrow> 'a buckets \<Rightarrow> 'a buckets" where
  "bucket_retain col v keep m =
     (case map_of m col of
        None \<Rightarrow> m
      | Some bv \<Rightarrow>
          (case map_of bv v of
             None \<Rightarrow> m
           | Some xs \<Rightarrow>
               (let xs' = filter keep xs in
                if xs' = [] then
                  (let bv' = AList.delete v bv in
                   if bv' = [] then AList.delete col m else AList.update col bv' m)
                else AList.update col (AList.update v xs' bv) m)))"

definition buckets_wf :: "(nat \<times> (val \<times> 'b) list) list \<Rightarrow> bool" where
  "buckets_wf m \<longleftrightarrow> distinct (map fst m) \<and> (\<forall>(c, bv) \<in> set m. distinct (map fst bv))"

lemma bucket_push [simp]:
  "bucket (bucket_push col v x m) c u = (if c = col \<and> u = v then bucket m c u @ [x] else bucket m c u)"
  by (auto simp: bucket_def bucket_push_def split: option.splits)

lemma bucket_retain [simp]:
  "bucket (bucket_retain col v keep m) c u =
     (if c = col \<and> u = v then filter keep (bucket m c u) else bucket m c u)"
proof -
  have nil: "map_of bv u = None" if "AList.delete w bv = []" "u \<noteq> w" for bv :: "(val \<times> 'b list) list" and w
    using arg_cong [OF that(1), of "\<lambda>l. map_of l u"] that(2) by simp
  show ?thesis
    by (auto simp: bucket_def bucket_retain_def Let_def update_conv' nil split: option.splits)
qed

lemma buckets_wf_set_update:
  "distinct (map fst m) \<Longrightarrow> set (AList.update k v m) \<subseteq> insert (k, v) (set m)"
  by (induction m) auto

lemma set_delete_subset: "set (AList.delete k m) \<subseteq> set m"
  by (auto simp: AList.delete_eq)

lemma buckets_wf_update:
  "buckets_wf m \<Longrightarrow> distinct (map fst bv) \<Longrightarrow> buckets_wf (AList.update c bv m)"
  using buckets_wf_set_update [of m c bv] by (auto simp: buckets_wf_def distinct_update)

lemma buckets_wf_inner: "buckets_wf m \<Longrightarrow> map_of m c = Some bv \<Longrightarrow> distinct (map fst bv)"
  by (auto simp: buckets_wf_def dest: map_of_SomeD)

lemma buckets_wf_delete: "buckets_wf m \<Longrightarrow> buckets_wf (AList.delete c m)"
  using set_delete_subset [of c m] by (auto simp: buckets_wf_def distinct_delete)

lemma buckets_wf_push [simp]: "buckets_wf m \<Longrightarrow> buckets_wf (bucket_push c v x m)"
  unfolding bucket_push_def upd_default_def [of c]
  by (rule buckets_wf_update) (auto dest: buckets_wf_inner split: option.splits)

lemma buckets_wf_retain [simp]: "buckets_wf m \<Longrightarrow> buckets_wf (bucket_retain c v keep m)"
  by (auto simp: bucket_retain_def Let_def distinct_update distinct_delete
      intro!: buckets_wf_update buckets_wf_delete dest: buckets_wf_inner split: option.splits)

text \<open>Iterating the buckets visits exactly the entries a lookup finds.\<close>

lemma bucket_member:
  "buckets_wf m \<Longrightarrow> x \<in> set (bucket m c v) \<longleftrightarrow> (\<exists>bv xs. (c, bv) \<in> set m \<and> (v, xs) \<in> set bv \<and> x \<in> set xs)"
proof
  assume "x \<in> set (bucket m c v)"
  then show "\<exists>bv xs. (c, bv) \<in> set m \<and> (v, xs) \<in> set bv \<and> x \<in> set xs"
    by (auto simp: bucket_def dest!: map_of_SomeD [OF sym] split: option.splits)
next
  assume wf: "buckets_wf m" and "\<exists>bv xs. (c, bv) \<in> set m \<and> (v, xs) \<in> set bv \<and> x \<in> set xs"
  then obtain bv xs where m: "(c, bv) \<in> set m" "(v, xs) \<in> set bv" "x \<in> set xs" by blast
  with wf have "map_of m c = Some bv" "map_of bv v = Some xs"
    by (auto simp: buckets_wf_def intro!: map_of_is_SomeI)
  with m show "x \<in> set (bucket m c v)" by (simp add: bucket_def)
qed

section \<open>The standalone index\<close>

record standalone_shape =
  ss_pred :: compiled_predicate
  ss_stream_path :: string
  ss_gate :: snapshot_gate
  ss_out_cols :: "nat list option"

record standalone_index =
  ix_eq :: "string buckets"
  ix_lower :: "(string \<times> bool) buckets"
  ix_upper :: "(string \<times> bool) buckets"
  ix_scan :: "string list"
  ix_placed :: "string \<Rightarrow> access_leaf option option"

definition index_empty :: standalone_index where
  "index_empty = \<lparr>ix_eq = [], ix_lower = [], ix_upper = [], ix_scan = [], ix_placed = Map.empty\<rparr>"

definition index_insert :: "string \<Rightarrow> compiled_predicate \<Rightarrow> standalone_index \<Rightarrow> standalone_index" where
  "index_insert sid pred ix =
     (let leaf = access_leaf pred;
          ix' = (case leaf of
                   Some (LeafEq col v) \<Rightarrow> ix\<lparr>ix_eq := bucket_push col v sid (ix_eq ix)\<rparr>
                 | Some (Lower col v strict) \<Rightarrow> ix\<lparr>ix_lower := bucket_push col v (sid, strict) (ix_lower ix)\<rparr>
                 | Some (Upper col v strict) \<Rightarrow> ix\<lparr>ix_upper := bucket_push col v (sid, strict) (ix_upper ix)\<rparr>
                 | None \<Rightarrow> ix\<lparr>ix_scan := ix_scan ix @ [sid]\<rparr>)
      in ix'\<lparr>ix_placed := (ix_placed ix')(sid \<mapsto> leaf)\<rparr>)"

definition remove_bound :: "nat \<Rightarrow> val \<Rightarrow> string \<Rightarrow> (string \<times> bool) buckets \<Rightarrow> (string \<times> bool) buckets" where
  "remove_bound col v sid m = bucket_retain col v (\<lambda>(s, _). s \<noteq> sid) m"

definition index_remove :: "string \<Rightarrow> standalone_index \<Rightarrow> standalone_index" where
  "index_remove sid ix =
     (case ix_placed ix sid of
        None \<Rightarrow> ix
      | Some leaf \<Rightarrow>
          (let ix' = ix\<lparr>ix_placed := (ix_placed ix)(sid := None)\<rparr> in
           case leaf of
             Some (LeafEq col v) \<Rightarrow> ix'\<lparr>ix_eq := bucket_retain col v (\<lambda>s. s \<noteq> sid) (ix_eq ix')\<rparr>
           | Some (Lower col v _) \<Rightarrow> ix'\<lparr>ix_lower := remove_bound col v sid (ix_lower ix')\<rparr>
           | Some (Upper col v _) \<Rightarrow> ix'\<lparr>ix_upper := remove_bound col v sid (ix_upper ix')\<rparr>
           | None \<Rightarrow> ix'\<lparr>ix_scan := filter (\<lambda>s. s \<noteq> sid) (ix_scan ix')\<rparr>))"

text \<open>One row of the candidate scan: the three column maps against the row's cells.\<close>

definition bound_hits :: "(val \<Rightarrow> val \<Rightarrow> bool) \<Rightarrow> (string \<times> bool) buckets \<Rightarrow> row \<Rightarrow> string set" where
  "bound_hits in_range m r =
     (\<Union>(col, bounds) \<in> set m.
        case get_at r col of
          None \<Rightarrow> {}
        | Some cell \<Rightarrow>
            if cell = VNull then {}
            else (\<Union>(bound, sids) \<in> set (filter (\<lambda>(b, _). in_range b cell) bounds).
                    fst ` set (filter (\<lambda>(_, strict). \<not> (bound = cell \<and> strict)) sids)))"

definition row_candidates :: "standalone_index \<Rightarrow> row \<Rightarrow> string set" where
  "row_candidates ix r =
     (\<Union>(col, by_val) \<in> set (ix_eq ix).
        case get_at r col of
          None \<Rightarrow> {}
        | Some cell \<Rightarrow> (case map_of by_val cell of None \<Rightarrow> {} | Some sids \<Rightarrow> set sids))
     \<union> bound_hits (\<lambda>b cell. b \<le> cell) (ix_lower ix) r
     \<union> bound_hits (\<lambda>b cell. cell \<le> b) (ix_upper ix) r"

definition candidates :: "standalone_index \<Rightarrow> zdelta \<Rightarrow> string set" where
  "candidates ix delta = set (ix_scan ix) \<union> (\<Union>(r, w) \<in> set delta. row_candidates ix r)"

section \<open>The index invariant and its contract\<close>

text \<open>Every shape is filed exactly where \<open>placed\<close> says, and nowhere else.\<close>

definition index_wf :: "standalone_index \<Rightarrow> bool" where
  "index_wf ix \<longleftrightarrow>
     buckets_wf (ix_eq ix) \<and> buckets_wf (ix_lower ix) \<and> buckets_wf (ix_upper ix) \<and>
     (\<forall>sid c v. sid \<in> set (bucket (ix_eq ix) c v) \<longleftrightarrow> ix_placed ix sid = Some (Some (LeafEq c v))) \<and>
     (\<forall>sid c v b. (sid, b) \<in> set (bucket (ix_lower ix) c v) \<longleftrightarrow> ix_placed ix sid = Some (Some (Lower c v b))) \<and>
     (\<forall>sid c v b. (sid, b) \<in> set (bucket (ix_upper ix) c v) \<longleftrightarrow> ix_placed ix sid = Some (Some (Upper c v b))) \<and>
     (\<forall>sid. sid \<in> set (ix_scan ix) \<longleftrightarrow> ix_placed ix sid = Some None)"

lemma index_wf_empty: "index_wf index_empty"
  by (simp add: index_wf_def index_empty_def buckets_wf_def bucket_def)

lemma index_placed_insert: "ix_placed (index_insert sid p ix) = (ix_placed ix)(sid \<mapsto> access_leaf p)"
  by (auto simp: index_insert_def Let_def split: option.splits access_leaf.splits)

lemma index_wf_insert: "index_wf ix \<Longrightarrow> ix_placed ix sid = None \<Longrightarrow> index_wf (index_insert sid p ix)"
  unfolding index_wf_def index_placed_insert
  by (auto simp: index_insert_def Let_def split: option.splits access_leaf.splits)

lemma index_placed_remove: "ix_placed (index_remove sid ix) = (ix_placed ix)(sid := None)"
  by (auto simp: index_remove_def Let_def split: option.splits access_leaf.splits)

lemma index_wf_remove: "index_wf ix \<Longrightarrow> index_wf (index_remove sid ix)"
  unfolding index_wf_def index_placed_remove
  by (auto simp: index_remove_def remove_bound_def Let_def split: option.splits access_leaf.splits)

text \<open>A leaf can admit a row: the test the index makes in place of evaluating the predicate.\<close>

fun leaf_admits :: "access_leaf option \<Rightarrow> row \<Rightarrow> bool" where
  "leaf_admits None r = True"
| "leaf_admits (Some (LeafEq c v)) r = (get_at r c = Some v)"
| "leaf_admits (Some (Lower c v strict)) r =
     (case get_at r c of None \<Rightarrow> False | Some cell \<Rightarrow> cell \<noteq> VNull \<and> v \<le> cell \<and> \<not> (v = cell \<and> strict))"
| "leaf_admits (Some (Upper c v strict)) r =
     (case get_at r c of None \<Rightarrow> False | Some cell \<Rightarrow> cell \<noteq> VNull \<and> cell \<le> v \<and> \<not> (v = cell \<and> strict))"

lemma ordering_le:
  "ordering a b = Some Greater \<Longrightarrow> b \<le> a \<and> a \<noteq> b" "ordering a b = Some Less \<Longrightarrow> a \<le> b \<and> a \<noteq> b"
  "ordering a b = Some Equal \<Longrightarrow> a = b" "ordering a b = Some x \<Longrightarrow> a \<noteq> VNull"
  by (induction a b rule: ordering.induct) (auto simp: compare_with_def split: if_splits)

lemma leaf_holds_admits: "leaf_holds l r \<Longrightarrow> leaf_admits (Some l) r"
proof (cases l)
  case (LeafEq c v)
  assume "leaf_holds l r"
  with LeafEq show ?thesis using cell_at_nonnull [of r c] by auto
next
  case (Lower c v s)
  assume h: "leaf_holds l r"
  with Lower have "cell_at r c \<noteq> VNull" using ordering_le(4) by auto
  with cell_at_nonnull have "get_at r c = Some (cell_at r c)" by blast
  with Lower h show ?thesis
    using ordering_le [of "cell_at r c" v] by (auto simp del: get_at_Some_iff)
next
  case (Upper c v s)
  assume h: "leaf_holds l r"
  with Upper have "cell_at r c \<noteq> VNull" using ordering_le(4) by auto
  with cell_at_nonnull have "get_at r c = Some (cell_at r c)" by blast
  with Upper h show ?thesis
    using ordering_le [of "cell_at r c" v] by (auto simp del: get_at_Some_iff)
qed

lemma bound_hits_iff:
  assumes "buckets_wf m"
  shows "sid \<in> bound_hits R m r \<longleftrightarrow>
    (\<exists>c v b cell. (sid, b) \<in> set (bucket m c v) \<and> get_at r c = Some cell \<and> cell \<noteq> VNull \<and> R v cell \<and> \<not> (v = cell \<and> b))"
proof
  assume "sid \<in> bound_hits R m r"
  then obtain c bounds where cb: "(c, bounds) \<in> set m"
    and h: "sid \<in> (case get_at r c of None \<Rightarrow> {}
        | Some cell \<Rightarrow> if cell = VNull then {}
            else (\<Union>(bound, sids) \<in> set (filter (\<lambda>(b, _). R b cell) bounds).
                    fst ` set (filter (\<lambda>(_, strict). \<not> (bound = cell \<and> strict)) sids)))"
    unfolding bound_hits_def by blast
  from h obtain cell where "get_at r c = Some cell" "cell \<noteq> VNull"
    and "sid \<in> (\<Union>(bound, sids) \<in> set (filter (\<lambda>(b, _). R b cell) bounds).
                    fst ` set (filter (\<lambda>(_, strict). \<not> (bound = cell \<and> strict)) sids))"
    by (auto simp del: get_at_Some_iff get_at_None_iff split: option.splits if_splits)
  moreover from this(3) obtain v sids b where "(v, sids) \<in> set bounds" "R v cell" "(sid, b) \<in> set sids" "\<not> (v = cell \<and> b)"
    by auto
  ultimately show "\<exists>c v b cell. (sid, b) \<in> set (bucket m c v) \<and> get_at r c = Some cell \<and> cell \<noteq> VNull \<and> R v cell \<and> \<not> (v = cell \<and> b)"
    using cb unfolding bucket_member [OF assms] by blast
next
  assume "\<exists>c v b cell. (sid, b) \<in> set (bucket m c v) \<and> get_at r c = Some cell \<and> cell \<noteq> VNull \<and> R v cell \<and> \<not> (v = cell \<and> b)"
  then obtain c v b cell bounds sids where h: "(c, bounds) \<in> set m" "(v, sids) \<in> set bounds" "(sid, b) \<in> set sids"
    "get_at r c = Some cell" "cell \<noteq> VNull" "R v cell" "\<not> (v = cell \<and> b)"
    unfolding bucket_member [OF assms] by blast
  then have "sid \<in> fst ` set (filter (\<lambda>(_, strict). \<not> (v = cell \<and> strict)) sids)" by force
  with h(2,6) have "sid \<in> (\<Union>(bound, sids) \<in> set (filter (\<lambda>(b, _). R b cell) bounds).
      fst ` set (filter (\<lambda>(_, strict). \<not> (bound = cell \<and> strict)) sids))" by auto
  with h(1,4,5) show "sid \<in> bound_hits R m r"
    unfolding bound_hits_def by (intro UN_I [of "(c, bounds)"]) (simp_all del: get_at_Some_iff)
qed

lemma eq_hits_iff:
  assumes "buckets_wf m"
  shows "sid \<in> (\<Union>(col, by_val) \<in> set m.
        case get_at r col of None \<Rightarrow> {}
        | Some cell \<Rightarrow> (case map_of by_val cell of None \<Rightarrow> {} | Some sids \<Rightarrow> set sids))
    \<longleftrightarrow> (\<exists>c v. sid \<in> set (bucket m c v) \<and> get_at r c = Some v)"
proof
  have look: "map_of m c = Some bv" if "(c, bv) \<in> set m" for c bv
    using that assms by (simp add: buckets_wf_def)
  assume "sid \<in> (\<Union>(col, by_val) \<in> set m.
        case get_at r col of None \<Rightarrow> {}
        | Some cell \<Rightarrow> (case map_of by_val cell of None \<Rightarrow> {} | Some sids \<Rightarrow> set sids))"
  then obtain c bv where cb: "(c, bv) \<in> set m" and h: "sid \<in> (case get_at r c of None \<Rightarrow> {}
        | Some cell \<Rightarrow> (case map_of bv cell of None \<Rightarrow> {} | Some sids \<Rightarrow> set sids))" by blast
  from h obtain v where "get_at r c = Some v" "sid \<in> (case map_of bv v of None \<Rightarrow> {} | Some sids \<Rightarrow> set sids)"
    by (auto simp del: get_at_Some_iff get_at_None_iff split: option.splits)
  with look [OF cb] show "\<exists>c v. sid \<in> set (bucket m c v) \<and> get_at r c = Some v"
    by (intro exI [of _ c] exI [of _ v]) (auto simp: bucket_def simp del: get_at_Some_iff split: option.splits)
next
  assume "\<exists>c v. sid \<in> set (bucket m c v) \<and> get_at r c = Some v"
  then obtain c v where h: "sid \<in> set (bucket m c v)" "get_at r c = Some v" by blast
  then obtain bv where bv: "map_of m c = Some bv" by (cases "map_of m c") (auto simp: bucket_def)
  with h(1) have "sid \<in> (case map_of bv v of None \<Rightarrow> {} | Some sids \<Rightarrow> set sids)"
    by (cases "map_of bv v") (auto simp: bucket_def)
  with bv h(2) show "sid \<in> (\<Union>(col, by_val) \<in> set m.
        case get_at r col of None \<Rightarrow> {}
        | Some cell \<Rightarrow> (case map_of by_val cell of None \<Rightarrow> {} | Some sids \<Rightarrow> set sids))"
    by (intro UN_I [of "(c, bv)"]) (simp_all add: map_of_SomeD del: get_at_Some_iff)
qed

lemma row_candidates_iff:
  assumes "index_wf ix"
  shows "sid \<in> row_candidates ix r \<longleftrightarrow> (\<exists>l. ix_placed ix sid = Some (Some l) \<and> leaf_admits (Some l) r)"
proof -
  have wf: "buckets_wf (ix_eq ix)" "buckets_wf (ix_lower ix)" "buckets_wf (ix_upper ix)"
    and pl: "\<And>sid c v. sid \<in> set (bucket (ix_eq ix) c v) \<longleftrightarrow> ix_placed ix sid = Some (Some (LeafEq c v))"
      "\<And>sid c v b. (sid, b) \<in> set (bucket (ix_lower ix) c v) \<longleftrightarrow> ix_placed ix sid = Some (Some (Lower c v b))"
      "\<And>sid c v b. (sid, b) \<in> set (bucket (ix_upper ix) c v) \<longleftrightarrow> ix_placed ix sid = Some (Some (Upper c v b))"
    using assms by (auto simp: index_wf_def)
  have "(\<exists>l. ix_placed ix sid = Some (Some l) \<and> leaf_admits (Some l) r) \<longleftrightarrow>
      (\<exists>c v. ix_placed ix sid = Some (Some (LeafEq c v)) \<and> get_at r c = Some v) \<or>
      (\<exists>c v b cell. ix_placed ix sid = Some (Some (Lower c v b)) \<and> get_at r c = Some cell \<and> cell \<noteq> VNull \<and> v \<le> cell \<and> \<not> (v = cell \<and> b)) \<or>
      (\<exists>c v b cell. ix_placed ix sid = Some (Some (Upper c v b)) \<and> get_at r c = Some cell \<and> cell \<noteq> VNull \<and> cell \<le> v \<and> \<not> (v = cell \<and> b))"
  proof (cases "ix_placed ix sid")
    case (Some lo)
    then show ?thesis
      by (cases lo; cases "the lo") (auto simp del: get_at_Some_iff get_at_None_iff split: option.splits)
  qed simp
  then show ?thesis
    unfolding row_candidates_def Un_iff eq_hits_iff [OF wf(1)] bound_hits_iff [OF wf(2)] bound_hits_iff [OF wf(3)] pl
    by blast
qed

lemma candidates_iff:
  assumes "index_wf ix"
  shows "sid \<in> candidates ix delta \<longleftrightarrow>
    (\<exists>l. ix_placed ix sid = Some l \<and> (l = None \<or> (\<exists>(r, w) \<in> set delta. leaf_admits l r)))"
proof -
  have scan: "sid \<in> set (ix_scan ix) \<longleftrightarrow> ix_placed ix sid = Some None" using assms by (simp add: index_wf_def)
  have "sid \<in> candidates ix delta \<longleftrightarrow>
      ix_placed ix sid = Some None \<or> (\<exists>(r, w) \<in> set delta. sid \<in> row_candidates ix r)"
    by (auto simp: candidates_def scan)
  then show ?thesis
    unfolding row_candidates_iff [OF assms]
    by (cases "ix_placed ix sid"; cases "the (ix_placed ix sid)") auto
qed

section \<open>The contract of a shape index\<close>

text \<open>What the sequencer relies on when it asks an index instead of scanning every shape: an index
  holds a key for each registered shape, and its candidates for a change are exactly the registered
  shapes whose key the change can concern.\<close>

locale shape_index =
  fixes empty :: 'ix
    and insert_shape :: "'id \<Rightarrow> 'q \<Rightarrow> 'ix \<Rightarrow> 'ix"
    and remove_shape :: "'id \<Rightarrow> 'ix \<Rightarrow> 'ix"
    and cands :: "'ix \<Rightarrow> 'd \<Rightarrow> 'id set"
    and key :: "'q \<Rightarrow> 'k"
    and registered :: "'ix \<Rightarrow> 'id \<Rightarrow> 'k option"
    and concerns :: "'k \<Rightarrow> 'd \<Rightarrow> bool"
    and inv :: "'ix \<Rightarrow> bool"
  assumes inv_empty: "inv empty"
    and registered_empty: "registered empty = Map.empty"
    and inv_insert: "inv ix \<Longrightarrow> registered ix i = None \<Longrightarrow> inv (insert_shape i q ix)"
    and registered_insert: "inv ix \<Longrightarrow> registered (insert_shape i q ix) = (registered ix)(i \<mapsto> key q)"
    and inv_remove: "inv ix \<Longrightarrow> inv (remove_shape i ix)"
    and registered_remove: "inv ix \<Longrightarrow> registered (remove_shape i ix) = (registered ix)(i := None)"
    and cands_iff: "inv ix \<Longrightarrow> i \<in> cands ix d \<longleftrightarrow> (\<exists>k. registered ix i = Some k \<and> concerns k d)"
begin

text \<open>An index grown by any history of registrations (of fresh shapes) and removals.\<close>

inductive built :: "'ix \<Rightarrow> ('id \<Rightarrow> 'q option) \<Rightarrow> bool" where
  built_empty: "built empty Map.empty"
| built_insert: "built ix m \<Longrightarrow> m i = None \<Longrightarrow> built (insert_shape i q ix) (m(i \<mapsto> q))"
| built_remove: "built ix m \<Longrightarrow> built (remove_shape i ix) (m(i := None))"

lemma built_inv: "built ix m \<Longrightarrow> inv ix \<and> registered ix = map_option key \<circ> m"
proof (induction rule: built.induct)
  case (built_insert ix m i q)
  then have "registered ix i = None" by simp
  with built_insert show ?case by (auto simp: registered_insert fun_eq_iff intro: inv_insert)
qed (auto simp: inv_empty registered_empty inv_remove registered_remove fun_eq_iff)

text \<open>Asking the index finds the shapes a full scan finds, when a shape reacts only to changes that
  concern its key.\<close>

lemma index_replaces_scan:
  assumes "built ix m" and "\<And>q. reacts q d \<Longrightarrow> concerns (key q) d"
  shows "{i \<in> cands ix d. \<exists>q. m i = Some q \<and> reacts q d} = {i. \<exists>q. m i = Some q \<and> reacts q d}"
  using built_inv [OF assms(1)] assms(2) by (auto simp: cands_iff)

lemma cands_registered:
  "built ix m \<Longrightarrow> i \<in> cands ix d \<Longrightarrow> \<exists>q. m i = Some q"
  using built_inv by (auto simp: cands_iff)

end

text \<open>The standalone index keeps the contract: a shape's key is its access leaf.\<close>

definition leaf_concerns :: "access_leaf option \<Rightarrow> zdelta \<Rightarrow> bool" where
  "leaf_concerns l delta \<longleftrightarrow> l = None \<or> (\<exists>(r, w) \<in> set delta. leaf_admits l r)"

interpretation sidx: shape_index index_empty index_insert index_remove candidates access_leaf ix_placed leaf_concerns index_wf
  by unfold_locales
    (auto simp: index_wf_empty index_wf_insert index_wf_remove index_placed_insert index_placed_remove
      candidates_iff leaf_concerns_def, simp add: index_empty_def)

lemma matches_concerns:
  assumes "(r, w) \<in> set delta" "matches fl p r"
  shows "leaf_concerns (access_leaf p) delta"
proof (cases "access_leaf p")
  case (Some l)
  with assms(2) have "leaf_admits (Some l) r"
    by (auto simp: matches_def intro: leaf_holds_admits access_leaf_holds)
  with Some assms(1) show ?thesis by (auto simp: leaf_concerns_def)
qed (simp add: leaf_concerns_def)

section \<open>Key routing and projection\<close>

record routed_shape =
  rs_num_id :: nat
  rs_stream_path :: string
  rs_gate :: snapshot_gate
  rs_out_cols :: "nat list option"

record key_router =
  kr_key_cols :: "nat list"
  kr_index :: "(row \<times> routed_shape list) list"

definition member_count :: "key_router \<Rightarrow> nat" where
  "member_count kr = sum_list (map (\<lambda>(k, v). length v) (kr_index kr))"

definition key_of :: "row \<Rightarrow> nat list \<Rightarrow> row" where
  "key_of r cols = map (cell_at r) cols"

definition resolve_columns :: "tschema \<Rightarrow> string list option \<Rightarrow> nat list option result" where
  "resolve_columns ts columns =
     (case columns of
        None \<Rightarrow> Ok None
      | Some names \<Rightarrow>
          rbind (map_res (column_index ts) names) (\<lambda>idxs0.
            let idxs = fold (\<lambda>pk idxs. if pk \<notin> set idxs then idxs @ [pk] else idxs) (ts_pk_cols ts) idxs0
            in Ok (Some (remdups_adj (sort idxs)))))"

lemma fold_add_missing:
  "set (fold (\<lambda>pk idxs. if pk \<notin> set idxs then idxs @ [pk] else idxs) pks idxs) = set idxs \<union> set pks"
  by (induction pks arbitrary: idxs) auto

lemma sorted_remdups_adj_strict: "sorted (xs :: nat list) \<Longrightarrow> sorted_wrt (<) (remdups_adj xs)"
  by (induction xs rule: remdups_adj.induct) fastforce+

lemma resolve_columns_Some:
  assumes "resolve_columns ts (Some names) = Ok out"
  shows "\<exists>idxs. out = Some idxs \<and> sorted_wrt (<) idxs \<and> set (ts_pk_cols ts) \<subseteq> set idxs \<and>
    (\<forall>i. i \<in> set idxs \<longleftrightarrow> i \<in> set (ts_pk_cols ts) \<or> (\<exists>n \<in> set names. column_index ts n = Ok i))"
proof -
  from assms obtain idxs0 where i0: "map_res (column_index ts) names = Ok idxs0"
    and out: "out = Some (remdups_adj (sort (fold (\<lambda>pk idxs. if pk \<notin> set idxs then idxs @ [pk] else idxs) (ts_pk_cols ts) idxs0)))"
    by (auto simp: resolve_columns_def res_simps Let_def)
  have "i \<in> set idxs0 \<longleftrightarrow> (\<exists>n \<in> set names. column_index ts n = Ok i)" for i
    using map_res_Inr_map [OF i0] by (metis (no_types, lifting) image_iff list.set_map sum.sel(2))
  with out show ?thesis
    by (auto simp: fold_add_missing sorted_remdups_adj_strict)
qed

text \<open>A predicate that factors into an equality template is the comparison of key tuples.\<close>

lemma matches_key_of:
  assumes "equality_template p = Some kv"
  shows "matches fl p r \<longleftrightarrow> key_of r (map fst kv) = map snd kv"
proof -
  have "matches fl p r \<longleftrightarrow> (\<forall>(c, v) \<in> set kv. cell_at r c = v)"
    using equality_template_Some(5) [OF assms] by (simp add: matches_def)
  also have "\<dots> \<longleftrightarrow> map (cell_at r) (map fst kv) = map snd kv"
    by (induction kv) auto
  finally show ?thesis by (simp add: key_of_def)
qed

section \<open>Properties\<close>



text \<open>Routing by key is evaluating the predicate. A shape whose predicate factors into an
  equality template is reached by a row exactly when the row's key tuple over the template's columns
  is the template's value tuple.\<close>

theorem key_routing_exact:
  assumes "equality_template p = Some kv"
  shows "matches fl p r \<longleftrightarrow> key_of r (map fst kv) = map snd kv"
  using assms by (rule matches_key_of)

theorem key_routing_exact_witness:
  "matches NoFault (And [Cmp 2 OpEq (VInt 5), Cmp 0 OpEq (VBool True)]) [VBool True, VNull, VInt 5]
    \<longleftrightarrow> key_of [VBool True, VNull, VInt 5] (map fst [(0, VBool True), (2, VInt 5)])
        = map snd [(0 :: nat, VBool True), (2, VInt 5)]"
  by (rule key_routing_exact) (simp add: equality_template_def Let_def)

text \<open>A projection always identifies its rows. Resolving column names fails on an unknown name
  or gives a strictly increasing list of the named columns together with every primary-key column.\<close>

theorem resolve_columns_spec:
  assumes "resolve_columns ts (Some names) = Ok out"
  shows "\<exists>idxs. out = Some idxs \<and> sorted_wrt (<) idxs \<and> set (ts_pk_cols ts) \<subseteq> set idxs \<and>
    (\<forall>i. i \<in> set idxs \<longleftrightarrow> i \<in> set (ts_pk_cols ts) \<or> (\<exists>n \<in> set names. column_index ts n = Ok i))"
  using assms by (rule resolve_columns_Some)

theorem resolve_columns_spec_witness:
  "\<exists>idxs. Some [0, 1, 2 :: nat] = Some idxs \<and> sorted_wrt (<) idxs \<and> set (ts_pk_cols ex_schema) \<subseteq> set idxs \<and>
    (\<forall>i. i \<in> set idxs \<longleftrightarrow> i \<in> set (ts_pk_cols ex_schema) \<or> (\<exists>n \<in> set [''role'']. column_index ex_schema n = Ok i))"
  by (rule resolve_columns_spec) (simp add: resolve_columns_def ex_schema_def column_index_def)

end
