(* ===== verification/Aggregates.thy ===== *)
theory Aggregates
  imports Executors
begin

text \<open>
  Incremental aggregates and circuit-served counts (\<^verbatim>\<open>apps/engine/src/engine/executors.rs\<close>,
  \<^verbatim>\<open>engine/planning.rs\<close>): one fold shared by the backfill seed and the live path, the value it shows,
  and the plan that turns a predicate into per-group constraints. Running sums in \<open>i128\<close> and counters
  in \<open>i64\<close> are integers: they stay far below their widths for any table Postgres can hold.
\<close>

section \<open>Aggregates\<close>

datatype agg_fn = FnCount | FnSum | FnAvg | FnMin | FnMax

definition value_f64 :: "f64_ops \<Rightarrow> val \<Rightarrow> f64" where
  "value_f64 F v =
     (case v of
        VInt i \<Rightarrow> f64_of_int F i
      | VFloat f \<Rightarrow> f
      | VBool b \<Rightarrow> if b then f64_of_int F 1 else f64_of_int F 0
      | _ \<Rightarrow> f64_of_int F 0)"

datatype agg_sum = SumInt int | SumFloat f64

definition agg_sum_add :: "f64_ops \<Rightarrow> val \<Rightarrow> int \<Rightarrow> agg_sum \<Rightarrow> agg_sum" where
  "agg_sum_add F v w s =
     (case s of
        SumFloat acc \<Rightarrow> SumFloat (f64_add F acc (f64_mul F (value_f64 F v) (f64_of_int F w)))
      | SumInt acc \<Rightarrow>
          (case v of
             VInt i \<Rightarrow> SumInt (acc + i * w)
           | VBool b \<Rightarrow> SumInt (acc + (if b then 1 else 0) * w)
           | _ \<Rightarrow> SumFloat (f64_add F (f64_of_int F acc) (f64_mul F (value_f64 F v) (f64_of_int F w)))))"

definition agg_sum_to_json :: "agg_sum \<Rightarrow> json" where
  "agg_sum_to_json s =
     (case s of
        SumInt v \<Rightarrow> if \<bar>v\<bar> \<le> JSON_EXACT_INT_MAX then JNum (NInt v) else JStr (show_int v)
      | SumFloat f \<Rightarrow> json_of_f64 f)"

definition agg_sum_as_f64 :: "f64_ops \<Rightarrow> agg_sum \<Rightarrow> f64" where
  "agg_sum_as_f64 F s = (case s of SumInt v \<Rightarrow> f64_of_int F v | SumFloat f \<Rightarrow> f)"

text \<open>The four running terms (\<open>AggSeed\<close>); the live shape extends them.\<close>

record agg_seed =
  ag_count :: int
  ag_nn_count :: int
  ag_sum :: agg_sum
  ag_multiset :: "(val \<times> int) list"

record agg_shape = agg_seed +
  ag_pred :: compiled_predicate
  ag_func :: agg_fn
  ag_col :: "nat option"
  ag_stream_path :: string
  ag_gate :: snapshot_gate
  ag_last :: "json option"

definition agg_seed_default :: agg_seed where
  "agg_seed_default = \<lparr>ag_count = 0, ag_nn_count = 0, ag_sum = SumInt 0, ag_multiset = []\<rparr>"

definition fold_agg_row ::
  "f64_ops \<Rightarrow> agg_fn \<Rightarrow> nat option \<Rightarrow> row \<Rightarrow> int \<Rightarrow> 'a agg_seed_scheme \<Rightarrow> 'a agg_seed_scheme" where
  "fold_agg_row F func col r w s =
     (let s1 = s\<lparr>ag_count := ag_count s + w\<rparr> in
      case col of
        None \<Rightarrow> s1
      | Some ci \<Rightarrow>
          (let v = cell_at r ci in
           if v = VNull then s1
           else
             (let s2 = s1\<lparr>ag_nn_count := ag_nn_count s1 + w, ag_sum := agg_sum_add F v w (ag_sum s1)\<rparr> in
              if func = FnMin \<or> func = FnMax then
                (let e = (case map_of (ag_multiset s2) v of None \<Rightarrow> 0 | Some n \<Rightarrow> n) + w in
                 s2\<lparr>ag_multiset := (if e \<le> 0 then AList.delete v (ag_multiset s2)
                                    else AList.update v e (ag_multiset s2))\<rparr>)
              else s2)))"

definition seed_fold_rows ::
  "fault \<Rightarrow> f64_ops \<Rightarrow> compiled_predicate \<Rightarrow> agg_fn \<Rightarrow> nat option \<Rightarrow> row list \<Rightarrow> 'a agg_seed_scheme \<Rightarrow> 'a agg_seed_scheme" where
  "seed_fold_rows fl F pred func col rows s =
     fold (\<lambda>r s. if \<not> matches fl pred r then s else fold_agg_row F func col r 1 s) rows s"

definition agg_apply :: "fault \<Rightarrow> f64_ops \<Rightarrow> zdelta \<Rightarrow> agg_shape \<Rightarrow> agg_shape \<times> bool" where
  "agg_apply fl F delta sh =
     fold (\<lambda>(r, w) (s, touched).
             if \<not> matches fl (ag_pred s) r then (s, touched)
             else (fold_agg_row F (ag_func s) (ag_col s) r w s, True))
       delta (sh, False)"

text \<open>\<open>keys().next()\<close> and \<open>keys().next_back()\<close> of the ordered multiset.\<close>

definition first_key :: "(val \<times> int) list \<Rightarrow> val option" where
  "first_key ms = (if ms = [] then None else Some (Min (fst ` set ms)))"

definition last_key :: "(val \<times> int) list \<Rightarrow> val option" where
  "last_key ms = (if ms = [] then None else Some (Max (fst ` set ms)))"

definition agg_value_of :: "f64_ops \<Rightarrow> agg_fn \<Rightarrow> nat option \<Rightarrow> 'a agg_seed_scheme \<Rightarrow> json" where
  "agg_value_of F func col s =
     (case func of
        FnCount \<Rightarrow> if col \<noteq> None then JNum (NInt (ag_nn_count s)) else JNum (NInt (ag_count s))
      | FnSum \<Rightarrow> if ag_nn_count s > 0 then agg_sum_to_json (ag_sum s) else JNull
      | FnAvg \<Rightarrow> if ag_nn_count s > 0
                 then json_of_f64 (f64_div F (agg_sum_as_f64 F (ag_sum s)) (f64_of_int F (ag_nn_count s)))
                 else JNull
      | FnMin \<Rightarrow> (case first_key (ag_multiset s) of None \<Rightarrow> JNull | Some v \<Rightarrow> to_json v)
      | FnMax \<Rightarrow> (case last_key (ag_multiset s) of None \<Rightarrow> JNull | Some v \<Rightarrow> to_json v))"

definition agg_value :: "f64_ops \<Rightarrow> agg_shape \<Rightarrow> json" where
  "agg_value F s = agg_value_of F (ag_func s) (ag_col s) s"

definition agg_shape_envelope :: "f64_ops \<Rightarrow> tschema \<Rightarrow> string option \<Rightarrow> string option \<Rightarrow> agg_shape \<Rightarrow> envelope" where
  "agg_shape_envelope F ts txid lsn s = agg_envelope (ts_table ts) (agg_value F s) (ag_count s) txid lsn"

section \<open>Circuit-served counts\<close>

record circuit_agg =
  ca_stream_path :: string
  ca_constraints :: "val set option list"
  ca_value :: int

definition group_matches :: "val set option list \<Rightarrow> row \<Rightarrow> bool" where
  "group_matches cs grp \<longleftrightarrow>
     list_all (\<lambda>(i, c). case c of None \<Rightarrow> True
        | Some keys \<Rightarrow> (case get_at grp i of None \<Rightarrow> False | Some v \<Rightarrow> v \<in> keys))
       (zip [0..<length cs] cs)"

definition circuit_agg_envelope :: "table_ref \<Rightarrow> string option \<Rightarrow> string option \<Rightarrow> circuit_agg \<Rightarrow> envelope" where
  "circuit_agg_envelope t txid lsn a = agg_envelope t (JNum (NInt (ca_value a))) (ca_value a) txid lsn"

definition plan_literal :: "f64_ops \<Rightarrow> tschema \<Rightarrow> string \<Rightarrow> json \<Rightarrow> (nat \<times> val) option" where
  "plan_literal F ts col v =
     (case ts_index ts col of None \<Rightarrow> None
      | Some i \<Rightarrow> (case get_at (ts_columns ts) i of None \<Rightarrow> None
          | Some c \<Rightarrow> (case literal_from_json F v (snd c) of Inl _ \<Rightarrow> None | Inr x \<Rightarrow> Some (i, x))))"

fun plan_or :: "f64_ops \<Rightarrow> tschema \<Rightarrow> predicate_json list \<Rightarrow> nat option \<Rightarrow> val set \<Rightarrow> (nat \<times> val set) option" where
  "plan_or F ts [] idx keys = (case idx of None \<Rightarrow> None | Some i \<Rightarrow> Some (i, keys))"
| "plan_or F ts (PLeaf col OpEq v # cs) idx keys =
     (case ts_index ts col of None \<Rightarrow> None
      | Some i \<Rightarrow>
          if (case idx of None \<Rightarrow> i | Some j \<Rightarrow> j) \<noteq> i then None
          else (case plan_literal F ts col v of None \<Rightarrow> None
                | Some (_, x) \<Rightarrow> plan_or F ts cs (Some i) (insert x keys)))"
| "plan_or F ts (_ # cs) idx keys = None"

definition plan_child :: "f64_ops \<Rightarrow> tschema \<Rightarrow> predicate_json \<Rightarrow> (nat \<times> val set) option" where
  "plan_child F ts c =
     (case c of
        PLeaf col OpEq v \<Rightarrow> (case plan_literal F ts col v of None \<Rightarrow> None | Some (i, x) \<Rightarrow> Some (i, {x}))
      | POr cs \<Rightarrow> if cs = [] then None else plan_or F ts cs None {}
      | _ \<Rightarrow> None)"

fun position :: "nat list \<Rightarrow> nat \<Rightarrow> nat option" where
  "position [] x = None"
| "position (y # ys) x = (if y = x then Some 0 else map_option Suc (position ys x))"

fun plan_children ::
  "f64_ops \<Rightarrow> tschema \<Rightarrow> nat list \<Rightarrow> predicate_json list \<Rightarrow> val set option list \<Rightarrow> val set option list option" where
  "plan_children F ts group_cols [] cs = Some cs"
| "plan_children F ts group_cols (c # rest) cs =
     (case plan_child F ts c of None \<Rightarrow> None
      | Some (idx, keys) \<Rightarrow>
          (case position group_cols idx of None \<Rightarrow> None
           | Some pos \<Rightarrow> if cs ! pos \<noteq> None then None
                         else plan_children F ts group_cols rest (cs[pos := Some keys])))"

definition plan_circuit_agg ::
  "f64_ops \<Rightarrow> tschema \<Rightarrow> nat list \<Rightarrow> predicate_json option \<Rightarrow> val set option list option" where
  "plan_circuit_agg F ts group_cols w =
     (case w of
        None \<Rightarrow> Some (replicate (length group_cols) None)
      | Some p \<Rightarrow>
          plan_children F ts group_cols (case p of PAnd ps \<Rightarrow> ps | _ \<Rightarrow> [p]) (replicate (length group_cols) None))"

section \<open>Weighted folds\<close>

text \<open>The net weight of a row in a Z-set list, and a weighted sum over it.\<close>

definition netw :: "('a \<times> int) list \<Rightarrow> 'a \<Rightarrow> int" where
  "netw D x = sum_list (map (\<lambda>(y, w). if y = x then w else 0) D)"

definition lin :: "('a \<Rightarrow> int) \<Rightarrow> ('a \<times> int) list \<Rightarrow> int" where
  "lin g D = sum_list (map (\<lambda>(x, w). w * g x) D)"

lemma lin_simps [simp]: "lin g [] = 0" "lin g ((x, w) # D) = w * g x + lin g D" "lin g (D @ E) = lin g D + lin g E"
  by (simp_all add: lin_def)

lemma netw_simps [simp]:
  "netw [] x = 0" "netw ((y, w) # D) x = (if y = x then w else 0) + netw D x" "netw (D @ E) x = netw D x + netw E x"
  by (simp_all add: netw_def)

lemma lin_netw:
  "finite S \<Longrightarrow> fst ` set D \<subseteq> S \<Longrightarrow> lin g D = (\<Sum>x \<in> S. netw D x * g x)"
proof (induction D)
  case (Cons d D)
  obtain y w where d: "d = (y, w)" by (cases d)
  have "(\<Sum>x \<in> S. netw (d # D) x * g x) = (\<Sum>x \<in> S. (if x = y then w * g x else 0) + netw D x * g x)"
    unfolding d by (intro sum.cong) (auto simp: algebra_simps)
  also have "\<dots> = w * g y + (\<Sum>x \<in> S. netw D x * g x)"
    using Cons.prems d by (simp add: sum.distrib)
  finally show ?case using Cons d by simp
qed simp

lemma lin_cong_netw:
  assumes "\<And>x. netw D x = netw E x"
  shows "lin g D = lin g E"
  using lin_netw [of "fst ` set D \<union> fst ` set E" D g] lin_netw [of "fst ` set D \<union> fst ` set E" E g] assms
  by simp

lemma lin_nonneg: "(\<And>x. 0 \<le> netw D x) \<Longrightarrow> (\<And>x. 0 \<le> g x) \<Longrightarrow> 0 \<le> lin g D"
  using lin_netw [of "fst ` set D" D g] by (simp add: sum_nonneg)

lemma netw_rows: "netw (map (\<lambda>r. (r, 1)) R) r = int (count_list R r)"
  by (induction R) auto

section \<open>What the fold computes\<close>

definition agg_fold ::
  "fault \<Rightarrow> f64_ops \<Rightarrow> compiled_predicate \<Rightarrow> agg_fn \<Rightarrow> nat option \<Rightarrow> zdelta \<Rightarrow> 'a agg_seed_scheme \<Rightarrow> 'a agg_seed_scheme" where
  "agg_fold fl F p func col D s =
     fold (\<lambda>(r, w) s. if matches fl p r then fold_agg_row F func col r w s else s) D s"

lemma agg_fold_simps [simp]:
  "agg_fold fl F p func col [] s = s"
  "agg_fold fl F p func col ((r, w) # D) s =
     agg_fold fl F p func col D (if matches fl p r then fold_agg_row F func col r w s else s)"
  "agg_fold fl F p func col (D @ E) s = agg_fold fl F p func col E (agg_fold fl F p func col D s)"
  by (simp_all add: agg_fold_def)

lemma seed_fold_rows_eq: "seed_fold_rows fl F p func col R s = agg_fold fl F p func col (map (\<lambda>r. (r, 1)) R) s"
  by (induction R arbitrary: s) (simp_all add: seed_fold_rows_def)

lemma fold_agg_row_frame:
  fixes s :: agg_shape
  shows "ag_pred (fold_agg_row F func col r w s) = ag_pred s" "ag_func (fold_agg_row F func col r w s) = ag_func s"
    "ag_col (fold_agg_row F func col r w s) = ag_col s"
  by (auto simp: fold_agg_row_def Let_def split: option.splits)

lemma agg_apply_fold:
  "agg_apply fl F D sh = (agg_fold fl F (ag_pred sh) (ag_func sh) (ag_col sh) D sh, \<exists>(r, w) \<in> set D. matches fl (ag_pred sh) r)"
proof -
  have "fold (\<lambda>(r, w) (s, touched).
             if \<not> matches fl (ag_pred s) r then (s, touched)
             else (fold_agg_row F (ag_func s) (ag_col s) r w s, True)) D (sh, b)
      = (agg_fold fl F (ag_pred sh) (ag_func sh) (ag_col sh) D sh, b \<or> (\<exists>(r, w) \<in> set D. matches fl (ag_pred sh) r))" for b
    by (induction D arbitrary: sh b) (auto simp: fold_agg_row_frame)
  then show ?thesis by (simp add: agg_apply_def)
qed

definition agg_cell :: "nat option \<Rightarrow> row \<Rightarrow> val" where
  "agg_cell col r = (case col of None \<Rightarrow> VNull | Some ci \<Rightarrow> cell_at r ci)"

fun int_cell :: "val \<Rightarrow> bool" where
  "int_cell (VText _) = False"
| "int_cell (VFloat _) = False"
| "int_cell _ = True"

fun cell_int :: "val \<Rightarrow> int" where
  "cell_int (VInt i) = i"
| "cell_int (VBool b) = (if b then 1 else 0)"
| "cell_int _ = 0"

definition wt :: "fault \<Rightarrow> compiled_predicate \<Rightarrow> nat option \<Rightarrow> val \<Rightarrow> row \<Rightarrow> int" where
  "wt fl p col v r = (if matches fl p r \<and> agg_cell col r = v then 1 else 0)"

lemmas agg_row_simps = fold_agg_row_def Let_def agg_cell_def

lemma agg_fold_count: "ag_count (agg_fold fl F p func col D s) = ag_count s + lin (\<lambda>r. if matches fl p r then 1 else 0) D"
  by (induction D arbitrary: s) (auto simp: agg_row_simps split: option.splits)

lemma agg_fold_nn:
  "ag_nn_count (agg_fold fl F p func col D s) =
     ag_nn_count s + lin (\<lambda>r. if matches fl p r \<and> agg_cell col r \<noteq> VNull then 1 else 0) D"
  by (induction D arbitrary: s) (auto simp: agg_row_simps split: option.splits)

lemma agg_sum_add_int:
  "int_cell v \<Longrightarrow> v \<noteq> VNull \<Longrightarrow> agg_sum_add F v w (SumInt a) = SumInt (a + w * cell_int v)"
  by (cases v) (auto simp: agg_sum_add_def)

lemma agg_fold_sum:
  assumes "\<And>r. r \<in> fst ` set D \<Longrightarrow> int_cell (agg_cell col r)" "ag_sum s = SumInt a"
  shows "ag_sum (agg_fold fl F p func col D s) =
    SumInt (a + lin (\<lambda>r. if matches fl p r then cell_int (agg_cell col r) else 0) D)"
  using assms
proof (induction D arbitrary: s a)
  case (Cons d D)
  obtain r w where d: "d = (r, w)" by (cases d)
  let ?s = "if matches fl p r then fold_agg_row F func col r w s else s"
  have "int_cell (agg_cell col r)" using Cons.prems(1) d by simp
  then have "ag_sum ?s = SumInt (a + w * (if matches fl p r then cell_int (agg_cell col r) else 0))"
    using Cons.prems(2)
    by (auto simp: agg_row_simps agg_sum_add_int split: option.splits)
  from Cons.IH [OF _ this] Cons.prems(1) d show ?case by (simp add: algebra_simps)
qed simp

text \<open>A multiset holds exactly the positive weights.\<close>

definition pos_map :: "(val \<Rightarrow> int) \<Rightarrow> val \<Rightarrow> int option" where
  "pos_map W v = (if W v > 0 then Some (W v) else None)"

lemma pos_map_keys: "map_of ms = pos_map W \<Longrightarrow> fst ` set ms = {v. W v > 0}"
  unfolding dom_map_of_conv_image_fst [symmetric] by (auto simp: pos_map_def dom_def)

lemma fold_agg_row_multiset:
  assumes "map_of (ag_multiset s) = pos_map W" "\<And>v. 0 \<le> W v" "func = FnMin \<or> func = FnMax"
  shows "map_of (ag_multiset (fold_agg_row F func col r w s)) =
    pos_map (\<lambda>v. W v + (if v = agg_cell col r \<and> v \<noteq> VNull then w else 0))"
proof (cases "agg_cell col r = VNull")
  case True
  then have "ag_multiset (fold_agg_row F func col r w s) = ag_multiset s"
    "(\<lambda>v. W v + (if v = agg_cell col r \<and> v \<noteq> VNull then w else 0)) = W"
    by (auto simp: agg_row_simps split: option.splits)
  with assms(1) show ?thesis by simp
next
  case False
  let ?c = "agg_cell col r"
  have e: "(case map_of (ag_multiset s) ?c of None \<Rightarrow> 0 | Some n \<Rightarrow> n) = W ?c"
    using assms(2) [of ?c] unfolding assms(1) pos_map_def by auto
  have "ag_multiset (fold_agg_row F func col r w s) =
      (if W ?c + w \<le> 0 then AList.delete ?c (ag_multiset s) else AList.update ?c (W ?c + w) (ag_multiset s))"
    using False assms(3) e by (auto simp: agg_row_simps split: option.splits)
  then have "map_of (ag_multiset (fold_agg_row F func col r w s)) =
      (pos_map W)(?c := if W ?c + w \<le> 0 then None else Some (W ?c + w))"
    by (simp add: update_conv' assms(1))
  with False show ?thesis by (auto simp: pos_map_def fun_eq_iff)
qed

lemma agg_fold_multiset:
  assumes "func = FnMin \<or> func = FnMax" "map_of (ag_multiset s) = pos_map W"
    and "\<And>n v. v \<noteq> VNull \<Longrightarrow> 0 \<le> W v + lin (wt fl p col v) (take n D)" "W VNull = 0"
  shows "map_of (ag_multiset (agg_fold fl F p func col D s)) =
    pos_map (\<lambda>v. if v = VNull then 0 else W v + lin (wt fl p col v) D)"
  using assms(2-)
proof (induction D arbitrary: s W)
  case Nil
  then have "(\<lambda>v. if v = VNull then 0 else W v + lin (wt fl p col v) []) = W" by auto
  with Nil show ?case by (simp only: agg_fold_simps)
next
  case (Cons d D)
  obtain r w where d: "d = (r, w)" by (cases d)
  let ?s = "if matches fl p r then fold_agg_row F func col r w s else s"
  let ?W = "\<lambda>v. W v + (if v = agg_cell col r \<and> v \<noteq> VNull then w * wt fl p col v r else 0)"
  have wt0: "W v + (if v \<noteq> VNull then w * wt fl p col v r else 0) = ?W v" for v by (auto simp: wt_def)
  have W: "0 \<le> W v" for v using Cons.prems(2) [of v 0] Cons.prems(3) by (cases "v = VNull") auto
  have "map_of (ag_multiset ?s) = pos_map ?W"
    using fold_agg_row_multiset [OF Cons.prems(1) W assms(1), of F col r w] Cons.prems(1)
    by (auto simp: wt_def intro!: arg_cong [where f = pos_map])
  moreover have "0 \<le> ?W v + lin (wt fl p col v) (take n D)" if "v \<noteq> VNull" for n v
    using Cons.prems(2) [OF that, of "Suc n"] that wt0 [of v] d by simp
  moreover have "?W VNull = 0" using Cons.prems(3) by simp
  ultimately have "map_of (ag_multiset (agg_fold fl F p func col D ?s)) =
      pos_map (\<lambda>v. if v = VNull then 0 else ?W v + lin (wt fl p col v) D)" by (rule Cons.IH)
  also have "(\<lambda>v. if v = VNull then 0 else ?W v + lin (wt fl p col v) D)
      = (\<lambda>v. if v = VNull then 0 else W v + lin (wt fl p col v) (d # D))"
    by (auto simp: d wt_def)
  finally show ?case by (simp add: d)
qed

lemma first_last_key_cong:
  assumes "map_of ms = map_of ms'"
  shows "first_key ms = first_key ms'" "last_key ms = last_key ms'"
proof -
  have "fst ` set ms = fst ` set ms'" using assms by (metis dom_map_of_conv_image_fst)
  moreover from this have "ms = [] \<longleftrightarrow> ms' = []" by (metis image_is_empty set_empty)
  ultimately show "first_key ms = first_key ms'" "last_key ms = last_key ms'"
    by (simp_all add: first_key_def last_key_def)
qed

text \<open>Two histories with the same net content, neither of which ever retracts a row it does not
  hold, give the same aggregate.\<close>

definition never_negative :: "zdelta \<Rightarrow> bool" where
  "never_negative D \<longleftrightarrow> (\<forall>n r. 0 \<le> netw (take n D) r)"

lemma agg_value_netw:
  assumes "never_negative D" "never_negative E" "\<And>r. netw D r = netw E r"
    and "func = FnSum \<or> func = FnAvg \<Longrightarrow> \<forall>r \<in> fst ` set D \<union> fst ` set E. int_cell (agg_cell col r)"
    and "ag_count s = 0" "ag_nn_count s = 0" "ag_sum s = SumInt 0" "ag_multiset s = []"
    and "ag_count t = 0" "ag_nn_count t = 0" "ag_sum t = SumInt 0" "ag_multiset t = []"
  shows "agg_value_of F func col (agg_fold fl F p func col D s) = agg_value_of F func col (agg_fold fl F p func col E t)"
    and "ag_count (agg_fold fl F p func col D s) = ag_count (agg_fold fl F p func col E t)"
proof -
  have lin: "lin g D = lin g E" for g using assms(3) by (rule lin_cong_netw)
  have count: "ag_count (agg_fold fl F p func col D s) = ag_count (agg_fold fl F p func col E t)"
    by (simp add: agg_fold_count lin assms(5,9))
  have nn: "ag_nn_count (agg_fold fl F p func col D s) = ag_nn_count (agg_fold fl F p func col E t)"
    by (simp add: agg_fold_nn lin assms(6,10))
  have sum: "ag_sum (agg_fold fl F p func col D s) = ag_sum (agg_fold fl F p func col E t)"
    if "func = FnSum \<or> func = FnAvg"
    using assms(4) [OF that] assms(7,11) by (simp add: agg_fold_sum lin)
  have ms: "map_of (ag_multiset (agg_fold fl F p func col D s)) = map_of (ag_multiset (agg_fold fl F p func col E t))"
    if m: "func = FnMin \<or> func = FnMax"
  proof -
    have nonneg: "0 \<le> lin (wt fl p col v) (take n X)" if "never_negative X" for X n v
      using that by (intro lin_nonneg) (auto simp: never_negative_def wt_def)
    have "map_of (ag_multiset (agg_fold fl F p func col X u)) = pos_map (\<lambda>v. if v = VNull then 0 else lin (wt fl p col v) X)"
      if "never_negative X" "ag_multiset u = []" for X and u :: "'z agg_seed_scheme"
      using agg_fold_multiset [OF m, of u "\<lambda>_. 0" fl p col X F] nonneg [OF that(1)] that(2)
      by (simp add: pos_map_def fun_eq_iff)
    from this [OF assms(1,8)] show ?thesis
      using agg_fold_multiset [OF m, of t "\<lambda>_. 0" fl p col E F] nonneg [OF assms(2)] assms(12) lin
      by (simp add: pos_map_def fun_eq_iff)
  qed
  show "agg_value_of F func col (agg_fold fl F p func col D s) = agg_value_of F func col (agg_fold fl F p func col E t)"
    using count nn sum first_last_key_cong [OF ms] by (cases func; cases col) (simp_all add: agg_value_of_def)
  show "ag_count (agg_fold fl F p func col D s) = ag_count (agg_fold fl F p func col E t)" by (rule count)
qed

section \<open>Circuit plans\<close>

text \<open>Equality against a null literal is never true in SQL, but a constraint set holding null admits
  the null group; a plan is compared with the predicate for non-null literals.\<close>

fun nonnull_literals :: "predicate_json \<Rightarrow> bool" where
  "nonnull_literals (PLeaf c op v) = (\<not> is_null v)"
| "nonnull_literals (PAnd ps) = list_all nonnull_literals ps"
| "nonnull_literals (POr ps) = list_all nonnull_literals ps"
| "nonnull_literals _ = True"

lemma literal_nonnull: "literal_from_json F v ty = Ok x \<Longrightarrow> \<not> is_null v \<Longrightarrow> x \<noteq> VNull"
  by (auto simp: literal_from_json_def from_json_def is_null_def res_simps
      split: json.splits column_type.splits if_splits)

lemma plan_literal_compile:
  assumes "schema_wf ts" "plan_literal F ts col v = Some (i, x)" "\<not> is_null v"
  shows "compile F ts (PLeaf col OpEq v) = Ok (Cmp i OpEq x) \<and> x \<noteq> VNull"
  using assms literal_nonnull
  by (auto simp: plan_literal_def compile_def column_index_def column_type_at_def get_at_def
      split: option.splits sum.splits if_splits)

lemma compile_PAnd: "compile F ts (PAnd ps) = rbind (map_res (compile F ts) ps) (\<lambda>cs. Ok (And cs))"
  and compile_POr: "compile F ts (POr ps) = rbind (map_res (compile F ts) ps) (\<lambda>cs. Ok (Or cs))"
proof -
  have "stateless_answers no_subqueries" by (simp add: stateless_answers_def)
  note list = compile_list_map_res [OF this]
  show "compile F ts (PAnd ps) = rbind (map_res (compile F ts) ps) (\<lambda>cs. Ok (And cs))"
    "compile F ts (POr ps) = rbind (map_res (compile F ts) ps) (\<lambda>cs. Ok (Or cs))"
    by (simp_all only: compile_def [abs_def] compile_with.simps snd_case_prod_rbind list)
qed

lemma plan_or_compile:
  assumes "schema_wf ts" "plan_or F ts cs idx keys = Some (i, keys')" "list_all nonnull_literals cs"
    "map_res (compile F ts) cs = Ok ds"
  shows "(\<forall>j. idx = Some j \<longrightarrow> j = i) \<and>
    (\<exists>K. keys' = keys \<union> K \<and> (\<forall>r. (\<exists>d \<in> set ds. matches fl d r) \<longleftrightarrow> cell_at r i \<in> K))"
  using assms
proof (induction F ts cs idx keys arbitrary: ds rule: plan_or.induct)
  case (1 F ts idx keys)
  then show ?case by (auto split: option.splits intro!: exI [of _ "{}"])
next
  case (2 F ts col v cs idx keys)
  from "2.prems"(2) obtain k x where k: "ts_index ts col = Some k" "\<not> (case idx of None \<Rightarrow> k | Some j \<Rightarrow> j) \<noteq> k"
    and lit: "plan_literal F ts col v = Some (k, x)" and rest: "plan_or F ts cs (Some k) (insert x keys) = Some (i, keys')"
    by (auto simp: plan_literal_def split: option.splits if_splits sum.splits)
  have x: "compile F ts (PLeaf col OpEq v) = Ok (Cmp k OpEq x)" "x \<noteq> VNull"
    using plan_literal_compile [OF "2.prems"(1) lit] "2.prems"(3) by auto
  from "2.prems"(4) x(1) obtain ds' where ds': "map_res (compile F ts) cs = Ok ds'" "ds = Cmp k OpEq x # ds'"
    by (auto split: sum.splits)
  from "2.IH" [OF k lit refl "2.prems"(1) rest _ ds'(1)] "2.prems"(3) obtain K where
    K: "k = i" "keys' = insert x keys \<union> K" "\<forall>r. (\<exists>d \<in> set ds'. matches fl d r) \<longleftrightarrow> cell_at r i \<in> K"
    by auto
  have "matches fl (Cmp k OpEq x) r \<longleftrightarrow> cell_at r i = x" for r using x(2) K(1) by (simp add: matches_def)
  with K k ds'(2) show ?case
    by (intro conjI exI [of _ "insert x K"]) (auto split: option.splits)
qed auto

lemma plan_child_compile:
  assumes "schema_wf ts" "plan_child F ts c = Some (i, keys)" "nonnull_literals c" "compile F ts c = Ok d"
  shows "matches fl d r \<longleftrightarrow> cell_at r i \<in> keys"
proof (cases c)
  case (PLeaf col op v)
  with assms(2) obtain x where "op = OpEq" "plan_literal F ts col v = Some (i, x)" "keys = {x}"
    by (cases op) (auto simp: plan_child_def split: option.splits)
  with plan_literal_compile [OF assms(1), of F col v i x] assms(3,4) PLeaf
  show ?thesis by (auto simp: matches_def)
next
  case (POr cs)
  with assms(4) obtain ds where ds: "map_res (compile F ts) cs = Ok ds" "d = Or ds"
    by (auto simp: compile_POr res_simps)
  from POr assms(2) have "plan_or F ts cs None {} = Some (i, keys)" by (auto simp: plan_child_def split: if_splits)
  from plan_or_compile [OF assms(1) this _ ds(1)] POr assms(3) ds(2)
  show ?thesis by (auto simp: matches_def)
qed (use assms(2) in \<open>auto simp: plan_child_def\<close>)

lemma position_Some: "position xs x = Some i \<Longrightarrow> i < length xs \<and> xs ! i = x"
  by (induction xs arbitrary: i) (auto split: if_splits)

lemma group_matches_key_of:
  assumes "length cs = length cols"
  shows "group_matches cs (key_of r cols) \<longleftrightarrow> (\<forall>i < length cs. \<forall>K. cs ! i = Some K \<longrightarrow> cell_at r (cols ! i) \<in> K)"
  using assms
  by (fastforce simp: group_matches_def list_all_length key_of_def get_at_def split: option.splits)

lemma plan_children_compile:
  assumes "schema_wf ts"
  shows "plan_children F ts cols ps cs = Some out \<Longrightarrow> list_all nonnull_literals ps \<Longrightarrow>
    map_res (compile F ts) ps = Ok ds \<Longrightarrow> length cs = length cols \<Longrightarrow>
    length out = length cols \<and> (group_matches out (key_of r cols) \<longleftrightarrow>
      group_matches cs (key_of r cols) \<and> (\<forall>d \<in> set ds. matches fl d r))"
proof (induction ps arbitrary: cs ds)
  case (Cons p ps)
  from Cons.prems(1) obtain idx keys pos where
    p: "plan_child F ts p = Some (idx, keys)" "position cols idx = Some pos" "cs ! pos = None"
      "plan_children F ts cols ps (cs[pos := Some keys]) = Some out"
    by (auto split: option.splits if_splits)
  from Cons.prems(3) obtain d ds' where ds: "compile F ts p = Ok d" "map_res (compile F ts) ps = Ok ds'" "ds = d # ds'"
    by (auto split: sum.splits)
  have pos: "pos < length cs" "cols ! pos = idx" using position_Some [OF p(2)] Cons.prems(4) by auto
  have upd: "group_matches (cs[pos := Some keys]) (key_of r cols) \<longleftrightarrow>
      group_matches cs (key_of r cols) \<and> cell_at r idx \<in> keys"
    using pos p(3) Cons.prems(4) by (auto simp: group_matches_key_of nth_list_update)
  have "matches fl d r \<longleftrightarrow> cell_at r idx \<in> keys"
    using plan_child_compile [OF assms p(1) _ ds(1)] Cons.prems(2) by simp
  with Cons.IH [OF p(4) _ ds(2)] Cons.prems(2,4) upd ds(3) show ?case by auto
qed simp

section \<open>Properties\<close>



text \<open>A null literal makes the plan and the predicate disagree: the predicate never matches, the
  plan's constraint admits the null group.\<close>

lemma plan_circuit_agg_null_literal:
  "plan_circuit_agg F ex_schema [1] (Some (PLeaf ''role'' OpEq JNull)) = Some [Some {VNull}]
   \<and> group_matches [Some {VNull}] (key_of [VInt 1, VNull, VText ''u''] [1])
   \<and> compile F ex_schema (PLeaf ''role'' OpEq JNull) = Ok (Cmp 1 OpEq VNull)
   \<and> \<not> matches NoFault (Cmp 1 OpEq VNull) [VInt 1, VNull, VText ''u'']"
  by (simp add: plan_circuit_agg_def plan_child_def plan_literal_def ex_schema_def literal_from_json_def from_json_def
      is_null_def group_matches_def key_of_def get_at_def compile_def column_index_def column_type_at_def matches_def)

text \<open>A count served from group totals counts the rows the predicate matches. When a where
  clause with non-null literals is planned onto the group columns, a row matches the compiled clause
  exactly when its group satisfies the plan's constraints.\<close>

theorem plan_circuit_agg_exact:
  assumes "schema_wf ts" and "plan_circuit_agg F ts cols (Some w) = Some cs"
    and "nonnull_literals w" and "compile F ts w = Ok c"
  shows "matches fl c r \<longleftrightarrow> group_matches cs (key_of r cols)"
proof -
  let ?ps = "case w of PAnd ps \<Rightarrow> ps | _ \<Rightarrow> [w]"
  have plan: "plan_children F ts cols ?ps (replicate (length cols) None) = Some cs"
    using assms(2) by (simp add: plan_circuit_agg_def)
  have lits: "list_all nonnull_literals ?ps" using assms(3) by (cases w) auto
  obtain ds where ds: "map_res (compile F ts) ?ps = Ok ds" "matches fl c r \<longleftrightarrow> (\<forall>d \<in> set ds. matches fl d r)"
    using assms(4) by (cases w) (auto simp: compile_PAnd res_simps matches_def simp del: map_res_Inr_iff split: sum.splits)
  have "group_matches (replicate (length cols) None) (key_of r cols)" by (simp add: group_matches_key_of)
  with plan_children_compile [OF assms(1) plan lits ds(1)] ds(2) show ?thesis by auto
qed

theorem plan_circuit_agg_exact_witness:
  "matches NoFault (Or [Cmp 1 OpEq (VText ''a''), Cmp 1 OpEq (VText ''b'')]) [VInt 1, VText ''b'', VText ''u'']
     \<longleftrightarrow> group_matches [None, Some (insert (VText ''b'') (insert (VText ''a'') {}))]
           (key_of [VInt 1, VText ''b'', VText ''u''] [0, 1])"
proof (rule plan_circuit_agg_exact [OF ex_schema_wf])
  let ?w = "POr [PLeaf ''role'' OpEq (JStr ''a''), PLeaf ''role'' OpEq (JStr ''b'')]"
  show "plan_circuit_agg exact_f64 ex_schema [0, 1] (Some ?w) = Some [None, Some (insert (VText ''b'') (insert (VText ''a'') {}))]"
    by (simp add: plan_circuit_agg_def plan_child_def plan_literal_def ex_schema_def literal_from_json_def get_at_def)
  show "nonnull_literals ?w" by (simp add: is_null_def)
  show "compile exact_f64 ex_schema ?w = Ok (Or [Cmp 1 OpEq (VText ''a''), Cmp 1 OpEq (VText ''b'')])"
    by (simp add: compile_def ex_schema_def column_index_def column_type_at_def literal_from_json_def get_at_def)
qed

end
