(* ===== verification/SubqIndex.thy ===== *)
theory SubqIndex
  imports Aggregates
begin

text \<open>
  The membership side tables of the subquery registry: the primary-key dictionary
  (\<^verbatim>\<open>apps/engine/src/pk_dict.rs\<close>), the per-feed delete gate (\<^verbatim>\<open>subq_feed.rs\<close>) and the index of
  subquery shapes by outer table and necessary conjunct (\<^verbatim>\<open>subq_index.rs\<close>), which keeps the same
  contract as the standalone index. Interned ids are naturals: a \<open>u32\<close> counts more shapes or keys
  than fit in memory. Bitmaps are sets.
\<close>

section \<open>The primary-key dictionary\<close>

record pk_dict =
  pd_forward :: "string \<Rightarrow> nat option"
  pd_reverse :: "string list"

definition pk_new :: pk_dict where
  "pk_new = \<lparr>pd_forward = Map.empty, pd_reverse = []\<rparr>"

text \<open>The fast path, then the slow path under the write lock, which checks again before minting;
  \<open>d\<close> and \<open>d'\<close> are the dictionary at the two lock acquisitions.\<close>

definition pk_mint :: "string \<Rightarrow> pk_dict \<Rightarrow> pk_dict \<times> nat" where
  "pk_mint pk d' =
     (case pd_forward d' pk of
        Some i \<Rightarrow> (d', i)
      | None \<Rightarrow>
          (let i = length (pd_reverse d') in
           (\<lparr>pd_forward = (pd_forward d')(pk \<mapsto> i), pd_reverse = pd_reverse d' @ [pk]\<rparr>, i)))"

definition pk_get_or_insert :: "string \<Rightarrow> pk_dict \<Rightarrow> pk_dict \<times> nat" where
  "pk_get_or_insert pk d = (case pd_forward d pk of Some i \<Rightarrow> (d, i) | None \<Rightarrow> pk_mint pk d)"

definition pk_get :: "string \<Rightarrow> pk_dict \<Rightarrow> nat option" where
  "pk_get pk d = pd_forward d pk"

definition pk_resolve :: "nat \<Rightarrow> pk_dict \<Rightarrow> string option" where
  "pk_resolve i d = get_at (pd_reverse d) i"

definition pk_len :: "pk_dict \<Rightarrow> nat" where
  "pk_len d = length (pd_reverse d)"

definition pk_wf :: "pk_dict \<Rightarrow> bool" where
  "pk_wf d \<longleftrightarrow> (\<forall>pk i. pd_forward d pk = Some i \<longleftrightarrow> get_at (pd_reverse d) i = Some pk)"

text \<open>What the circuit and the registry rely on: an interner hands out one id per key, keeps every
  id it handed out, and resolves ids back.\<close>

locale interner =
  fixes intern :: "'k \<Rightarrow> 'd \<Rightarrow> 'd \<times> nat"
    and id_of :: "'k \<Rightarrow> 'd \<Rightarrow> nat option"
    and resolve :: "nat \<Rightarrow> 'd \<Rightarrow> 'k option"
    and inv :: "'d \<Rightarrow> bool"
  assumes intern_inv: "inv d \<Longrightarrow> inv (fst (intern k d))"
    and intern_id: "inv d \<Longrightarrow> id_of k (fst (intern k d)) = Some (snd (intern k d))"
    and intern_keeps: "inv d \<Longrightarrow> id_of j d = Some i \<Longrightarrow> id_of j (fst (intern k d)) = Some i"
    and resolve_iff: "inv d \<Longrightarrow> resolve i d = Some k \<longleftrightarrow> id_of k d = Some i"
begin

text \<open>Interning a list of keys, in order.\<close>

definition intern_all :: "'k list \<Rightarrow> 'd \<Rightarrow> 'd" where
  "intern_all ks d = fold (\<lambda>k d. fst (intern k d)) ks d"

lemma intern_all_inv: "inv d \<Longrightarrow> inv (intern_all ks d)"
  by (induction ks arbitrary: d) (auto simp: intern_all_def intern_inv)

lemma intern_all_keeps: "inv d \<Longrightarrow> id_of j d = Some i \<Longrightarrow> id_of j (intern_all ks d) = Some i"
  by (induction ks arbitrary: d) (auto simp: intern_all_def intern_inv intern_keeps)

text \<open>An id stays bound to its key whatever is interned later, and no other key ever gets it.\<close>

lemma id_stable:
  assumes "inv d" "intern k d = (d', i)"
  shows "resolve i (intern_all ks d') = Some k"
    and "id_of j (intern_all ks d') = Some i \<Longrightarrow> j = k"
    and "snd (intern k (intern_all ks d')) = i"
proof -
  have d': "inv d'" "id_of k d' = Some i" using intern_inv [OF assms(1), of k] intern_id [OF assms(1), of k] assms(2) by auto
  have inv: "inv (intern_all ks d')" by (rule intern_all_inv [OF d'(1)])
  have k: "id_of k (intern_all ks d') = Some i" by (rule intern_all_keeps [OF d'])
  then show res: "resolve i (intern_all ks d') = Some k" by (simp add: resolve_iff [OF inv])
  show "j = k" if "id_of j (intern_all ks d') = Some i" using that res resolve_iff [OF inv] by (metis option.inject)
  show "snd (intern k (intern_all ks d')) = i"
    using intern_id [OF inv, of k] intern_keeps [OF inv k, of k] by simp
qed

end

lemma pk_wf_new: "pk_wf pk_new"
  by (simp add: pk_wf_def pk_new_def get_at_def)

lemma get_at_append: "get_at (xs @ [x]) i = (if i = length xs then Some x else get_at xs i)"
  by (auto simp: get_at_def nth_append)

lemma pk_wf_mint:
  assumes "pk_wf d"
  shows "pk_wf (fst (pk_mint pk d))"
proof (cases "pd_forward d pk")
  case None
  then have fresh: "get_at (pd_reverse d) i \<noteq> Some pk" for i using assms by (metis option.distinct(1) pk_wf_def)
  have none: "get_at (pd_reverse d) (length (pd_reverse d)) = None" by simp
  have len: "pd_forward d q \<noteq> Some (length (pd_reverse d))" for q
    using assms none unfolding pk_wf_def by (metis option.distinct(1))
  show ?thesis
    using None assms fresh len
    unfolding pk_wf_def pk_mint_def Let_def by (auto simp: get_at_append simp del: get_at_Some_iff)
qed (use assms in \<open>simp add: pk_mint_def\<close>)

interpretation pkd: interner pk_get_or_insert pk_get pk_resolve pk_wf
proof unfold_locales
  fix d :: pk_dict and k j :: string and i :: nat
  assume wf: "pk_wf d"
  show "pk_wf (fst (pk_get_or_insert k d))"
    using wf pk_wf_mint [OF wf, of k] by (auto simp: pk_get_or_insert_def split: option.splits)
  show "pk_get k (fst (pk_get_or_insert k d)) = Some (snd (pk_get_or_insert k d))"
    by (auto simp: pk_get_or_insert_def pk_get_def pk_mint_def Let_def split: option.splits)
  show "pk_get j d = Some i \<Longrightarrow> pk_get j (fst (pk_get_or_insert k d)) = Some i"
    by (auto simp: pk_get_or_insert_def pk_get_def pk_mint_def Let_def split: option.splits)
  show "pk_resolve i d = Some k \<longleftrightarrow> pk_get k d = Some i"
    using wf by (auto simp: pk_resolve_def pk_get_def pk_wf_def simp del: get_at_Some_iff)
qed

section \<open>The delete gate\<close>

type_synonym feed_set = "(int \<times> nat set) list"

definition feed_insert :: "int \<Rightarrow> nat \<Rightarrow> feed_set \<Rightarrow> feed_set \<times> bool" where
  "feed_insert fid pk fs =
     (upd_default fid {} (insert pk) fs,
      pk \<notin> (case map_of fs fid of None \<Rightarrow> {} | Some bm \<Rightarrow> bm))"

definition feed_remove :: "int \<Rightarrow> nat \<Rightarrow> feed_set \<Rightarrow> feed_set \<times> bool" where
  "feed_remove fid pk fs =
     (case map_of fs fid of
        Some bm \<Rightarrow> (AList.update fid (bm - {pk}) fs, pk \<in> bm)
      | None \<Rightarrow> (fs, False))"

definition feed_contains :: "int \<Rightarrow> nat \<Rightarrow> feed_set \<Rightarrow> bool" where
  "feed_contains fid pk fs \<longleftrightarrow> (case map_of fs fid of None \<Rightarrow> False | Some bm \<Rightarrow> pk \<in> bm)"

definition drop_feed :: "int \<Rightarrow> feed_set \<Rightarrow> feed_set" where
  "drop_feed fid fs = AList.delete fid fs"

definition total_entries :: "feed_set \<Rightarrow> nat" where
  "total_entries fs = sum_list (map (\<lambda>(f, bm). card bm) fs)"

text \<open>A membership verdict passed through the gate: an upsert is always delivered, a delete only if
  the feed held the key.\<close>

datatype delivery = Upsert nat | Delete nat

definition gate_verdict :: "int \<Rightarrow> nat \<times> bool \<Rightarrow> feed_set \<times> delivery list \<Rightarrow> feed_set \<times> delivery list" where
  "gate_verdict fid v st =
     (case (v, st) of ((pk, member), (fs, out)) \<Rightarrow>
        if member then (fst (feed_insert fid pk fs), out @ [Upsert pk])
        else (case feed_remove fid pk fs of (fs', present) \<Rightarrow> (fs', if present then out @ [Delete pk] else out)))"

lemma feed_insert_contains: "feed_contains f p (fst (feed_insert fid pk fs)) \<longleftrightarrow> (f = fid \<and> p = pk) \<or> feed_contains f p fs"
  by (auto simp: feed_contains_def feed_insert_def split: option.splits)

lemma feed_remove_contains: "feed_contains f p (fst (feed_remove fid pk fs)) \<longleftrightarrow> \<not> (f = fid \<and> p = pk) \<and> feed_contains f p fs"
  by (auto simp: feed_contains_def feed_remove_def update_conv' split: option.splits)

lemma feed_remove_result: "snd (feed_remove fid pk fs) = feed_contains fid pk fs"
  by (auto simp: feed_contains_def feed_remove_def split: option.splits)

lemma feed_insert_result: "snd (feed_insert fid pk fs) = (\<not> feed_contains fid pk fs)"
  by (auto simp: feed_contains_def feed_insert_def split: option.splits)

lemma drop_feed_contains: "feed_contains f p (drop_feed fid fs) \<longleftrightarrow> f \<noteq> fid \<and> feed_contains f p fs"
  by (auto simp: feed_contains_def drop_feed_def)

definition deliver :: "delivery \<Rightarrow> nat set \<Rightarrow> nat set" where
  "deliver d S = (case d of Upsert pk \<Rightarrow> insert pk S | Delete pk \<Rightarrow> S - {pk})"

definition feed_keys :: "int \<Rightarrow> feed_set \<Rightarrow> nat set" where
  "feed_keys fid fs = {pk. feed_contains fid pk fs}"

lemma gate_verdict_step:
  assumes "gate_verdict fid (pk, member) (fs, out) = (fs', out')"
  shows "\<exists>new. out' = out @ new \<and> fold deliver new (feed_keys fid fs) = feed_keys fid fs' \<and>
    (\<forall>q. Delete q \<in> set new \<longrightarrow> q \<in> feed_keys fid fs) \<and>
    feed_keys fid fs' = (if member then insert pk (feed_keys fid fs) else feed_keys fid fs - {pk})"
proof (cases member)
  case True
  with assms show ?thesis
    by (auto simp: gate_verdict_def deliver_def feed_keys_def feed_insert_contains intro!: exI [of _ "[Upsert pk]"])
next
  case False
  obtain fs1 b where r: "feed_remove fid pk fs = (fs1, b)" by (cases "feed_remove fid pk fs")
  have b: "b = feed_contains fid pk fs" using feed_remove_result [of fid pk fs] r by simp
  have "feed_contains fid q fs1 \<longleftrightarrow> q \<noteq> pk \<and> feed_contains fid q fs" for q
    using feed_remove_contains [of fid q fid pk fs] r by simp
  then have keys: "feed_keys fid fs1 = feed_keys fid fs - {pk}" by (auto simp: feed_keys_def)
  have out: "fs' = fs1" "out' = out @ (if b then [Delete pk] else [])"
    using False assms r by (auto simp: gate_verdict_def)
  have "fold deliver (if b then [Delete pk] else []) (feed_keys fid fs) = feed_keys fid fs1"
  proof (cases b)
    case True
    then show ?thesis by (simp add: deliver_def keys)
  next
    case False
    with b have "pk \<notin> feed_keys fid fs" by (simp add: feed_keys_def)
    with False show ?thesis by (simp add: keys)
  qed
  moreover have "\<forall>q. Delete q \<in> set (if b then [Delete pk] else []) \<longrightarrow> q \<in> feed_keys fid fs"
    using b by (simp add: feed_keys_def)
  ultimately show ?thesis using out keys False
    by (intro exI [of _ "if b then [Delete pk] else []"]) simp
qed

section \<open>Posting lists\<close>

type_synonym 'b posting = "(nat \<times> (val \<times> 'b) list) list"

definition post_get :: "'b \<Rightarrow> 'b posting \<Rightarrow> nat \<Rightarrow> val \<Rightarrow> 'b" where
  "post_get d m c v =
     (case map_of m c of None \<Rightarrow> d | Some bv \<Rightarrow> (case map_of bv v of None \<Rightarrow> d | Some b \<Rightarrow> b))"

definition post_upd :: "'b \<Rightarrow> nat \<Rightarrow> val \<Rightarrow> ('b \<Rightarrow> 'b) \<Rightarrow> 'b posting \<Rightarrow> 'b posting" where
  "post_upd d c v f m = upd_default c [] (upd_default v d f) m"

definition post_prune :: "('b \<Rightarrow> bool) \<Rightarrow> nat \<Rightarrow> val \<Rightarrow> ('b \<Rightarrow> 'b) \<Rightarrow> 'b posting \<Rightarrow> 'b posting" where
  "post_prune emp c v f m =
     (case map_of m c of
        None \<Rightarrow> m
      | Some bv \<Rightarrow>
          (let bv' = (case map_of bv v of
                        None \<Rightarrow> bv
                      | Some b \<Rightarrow> (let b' = f b in if emp b' then AList.delete v bv else AList.update v b' bv))
           in if bv' = [] then AList.delete c m else AList.update c bv' m))"

lemma post_get_upd [simp]:
  "post_get d (post_upd d c v f m) c' v' = (if c' = c \<and> v' = v then f (post_get d m c v) else post_get d m c' v')"
  by (auto simp: post_get_def post_upd_def split: option.splits)

lemma post_get_prune [simp]:
  assumes "\<And>b. emp b \<longleftrightarrow> b = d" "f d = d"
  shows "post_get d (post_prune emp c v f m) c' v' =
    (if c' = c \<and> v' = v then f (post_get d m c v) else post_get d m c' v')"
proof (cases "map_of m c")
  case None
  then show ?thesis using assms(2) by (auto simp: post_prune_def post_get_def)
next
  case (Some bv)
  define bv' where "bv' = (case map_of bv v of None \<Rightarrow> bv
     | Some b \<Rightarrow> (let b' = f b in if emp b' then AList.delete v bv else AList.update v b' bv))"
  have look: "(case map_of bv' u of None \<Rightarrow> d | Some b \<Rightarrow> b) =
      (if u = v then f (case map_of bv v of None \<Rightarrow> d | Some b \<Rightarrow> b) else (case map_of bv u of None \<Rightarrow> d | Some b \<Rightarrow> b))" for u
    by (auto simp: bv'_def Let_def assms update_conv' split: option.splits)
  have "post_prune emp c v f m = (if bv' = [] then AList.delete c m else AList.update c bv' m)"
    by (simp add: post_prune_def Some bv'_def Let_def)
  then have "map_of (post_prune emp c v f m) = (map_of m)(c := if bv' = [] then None else Some bv')"
    by (simp add: update_conv')
  then show ?thesis
    using look [of v'] Some by (cases "bv' = []") (auto simp: post_get_def)
qed

lemma post_wf_upd [simp]: "buckets_wf m \<Longrightarrow> buckets_wf (post_upd d c v f m)"
  unfolding post_upd_def upd_default_def [of c]
  by (rule buckets_wf_update) (auto dest: buckets_wf_inner split: option.splits)

lemma post_wf_prune [simp]: "buckets_wf m \<Longrightarrow> buckets_wf (post_prune emp c v f m)"
  by (auto simp: post_prune_def Let_def distinct_update distinct_delete
      intro!: buckets_wf_update buckets_wf_delete dest: buckets_wf_inner split: option.splits)

lemma post_iter:
  assumes "buckets_wf m" "(c, bv) \<in> set m" "(v, b) \<in> set bv"
  shows "post_get d m c v = b"
proof -
  have "map_of m c = Some bv" using assms(1,2) by (simp add: buckets_wf_def)
  moreover have "map_of bv v = Some b" using assms by (auto simp: buckets_wf_def)
  ultimately show ?thesis by (simp add: post_get_def)
qed

section \<open>The index of subquery shapes\<close>

record bound_lists =
  b_strict :: "nat set"
  b_inclusive :: "nat set"

definition bound_empty :: bound_lists where "bound_empty = \<lparr>b_strict = {}, b_inclusive = {}\<rparr>"

definition bound_is_empty :: "bound_lists \<Rightarrow> bool" where
  "bound_is_empty b \<longleftrightarrow> b_strict b = {} \<and> b_inclusive b = {}"

record table_index =
  ti_eq :: "nat set posting"
  ti_lower :: "bound_lists posting"
  ti_upper :: "bound_lists posting"
  ti_scan :: "nat set"

definition table_index_default :: table_index where
  "table_index_default = \<lparr>ti_eq = [], ti_lower = [], ti_upper = [], ti_scan = {}\<rparr>"

definition table_index_is_empty :: "table_index \<Rightarrow> bool" where
  "table_index_is_empty t \<longleftrightarrow> ti_eq t = [] \<and> ti_lower t = [] \<and> ti_upper t = [] \<and> ti_scan t = {}"

record placement =
  pl_table :: string
  pl_leaf :: "access_leaf option"

record subquery_shape_index =
  si_forward :: "string \<Rightarrow> nat option"
  si_reverse :: "string option list"
  si_free :: "nat list"
  si_tables :: "(string \<times> table_index) list"
  si_placed :: "nat \<Rightarrow> placement option"

definition si_empty :: subquery_shape_index where
  "si_empty = \<lparr>si_forward = Map.empty, si_reverse = [], si_free = [], si_tables = [], si_placed = Map.empty\<rparr>"

definition bound_add :: "bool \<Rightarrow> nat \<Rightarrow> bound_lists \<Rightarrow> bound_lists" where
  "bound_add strict sid e =
     (if strict then e\<lparr>b_strict := insert sid (b_strict e)\<rparr> else e\<lparr>b_inclusive := insert sid (b_inclusive e)\<rparr>)"

definition si_remove_bound :: "nat \<Rightarrow> val \<Rightarrow> nat \<Rightarrow> bound_lists posting \<Rightarrow> bound_lists posting" where
  "si_remove_bound col v sid m =
     post_prune bound_is_empty col v
       (\<lambda>b. b\<lparr>b_strict := b_strict b - {sid}, b_inclusive := b_inclusive b - {sid}\<rparr>) m"

text \<open>Filing and un-filing one shape in its table's bucket.\<close>

definition file_leaf :: "access_leaf option \<Rightarrow> nat \<Rightarrow> table_index \<Rightarrow> table_index" where
  "file_leaf leaf sid b =
     (case leaf of
        Some (LeafEq col v) \<Rightarrow> b\<lparr>ti_eq := post_upd {} col v (insert sid) (ti_eq b)\<rparr>
      | Some (Lower col v strict) \<Rightarrow> b\<lparr>ti_lower := post_upd bound_empty col v (bound_add strict sid) (ti_lower b)\<rparr>
      | Some (Upper col v strict) \<Rightarrow> b\<lparr>ti_upper := post_upd bound_empty col v (bound_add strict sid) (ti_upper b)\<rparr>
      | None \<Rightarrow> b\<lparr>ti_scan := insert sid (ti_scan b)\<rparr>)"

definition unfile_leaf :: "access_leaf option \<Rightarrow> nat \<Rightarrow> table_index \<Rightarrow> table_index" where
  "unfile_leaf leaf sid b =
     (case leaf of
        Some (LeafEq col v) \<Rightarrow> b\<lparr>ti_eq := post_prune (\<lambda>s. s = {}) col v (\<lambda>s. s - {sid}) (ti_eq b)\<rparr>
      | Some (Lower col v _) \<Rightarrow> b\<lparr>ti_lower := si_remove_bound col v sid (ti_lower b)\<rparr>
      | Some (Upper col v _) \<Rightarrow> b\<lparr>ti_upper := si_remove_bound col v sid (ti_upper b)\<rparr>
      | None \<Rightarrow> b\<lparr>ti_scan := ti_scan b - {sid}\<rparr>)"

definition si_remove :: "string \<Rightarrow> subquery_shape_index \<Rightarrow> subquery_shape_index" where
  "si_remove shape_id ix =
     (case si_forward ix shape_id of
        None \<Rightarrow> ix
      | Some sid \<Rightarrow>
          (case si_placed ix sid of
             None \<Rightarrow> ix
           | Some pl \<Rightarrow>
               (let tables =
                      (case map_of (si_tables ix) (pl_table pl) of
                         None \<Rightarrow> si_tables ix
                       | Some b \<Rightarrow>
                           (let b' = unfile_leaf (pl_leaf pl) sid b in
                            if table_index_is_empty b' then AList.delete (pl_table pl) (si_tables ix)
                            else AList.update (pl_table pl) b' (si_tables ix)))
                in ix\<lparr>si_forward := (si_forward ix)(shape_id := None),
                      si_reverse := (si_reverse ix)[sid := None],
                      si_free := si_free ix @ [sid],
                      si_tables := tables,
                      si_placed := (si_placed ix)(sid := None)\<rparr>)))"

definition si_intern :: "string \<Rightarrow> subquery_shape_index \<Rightarrow> subquery_shape_index \<times> nat" where
  "si_intern shape_id ix =
     (if si_free ix \<noteq> [] then
        (let sid = last (si_free ix) in
         (ix\<lparr>si_free := butlast (si_free ix), si_reverse := (si_reverse ix)[sid := Some shape_id],
             si_forward := (si_forward ix)(shape_id \<mapsto> sid)\<rparr>, sid))
      else
        (let sid = length (si_reverse ix) in
         (ix\<lparr>si_reverse := si_reverse ix @ [Some shape_id],
             si_forward := (si_forward ix)(shape_id \<mapsto> sid)\<rparr>, sid)))"

definition si_insert :: "string \<Rightarrow> string \<times> compiled_predicate \<Rightarrow> subquery_shape_index \<Rightarrow> subquery_shape_index" where
  "si_insert shape_id tp ix0 =
     (case (tp, si_intern shape_id (si_remove shape_id ix0)) of
        ((t, pred), (ix, sid)) \<Rightarrow>
          (let leaf = access_leaf pred in
           ix\<lparr>si_tables := upd_default t table_index_default (file_leaf leaf sid) (si_tables ix),
              si_placed := (si_placed ix)(sid \<mapsto> \<lparr>pl_table = t, pl_leaf = leaf\<rparr>)\<rparr>))"

definition si_bound_hits :: "(val \<Rightarrow> val \<Rightarrow> bool) \<Rightarrow> bound_lists posting \<Rightarrow> row \<Rightarrow> nat set" where
  "si_bound_hits in_range m r =
     (\<Union>(col, bounds) \<in> set m.
        case get_at r col of
          None \<Rightarrow> {}
        | Some cell \<Rightarrow>
            if cell = VNull then {}
            else (\<Union>(bound, b) \<in> set (filter (\<lambda>(bd, _). in_range bd cell) bounds).
                    (if bound \<noteq> cell then b_strict b else {}) \<union> b_inclusive b))"

definition si_row_hits :: "table_index \<Rightarrow> row \<Rightarrow> nat set" where
  "si_row_hits t r =
     (\<Union>(col, by_val) \<in> set (ti_eq t).
        case get_at r col of
          None \<Rightarrow> {}
        | Some cell \<Rightarrow> (case map_of by_val cell of None \<Rightarrow> {} | Some bm \<Rightarrow> bm))
     \<union> si_bound_hits (\<lambda>b cell. b \<le> cell) (ti_lower t) r
     \<union> si_bound_hits (\<lambda>b cell. cell \<le> b) (ti_upper t) r"

definition si_candidates :: "subquery_shape_index \<Rightarrow> string \<times> zdelta \<Rightarrow> string set" where
  "si_candidates ix td =
     (case td of (t, delta) \<Rightarrow>
        (case map_of (si_tables ix) t of
           None \<Rightarrow> {}
         | Some b \<Rightarrow>
             (let out = ti_scan b \<union> (\<Union>(r, w) \<in> set delta. si_row_hits b r) in
              (\<Union>sid \<in> out. case get_at (si_reverse ix) sid of Some (Some n) \<Rightarrow> {n} | _ \<Rightarrow> {}))))"

definition has_table :: "subquery_shape_index \<Rightarrow> string \<Rightarrow> bool" where
  "has_table ix t \<longleftrightarrow> map_of (si_tables ix) t \<noteq> None"

section \<open>The index invariant\<close>

text \<open>The posting list a leaf names holds the shape.\<close>

fun filed :: "table_index \<Rightarrow> nat \<Rightarrow> access_leaf option \<Rightarrow> bool" where
  "filed b i None = (i \<in> ti_scan b)"
| "filed b i (Some (LeafEq c v)) = (i \<in> post_get {} (ti_eq b) c v)"
| "filed b i (Some (Lower c v s)) =
     (i \<in> (if s then b_strict (post_get bound_empty (ti_lower b) c v) else b_inclusive (post_get bound_empty (ti_lower b) c v)))"
| "filed b i (Some (Upper c v s)) =
     (i \<in> (if s then b_strict (post_get bound_empty (ti_upper b) c v) else b_inclusive (post_get bound_empty (ti_upper b) c v)))"

definition table_index_wf :: "table_index \<Rightarrow> bool" where
  "table_index_wf b \<longleftrightarrow> buckets_wf (ti_eq b) \<and> buckets_wf (ti_lower b) \<and> buckets_wf (ti_upper b)"

lemma bound_is_empty_iff: "bound_is_empty b \<longleftrightarrow> b = bound_empty"
  by (auto simp: bound_is_empty_def bound_empty_def)

lemma filed_file_leaf: "filed (file_leaf leaf sid b) i l \<longleftrightarrow> filed b i l \<or> (i = sid \<and> l = leaf)"
proof (cases leaf)
  case None
  then show ?thesis by (cases "(b, i, l)" rule: filed.cases) (auto simp: file_leaf_def)
next
  case (Some lf)
  then show ?thesis
    by (cases lf; cases "(b, i, l)" rule: filed.cases) (auto simp: file_leaf_def bound_add_def)
qed

lemma filed_unfile_leaf:
  assumes "\<And>l. filed b sid l \<Longrightarrow> l = leaf"
  shows "filed (unfile_leaf leaf sid b) i l \<longleftrightarrow> filed b i l \<and> i \<noteq> sid"
proof -
  have other: "filed (unfile_leaf leaf sid b) i l = filed b i l" if "i \<noteq> sid"
  proof (cases leaf)
    case (Some lf)
    with that show ?thesis
      by (cases lf; cases "(b, i, l)" rule: filed.cases)
        (auto simp: unfile_leaf_def si_remove_bound_def bound_is_empty_iff bound_empty_def)
  qed (use that in \<open>cases "(b, i, l)" rule: filed.cases, auto simp: unfile_leaf_def\<close>)
  have sub: "filed (unfile_leaf leaf sid b) sid l \<Longrightarrow> filed b sid l"
  proof (cases leaf)
    case (Some lf)
    then show "filed (unfile_leaf leaf sid b) sid l \<Longrightarrow> filed b sid l"
      by (cases lf; cases "(b, sid, l)" rule: filed.cases)
        (auto simp: unfile_leaf_def si_remove_bound_def bound_is_empty_iff bound_empty_def split: if_splits)
  qed (cases "(b, sid, l)" rule: filed.cases, auto simp: unfile_leaf_def)
  have gone: "\<not> filed (unfile_leaf leaf sid b) sid leaf"
  proof (cases leaf)
    case (Some lf)
    then show ?thesis
      by (cases lf) (auto simp: unfile_leaf_def si_remove_bound_def bound_is_empty_iff bound_empty_def)
  qed (simp add: unfile_leaf_def)
  from other sub gone assms show ?thesis by blast
qed

lemma table_index_wf_file: "table_index_wf b \<Longrightarrow> table_index_wf (file_leaf leaf sid b)"
  by (auto simp: table_index_wf_def file_leaf_def split: option.splits access_leaf.splits)

lemma table_index_wf_unfile: "table_index_wf b \<Longrightarrow> table_index_wf (unfile_leaf leaf sid b)"
  by (auto simp: table_index_wf_def unfile_leaf_def si_remove_bound_def split: option.splits access_leaf.splits)

lemma filed_default: "\<not> filed table_index_default i l"
  by (cases "(table_index_default, i, l)" rule: filed.cases)
    (auto simp: table_index_default_def post_get_def bound_empty_def)

lemma table_index_wf_default: "table_index_wf table_index_default"
  by (simp add: table_index_wf_def table_index_default_def buckets_wf_def)

lemma filed_empty: "table_index_is_empty b \<Longrightarrow> \<not> filed b i l"
  using filed_default [of i l] by (cases b) (simp add: table_index_is_empty_def table_index_default_def)

definition tab :: "subquery_shape_index \<Rightarrow> string \<Rightarrow> table_index" where
  "tab ix t = (case map_of (si_tables ix) t of None \<Rightarrow> table_index_default | Some b \<Rightarrow> b)"

definition si_wf :: "subquery_shape_index \<Rightarrow> bool" where
  "si_wf ix \<longleftrightarrow>
     (\<forall>n i. si_forward ix n = Some i \<longleftrightarrow> get_at (si_reverse ix) i = Some (Some n)) \<and>
     distinct (si_free ix) \<and> (\<forall>i. i \<in> set (si_free ix) \<longleftrightarrow> get_at (si_reverse ix) i = Some None) \<and>
     (\<forall>i. si_placed ix i \<noteq> None \<longleftrightarrow> (\<exists>n. get_at (si_reverse ix) i = Some (Some n))) \<and>
     (\<forall>t. table_index_wf (tab ix t)) \<and>
     (\<forall>t i l. filed (tab ix t) i l \<longleftrightarrow> si_placed ix i = Some \<lparr>pl_table = t, pl_leaf = l\<rparr>)"

definition si_registered :: "subquery_shape_index \<Rightarrow> string \<Rightarrow> (string \<times> access_leaf option) option" where
  "si_registered ix n =
     (case si_forward ix n of None \<Rightarrow> None
      | Some i \<Rightarrow> map_option (\<lambda>p. (pl_table p, pl_leaf p)) (si_placed ix i))"

lemma si_wf_empty: "si_wf si_empty" "si_registered si_empty = Map.empty"
  by (auto simp: si_wf_def si_empty_def get_at_def tab_def filed_default table_index_wf_default si_registered_def)

lemmas si_wfD = si_wf_def [THEN iffD1]

lemma si_wf_parts:
  assumes "si_wf ix"
  shows "si_forward ix n = Some i \<longleftrightarrow> get_at (si_reverse ix) i = Some (Some n)"
    and "distinct (si_free ix)" "i \<in> set (si_free ix) \<longleftrightarrow> get_at (si_reverse ix) i = Some None"
    and "si_placed ix i \<noteq> None \<longleftrightarrow> (\<exists>n. get_at (si_reverse ix) i = Some (Some n))"
    and "table_index_wf (tab ix t)"
    and "filed (tab ix t) i l \<longleftrightarrow> si_placed ix i = Some \<lparr>pl_table = t, pl_leaf = l\<rparr>"
  using assms by (simp_all add: si_wf_def del: get_at_Some_iff)

lemma get_at_update: "get_at (xs[j := x]) i = (if i = j \<and> j < length xs then Some x else get_at xs i)"
  by (auto simp: get_at_def nth_list_update)

lemma si_remove_absent: "si_wf ix \<Longrightarrow> si_forward ix n = None \<Longrightarrow> si_remove n ix = ix"
  by (simp add: si_remove_def)

lemma si_remove_present:
  assumes wf: "si_wf ix" and fwd: "si_forward ix n = Some sid"
  obtains pl where "si_placed ix sid = Some pl"
    "si_forward (si_remove n ix) = (si_forward ix)(n := None)"
    "si_reverse (si_remove n ix) = (si_reverse ix)[sid := None]"
    "si_free (si_remove n ix) = si_free ix @ [sid]"
    "si_placed (si_remove n ix) = (si_placed ix)(sid := None)"
    "\<And>t. table_index_wf (tab (si_remove n ix) t)"
    "\<And>t i l. filed (tab (si_remove n ix) t) i l \<longleftrightarrow> filed (tab ix t) i l \<and> i \<noteq> sid"
proof -
  from fwd have rev: "get_at (si_reverse ix) sid = Some (Some n)" by (simp only: si_wf_parts(1) [OF wf])
  then obtain pl where pl: "si_placed ix sid = Some pl" using si_wf_parts(4) [OF wf, of sid] by auto
  obtain pt pf where plc: "pl = \<lparr>pl_table = pt, pl_leaf = pf\<rparr>" by (cases pl) auto
  have only: "filed (tab ix t) sid l \<longleftrightarrow> t = pt \<and> l = pf" for t l
    using si_wf_parts(6) [OF wf] pl plc by auto
  obtain b0 where some: "map_of (si_tables ix) pt = Some b0" and b0: "tab ix pt = b0"
    using only [of pt pf] filed_default by (cases "map_of (si_tables ix) pt") (auto simp: tab_def)
  have un: "filed (unfile_leaf pf sid b0) i l \<longleftrightarrow> filed b0 i l \<and> i \<noteq> sid" for i l
    using only [of pt] b0 by (intro filed_unfile_leaf) simp
  have tabs: "tab (si_remove n ix) t = (if t = pt then
      (if table_index_is_empty (unfile_leaf pf sid b0) then table_index_default else unfile_leaf pf sid b0) else tab ix t)" for t
    using fwd pl plc some by (auto simp: si_remove_def tab_def Let_def update_conv')
  have "table_index_wf (tab (si_remove n ix) t)" for t
    unfolding tabs using si_wf_parts(5) [OF wf, of t] si_wf_parts(5) [OF wf, of pt] b0
    by (simp add: table_index_wf_default table_index_wf_unfile)
  moreover have "filed (tab (si_remove n ix) t) i l \<longleftrightarrow> filed (tab ix t) i l \<and> i \<noteq> sid" for t i l
    unfolding tabs using un [of i l] filed_empty [of "unfile_leaf pf sid b0" i l] only [of t l] b0
    by (auto simp: filed_default)
  ultimately show ?thesis
    using fwd pl by (intro that [of pl]) (simp_all add: si_remove_def Let_def)
qed

lemma si_remove_wf:
  assumes "si_wf ix"
  shows "si_wf (si_remove n ix)" "si_registered (si_remove n ix) = (si_registered ix)(n := None)"
    and "si_forward (si_remove n ix) n = None"
proof -
  note wf = si_wf_parts [OF assms]
  have "si_wf (si_remove n ix) \<and> si_registered (si_remove n ix) = (si_registered ix)(n := None)
      \<and> si_forward (si_remove n ix) n = None"
  proof (cases "si_forward ix n")
    case None
    then show ?thesis using assms by (auto simp: si_remove_absent si_registered_def fun_eq_iff)
  next
    case (Some sid)
    then have rev: "get_at (si_reverse ix) sid = Some (Some n)" by (simp only: wf(1))
    then have sid: "sid < length (si_reverse ix)" by simp
    have nfree: "sid \<notin> set (si_free ix)" using rev wf(3) [of sid] by simp
    obtain pl where r: "si_placed ix sid = Some pl"
      "si_forward (si_remove n ix) = (si_forward ix)(n := None)"
      "si_reverse (si_remove n ix) = (si_reverse ix)[sid := None]"
      "si_free (si_remove n ix) = si_free ix @ [sid]"
      "si_placed (si_remove n ix) = (si_placed ix)(sid := None)"
      "\<And>t. table_index_wf (tab (si_remove n ix) t)"
      "\<And>t i l. filed (tab (si_remove n ix) t) i l \<longleftrightarrow> filed (tab ix t) i l \<and> i \<noteq> sid"
      using si_remove_present [OF assms Some] by blast
    have inj: "si_forward ix m = Some sid \<longleftrightarrow> m = n" for m using wf(1) [of m sid] rev by auto
    have uniq: "get_at (si_reverse ix) i = Some (Some n) \<longleftrightarrow> i = sid" for i
      unfolding wf(1) [symmetric] using Some by auto
    have "si_wf (si_remove n ix)"
      unfolding si_wf_def r get_at_update
      using sid nfree inj r(6) wf(2) by (auto simp: uniq wf wf(4) [unfolded not_None_eq] simp del: get_at_Some_iff)
    moreover have "si_registered (si_remove n ix) = (si_registered ix)(n := None)"
      using inj by (auto simp: si_registered_def r fun_eq_iff split: option.splits)
    ultimately show ?thesis using r(2) by simp
  qed
  then show "si_wf (si_remove n ix)" "si_registered (si_remove n ix) = (si_registered ix)(n := None)"
    "si_forward (si_remove n ix) n = None" by auto
qed

lemma si_intern_fresh:
  assumes "si_wf ix" "si_forward ix n = None" "si_intern n ix = (ix', sid)"
  shows "get_at (si_reverse ix) sid \<noteq> Some (Some m)" "si_placed ix sid = None"
    and "si_forward ix' = (si_forward ix)(n \<mapsto> sid)" "si_tables ix' = si_tables ix" "si_placed ix' = si_placed ix"
    and "get_at (si_reverse ix') i = (if i = sid then Some (Some n) else get_at (si_reverse ix) i)"
    and "distinct (si_free ix')" "set (si_free ix') = set (si_free ix) - {sid}"
proof -
  note wf = si_wf_parts [OF assms(1)]
  have all: "get_at (si_reverse ix) sid \<noteq> Some (Some m) \<and> 
     si_forward ix' = (si_forward ix)(n \<mapsto> sid) \<and> si_tables ix' = si_tables ix \<and> si_placed ix' = si_placed ix \<and>
     get_at (si_reverse ix') i = (if i = sid then Some (Some n) else get_at (si_reverse ix) i) \<and>
     distinct (si_free ix') \<and> set (si_free ix') = set (si_free ix) - {sid}" for m i
  proof (cases "si_free ix = []")
    case True
    then have "sid = length (si_reverse ix)" "ix' = ix\<lparr>si_reverse := si_reverse ix @ [Some n], si_forward := (si_forward ix)(n \<mapsto> sid)\<rparr>"
      using assms(3) by (auto simp: si_intern_def Let_def)
    with True show ?thesis by (simp add: get_at_append del: get_at_Some_iff) (simp add: get_at_def)
  next
    case False
    then have s: "sid = last (si_free ix)"
      "ix' = ix\<lparr>si_free := butlast (si_free ix), si_reverse := (si_reverse ix)[sid := Some n], si_forward := (si_forward ix)(n \<mapsto> sid)\<rparr>"
      using assms(3) by (auto simp: si_intern_def Let_def)
    from s(1) False have "sid \<in> set (si_free ix)" by simp
    then have rev: "get_at (si_reverse ix) sid = Some None" by (simp only: wf(3))
    obtain ys where "si_free ix = ys @ [sid]" using False s(1) by (cases "si_free ix" rule: rev_cases) auto
    with wf(2) have fr: "distinct (butlast (si_free ix))" "set (butlast (si_free ix)) = set (si_free ix) - {sid}"
      by auto
    from rev fr show ?thesis by (simp add: s(2) get_at_update)
  qed
  then show "get_at (si_reverse ix) sid \<noteq> Some (Some m)" 
    "si_forward ix' = (si_forward ix)(n \<mapsto> sid)" "si_tables ix' = si_tables ix" "si_placed ix' = si_placed ix"
    "get_at (si_reverse ix') i = (if i = sid then Some (Some n) else get_at (si_reverse ix) i)"
    "distinct (si_free ix')" "set (si_free ix') = set (si_free ix) - {sid}" by blast+
  show "si_placed ix sid = None" using all wf(4) [of sid] by blast
qed

lemma si_insert_wf:
  assumes "si_wf ix0"
  shows "si_wf (si_insert n (t, p) ix0)"
    "si_registered (si_insert n (t, p) ix0) = (si_registered ix0)(n \<mapsto> (t, access_leaf p))"
proof -
  define ix where "ix = si_remove n ix0"
  note rm = si_remove_wf [OF assms, of n, folded ix_def]
  note wf = si_wf_parts [OF rm(1)]
  obtain ix' sid where i: "si_intern n ix = (ix', sid)" by (cases "si_intern n ix")
  note fresh = si_intern_fresh [OF rm(1,3) i]
  let ?r = "si_insert n (t, p) ix0"
  have r: "si_forward ?r = (si_forward ix)(n \<mapsto> sid)" "si_reverse ?r = si_reverse ix'" "si_free ?r = si_free ix'"
    "si_placed ?r = (si_placed ix)(sid \<mapsto> \<lparr>pl_table = t, pl_leaf = access_leaf p\<rparr>)"
    "tab ?r u = (if u = t then file_leaf (access_leaf p) sid (tab ix t) else tab ix u)" for u
    using fresh(3-5) by (auto simp: si_insert_def ix_def [symmetric] i Let_def tab_def)
  have old: "\<not> filed (tab ix u) sid l" for u l using wf(6) fresh(2) by simp
  have nfwd: "si_forward ix m \<noteq> Some sid" for m using wf(1) [of m sid] fresh(1) [of m] by simp
  have revn: "get_at (si_reverse ix) i \<noteq> Some (Some n)" for i using wf(1) [of n i] rm(3) by simp
  show "si_wf ?r"
    unfolding si_wf_def r fresh(6,8)
    using old nfwd revn fresh(7) wf(5)
    by (auto simp: wf wf(4) [unfolded not_None_eq] filed_file_leaf table_index_wf_file simp del: get_at_Some_iff)
  show "si_registered ?r = (si_registered ix0)(n \<mapsto> (t, access_leaf p))"
  proof
    fix m
    show "si_registered ?r m = ((si_registered ix0)(n \<mapsto> (t, access_leaf p))) m"
      using nfwd [of m] fun_cong [OF rm(2), of m]
      by (cases "m = n") (auto simp: si_registered_def r split: option.splits)
  qed
qed

lemma si_bound_hits_iff:
  assumes "buckets_wf m"
  shows "i \<in> si_bound_hits R m r \<longleftrightarrow> (\<exists>c v s cell.
    i \<in> (if s then b_strict (post_get bound_empty m c v) else b_inclusive (post_get bound_empty m c v)) \<and>
    get_at r c = Some cell \<and> cell \<noteq> VNull \<and> R v cell \<and> \<not> (v = cell \<and> s))"
proof
  assume "i \<in> si_bound_hits R m r"
  then obtain c bounds where cb: "(c, bounds) \<in> set m"
    and h: "i \<in> (case get_at r c of None \<Rightarrow> {} | Some cell \<Rightarrow> if cell = VNull then {}
            else (\<Union>(bound, b) \<in> set (filter (\<lambda>(bd, _). R bd cell) bounds).
                    (if bound \<noteq> cell then b_strict b else {}) \<union> b_inclusive b))"
    unfolding si_bound_hits_def by blast
  from h obtain cell where cell: "get_at r c = Some cell" "cell \<noteq> VNull"
    and "i \<in> (\<Union>(bound, b) \<in> set (filter (\<lambda>(bd, _). R bd cell) bounds). (if bound \<noteq> cell then b_strict b else {}) \<union> b_inclusive b)"
    by (auto simp del: get_at_Some_iff get_at_None_iff split: option.splits if_splits)
  from this(3) obtain v b where vb: "(v, b) \<in> set bounds" "R v cell" and m: "v \<noteq> cell \<and> i \<in> b_strict b \<or> i \<in> b_inclusive b"
    by (auto split: if_splits)
  have g: "post_get bound_empty m c v = b" by (rule post_iter [OF assms cb vb(1)])
  from m show "\<exists>c v s cell. i \<in> (if s then b_strict (post_get bound_empty m c v) else b_inclusive (post_get bound_empty m c v)) \<and>
    get_at r c = Some cell \<and> cell \<noteq> VNull \<and> R v cell \<and> \<not> (v = cell \<and> s)"
    using g cell vb(2) by (metis (full_types))
next
  assume "\<exists>c v s cell. i \<in> (if s then b_strict (post_get bound_empty m c v) else b_inclusive (post_get bound_empty m c v)) \<and>
    get_at r c = Some cell \<and> cell \<noteq> VNull \<and> R v cell \<and> \<not> (v = cell \<and> s)"
  then obtain c v s cell where h: "i \<in> (if s then b_strict (post_get bound_empty m c v) else b_inclusive (post_get bound_empty m c v))"
    "get_at r c = Some cell" "cell \<noteq> VNull" "R v cell" "\<not> (v = cell \<and> s)" by blast
  have "post_get bound_empty m c v \<noteq> bound_empty" using h(1) by (auto simp: bound_empty_def split: if_splits)
  then obtain bounds b where mb: "map_of m c = Some bounds" "map_of bounds v = Some b"
    by (auto simp: post_get_def split: option.splits)
  then have b: "post_get bound_empty m c v = b" by (simp add: post_get_def)
  have "i \<in> (\<Union>(bound, b) \<in> set (filter (\<lambda>(bd, _). R bd cell) bounds). (if bound \<noteq> cell then b_strict b else {}) \<union> b_inclusive b)"
    using h(1,4,5) map_of_SomeD [OF mb(2)] unfolding b by (intro UN_I [of "(v, b)"]) (auto split: if_splits)
  with h(2,3) show "i \<in> si_bound_hits R m r"
    unfolding si_bound_hits_def using map_of_SomeD [OF mb(1)]
    by (intro UN_I [of "(c, bounds)"]) (simp_all del: get_at_Some_iff)
qed

lemma si_eq_hits_iff:
  assumes "buckets_wf m"
  shows "i \<in> (\<Union>(col, by_val) \<in> set m. case get_at r col of None \<Rightarrow> {}
        | Some cell \<Rightarrow> (case map_of by_val cell of None \<Rightarrow> {} | Some bm \<Rightarrow> bm))
    \<longleftrightarrow> (\<exists>c v. i \<in> post_get {} m c v \<and> get_at r c = Some v)"
proof
  assume "i \<in> (\<Union>(col, by_val) \<in> set m. case get_at r col of None \<Rightarrow> {}
        | Some cell \<Rightarrow> (case map_of by_val cell of None \<Rightarrow> {} | Some bm \<Rightarrow> bm))"
  then obtain c bv where cb: "(c, bv) \<in> set m" and h: "i \<in> (case get_at r c of None \<Rightarrow> {}
        | Some cell \<Rightarrow> (case map_of bv cell of None \<Rightarrow> {} | Some bm \<Rightarrow> bm))" by blast
  from h obtain v where v: "get_at r c = Some v" "i \<in> (case map_of bv v of None \<Rightarrow> {} | Some bm \<Rightarrow> bm)"
    by (auto simp del: get_at_Some_iff get_at_None_iff split: option.splits)
  have "map_of m c = Some bv" using assms cb by (simp add: buckets_wf_def)
  with v show "\<exists>c v. i \<in> post_get {} m c v \<and> get_at r c = Some v"
    by (intro exI [of _ c] exI [of _ v]) (simp add: post_get_def del: get_at_Some_iff)
next
  assume "\<exists>c v. i \<in> post_get {} m c v \<and> get_at r c = Some v"
  then obtain c v where h: "i \<in> post_get {} m c v" "get_at r c = Some v" by blast
  then obtain bv where bv: "map_of m c = Some bv" by (cases "map_of m c") (auto simp: post_get_def)
  with h show "i \<in> (\<Union>(col, by_val) \<in> set m. case get_at r col of None \<Rightarrow> {}
        | Some cell \<Rightarrow> (case map_of by_val cell of None \<Rightarrow> {} | Some bm \<Rightarrow> bm))"
    by (intro UN_I [of "(c, bv)"]) (simp_all add: map_of_SomeD post_get_def del: get_at_Some_iff)
qed

lemma si_row_hits_iff:
  assumes "table_index_wf b"
  shows "i \<in> si_row_hits b r \<longleftrightarrow> (\<exists>l. filed b i (Some l) \<and> leaf_admits (Some l) r)"
proof -
  have wf: "buckets_wf (ti_eq b)" "buckets_wf (ti_lower b)" "buckets_wf (ti_upper b)"
    using assms by (auto simp: table_index_wf_def)
  have "(\<exists>l. filed b i (Some l) \<and> leaf_admits (Some l) r) \<longleftrightarrow>
      (\<exists>c v. filed b i (Some (LeafEq c v)) \<and> get_at r c = Some v) \<or>
      (\<exists>c v s cell. filed b i (Some (Lower c v s)) \<and> get_at r c = Some cell \<and> cell \<noteq> VNull \<and> v \<le> cell \<and> \<not> (v = cell \<and> s)) \<or>
      (\<exists>c v s cell. filed b i (Some (Upper c v s)) \<and> get_at r c = Some cell \<and> cell \<noteq> VNull \<and> cell \<le> v \<and> \<not> (v = cell \<and> s))"
    (is "?L \<longleftrightarrow> ?R")
  proof
    assume ?L
    then obtain l where l: "filed b i (Some l)" "leaf_admits (Some l) r" by blast
    show ?R
    proof (cases l)
      case (LeafEq c v)
      with l show ?thesis by (metis leaf_admits.simps(2))
    next
      case (Lower c v s)
      with l(2) obtain cell where "get_at r c = Some cell" "cell \<noteq> VNull" "v \<le> cell" "\<not> (v = cell \<and> s)"
        by (auto simp del: get_at_Some_iff get_at_None_iff split: option.splits)
      with l(1) Lower show ?thesis by blast
    next
      case (Upper c v s)
      with l(2) obtain cell where "get_at r c = Some cell" "cell \<noteq> VNull" "cell \<le> v" "\<not> (v = cell \<and> s)"
        by (auto simp del: get_at_Some_iff get_at_None_iff split: option.splits)
      with l(1) Upper show ?thesis by blast
    qed
  next
    have "leaf_admits (Some (Lower c v s)) r" if "get_at r c = Some cell" "cell \<noteq> VNull" "v \<le> cell" "\<not> (v = cell \<and> s)" for c v s cell
      using that by (simp del: get_at_Some_iff)
    moreover have "leaf_admits (Some (Upper c v s)) r" if "get_at r c = Some cell" "cell \<noteq> VNull" "cell \<le> v" "\<not> (v = cell \<and> s)" for c v s cell
      using that by (simp del: get_at_Some_iff)
    moreover assume ?R
    ultimately show ?L using leaf_admits.simps(2) by blast
  qed
  then show ?thesis
    unfolding si_row_hits_def Un_iff si_eq_hits_iff [OF wf(1)] si_bound_hits_iff [OF wf(2)] si_bound_hits_iff [OF wf(3)]
    by simp
qed

definition table_leaf_concerns :: "string \<times> access_leaf option \<Rightarrow> string \<times> zdelta \<Rightarrow> bool" where
  "table_leaf_concerns k d \<longleftrightarrow> fst k = fst d \<and> leaf_concerns (snd k) (snd d)"

lemma si_candidates_tab:
  "si_candidates ix (t, delta) =
     (\<Union>sid \<in> ti_scan (tab ix t) \<union> (\<Union>(r, w) \<in> set delta. si_row_hits (tab ix t) r).
        case get_at (si_reverse ix) sid of Some (Some n) \<Rightarrow> {n} | _ \<Rightarrow> {})"
  by (auto simp: si_candidates_def tab_def table_index_default_def si_row_hits_def si_bound_hits_def Let_def split: option.splits)

lemma si_candidates_iff:
  assumes "si_wf ix"
  shows "n \<in> si_candidates ix d \<longleftrightarrow> (\<exists>k. si_registered ix n = Some k \<and> table_leaf_concerns k d)"
proof -
  note wf = si_wf_parts [OF assms]
  obtain t delta where d: "d = (t, delta)" by (cases d)
  have hit: "sid \<in> ti_scan (tab ix t) \<union> (\<Union>(r, w) \<in> set delta. si_row_hits (tab ix t) r) \<longleftrightarrow>
      (\<exists>l. filed (tab ix t) sid l \<and> leaf_concerns l delta)" for sid
  proof -
    have "sid \<in> ti_scan (tab ix t) \<longleftrightarrow> filed (tab ix t) sid None" by simp
    moreover have "(\<exists>l. filed (tab ix t) sid l \<and> leaf_concerns l delta) \<longleftrightarrow>
        filed (tab ix t) sid None \<or> (\<exists>l. filed (tab ix t) sid (Some l) \<and> (\<exists>(r, w) \<in> set delta. leaf_admits (Some l) r))"
      unfolding leaf_concerns_def by (metis not_None_eq)
    ultimately show ?thesis using si_row_hits_iff [OF wf(5) [of t]] by blast
  qed
  have name: "n \<in> (case get_at (si_reverse ix) sid of Some (Some n) \<Rightarrow> {n} | _ \<Rightarrow> {}) \<longleftrightarrow>
      get_at (si_reverse ix) sid = Some (Some n)" for sid
    by (auto simp del: get_at_Some_iff get_at_None_iff split: option.splits)
  have "n \<in> si_candidates ix d \<longleftrightarrow>
      (\<exists>sid l. filed (tab ix t) sid l \<and> leaf_concerns l delta \<and> get_at (si_reverse ix) sid = Some (Some n))"
    unfolding d si_candidates_tab UN_iff [where B = "\<lambda>sid. case get_at (si_reverse ix) sid of Some (Some n) \<Rightarrow> {n} | _ \<Rightarrow> {}"] name
    using hit by blast
  also have "\<dots> \<longleftrightarrow> (\<exists>sid l. si_placed ix sid = Some \<lparr>pl_table = t, pl_leaf = l\<rparr> \<and> leaf_concerns l delta \<and> si_forward ix n = Some sid)"
    by (simp only: wf(1,6))
  also have "\<dots> \<longleftrightarrow> (\<exists>k. si_registered ix n = Some k \<and> table_leaf_concerns k d)"
    by (auto simp: si_registered_def table_leaf_concerns_def d split: option.splits)
      (metis placement.surjective old.unit.exhaust)
  finally show ?thesis .
qed

interpretation subidx: shape_index si_empty si_insert si_remove si_candidates
  "\<lambda>(t, p). (t, access_leaf p)" si_registered table_leaf_concerns si_wf
  by unfold_locales
    (auto simp: si_wf_empty si_insert_wf si_remove_wf si_candidates_iff)

section \<open>Properties\<close>

text \<open>A primary key has one id forever. Whatever keys are interned afterwards, the id minted for a
  key resolves back to it, belongs to no other key, and is returned again for it.\<close>

theorem pk_id_stable:
  assumes "pk_wf d" and "pk_get_or_insert pk d = (d', i)"
  shows "pk_resolve i (pkd.intern_all pks d') = Some pk
    \<and> (\<forall>q. pk_get q (pkd.intern_all pks d') = Some i \<longrightarrow> q = pk)
    \<and> snd (pk_get_or_insert pk (pkd.intern_all pks d')) = i"
  using pkd.id_stable [OF assms] by blast

theorem pk_id_stable_witness:
  "pk_resolve 0 (pkd.intern_all [''b'', ''a''] \<lparr>pd_forward = Map.empty(''a'' \<mapsto> 0), pd_reverse = [''a'']\<rparr>) = Some ''a''"
  using pk_id_stable [OF pk_wf_new, of "''a''" _ 0 "[''b'', ''a'']"]
  by (simp add: pk_get_or_insert_def pk_mint_def pk_new_def)

text \<open>The delete gate mirrors the client. Pass any sequence of membership verdicts for one feed
  through the gate: folding what it delivers into the set of keys the subscriber holds keeps that
  set equal to the feed, a delete is delivered only for a key then held, and each key ends present
  exactly when its last verdict said member.\<close>

theorem delete_gate_exact:
  "\<exists>out'. snd (fold (gate_verdict fid) vs (fs, out)) = out @ out' \<and>
     fold deliver out' (feed_keys fid fs) = feed_keys fid (fst (fold (gate_verdict fid) vs (fs, out))) \<and>
     feed_keys fid (fst (fold (gate_verdict fid) vs (fs, out)))
       = fold (\<lambda>(pk, member) S. if member then insert pk S else S - {pk}) vs (feed_keys fid fs)"
proof (induction vs arbitrary: fs out)
  case (Cons v vs)
  obtain pk member where v: "v = (pk, member)" by (cases v)
  obtain fs1 out1 where s: "gate_verdict fid v (fs, out) = (fs1, out1)" by (cases "gate_verdict fid v (fs, out)")
  obtain new where new: "out1 = out @ new" "fold deliver new (feed_keys fid fs) = feed_keys fid fs1"
    "feed_keys fid fs1 = (if member then insert pk (feed_keys fid fs) else feed_keys fid fs - {pk})"
    using gate_verdict_step s v by metis
  obtain out' where o: "snd (fold (gate_verdict fid) vs (fs1, out1)) = out1 @ out'"
    "fold deliver out' (feed_keys fid fs1) = feed_keys fid (fst (fold (gate_verdict fid) vs (fs1, out1)))"
    "feed_keys fid (fst (fold (gate_verdict fid) vs (fs1, out1))) =
       fold (\<lambda>(pk, member) S. if member then insert pk S else S - {pk}) vs (feed_keys fid fs1)"
    using Cons.IH by blast
  from s new o v show ?case by (intro exI [of _ "new @ out'"]) simp
qed simp



end
