(* ===== verification/TxnBuffer.thy ===== *)
theory TxnBuffer
  imports SubqIndex
begin

text \<open>
  Transaction buffering (\<^verbatim>\<open>apps/engine/src/txn_buffer.rs\<close>) and the streamed backfill reader of
  \<^verbatim>\<open>pg.rs\<close>: envelopes are held in memory until the cap, then in a spill file, and are drained at
  commit as stamped chunks that fit one append body. Both readers pack chunks by the same greedy
  rule, which is stated and proved once in a locale.

  What the code takes from elsewhere is a record of parameters: the JSON codec of an envelope, the
  in-memory size of one, and how many bytes the disk accepts.
\<close>

section \<open>Greedy chunk packing\<close>

text \<open>Items with their cost, packed into bodies of at most \<open>budget\<close> bytes: two brackets, the costs,
  and a comma before every item but the first. The item that did not fit is carried into the next
  chunk at cost \<open>carry\<close>.\<close>

locale chunk_packing =
  fixes carry :: "nat \<Rightarrow> nat"
  assumes carry_ge: "c \<le> carry c"
begin

fun fill :: "nat \<Rightarrow> nat \<Rightarrow> bool \<Rightarrow> ('a \<times> nat) list \<Rightarrow> ('a \<times> nat) list \<times> ('a \<times> nat) list" where
  "fill budget body started [] = ([], [])"
| "fill budget body started ((x, c) # xs) =
     (let cost = c + (if started then 1 else 0) in
      if started \<and> body + cost > budget then ([], (x, carry c) # xs)
      else (case fill budget (body + cost) True xs of (a, b) \<Rightarrow> ((x, c) # a, b)))"

lemma fill_split:
  "fill budget body started xs = (a, b) \<Longrightarrow>
     map fst a @ map fst b = map fst xs \<and> (\<not> started \<longrightarrow> xs \<noteq> [] \<longrightarrow> a \<noteq> [])"
proof (induction budget body started xs arbitrary: a b rule: fill.induct)
  case (2 budget body started x c xs)
  show ?case
  proof (cases "started \<and> body + (c + (if started then 1 else 0)) > budget")
    case True
    with "2.prems" show ?thesis by (auto simp: Let_def)
  next
    case False
    then obtain a' where "fill budget (body + (c + (if started then 1 else 0))) True xs = (a', b)" "a = (x, c) # a'"
      using "2.prems" by (auto simp: Let_def split: prod.splits if_splits)
    with "2.IH" [OF refl False] show ?thesis by simp
  qed
qed simp

lemma fill_length: "xs \<noteq> [] \<Longrightarrow> fill budget body False xs = (a, b) \<Longrightarrow> length b < length xs"
proof -
  assume ne: "xs \<noteq> []" and f: "fill budget body False xs = (a, b)"
  from fill_split [OF f] ne have "a \<noteq> []" "length a + length b = length xs"
    by (auto dest: arg_cong [of _ _ length])
  then show ?thesis by (cases a) auto
qed

text \<open>The bytes of a chunk's body.\<close>

definition body_size :: "('a \<times> nat) list \<Rightarrow> nat" where
  "body_size a = 2 + sum_list (map snd a) + (length a - 1)"

lemma fill_budget:
  "fill budget body True xs = (a, b) \<Longrightarrow> a = [] \<or> body + sum_list (map snd a) + length a \<le> budget"
proof (induction xs arbitrary: body a b)
  case (Cons xc xs)
  obtain x c where xc: "xc = (x, c)" by (cases xc)
  show ?case
  proof (cases "body + (c + 1) > budget")
    case False
    then obtain a' where f: "fill budget (body + (c + 1)) True xs = (a', b)" "a = (x, c) # a'"
      using Cons.prems xc by (auto simp: Let_def split: prod.splits)
    from Cons.IH [OF f(1)] False f(2) show ?thesis by (cases "a' = []") auto
  qed (use Cons.prems xc in auto)
qed simp

lemma fill_fits:
  assumes "fill budget 2 False xs = (a, b)"
  shows "length a \<le> 1 \<or> body_size a \<le> budget"
proof (cases xs)
  case (Cons xc ys)
  obtain x c where xc: "xc = (x, c)" by (cases xc)
  from assms Cons xc obtain a' where f: "fill budget (2 + c) True ys = (a', b)" "a = (x, c) # a'"
    by (auto simp: Let_def split: prod.splits)
  from fill_budget [OF f(1)] f(2) show ?thesis by (auto simp: body_size_def)
qed (use assms in auto)

text \<open>Packing until nothing is left.\<close>

function pack_all :: "nat \<Rightarrow> ('a \<times> nat) list \<Rightarrow> ('a \<times> nat) list list" where
  "pack_all budget xs = (if xs = [] then [] else fst (fill budget 2 False xs) # pack_all budget (snd (fill budget 2 False xs)))"
  by auto
termination
  by (relation "measure (\<lambda>(b, xs). length xs)") (auto intro: fill_length prod.collapse [symmetric])

declare pack_all.simps [simp del]

lemma pack_all_Nil [simp]: "pack_all budget [] = []"
  by (simp add: pack_all.simps)

lemma pack_all_concat: "concat (map (map fst) (pack_all budget xs)) = map fst xs"
proof (induction budget xs rule: pack_all.induct)
  case (1 budget xs)
  show ?case
  proof (cases "xs = []")
    case False
    obtain a b where f: "fill budget 2 False xs = (a, b)" by (cases "fill budget 2 False xs")
    with 1 [OF False] fill_split [OF f] False show ?thesis by (simp add: pack_all.simps [of budget xs])
  qed simp
qed

lemma pack_all_chunks:
  "a \<in> set (pack_all budget xs) \<Longrightarrow> a \<noteq> [] \<and> (length a = 1 \<or> body_size a \<le> budget)"
proof (induction budget xs rule: pack_all.induct)
  case (1 budget xs)
  have ne: "xs \<noteq> []" using "1.prems" by auto
  obtain a0 b where f: "fill budget 2 False xs = (a0, b)" by (cases "fill budget 2 False xs")
  from fill_split [OF f] ne have "a0 \<noteq> []" by simp
  moreover from this fill_fits [OF f] have "length a0 = 1 \<or> body_size a0 \<le> budget" by (cases a0) auto
  ultimately show ?case
    using "1.prems" "1.IH" [OF ne] f ne by (auto simp: pack_all.simps [of budget xs])
qed

text \<open>Carrying an item may raise its cost but never its content: the chunks are a split of the
  original items, each within the budget at the original costs.\<close>

definition dearer :: "'a \<times> nat \<Rightarrow> 'a \<times> nat \<Rightarrow> bool" where
  "dearer x y \<longleftrightarrow> fst x = fst y \<and> snd x \<le> snd y"

lemma dearer_refl: "list_all2 dearer xs xs"
  by (simp add: dearer_def list_all2_refl)

lemma fill_dearer: "fill budget body started xs = (a, b) \<Longrightarrow> list_all2 dearer xs (a @ b)"
proof (induction budget body started xs arbitrary: a b rule: fill.induct)
  case (2 budget body started x c xs)
  then show ?case
    by (auto simp: Let_def intro: list.rel_refl split: if_splits prod.splits) (simp_all add: dearer_def carry_ge list.rel_refl)
qed simp

lemma dearer_trans: "list_all2 dearer xs ys \<Longrightarrow> list_all2 dearer ys zs \<Longrightarrow> list_all2 dearer xs zs"
  by (erule (1) list_all2_trans [rotated]) (auto simp: dearer_def)

lemma dearer_body: "list_all2 dearer xs ys \<Longrightarrow> body_size xs \<le> body_size ys \<and> map fst xs = map fst ys"
  by (induction rule: list_all2_induct) (auto simp: body_size_def dearer_def dest: list_all2_lengthD)

lemma pack_all_split:
  "list_all2 dearer xs ys \<Longrightarrow>
     \<exists>css. concat css = xs \<and> map (map fst) css = map (map fst) (pack_all budget ys)
       \<and> (\<forall>cs \<in> set css. cs \<noteq> [] \<and> (length cs = 1 \<or> body_size cs \<le> budget))"
proof (induction budget ys arbitrary: xs rule: pack_all.induct)
  case (1 budget ys)
  show ?case
  proof (cases "ys = []")
    case True
    with "1.prems" show ?thesis by (intro exI [of _ "[]"]) simp
  next
    case False
    obtain a b where f: "fill budget 2 False ys = (a, b)" by (cases "fill budget 2 False ys")
    from dearer_trans [OF "1.prems" fill_dearer [OF f]] obtain u v where
      uv: "xs = u @ v" "list_all2 dearer u a" "list_all2 dearer v b" by (auto simp: list_all2_append2)
    from "1.IH" [OF False, of v] uv(3) f obtain css where
      css: "concat css = v" "map (map fst) css = map (map fst) (pack_all budget b)"
        "\<forall>cs \<in> set css. cs \<noteq> [] \<and> (length cs = 1 \<or> body_size cs \<le> budget)" by auto
    have "a \<noteq> []" using fill_split [OF f] False by simp
    moreover from this fill_fits [OF f] have "length a = 1 \<or> body_size a \<le> budget" by (cases a) auto
    ultimately have "u \<noteq> [] \<and> (length u = 1 \<or> body_size u \<le> budget)"
      using dearer_body [OF uv(2)] list_all2_lengthD [OF uv(2)] by auto
    with css uv f False dearer_body [OF uv(2)] show ?thesis
      by (intro exI [of _ "u # css"]) (simp add: pack_all.simps [of budget ys])
  qed
qed

end

interpretation txn_pack: chunk_packing "\<lambda>c. c"
  by unfold_locales simp

interpretation backfill_pack: chunk_packing Suc
  by unfold_locales simp

section \<open>The transaction buffer\<close>

definition DS_MAX_BODY_BYTES :: nat where "DS_MAX_BODY_BYTES = 1024 * 1024 * 1024"
definition STAMP_BYTES :: nat where "STAMP_BYTES = 96"
definition SPILL_PREFIX :: string where "SPILL_PREFIX = ''circuits-txn-''"
definition SPILL_SUFFIX :: string where "SPILL_SUFFIX = ''.ndjson''"

text \<open>The codec, the in-memory size of an envelope, and whether a file may grow to a given size.\<close>

record txn_io =
  io_ser :: "envelope \<Rightarrow> string"
  io_de :: "string \<Rightarrow> envelope result"
  io_mem :: "envelope \<Rightarrow> nat"
  io_disk :: "nat \<Rightarrow> bool"

record txn_buffer_config =
  cfg_memory_bytes :: nat
  cfg_append_bytes :: nat
  cfg_spill_dir :: string

definition default_config :: "string \<Rightarrow> txn_buffer_config" where
  "default_config dir =
     \<lparr>cfg_memory_bytes = 128 * 1024 * 1024, cfg_append_bytes = 64 * 1024 * 1024, cfg_spill_dir = dir\<rparr>"

definition bytes_var :: "(string \<Rightarrow> string option) \<Rightarrow> string \<Rightarrow> nat \<Rightarrow> nat result" where
  "bytes_var get name dflt =
     (case get name of
        None \<Rightarrow> Ok dflt
      | Some raw0 \<Rightarrow>
          (let raw = trim raw0 in
           if raw = [] then Ok dflt else ok_or (parse_u64 raw) (Other name)))"

definition config_resolve :: "string \<Rightarrow> (string \<Rightarrow> string option) \<Rightarrow> txn_buffer_config result" where
  "config_resolve dir get =
     (let d = default_config dir in
      rbind (bytes_var get ''ELECTRIC_CIRCUITS_TXN_MEMORY_BYTES'' (cfg_memory_bytes d)) (\<lambda>memory_bytes.
      rbind (bytes_var get ''ELECTRIC_CIRCUITS_CHANGES_APPEND_BYTES'' (cfg_append_bytes d)) (\<lambda>append_bytes.
      if append_bytes = 0 then Err (Other ''append bytes must be positive'')
      else if append_bytes > DS_MAX_BODY_BYTES then Err (Other ''append bytes above the body cap'')
      else Ok \<lparr>cfg_memory_bytes = memory_bytes, cfg_append_bytes = append_bytes,
               cfg_spill_dir =
                 (case map_option trim (get ''ELECTRIC_CIRCUITS_TXN_SPILL_DIR'') of
                    Some s \<Rightarrow> if s = [] then cfg_spill_dir d else s
                  | None \<Rightarrow> cfg_spill_dir d)\<rparr>)))"

record stamp_t =
  st_lsn :: string
  st_txid :: string

record spill =
  sp_data :: string
  sp_bytes :: nat

record txn_buffer =
  tb_xid :: nat
  tb_cfg :: txn_buffer_config
  tb_mem :: "envelope list"
  tb_mem_bytes :: nat
  tb_spill :: "spill option"
  tb_count :: nat
  tb_buffered_bytes :: nat
  tb_raw_bytes :: nat
  tb_sync :: "int option"

definition txn_new :: "nat \<Rightarrow> txn_buffer_config \<Rightarrow> txn_buffer" where
  "txn_new xid cfg =
     \<lparr>tb_xid = xid, tb_cfg = cfg, tb_mem = [], tb_mem_bytes = 0, tb_spill = None, tb_count = 0,
      tb_buffered_bytes = 0, tb_raw_bytes = 0, tb_sync = None\<rparr>"

definition set_sync :: "int \<Rightarrow> txn_buffer \<Rightarrow> txn_buffer" where
  "set_sync n tb = tb\<lparr>tb_sync := Some n\<rparr>"

definition newline :: char where "newline = CHR 0x0A"

text \<open>Calling it with no spill file panics.\<close>

definition write_spilled :: "txn_io \<Rightarrow> string \<Rightarrow> txn_buffer \<Rightarrow> txn_buffer result" where
  "write_spilled IO line tb =
     (case tb_spill tb of
        None \<Rightarrow> Err (Other ''write_spilled with no spill file'')
      | Some sp \<Rightarrow>
          if io_disk IO (sp_bytes sp + length line + 1)
          then Ok (tb\<lparr>tb_spill := Some \<lparr>sp_data = sp_data sp @ line @ [newline], sp_bytes = sp_bytes sp + length line + 1\<rparr>\<rparr>)
          else Err (Io ''writing the spill file''))"

fun write_all :: "txn_io \<Rightarrow> envelope list \<Rightarrow> txn_buffer \<Rightarrow> txn_buffer result" where
  "write_all IO [] tb = Ok tb"
| "write_all IO (e # es) tb = rbind (write_spilled IO (io_ser IO e) tb) (write_all IO es)"

definition begin_spill :: "txn_io \<Rightarrow> txn_buffer \<Rightarrow> txn_buffer result" where
  "begin_spill IO tb =
     write_all IO (tb_mem tb) (tb\<lparr>tb_spill := Some \<lparr>sp_data = [], sp_bytes = 0\<rparr>, tb_mem := [], tb_mem_bytes := 0\<rparr>)"

definition txn_push :: "txn_io \<Rightarrow> envelope \<Rightarrow> nat \<Rightarrow> txn_buffer \<Rightarrow> txn_buffer result" where
  "txn_push IO env raw_len tb =
     (let bytes = io_mem IO env;
          tb1 = tb\<lparr>tb_count := tb_count tb + 1, tb_buffered_bytes := tb_buffered_bytes tb + bytes,
                   tb_raw_bytes := tb_raw_bytes tb + raw_len\<rparr>
      in if tb_spill tb1 \<noteq> None then write_spilled IO (io_ser IO env) tb1
         else (let tb2 = tb1\<lparr>tb_mem_bytes := tb_mem_bytes tb1 + bytes, tb_mem := tb_mem tb1 @ [env]\<rparr> in
               if cfg_memory_bytes (tb_cfg tb2) > 0 \<and> tb_mem_bytes tb2 \<ge> cfg_memory_bytes (tb_cfg tb2)
               then begin_spill IO tb2 else Ok tb2))"

section \<open>The drain\<close>

record txn_drain =
  td_mem :: "envelope list"
  td_idx :: nat
  td_reader :: "string option"
  td_stamp :: stamp_t
  td_seq :: nat
  td_budget :: nat
  td_pending :: "(envelope \<times> nat) option"
  td_exhausted :: bool

definition txn_drain_of :: "stamp_t \<Rightarrow> txn_buffer \<Rightarrow> txn_drain" where
  "txn_drain_of stamp tb =
     \<lparr>td_mem = tb_mem tb, td_idx = 0, td_reader = map_option sp_data (tb_spill tb), td_stamp = stamp, td_seq = 0,
      td_budget = cfg_append_bytes (tb_cfg tb), td_pending = None, td_exhausted = False\<rparr>"

definition taken :: envelope where
  "taken = \<lparr>e_type = [], e_key = [], e_value = None, e_old = None,
     e_headers = \<lparr>h_operation = [], h_txid = None, h_offset = None, h_lsn = None, h_seq = None, h_last = None\<rparr>\<rparr>"

datatype raw = RawEnv envelope | RawLine string

definition next_raw :: "txn_drain \<Rightarrow> txn_drain \<times> raw option" where
  "next_raw td =
     (case td_reader td of
        Some data \<Rightarrow>
          if data = [] then (td, None)
          else (case split_once newline data of
                  Some (line, rest) \<Rightarrow> (td\<lparr>td_reader := Some rest\<rparr>, Some (RawLine line))
                | None \<Rightarrow> (td\<lparr>td_reader := Some []\<rparr>, Some (RawLine data)))
      | None \<Rightarrow>
          if td_idx td \<ge> length (td_mem td) then (td, None)
          else (td\<lparr>td_mem := (td_mem td)[td_idx td := taken], td_idx := td_idx td + 1\<rparr>,
                Some (RawEnv (td_mem td ! td_idx td))))"

definition stamp_env :: "stamp_t \<Rightarrow> nat \<Rightarrow> envelope \<Rightarrow> envelope" where
  "stamp_env s n env =
     env\<lparr>e_headers := (e_headers env)\<lparr>h_lsn := Some (st_lsn s), h_txid := Some (st_txid s), h_seq := Some n\<rparr>\<rparr>"

definition next_stamped :: "txn_io \<Rightarrow> txn_drain \<Rightarrow> txn_drain \<times> (envelope \<times> nat) option result" where
  "next_stamped IO td =
     (case next_raw td of
        (td1, None) \<Rightarrow> (td1, Ok None)
      | (td1, Some raw) \<Rightarrow>
          (case (case raw of
                   RawLine line \<Rightarrow> rbind (io_de IO line) (\<lambda>env. Ok (env, length line))
                 | RawEnv env \<Rightarrow> Ok (env, length (io_ser IO env))) of
             Inl e \<Rightarrow> (td1, Err e)
           | Inr (env, len) \<Rightarrow>
               (td1\<lparr>td_seq := td_seq td1 + 1\<rparr>, Ok (Some (stamp_env (td_stamp td1) (td_seq td1) env, len)))))"

definition td_left :: "txn_drain \<Rightarrow> nat" where
  "td_left td = (case td_pending td of None \<Rightarrow> 0 | Some _ \<Rightarrow> 1) +
     (case td_reader td of Some data \<Rightarrow> length data | None \<Rightarrow> length (td_mem td) - td_idx td)"

definition take_next :: "txn_io \<Rightarrow> txn_drain \<Rightarrow> txn_drain \<times> (envelope \<times> nat) option result" where
  "take_next IO td =
     (case td_pending td of
        Some p \<Rightarrow> (td\<lparr>td_pending := None\<rparr>, Ok (Some p))
      | None \<Rightarrow> next_stamped IO td)"

lemma td_left_next_raw:
  "next_raw td = (td1, Some raw) \<Longrightarrow>
     (case td_reader td1 of Some data \<Rightarrow> length data | None \<Rightarrow> length (td_mem td1) - td_idx td1)
     < (case td_reader td of Some data \<Rightarrow> length data | None \<Rightarrow> length (td_mem td) - td_idx td)
     \<and> td_pending td1 = td_pending td"
  by (auto simp: next_raw_def dest!: split_once_SomeD split: option.splits if_splits prod.splits)

lemma td_left_take_next: "take_next IO td = (td1, Inr (Some x)) \<Longrightarrow> td_left td1 < td_left td"
  by (auto simp: take_next_def next_stamped_def td_left_def dest!: td_left_next_raw
      split: option.splits prod.splits sum.splits)

function chunk_loop :: "txn_io \<Rightarrow> txn_drain \<Rightarrow> envelope list \<Rightarrow> nat \<Rightarrow> txn_drain \<times> envelope list result" where
  "chunk_loop IO td chunk body =
     (case take_next IO td of
        (td1, Inl e) \<Rightarrow> (td1, Err e)
      | (td1, Inr None) \<Rightarrow> (td1\<lparr>td_exhausted := True\<rparr>, Ok chunk)
      | (td1, Inr (Some (env, len))) \<Rightarrow>
          (let cost = len + STAMP_BYTES + (if chunk = [] then 0 else 1) in
           if chunk \<noteq> [] \<and> body + cost > td_budget td1
           then (td1\<lparr>td_pending := Some (env, len)\<rparr>, Ok chunk)
           else chunk_loop IO td1 (chunk @ [env]) (body + cost)))"
  by auto
termination
  by (relation "measure (\<lambda>(IO, td, chunk, body). td_left td)") (auto intro: td_left_take_next [OF sym])

declare chunk_loop.simps [simp del]

definition mark_last :: "envelope list \<Rightarrow> envelope list" where
  "mark_last chunk =
     (if chunk = [] then []
      else butlast chunk @ [(last chunk)\<lparr>e_headers := (e_headers (last chunk))\<lparr>h_last := Some True\<rparr>\<rparr>])"

definition next_chunk :: "txn_io \<Rightarrow> txn_drain \<Rightarrow> txn_drain \<times> envelope list option result" where
  "next_chunk IO td =
     (case chunk_loop IO td [] 2 of
        (td1, Inl e) \<Rightarrow> (td1, Err e)
      | (td1, Inr chunk0) \<Rightarrow>
          (let chunk = (if td_exhausted td1 then mark_last chunk0 else chunk0) in
           (td1, Ok (if chunk = [] then None else Some chunk))))"

text \<open>The ingestor's loop over \<open>next_chunk\<close>; \<open>None\<close> when the fuel runs out.\<close>

fun drain_all :: "nat \<Rightarrow> txn_io \<Rightarrow> txn_drain \<Rightarrow> envelope list list result option" where
  "drain_all 0 IO td = None"
| "drain_all (Suc n) IO td =
     (case next_chunk IO td of
        (td1, Inl e) \<Rightarrow> Some (Err e)
      | (td1, Inr None) \<Rightarrow> Some (Ok [])
      | (td1, Inr (Some chunk)) \<Rightarrow>
          map_option (\<lambda>r. rbind r (\<lambda>cs. Ok (chunk # cs))) (drain_all n IO td1))"

section \<open>Sweeping stale spill files\<close>

definition spill_file_name :: "nat \<Rightarrow> nat \<Rightarrow> string" where
  "spill_file_name xid pid = SPILL_PREFIX @ show_nat xid @ ''-'' @ show_nat pid @ SPILL_SUFFIX"

definition spill_file_pid :: "string \<Rightarrow> nat option" where
  "spill_file_pid name =
     (case strip_prefix SPILL_PREFIX name of None \<Rightarrow> None
      | Some s \<Rightarrow> (case strip_suffix SPILL_SUFFIX s of None \<Rightarrow> None
          | Some body \<Rightarrow> (case rsplit_once (CHR ''-'') body of None \<Rightarrow> None
              | Some (xid, pid) \<Rightarrow> (case parse_u32 xid of None \<Rightarrow> None | Some _ \<Rightarrow> parse_u32 pid))))"

text \<open>The sweep over a directory listing: what stays, and how many files were removed. Whether a
  process is alive and whether a file can be removed are answers of the operating system.\<close>

definition sweep_keeps :: "nat \<Rightarrow> (nat \<Rightarrow> bool) \<Rightarrow> string list \<Rightarrow> (string \<Rightarrow> bool) \<Rightarrow> string \<Rightarrow> bool" where
  "sweep_keeps me alive live rm_ok name =
     (case spill_file_pid name of
        None \<Rightarrow> True
      | Some pid \<Rightarrow> name \<in> set live \<or> (pid \<noteq> me \<and> alive pid) \<or> \<not> rm_ok name)"

definition sweep_spill_dir_except ::
  "nat \<Rightarrow> (nat \<Rightarrow> bool) \<Rightarrow> string list \<Rightarrow> (string \<Rightarrow> bool) \<Rightarrow> string list \<Rightarrow> string list \<times> nat" where
  "sweep_spill_dir_except me alive live rm_ok entries =
     (filter (sweep_keeps me alive live rm_ok) entries,
      length (filter (\<lambda>n. \<not> sweep_keeps me alive live rm_ok n) entries))"

section \<open>What the drain returns\<close>

text \<open>Pushing a transaction's changes, each with its raw length.\<close>

fun push_all :: "txn_io \<Rightarrow> (envelope \<times> nat) list \<Rightarrow> txn_buffer \<Rightarrow> txn_buffer result" where
  "push_all IO [] tb = Ok tb"
| "push_all IO ((env, raw_len) # ps) tb = rbind (txn_push IO env raw_len tb) (push_all IO ps)"

definition spill_line :: "txn_io \<Rightarrow> envelope \<Rightarrow> string" where
  "spill_line IO e = io_ser IO e @ [newline]"

definition spill_data :: "txn_io \<Rightarrow> envelope list \<Rightarrow> string" where
  "spill_data IO es = concat (map (spill_line IO) es)"

text \<open>The buffer holds \<open>es\<close>, in memory or in the file.\<close>

definition tb_holds :: "txn_io \<Rightarrow> txn_buffer \<Rightarrow> envelope list \<Rightarrow> bool" where
  "tb_holds IO tb es =
     (case tb_spill tb of
        None \<Rightarrow> tb_mem tb = es
      | Some sp \<Rightarrow> tb_mem tb = [] \<and> sp_data sp = spill_data IO es \<and> sp_bytes sp = length (sp_data sp))"

lemma spill_data_simps [simp]:
  "spill_data IO [] = []" "spill_data IO (e # es) = spill_line IO e @ spill_data IO es"
  "spill_data IO (es @ fs) = spill_data IO es @ spill_data IO fs"
  by (simp_all add: spill_data_def)

lemma write_spilled_holds:
  assumes "write_spilled IO (io_ser IO e) tb = Inr tb1" "tb_holds IO tb es" "tb_spill tb \<noteq> None"
  shows "tb_holds IO tb1 (es @ [e]) \<and> tb_spill tb1 \<noteq> None \<and> tb_cfg tb1 = tb_cfg tb"
  using assms by (auto simp: write_spilled_def tb_holds_def spill_line_def split: option.splits if_splits)

lemma write_all_holds:
  "write_all IO fs tb = Inr tb1 \<Longrightarrow> tb_holds IO tb es \<Longrightarrow> tb_spill tb \<noteq> None \<Longrightarrow>
     tb_holds IO tb1 (es @ fs) \<and> tb_spill tb1 \<noteq> None \<and> tb_cfg tb1 = tb_cfg tb"
proof (induction fs arbitrary: tb es)
  case (Cons f fs)
  from Cons.prems(1) obtain tb0 where w: "write_spilled IO (io_ser IO f) tb = Inr tb0" "write_all IO fs tb0 = Inr tb1"
    by (auto simp: res_simps)
  from write_spilled_holds [OF w(1) Cons.prems(2,3)] Cons.IH [OF w(2)] show ?case by fastforce
qed simp

lemma txn_push_holds:
  assumes push: "txn_push IO e n tb = Inr tb1" and holds: "tb_holds IO tb es"
  shows "tb_holds IO tb1 (es @ [e]) \<and> tb_cfg tb1 = tb_cfg tb"
proof (cases "tb_spill tb")
  case None
  with push holds show ?thesis
    by (auto simp: txn_push_def Let_def begin_spill_def tb_holds_def split: if_splits
        dest!: write_all_holds [where es = "[]"])
next
  case (Some sp)
  let ?tb = "tb\<lparr>tb_count := tb_count tb + 1, tb_buffered_bytes := tb_buffered_bytes tb + io_mem IO e, tb_raw_bytes := tb_raw_bytes tb + n\<rparr>"
  have "write_spilled IO (io_ser IO e) ?tb = Inr tb1" using push Some by (simp add: txn_push_def Let_def)
  moreover have "tb_holds IO ?tb es" using holds by (auto simp: tb_holds_def split: option.splits)
  ultimately show ?thesis using write_spilled_holds [of IO e ?tb tb1 es] Some by simp
qed

lemma push_all_holds:
  "push_all IO ps tb = Inr tb1 \<Longrightarrow> tb_holds IO tb es \<Longrightarrow>
     tb_holds IO tb1 (es @ map fst ps) \<and> tb_cfg tb1 = tb_cfg tb"
proof (induction ps arbitrary: tb es)
  case (Cons p ps)
  obtain e n where p: "p = (e, n)" by (cases p)
  from Cons.prems(1) p obtain tb0 where w: "txn_push IO e n tb = Inr tb0" "push_all IO ps tb0 = Inr tb1"
    by (auto simp: res_simps)
  from txn_push_holds [OF w(1) Cons.prems(2)] Cons.IH [OF w(2)] p show ?case by fastforce
qed simp

text \<open>The envelopes still in the source, stamped from the next sequence number, with the cost each
  adds to a body.\<close>

fun stamp_from :: "stamp_t \<Rightarrow> nat \<Rightarrow> envelope list \<Rightarrow> envelope list" where
  "stamp_from s n [] = []"
| "stamp_from s n (e # es) = stamp_env s n e # stamp_from s (Suc n) es"

definition costed :: "txn_io \<Rightarrow> stamp_t \<Rightarrow> nat \<Rightarrow> envelope list \<Rightarrow> (envelope \<times> nat) list" where
  "costed IO s n es = zip (stamp_from s n es) (map (\<lambda>e. length (io_ser IO e) + STAMP_BYTES) es)"

lemma length_stamp_from [simp]: "length (stamp_from s n es) = length es"
  by (induction es arbitrary: n) auto

lemma costed_simps [simp]:
  "costed IO s n [] = []"
  "costed IO s n (e # es) = (stamp_env s n e, length (io_ser IO e) + STAMP_BYTES) # costed IO s (Suc n) es"
  by (simp_all add: costed_def)

lemma map_fst_costed [simp]: "map fst (costed IO s n es) = stamp_from s n es"
  by (simp add: costed_def)

definition td_holds :: "txn_io \<Rightarrow> txn_drain \<Rightarrow> envelope list \<Rightarrow> bool" where
  "td_holds IO td es =
     (case td_reader td of
        None \<Rightarrow> drop (td_idx td) (td_mem td) = es
      | Some data \<Rightarrow> data = spill_data IO es)"

definition td_items :: "txn_io \<Rightarrow> txn_drain \<Rightarrow> envelope list \<Rightarrow> (envelope \<times> nat) list" where
  "td_items IO td es =
     (case td_pending td of None \<Rightarrow> [] | Some (e, len) \<Rightarrow> [(e, len + STAMP_BYTES)]) @
     costed IO (td_stamp td) (td_seq td) es"

definition codec_ok :: "txn_io \<Rightarrow> envelope \<Rightarrow> bool" where
  "codec_ok IO e \<longleftrightarrow> io_de IO (io_ser IO e) = Ok e \<and> newline \<notin> set (io_ser IO e)"

lemma next_raw_holds:
  assumes "td_holds IO td (e # es)" "newline \<notin> set (io_ser IO e)"
  shows "\<exists>td1 r. next_raw td = (td1, Some r) \<and> r \<in> {RawEnv e, RawLine (io_ser IO e)} \<and> td_holds IO td1 es
           \<and> td_pending td1 = td_pending td \<and> td_stamp td1 = td_stamp td \<and> td_seq td1 = td_seq td
           \<and> td_budget td1 = td_budget td \<and> td_exhausted td1 = td_exhausted td"
proof (cases "td_reader td")
  case None
  with assms(1) have d: "drop (td_idx td) (td_mem td) = e # es" by (simp add: td_holds_def)
  then have i: "td_idx td < length (td_mem td)" by (metis drop_all list.distinct(1) not_less)
  with d have "td_mem td ! td_idx td = e" "drop (Suc (td_idx td)) (td_mem td) = es"
    by (simp_all add: Cons_nth_drop_Suc [symmetric])
  with None i show ?thesis by (simp add: next_raw_def td_holds_def)
next
  case (Some data)
  with assms(1) have "data = io_ser IO e @ newline # spill_data IO es" by (simp add: td_holds_def spill_line_def)
  with Some assms(2) show ?thesis by (simp add: next_raw_def td_holds_def)
qed

lemma take_next_holds:
  assumes holds: "td_holds IO td es" and ok: "\<forall>e \<in> set es. codec_ok IO e"
    and items: "td_items IO td es = (x, c) # its"
  shows "\<exists>td1 es1 len. take_next IO td = (td1, Inr (Some (x, len))) \<and> c = len + STAMP_BYTES
           \<and> td_holds IO td1 es1 \<and> set es1 \<subseteq> set es \<and> td_items IO td1 es1 = its \<and> td_pending td1 = None
           \<and> td_budget td1 = td_budget td \<and> td_exhausted td1 = td_exhausted td"
proof (cases "td_pending td")
  case (Some p)
  with holds items show ?thesis
    by (intro exI [of _ "td\<lparr>td_pending := None\<rparr>"] exI [of _ es])
      (auto simp: take_next_def td_items_def td_holds_def split: option.splits prod.splits)
next
  case None
  with items obtain e es' where es: "es = e # es'" by (cases es) (auto simp: td_items_def)
  from ok es have c: "io_de IO (io_ser IO e) = Inr e" "newline \<notin> set (io_ser IO e)" by (auto simp: codec_ok_def)
  from next_raw_holds [of IO td e es'] holds es c(2) obtain td1 r where
    r: "next_raw td = (td1, Some r)" "r \<in> {RawEnv e, RawLine (io_ser IO e)}" "td_holds IO td1 es'"
      "td_pending td1 = td_pending td" "td_stamp td1 = td_stamp td" "td_seq td1 = td_seq td"
      "td_budget td1 = td_budget td" "td_exhausted td1 = td_exhausted td" by auto
  let ?td2 = "td1\<lparr>td_seq := td_seq td1 + 1\<rparr>"
  have "take_next IO td = (?td2, Inr (Some (stamp_env (td_stamp td) (td_seq td) e, length (io_ser IO e))))"
    using r(1,2,5,6) None c(1) by (auto simp: take_next_def next_stamped_def)
  moreover have "td_holds IO ?td2 es'" using r(3) by (auto simp: td_holds_def split: option.splits)
  ultimately show ?thesis using None items es r by (auto simp: td_items_def)
qed

lemma take_next_end:
  assumes "td_holds IO td es" "td_items IO td es = []"
  shows "take_next IO td = (td, Inr None)"
proof -
  from assms(2) have "es = []" "td_pending td = None"
    by (auto simp: td_items_def costed_def split: option.splits) (cases es; simp)
  with assms(1) show ?thesis
    by (auto simp: take_next_def next_stamped_def next_raw_def td_holds_def split: option.splits)
qed

text \<open>One run of the loop is one \<open>fill\<close> of the shared packing rule; the source is exhausted
  exactly when nothing is carried over.\<close>

lemma chunk_loop_fill:
  assumes "td_holds IO td es" "\<forall>e \<in> set es. codec_ok IO e"
    and "txn_pack.fill (td_budget td) body (chunk \<noteq> []) (td_items IO td es) = (a, b)"
  shows "\<exists>td1 es1. chunk_loop IO td chunk body = (td1, Inr (chunk @ map fst a)) \<and> td_holds IO td1 es1
           \<and> set es1 \<subseteq> set es \<and> td_items IO td1 es1 = b \<and> td_budget td1 = td_budget td
           \<and> td_exhausted td1 = (td_exhausted td \<or> b = [])"
  using assms
proof (induction "td_items IO td es" arbitrary: td es chunk body a b)
  case Nil
  from take_next_end [OF Nil(2)] Nil(1,4) have "chunk_loop IO td chunk body = (td\<lparr>td_exhausted := True\<rparr>, Inr chunk)"
    by (simp add: chunk_loop.simps [of IO td])
  moreover have "td_holds IO (td\<lparr>td_exhausted := True\<rparr>) es" using Nil(2) by (auto simp: td_holds_def split: option.splits)
  moreover have "td_items IO (td\<lparr>td_exhausted := True\<rparr>) es = []" using Nil(1) by (simp add: td_items_def)
  ultimately show ?case using Nil(1,4) by (intro exI [of _ "td\<lparr>td_exhausted := True\<rparr>"] exI [of _ es]) auto
next
  case (Cons xc its)
  obtain x c where xc: "xc = (x, c)" by (cases xc)
  from take_next_holds [OF Cons(3,4)] Cons(2) xc obtain td1 es1 len where
    t: "take_next IO td = (td1, Inr (Some (x, len)))" "c = len + STAMP_BYTES" "td_holds IO td1 es1" "set es1 \<subseteq> set es"
      "td_items IO td1 es1 = its" "td_pending td1 = None" "td_budget td1 = td_budget td" "td_exhausted td1 = td_exhausted td"
    by metis
  let ?cost = "c + (if chunk \<noteq> [] then 1 else 0)"
  have fill: "txn_pack.fill (td_budget td) body (chunk \<noteq> []) ((x, c) # its) = (a, b)"
    using Cons(5) Cons(2) xc by simp
  show ?case
  proof (cases "chunk \<noteq> [] \<and> body + ?cost > td_budget td")
    case True
    with fill have ab: "a = []" "b = (x, c) # its" by (auto simp: Let_def)
    let ?td = "td1\<lparr>td_pending := Some (x, len)\<rparr>"
    have "chunk_loop IO td chunk body = (?td, Inr chunk)"
      using True t(1,2,7) by (auto simp: chunk_loop.simps [of IO td] Let_def)
    moreover have "td_holds IO ?td es1" using t(3) by (auto simp: td_holds_def split: option.splits)
    moreover have "td_items IO ?td es1 = b" using t(2,5,6) ab by (simp add: td_items_def)
    ultimately show ?thesis using t(4,7,8) ab by (intro exI [of _ ?td] exI [of _ es1]) auto
  next
    case False
    with fill obtain a' where f: "txn_pack.fill (td_budget td) (body + ?cost) True its = (a', b)" "a = (x, c) # a'"
      by (auto simp: Let_def split: prod.splits if_splits)
    have "chunk_loop IO td chunk body = chunk_loop IO td1 (chunk @ [x]) (body + ?cost)"
      using False t(1,2,7) by (auto simp: chunk_loop.simps [of IO td] Let_def)
    moreover have "\<forall>e \<in> set es1. codec_ok IO e" using Cons(4) t(4) by blast
    ultimately show ?thesis
      using Cons(1) [OF t(5) [symmetric] t(3), of "body + ?cost" "chunk @ [x]" a' b] f t(4,5,7,8) by fastforce
  qed
qed

fun mark_final :: "envelope list list \<Rightarrow> envelope list list" where
  "mark_final [] = []"
| "mark_final [c] = [mark_last c]"
| "mark_final (c # d # cs) = c # mark_final (d # cs)"

lemma mark_last_Nil_iff [simp]: "mark_last c = [] \<longleftrightarrow> c = []"
  by (simp add: mark_last_def)

lemma drain_all_pack:
  assumes "td_holds IO td es" "\<forall>e \<in> set es. codec_ok IO e" "\<not> td_exhausted td \<or> td_items IO td es = []"
    and "length (td_items IO td es) < fuel"
  shows "drain_all fuel IO td =
           Some (Ok (mark_final (map (map fst) (txn_pack.pack_all (td_budget td) (td_items IO td es)))))"
  using assms
proof (induction fuel arbitrary: td es)
  case (Suc fuel)
  let ?its = "td_items IO td es"
  obtain a b where f: "txn_pack.fill (td_budget td) 2 False ?its = (a, b)" by fastforce
  with chunk_loop_fill [OF Suc.prems(1,2), of 2 "[]" a b] obtain td1 es1 where
    c: "chunk_loop IO td [] 2 = (td1, Inr (map fst a))" "td_holds IO td1 es1" "set es1 \<subseteq> set es"
      "td_items IO td1 es1 = b" "td_budget td1 = td_budget td" "td_exhausted td1 = (td_exhausted td \<or> b = [])"
    by auto
  show ?case
  proof (cases "?its = []")
    case True
    with f c(1) show ?thesis by (auto simp: next_chunk_def Let_def mark_last_def)
  next
    case False
    from txn_pack.fill_split [OF f] False have a: "a \<noteq> []" by simp
    from txn_pack.fill_length [OF False f] Suc.prems(4) have "length b < fuel" by simp
    moreover have "\<forall>e \<in> set es1. codec_ok IO e" using Suc.prems(2) c(3) by blast
    moreover have "\<not> td_exhausted td1 \<or> b = []" using c(6) Suc.prems(3) False by auto
    ultimately have rec: "drain_all fuel IO td1 = Some (Ok (mark_final (map (map fst) (txn_pack.pack_all (td_budget td) b))))"
      using Suc.IH [OF c(2)] c(4,5) by simp
    have "next_chunk IO td = (td1, Ok (Some (if b = [] then mark_last (map fst a) else map fst a)))"
      using c(1,6) a Suc.prems(3) False by (auto simp: next_chunk_def Let_def)
    moreover have "txn_pack.pack_all (td_budget td) ?its = a # txn_pack.pack_all (td_budget td) b"
      using f False by (simp add: txn_pack.pack_all.simps [of _ ?its])
    moreover have "b \<noteq> [] \<Longrightarrow> \<exists>d ds. txn_pack.pack_all (td_budget td) b = d # ds"
      by (simp add: txn_pack.pack_all.simps [of _ b])
    ultimately show ?thesis using rec by (cases "b = []") auto
  qed
qed simp

lemma concat_mark_final:
  "(\<And>c. c \<in> set cs \<Longrightarrow> c \<noteq> []) \<Longrightarrow> concat (mark_final cs) = mark_last (concat cs)"
proof (induction cs rule: mark_final.induct)
  case (3 c d cs)
  then have "concat (d # cs) \<noteq> []" by auto
  with 3 show ?case by (auto simp: mark_last_def butlast_append)
qed (auto simp: mark_last_def)

lemma set_mark_final: "c \<in> set (mark_final cs) \<Longrightarrow> \<exists>d \<in> set cs. c = d \<or> c = mark_last d"
  by (induction cs rule: mark_final.induct) auto

text \<open>The body an append posts: a JSON array of the chunk.\<close>

definition posted_bytes :: "txn_io \<Rightarrow> envelope list \<Rightarrow> nat" where
  "posted_bytes IO chunk = 2 + sum_list (map (\<lambda>e. length (io_ser IO e)) chunk) + (length chunk - 1)"

definition with_last :: "envelope \<Rightarrow> envelope" where
  "with_last e = e\<lparr>e_headers := (e_headers e)\<lparr>h_last := Some True\<rparr>\<rparr>"

lemma mark_last_snoc: "mark_last (c @ [x]) = c @ [with_last x]"
  by (simp add: mark_last_def with_last_def)

definition item_bound :: "txn_io \<Rightarrow> envelope \<times> nat \<Rightarrow> bool" where
  "item_bound IO i \<longleftrightarrow> length (io_ser IO (fst i)) \<le> snd i \<and> length (io_ser IO (with_last (fst i))) \<le> snd i"

lemma sum_ser_le:
  "\<forall>i \<in> set a. item_bound IO i \<Longrightarrow> sum_list (map (\<lambda>e. length (io_ser IO e)) (map fst a)) \<le> sum_list (map snd a)"
  by (induction a) (auto simp: item_bound_def)

lemma posted_bytes_le:
  assumes "\<forall>i \<in> set a. item_bound IO i"
  shows "posted_bytes IO (map fst a) \<le> txn_pack.body_size a" "posted_bytes IO (mark_last (map fst a)) \<le> txn_pack.body_size a"
proof -
  show "posted_bytes IO (map fst a) \<le> txn_pack.body_size a"
    using sum_ser_le [OF assms] by (simp add: posted_bytes_def txn_pack.body_size_def)
  show "posted_bytes IO (mark_last (map fst a)) \<le> txn_pack.body_size a"
  proof (cases a rule: rev_cases)
    case Nil
    then show ?thesis by (simp add: posted_bytes_def txn_pack.body_size_def mark_last_def)
  next
    case (snoc a' i)
    with assms have "\<forall>i \<in> set a'. item_bound IO i" "item_bound IO i" by auto
    with snoc sum_ser_le [of a' IO] show ?thesis
      by (simp add: posted_bytes_def txn_pack.body_size_def mark_last_snoc item_bound_def)
  qed
qed

lemma txn_fill_append: "txn_pack.fill budget body st xs = (a, b) \<Longrightarrow> a @ b = xs"
  by (induction budget body st xs arbitrary: a b rule: txn_pack.fill.induct)
    (auto simp: Let_def split: if_splits prod.splits)

lemma txn_pack_all_concat: "concat (txn_pack.pack_all budget xs) = xs"
proof (induction budget xs rule: txn_pack.pack_all.induct)
  case (1 budget xs)
  show ?case
  proof (cases "xs = []")
    case False
    with 1 txn_fill_append [of budget 2 False xs] show ?thesis
      by (simp add: txn_pack.pack_all.simps [of budget xs])
  qed simp
qed

text \<open>What stamping may add, for the envelopes of one transaction: the bound the constant
  \<^const>\<open>STAMP_BYTES\<close> documents.\<close>

definition stamp_bounded :: "txn_io \<Rightarrow> stamp_t \<Rightarrow> nat \<Rightarrow> envelope \<Rightarrow> bool" where
  "stamp_bounded IO s n e \<longleftrightarrow> item_bound IO (stamp_env s n e, length (io_ser IO e) + STAMP_BYTES)"

lemma costed_bound:
  "\<forall>e \<in> set es. \<forall>k < n + length es. stamp_bounded IO s k e \<Longrightarrow> i \<in> set (costed IO s n es) \<Longrightarrow> item_bound IO i"
proof (induction es arbitrary: n)
  case (Cons e es)
  then show ?case using Cons.IH [of "Suc n"] by (auto simp: stamp_bounded_def)
qed simp

text \<open>Draining a buffer that holds \<open>es\<close> packs them; the packed chunks are the stamped envelopes.\<close>

lemma drain_of_holds:
  assumes "tb_holds IO tb es" and codec: "\<forall>e \<in> set es. codec_ok IO e" and "length es < fuel"
  shows "drain_all fuel IO (txn_drain_of s tb) =
    Some (Ok (mark_final (map (map fst) (txn_pack.pack_all (cfg_append_bytes (tb_cfg tb)) (costed IO s 0 es)))))"
proof -
  let ?td = "txn_drain_of s tb"
  have holds: "td_holds IO ?td es"
    using assms(1) by (auto simp: tb_holds_def td_holds_def txn_drain_of_def split: option.splits)
  have items: "td_items IO ?td es = costed IO s 0 es" by (simp add: td_items_def txn_drain_of_def)
  show ?thesis using drain_all_pack [OF holds codec, of fuel] items assms(3)
    by (simp add: costed_def) (simp add: txn_drain_of_def)
qed

lemma concat_packed:
  "concat (mark_final (map (map fst) (txn_pack.pack_all b (costed IO s 0 es)))) = mark_last (stamp_from s 0 es)"
proof -
  have ne: "c \<noteq> []" if "c \<in> set (map (map fst) (txn_pack.pack_all b (costed IO s 0 es)))" for c
    using that txn_pack.pack_all_chunks by fastforce
  show ?thesis using txn_pack.pack_all_concat [of b "costed IO s 0 es"] by (subst concat_mark_final [OF ne]) simp_all
qed

text \<open>C14: Whatever was pushed comes out at commit: draining a buffer that accepted the changes of a
  transaction ends, and the chunks in order are exactly those changes, stamped with the commit's
  LSN and xid and with consecutive sequence numbers from 0, the transaction-end marker on the very
  last envelope and nowhere else; this holds alike when the buffer never spilled and when it
  spilled at any point. No chunk is empty, and a chunk of more than one envelope fits the append
  budget when posted. The hypotheses are that the JSON codec reads back what it wrote (with no raw
  newline in it), and that stamping adds at most \<open>STAMP_BYTES\<close> to an envelope.\<close>

theorem txn_drain_exact:
  assumes push: "push_all IO ps (txn_new xid cfg) = Inr tb"
    and codec: "\<forall>e \<in> set (map fst ps). codec_ok IO e"
    and bound: "\<forall>e \<in> set (map fst ps). \<forall>k < length ps. stamp_bounded IO s k e"
    and fuel: "length ps < fuel"
  shows "\<exists>chunks. drain_all fuel IO (txn_drain_of s tb) = Some (Ok chunks)
           \<and> concat chunks = mark_last (stamp_from s 0 (map fst ps))
           \<and> (\<forall>c \<in> set chunks. c \<noteq> [] \<and> (length c = 1 \<or> posted_bytes IO c \<le> cfg_append_bytes cfg))"
proof -
  let ?td = "txn_drain_of s tb" and ?es = "map fst ps"
  let ?cs = "txn_pack.pack_all (cfg_append_bytes cfg) (costed IO s 0 ?es)"
  have "tb_holds IO tb ?es" and cfg: "tb_cfg tb = cfg"
    using push_all_holds [OF push, of "[]"] by (simp_all add: tb_holds_def txn_new_def)
  from drain_of_holds [OF this(1) codec, of fuel s] fuel cfg
  have drain: "drain_all fuel IO ?td = Some (Ok (mark_final (map (map fst) ?cs)))" by simp
  have "concat (mark_final (map (map fst) ?cs)) = mark_last (stamp_from s 0 ?es)" by (rule concat_packed)
  moreover have "c \<noteq> [] \<and> (length c = 1 \<or> posted_bytes IO c \<le> cfg_append_bytes cfg)"
    if "c \<in> set (mark_final (map (map fst) ?cs))" for c
  proof -
    from set_mark_final [OF that] obtain a where a: "a \<in> set ?cs" "c = map fst a \<or> c = mark_last (map fst a)" by auto
    have "set a \<subseteq> set (costed IO s 0 ?es)"
      using a(1) txn_pack_all_concat [of "cfg_append_bytes cfg" "costed IO s 0 ?es"] by (metis UN_upper set_concat)
    with costed_bound [of ?es 0 IO s] bound have "\<forall>i \<in> set a. item_bound IO i" by auto
    from posted_bytes_le [OF this] txn_pack.pack_all_chunks [OF a(1)] a(2) show ?thesis
      by (auto simp: mark_last_def intro: le_trans)
  qed
  ultimately show ?thesis using drain by blast
qed

definition ex_txn_env :: "string \<Rightarrow> envelope" where
  "ex_txn_env k = \<lparr>e_type = ''public.t'', e_key = k, e_value = None, e_old = None,
     e_headers = \<lparr>h_operation = ''delete'', h_txid = None, h_offset = None, h_lsn = None, h_seq = None, h_last = None\<rparr>\<rparr>"

definition ex_txn_io :: txn_io where
  "ex_txn_io = \<lparr>io_ser = e_key, io_de = (\<lambda>s. Ok (ex_txn_env s)), io_mem = (\<lambda>e. 10), io_disk = (\<lambda>n. n < 1000)\<rparr>"

definition ex_txn_cfg :: txn_buffer_config where
  "ex_txn_cfg = \<lparr>cfg_memory_bytes = 15, cfg_append_bytes = 300, cfg_spill_dir = ''/tmp''\<rparr>"

definition ex_txn_ops :: "(envelope \<times> nat) list" where
  "ex_txn_ops = map (\<lambda>k. (ex_txn_env k, 7)) [''a'', ''bb'', ''c'', ''dd'']"

lemmas ex_txn_defs = ex_txn_env_def ex_txn_io_def ex_txn_cfg_def ex_txn_ops_def

lemma ex_txn_push:
  "\<exists>tb. push_all ex_txn_io ex_txn_ops (txn_new 7 ex_txn_cfg) = Inr tb \<and> tb_spill tb \<noteq> None"
  by (simp add: ex_txn_defs txn_push_def txn_new_def Let_def begin_spill_def write_spilled_def)

theorem txn_drain_exact_witness:
  "\<exists>tb chunks. push_all ex_txn_io ex_txn_ops (txn_new 7 ex_txn_cfg) = Inr tb \<and> tb_spill tb \<noteq> None
     \<and> drain_all 5 ex_txn_io (txn_drain_of \<lparr>st_lsn = ''0/1'', st_txid = ''7''\<rparr> tb) = Some (Ok chunks)
     \<and> concat chunks = mark_last (stamp_from \<lparr>st_lsn = ''0/1'', st_txid = ''7''\<rparr> 0 (map fst ex_txn_ops))"
proof -
  obtain tb where tb: "push_all ex_txn_io ex_txn_ops (txn_new 7 ex_txn_cfg) = Inr tb" "tb_spill tb \<noteq> None"
    using ex_txn_push by blast
  have "\<forall>e \<in> set (map fst ex_txn_ops). codec_ok ex_txn_io e"
    by (simp add: ex_txn_defs codec_ok_def newline_def)
  moreover have "\<forall>e \<in> set (map fst ex_txn_ops). \<forall>k < length ex_txn_ops. stamp_bounded ex_txn_io \<lparr>st_lsn = ''0/1'', st_txid = ''7''\<rparr> k e"
    by (simp add: ex_txn_defs stamp_bounded_def item_bound_def stamp_env_def with_last_def)
  moreover have "length ex_txn_ops < 5" by (simp add: ex_txn_ops_def)
  ultimately show ?thesis using txn_drain_exact [OF tb(1)] tb by blast
qed

section \<open>Settings and the sweep\<close>

text \<open>A resolved configuration always has an append budget that is positive and within the body
  cap of the durable-streams server, whatever the environment holds; with nothing set it is the
  default one.\<close>

theorem config_resolve_bounds:
  "(\<forall>cfg. config_resolve dir get = Inr cfg \<longrightarrow> 0 < cfg_append_bytes cfg \<and> cfg_append_bytes cfg \<le> DS_MAX_BODY_BYTES)
   \<and> config_resolve dir (\<lambda>_. None) = Inr (default_config dir)"
  by (auto simp: config_resolve_def Let_def bytes_var_def default_config_def DS_MAX_BODY_BYTES_def res_simps split: if_splits)

theorem config_resolve_bounds_witness:
  "config_resolve ''/t'' (\<lambda>k. if k = ''ELECTRIC_CIRCUITS_CHANGES_APPEND_BYTES'' then Some ''4096'' else None) =
     Inr \<lparr>cfg_memory_bytes = 134217728, cfg_append_bytes = 4096, cfg_spill_dir = ''/t''\<rparr>
   \<and> 4096 \<le> DS_MAX_BODY_BYTES"
proof -
  let ?get = "\<lambda>k. if k = ''ELECTRIC_CIRCUITS_CHANGES_APPEND_BYTES'' then Some ''4096'' else None"
  have "config_resolve ''/t'' ?get = Inr \<lparr>cfg_memory_bytes = 134217728, cfg_append_bytes = 4096, cfg_spill_dir = ''/t''\<rparr>"
    by (simp add: config_resolve_def bytes_var_def default_config_def DS_MAX_BODY_BYTES_def trim_def is_whitespace_def
        parse_u64_def parse_uint_def parse_nat_radix_def digit_val_def code_of_def u64_max_def)
  with config_resolve_bounds [of "''/t''" ?get] show ?thesis by fastforce
qed

lemma show_nat_no_dash: "CHR ''-'' \<notin> set (show_nat n)"
  using show_nat_digits digit_not_sign by blast

lemma rsplit_once_append: "d \<notin> set b \<Longrightarrow> rsplit_once d (a @ d # b) = Some (a, b)"
  by (simp add: rsplit_once_def)

lemma spill_file_pid_name:
  "xid \<le> u32_max \<Longrightarrow> pid \<le> u32_max \<Longrightarrow> spill_file_pid (spill_file_name xid pid) = Some pid"
proof -
  assume "xid \<le> u32_max" "pid \<le> u32_max"
  moreover have "strip_suffix SPILL_SUFFIX (show_nat xid @ CHR ''-'' # show_nat pid @ SPILL_SUFFIX) = Some (show_nat xid @ CHR ''-'' # show_nat pid)"
    using strip_suffix_append [of SPILL_SUFFIX "show_nat xid @ CHR ''-'' # show_nat pid"] by simp
  ultimately show ?thesis
    by (simp add: spill_file_pid_def spill_file_name_def rsplit_once_append show_nat_no_dash)
qed

text \<open>The sweep at boot never touches a file that is not a spill file, a file the caller names as
  live, or the spill file of another process that is running; it does remove every spill file left
  by a process that is gone (or by a predecessor with this process's own pid), provided the file
  system lets it; and it counts the removals.\<close>

theorem sweep_exact:
  assumes "sweep_spill_dir_except me alive live rm_ok entries = (kept, removed)"
  shows "removed + length kept = length entries
    \<and> (\<forall>name \<in> set entries. spill_file_pid name = None \<or> name \<in> set live \<longrightarrow> name \<in> set kept)
    \<and> (\<forall>xid pid. spill_file_name xid pid \<in> set entries \<and> xid \<le> u32_max \<and> pid \<le> u32_max
         \<and> spill_file_name xid pid \<notin> set live \<and> rm_ok (spill_file_name xid pid) \<longrightarrow>
         (spill_file_name xid pid \<in> set kept \<longleftrightarrow> pid \<noteq> me \<and> alive pid))"
proof (intro conjI ballI allI impI)
  have kept: "kept = filter (sweep_keeps me alive live rm_ok) entries"
    and removed: "removed = length (filter (\<lambda>n. \<not> sweep_keeps me alive live rm_ok n) entries)"
    using assms by (simp_all add: sweep_spill_dir_except_def)
  show "removed + length kept = length entries"
    using sum_length_filter_compl [of "sweep_keeps me alive live rm_ok" entries] kept removed by simp
  show "name \<in> set kept" if "name \<in> set entries" "spill_file_pid name = None \<or> name \<in> set live" for name
    using that kept by (auto simp: sweep_keeps_def split: option.splits)
  show "spill_file_name xid pid \<in> set kept \<longleftrightarrow> pid \<noteq> me \<and> alive pid"
    if "spill_file_name xid pid \<in> set entries \<and> xid \<le> u32_max \<and> pid \<le> u32_max
      \<and> spill_file_name xid pid \<notin> set live \<and> rm_ok (spill_file_name xid pid)" for xid pid
    using that kept spill_file_pid_name [of xid pid] by (auto simp: sweep_keeps_def)
qed

theorem sweep_exact_witness:
  "snd (sweep_spill_dir_except 9 (\<lambda>p. p = 5) [] (\<lambda>_. True) [spill_file_name 1 5, spill_file_name 2 6, ''notes.txt'']) = 1
   \<and> spill_file_name 1 5 \<in> set (fst (sweep_spill_dir_except 9 (\<lambda>p. p = 5) [] (\<lambda>_. True) [spill_file_name 1 5, spill_file_name 2 6, ''notes.txt'']))"
proof
  let ?s = "sweep_spill_dir_except 9 (\<lambda>p. p = 5) [] (\<lambda>_. True) [spill_file_name 1 5, spill_file_name 2 6, ''notes.txt'']"
  show "snd ?s = 1"
    by (simp add: sweep_spill_dir_except_def sweep_keeps_def spill_file_pid_name u32_max_def)
      (simp add: spill_file_pid_def SPILL_PREFIX_def)
  have "?s = (fst ?s, snd ?s)" by simp
  from sweep_exact [OF this] show "spill_file_name 1 5 \<in> set (fst ?s)"
    by (simp add: u32_max_def)
qed

end
