(* ===== verification/Backfill.thy ===== *)
theory Backfill
  imports TxnBuffer
begin

text \<open>
  The streamed backfill (\<^verbatim>\<open>pg.rs\<close>, \<open>BackfillReader\<close>): the rows of a snapshot arrive over a cursor, are
  decoded against the schema, and leave in chunks that fit one append body. The cursor is the list
  of what it will still yield, each element a JSON value or the error the database answers; the
  serialised length of a JSON value is a parameter.
\<close>

record backfill_config =
  bc_append_bytes :: nat
  bc_statement_timeout_ms :: nat

definition default_backfill_config :: backfill_config where
  "default_backfill_config = \<lparr>bc_append_bytes = 16 * 1024 * 1024, bc_statement_timeout_ms = 0\<rparr>"

definition BACKFILL_ENVELOPE_FRAMING :: nat where "BACKFILL_ENVELOPE_FRAMING = 96"

definition chunk_is_full :: "nat \<Rightarrow> nat \<Rightarrow> nat \<Rightarrow> nat \<Rightarrow> bool" where
  "chunk_is_full chunk_rows chunk_bytes row_bytes budget \<longleftrightarrow> chunk_rows > 0 \<and> sat_add chunk_bytes row_bytes > budget"

record backfill_fences =
  bf_seed_lsn :: string
  bf_gate :: snapshot_gate

record backfill_reader =
  br_ts :: tschema
  br_stream :: "json result list option"
  br_pending :: "(row \<times> nat) option"
  br_budget :: nat
  br_frame :: nat
  br_fences :: backfill_fences
  br_rows :: nat
  br_chunks :: nat
  br_estimated_bytes :: nat

text \<open>Opening the reader: the fences are what the first statement of the snapshot returned.\<close>

definition backfill_open_in_txn ::
  "backfill_config \<Rightarrow> tschema \<Rightarrow> string \<Rightarrow> string \<Rightarrow> json result list \<Rightarrow> backfill_reader" where
  "backfill_open_in_txn cfg ts seed_lsn snap stream =
     \<lparr>br_ts = ts, br_stream = Some stream, br_pending = None, br_budget = bc_append_bytes cfg,
      br_frame = BACKFILL_ENVELOPE_FRAMING + length (table_as_str (ts_table ts)),
      br_fences = \<lparr>bf_seed_lsn = seed_lsn, bf_gate = gate_parse snap seed_lsn\<rparr>,
      br_rows = 0, br_chunks = 0, br_estimated_bytes = 0\<rparr>"

text \<open>The row and the cost of one cursor item.\<close>

definition backfill_item :: "f64_ops \<Rightarrow> (json \<Rightarrow> nat) \<Rightarrow> tschema \<Rightarrow> nat \<Rightarrow> json result \<Rightarrow> (row \<times> nat) result" where
  "backfill_item F jlen ts frame item =
     rbind item (\<lambda>j.
       (case j of
          JObj obj \<Rightarrow>
            rbind (row_from_json F ts obj) (\<lambda>r.
              let key_bytes = (case key_string F ts r of Inr k \<Rightarrow> length k | Inl _ \<Rightarrow> 0)
              in Ok (r, jlen j + key_bytes + frame))
        | _ \<Rightarrow> Err RowNotAnObject))"

definition next_row :: "f64_ops \<Rightarrow> (json \<Rightarrow> nat) \<Rightarrow> backfill_reader \<Rightarrow> backfill_reader \<times> (row \<times> nat) option result" where
  "next_row F jlen br =
     (case br_stream br of
        None \<Rightarrow> (br, Ok None)
      | Some [] \<Rightarrow> (br\<lparr>br_stream := None\<rparr>, Ok None)
      | Some (item # items) \<Rightarrow>
          (let br1 = br\<lparr>br_stream := Some items\<rparr> in
           case backfill_item F jlen (br_ts br) (br_frame br) item of
             Inl e \<Rightarrow> (br1, Err e)
           | Inr (r, cost) \<Rightarrow>
               (br1\<lparr>br_estimated_bytes := sat_add (br_estimated_bytes br1) cost\<rparr>, Ok (Some (r, cost)))))"

definition br_take :: "f64_ops \<Rightarrow> (json \<Rightarrow> nat) \<Rightarrow> backfill_reader \<Rightarrow> backfill_reader \<times> (row \<times> nat) option result" where
  "br_take F jlen br =
     (case br_pending br of
        Some p \<Rightarrow> (br\<lparr>br_pending := None\<rparr>, Ok (Some p))
      | None \<Rightarrow> next_row F jlen br)"

definition br_left :: "backfill_reader \<Rightarrow> nat" where
  "br_left br = (case br_pending br of None \<Rightarrow> 0 | Some _ \<Rightarrow> 1) +
     (case br_stream br of None \<Rightarrow> 0 | Some items \<Rightarrow> length items)"

lemma br_left_take: "br_take F jlen br = (br1, Inr (Some x)) \<Longrightarrow> br_left br1 < br_left br"
  by (auto simp: br_take_def next_row_def br_left_def Let_def split: option.splits list.splits sum.splits prod.splits)

function backfill_loop ::
  "f64_ops \<Rightarrow> (json \<Rightarrow> nat) \<Rightarrow> backfill_reader \<Rightarrow> row list \<Rightarrow> nat \<Rightarrow> backfill_reader \<times> row list result" where
  "backfill_loop F jlen br chunk body =
     (case br_take F jlen br of
        (br1, Inl e) \<Rightarrow> (br1, Err e)
      | (br1, Inr None) \<Rightarrow> (br1, Ok chunk)
      | (br1, Inr (Some (r, cost0))) \<Rightarrow>
          (let cost = cost0 + (if chunk = [] then 0 else 1) in
           if chunk_is_full (length chunk) body cost (br_budget br1)
           then (br1\<lparr>br_pending := Some (r, cost)\<rparr>, Ok chunk)
           else backfill_loop F jlen br1 (chunk @ [r]) (body + cost)))"
  by auto
termination
  by (relation "measure (\<lambda>(F, jlen, br, chunk, body). br_left br)") (auto intro: br_left_take [OF sym])

declare backfill_loop.simps [simp del]

definition backfill_next_chunk ::
  "f64_ops \<Rightarrow> (json \<Rightarrow> nat) \<Rightarrow> backfill_reader \<Rightarrow> backfill_reader \<times> row list option result" where
  "backfill_next_chunk F jlen br =
     (if br_stream br = None \<and> br_pending br = None then (br, Ok None)
      else (case backfill_loop F jlen br [] 2 of
              (br1, Inl e) \<Rightarrow> (br1, Err e)
            | (br1, Inr chunk) \<Rightarrow>
                if chunk = [] then (br1, Ok None)
                else (br1\<lparr>br_rows := br_rows br1 + length chunk, br_chunks := br_chunks br1 + 1\<rparr>, Ok (Some chunk))))"

text \<open>The consumer's loop: the chunks in order, with the reader left at the end; \<open>None\<close> when the fuel
  runs out.\<close>

fun backfill_chunks ::
  "nat \<Rightarrow> f64_ops \<Rightarrow> (json \<Rightarrow> nat) \<Rightarrow> backfill_reader \<Rightarrow> (row list list \<times> backfill_reader) result option" where
  "backfill_chunks 0 F jlen br = None"
| "backfill_chunks (Suc n) F jlen br =
     (case backfill_next_chunk F jlen br of
        (br1, Inl e) \<Rightarrow> Some (Err e)
      | (br1, Inr None) \<Rightarrow> Some (Ok ([], br1))
      | (br1, Inr (Some chunk)) \<Rightarrow>
          map_option (\<lambda>res. rbind res (\<lambda>(cs, br2). Ok (chunk # cs, br2))) (backfill_chunks n F jlen br1))"

definition collect :: "nat \<Rightarrow> f64_ops \<Rightarrow> (json \<Rightarrow> nat) \<Rightarrow> backfill_reader \<Rightarrow> (row list \<times> backfill_fences) result option" where
  "collect fuel F jlen br =
     map_option (\<lambda>res. rbind res (\<lambda>(cs, br2). Ok (concat cs, br_fences br2))) (backfill_chunks fuel F jlen br)"

section \<open>What the reader delivers\<close>

definition br_stream_list :: "backfill_reader \<Rightarrow> json result list" where
  "br_stream_list br = (case br_stream br of None \<Rightarrow> [] | Some items \<Rightarrow> items)"

definition br_pending_list :: "backfill_reader \<Rightarrow> (row \<times> nat) list" where
  "br_pending_list br = (case br_pending br of None \<Rightarrow> [] | Some p \<Rightarrow> [p])"

text \<open>What is still to come: rows with their costs, or the first error met on the way.\<close>

definition br_rest :: "f64_ops \<Rightarrow> (json \<Rightarrow> nat) \<Rightarrow> backfill_reader \<Rightarrow> (row \<times> nat) list result" where
  "br_rest F jlen br =
     rbind (map_res (backfill_item F jlen (br_ts br) (br_frame br)) (br_stream_list br)) (\<lambda>rs. Ok (br_pending_list br @ rs))"

definition same_source :: "backfill_reader \<Rightarrow> backfill_reader \<Rightarrow> bool" where
  "same_source a b \<longleftrightarrow> br_ts a = br_ts b \<and> br_frame a = br_frame b \<and> br_budget a = br_budget b
     \<and> br_fences a = br_fences b"

lemmas br_defs = br_rest_def br_stream_list_def br_pending_list_def same_source_def

lemma br_take_cases:
  "br_take F jlen br = (br1, res) \<Longrightarrow> same_source br1 br \<and> br_pending br1 = None \<and>
     (case res of
        Inl e \<Rightarrow> br_rest F jlen br = Inl e
      | Inr None \<Rightarrow> br_rest F jlen br = Inr [] \<and> br_rest F jlen br1 = Inr [] \<and> br_stream br1 = None
      | Inr (Some x) \<Rightarrow> br_rest F jlen br = rbind (br_rest F jlen br1) (\<lambda>rs. Ok (x # rs)))"
  by (auto simp: br_take_def next_row_def br_defs Let_def rbind_def
      split: option.splits list.splits sum.splits prod.splits)

text \<open>An error anywhere before the end surfaces at once, as the first error of the cursor.\<close>

lemma backfill_loop_error:
  "backfill_loop F jlen br chunk body = (br1, Inl e) \<Longrightarrow> br_rest F jlen br = Inl e"
proof (induction F jlen br chunk body rule: backfill_loop.induct)
  case (1 F jlen br chunk body)
  obtain br0 res where t: "br_take F jlen br = (br0, res)" by fastforce
  note c = br_take_cases [OF t]
  show ?case
  proof (cases res)
    case (Inl e')
    with "1.prems" t c show ?thesis by (auto simp: backfill_loop.simps [of F jlen br])
  next
    case (Inr x)
    with "1.prems" t obtain r cost where x: "x = Some (r, cost)"
      by (auto simp: backfill_loop.simps [of F jlen br] split: option.splits)
    with "1.prems" t Inr "1.IH" [OF t [symmetric] Inr x refl refl] c show ?thesis
      by (auto simp: backfill_loop.simps [of F jlen br] Let_def split: if_splits)
  qed
qed

lemma same_source_trans: "same_source a b \<Longrightarrow> same_source b c \<Longrightarrow> same_source a c"
  by (simp add: same_source_def)

text \<open>A run of the loop is one \<open>fill\<close> of the packing rule whenever the rest of the cursor decodes.\<close>

lemma backfill_loop_fill:
  assumes "br_rest F jlen br = Inr its" "br_budget br < u64_max"
    and "backfill_pack.fill (br_budget br) body (chunk \<noteq> []) its = (a, b)"
  shows "\<exists>br1. backfill_loop F jlen br chunk body = (br1, Inr (chunk @ map fst a)) \<and> br_rest F jlen br1 = Inr b
           \<and> same_source br1 br"
  using assms
proof (induction its arbitrary: br chunk body a b)
  case Nil
  obtain br1 res where t: "br_take F jlen br = (br1, res)" by fastforce
  from br_take_cases [OF t] Nil.prems(1) have "res = Inr None" "br_rest F jlen br1 = Inr []" "same_source br1 br"
    by (auto simp: res_simps split: sum.splits option.splits)
  with t Nil.prems(3) show ?case by (simp add: backfill_loop.simps [of F jlen br])
next
  case (Cons xc its)
  obtain x c where xc: "xc = (x, c)" by (cases xc)
  obtain br1 res where t: "br_take F jlen br = (br1, res)" by fastforce
  from br_take_cases [OF t] Cons.prems(1) xc have
    r: "res = Inr (Some (x, c))" "br_rest F jlen br1 = Inr its" "same_source br1 br" "br_pending br1 = None"
    by (auto simp: res_simps split: sum.splits option.splits)
  let ?cost = "c + (if chunk = [] then 0 else 1)"
  have full: "chunk_is_full (length chunk) body ?cost (br_budget br1) \<longleftrightarrow> chunk \<noteq> [] \<and> body + ?cost > br_budget br"
    using r(3) Cons.prems(2) by (auto simp: chunk_is_full_def sat_add_def same_source_def)
  show ?case
  proof (cases "chunk \<noteq> [] \<and> body + ?cost > br_budget br")
    case True
    with Cons.prems(3) xc have ab: "a = []" "b = (x, Suc c) # its" by (auto simp: Let_def)
    with True t r full show ?thesis
      by (auto simp: backfill_loop.simps [of F jlen br] Let_def br_defs res_simps)
  next
    case False
    with Cons.prems(3) xc obtain a' where
      f: "backfill_pack.fill (br_budget br) (body + ?cost) True its = (a', b)" "a = (x, c) # a'"
      by (auto simp: Let_def split: prod.splits if_splits)
    have "backfill_loop F jlen br chunk body = backfill_loop F jlen br1 (chunk @ [x]) (body + ?cost)"
      using False t r(1) full by (auto simp: backfill_loop.simps [of F jlen br] Let_def)
    with Cons.IH [OF r(2), of "body + ?cost" "chunk @ [x]" a' b] f r(3) Cons.prems(2) show ?thesis
      by (auto simp: same_source_def)
  qed
qed

lemma backfill_chunks_pack:
  assumes "br_rest F jlen br = Inr its" "br_budget br < u64_max" "length its < fuel"
  shows "\<exists>br1. backfill_chunks fuel F jlen br = Some (Ok (map (map fst) (backfill_pack.pack_all (br_budget br) its), br1))
           \<and> same_source br1 br"
  using assms
proof (induction fuel arbitrary: br its)
  case (Suc fuel)
  obtain a b where f: "backfill_pack.fill (br_budget br) 2 False its = (a, b)" by fastforce
  from backfill_loop_fill [OF Suc.prems(1,2), of 2 "[]" a b] f obtain br1 where
    l: "backfill_loop F jlen br [] 2 = (br1, Inr (map fst a))" "br_rest F jlen br1 = Inr b" "same_source br1 br" by auto
  show ?case
  proof (cases "its = []")
    case True
    with f have "a = []" by simp
    with l True show ?thesis by (auto simp: backfill_next_chunk_def same_source_def)
  next
    case False
    from backfill_pack.fill_split [OF f] False have a: "a \<noteq> []" by simp
    let ?br2 = "br1\<lparr>br_rows := br_rows br1 + length a, br_chunks := br_chunks br1 + 1\<rparr>"
    have "br_stream br \<noteq> None \<or> br_pending br \<noteq> None"
      using Suc.prems(1) False by (auto simp: br_defs split: option.splits)
    then have n: "backfill_next_chunk F jlen br = (?br2, Ok (Some (map fst a)))"
      using l(1) a by (auto simp: backfill_next_chunk_def)
    have "br_rest F jlen ?br2 = Inr b" "same_source ?br2 br"
      using l(2,3) by (auto simp: br_defs)
    moreover have "length b < fuel" using backfill_pack.fill_length [OF False f] Suc.prems(3) by simp
    ultimately obtain br3 where "backfill_chunks fuel F jlen ?br2 = Some (Ok (map (map fst) (backfill_pack.pack_all (br_budget br) b), br3))"
        "same_source br3 ?br2"
      using Suc.IH [of ?br2 b] Suc.prems(2) by (auto simp: same_source_def)
    with n f False \<open>same_source ?br2 br\<close> show ?thesis
      by (auto simp: backfill_pack.pack_all.simps [of _ its] intro: same_source_trans)
  qed
qed simp

lemma br_left_pending: "br_pending b = None \<Longrightarrow> br_left (b\<lparr>br_pending := Some p\<rparr>) = Suc (br_left b)"
  by (simp add: br_left_def)

lemma br_rest_pending:
  "br_pending b = None \<Longrightarrow> br_rest F jlen (b\<lparr>br_pending := Some p\<rparr>) = Inl e \<longleftrightarrow> br_rest F jlen b = Inl e"
  by (auto simp: br_defs rbind_def split: sum.splits)

lemma backfill_loop_progress:
  assumes "backfill_loop F jlen br chunk body = (br1, Inr c)" "br_rest F jlen br = Inl e"
  shows "br_rest F jlen br1 = Inl e \<and> c \<noteq> [] \<and> (br_left br1 < br_left br \<or> c = chunk \<and> br_left br1 \<le> br_left br)"
  using assms
proof (induction F jlen br chunk body rule: backfill_loop.induct)
  case (1 F jlen br chunk body)
  obtain b0 res where t: "br_take F jlen br = (b0, res)" by fastforce
  note tc = br_take_cases [OF t]
  from t tc "1.prems" obtain r c0 where res: "res = Inr (Some (r, c0))"
    by (cases res) (auto simp: backfill_loop.simps [of F jlen br] split: option.splits)
  with tc "1.prems"(2) have rest: "br_rest F jlen b0 = Inl e" by (auto simp: rbind_def split: sum.splits)
  have lt: "br_left b0 < br_left br" using br_left_take t res by blast
  let ?cost = "c0 + (if chunk = [] then 0 else 1)"
  show ?case
  proof (cases "chunk_is_full (length chunk) body ?cost (br_budget b0)")
    case True
    with "1.prems"(1) t res have "br1 = b0\<lparr>br_pending := Some (r, ?cost)\<rparr>" "c = chunk"
      by (auto simp: backfill_loop.simps [of F jlen br] Let_def)
    with True tc rest lt show ?thesis by (auto simp: br_left_pending br_rest_pending chunk_is_full_def)
  next
    case False
    with "1.prems"(1) t res have "backfill_loop F jlen b0 (chunk @ [r]) (body + ?cost) = (br1, Inr c)"
      by (auto simp: backfill_loop.simps [of F jlen br] Let_def)
    with "1.IH" [OF t [symmetric] res refl refl refl False] rest lt show ?thesis by auto
  qed
qed

lemma backfill_chunks_error:
  "br_rest F jlen br = Inl e \<Longrightarrow> br_left br < fuel \<Longrightarrow> backfill_chunks fuel F jlen br = Some (Err e)"
proof (induction fuel arbitrary: br)
  case (Suc fuel)
  have ne: "\<not> (br_stream br = None \<and> br_pending br = None)" using Suc.prems(1) by (auto simp: br_defs)
  obtain br0 res where l: "backfill_loop F jlen br [] 2 = (br0, res)" by fastforce
  show ?case
  proof (cases res)
    case (Inl e')
    with backfill_loop_error l Suc.prems(1) have "e' = e" by fastforce
    with l Inl ne show ?thesis by (simp add: backfill_next_chunk_def)
  next
    case (Inr c)
    with backfill_loop_progress [of F jlen br "[]" 2 br0 c e] l Suc.prems(1)
    have p: "br_rest F jlen br0 = Inl e" "c \<noteq> []" "br_left br0 < br_left br" by auto
    let ?br1 = "br0\<lparr>br_rows := br_rows br0 + length c, br_chunks := br_chunks br0 + 1\<rparr>"
    have "br_rest F jlen ?br1 = Inl e" "br_left ?br1 < fuel"
      using p(1,3) Suc.prems(2) by (auto simp: br_defs br_left_def)
    with Suc.IH [of ?br1] l Inr ne p(2) show ?thesis by (auto simp: backfill_next_chunk_def)
  qed
qed simp

lemma map_res_item_rows:
  "map_res (\<lambda>item. rbind item (\<lambda>j. case j of JObj obj \<Rightarrow> row_from_json F ts obj | _ \<Rightarrow> Err RowNotAnObject)) items
   = rbind (map_res (backfill_item F jlen ts frame) items) (\<lambda>rcs. Ok (map fst rcs))"
proof (induction items)
  case (Cons item items)
  have "rbind item (\<lambda>j. case j of JObj obj \<Rightarrow> row_from_json F ts obj | _ \<Rightarrow> Err RowNotAnObject)
      = rbind (backfill_item F jlen ts frame item) (\<lambda>rc. Ok (fst rc))"
    by (auto simp: backfill_item_def rbind_def Let_def split: sum.splits json.splits)
  with Cons.IH show ?case by (auto simp: rbind_def split: sum.splits)
qed simp

text \<open>C39: Reading a backfill snapshot to its end returns every row of the cursor, decoded, exactly once
  and in snapshot order, together with the fences captured when the snapshot opened; when the
  database reports an error or an item does not decode, the read fails with the first such error
  and returns no rows. The result does not depend on the append budget.\<close>

theorem backfill_collect_exact:
  assumes "bc_append_bytes cfg < u64_max" and "length items < fuel"
  shows "collect fuel F jlen (backfill_open_in_txn cfg ts seed_lsn snap items) =
     Some (rbind (map_res (\<lambda>item. rbind item (\<lambda>j. case j of JObj obj \<Rightarrow> row_from_json F ts obj | _ \<Rightarrow> Err RowNotAnObject)) items)
             (\<lambda>rows. Ok (rows, \<lparr>bf_seed_lsn = seed_lsn, bf_gate = gate_parse snap seed_lsn\<rparr>)))"
proof -
  let ?br = "backfill_open_in_txn cfg ts seed_lsn snap items"
  let ?dec = "\<lambda>item. rbind item (\<lambda>j. case j of JObj obj \<Rightarrow> row_from_json F ts obj | _ \<Rightarrow> Err RowNotAnObject)"
  let ?it = "backfill_item F jlen ts (br_frame ?br)"
  have rest: "br_rest F jlen ?br = map_res ?it items"
    by (cases "map_res ?it items") (simp_all add: br_defs backfill_open_in_txn_def)
  have dec: "map_res ?dec items = rbind (map_res ?it items) (\<lambda>rcs. Ok (map fst rcs))"
    by (rule map_res_item_rows)
  show ?thesis
  proof (cases "map_res ?it items")
    case (Inl e)
    have "br_left ?br = length items" by (simp add: br_left_def backfill_open_in_txn_def)
    with backfill_chunks_error [of F jlen ?br e fuel] rest Inl dec assms(2) show ?thesis
      by (simp add: collect_def)
  next
    case (Inr rcs)
    then have "length rcs < fuel" using assms(2) map_res_length by fastforce
    moreover have "br_budget ?br < u64_max" using assms(1) by (simp add: backfill_open_in_txn_def)
    ultimately obtain br1 where "backfill_chunks fuel F jlen ?br =
        Some (Ok (map (map fst) (backfill_pack.pack_all (br_budget ?br) rcs), br1))" "same_source br1 ?br"
      using backfill_chunks_pack [of F jlen ?br rcs fuel] rest Inr by auto
    with Inr dec show ?thesis
      by (simp add: collect_def backfill_pack.pack_all_concat) (simp add: same_source_def backfill_open_in_txn_def)
  qed
qed

theorem backfill_collect_exact_witness:
  "collect 2 exact_f64 (\<lambda>j. 20) (backfill_open_in_txn default_backfill_config ex_schema ''0/10'' ''5:9:7'' []) =
     Some (Ok ([], \<lparr>bf_seed_lsn = ''0/10'', bf_gate = gate_parse ''5:9:7'' ''0/10''\<rparr>))
   \<and> collect 2 exact_f64 (\<lambda>j. 20) (backfill_open_in_txn default_backfill_config ex_schema ''0/10'' ''5:9:7'' [Err (Io ''gone'')]) =
     Some (Err (Io ''gone''))
   \<and> collect 2 exact_f64 (\<lambda>j. 20) (backfill_open_in_txn default_backfill_config ex_schema ''0/10'' ''5:9:7''
        [Ok (JObj (row_to_json ex_schema [VInt 1, VNull, VText ''u'']))]) =
     Some (Ok ([[VInt 1, VNull, VText ''u'']], \<lparr>bf_seed_lsn = ''0/10'', bf_gate = gate_parse ''5:9:7'' ''0/10''\<rparr>))"
proof -
  have b: "bc_append_bytes default_backfill_config < u64_max"
    by (simp add: default_backfill_config_def u64_max_def)
  have rt: "row_from_json exact_f64 ex_schema (row_to_json ex_schema [VInt 1, VNull, VText ''u'']) = Inr [VInt 1, VNull, VText ''u'']"
    using ex_schema_wf ex_rows_typed(1) by (intro row_from_to_json) (simp_all add: schema_wf_def)
  note x = backfill_collect_exact [OF b, of _ 2 exact_f64 "\<lambda>j. 20" ex_schema "''0/10''" "''5:9:7''"]
  show ?thesis using x [of "[]"] x [of "[Err (Io ''gone'')]"]
      x [of "[Ok (JObj (row_to_json ex_schema [VInt 1, VNull, VText ''u'']))]"] by (simp add: rt)
qed

text \<open>The chunks a backfill appends are a split of the snapshot's rows: none is empty, and one that
  holds more than one row fits the append budget, counting the brackets, the commas and each row's
  estimated envelope.\<close>

theorem backfill_chunks_fit:
  assumes "bc_append_bytes cfg < u64_max" and "length items < fuel"
    and "map_res (backfill_item F jlen ts (BACKFILL_ENVELOPE_FRAMING + length (table_as_str (ts_table ts)))) items = Ok rcs"
  shows "\<exists>css br1. backfill_chunks fuel F jlen (backfill_open_in_txn cfg ts seed_lsn snap items) = Some (Ok (map (map fst) css, br1))
           \<and> concat css = rcs
           \<and> (\<forall>cs \<in> set css. cs \<noteq> [] \<and> (length cs = 1 \<or> 2 + sum_list (map snd cs) + (length cs - 1) \<le> bc_append_bytes cfg))"
proof -
  let ?br = "backfill_open_in_txn cfg ts seed_lsn snap items"
  have "br_rest F jlen ?br = Inr rcs" using assms(3) by (simp add: br_defs backfill_open_in_txn_def)
  moreover have "br_budget ?br = bc_append_bytes cfg" by (simp add: backfill_open_in_txn_def)
  moreover have "length rcs < fuel" using assms(2,3) map_res_length by fastforce
  ultimately obtain br1 where c: "backfill_chunks fuel F jlen ?br =
      Some (Ok (map (map fst) (backfill_pack.pack_all (bc_append_bytes cfg) rcs), br1))"
    using backfill_chunks_pack [of F jlen ?br rcs fuel] assms(1) by auto
  from backfill_pack.pack_all_split [OF backfill_pack.dearer_refl, of rcs "bc_append_bytes cfg"] c show ?thesis
    unfolding backfill_pack.body_size_def by metis
qed

theorem backfill_chunks_fit_witness:
  "\<exists>(css :: (row \<times> nat) list list) br1. backfill_chunks 3 exact_f64 (\<lambda>j. 20) (backfill_open_in_txn default_backfill_config ex_schema ''0/10'' ''5:9:7''
       (replicate 2 (Ok (JObj (row_to_json ex_schema [VInt 1, VNull, VText ''u'']))))) =
     Some (Ok (map (map fst) css, br1)) \<and> map fst (concat css) = replicate 2 [VInt 1, VNull, VText ''u'']"
proof -
  let ?r = "[VInt 1, VNull, VText ''u'']"
  let ?frame = "BACKFILL_ENVELOPE_FRAMING + length (table_as_str (ts_table ex_schema))"
  let ?cost = "20 + (case key_string exact_f64 ex_schema ?r of Inl _ \<Rightarrow> 0 | Inr k \<Rightarrow> length k) + ?frame"
  have rt: "row_from_json exact_f64 ex_schema (row_to_json ex_schema ?r) = Inr ?r"
    using ex_schema_wf ex_rows_typed(1) by (intro row_from_to_json) (simp_all add: schema_wf_def)
  have "map_res (backfill_item exact_f64 (\<lambda>j. 20) ex_schema ?frame) (replicate 2 (Ok (JObj (row_to_json ex_schema ?r)))) =
      Inr (replicate 2 (?r, ?cost))"
    by (simp add: backfill_item_def rt numeral_2_eq_2 Let_def)
  from backfill_chunks_fit [OF _ _ this, of default_backfill_config 3 "''0/10''" "''5:9:7''"] obtain css br1 where
    "backfill_chunks 3 exact_f64 (\<lambda>j. 20) (backfill_open_in_txn default_backfill_config ex_schema ''0/10'' ''5:9:7''
       (replicate 2 (Ok (JObj (row_to_json ex_schema ?r))))) = Some (Ok (map (map fst) css, br1))"
    "concat css = replicate 2 (?r, ?cost)"
    by (auto simp: default_backfill_config_def u64_max_def)
  then have "backfill_chunks 3 exact_f64 (\<lambda>j. 20) (backfill_open_in_txn default_backfill_config ex_schema ''0/10'' ''5:9:7''
       (replicate 2 (Ok (JObj (row_to_json ex_schema ?r))))) = Some (Ok (map (map fst) css, br1))
      \<and> map fst (concat css) = replicate 2 ?r" by simp
  then show ?thesis by blast
qed

end
