(* ===== verification/Streams.thy ===== *)
theory Streams
  imports PgGate
begin

text \<open>
  The storage side: the identity and namespace of the durable-streams store
  (\<^verbatim>\<open>apps/engine/src/store_identity.rs\<close>) and the client that interprets its answers
  (\<^verbatim>\<open>ds.rs\<close>, \<open>DsClient\<close>). The store itself is behind the port \<open>DurableStreamStore\<close>: here a record of
  single-attempt operations on a state of any type, each answering with a status or a transport
  error. What the engine relies on of a store is the locale \<open>durable_store\<close>, stated over a view of
  its streams: effects happen at most once per request, an answer is never claimed for an effect
  that did not happen, and an error leaves open whether the effect happened.
\<close>

section \<open>Identity and scope\<close>

definition IDENTIFIER_MIN :: nat where "IDENTIFIER_MIN = 3"
definition IDENTIFIER_MAX :: nat where "IDENTIFIER_MAX = 48"

definition is_ascii_lowercase :: "char \<Rightarrow> bool" where
  "is_ascii_lowercase c = (let n = code_of c in 97 \<le> n \<and> n \<le> 122)"

definition is_ascii_alphanumeric :: "char \<Rightarrow> bool" where
  "is_ascii_alphanumeric c =
     (let n = code_of c in (97 \<le> n \<and> n \<le> 122) \<or> (65 \<le> n \<and> n \<le> 90) \<or> (48 \<le> n \<and> n \<le> 57))"

text \<open>On the bytes of the value; a value that passes is ASCII.\<close>

definition validate_identifier :: "string \<Rightarrow> string \<Rightarrow> unit result" where
  "validate_identifier name v =
     (if \<not> (IDENTIFIER_MIN \<le> utf8_len v \<and> utf8_len v \<le> IDENTIFIER_MAX)
         \<or> \<not> (v \<noteq> [] \<and> is_ascii_lowercase (hd v)) \<or> \<not> (v \<noteq> [] \<and> is_ascii_alphanumeric (last v))
         \<or> \<not> list_all (\<lambda>b. is_ascii_lowercase b \<or> is_ascii_digit b \<or> b = CHR ''-'') v
      then Err (Other name) else Ok ())"

definition validate_logical_path :: "string \<Rightarrow> unit result" where
  "validate_logical_path path =
     (if path = [] \<or> hd path = CHR ''/'' \<or> CHR 0x5C \<in> set path \<or> CHR ''?'' \<in> set path
         \<or> CHR 0x23 \<in> set path \<or> CHR ''%'' \<in> set path
      then Err (Other path)
      else if list_ex (\<lambda>c. c = [] \<or> c = ''.'' \<or> c = ''..'') (split_char (CHR ''/'') path)
      then Err (Other path) else Ok ())"

text \<open>\<open>Uuid::parse_str\<close> followed by \<open>hyphenated().to_string()\<close> is the library's canonical form.\<close>

definition validate_canonical_uuid :: "(string \<Rightarrow> string option) \<Rightarrow> string \<Rightarrow> string \<Rightarrow> unit result" where
  "validate_canonical_uuid uuid_canon name v =
     (case uuid_canon v of
        None \<Rightarrow> Err (Other name)
      | Some c \<Rightarrow> if c \<noteq> v then Err (Other name) else Ok ())"

record store_identity =
  si_store_id :: string
  si_store_generation :: string
  si_protocol_version :: nat
  si_layout_version :: nat
  si_durability_mode :: string
  si_wal_shard_count :: nat
  si_stream_lane_count :: nat
  si_filesystem_uuid :: string

definition store_identity_new :: "(string \<Rightarrow> string option) \<Rightarrow> store_identity \<Rightarrow> store_identity result" where
  "store_identity_new uuid_canon i =
     rbind (validate_canonical_uuid uuid_canon ''store_id'' (si_store_id i)) (\<lambda>_.
     rbind (validate_canonical_uuid uuid_canon ''store_generation'' (si_store_generation i)) (\<lambda>_.
     rbind (validate_canonical_uuid uuid_canon ''filesystem_uuid'' (si_filesystem_uuid i)) (\<lambda>_.
     if si_protocol_version i = 0 then Err (Other ''protocol_version'')
     else if si_layout_version i = 0 then Err (Other ''layout_version'')
     else if si_durability_mode i \<noteq> ''wal'' then Err (Other ''durability_mode'')
     else if si_wal_shard_count i = 0 then Err (Other ''wal_shard_count'')
     else if si_stream_lane_count i = 0 then Err (Other ''stream_lane_count'')
     else Ok i)))"

record stream_scope =
  sc_stack_namespace :: string
  sc_store :: store_identity
  sc_query_generation :: string

definition scope_new :: "string \<Rightarrow> store_identity \<Rightarrow> string \<Rightarrow> stream_scope result" where
  "scope_new ns store qg =
     rbind (validate_identifier ''stack_namespace'' ns) (\<lambda>_.
     rbind (validate_identifier ''query_generation'' qg) (\<lambda>_.
     Ok \<lparr>sc_stack_namespace = ns, sc_store = store, sc_query_generation = qg\<rparr>))"

definition qualify :: "stream_scope \<Rightarrow> string \<Rightarrow> string result" where
  "qualify scope path =
     rbind (validate_logical_path path) (\<lambda>_.
     Ok (''circuits/v1/'' @ sc_stack_namespace scope @ ''/stores/'' @ si_store_generation (sc_store scope) @
         ''/queries/'' @ sc_query_generation scope @ ''/'' @ path))"

record store_bound =
  sb_store :: store_identity
  sb_stack_namespace :: string
  sb_ingest_epoch :: string
  sb_query_generation :: string

definition coupled_v1 :: "stream_scope \<Rightarrow> store_bound" where
  "coupled_v1 scope =
     \<lparr>sb_store = sc_store scope, sb_stack_namespace = sc_stack_namespace scope, sb_ingest_epoch = ''coupled-v1'',
      sb_query_generation = sc_query_generation scope\<rparr>"

section \<open>The client\<close>

record store_response =
  rs_status :: nat
  rs_next_offset :: "string option"
  rs_closed :: bool

text \<open>The port: one attempt per call. The size of a serialised batch belongs to the JSON codec.\<close>

record 's stream_store =
  ss_ensure :: "string \<Rightarrow> 's \<Rightarrow> 's \<times> store_response result"
  ss_append :: "string \<Rightarrow> envelope list \<Rightarrow> 's \<Rightarrow> 's \<times> store_response result"
  ss_head :: "string \<Rightarrow> 's \<Rightarrow> 's \<times> store_response result"
  ss_close :: "string \<Rightarrow> 's \<Rightarrow> 's \<times> store_response result"
  ss_delete :: "string \<Rightarrow> 's \<Rightarrow> 's \<times> store_response result"
  ss_payload_len :: "envelope list \<Rightarrow> nat"

record 's ds_client =
  dc_scope :: stream_scope
  dc_srv :: 's
  dc_appended :: "string \<Rightarrow> nat"

record stream_head =
  sh_next_offset :: "string option"
  sh_closed :: bool

datatype appended = Appended "string option" | Retired nat

datatype append_error = Gone nat | AppendOther error

datatype gone_verdict = Discard | Retry

definition success :: "nat \<Rightarrow> bool" where "success status \<longleftrightarrow> 200 \<le> status \<and> status < 300"

text \<open>A 5xx answer and a transport failure are \<open>Io\<close>: the failures that may clear on their own.\<close>

definition status_error :: "string \<Rightarrow> string \<Rightarrow> nat \<Rightarrow> error" where
  "status_error op path status = (if 500 \<le> status \<and> status < 600 then Io path else Other path)"

definition is_unavailable :: "error \<Rightarrow> bool" where
  "is_unavailable e = (case e of Io _ \<Rightarrow> True | _ \<Rightarrow> False)"

text \<open>One request: qualify the path, ask the store, interpret the response.\<close>

definition request ::
  "(string \<Rightarrow> 's \<Rightarrow> 's \<times> store_response result) \<Rightarrow> string \<Rightarrow> 's ds_client \<Rightarrow> (store_response \<Rightarrow> 'r result) \<Rightarrow> 's ds_client \<times> 'r result"
where
  "request op path c interp =
     (case qualify (dc_scope c) path of
        Inl e \<Rightarrow> (c, Err e)
      | Inr p \<Rightarrow>
          (case op p (dc_srv c) of
             (s, Inl e) \<Rightarrow> (c\<lparr>dc_srv := s\<rparr>, Err e)
           | (s, Inr res) \<Rightarrow> (c\<lparr>dc_srv := s\<rparr>, interp res)))"

definition ensure_stream :: "'s stream_store \<Rightarrow> string \<Rightarrow> 's ds_client \<Rightarrow> 's ds_client \<times> unit result" where
  "ensure_stream S path c =
     request (ss_ensure S) path c (\<lambda>res.
       if success (rs_status res) then Ok () else Err (status_error ''PUT'' path (rs_status res)))"

definition append_once ::
  "'s stream_store \<Rightarrow> string \<Rightarrow> envelope list \<Rightarrow> 's ds_client \<Rightarrow> 's ds_client \<times> (append_error + string option)" where
  "append_once S path envs c =
     (if envs = [] then (c, Inr None)
      else (case qualify (dc_scope c) path of
              Inl e \<Rightarrow> (c, Inl (AppendOther e))
            | Inr p \<Rightarrow>
                (case ss_append S p envs (dc_srv c) of
                   (s, Inl e) \<Rightarrow> (c\<lparr>dc_srv := s\<rparr>, Inl (AppendOther e))
                 | (s, Inr res) \<Rightarrow>
                     if success (rs_status res)
                     then (c\<lparr>dc_srv := s, dc_appended := (dc_appended c)(path := dc_appended c path + ss_payload_len S envs)\<rparr>,
                           Inr (rs_next_offset res))
                     else if rs_status res = 404 \<or> rs_status res = 410 \<or> (rs_status res = 409 \<and> rs_closed res)
                     then (c\<lparr>dc_srv := s\<rparr>, Inl (Gone (rs_status res)))
                     else (c\<lparr>dc_srv := s\<rparr>, Inl (AppendOther (status_error ''POST'' path (rs_status res)))))))"

definition append_envs :: "'s stream_store \<Rightarrow> string \<Rightarrow> envelope list \<Rightarrow> 's ds_client \<Rightarrow> 's ds_client \<times> unit result" where
  "append_envs S path envs c =
     (case append_once S path envs c of
        (c1, Inr _) \<Rightarrow> (c1, Ok ())
      | (c1, Inl (Gone status)) \<Rightarrow> (c1, Err (Other path))
      | (c1, Inl (AppendOther e)) \<Rightarrow> (c1, Err e))"

definition append_checked ::
  "'s stream_store \<Rightarrow> string \<Rightarrow> envelope list \<Rightarrow> 's ds_client \<Rightarrow> 's ds_client \<times> appended result" where
  "append_checked S path envs c =
     (case append_once S path envs c of
        (c1, Inr off) \<Rightarrow> (c1, Ok (Appended off))
      | (c1, Inl (Gone status)) \<Rightarrow> (c1, Ok (Retired status))
      | (c1, Inl (AppendOther e)) \<Rightarrow> (c1, Err e))"

text \<open>The reliable append retries for ever; fuel counts its attempts. The reconciler is the engine's,
  and is absent in a bare client.\<close>

fun append_reliable ::
  "nat \<Rightarrow> 's stream_store \<Rightarrow> (string \<Rightarrow> 's \<Rightarrow> 's \<times> gone_verdict) option \<Rightarrow> string \<Rightarrow> envelope list \<Rightarrow> 's ds_client
   \<Rightarrow> ('s ds_client \<times> bool) option" where
  "append_reliable 0 S reconcile path envs c = None"
| "append_reliable (Suc n) S reconcile path envs c =
     (case append_once S path envs c of
        (c1, Inr _) \<Rightarrow> Some (c1, True)
      | (c1, Inl (Gone status)) \<Rightarrow>
          (case reconcile of
             None \<Rightarrow> Some (c1, False)
           | Some rec \<Rightarrow>
               (case rec path (dc_srv c1) of
                  (s, Discard) \<Rightarrow> Some (c1\<lparr>dc_srv := s\<rparr>, False)
                | (s, Retry) \<Rightarrow> append_reliable n S reconcile path envs (c1\<lparr>dc_srv := s\<rparr>)))
      | (c1, Inl (AppendOther e)) \<Rightarrow> append_reliable n S reconcile path envs c1)"

definition close_stream :: "'s stream_store \<Rightarrow> string \<Rightarrow> 's ds_client \<Rightarrow> 's ds_client \<times> unit result" where
  "close_stream S path c =
     request (ss_close S) path c (\<lambda>res.
       if success (rs_status res) \<or> rs_status res = 404 \<or> rs_status res = 410 then Ok () else Err (Other path))"

definition delete_stream :: "'s stream_store \<Rightarrow> string \<Rightarrow> 's ds_client \<Rightarrow> 's ds_client \<times> unit result" where
  "delete_stream S path c =
     (case request (ss_delete S) path c (\<lambda>res.
             if success (rs_status res) \<or> rs_status res = 404 \<or> rs_status res = 410 then Ok () else Err (Other path)) of
        (c1, Inr _) \<Rightarrow> (c1\<lparr>dc_appended := (dc_appended c1)(path := 0)\<rparr>, Ok ())
      | (c1, Inl e) \<Rightarrow> (c1, Err e))"

definition retire_stream :: "'s stream_store \<Rightarrow> string \<Rightarrow> 's ds_client \<Rightarrow> 's ds_client \<times> unit result" where
  "retire_stream S path c = delete_stream S path (fst (close_stream S path c))"

definition head_stream :: "'s stream_store \<Rightarrow> string \<Rightarrow> 's ds_client \<Rightarrow> 's ds_client \<times> stream_head option result" where
  "head_stream S path c =
     request (ss_head S) path c (\<lambda>res.
       if rs_status res = 404 \<or> rs_status res = 410 then Ok None
       else if \<not> success (rs_status res) then Err (status_error ''HEAD'' path (rs_status res))
       else Ok (Some \<lparr>sh_next_offset = rs_next_offset res, sh_closed = rs_closed res\<rparr>))"

text \<open>The restore-time append: retries what may clear, asks \<open>HEAD\<close> about a terminal answer, and gives
  up at the deadline or on shutdown. The clock and the shutdown token answer per attempt.\<close>

fun append_retrying ::
  "nat \<Rightarrow> 's stream_store \<Rightarrow> (nat \<Rightarrow> bool) \<Rightarrow> (nat \<Rightarrow> bool) \<Rightarrow> nat \<Rightarrow> string \<Rightarrow> envelope list \<Rightarrow> 's ds_client
   \<Rightarrow> ('s ds_client \<times> unit result) option" where
  "append_retrying 0 S expired stopping attempt path envs c = None"
| "append_retrying (Suc n) S expired stopping attempt path envs c =
     (let again = (\<lambda>c2 e.
            if expired (attempt + 1) then Some (c2, Err e)
            else if stopping (attempt + 1) then Some (c2, Err e)
            else append_retrying n S expired stopping (attempt + 1) path envs c2)
      in case append_checked S path envs c of
           (c1, Inr (Appended _)) \<Rightarrow> Some (c1, Ok ())
         | (c1, Inr (Retired status)) \<Rightarrow>
             (case head_stream S path c1 of
                (c2, Inr (Some h)) \<Rightarrow> if sh_closed h then Some (c2, Err (Other path)) else again c2 (Other path)
              | (c2, Inr None) \<Rightarrow> Some (c2, Err (Other path))
              | (c2, Inl he) \<Rightarrow> again c2 (Other path))
         | (c1, Inl e) \<Rightarrow>
             if \<not> is_unavailable e then Some (c1, Err e)
             else (case head_stream S path c1 of
                     (c2, Inr None) \<Rightarrow> Some (c2, Err e)
                   | (c2, _) \<Rightarrow> again c2 e))"

section \<open>Logical paths and scopes\<close>

lemma append_sep_inj:
  "(d :: char) \<notin> set a \<Longrightarrow> d \<notin> set a' \<Longrightarrow> a @ d # b = a' @ d # b' \<longleftrightarrow> a = a' \<and> b = b'"
  using split_once_append [of d a b] split_once_append [of d a' b'] by (metis option.inject prod.inject)

lemma identifier_no_slash: "validate_identifier n v = Inr u \<Longrightarrow> CHR ''/'' \<notin> set v"
  by (auto simp: validate_identifier_def is_ascii_lowercase_def is_ascii_digit_def code_of_def list_all_iff Let_def
      split: if_splits)

definition scope_ok :: "stream_scope \<Rightarrow> bool" where
  "scope_ok scope \<longleftrightarrow> CHR ''/'' \<notin> set (sc_stack_namespace scope)
     \<and> CHR ''/'' \<notin> set (si_store_generation (sc_store scope)) \<and> CHR ''/'' \<notin> set (sc_query_generation scope)"

lemma qualify_eq_iff:
  assumes "scope_ok a" "scope_ok b" "validate_logical_path p = Inr ()" "validate_logical_path q = Inr ()"
  shows "qualify a p = qualify b q \<longleftrightarrow> sc_stack_namespace a = sc_stack_namespace b
     \<and> si_store_generation (sc_store a) = si_store_generation (sc_store b)
     \<and> sc_query_generation a = sc_query_generation b \<and> p = q"
  using assms by (auto simp: qualify_def scope_ok_def append_sep_inj)

text \<open>Namespaces never overlap. Two scopes built from validated identifiers and canonical store
  identities map two accepted logical paths to the same physical path only if the namespace, the
  store generation, the query generation and the logical path all agree. The hypothesis on the
  UUID library is that a canonical UUID has no slash.\<close>

theorem qualify_isolates:
  assumes "\<forall>u v. uuid_canon u = Some v \<longrightarrow> CHR ''/'' \<notin> set v"
    and "store_identity_new uuid_canon i = Ok a" and "scope_new ns a qg = Ok sa"
    and "store_identity_new uuid_canon j = Ok b" and "scope_new ns' b qg' = Ok sb"
    and "qualify sa p = Ok x" and "qualify sb q = Ok x"
  shows "ns = ns' \<and> si_store_generation i = si_store_generation j \<and> qg = qg' \<and> p = q"
proof -
  have gen: "CHR ''/'' \<notin> set (si_store_generation k) \<and> k' = k" if "store_identity_new uuid_canon k = Ok k'" for k k'
    using that assms(1)
    by (auto simp: store_identity_new_def validate_canonical_uuid_def res_simps split: if_splits option.splits)
  have "scope_ok sa \<and> sc_stack_namespace sa = ns \<and> sc_query_generation sa = qg \<and> sc_store sa = i"
    using assms(3) gen [OF assms(2)] by (auto simp: scope_new_def scope_ok_def res_simps dest: identifier_no_slash)
  moreover have "scope_ok sb \<and> sc_stack_namespace sb = ns' \<and> sc_query_generation sb = qg' \<and> sc_store sb = j"
    using assms(5) gen [OF assms(4)] by (auto simp: scope_new_def scope_ok_def res_simps dest: identifier_no_slash)
  moreover have "validate_logical_path p = Inr ()" "validate_logical_path q = Inr ()"
    using assms(6,7) by (auto simp: qualify_def res_simps)
  ultimately show ?thesis using qualify_eq_iff [of sa sb p q] assms(6,7) by simp
qed

definition ex_identity :: store_identity where
  "ex_identity = \<lparr>si_store_id = ''a'', si_store_generation = ''b'', si_protocol_version = 1, si_layout_version = 1,
     si_durability_mode = ''wal'', si_wal_shard_count = 2, si_stream_lane_count = 1, si_filesystem_uuid = ''c''\<rparr>"

definition ex_scope :: stream_scope where
  "ex_scope = \<lparr>sc_stack_namespace = ''test-stack'', sc_store = ex_identity, sc_query_generation = ''test-query''\<rparr>"

lemma ex_scope_ok: "scope_ok ex_scope"
  by (simp add: scope_ok_def ex_scope_def ex_identity_def)

theorem qualify_isolates_witness:
  "qualify ex_scope ''changes/0'' = Ok ''circuits/v1/test-stack/stores/b/queries/test-query/changes/0''
   \<and> ''test-stack'' = sc_stack_namespace ex_scope"
proof -
  let ?uc = "\<lambda>u. if u \<in> {''a'', ''b'', ''c''} then Some u else None"
  have 1: "store_identity_new ?uc ex_identity = Ok ex_identity"
    by (simp add: store_identity_new_def validate_canonical_uuid_def ex_identity_def)
  have 2: "scope_new ''test-stack'' ex_identity ''test-query'' = Ok ex_scope"
    by (simp add: scope_new_def validate_identifier_def ex_scope_def IDENTIFIER_MIN_def IDENTIFIER_MAX_def utf8_len_def
        is_ascii_lowercase_def is_ascii_alphanumeric_def code_of_def)
  have 3: "qualify ex_scope ''changes/0'' = Ok ''circuits/v1/test-stack/stores/b/queries/test-query/changes/0''"
    by (simp add: qualify_def validate_logical_path_def ex_scope_def ex_identity_def)
  from qualify_isolates [OF _ 1 2 1 2 3 3] 3 show ?thesis by (simp add: ex_scope_def)
qed

section \<open>What the engine relies on of a store\<close>

type_synonym streams = "string \<Rightarrow> (envelope list \<times> bool) option"

text \<open>The stream a logical path names, through the client's scope.\<close>

definition stream_at :: "('s \<Rightarrow> streams) \<Rightarrow> 's ds_client \<Rightarrow> string \<Rightarrow> (envelope list \<times> bool) option" where
  "stream_at view c path = (case qualify (dc_scope c) path of Inr p \<Rightarrow> view (dc_srv c) p | Inl _ \<Rightarrow> None)"

text \<open>Only the stream at \<open>path\<close> may differ, and it becomes \<open>v\<close>.\<close>

definition only_changes :: "('s \<Rightarrow> streams) \<Rightarrow> string \<Rightarrow> (envelope list \<times> bool) option \<Rightarrow> 's ds_client \<Rightarrow> 's ds_client \<Rightarrow> bool" where
  "only_changes view path v c c' \<longleftrightarrow> dc_scope c' = dc_scope c
     \<and> (\<exists>p. qualify (dc_scope c) path = Inr p \<and> view (dc_srv c') = (view (dc_srv c))(p := v))"

definition unchanged :: "('s \<Rightarrow> streams) \<Rightarrow> 's ds_client \<Rightarrow> 's ds_client \<Rightarrow> bool" where
  "unchanged view c c' \<longleftrightarrow> dc_scope c' = dc_scope c \<and> view (dc_srv c') = view (dc_srv c)"

text \<open>\<open>view\<close> is the content of the store: for each physical path the items of the stream and whether it
  is closed. A request that was answered with an error may or may not have taken effect; a terminal
  answer to an append took none; deletion and closing are the only ways a stream ends.\<close>

locale durable_store =
  fixes S :: "'s stream_store" and view :: "'s \<Rightarrow> streams"
  assumes ensure_effect: "ss_ensure S p s = (s', r) \<Longrightarrow>
      view s' = view s \<or> (view s p = None \<and> view s' = (view s)(p \<mapsto> ([], False)))"
    and ensure_ok: "ss_ensure S p s = (s', Inr res) \<Longrightarrow> success (rs_status res) \<Longrightarrow> view s' p \<noteq> None"
    and append_effect: "ss_append S p envs s = (s', r) \<Longrightarrow>
      view s' = view s \<or> (\<exists>es. view s p = Some (es, False) \<and> view s' = (view s)(p \<mapsto> (es @ envs, False)))"
    and append_ok: "ss_append S p envs s = (s', Inr res) \<Longrightarrow> success (rs_status res) \<Longrightarrow>
      \<exists>es. view s p = Some (es, False) \<and> view s' = (view s)(p \<mapsto> (es @ envs, False))"
    and append_gone: "ss_append S p envs s = (s', Inr res) \<Longrightarrow> rs_status res \<in> {404, 409, 410} \<Longrightarrow> view s' = view s"
    and close_effect: "ss_close S p s = (s', r) \<Longrightarrow>
      view s' = view s \<or> (\<exists>es. view s p = Some (es, False) \<and> view s' = (view s)(p \<mapsto> (es, True)))"
    and close_ok: "ss_close S p s = (s', Inr res) \<Longrightarrow> success (rs_status res) \<Longrightarrow> \<exists>es. view s' p = Some (es, True)"
    and close_gone: "ss_close S p s = (s', Inr res) \<Longrightarrow> rs_status res \<in> {404, 410} \<Longrightarrow> view s p = None"
    and head_effect: "ss_head S p s = (s', r) \<Longrightarrow> view s' = view s"
    and head_ok: "ss_head S p s = (s', Inr res) \<Longrightarrow> success (rs_status res) \<Longrightarrow> \<exists>es. view s p = Some (es, rs_closed res)"
    and head_gone: "ss_head S p s = (s', Inr res) \<Longrightarrow> rs_status res \<in> {404, 410} \<Longrightarrow> view s p = None"
    and delete_effect: "ss_delete S p s = (s', r) \<Longrightarrow> view s' = view s \<or> view s' = (view s)(p := None)"
    and delete_ok: "ss_delete S p s = (s', Inr res) \<Longrightarrow> success (rs_status res) \<or> rs_status res \<in> {404, 410} \<Longrightarrow>
      view s' p = None"
begin

lemma unchanged_refl [simp]: "unchanged view c c"
  by (simp add: unchanged_def)

lemma unchanged_stream: "unchanged view c c' \<Longrightarrow> stream_at view c' path = stream_at view c path"
  by (simp add: unchanged_def stream_at_def split: sum.splits)

lemma only_changes_stream:
  assumes "only_changes view path v c c'" and "scope_ok (dc_scope c)"
  shows "stream_at view c' q = (if q = path then v else stream_at view c q)"
proof -
  from assms(1) obtain p where p: "qualify (dc_scope c) path = Inr p" "dc_scope c' = dc_scope c"
    "view (dc_srv c') = (view (dc_srv c))(p := v)" by (auto simp: only_changes_def)
  show ?thesis
  proof (cases "qualify (dc_scope c) q")
    case (Inl e)
    with p show ?thesis by (auto simp: stream_at_def)
  next
    case (Inr x)
    with p(1) have "x = p \<longleftrightarrow> q = path"
      using qualify_eq_iff [OF assms(2) assms(2), of q path] by (auto simp: qualify_def res_simps)
    with p Inr show ?thesis by (simp add: stream_at_def)
  qed
qed

lemma ensure_cases:
  assumes "ensure_stream S path c = (c', r)"
  shows "(unchanged view c c' \<or> stream_at view c path = None \<and> only_changes view path (Some ([], False)) c c')
     \<and> (r = Inr () \<longrightarrow> stream_at view c' path \<noteq> None)"
proof (cases "qualify (dc_scope c) path")
  case (Inr p)
  obtain s res where e: "ss_ensure S p (dc_srv c) = (s, res)" by fastforce
  with assms Inr have c': "dc_srv c' = s" "dc_scope c' = dc_scope c"
    and r: "r = Inr () \<Longrightarrow> \<exists>x. res = Inr x \<and> success (rs_status x)"
    by (auto simp: ensure_stream_def request_def split: sum.splits if_splits)
  have "unchanged view c c' \<or> stream_at view c path = None \<and> only_changes view path (Some ([], False)) c c'"
    using ensure_effect [OF e] c' Inr by (auto simp: unchanged_def only_changes_def stream_at_def)
  moreover have "stream_at view c' path \<noteq> None" if "r = Inr ()"
    using r [OF that] e ensure_ok c' Inr by (metis stream_at_def sum.case(2))
  ultimately show ?thesis by blast
qed (use assms in \<open>auto simp: ensure_stream_def request_def\<close>)

lemma head_cases:
  assumes "head_stream S path c = (c', r)"
  shows "unchanged view c c' \<and> (case r of
     Inl e \<Rightarrow> True | Inr None \<Rightarrow> stream_at view c path = None | Inr (Some h) \<Rightarrow> \<exists>es. stream_at view c path = Some (es, sh_closed h))"
proof (cases "qualify (dc_scope c) path")
  case (Inr p)
  obtain s res where e: "ss_head S p (dc_srv c) = (s, res)" by fastforce
  with head_effect [OF e] head_ok head_gone assms Inr show ?thesis
    by (auto simp: head_stream_def request_def unchanged_def stream_at_def split: sum.splits if_splits)
qed (use assms in \<open>auto simp: head_stream_def request_def\<close>)

lemma close_cases:
  assumes "close_stream S path c = (c', r)"
  shows "(unchanged view c c' \<or> (\<exists>es. stream_at view c path = Some (es, False) \<and> only_changes view path (Some (es, True)) c c'))
     \<and> (r = Inr () \<longrightarrow> stream_at view c path = None \<or> (\<exists>es. stream_at view c' path = Some (es, True)))"
proof (cases "qualify (dc_scope c) path")
  case (Inr p)
  obtain s res where e: "ss_close S p (dc_srv c) = (s, res)" by fastforce
  with assms Inr have c': "dc_srv c' = s" "dc_scope c' = dc_scope c"
    and r: "r = Inr () \<Longrightarrow> \<exists>x. res = Inr x \<and> (success (rs_status x) \<or> rs_status x \<in> {404, 410})"
    by (auto simp: close_stream_def request_def split: sum.splits if_splits)
  have "(unchanged view c c' \<or> (\<exists>es. stream_at view c path = Some (es, False) \<and> only_changes view path (Some (es, True)) c c'))"
    using close_effect [OF e] c' Inr by (auto simp: unchanged_def only_changes_def stream_at_def)
  moreover have "stream_at view c path = None \<or> (\<exists>es. stream_at view c' path = Some (es, True))" if "r = Inr ()"
    using r [OF that] e close_ok close_gone c' Inr by (auto simp: stream_at_def)
  ultimately show ?thesis by blast
qed (use assms in \<open>auto simp: close_stream_def request_def\<close>)

lemma append_once_cases:
  assumes "append_once S path envs c = (c', r)" and "envs \<noteq> []"
  shows "(unchanged view c c' \<or> (\<exists>es. stream_at view c path = Some (es, False) \<and> only_changes view path (Some (es @ envs, False)) c c'))
     \<and> (case r of
          Inr off \<Rightarrow> \<exists>es. stream_at view c path = Some (es, False) \<and> only_changes view path (Some (es @ envs, False)) c c'
        | Inl (Gone st) \<Rightarrow> unchanged view c c'
        | Inl (AppendOther e) \<Rightarrow> True)"
proof (cases "qualify (dc_scope c) path")
  case (Inr p)
  obtain s res where e: "ss_append S p envs (dc_srv c) = (s, res)" by fastforce
  with append_effect [OF e] append_ok append_gone assms Inr show ?thesis
    by (auto simp: append_once_def unchanged_def only_changes_def stream_at_def split: sum.splits if_splits)
qed (use assms in \<open>auto simp: append_once_def\<close>)

end

section \<open>A reference store\<close>

text \<open>A store that keeps its streams in memory and follows a script of faults: a request is served, is
  lost before it takes effect, or takes effect and its reply is lost. An empty script serves
  everything.\<close>

datatype fault_kind = Serve | LostRequest | LostReply

record mem_state =
  ms_streams :: streams
  ms_script :: "fault_kind list"

definition mem_op :: "(streams \<Rightarrow> streams \<times> store_response) \<Rightarrow> mem_state \<Rightarrow> mem_state \<times> store_response result" where
  "mem_op f s =
     (let k = (case ms_script s of [] \<Rightarrow> Serve | k # _ \<Rightarrow> k);
          s1 = s\<lparr>ms_script := tl (ms_script s)\<rparr>;
          (m, res) = f (ms_streams s)
      in case k of
           Serve \<Rightarrow> (s1\<lparr>ms_streams := m\<rparr>, Ok res)
         | LostRequest \<Rightarrow> (s1, Err (Io ''connection refused''))
         | LostReply \<Rightarrow> (s1\<lparr>ms_streams := m\<rparr>, Err (Io ''timeout'')))"

definition answer :: "nat \<Rightarrow> bool \<Rightarrow> store_response" where
  "answer status cl = \<lparr>rs_status = status, rs_next_offset = None, rs_closed = cl\<rparr>"

definition mem_store :: "mem_state stream_store" where
  "mem_store =
     \<lparr>ss_ensure = (\<lambda>p. mem_op (\<lambda>m. case m p of None \<Rightarrow> (m(p \<mapsto> ([], False)), answer 201 False) | Some (_, cl) \<Rightarrow> (m, answer 200 cl))),
      ss_append = (\<lambda>p envs. mem_op (\<lambda>m. case m p of
          None \<Rightarrow> (m, answer 404 False)
        | Some (es, cl) \<Rightarrow> if cl then (m, answer 409 True) else (m(p \<mapsto> (es @ envs, False)), answer 204 False))),
      ss_head = (\<lambda>p. mem_op (\<lambda>m. case m p of None \<Rightarrow> (m, answer 404 False) | Some (_, cl) \<Rightarrow> (m, answer 200 cl))),
      ss_close = (\<lambda>p. mem_op (\<lambda>m. case m p of None \<Rightarrow> (m, answer 404 False) | Some (es, _) \<Rightarrow> (m(p \<mapsto> (es, True)), answer 204 True))),
      ss_delete = (\<lambda>p. mem_op (\<lambda>m. (m(p := None), answer 204 False))),
      ss_payload_len = length\<rparr>"

lemma mem_op_cases:
  "mem_op f s = (s', r) \<Longrightarrow> (ms_streams s' = ms_streams s \<and> \<not> is_ok r)
     \<or> (ms_streams s' = fst (f (ms_streams s)) \<and> (r = Ok (snd (f (ms_streams s))) \<or> \<not> is_ok r))"
  by (auto simp: mem_op_def Let_def split: prod.splits fault_kind.splits)

interpretation mem: durable_store mem_store ms_streams
proof unfold_locales
qed (auto simp: mem_store_def answer_def success_def fun_upd_idem dest!: mem_op_cases
    split: option.splits if_splits prod.splits)

section \<open>The reliable append\<close>

definition repeat_batch :: "nat \<Rightarrow> 'a list \<Rightarrow> 'a list" where
  "repeat_batch k envs = concat (replicate k envs)"

lemma repeat_batch_simps [simp]:
  "repeat_batch 0 envs = []" "repeat_batch (Suc k) envs = envs @ repeat_batch k envs"
  by (simp_all add: repeat_batch_def)

context durable_store
begin

lemma append_reliable_appends:
  assumes "append_reliable fuel S reconcile path envs c = Some (c', landed)" and "envs \<noteq> []"
    and "scope_ok (dc_scope c)" and "stream_at view c path = Some (es, False)"
    and "\<forall>rec s s'. reconcile = Some rec \<longrightarrow> rec path s = (s', Retry) \<longrightarrow> view s' = view s"
    and "landed"
  shows "\<exists>k > 0. stream_at view c' path = Some (es @ repeat_batch k envs, False) \<and> (\<forall>q. q \<noteq> path \<longrightarrow> stream_at view c' q = stream_at view c q)"
  using assms
proof (induction fuel arbitrary: c es)
  case (Suc n)
  obtain c1 r where once: "append_once S path envs c = (c1, r)" by fastforce
  note cases = append_once_cases [OF once Suc.prems(2)]
  have scope: "dc_scope c1 = dc_scope c" using cases by (auto simp: unchanged_def only_changes_def)
  have str: "stream_at view c1 path = Some (es, False) \<and> (\<forall>q. q \<noteq> path \<longrightarrow> stream_at view c1 q = stream_at view c q)
      \<or> stream_at view c1 path = Some (es @ envs, False) \<and> (\<forall>q. q \<noteq> path \<longrightarrow> stream_at view c1 q = stream_at view c q)"
    using cases Suc.prems(3,4) by (auto simp: unchanged_stream only_changes_stream)
  show ?case
  proof (cases r)
    case (Inr off)
    with cases Suc.prems(3,4) have "stream_at view c1 path = Some (es @ envs, False)"
      "\<forall>q. q \<noteq> path \<longrightarrow> stream_at view c1 q = stream_at view c q" by (auto simp: only_changes_stream)
    with Inr once Suc.prems(1) show ?thesis by (intro exI [of _ 1]) simp
  next
    case (Inl err)
    show ?thesis
    proof (cases err)
      case (Gone st)
      with Inl once Suc.prems(1,6) obtain rec s where
        rec: "reconcile = Some rec" "rec path (dc_srv c1) = (s, Retry)"
          "append_reliable n S reconcile path envs (c1\<lparr>dc_srv := s\<rparr>) = Some (c', landed)"
        by (auto split: option.splits prod.splits gone_verdict.splits)
      from Suc.prems(5) rec have "view s = view (dc_srv c1)" by blast
      moreover have "unchanged view c c1" using cases Inl Gone by simp
      ultimately have "unchanged view c (c1\<lparr>dc_srv := s\<rparr>)" by (simp add: unchanged_def)
      then have "stream_at view (c1\<lparr>dc_srv := s\<rparr>) q = stream_at view c q" for q by (rule unchanged_stream)
      with Suc.IH [OF rec(3) Suc.prems(2) _ _ Suc.prems(5,6), of es] scope Suc.prems(3,4) show ?thesis by auto
    next
      case (AppendOther e)
      with Inl once Suc.prems(1) have rec: "append_reliable n S reconcile path envs c1 = Some (c', landed)" by simp
      note ih = Suc.IH [OF rec Suc.prems(2) _ _ Suc.prems(5,6)]
      from str show ?thesis
      proof
        assume "stream_at view c1 path = Some (es, False) \<and> (\<forall>q. q \<noteq> path \<longrightarrow> stream_at view c1 q = stream_at view c q)"
        with ih [of es] scope Suc.prems(3) show ?thesis by auto
      next
        assume a: "stream_at view c1 path = Some (es @ envs, False) \<and> (\<forall>q. q \<noteq> path \<longrightarrow> stream_at view c1 q = stream_at view c q)"
        with ih [of "es @ envs"] scope Suc.prems(3) obtain k where
          "k > 0" "stream_at view c' path = Some ((es @ envs) @ repeat_batch k envs, False)"
          "\<forall>q. q \<noteq> path \<longrightarrow> stream_at view c' q = stream_at view c q" by auto
        then show ?thesis by (intro exI [of _ "Suc k"]) simp
      qed
    qed
  qed
qed simp

end

text \<open>A reliable append is never lost. On a store that keeps the contract, when the append to an
  open stream reports that it landed, the stream is what it was followed by the batch, at least
  once (again for every attempt whose reply was lost), and no other stream changed. The reconciler
  is assumed not to touch storage when it answers that the terminal status was false.\<close>

theorem append_reliable_lands:
  assumes "durable_store S view"
    and "append_reliable fuel S reconcile path envs c = Some (c', True)"
    and "envs \<noteq> []" and "scope_ok (dc_scope c)" and "stream_at view c path = Some (es, False)"
    and "\<forall>rec s s'. reconcile = Some rec \<longrightarrow> rec path s = (s', Retry) \<longrightarrow> view s' = view s"
  shows "\<exists>k > 0. stream_at view c' path = Some (es @ repeat_batch k envs, False)
           \<and> (\<forall>q. q \<noteq> path \<longrightarrow> stream_at view c' q = stream_at view c q)"
  using durable_store.append_reliable_appends [OF assms(1,2,3,4,5)] assms(6) by blast

definition ex_env :: envelope where
  "ex_env = \<lparr>e_type = ''public.t'', e_key = ''1'', e_value = None, e_old = None,
     e_headers = \<lparr>h_operation = ''delete'', h_txid = None, h_offset = None, h_lsn = None, h_seq = None, h_last = None\<rparr>\<rparr>"

definition ex_path :: string where
  "ex_path = ''circuits/v1/test-stack/stores/b/queries/test-query/shape/1''"

definition ex_client :: "fault_kind list \<Rightarrow> mem_state ds_client" where
  "ex_client script = \<lparr>dc_scope = ex_scope, dc_srv = \<lparr>ms_streams = [ex_path \<mapsto> ([], False)], ms_script = script\<rparr>, dc_appended = (\<lambda>_. 0)\<rparr>"

lemma ex_qualify: "qualify ex_scope ''shape/1'' = Inr ex_path"
  by (simp add: qualify_def validate_logical_path_def ex_scope_def ex_identity_def ex_path_def)

text \<open>A lost request, a lost reply, then a served retry: the batch is there twice.\<close>

theorem append_reliable_lands_witness:
  "\<exists>c' k. append_reliable 3 mem_store None ''shape/1'' [ex_env] (ex_client [LostRequest, LostReply]) = Some (c', True)
     \<and> k > 0 \<and> stream_at ms_streams c' ''shape/1'' = Some (repeat_batch k [ex_env], False)"
proof -
  have run: "\<exists>c'. append_reliable 3 mem_store None ''shape/1'' [ex_env] (ex_client [LostRequest, LostReply]) = Some (c', True)"
    by (simp add: numeral_3_eq_3 append_once_def ex_client_def ex_qualify mem_store_def mem_op_def Let_def answer_def success_def)
  then obtain c' where c': "append_reliable 3 mem_store None ''shape/1'' [ex_env] (ex_client [LostRequest, LostReply]) = Some (c', True)"
    by blast
  have "stream_at ms_streams (ex_client [LostRequest, LostReply]) ''shape/1'' = Some ([], False)"
    by (simp add: stream_at_def ex_client_def ex_qualify)
  from append_reliable_lands [OF mem.durable_store_axioms c' _ _ this] show ?thesis
    using c' by (auto simp: ex_client_def ex_scope_ok)
qed

end
