(* ===== verification/ChangeLog.thy ===== *)
theory ChangeLog
  imports Streams "HOL-Library.Sublist"
begin

text \<open>
  The segmented change log (\<^verbatim>\<open>apps/engine/src/changelog.rs\<close>): control envelopes and positions, the
  rotation policy, the writer that appends commits and rotates, the walks of a writer and a reader
  over closed segments, and the plan that deletes old segments. The writer is shown to lose no
  acknowledged commit under any interleaving of commits, rotations, storage faults and crashes, for
  every store that keeps the contract \<^const>\<open>durable_store\<close>.
\<close>

section \<open>Segments, positions and control envelopes\<close>

definition CHANGES_PREFIX :: string where "CHANGES_PREFIX = ''changes''"
definition CONTROL_TYPE :: string where "CONTROL_TYPE = ''__circuits.control''"
definition ROTATED :: string where "ROTATED = ''rotated''"

definition segment_path :: "nat \<Rightarrow> string" where
  "segment_path n = CHANGES_PREFIX @ ''/'' @ show_nat n"

record log_position =
  lp_segment :: nat
  lp_offset :: string

text \<open>The derived order: the segment first, then the offset.\<close>

definition lp_less :: "log_position \<Rightarrow> log_position \<Rightarrow> bool" where
  "lp_less a b \<longleftrightarrow> lp_segment a < lp_segment b \<or> (lp_segment a = lp_segment b \<and> lp_offset a < lp_offset b)"

definition start_of :: "nat \<Rightarrow> log_position" where
  "start_of n = \<lparr>lp_segment = n, lp_offset = ''-1''\<rparr>"

definition lp_start :: log_position where "lp_start = start_of 0"

definition lp_path :: "log_position \<Rightarrow> string" where "lp_path p = segment_path (lp_segment p)"

definition lp_show :: "log_position \<Rightarrow> string" where
  "lp_show p = CHANGES_PREFIX @ ''/'' @ show_nat (lp_segment p) @ ''@'' @ lp_offset p"

definition rotation_envelope :: "nat \<Rightarrow> envelope" where
  "rotation_envelope nx =
     \<lparr>e_type = CONTROL_TYPE, e_key = ROTATED,
      e_value = Some (JObj [(''next'', JStr (segment_path nx)), (''segment'', JNum (NInt (int nx)))]), e_old = None,
      e_headers = \<lparr>h_operation = ROTATED, h_txid = None, h_offset = None, h_lsn = None, h_seq = None, h_last = None\<rparr>\<rparr>"

definition is_control :: "envelope \<Rightarrow> bool" where
  "is_control env \<longleftrightarrow> e_type env = CONTROL_TYPE"

text \<open>\<open>Value::get\<close> on anything but an object, \<open>as_u64\<close> on a negative or a fractional number and \<open>as_str\<close>
  on anything but a string give nothing.\<close>

definition obj_get :: "json \<Rightarrow> string \<Rightarrow> json option" where
  "obj_get v k = (case v of JObj m \<Rightarrow> map_of m k | _ \<Rightarrow> None)"

definition as_u64 :: "json \<Rightarrow> nat option" where
  "as_u64 v = (case v of JNum (NInt i) \<Rightarrow> if 0 \<le> i \<and> nat i \<le> u64_max then Some (nat i) else None | _ \<Rightarrow> None)"

definition as_str :: "json \<Rightarrow> string option" where
  "as_str v = (case v of JStr s \<Rightarrow> Some s | _ \<Rightarrow> None)"

definition rotation_target :: "envelope \<Rightarrow> nat option" where
  "rotation_target env =
     (if \<not> is_control env \<or> h_operation (e_headers env) \<noteq> ROTATED then None
      else (case e_value env of
              None \<Rightarrow> None
            | Some v \<Rightarrow>
                (case Option.bind (obj_get v ''segment'') as_u64 of
                   Some n \<Rightarrow> if n \<le> u32_max then Some n else None
                 | None \<Rightarrow>
                     (case Option.bind (obj_get v ''next'') as_str of
                        None \<Rightarrow> None
                      | Some nx \<Rightarrow> Option.bind (strip_prefix (CHANGES_PREFIX @ ''/'') nx) parse_u32))))"

definition rotation_target_in :: "envelope list \<Rightarrow> nat option" where
  "rotation_target_in envs = (case List.map_filter rotation_target (rev envs) of [] \<Rightarrow> None | n # _ \<Rightarrow> Some n)"

definition offset_bytes :: "string \<Rightarrow> nat option" where
  "offset_bytes off =
     (case split_once (CHR ''_'') off of
        None \<Rightarrow> None
      | Some (sq, bytes) \<Rightarrow>
          if utf8_len sq \<noteq> 16 \<or> utf8_len bytes \<noteq> 16 \<or> \<not> list_all is_ascii_digit bytes then None
          else parse_u64 bytes)"

section \<open>The rotation policy and the shared state\<close>

record change_log_config =
  clc_segment_bytes :: nat
  clc_segment_age :: nat
  clc_retain :: nat

definition default_change_log_config :: change_log_config where
  "default_change_log_config =
     \<lparr>clc_segment_bytes = 1024 * 1024 * 1024, clc_segment_age = 86400, clc_retain = 604800\<rparr>"

definition should_rotate :: "change_log_config \<Rightarrow> nat \<Rightarrow> nat \<Rightarrow> bool" where
  "should_rotate cfg bytes age \<longleftrightarrow>
     (clc_segment_bytes cfg > 0 \<and> bytes \<ge> clc_segment_bytes cfg) \<or>
     (clc_segment_age cfg \<noteq> 0 \<and> age \<ge> clc_segment_age cfg)"

text \<open>A \<open>BTreeMap\<close> with its keys in order: insertion replaces or places.\<close>

definition bt_insert :: "('k :: linorder) \<Rightarrow> 'v \<Rightarrow> ('k \<times> 'v) list \<Rightarrow> ('k \<times> 'v) list" where
  "bt_insert k v m = filter (\<lambda>e. fst e < k) m @ (k, v) # filter (\<lambda>e. k < fst e) m"

record changes_state =
  cs_current :: nat
  cs_starts :: "(nat \<times> nat) list"
  cs_tail :: "string option"

definition cs_default :: changes_state where
  "cs_default = \<lparr>cs_current = 0, cs_starts = [], cs_tail = None\<rparr>"

definition cs_position :: "changes_state \<Rightarrow> log_position" where
  "cs_position st =
     \<lparr>lp_segment = cs_current st, lp_offset = (case cs_tail st of None \<Rightarrow> ''-1'' | Some t \<Rightarrow> t)\<rparr>"

definition cs_retained :: "changes_state \<Rightarrow> nat" where "cs_retained st = length (cs_starts st)"

definition adopt :: "nat \<Rightarrow> (nat \<times> nat) list \<Rightarrow> string option \<Rightarrow> changes_state \<Rightarrow> changes_state" where
  "adopt cur starts tail st = st\<lparr>cs_current := cur, cs_starts := starts, cs_tail := tail\<rparr>"

definition began :: "nat \<Rightarrow> nat \<Rightarrow> changes_state \<Rightarrow> changes_state" where
  "began seg t0 st = st\<lparr>cs_current := seg, cs_starts := bt_insert seg t0 (cs_starts st), cs_tail := None\<rparr>"

definition set_tail :: "string option \<Rightarrow> changes_state \<Rightarrow> changes_state" where
  "set_tail off st = (case off of None \<Rightarrow> st | Some t \<Rightarrow> st\<lparr>cs_tail := Some t\<rparr>)"

definition forget :: "nat \<Rightarrow> changes_state \<Rightarrow> changes_state" where
  "forget seg st = st\<lparr>cs_starts := AList.delete seg (cs_starts st)\<rparr>"

definition current_age :: "nat \<Rightarrow> changes_state \<Rightarrow> nat" where
  "current_age now st = now - (case map_of (cs_starts st) (cs_current st) of None \<Rightarrow> now | Some t \<Rightarrow> t)"

section \<open>The writer and the walks\<close>

text \<open>\<open>lw_rotated\<close> is what the writer told the engine through its callback, in order. The wall clock is an
  argument.\<close>

record 's log_writer =
  lw_ds :: "'s ds_client"
  lw_state :: changes_state
  lw_rotated :: "(nat \<times> nat) list"

definition next_segment_for_reader :: "'s stream_store \<Rightarrow> nat \<Rightarrow> 's ds_client \<Rightarrow> 's ds_client \<times> nat result" where
  "next_segment_for_reader S cl c =
     (case head_stream S (segment_path (cl + 1)) c of
        (c1, Inl e) \<Rightarrow> (c1, Err e)
      | (c1, Inr None) \<Rightarrow> (c1, Err (LogNoSuccessor cl))
      | (c1, Inr (Some _)) \<Rightarrow> (c1, Ok (cl + 1)))"

fun resolve_loop :: "nat \<Rightarrow> 's stream_store \<Rightarrow> nat \<Rightarrow> bool \<Rightarrow> nat \<Rightarrow> 's ds_client \<Rightarrow> 's ds_client \<times> nat result" where
  "resolve_loop n S from recorded cur c =
     (if n = 0 then (c, Err LogNoTermination)
      else (case head_stream S (segment_path cur) c of
              (c1, Inl e) \<Rightarrow> (c1, Err e)
            | (c1, Inr None) \<Rightarrow> if cur = from \<and> \<not> recorded then (c1, Ok cur) else (c1, Err (LogMissing cur))
            | (c1, Inr (Some h)) \<Rightarrow>
                if \<not> sh_closed h then (c1, Ok cur)
                else (case next_segment_for_reader S cur c1 of
                        (c2, Inl e) \<Rightarrow> (c2, Err e)
                      | (c2, Inr nx) \<Rightarrow> resolve_loop (n - 1) S from recorded nx c2)))"

declare resolve_loop.simps [simp del]

definition resolve_current :: "'s stream_store \<Rightarrow> nat \<Rightarrow> bool \<Rightarrow> 's ds_client \<Rightarrow> 's ds_client \<times> nat result" where
  "resolve_current S from recorded c = resolve_loop 1000000 S from recorded from c"

definition note_began :: "nat \<Rightarrow> nat \<Rightarrow> 's log_writer \<Rightarrow> 's log_writer" where
  "note_began t0 n w = w\<lparr>lw_state := began n t0 (lw_state w), lw_rotated := lw_rotated w @ [(n, t0)]\<rparr>"

definition resolve_forward :: "'s stream_store \<Rightarrow> nat \<Rightarrow> 's log_writer \<Rightarrow> 's log_writer \<times> unit result" where
  "resolve_forward S now w =
     (let from = cs_current (lw_state w) in
      case resolve_current S from True (lw_ds w) of
        (c, Inl e) \<Rightarrow> (w\<lparr>lw_ds := c\<rparr>, Err e)
      | (c, Inr resolved) \<Rightarrow> (fold (note_began now) [from + 1..<resolved + 1] (w\<lparr>lw_ds := c\<rparr>), Ok ()))"

fun append_loop :: "nat \<Rightarrow> 's stream_store \<Rightarrow> nat \<Rightarrow> envelope list \<Rightarrow> 's log_writer \<Rightarrow> 's log_writer \<times> unit result" where
  "append_loop 0 S now envs w = (w, Err LogMoving)"
| "append_loop (Suc n) S now envs w =
     (case append_checked S (segment_path (cs_current (lw_state w))) envs (lw_ds w) of
        (c, Inl e) \<Rightarrow> (w\<lparr>lw_ds := c\<rparr>, Err e)
      | (c, Inr (Appended off)) \<Rightarrow> (w\<lparr>lw_ds := c, lw_state := set_tail off (lw_state w)\<rparr>, Ok ())
      | (c, Inr (Retired _)) \<Rightarrow>
          (case resolve_forward S now (w\<lparr>lw_ds := c\<rparr>) of
             (w1, Inl e) \<Rightarrow> (w1, Err e)
           | (w1, Inr _) \<Rightarrow> append_loop n S now envs w1))"

definition append_commit :: "'s stream_store \<Rightarrow> nat \<Rightarrow> envelope list \<Rightarrow> 's log_writer \<Rightarrow> 's log_writer \<times> unit result" where
  "append_commit S now envs w = (if envs = [] then (w, Ok ()) else append_loop 8 S now envs w)"

definition segment_bytes :: "nat \<Rightarrow> 's log_writer \<Rightarrow> nat" where
  "segment_bytes seg w =
     (case Option.bind (cs_tail (lw_state w)) offset_bytes of
        Some n \<Rightarrow> n
      | None \<Rightarrow> dc_appended (lw_ds w) (segment_path seg))"

definition rotate_log :: "'s stream_store \<Rightarrow> nat \<Rightarrow> 's log_writer \<Rightarrow> 's log_writer \<times> unit result" where
  "rotate_log S now w =
     (let from = cs_current (lw_state w); nx = from + 1 in
      case ensure_stream S (segment_path nx) (lw_ds w) of
        (c1, Inl e) \<Rightarrow> (w\<lparr>lw_ds := c1\<rparr>, Err e)
      | (c1, Inr _) \<Rightarrow>
          (case append_envs S (segment_path from) [rotation_envelope nx] c1 of
             (c2, Inl e) \<Rightarrow> (w\<lparr>lw_ds := c2\<rparr>, Err e)
           | (c2, Inr _) \<Rightarrow>
               (case close_stream S (segment_path from) c2 of
                  (c3, Inl e) \<Rightarrow> (w\<lparr>lw_ds := c3\<rparr>, Err e)
                | (c3, Inr _) \<Rightarrow> (note_began now nx (w\<lparr>lw_ds := c3\<rparr>), Ok ()))))"

text \<open>A failed rotation is logged and tried again at the next commit.\<close>

definition maybe_rotate :: "'s stream_store \<Rightarrow> change_log_config \<Rightarrow> nat \<Rightarrow> 's log_writer \<Rightarrow> 's log_writer" where
  "maybe_rotate S cfg now w =
     (let bytes = segment_bytes (cs_current (lw_state w)) w in
      if bytes = 0 \<or> \<not> should_rotate cfg bytes (current_age now (lw_state w)) then w else fst (rotate_log S now w))"

definition force_rotate :: "'s stream_store \<Rightarrow> nat \<Rightarrow> 's log_writer \<Rightarrow> 's log_writer" where
  "force_rotate S now w = (if segment_bytes (cs_current (lw_state w)) w = 0 then w else fst (rotate_log S now w))"

section \<open>Deleting segments\<close>

record segment_pin =
  sp_shape_id :: string
  sp_segment :: nat
  sp_evictable :: bool

record segment_plan =
  pl_evict :: "string list"
  pl_delete :: "nat list"

definition rotated_out_at :: "(nat \<times> nat) list \<Rightarrow> nat \<Rightarrow> nat \<Rightarrow> nat option" where
  "rotated_out_at segments current n = (if n \<ge> current then None else map_of segments (n + 1))"

definition pin_stale :: "(nat \<times> nat) list \<Rightarrow> nat \<Rightarrow> nat \<Rightarrow> nat \<Rightarrow> segment_pin \<Rightarrow> bool" where
  "pin_stale segments current retain now pin \<longleftrightarrow> sp_evictable pin \<and> retain \<noteq> 0
     \<and> (case rotated_out_at segments current (sp_segment pin) of None \<Rightarrow> False | Some t0 \<Rightarrow> now - t0 \<ge> retain)"

definition plan_segment_deletion ::
  "(nat \<times> nat) list \<Rightarrow> nat \<Rightarrow> nat \<Rightarrow> segment_pin list \<Rightarrow> nat \<Rightarrow> nat \<Rightarrow> segment_plan" where
  "plan_segment_deletion segments current checkpoint pins retain now =
     (let stale = pin_stale segments current retain now;
          alive = filter (\<lambda>p. \<not> stale p) pins;
          min_needed = foldr min (map sp_segment alive) checkpoint
      in \<lparr>pl_evict = map sp_shape_id (filter stale pins),
          pl_delete = filter (\<lambda>n. n < min_needed \<and> n < current) (map fst segments)\<rparr>)"

section \<open>The log as a whole\<close>

lemma slash_not_digit: "CHR ''/'' \<notin> set (show_nat n)" "CHR 0x5C \<notin> set (show_nat n)" "CHR ''?'' \<notin> set (show_nat n)"
  "CHR 0x23 \<notin> set (show_nat n)" "CHR ''%'' \<notin> set (show_nat n)" "CHR ''.'' \<notin> set (show_nat n)"
  using show_nat_digits [of _ n] by (fastforce simp: is_ascii_digit_code code_of_def)+

lemma segment_path_inj [simp]: "segment_path m = segment_path n \<longleftrightarrow> m = n"
  by (auto simp: segment_path_def dest: show_nat_inj)

lemma segment_path_valid: "validate_logical_path (segment_path n) = Inr ()"
proof -
  have "show_nat n \<noteq> ''.''" "show_nat n \<noteq> ''..''" using slash_not_digit(6) [of n] by auto
  moreover have "split_char (CHR ''/'') (segment_path n) = [CHANGES_PREFIX, show_nat n]"
    using split_char_append [of "CHR ''/''" CHANGES_PREFIX "show_nat n"] split_char_no_sep [of "CHR ''/''" "show_nat n"]
      slash_not_digit(1) by (simp add: segment_path_def CHANGES_PREFIX_def)
  ultimately show ?thesis
    using slash_not_digit by (simp add: validate_logical_path_def) (simp add: segment_path_def CHANGES_PREFIX_def)
qed

definition seg :: "('s \<Rightarrow> streams) \<Rightarrow> 's ds_client \<Rightarrow> nat \<Rightarrow> (envelope list \<times> bool) option" where
  "seg view c n = stream_at view c (segment_path n)"

text \<open>The log from segment \<open>lo\<close> to the open segment \<open>hi\<close>: everything before \<open>hi\<close> is closed, nothing has been
  written after it.\<close>

definition log_inv :: "('s \<Rightarrow> streams) \<Rightarrow> nat \<Rightarrow> nat \<Rightarrow> 's ds_client \<Rightarrow> bool" where
  "log_inv view lo hi c \<longleftrightarrow> scope_ok (dc_scope c) \<and> lo \<le> hi
     \<and> (\<forall>n. lo \<le> n \<and> n < hi \<longrightarrow> (\<exists>es. seg view c n = Some (es, True)))
     \<and> (\<exists>es. seg view c hi = Some (es, False))
     \<and> (\<forall>n > hi. seg view c n = None \<or> seg view c n = Some ([], False))"

definition seg_data :: "(envelope list \<times> bool) option \<Rightarrow> envelope list" where
  "seg_data v = (case v of None \<Rightarrow> [] | Some (es, _) \<Rightarrow> filter (\<lambda>e. \<not> is_control e) es)"

definition log_data :: "('s \<Rightarrow> streams) \<Rightarrow> nat \<Rightarrow> nat \<Rightarrow> 's ds_client \<Rightarrow> envelope list" where
  "log_data view lo hi c = concat (map (\<lambda>n. seg_data (seg view c n)) [lo..<Suc hi])"

lemma log_data_Suc: "lo \<le> Suc hi \<Longrightarrow> log_data view lo (Suc hi) c = log_data view lo hi c @ seg_data (seg view c (Suc hi))"
  by (simp add: log_data_def)

lemma log_data_cong:
  "(\<And>n. lo \<le> n \<Longrightarrow> n \<le> hi \<Longrightarrow> seg_data (seg view c' n) = seg_data (seg view c n)) \<Longrightarrow> log_data view lo hi c' = log_data view lo hi c"
  by (auto simp: log_data_def intro!: arg_cong [of _ _ concat] map_cong)

lemma log_data_snoc:
  assumes "lo \<le> hi" "\<And>n. lo \<le> n \<Longrightarrow> n < hi \<Longrightarrow> seg_data (seg view c' n) = seg_data (seg view c n)"
    and "seg_data (seg view c' hi) = seg_data (seg view c hi) @ d"
  shows "log_data view lo hi c' = log_data view lo hi c @ d"
proof -
  have "map (\<lambda>n. seg_data (seg view c' n)) [lo..<hi] = map (\<lambda>n. seg_data (seg view c n)) [lo..<hi]"
    using assms(2) by simp
  with assms(1,3) show ?thesis by (simp add: log_data_def del: map_eq_conv)
qed

lemma rotation_envelope_control [simp]: "is_control (rotation_envelope n)"
  by (simp add: is_control_def rotation_envelope_def)

text \<open>The writer's view of it: its current segment may lag behind the open one, and it has announced no
  segment beyond it.\<close>

definition writer_inv :: "('s \<Rightarrow> streams) \<Rightarrow> nat \<Rightarrow> nat \<Rightarrow> 's log_writer \<Rightarrow> bool" where
  "writer_inv view lo hi w \<longleftrightarrow> log_inv view lo hi (lw_ds w) \<and> lo \<le> cs_current (lw_state w) \<and> cs_current (lw_state w) \<le> hi
     \<and> (\<forall>n \<in> fst ` set (lw_rotated w). lo \<le> n \<and> n \<le> hi)"

lemma note_began_fold:
  "lw_ds (fold (note_began now) ns w) = lw_ds w"
  "cs_current (lw_state (fold (note_began now) ns w)) = (if ns = [] then cs_current (lw_state w) else last ns)"
  "lw_rotated (fold (note_began now) ns w) = lw_rotated w @ map (\<lambda>n. (n, now)) ns"
  by (induction ns arbitrary: w) (auto simp: note_began_def began_def)

context durable_store
begin

lemma unchanged_seg: "unchanged view c c' \<Longrightarrow> seg view c' n = seg view c n"
  by (simp add: seg_def unchanged_stream)

lemma only_changes_seg:
  "only_changes view (segment_path m) v c c' \<Longrightarrow> scope_ok (dc_scope c) \<Longrightarrow>
     seg view c' n = (if n = m then v else seg view c n)"
  by (simp add: seg_def only_changes_stream)

lemma log_inv_unchanged:
  "unchanged view c c' \<Longrightarrow> log_inv view lo hi c' = log_inv view lo hi c \<and> log_data view lo hi c' = log_data view lo hi c"
  by (auto simp: log_inv_def unchanged_seg log_data_def) (auto simp: unchanged_def)

text \<open>The successor of a closed segment is always there: a reader that steps to it skips nothing.\<close>

lemma log_inv_seg:
  "log_inv view lo hi c \<Longrightarrow> lo \<le> n \<Longrightarrow> n \<le> hi \<Longrightarrow> \<exists>es. seg view c n = Some (es, n < hi)"
  by (cases "n = hi") (auto simp: log_inv_def)

lemma next_segment_cases:
  assumes "next_segment_for_reader S n c = (c', r)" "log_inv view lo hi c" "lo \<le> n" "n < hi"
  shows "unchanged view c c'"
    and "r = Ok (n + 1) \<or> (\<exists>e c1. head_stream S (segment_path (n + 1)) c = (c1, Inl e) \<and> r = Err e)"
proof -
  obtain c1 r1 where h: "head_stream S (segment_path (n + 1)) c = (c1, r1)" by fastforce
  from log_inv_seg [OF assms(2), of "n + 1"] assms(3,4) obtain es where "stream_at view c (segment_path (n + 1)) = Some (es, n + 1 < hi)"
    by (auto simp: seg_def)
  with head_cases [OF h] h assms(1) show "unchanged view c c'"
    "r = Ok (n + 1) \<or> (\<exists>e c1. head_stream S (segment_path (n + 1)) c = (c1, Inl e) \<and> r = Err e)"
    by (auto simp: next_segment_for_reader_def split: sum.splits option.splits)
qed

lemma unchanged_trans: "unchanged view a b \<Longrightarrow> unchanged view b c \<Longrightarrow> unchanged view a c"
  by (simp add: unchanged_def)

lemma resolve_loop_cases:
  assumes "resolve_loop n S frm recorded cur c = (c', r)" "log_inv view lo hi c" "lo \<le> cur" "cur \<le> hi"
  shows "unchanged view c c' \<and> (\<forall>x. r = Inr x \<longrightarrow> x = hi)"
  using assms
proof (induction n arbitrary: cur c)
  case 0
  then show ?case by (auto simp: resolve_loop.simps [of 0])
next
  case (Suc n)
  obtain c1 r1 where h: "head_stream S (segment_path cur) c = (c1, r1)" by fastforce
  note hc = head_cases [OF h]
  from log_inv_seg [OF Suc.prems(2,3,4)] obtain es where cur: "stream_at view c (segment_path cur) = Some (es, cur < hi)"
    by (auto simp: seg_def)
  show ?case
  proof (cases "\<exists>hd. r1 = Inr (Some hd) \<and> sh_closed hd")
    case False
    with hc h Suc.prems(1,4) cur show ?thesis
      by (auto simp: resolve_loop.simps [of "Suc n"] split: sum.splits option.splits if_splits)
  next
    case True
    then have lt: "cur < hi" using hc cur by auto
    obtain c2 r2 where nx: "next_segment_for_reader S cur c1 = (c2, r2)" by fastforce
    have inv1: "log_inv view lo hi c1" using log_inv_unchanged hc Suc.prems(2) by blast
    note nc = next_segment_cases [OF nx inv1 Suc.prems(3) lt]
    have inv2: "log_inv view lo hi c2" using log_inv_unchanged nc(1) inv1 by blast
    have u2: "unchanged view c c2" using unchanged_trans hc nc(1) by blast
    show ?thesis
    proof (cases r2)
      case (Inl e)
      with True h nx Suc.prems(1) u2 show ?thesis by (auto simp: resolve_loop.simps [of "Suc n"])
    next
      case (Inr x)
      with nc(2) have x: "x = cur + 1" by auto
      with Inr True h nx Suc.prems(1) have "resolve_loop n S frm recorded (cur + 1) c2 = (c', r)"
        by (auto simp: resolve_loop.simps [of "Suc n"])
      from Suc.IH [OF this inv2] Suc.prems(3) lt u2 show ?thesis by (auto intro: unchanged_trans)
    qed
  qed
qed

lemma resolve_forward_cases:
  assumes "resolve_forward S now w = (w', r)" "writer_inv view lo hi w"
  shows "unchanged view (lw_ds w) (lw_ds w') \<and> writer_inv view lo hi w' \<and> (is_ok r \<longrightarrow> cs_current (lw_state w') = hi)"
proof -
  let ?cur = "cs_current (lw_state w)"
  have wi: "log_inv view lo hi (lw_ds w)" "lo \<le> ?cur" "?cur \<le> hi" "\<forall>n \<in> fst ` set (lw_rotated w). lo \<le> n \<and> n \<le> hi"
    using assms(2) by (auto simp: writer_inv_def)
  obtain c1 r1 where res: "resolve_current S ?cur True (lw_ds w) = (c1, r1)" by fastforce
  note rc = resolve_loop_cases [OF res [unfolded resolve_current_def] wi(1-3)]
  have inv1: "log_inv view lo hi c1" using rc log_inv_unchanged wi(1) by blast
  show ?thesis
  proof (cases r1)
    case (Inl e)
    with assms(1) res rc wi inv1 show ?thesis by (auto simp: resolve_forward_def Let_def writer_inv_def)
  next
    case (Inr x)
    with rc have "x = hi" by simp
    with Inr assms(1) res have w': "w' = fold (note_began now) [?cur + 1..<hi + 1] (w\<lparr>lw_ds := c1\<rparr>)" "r = Inr ()"
      by (auto simp: resolve_forward_def Let_def simp del: upt_Suc)
    have "cs_current (lw_state w') = hi" using w' wi(3) by (auto simp: note_began_fold simp del: upt_Suc)
    with w' rc wi inv1 show ?thesis by (auto simp: note_began_fold writer_inv_def simp del: upt_Suc)
  qed
qed

text \<open>One append attempt at segment \<open>n\<close>: it lands only on the open segment.\<close>

lemma append_checked_seg:
  assumes "append_checked S (segment_path n) envs c = (c', r)" "envs \<noteq> []"
    and "log_inv view lo hi c" "lo \<le> n" "n \<le> hi"
  shows "log_inv view lo hi c'"
    and "log_data view lo hi c' \<in> {log_data view lo hi c, log_data view lo hi c @ filter (\<lambda>e. \<not> is_control e) envs}"
    and "r = Ok (Appended off) \<Longrightarrow> n = hi \<and> log_data view lo hi c' = log_data view lo hi c @ filter (\<lambda>e. \<not> is_control e) envs"
    and "r = Ok (Retired st) \<Longrightarrow> unchanged view c c'"
proof -
  obtain r1 where once: "append_once S (segment_path n) envs c = (c', r1)"
    and r: "r = (case r1 of Inr off \<Rightarrow> Ok (Appended off) | Inl (Gone st) \<Rightarrow> Ok (Retired st) | Inl (AppendOther e) \<Rightarrow> Err e)"
    using assms(1) by (auto simp: append_checked_def split: prod.splits sum.splits append_error.splits)
  note cases = append_once_cases [OF once assms(2)]
  from log_inv_seg [OF assms(3-5)] obtain es0 where es0: "stream_at view c (segment_path n) = Some (es0, n < hi)"
    by (auto simp: seg_def)
  have scope: "scope_ok (dc_scope c)" using assms(3) by (simp add: log_inv_def)
  let ?d = "filter (\<lambda>e. \<not> is_control e) envs"
  have landed: "n = hi \<and> log_inv view lo hi c' \<and> log_data view lo hi c' = log_data view lo hi c @ ?d"
    if "stream_at view c (segment_path n) = Some (es, False)" "only_changes view (segment_path n) (Some (es @ envs, False)) c c'" for es
  proof -
    have n: "n = hi" and es: "es = es0" using that(1) es0 assms(5) by auto
    have sg: "seg view c' k = (if k = hi then Some (es @ envs, False) else seg view c k)" for k
      using only_changes_seg [OF that(2) scope] n by simp
    have "log_inv view lo hi c'"
      using assms(3) that(2) by (auto simp: log_inv_def sg) (auto simp: only_changes_def)
    moreover have "log_data view lo hi c' = log_data view lo hi c @ ?d"
      using assms(3) that(1) n by (intro log_data_snoc) (auto simp: sg log_inv_def seg_data_def seg_def [symmetric])
    ultimately show ?thesis using n by simp
  qed
  have same: "unchanged view c c' \<Longrightarrow> log_inv view lo hi c' \<and> log_data view lo hi c' = log_data view lo hi c"
    using log_inv_unchanged [of c c' lo hi] assms(3) by simp
  show "log_inv view lo hi c'" using cases landed same by blast
  show "log_data view lo hi c' \<in> {log_data view lo hi c, log_data view lo hi c @ ?d}"
    using cases landed same by blast
  show "n = hi \<and> log_data view lo hi c' = log_data view lo hi c @ ?d" if "r = Ok (Appended off)"
    using that r cases landed by (auto split: sum.splits append_error.splits)
  show "unchanged view c c'" if "r = Ok (Retired st)"
    using that r cases by (auto split: sum.splits append_error.splits)
qed

lemma append_other_seg:
  assumes "append_checked S (segment_path n) envs c = (c', r)" "envs \<noteq> []" "log_inv view lo hi c"
  shows "m \<noteq> n \<Longrightarrow> seg view c' m = seg view c m"
proof -
  obtain r1 where once: "append_once S (segment_path n) envs c = (c', r1)"
    using assms(1) by (auto simp: append_checked_def split: prod.splits sum.splits append_error.splits)
  have "scope_ok (dc_scope c)" using assms(3) by (simp add: log_inv_def)
  then show "m \<noteq> n \<Longrightarrow> seg view c' m = seg view c m"
    using append_once_cases [OF once assms(2)] unchanged_seg only_changes_seg by auto
qed

text \<open>A commit: whatever happens it is appended at most once, and exactly once when it succeeds.\<close>

lemma append_loop_cases:
  assumes "append_loop k S now envs w = (w', r)" "envs \<noteq> []" "writer_inv view lo hi w"
  defines "d \<equiv> filter (\<lambda>e. \<not> is_control e) envs"
  shows "writer_inv view lo hi w'
     \<and> log_data view lo hi (lw_ds w') \<in> {log_data view lo hi (lw_ds w), log_data view lo hi (lw_ds w) @ d}
     \<and> (is_ok r \<longrightarrow> log_data view lo hi (lw_ds w') = log_data view lo hi (lw_ds w) @ d)"
  using assms(1-3)
proof (induction k arbitrary: w)
  case (Suc k)
  let ?cur = "cs_current (lw_state w)"
  have wi: "log_inv view lo hi (lw_ds w)" "lo \<le> ?cur" "?cur \<le> hi" using Suc.prems(3) by (auto simp: writer_inv_def)
  obtain c r1 where a: "append_checked S (segment_path ?cur) envs (lw_ds w) = (c, r1)" by fastforce
  note ac = append_checked_seg [OF a Suc.prems(2) wi]
  have inv1: "writer_inv view lo hi (w\<lparr>lw_ds := c\<rparr>)" using ac(1) Suc.prems(3) by (simp add: writer_inv_def)
  show ?case
  proof (cases "\<exists>st. r1 = Inr (Retired st)")
    case False
    then show ?thesis
      using a ac(2) ac(3) Suc.prems(1) inv1
      by (auto simp: d_def set_tail_def writer_inv_def split: sum.splits appended.splits option.splits)
  next
    case True
    then have u: "unchanged view (lw_ds w) c" using ac(4) by blast
    obtain w1 r2 where f: "resolve_forward S now (w\<lparr>lw_ds := c\<rparr>) = (w1, r2)" by fastforce
    note fc = resolve_forward_cases [OF f inv1]
    have same: "log_data view lo hi (lw_ds w1) = log_data view lo hi (lw_ds w)"
      using log_inv_unchanged [OF u] log_inv_unchanged [of c "lw_ds w1"] fc by simp
    show ?thesis
    proof (cases r2)
      case (Inl e)
      with True a f Suc.prems(1) have "w' = w1" "r = Inl e" by auto
      with same fc show ?thesis by auto
    next
      case (Inr x)
      with True a f Suc.prems(1) have "append_loop k S now envs w1 = (w', r)" by auto
      from Suc.IH [OF this Suc.prems(2)] same fc show ?thesis by auto
    qed
  qed
qed auto

lemma append_commit_cases:
  assumes "append_commit S now envs w = (w', r)" "writer_inv view lo hi w"
  shows "writer_inv view lo hi w'
     \<and> log_data view lo hi (lw_ds w') \<in> {log_data view lo hi (lw_ds w), log_data view lo hi (lw_ds w) @ filter (\<lambda>e. \<not> is_control e) envs}
     \<and> (is_ok r \<longrightarrow> log_data view lo hi (lw_ds w') = log_data view lo hi (lw_ds w) @ filter (\<lambda>e. \<not> is_control e) envs)"
proof (cases "envs = []")
  case True
  with assms show ?thesis by (auto simp: append_commit_def)
next
  case False
  with assms(1) have "append_loop 8 S now envs w = (w', r)" by (simp add: append_commit_def)
  from append_loop_cases [OF this False assms(2)] show ?thesis .
qed

text \<open>A rotation either changes nothing that matters or moves the open segment on by one.\<close>

lemma ensure_next:
  assumes "ensure_stream S (segment_path (n + 1)) c = (c', r)" "log_inv view lo hi c" "lo \<le> n" "n \<le> hi"
  shows "log_inv view lo hi c' \<and> log_data view lo hi c' = log_data view lo hi c
     \<and> (is_ok r \<longrightarrow> n = hi \<longrightarrow> seg view c' (hi + 1) = Some ([], False))"
proof -
  note ec = ensure_cases [OF assms(1)]
  have scope: "scope_ok (dc_scope c)" using assms(2) by (simp add: log_inv_def)
  have "log_inv view lo hi c' \<and> log_data view lo hi c' = log_data view lo hi c"
  proof (cases "unchanged view c c'")
    case True
    then show ?thesis using log_inv_unchanged assms(2) by blast
  next
    case False
    with ec have none: "stream_at view c (segment_path (n + 1)) = None"
      and ch: "only_changes view (segment_path (n + 1)) (Some ([], False)) c c'" by auto
    have gt: "n = hi" using log_inv_seg [OF assms(2), of "n + 1"] none assms(3,4) by (cases "n = hi") (auto simp: seg_def)
    have sg: "seg view c' k = (if k = Suc hi then Some ([], False) else seg view c k)" for k
      using only_changes_seg [OF ch scope] gt by simp
    have "log_data view lo hi c' = log_data view lo hi c" by (rule log_data_cong) (simp add: sg)
    moreover have "log_inv view lo hi c'"
      using assms(2) ch by (auto simp: log_inv_def sg) (auto simp: only_changes_def)
    ultimately show ?thesis by simp
  qed
  moreover from this ec have "is_ok r \<Longrightarrow> n = hi \<Longrightarrow> seg view c' (hi + 1) = Some ([], False)"
    by (cases r) (auto simp: log_inv_def seg_def simp del: not_None_eq)
  ultimately show ?thesis by blast
qed

lemma close_current:
  assumes "close_stream S (segment_path hi) c = (c', r)" "log_inv view lo hi c" "seg view c (hi + 1) = Some ([], False)"
  shows "\<exists>hi' \<in> {hi, hi + 1}. log_inv view lo hi' c' \<and> log_data view lo hi' c' = log_data view lo hi c \<and> (is_ok r \<longrightarrow> hi' = hi + 1)"
proof -
  note cc = close_cases [OF assms(1)]
  have scope: "scope_ok (dc_scope c)" using assms(2) by (simp add: log_inv_def)
  from assms(2) obtain es where es: "seg view c hi = Some (es, False)" by (auto simp: log_inv_def)
  show ?thesis
  proof (cases "unchanged view c c'")
    case True
    then have "seg view c' hi = Some (es, False)" using es by (simp add: unchanged_seg)
    then have "\<not> is_ok r" using cc es by (cases r) (auto simp: seg_def)
    with True show ?thesis using log_inv_unchanged assms(2) by blast
  next
    case False
    with cc es have ch: "only_changes view (segment_path hi) (Some (es, True)) c c'" by (auto simp: seg_def)
    have sg: "seg view c' k = (if k = hi then Some (es, True) else seg view c k)" for k
      using only_changes_seg [OF ch scope] by simp
    have "log_inv view lo (hi + 1) c'"
      using assms(2,3) ch by (auto simp: log_inv_def sg less_Suc_eq) (auto simp: only_changes_def)
    moreover have "log_data view lo hi c' = log_data view lo hi c"
      by (rule log_data_cong) (simp add: sg es seg_data_def)
    then have "log_data view lo (hi + 1) c' = log_data view lo hi c"
      using assms(2,3) by (simp add: log_data_Suc log_inv_def sg) (simp add: seg_data_def)
    ultimately show ?thesis by blast
  qed
qed

lemma rotate_cases:
  assumes "rotate_log S now w = (w', r)" "writer_inv view lo hi w"
  shows "\<exists>hi' \<in> {hi, hi + 1}. writer_inv view lo hi' w' \<and> log_data view lo hi' (lw_ds w') = log_data view lo hi (lw_ds w)
     \<and> (is_ok r \<longrightarrow> hi' = hi + 1 \<and> cs_current (lw_state w') = hi')
     \<and> (\<not> is_ok r \<longrightarrow> lw_state w' = lw_state w)"
proof -
  let ?cur = "cs_current (lw_state w)"
  have wi: "log_inv view lo hi (lw_ds w)" "lo \<le> ?cur" "?cur \<le> hi" using assms(2) by (auto simp: writer_inv_def)
  have upd: "writer_inv view lo hi' (w\<lparr>lw_ds := c\<rparr>)" if "log_inv view lo hi' c" "hi \<le> hi'" for c hi'
    using assms(2) that by (force simp: writer_inv_def)
  obtain c1 r1 where e: "ensure_stream S (segment_path (?cur + 1)) (lw_ds w) = (c1, r1)" by fastforce
  note ec = ensure_next [OF e wi]
  show ?thesis
  proof (cases r1)
    case (Inl err)
    with assms(1) e have "w' = w\<lparr>lw_ds := c1\<rparr>" "r = Inl err" by (auto simp: rotate_log_def Let_def)
    with ec upd [of hi c1] show ?thesis by auto
  next
    case (Inr u1)
    obtain c2 r2 where a: "append_checked S (segment_path ?cur) [rotation_envelope (?cur + 1)] c1 = (c2, r2)" by fastforce
    note ac = append_checked_seg [OF a _ _ wi(2,3)]
    have d2: "log_inv view lo hi c2" "log_data view lo hi c2 = log_data view lo hi (lw_ds w)"
      using ac(1,2) ec by auto
    obtain r2' where ae: "append_envs S (segment_path ?cur) [rotation_envelope (?cur + 1)] c1 = (c2, r2')"
      and r2': "is_ok r2' \<longrightarrow> (\<exists>off. r2 = Ok (Appended off))"
      using a by (auto simp: append_envs_def append_checked_def split: prod.splits sum.splits append_error.splits)
    show ?thesis
    proof (cases r2')
      case (Inl err)
      with assms(1) e Inr ae have "w' = w\<lparr>lw_ds := c2\<rparr>" "r = Inl err" by (auto simp: rotate_log_def Let_def)
      with d2 upd [of hi c2] show ?thesis by auto
    next
      case (Inr u2)
      with r2' obtain off where "r2 = Ok (Appended off)" by auto
      then have cur: "?cur = hi" using ac(3) ec by auto
      have "seg view c1 (hi + 1) = Some ([], False)" using ec \<open>r1 = Inr u1\<close> cur by simp
      moreover have "seg view c2 (hi + 1) = seg view c1 (hi + 1)"
        using append_other_seg [OF a _ _, of lo hi] ec cur by simp
      ultimately have nx: "seg view c2 (hi + 1) = Some ([], False)" by simp
      obtain c3 r3 where cl: "close_stream S (segment_path hi) c2 = (c3, r3)" by fastforce
      from close_current [OF cl d2(1) nx] d2(2) obtain hi' where
        hi': "hi' \<in> {hi, hi + 1}" "log_inv view lo hi' c3" "log_data view lo hi' c3 = log_data view lo hi (lw_ds w)"
          "is_ok r3 \<longrightarrow> hi' = hi + 1" by auto
      show ?thesis
      proof (cases r3)
        case (Inl err)
        with assms(1) e \<open>r1 = Inr u1\<close> ae Inr cl cur have "w' = w\<lparr>lw_ds := c3\<rparr>" "r = Inl err" by (auto simp: rotate_log_def Let_def)
        with hi' upd [of hi' c3] show ?thesis by auto
      next
        case (Inr u3)
        with assms(1) e \<open>r1 = Inr u1\<close> ae \<open>r2' = Inr u2\<close> cl cur have "w' = note_began now (hi + 1) (w\<lparr>lw_ds := c3\<rparr>)" "r = Inr ()"
          by (auto simp: rotate_log_def Let_def)
        with hi' Inr upd [of hi' c3] show ?thesis
          by (intro bexI [of _ hi']) (auto simp: note_began_def began_def writer_inv_def log_inv_def)
      qed
    qed
  qed
qed

lemma maybe_rotate_cases:
  assumes "writer_inv view lo hi w"
  shows "\<exists>hi' \<ge> hi. writer_inv view lo hi' (maybe_rotate S cfg now w)
     \<and> log_data view lo hi' (lw_ds (maybe_rotate S cfg now w)) = log_data view lo hi (lw_ds w)"
proof -
  obtain w' r where "rotate_log S now w = (w', r)" by fastforce
  from rotate_cases [OF this assms] obtain hi' where "hi' \<in> {hi, hi + 1}" "writer_inv view lo hi' w'"
    "log_data view lo hi' (lw_ds w') = log_data view lo hi (lw_ds w)" by blast
  moreover from this(1) have "hi \<le> hi'" by auto
  ultimately show ?thesis using assms \<open>rotate_log S now w = (w', r)\<close> by (auto simp: maybe_rotate_def Let_def)
qed

end

section \<open>Commits, rotations, faults and crashes\<close>

text \<open>The writer together with what survives a crash: the last rotation the catalog holds. The history
  variable \<open>ls_acked\<close> is every envelope of every commit that was acknowledged. A crash loses the writer's
  memory; the next boot walks forward from the catalog's segment, and stays down when that fails.\<close>

record 's log_sys =
  ls_writer :: "'s log_writer"
  ls_catalog :: nat
  ls_acked :: "envelope list"

inductive log_step :: "'s stream_store \<Rightarrow> change_log_config \<Rightarrow> 's log_sys \<Rightarrow> 's log_sys \<Rightarrow> bool"
  for S :: "'s stream_store" and cfg :: change_log_config where
  commit: "append_commit S now envs (ls_writer y) = (w, r) \<Longrightarrow> list_all (\<lambda>e. \<not> is_control e) envs \<Longrightarrow>
     log_step S cfg y (y\<lparr>ls_writer := w, ls_acked := ls_acked y @ (if is_ok r then envs else [])\<rparr>)"
| rotation: "log_step S cfg y (y\<lparr>ls_writer := maybe_rotate S cfg now (ls_writer y)\<rparr>)"
| recorded: "n \<in> fst ` set (lw_rotated (ls_writer y)) \<Longrightarrow> log_step S cfg y (y\<lparr>ls_catalog := n\<rparr>)"
| crash: "resolve_current S (ls_catalog y) True (lw_ds (ls_writer y)) = (c, Inr cur) \<Longrightarrow>
     log_step S cfg y (y\<lparr>ls_writer := \<lparr>lw_ds = c, lw_state = adopt cur starts tail cs_default, lw_rotated = []\<rparr>\<rparr>)"
| failed_boot: "resolve_current S (ls_catalog y) True (lw_ds (ls_writer y)) = (c, Inl e) \<Longrightarrow>
     log_step S cfg y (y\<lparr>ls_writer := (ls_writer y)\<lparr>lw_ds := c\<rparr>\<rparr>)"

inductive log_reach :: "'s stream_store \<Rightarrow> change_log_config \<Rightarrow> 's log_sys \<Rightarrow> 's log_sys \<Rightarrow> bool"
  for S :: "'s stream_store" and cfg :: change_log_config where
  start: "log_reach S cfg y y"
| step: "log_reach S cfg x y \<Longrightarrow> log_step S cfg y z \<Longrightarrow> log_reach S cfg x z"

inductive_cases log_step_elim: "log_step S cfg y z"

definition sys_inv :: "('s \<Rightarrow> streams) \<Rightarrow> nat \<Rightarrow> nat \<Rightarrow> 's log_sys \<Rightarrow> bool" where
  "sys_inv view lo hi y \<longleftrightarrow> writer_inv view lo hi (ls_writer y) \<and> lo \<le> ls_catalog y \<and> ls_catalog y \<le> hi
     \<and> subseq (ls_acked y) (log_data view lo hi (lw_ds (ls_writer y)))"

lemma subseq_appendI: "subseq xs ys \<Longrightarrow> subseq xs (ys @ zs)"
  by (metis append_Nil2 list_emb_append_mono list_emb_Nil)

text \<open>A store that answers: in the states of \<open>R\<close>, which it stays in, an append to an open stream is
  accepted, an append elsewhere is refused as terminal, and \<open>HEAD\<close> says whether the stream is there.\<close>

definition responsive :: "'s stream_store \<Rightarrow> ('s \<Rightarrow> streams) \<Rightarrow> ('s \<Rightarrow> bool) \<Rightarrow> bool" where
  "responsive S view R \<longleftrightarrow>
     (\<forall>p s. R s \<longrightarrow> (\<exists>s' res. ss_head S p s = (s', Inr res) \<and> R s' \<and>
        (if view s p = None then rs_status res = 404 else success (rs_status res)))) \<and>
     (\<forall>p envs s. R s \<longrightarrow> (\<exists>s' res. ss_append S p envs s = (s', Inr res) \<and> R s' \<and>
        (if \<exists>es. view s p = Some (es, False) then success (rs_status res)
         else rs_status res = 404 \<or> rs_status res = 410 \<or> rs_status res = 409 \<and> rs_closed res)))"

context durable_store
begin

lemma log_step_inv:
  assumes "log_step S cfg y z" "sys_inv view lo hi y"
  shows "\<exists>hi' \<ge> hi. sys_inv view lo hi' z"
  using assms
proof (cases rule: log_step.cases)
  case (commit now envs w r)
  have f: "filter (\<lambda>e. \<not> is_control e) envs = envs" using commit(3) by (simp add: list_all_iff)
  from append_commit_cases [OF commit(2), of lo hi] assms(2) commit(1) show ?thesis
    by (intro exI [of _ hi]) (auto simp: sys_inv_def f intro: subseq_appendI list_emb_append_mono)
next
  case (rotation now)
  from maybe_rotate_cases [of lo hi "ls_writer y" cfg now] assms(2) rotation show ?thesis
    by (auto simp: sys_inv_def)
next
  case (recorded n)
  with assms(2) show ?thesis by (intro exI [of _ hi]) (auto simp: sys_inv_def writer_inv_def)
next
  case (crash c cur starts tail)
  have "unchanged view (lw_ds (ls_writer y)) c \<and> cur = hi"
    using resolve_loop_cases [OF crash(2) [unfolded resolve_current_def], of lo hi] assms(2)
    by (auto simp: sys_inv_def writer_inv_def)
  with log_inv_unchanged [of "lw_ds (ls_writer y)" c lo hi] assms(2) crash(1) show ?thesis
    by (intro exI [of _ hi]) (auto simp: sys_inv_def writer_inv_def adopt_def log_inv_def)
next
  case (failed_boot c e)
  have "unchanged view (lw_ds (ls_writer y)) c"
    using resolve_loop_cases [OF failed_boot(2) [unfolded resolve_current_def], of lo hi] assms(2)
    by (auto simp: sys_inv_def writer_inv_def)
  with log_inv_unchanged [of "lw_ds (ls_writer y)" c lo hi] assms(2) failed_boot(1) show ?thesis
    by (intro exI [of _ hi]) (auto simp: sys_inv_def writer_inv_def)
qed

lemma log_reach_inv: "log_reach S cfg x y \<Longrightarrow> sys_inv view lo hi x \<Longrightarrow> \<exists>hi' \<ge> hi. sys_inv view lo hi' y"
  by (induction rule: log_reach.induct) (use log_step_inv le_trans in blast)+

text \<open>Liveness: when every request is answered truthfully, a commit succeeds, in at most two attempts.\<close>

lemma head_live:
  assumes "responsive S view R" "R (dc_srv c)" "stream_at view c (segment_path m) = Some (es, cl)"
  shows "\<exists>c1 h. head_stream S (segment_path m) c = (c1, Inr (Some h)) \<and> unchanged view c c1 \<and> sh_closed h = cl \<and> R (dc_srv c1)"
proof -
  obtain p where p: "qualify (dc_scope c) (segment_path m) = Inr p" by (simp add: qualify_def segment_path_valid)
  obtain c1 r where h: "head_stream S (segment_path m) c = (c1, r)" by fastforce
  from p assms(3) have "view (dc_srv c) p \<noteq> None" by (simp add: stream_at_def)
  with assms(1,2) obtain s' res where s': "ss_head S p (dc_srv c) = (s', Inr res)" "success (rs_status res)" "R s'"
    unfolding responsive_def by metis
  then have "\<exists>x. r = Inr (Some x)" "R (dc_srv c1)" using h p by (auto simp: head_stream_def request_def success_def)
  with head_cases [OF h] assms(3) h show ?thesis by auto
qed

lemma resolve_loop_live:
  assumes "responsive S view R" and "R (dc_srv c)" "log_inv view lo hi c" "lo \<le> cur" "cur \<le> hi" "hi - cur < n"
  shows "\<exists>c'. resolve_loop n S frm True cur c = (c', Ok hi) \<and> R (dc_srv c')"
  using assms(2-)
proof (induction n arbitrary: cur c)
  case (Suc n)
  from log_inv_seg [OF Suc.prems(2-4)] head_live [OF assms(1) Suc.prems(1)] obtain c1 h where
    h: "head_stream S (segment_path cur) c = (c1, Inr (Some h))" "unchanged view c c1" "sh_closed h = (cur < hi)" "R (dc_srv c1)"
    unfolding seg_def by metis
  have inv1: "log_inv view lo hi c1" using log_inv_unchanged h(2) Suc.prems(2) by blast
  show ?case
  proof (cases "cur = hi")
    case True
    with h show ?thesis by (simp add: resolve_loop.simps [of "Suc n"])
  next
    case False
    with Suc.prems(4) have lt: "cur < hi" by simp
    from log_inv_seg [OF inv1, of "cur + 1"] head_live [OF assms(1) h(4)] lt Suc.prems(3) obtain c2 h2 where
      h2: "head_stream S (segment_path (cur + 1)) c1 = (c2, Inr (Some h2))" "unchanged view c1 c2" "R (dc_srv c2)"
      unfolding seg_def by (metis Suc_eq_plus1 Suc_leI le_SucI)
    have inv2: "log_inv view lo hi c2" using log_inv_unchanged h2(2) inv1 by blast
    have "resolve_loop (Suc n) S frm True cur c = resolve_loop n S frm True (cur + 1) c2"
      using h h2 lt by (simp add: resolve_loop.simps [of "Suc n"] next_segment_for_reader_def)
    with Suc.IH [OF h2(3) inv2, of "cur + 1"] Suc.prems lt show ?thesis by auto
  qed
qed simp

lemma append_live:
  assumes "responsive S view R" "R (dc_srv c)" "envs \<noteq> []" "stream_at view c (segment_path n) = Some (es, cl)"
  shows "\<exists>c1 r. append_checked S (segment_path n) envs c = (c1, Ok r) \<and> R (dc_srv c1) \<and> (cl \<longrightarrow> (\<exists>x. r = Retired x))
     \<and> (\<not> cl \<longrightarrow> (\<exists>off. r = Appended off))"
proof -
  obtain p where p: "qualify (dc_scope c) (segment_path n) = Inr p" by (simp add: qualify_def segment_path_valid)
  with assms(4) have v: "view (dc_srv c) p = Some (es, cl)" by (simp add: stream_at_def)
  from assms(1,2) obtain s' res where s': "ss_append S p envs (dc_srv c) = (s', Inr res)" "R s'"
    "if \<exists>es. view (dc_srv c) p = Some (es, False) then success (rs_status res)
     else rs_status res = 404 \<or> rs_status res = 410 \<or> rs_status res = 409 \<and> rs_closed res"
    unfolding responsive_def by metis
  with v p assms(3) show ?thesis
    by (cases cl) (auto simp: append_checked_def append_once_def success_def split: prod.splits)
qed

lemma append_loop_live:
  assumes "responsive S view R" "R (dc_srv (lw_ds w))" "envs \<noteq> []" "writer_inv view lo hi w"
    and "hi - cs_current (lw_state w) < 1000000"
  shows "\<exists>w'. append_loop (Suc (Suc k)) S now envs w = (w', Ok ())"
proof -
  let ?cur = "cs_current (lw_state w)"
  have wi: "log_inv view lo hi (lw_ds w)" "lo \<le> ?cur" "?cur \<le> hi" using assms(4) by (auto simp: writer_inv_def)
  from log_inv_seg [OF wi] append_live [OF assms(1-3)] obtain c1 r where
    a: "append_checked S (segment_path ?cur) envs (lw_ds w) = (c1, Ok r)" "R (dc_srv c1)"
      "?cur < hi \<longrightarrow> (\<exists>x. r = Retired x)" "\<not> ?cur < hi \<longrightarrow> (\<exists>off. r = Appended off)"
    unfolding seg_def by metis
  show ?thesis
  proof (cases "?cur < hi")
    case False
    with a show ?thesis by auto
  next
    case True
    then obtain x where r: "r = Retired x" using a by blast
    note ac = append_checked_seg [OF a(1) assms(3) wi]
    have inv1: "writer_inv view lo hi (w\<lparr>lw_ds := c1\<rparr>)" using ac(1) assms(4) by (simp add: writer_inv_def)
    from resolve_loop_live [OF assms(1) a(2) ac(1) wi(2,3) assms(5)] obtain c2 where
      c2: "resolve_current S ?cur True c1 = (c2, Ok hi)" "R (dc_srv c2)" by (auto simp: resolve_current_def)
    obtain w2 r2 where f: "resolve_forward S now (w\<lparr>lw_ds := c1\<rparr>) = (w2, r2)" by fastforce
    with c2 have w2: "r2 = Ok ()" "R (dc_srv (lw_ds w2))"
      by (auto simp: resolve_forward_def Let_def note_began_fold simp del: upt_Suc)
    note fc = resolve_forward_cases [OF f inv1]
    from fc w2 have cur2: "cs_current (lw_state w2) = hi" "log_inv view lo hi (lw_ds w2)" by (auto simp: writer_inv_def)
    then obtain es where "stream_at view (lw_ds w2) (segment_path hi) = Some (es, False)" by (auto simp: log_inv_def seg_def)
    from append_live [OF assms(1) w2(2) assms(3) this] obtain c3 off where
      "append_checked S (segment_path hi) envs (lw_ds w2) = (c3, Ok (Appended off))" by auto
    with a(1) r f w2(1) cur2(1) show ?thesis by simp
  qed
qed

end

section \<open>Properties\<close>


definition ex_seg0 :: string where
  "ex_seg0 = ''circuits/v1/test-stack/stores/b/queries/test-query/changes/0''"

definition ex_log_writer :: "fault_kind list \<Rightarrow> mem_state log_writer" where
  "ex_log_writer script =
     \<lparr>lw_ds = \<lparr>dc_scope = ex_scope, dc_srv = \<lparr>ms_streams = [ex_seg0 \<mapsto> ([], False)], ms_script = script\<rparr>, dc_appended = (\<lambda>_. 0)\<rparr>,
      lw_state = cs_default, lw_rotated = []\<rparr>"

lemma segment_0: "segment_path 0 = ''changes/0''"
  by (simp add: segment_path_def CHANGES_PREFIX_def show_nat.simps [of 0] digit_char_def) code_simp

lemma ex_seg0_qualify: "qualify ex_scope (segment_path 0) = Inr ex_seg0"
  unfolding segment_0 by (simp add: qualify_def validate_logical_path_def ex_scope_def ex_identity_def ex_seg0_def)

lemma ex_writer_inv: "writer_inv ms_streams 0 0 (ex_log_writer script)"
proof -
  let ?c = "lw_ds (ex_log_writer script)"
  have c: "dc_scope ?c = ex_scope" by (simp add: ex_log_writer_def)
  have "seg ms_streams ?c 0 = Some ([], False)"
    by (simp add: seg_def stream_at_def c ex_seg0_qualify) (simp add: ex_log_writer_def)
  moreover have "seg ms_streams ?c n = None" if "0 < n" for n
  proof -
    obtain p where p: "qualify ex_scope (segment_path n) = Inr p" by (simp add: qualify_def segment_path_valid)
    then have "p \<noteq> ex_seg0"
      using qualify_eq_iff [OF ex_scope_ok ex_scope_ok segment_path_valid [of n] segment_path_valid [of 0]] ex_seg0_qualify that
      by auto
    with p show ?thesis by (simp add: seg_def stream_at_def c) (simp add: ex_log_writer_def)
  qed
  ultimately show ?thesis using ex_scope_ok
    by (simp add: writer_inv_def log_inv_def c) (simp add: ex_log_writer_def cs_default_def)
qed

definition ex_log_sys :: "fault_kind list \<Rightarrow> mem_state log_sys" where
  "ex_log_sys script = \<lparr>ls_writer = ex_log_writer script, ls_catalog = 0, ls_acked = []\<rparr>"

lemma mem_append_open:
  assumes "qualify (dc_scope c) path = Inr p" "ms_streams (dc_srv c) p = Some (es, False)" "envs \<noteq> []"
  shows "append_checked mem_store path envs (c\<lparr>dc_srv := (dc_srv c)\<lparr>ms_script := [LostReply]\<rparr>\<rparr>) =
     (c\<lparr>dc_srv := \<lparr>ms_streams = (ms_streams (dc_srv c))(p \<mapsto> (es @ envs, False)), ms_script = []\<rparr>\<rparr>, Inl (Io ''timeout''))"
    and "\<exists>c'. append_checked mem_store path envs (c\<lparr>dc_srv := (dc_srv c)\<lparr>ms_script := []\<rparr>\<rparr>) = (c', Inr (Appended None))"
  using assms by (simp_all add: append_checked_def append_once_def mem_store_def mem_op_def answer_def success_def)


text \<open>C26: A commit gets through. Over a store that answers its requests, appending a commit succeeds
  however far the open segment has moved past the one the writer believes current (up to the
  walk's bound of a million segments), and the eight attempts of the code are enough.\<close>

theorem append_commit_live:
  assumes "durable_store S view" and "responsive S view R" and "R (dc_srv (lw_ds w))"
    and "writer_inv view lo hi w" and "hi - cs_current (lw_state w) < 1000000"
  shows "\<exists>w'. append_commit S now envs w = (w', Ok ())"
proof (cases "envs = []")
  case False
  have "append_loop 8 S now envs w = append_loop (Suc (Suc 6)) S now envs w" by simp
  with durable_store.append_loop_live [OF assms(1-3) False assms(4,5), of 6 now] False show ?thesis
    by (simp only: append_commit_def if_False)
qed (simp add: append_commit_def)

lemma mem_responsive: "responsive mem_store ms_streams (\<lambda>s. ms_script s = [])"
  unfolding responsive_def
proof (intro conjI allI impI)
  fix p and s :: mem_state assume s: "ms_script s = []"
  show "\<exists>s' res. ss_head mem_store p s = (s', Inr res) \<and> ms_script s' = [] \<and>
      (if ms_streams s p = None then rs_status res = 404 else success (rs_status res))"
    using s by (auto simp: mem_store_def mem_op_def answer_def success_def split: option.splits)
  fix envs
  show "\<exists>s' res. ss_append mem_store p envs s = (s', Inr res) \<and> ms_script s' = [] \<and>
      (if \<exists>es. ms_streams s p = Some (es, False) then success (rs_status res)
       else rs_status res = 404 \<or> rs_status res = 410 \<or> rs_status res = 409 \<and> rs_closed res)"
    using s by (cases "ms_streams s p") (auto simp: mem_store_def mem_op_def answer_def success_def Let_def split: prod.splits)
qed

theorem append_commit_live_witness:
  "\<exists>w'. append_commit mem_store 5 [ex_env] (ex_log_writer []) = (w', Ok ())"
proof (rule append_commit_live [OF mem.durable_store_axioms mem_responsive _ ex_writer_inv])
  show "ms_script (dc_srv (lw_ds (ex_log_writer []))) = []" by (simp add: ex_log_writer_def)
qed simp

text \<open>Deleting segments is safe and complete. The plan evicts exactly the evictable shapes whose
  segment was rotated out at least the retain window ago; it deletes exactly the known segments
  below the current one, below the sequencer's checkpoint and below every pin that stays. With the
  retain window off it evicts nothing.\<close>

theorem plan_segment_deletion_exact:
  "set (pl_evict (plan_segment_deletion segments current checkpoint pins retain now)) =
     {sp_shape_id p |p. p \<in> set pins \<and> pin_stale segments current retain now p}
   \<and> set (pl_delete (plan_segment_deletion segments current checkpoint pins retain now)) =
     {n \<in> fst ` set segments. n < current \<and> n < checkpoint
        \<and> {p \<in> set pins. \<not> pin_stale segments current retain now p \<and> sp_segment p \<le> n} = {}}
   \<and> pl_evict (plan_segment_deletion segments current checkpoint pins 0 now) = []"
proof -
  have min: "n < foldr min xs c \<longleftrightarrow> n < c \<and> (\<forall>x \<in> set xs. n < x)" for n c and xs :: "nat list"
    by (induction xs) auto
  show ?thesis by (auto simp: plan_segment_deletion_def Let_def min pin_stale_def)
qed

text \<open>Control envelopes are told from data by their type alone. The pointer written at a rotation
  reads back as the successor's number, and the last pointer of a batch wins; no envelope of a table
  the configuration accepts is ever taken for control metadata.\<close>

theorem control_envelopes_exact:
  "(n \<le> u32_max \<longrightarrow> rotation_target_in (pre @ rotation_envelope n # post) =
       (case rotation_target_in post of None \<Rightarrow> Some n | Some m \<Rightarrow> Some m))
   \<and> (table_parse str = Ok t \<longrightarrow> e_type env = table_as_str t \<longrightarrow> \<not> is_control env \<and> rotation_target env = None)"
proof (intro conjI impI)
  assume n: "n \<le> u32_max"
  have "rotation_target (rotation_envelope n) = Some n"
    using n by (simp add: rotation_target_def) (simp add: rotation_envelope_def obj_get_def as_u64_def u64_max_def u32_max_def)
  then show "rotation_target_in (pre @ rotation_envelope n # post) = (case rotation_target_in post of None \<Rightarrow> Some n | Some m \<Rightarrow> Some m)"
    by (auto simp: rotation_target_in_def List.map_filter_def split: list.splits)
next
  assume t: "table_parse str = Ok t" "e_type env = table_as_str t"
  from table_parse_edges(1) [OF t(1)] have wf: "table_wf t" .
  have "table_as_str t \<noteq> CONTROL_TYPE"
  proof
    assume eq: "table_as_str t = CONTROL_TYPE"
    with wf have "table_schema t @ CHR ''.'' # table_name t = RESERVED_SCHEMA @ CHR ''.'' # ''control''"
      by (simp add: table_wf_def table_as_str_def CONTROL_TYPE_def RESERVED_SCHEMA_def)
    moreover have "CHR ''.'' \<notin> set (table_schema t)" "CHR ''.'' \<notin> set RESERVED_SCHEMA"
      using wf by (auto simp: table_wf_def ok_part_def RESERVED_SCHEMA_def)
    ultimately show False using wf append_sep_inj [of "CHR ''.''"] by (auto simp: table_wf_def)
  qed
  with t(2) show "\<not> is_control env" "rotation_target env = None" by (simp_all add: is_control_def rotation_target_def)
qed

theorem control_envelopes_exact_witness:
  "rotation_target_in [ex_env, rotation_envelope 7] = Some 7 \<and> \<not> is_control ex_env"
proof
  show "rotation_target_in [ex_env, rotation_envelope 7] = Some 7"
    using control_envelopes_exact [of 7 "[ex_env]" "[]"] by (simp add: u32_max_def rotation_target_in_def List.map_filter_def)
  have "table_parse ''public.t'' = Ok \<lparr>canon = ''public.t'', dot = 6\<rparr>" by code_simp
  then show "\<not> is_control ex_env" using control_envelopes_exact by (simp add: ex_env_def table_as_str_def)
qed

end
