(* ===== verification/Receipts.thy ===== *)
theory Receipts
  imports ChangeLog
begin

text \<open>
  Drain receipts: the bounded cache of runtime receipts with its markers and staging
  (\<^verbatim>\<open>apps/engine/src/runtime_authority.rs\<close>) and the order of source receipts around a closure of
  admission (\<^verbatim>\<open>engine/mod.rs\<close>, \<open>SourceReceiptProgress\<close>). A UUID is its canonical text; the library's
  parser followed by its printer is the argument \<open>uuid_canon\<close>. Instants are numbers of seconds.
\<close>

definition ENVELOPE_TYPE :: string where "ENVELOPE_TYPE = ''__circuits.runtime_authority_fence''"
definition RECEIPT_CAPACITY :: nat where "RECEIPT_CAPACITY = 65536"
definition RECEIPT_TTL :: nat where "RECEIPT_TTL = 600"

section \<open>Markers and fences\<close>

record authority_marker =
  am_source_commit_id :: string
  am_user_id :: string
  am_generation :: string

definition lower_hex :: "char \<Rightarrow> bool" where
  "lower_hex c \<longleftrightarrow> is_ascii_digit c \<or> (97 \<le> code_of c \<and> code_of c \<le> 102)"

definition is_uuid_text :: "(string \<Rightarrow> string option) \<Rightarrow> string \<Rightarrow> bool" where
  "is_uuid_text uuid_canon v \<longleftrightarrow> utf8_len v = 36 \<and> uuid_canon v = Some v"

definition marker_parse :: "(string \<Rightarrow> string option) \<Rightarrow> string \<Rightarrow> string \<Rightarrow> string \<Rightarrow> authority_marker option" where
  "marker_parse uuid_canon source_commit_id user_id generation =
     (if \<not> is_uuid_text uuid_canon source_commit_id \<or> \<not> is_uuid_text uuid_canon user_id then None
      else if utf8_len generation \<noteq> 64 \<or> \<not> list_all lower_hex generation then None
      else Some \<lparr>am_source_commit_id = source_commit_id, am_user_id = user_id, am_generation = generation\<rparr>)"

record runtime_fence =
  rf_marker :: authority_marker
  rf_incarnation :: string

definition into_envelope :: "runtime_fence \<Rightarrow> envelope" where
  "into_envelope f =
     \<lparr>e_type = ENVELOPE_TYPE, e_key = am_source_commit_id (rf_marker f),
      e_value = Some (JObj [(''generation'', JStr (am_generation (rf_marker f))), (''incarnation'', JStr (rf_incarnation f)),
        (''sourceCommitId'', JStr (am_source_commit_id (rf_marker f))), (''userId'', JStr (am_user_id (rf_marker f)))]),
      e_old = None,
      e_headers = \<lparr>h_operation = ''runtime_authority_fence'', h_txid = None, h_offset = None, h_lsn = None, h_seq = None, h_last = None\<rparr>\<rparr>"

definition str_field :: "json \<Rightarrow> string \<Rightarrow> string option" where
  "str_field v k = Option.bind (obj_get v k) as_str"

definition from_envelope :: "(string \<Rightarrow> string option) \<Rightarrow> envelope \<Rightarrow> runtime_fence option" where
  "from_envelope uuid_canon env =
     (if e_type env \<noteq> ENVELOPE_TYPE then None
      else Option.bind (e_value env) (\<lambda>v.
        Option.bind (str_field v ''sourceCommitId'') (\<lambda>s. Option.bind (str_field v ''userId'') (\<lambda>u.
        Option.bind (str_field v ''generation'') (\<lambda>g. Option.bind (marker_parse uuid_canon s u g) (\<lambda>marker.
        Option.bind (str_field v ''incarnation'') (\<lambda>inc. Option.bind (uuid_canon inc) (\<lambda>incarnation.
          if e_key env = am_source_commit_id marker
          then Some \<lparr>rf_marker = marker, rf_incarnation = incarnation\<rparr> else None))))))))"

record pending_fences =
  pf_fences :: "runtime_fence list"
  pf_overflowed :: bool

definition pending_fences_default :: pending_fences where
  "pending_fences_default = \<lparr>pf_fences = [], pf_overflowed = False\<rparr>"

definition stage :: "(string \<Rightarrow> string option) \<Rightarrow> envelope \<Rightarrow> string \<Rightarrow> pending_fences \<Rightarrow> pending_fences" where
  "stage uuid_canon env incarnation p =
     (if length (pf_fences p) = RECEIPT_CAPACITY then p\<lparr>pf_overflowed := True\<rparr>
      else (case from_envelope uuid_canon env of
              Some f \<Rightarrow> if rf_incarnation f = incarnation then p\<lparr>pf_fences := pf_fences p @ [f]\<rparr> else p
            | None \<Rightarrow> p))"

section \<open>The receipt cache\<close>

record runtime_receipt =
  rt_marker :: authority_marker
  rt_commit_lsn :: string

record runtime_receipts =
  rc_incarnation :: string
  rc_receipts :: "authority_marker \<Rightarrow> (runtime_receipt \<times> nat) option"
  rc_fifo :: "authority_marker list"

definition receipts_new :: "string \<Rightarrow> runtime_receipts" where
  "receipts_new fresh = \<lparr>rc_incarnation = fresh, rc_receipts = Map.empty, rc_fifo = []\<rparr>"

text \<open>The fresh incarnation is drawn by the caller.\<close>

definition invalidate :: "string \<Rightarrow> runtime_receipts \<Rightarrow> runtime_receipts" where
  "invalidate fresh rs = rs\<lparr>rc_incarnation := fresh, rc_receipts := Map.empty, rc_fifo := []\<rparr>"

definition remove_oldest :: "runtime_receipts \<Rightarrow> runtime_receipts" where
  "remove_oldest rs =
     (case rc_fifo rs of
        [] \<Rightarrow> rs
      | m # ms \<Rightarrow> rs\<lparr>rc_fifo := ms, rc_receipts := (rc_receipts rs)(m := None)\<rparr>)"

definition stale :: "nat \<Rightarrow> runtime_receipts \<Rightarrow> authority_marker \<Rightarrow> bool" where
  "stale now rs m = (case rc_receipts rs m of None \<Rightarrow> True | Some (_, t) \<Rightarrow> now - t \<ge> RECEIPT_TTL)"

function expire :: "nat \<Rightarrow> runtime_receipts \<Rightarrow> runtime_receipts" where
  "expire now rs = (if rc_fifo rs \<noteq> [] \<and> stale now rs (hd (rc_fifo rs)) then expire now (remove_oldest rs) else rs)"
  by auto
termination
  by (relation "measure (\<lambda>(now, rs). length (rc_fifo rs))") (auto simp: remove_oldest_def neq_Nil_conv)

declare expire.simps [simp del]

definition receipt_get :: "authority_marker \<Rightarrow> nat \<Rightarrow> runtime_receipts \<Rightarrow> runtime_receipts \<times> runtime_receipt option" where
  "receipt_get marker now rs =
     (let rs1 = expire now rs in (rs1, map_option fst (rc_receipts rs1 marker)))"

definition publish_fence :: "string \<Rightarrow> nat \<Rightarrow> runtime_fence \<Rightarrow> runtime_receipts \<Rightarrow> runtime_receipts" where
  "publish_fence commit_lsn now f rs =
     (if rf_incarnation f \<noteq> rc_incarnation rs \<or> rc_receipts rs (rf_marker f) \<noteq> None then rs
      else (let rs1 = (if length (rc_fifo rs) = RECEIPT_CAPACITY then remove_oldest rs else rs) in
            rs1\<lparr>rc_fifo := rc_fifo rs1 @ [rf_marker f],
                rc_receipts := (rc_receipts rs1)(rf_marker f \<mapsto> (\<lparr>rt_marker = rf_marker f, rt_commit_lsn = commit_lsn\<rparr>, now))\<rparr>))"

definition publish :: "string \<Rightarrow> runtime_fence list \<Rightarrow> string \<Rightarrow> nat \<Rightarrow> runtime_receipts \<Rightarrow> runtime_receipts" where
  "publish transaction_incarnation fences commit_lsn now rs =
     (if transaction_incarnation \<noteq> rc_incarnation rs then rs
      else fold (publish_fence commit_lsn now) fences (expire now rs))"

section \<open>Source receipts around a closure\<close>

record receipt_progress =
  sp_next_sequence :: nat
  sp_sequences :: "string \<Rightarrow> nat option"
  sp_closure_watermark :: "nat option"

definition progress_default :: receipt_progress where
  "progress_default = \<lparr>sp_next_sequence = 0, sp_sequences = Map.empty, sp_closure_watermark = None\<rparr>"

definition record_receipt :: "string \<Rightarrow> receipt_progress \<Rightarrow> receipt_progress" where
  "record_receipt i p =
     (if sp_sequences p i \<noteq> None then p
      else p\<lparr>sp_next_sequence := sp_next_sequence p + 1, sp_sequences := (sp_sequences p)(i \<mapsto> sp_next_sequence p + 1)\<rparr>)"

definition record_restored :: "string \<Rightarrow> receipt_progress \<Rightarrow> receipt_progress" where
  "record_restored i p =
     (if sp_sequences p i \<noteq> None then p
      else (case sp_closure_watermark p of
              Some w \<Rightarrow> p\<lparr>sp_sequences := (sp_sequences p)(i \<mapsto> w)\<rparr>
            | None \<Rightarrow> record_receipt i p))"

definition snapshot_closure :: "receipt_progress \<Rightarrow> receipt_progress" where
  "snapshot_closure p = p\<lparr>sp_closure_watermark := Some (sp_next_sequence p)\<rparr>"

definition clear_closure :: "receipt_progress \<Rightarrow> receipt_progress" where
  "clear_closure p = p\<lparr>sp_closure_watermark := None\<rparr>"

definition is_after_closure :: "string \<Rightarrow> receipt_progress \<Rightarrow> bool" where
  "is_after_closure i p =
     (case (sp_closure_watermark p, sp_sequences p i) of
        (Some w, Some n) \<Rightarrow> n > w
      | _ \<Rightarrow> False)"

definition has_closure :: "receipt_progress \<Rightarrow> bool" where
  "has_closure p \<longleftrightarrow> sp_closure_watermark p \<noteq> None"

section \<open>The cache as a state machine\<close>

text \<open>What the rest of the engine does with the cache, at a clock that never goes back. The history
  keeps what was published under the current incarnation.\<close>

record cache_sys =
  cx_cache :: runtime_receipts
  cx_clock :: nat
  cx_published :: "(runtime_receipt \<times> nat) set"

definition fence_entry :: "string \<Rightarrow> nat \<Rightarrow> runtime_fence \<Rightarrow> runtime_receipt \<times> nat" where
  "fence_entry lsn now f = (\<lparr>rt_marker = rf_marker f, rt_commit_lsn = lsn\<rparr>, now)"

inductive cache_step :: "cache_sys \<Rightarrow> cache_sys \<Rightarrow> bool" where
  Publish: "cx_clock y \<le> now \<Longrightarrow>
     cache_step y (y\<lparr>cx_cache := publish inc fences lsn now (cx_cache y), cx_clock := now,
       cx_published := cx_published y \<union>
         (if inc = rc_incarnation (cx_cache y)
          then fence_entry lsn now ` {f \<in> set fences. rf_incarnation f = inc} else {})\<rparr>)"
| Get: "cx_clock y \<le> now \<Longrightarrow>
     cache_step y (y\<lparr>cx_cache := fst (receipt_get m now (cx_cache y)), cx_clock := now\<rparr>)"
| Invalidate: "cache_step y (y\<lparr>cx_cache := invalidate fresh (cx_cache y), cx_published := {}\<rparr>)"

inductive cache_reach :: "cache_sys \<Rightarrow> bool" where
  Start: "cache_reach \<lparr>cx_cache = receipts_new fresh, cx_clock = t, cx_published = {}\<rparr>"
| Step: "cache_reach y \<Longrightarrow> cache_step y z \<Longrightarrow> cache_reach z"

text \<open>The queue lists exactly the cached markers, once each, oldest first.\<close>

definition cache_inv :: "cache_sys \<Rightarrow> bool" where
  "cache_inv y \<longleftrightarrow> (let rs = cx_cache y in
     distinct (rc_fifo rs) \<and> set (rc_fifo rs) = dom (rc_receipts rs) \<and> length (rc_fifo rs) \<le> RECEIPT_CAPACITY
     \<and> sorted (map (\<lambda>m. snd (the (rc_receipts rs m))) (rc_fifo rs))
     \<and> (\<forall>m r t. rc_receipts rs m = Some (r, t) \<longrightarrow> rt_marker r = m \<and> t \<le> cx_clock y \<and> (r, t) \<in> cx_published y))"

text \<open>The part of the invariant that the operations of the cache keep, at time \<open>now\<close> and for published
  entries \<open>P\<close>.\<close>

definition cache_ok :: "nat \<Rightarrow> (runtime_receipt \<times> nat) set \<Rightarrow> runtime_receipts \<Rightarrow> bool" where
  "cache_ok now P rs \<longleftrightarrow>
     distinct (rc_fifo rs) \<and> set (rc_fifo rs) = dom (rc_receipts rs) \<and> length (rc_fifo rs) \<le> RECEIPT_CAPACITY
     \<and> sorted (map (\<lambda>m. snd (the (rc_receipts rs m))) (rc_fifo rs))
     \<and> (\<forall>m r t. rc_receipts rs m = Some (r, t) \<longrightarrow> rt_marker r = m \<and> t \<le> now \<and> (r, t) \<in> P)"

lemma cache_inv_ok: "cache_inv y \<longleftrightarrow> cache_ok (cx_clock y) (cx_published y) (cx_cache y)"
  by (simp add: cache_inv_def cache_ok_def Let_def)

lemma cache_ok_mono: "cache_ok now P rs \<Longrightarrow> now \<le> now' \<Longrightarrow> P \<subseteq> P' \<Longrightarrow> cache_ok now' P' rs"
  unfolding cache_ok_def by (meson le_trans subsetD)

lemma cache_ok_remove:
  assumes "cache_ok now P rs"
  shows "cache_ok now P (remove_oldest rs)"
proof (cases "rc_fifo rs")
  case (Cons m ms)
  have "sorted (map (\<lambda>x. snd (the (if x = m then None else rc_receipts rs x))) ms)
      \<longleftrightarrow> sorted (map (\<lambda>x. snd (the (rc_receipts rs x))) ms)"
    using assms Cons by (intro arg_cong [of _ _ sorted] map_cong) (auto simp: cache_ok_def)
  with assms Cons show ?thesis unfolding cache_ok_def remove_oldest_def by (auto split: if_splits)
qed (use assms in \<open>simp add: remove_oldest_def\<close>)

lemma remove_oldest_length: "length (rc_fifo (remove_oldest rs)) = length (rc_fifo rs) - 1"
  by (auto simp: remove_oldest_def split: list.splits)

lemma remove_oldest_incarnation [simp]: "rc_incarnation (remove_oldest rs) = rc_incarnation rs"
  by (simp add: remove_oldest_def split: list.splits)

lemma cache_ok_expire: "cache_ok now P rs \<Longrightarrow> cache_ok now P (expire t rs)"
proof (induction t rs rule: expire.induct)
  case (1 t rs)
  then show ?case by (subst expire.simps) (auto intro: cache_ok_remove)
qed

lemma expire_incarnation [simp]: "rc_incarnation (expire t rs) = rc_incarnation rs"
proof (induction t rs rule: expire.induct)
  case (1 t rs)
  then show ?case by (subst expire.simps) auto
qed

lemma expire_head: "rc_fifo (expire t rs) \<noteq> [] \<Longrightarrow> \<not> stale t (expire t rs) (hd (rc_fifo (expire t rs)))"
proof (induction t rs rule: expire.induct)
  case (1 t rs)
  show ?case
  proof (cases "rc_fifo rs \<noteq> [] \<and> stale t rs (hd (rc_fifo rs))")
    case True
    with 1 show ?thesis by (simp add: expire.simps [of t rs])
  next
    case False
    with 1 show ?thesis by (subst (1 2) expire.simps) (simp add: expire.simps [of t rs])
  qed
qed

text \<open>Expiry leaves only receipts younger than the time to live: the queue is in insertion order, so the
  scan may stop at the first young one.\<close>

lemma expire_fresh:
  assumes ok: "cache_ok now P rs" and "rc_receipts (expire t rs) m = Some (r, u)"
  shows "t - u < RECEIPT_TTL"
proof -
  let ?rs = "expire t rs"
  have ok': "cache_ok now P ?rs" by (rule cache_ok_expire [OF ok])
  then have m: "m \<in> set (rc_fifo ?rs)" using assms(2) by (auto simp: cache_ok_def)
  then obtain h tl where q: "rc_fifo ?rs = h # tl" by (cases "rc_fifo ?rs") auto
  then obtain rh th where h: "rc_receipts ?rs h = Some (rh, th)" using ok' by (fastforce simp: cache_ok_def)
  have "t - th < RECEIPT_TTL" using expire_head [of t rs] q h by (simp add: stale_def)
  moreover have "th \<le> u"
  proof (cases "m = h")
    case False
    then have "th \<le> snd (the (rc_receipts ?rs m))" using ok' m q h by (auto simp: cache_ok_def)
    then show ?thesis using assms(2) by simp
  qed (use h assms(2) in simp)
  ultimately show ?thesis by simp
qed

lemma cache_ok_publish_fence:
  assumes ok: "cache_ok now P rs" and "rf_incarnation f = rc_incarnation rs \<Longrightarrow> fence_entry lsn now f \<in> P"
  shows "cache_ok now P (publish_fence lsn now f rs)"
proof (cases "rf_incarnation f \<noteq> rc_incarnation rs \<or> rc_receipts rs (rf_marker f) \<noteq> None")
  case True
  with ok show ?thesis by (simp add: publish_fence_def)
next
  case False
  define rs1 where "rs1 = (if length (rc_fifo rs) = RECEIPT_CAPACITY then remove_oldest rs else rs)"
  have ok1: "cache_ok now P rs1" using ok cache_ok_remove by (simp add: rs1_def)
  have len: "length (rc_fifo rs1) < RECEIPT_CAPACITY"
    using ok by (auto simp: rs1_def cache_ok_def remove_oldest_length RECEIPT_CAPACITY_def)
  have new: "rf_marker f \<notin> set (rc_fifo rs1)" 
    using False ok1 by (auto simp: rs1_def cache_ok_def remove_oldest_def split: list.splits if_splits)
  have old: "map (\<lambda>x. snd (the (((rc_receipts rs1)(rf_marker f \<mapsto> e)) x))) (rc_fifo rs1)
      = map (\<lambda>x. snd (the (rc_receipts rs1 x))) (rc_fifo rs1)" for e
    using new by auto
  have times: "\<forall>x \<in> set (rc_fifo rs1). snd (the (rc_receipts rs1 x)) \<le> now"
    using ok1 by (fastforce simp: cache_ok_def)
  have P: "fence_entry lsn now f \<in> P" using assms(2) False by simp
  have eq: "publish_fence lsn now f rs = rs1\<lparr>rc_fifo := rc_fifo rs1 @ [rf_marker f],
      rc_receipts := (rc_receipts rs1)(rf_marker f \<mapsto> fence_entry lsn now f)\<rparr>"
    using False by (simp add: publish_fence_def fence_entry_def rs1_def Let_def)
  show ?thesis
    using ok1 len new times P unfolding eq cache_ok_def
    by (auto simp: sorted_append fence_entry_def old simp del: fun_upd_apply split: if_splits) (auto split: if_splits)
qed

lemma publish_fence_incarnation [simp]: "rc_incarnation (publish_fence lsn now f rs) = rc_incarnation rs"
  by (simp add: publish_fence_def Let_def)

lemma cache_ok_publish:
  assumes "cache_ok now P rs"
    and "\<And>f. inc = rc_incarnation rs \<Longrightarrow> f \<in> set fences \<Longrightarrow> rf_incarnation f = inc \<Longrightarrow> fence_entry lsn now f \<in> P"
  shows "cache_ok now P (publish inc fences lsn now rs)"
proof -
  have "cache_ok now P (fold (publish_fence lsn now) fences rs')"
    if "cache_ok now P rs'" "\<And>f. f \<in> set fences \<Longrightarrow> rf_incarnation f = rc_incarnation rs' \<Longrightarrow> fence_entry lsn now f \<in> P" for rs'
    using that
  proof (induction fences arbitrary: rs')
    case (Cons f fences)
    have "cache_ok now P (publish_fence lsn now f rs')" using Cons.prems by (intro cache_ok_publish_fence) auto
    with Cons show ?case by simp
  qed simp
  from this [of "expire now rs"] assms show ?thesis by (simp add: publish_def cache_ok_expire)
qed

lemma cache_inv_step:
  assumes "cache_inv y" "cache_step y z"
  shows "cache_inv z"
  using assms(2,1)
proof (induction rule: cache_step.induct)
  case (Publish y now inc fences lsn)
  then have "cache_ok now (cx_published y) (cx_cache y)" by (auto simp: cache_inv_ok intro: cache_ok_mono)
  then show ?case unfolding cache_inv_ok by (auto intro!: cache_ok_publish intro: cache_ok_mono)
next
  case (Get y now m)
  then show ?case by (auto simp: cache_inv_ok receipt_get_def Let_def intro: cache_ok_expire cache_ok_mono)
next
  case (Invalidate y fresh)
  then show ?case by (simp add: cache_inv_ok cache_ok_def invalidate_def)
qed

lemma cache_reach_inv: "cache_reach y \<Longrightarrow> cache_inv y"
proof (induction rule: cache_reach.induct)
  case (Start fresh t)
  then show ?case by (simp add: cache_inv_def receipts_new_def)
next
  case (Step y z)
  then show ?case by (blast intro: cache_inv_step)
qed

text \<open>C35: the receipt cache is bounded and never lies. In every reachable state it holds at most its
  capacity, its queue and its map agree, and a receipt handed out names the marker that was asked
  for, was published under the incarnation current since the last invalidation, and is younger
  than the time to live.\<close>

theorem receipts_sound:
  assumes "cache_reach y"
  shows "length (rc_fifo (cx_cache y)) \<le> RECEIPT_CAPACITY
    \<and> set (rc_fifo (cx_cache y)) = dom (rc_receipts (cx_cache y))
    \<and> (\<forall>m now r. cx_clock y \<le> now \<and> snd (receipt_get m now (cx_cache y)) = Some r \<longrightarrow>
         rt_marker r = m \<and> (\<exists>t. (r, t) \<in> cx_published y \<and> t \<le> now \<and> now - t < RECEIPT_TTL))"
proof -
  have inv: "cache_inv y" by (rule cache_reach_inv [OF assms])
  have "rt_marker r = m \<and> (\<exists>t. (r, t) \<in> cx_published y \<and> t \<le> now \<and> now - t < RECEIPT_TTL)"
    if now: "cx_clock y \<le> now" and get: "snd (receipt_get m now (cx_cache y)) = Some r" for m now r
  proof -
    from get obtain t where t: "rc_receipts (expire now (cx_cache y)) m = Some (r, t)"
      by (auto simp: receipt_get_def Let_def)
    have ok: "cache_ok now (cx_published y) (cx_cache y)"
      using inv now by (auto simp: cache_inv_ok intro: cache_ok_mono)
    from cache_ok_expire [OF this, of now] t have "rt_marker r = m" "(r, t) \<in> cx_published y" "t \<le> now"
      by (auto simp: cache_ok_def)
    with expire_fresh [OF ok t] show ?thesis by blast
  qed
  with inv show ?thesis by (auto simp: cache_inv_def Let_def)
qed

definition ex_marker :: authority_marker where
  "ex_marker = \<lparr>am_source_commit_id = ''c'', am_user_id = ''u'', am_generation = ''g''\<rparr>"

definition ex_cache :: cache_sys where
  "ex_cache =
     \<lparr>cx_cache = publish ''i'' [\<lparr>rf_marker = ex_marker, rf_incarnation = ''i''\<rparr>, \<lparr>rf_marker = ex_marker, rf_incarnation = ''j''\<rparr>] ''0/1'' 5 (receipts_new ''i''),
      cx_clock = 5, cx_published = {(\<lparr>rt_marker = ex_marker, rt_commit_lsn = ''0/1''\<rparr>, 5)}\<rparr>"

lemma ex_cache_reach: "cache_reach ex_cache"
proof -
  let ?f = "[\<lparr>rf_marker = ex_marker, rf_incarnation = ''i''\<rparr>, \<lparr>rf_marker = ex_marker, rf_incarnation = ''j''\<rparr>]"
  let ?y = "\<lparr>cx_cache = receipts_new ''i'', cx_clock = 3, cx_published = {}\<rparr>"
  have "cache_reach ?y" by (rule cache_reach.Start)
  moreover have "{f \<in> set ?f. rf_incarnation f = ''i''} = {\<lparr>rf_marker = ex_marker, rf_incarnation = ''i''\<rparr>}" by auto
  then have "cache_step ?y ex_cache"
    using cache_step.Publish [where y = ?y and now = 5 and inc = "''i''" and fences = ?f and lsn = "''0/1''"]
    by (simp add: ex_cache_def fence_entry_def receipts_new_def)
  ultimately show ?thesis by (rule cache_reach.Step)
qed

text \<open>Four hundred seconds later the receipt is served, once it is older than the time to live it is not.\<close>

theorem receipts_sound_witness:
  "snd (receipt_get ex_marker 405 (cx_cache ex_cache)) = Some \<lparr>rt_marker = ex_marker, rt_commit_lsn = ''0/1''\<rparr>
   \<and> snd (receipt_get ex_marker 605 (cx_cache ex_cache)) = None"
proof -
  have run: "cx_cache ex_cache = \<lparr>rc_incarnation = ''i'',
      rc_receipts = [ex_marker \<mapsto> (\<lparr>rt_marker = ex_marker, rt_commit_lsn = ''0/1''\<rparr>, 5)], rc_fifo = [ex_marker]\<rparr>"
    by (simp add: ex_cache_def publish_def publish_fence_def expire.simps receipts_new_def RECEIPT_CAPACITY_def Let_def)
  have "snd (receipt_get ex_marker 605 (cx_cache ex_cache)) = None"
  proof (rule ccontr)
    assume "snd (receipt_get ex_marker 605 (cx_cache ex_cache)) \<noteq> None"
    then obtain r where "snd (receipt_get ex_marker 605 (cx_cache ex_cache)) = Some r" by blast
    moreover have "cx_clock ex_cache \<le> 605" by (simp add: ex_cache_def)
    ultimately have "\<exists>t. (r, t) \<in> cx_published ex_cache \<and> t \<le> 605 \<and> 605 - t < RECEIPT_TTL"
      using receipts_sound [OF ex_cache_reach] by blast
    then obtain t where "(r, t) \<in> cx_published ex_cache" "605 - t < RECEIPT_TTL" by blast
    then show False by (simp add: ex_cache_def RECEIPT_TTL_def)
  qed
  then show ?thesis
    by (simp add: receipt_get_def run expire.simps stale_def RECEIPT_TTL_def Let_def)
qed

end
