(* ===== verification/Sequencer.thy ===== *)
theory Sequencer
  imports Receipts
begin

text \<open>
  The sequencer's read branch (\<^verbatim>\<open>apps/engine/src/engine/sequencer.rs\<close>, \<open>sequencer_loop\<close>): one page of the
  change log is stripped of control envelopes, joined to the run held from earlier pages, cut where
  its trailing transaction is incomplete, split into transactions, de-duplicated against the
  \<open>(lsn, seq)\<close> highwater and handed to the executors; then the position is published, the segment
  left if it ended, and a checkpoint sent. What happens to one envelope and at a transaction's end
  are operations of the record \<open>seq_ops\<close>, on a state of any type. Logging, metrics and the wording of
  errors are left out; whether the two-second checkpoint is due is an argument.
\<close>

definition SOURCE_FENCE_ENVELOPE :: string where "SOURCE_FENCE_ENVELOPE = ''__circuits.source_fence''"

record read_result =
  rr_envelopes :: "envelope list"
  rr_next_offset :: "string option"
  rr_up_to_date :: bool
  rr_closed :: bool

section \<open>Runs and held transactions\<close>

type_synonym run_id = "string option \<times> string option"

definition published :: "log_position \<Rightarrow> log_position option \<Rightarrow> log_position" where
  "published pos held_from = (case held_from of Some p \<Rightarrow> p | None \<Rightarrow> pos)"

definition run_key :: "envelope \<Rightarrow> run_id" where
  "run_key env = (h_txid (e_headers env), h_lsn (e_headers env))"

fun tail_loop :: "envelope list \<Rightarrow> run_id \<Rightarrow> nat \<Rightarrow> nat" where
  "tail_loop envs key 0 = 0"
| "tail_loop envs key (Suc i) = (if run_key (envs ! i) = key then tail_loop envs key i else Suc i)"

definition unterminated_tail :: "envelope list \<Rightarrow> nat option" where
  "unterminated_tail envs =
     (if envs = [] then None
      else (let l = last envs in
            if h_last (e_headers l) = Some True then None
            else if h_seq (e_headers l) = None then None
            else Some (tail_loop envs (run_key l) (length envs - 1))))"

definition keep_new :: "nat option \<Rightarrow> envelope \<Rightarrow> bool" where
  "keep_new last_seq env =
     (case (h_seq (e_headers env), last_seq) of (Some s, Some hs) \<Rightarrow> s > hs | _ \<Rightarrow> True)"

text \<open>Re-attach the held run: the joined page, the pin and the key of the run it was joined to. A page
  that starts with another transaction discards the fragment.\<close>

definition reattach ::
  "envelope list \<Rightarrow> log_position option \<Rightarrow> envelope list \<Rightarrow> envelope list \<times> log_position option \<times> run_id option" where
  "reattach held held_from envs =
     (if held = [] then (envs, held_from, None)
      else (let key = run_key (last held);
                lead = length (takeWhile (\<lambda>e. run_key e = key) envs)
            in if lead = 0 \<and> envs \<noteq> [] then (envs, None, None)
               else (held @ filter (keep_new (h_seq (e_headers (last held)))) (take lead envs) @ drop lead envs,
                     held_from, Some key)))"

definition hold_tail ::
  "log_position \<Rightarrow> envelope list \<times> log_position option \<times> run_id option \<Rightarrow> envelope list \<times> envelope list \<times> log_position option" where
  "hold_tail read_from joined =
     (case joined of (envs, held_from, merged_from) \<Rightarrow>
        (case unterminated_tail envs of
           Some n \<Rightarrow> (take n envs, drop n envs,
                         if merged_from = Some (run_key (envs ! n)) then held_from else Some read_from)
         | None \<Rightarrow> (envs, [], None)))"

section \<open>Transactions\<close>

record 'x seq_ops =
  so_handle :: "envelope \<Rightarrow> 'x \<Rightarrow> 'x result"
  so_finish :: "string option \<Rightarrow> string option \<Rightarrow> 'x \<Rightarrow> 'x"
  so_drained :: "'x \<Rightarrow> bool"
  so_publish :: "string \<Rightarrow> runtime_fence list \<Rightarrow> string \<Rightarrow> 'x \<Rightarrow> 'x"
  so_receipt :: "string \<Rightarrow> string \<Rightarrow> 'x \<Rightarrow> 'x result"
  so_incarnation :: "'x \<Rightarrow> string"

type_synonym highwater = "(nat \<times> nat) option"

definition stamp_of :: "envelope \<Rightarrow> highwater" where
  "stamp_of env =
     (case (h_lsn (e_headers env), h_seq (e_headers env)) of
        (Some l, Some s) \<Rightarrow> Some (lsn_to_u64 l, s)
      | _ \<Rightarrow> None)"

definition pos_less :: "nat \<times> nat \<Rightarrow> nat \<times> nat \<Rightarrow> bool" where
  "pos_less p q \<longleftrightarrow> fst p < fst q \<or> (fst p = fst q \<and> snd p < snd q)"

definition duplicate :: "highwater \<Rightarrow> envelope \<Rightarrow> bool" where
  "duplicate hw env = (case (stamp_of env, hw) of (Some p, Some h) \<Rightarrow> \<not> pos_less h p | _ \<Rightarrow> False)"

definition advance :: "envelope \<Rightarrow> highwater \<Rightarrow> highwater" where
  "advance env hw = (case stamp_of env of Some p \<Rightarrow> Some p | None \<Rightarrow> hw)"

record 'x txn_state =
  tx_hw :: highwater
  tx_fence :: "string option"
  tx_runtime :: pending_fences
  tx_x :: 'x

text \<open>One envelope of a transaction; \<open>None\<close> is a failure that stops the page. An unknown table is the
  handler's \<open>Ok\<close> without effect.\<close>

definition txn_env ::
  "'x seq_ops \<Rightarrow> (string \<Rightarrow> string option) \<Rightarrow> string \<Rightarrow> envelope \<Rightarrow> 'x txn_state \<Rightarrow> 'x txn_state option" where
  "txn_env ops uuid_canon inc env t =
     (if duplicate (tx_hw t) env then Some t
      else (let t' = t\<lparr>tx_hw := advance env (tx_hw t)\<rparr> in
        if e_type env = ENVELOPE_TYPE then Some (t'\<lparr>tx_runtime := stage uuid_canon env inc (tx_runtime t)\<rparr>)
        else if e_type env = SOURCE_FENCE_ENVELOPE then
          (if tx_fence t \<noteq> None then None else Some (t'\<lparr>tx_fence := Some (e_key env)\<rparr>))
        else (case so_handle ops env (tx_x t) of
                Inl _ \<Rightarrow> None
              | Inr x \<Rightarrow> Some (t'\<lparr>tx_x := x\<rparr>))))"

fun txn_envs ::
  "'x seq_ops \<Rightarrow> (string \<Rightarrow> string option) \<Rightarrow> string \<Rightarrow> envelope list \<Rightarrow> 'x txn_state \<Rightarrow> 'x txn_state + 'x" where
  "txn_envs ops uuid_canon inc [] t = Inl t"
| "txn_envs ops uuid_canon inc (e # es) t =
     (case txn_env ops uuid_canon inc e t of
        Some t' \<Rightarrow> txn_envs ops uuid_canon inc es t'
      | None \<Rightarrow> Inr (tx_x t))"

text \<open>A whole transaction: the highwater, the state and whether it succeeded. Every failure puts the
  highwater back to where the transaction began.\<close>

definition process_txn ::
  "'x seq_ops \<Rightarrow> (string \<Rightarrow> string option) \<Rightarrow> envelope list \<Rightarrow> highwater \<Rightarrow> 'x \<Rightarrow> highwater \<times> 'x \<times> bool" where
  "process_txn ops uuid_canon run hw x =
     (let (txid, lsn) = run_key (hd run); inc = so_incarnation ops x in
      case txn_envs ops uuid_canon inc run \<lparr>tx_hw = hw, tx_fence = None, tx_runtime = pending_fences_default, tx_x = x\<rparr> of
        Inr x' \<Rightarrow> (hw, x', False)
      | Inl t \<Rightarrow>
          (let x1 = so_finish ops txid lsn (tx_x t); fences = pf_fences (tx_runtime t) in
           if (tx_fence t \<noteq> None \<or> fences \<noteq> []) \<and> \<not> so_drained ops x1 then (hw, x1, False)
           else (let x2 = (case lsn of Some l \<Rightarrow> if fences \<noteq> [] then so_publish ops inc fences l x1 else x1 | None \<Rightarrow> x1) in
                 case tx_fence t of
                   None \<Rightarrow> (tx_hw t, x2, True)
                 | Some i \<Rightarrow>
                     (case so_receipt ops i (case lsn of Some l \<Rightarrow> l | None \<Rightarrow> ''0/0'') x2 of
                        Inl _ \<Rightarrow> (hw, x2, False)
                      | Inr x3 \<Rightarrow> (tx_hw t, x3, True)))))"

text \<open>The runs of a page, in order; the first failure stops.\<close>

function process_runs ::
  "'x seq_ops \<Rightarrow> (string \<Rightarrow> string option) \<Rightarrow> envelope list \<Rightarrow> highwater \<Rightarrow> 'x \<Rightarrow> highwater \<times> 'x \<times> bool" where
  "process_runs ops uuid_canon [] hw x = (hw, x, True)"
| "process_runs ops uuid_canon (e # es) hw x =
     (case process_txn ops uuid_canon (e # takeWhile (\<lambda>e'. run_key e' = run_key e) es) hw x of
        (hw', x', ok) \<Rightarrow>
          if ok then process_runs ops uuid_canon (dropWhile (\<lambda>e'. run_key e' = run_key e) es) hw' x' else (hw', x', False))"
  by pat_completeness auto
termination
  by (relation "measure (\<lambda>(ops, uuid_canon, es, hw, x). length es)") (auto simp: less_Suc_eq_le length_dropWhile_le)

section \<open>The read branch\<close>

record seq_state =
  sq_pos :: log_position
  sq_held :: "envelope list"
  sq_held_from :: "log_position option"
  sq_rotate_to :: "nat option"
  sq_highwater :: highwater
  sq_processed :: log_position
  sq_ckpt_pos :: log_position
  sq_ckpt_hw :: highwater

text \<open>Leaving a segment that ended: the new position, whether it was crossed. \<open>nxt\<close> is
  \<open>next_segment_for_reader\<close> on the store at this moment.\<close>

definition cross_segment ::
  "(nat \<Rightarrow> nat result) \<Rightarrow> bool \<Rightarrow> log_position \<Rightarrow> nat option \<Rightarrow> log_position \<times> nat option \<times> bool" where
  "cross_segment nxt ended pos rotate_to =
     (if \<not> ended then (pos, rotate_to, False)
      else (case rotate_to of
              Some n \<Rightarrow> (start_of n, None, True)
            | None \<Rightarrow> (case nxt (lp_segment pos) of
                        Inr n \<Rightarrow> (start_of n, None, True)
                      | Inl _ \<Rightarrow> (pos, None, False))))"

text \<open>The outcome is the state, the executors' state, the checkpoint sent, and whether the loop goes on.\<close>

definition on_page ::
  "'x seq_ops \<Rightarrow> (string \<Rightarrow> string option) \<Rightarrow> (nat \<Rightarrow> nat result) \<Rightarrow> bool \<Rightarrow> read_result \<Rightarrow> seq_state \<Rightarrow> 'x
     \<Rightarrow> seq_state \<times> 'x \<times> (log_position \<times> highwater) option \<times> bool" where
  "on_page ops uuid_canon nxt due rr st x =
     (let read_from = sq_pos st;
          delivered = length (rr_envelopes rr);
          advanced = (case rr_next_offset rr of Some n \<Rightarrow> n \<noteq> lp_offset (sq_pos st) | None \<Rightarrow> False);
          pos = (case rr_next_offset rr of Some n \<Rightarrow> (sq_pos st)\<lparr>lp_offset := n\<rparr> | None \<Rightarrow> sq_pos st);
          rotate_to = (case rotation_target_in (rr_envelopes rr) of Some n \<Rightarrow> Some n | None \<Rightarrow> sq_rotate_to st);
          envs = filter (\<lambda>e. \<not> is_control e) (rr_envelopes rr);
          (ready, held, held_from) = hold_tail read_from (reattach (sq_held st) (sq_held_from st) envs);
          (hw, x', ok) = process_runs ops uuid_canon ready (sq_highwater st) x
      in if \<not> ok then
           (st\<lparr>sq_pos := (case sq_held_from st of Some p \<Rightarrow> p | None \<Rightarrow> read_from),
               sq_held := held, sq_held_from := (case sq_held_from st of Some p \<Rightarrow> Some p | None \<Rightarrow> held_from),
               sq_rotate_to := rotate_to, sq_highwater := hw\<rparr>, x', None, False)
         else
           (let processed = (if rr_next_offset rr \<noteq> None then published pos held_from else sq_processed st);
                (pos', rotate_to', crossed) =
                  cross_segment nxt (rr_closed rr \<and> (delivered = 0 \<or> \<not> advanced)) pos rotate_to;
                processed' = (if crossed then published pos' held_from else processed);
                ckpt = published pos' held_from;
                moved = (ckpt \<noteq> sq_ckpt_pos st \<or> hw \<noteq> sq_ckpt_hw st);
                send = (crossed \<or> (rr_next_offset rr \<noteq> None \<and> moved \<and> due))
            in (st\<lparr>sq_pos := pos', sq_held := held, sq_held_from := held_from, sq_rotate_to := rotate_to',
                   sq_highwater := hw, sq_processed := processed',
                   sq_ckpt_pos := (if send then ckpt else sq_ckpt_pos st), sq_ckpt_hw := (if send then hw else sq_ckpt_hw st)\<rparr>,
                x', if send then Some (ckpt, hw) else None, True)))"

text \<open>On shutdown the loop ends with one more checkpoint, unless replay was paused.\<close>

definition final_checkpoint :: "bool \<Rightarrow> seq_state \<Rightarrow> (log_position \<times> highwater) option" where
  "final_checkpoint paused st =
     (if paused then None else Some (published (sq_pos st) (sq_held_from st), sq_highwater st))"

definition seq_start :: "log_position \<Rightarrow> highwater \<Rightarrow> seq_state" where
  "seq_start pos hw =
     \<lparr>sq_pos = pos, sq_held = [], sq_held_from = None, sq_rotate_to = None, sq_highwater = hw, sq_processed = pos,
      sq_ckpt_pos = pos, sq_ckpt_hw = hw\<rparr>"

text \<open>Successive pages, and the positions they are read at.\<close>

fun run_pages ::
  "'x seq_ops \<Rightarrow> (string \<Rightarrow> string option) \<Rightarrow> (nat \<Rightarrow> nat result) \<Rightarrow> (read_result \<times> bool) list \<Rightarrow> seq_state \<Rightarrow> 'x \<Rightarrow> seq_state \<times> 'x \<times> bool" where
  "run_pages ops uuid_canon nxt [] st x = (st, x, True)"
| "run_pages ops uuid_canon nxt ((rr, due) # rs) st x =
     (case on_page ops uuid_canon nxt due rr st x of
        (st', x', _, ok) \<Rightarrow> if ok then run_pages ops uuid_canon nxt rs st' x' else (st', x', False))"

fun page_positions ::
  "'x seq_ops \<Rightarrow> (string \<Rightarrow> string option) \<Rightarrow> (nat \<Rightarrow> nat result) \<Rightarrow> (read_result \<times> bool) list \<Rightarrow> seq_state \<Rightarrow> 'x \<Rightarrow> log_position list" where
  "page_positions ops uuid_canon nxt [] st x = []"
| "page_positions ops uuid_canon nxt ((rr, due) # rs) st x =
     sq_pos st # (case on_page ops uuid_canon nxt due rr st x of
        (st', x', _, ok) \<Rightarrow> if ok then page_positions ops uuid_canon nxt rs st' x' else [])"

section \<open>Reference: the transactions of a log\<close>

text \<open>The maximal runs of one key.\<close>

function txns :: "envelope list \<Rightarrow> envelope list list" where
  "txns [] = []"
| "txns (e # es) = (e # takeWhile (\<lambda>e'. run_key e' = run_key e) es) # txns (dropWhile (\<lambda>e'. run_key e' = run_key e) es)"
  by pat_completeness auto
termination
  by (relation "measure length") (auto simp: less_Suc_eq_le length_dropWhile_le)

text \<open>What the ingestor guarantees of the commits it writes: every envelope is a stamped data envelope,
  stamps strictly increase, a commit LSN belongs to one transaction, and the end marker is on exactly
  the last envelope of a transaction that is followed by another.\<close>

definition marked :: "envelope \<Rightarrow> bool" where
  "marked e \<longleftrightarrow> h_last (e_headers e) = Some True"

definition stamp_less :: "envelope \<Rightarrow> envelope \<Rightarrow> bool" where
  "stamp_less e e' \<longleftrightarrow> pos_less (the (stamp_of e)) (the (stamp_of e'))"

definition data_env :: "envelope \<Rightarrow> bool" where
  "data_env e \<longleftrightarrow> stamp_of e \<noteq> None \<and> \<not> is_control e \<and> e_type e \<noteq> ENVELOPE_TYPE \<and> e_type e \<noteq> SOURCE_FENCE_ENVELOPE"

definition commit_log :: "envelope list \<Rightarrow> bool" where
  "commit_log es \<longleftrightarrow> list_all data_env es \<and> sorted_wrt stamp_less es
     \<and> (\<forall>e \<in> set es. \<forall>e' \<in> set es. fst (the (stamp_of e)) = fst (the (stamp_of e')) \<longrightarrow> run_key e = run_key e')
     \<and> successively (\<lambda>e e'. marked e \<longleftrightarrow> run_key e \<noteq> run_key e') es"

text \<open>Executors that record what they are given: the envelopes of the current transaction and the
  transactions flushed so far.\<close>

definition recorder :: "(envelope list \<times> envelope list list) seq_ops" where
  "recorder = \<lparr>so_handle = (\<lambda>e (s, f). Ok (s @ [e], f)), so_finish = (\<lambda>_ _ (s, f). ([], if s = [] then f else f @ [s])),
     so_drained = (\<lambda>_. True), so_publish = (\<lambda>_ _ _ x. x), so_receipt = (\<lambda>_ _ x. Ok x), so_incarnation = (\<lambda>_. [])\<rparr>"

section \<open>De-duplication\<close>

text \<open>The envelopes of a sequence that the highwater lets through, and the highwater after it.\<close>

fun fresh :: "highwater \<Rightarrow> envelope list \<Rightarrow> envelope list \<times> highwater" where
  "fresh hw [] = ([], hw)"
| "fresh hw (e # es) =
     (if duplicate hw e then fresh hw es
      else (case fresh (advance e hw) es of (xs, hw') \<Rightarrow> (e # xs, hw')))"

lemma fresh_append: "fresh hw (xs @ ys) = (fst (fresh hw xs) @ fst (fresh (snd (fresh hw xs)) ys), snd (fresh (snd (fresh hw xs)) ys))"
  by (induction hw xs rule: fresh.induct) (auto split: prod.splits)

lemma data_type: "data_env e \<Longrightarrow> e_type e \<noteq> ENVELOPE_TYPE" "data_env e \<Longrightarrow> e_type e \<noteq> SOURCE_FENCE_ENVELOPE"
  by (simp_all add: data_env_def)

lemma txn_envs_recorder:
  assumes "list_all data_env es" and "tx_x t = (s, f)"
  shows "txn_envs recorder u inc es t = Inl (t\<lparr>tx_hw := snd (fresh (tx_hw t) es), tx_x := (s @ fst (fresh (tx_hw t) es), f)\<rparr>)"
  using assms
proof (induction es arbitrary: t s)
  case (Cons e es)
  have 1: "txn_env recorder u inc e t = Some (if duplicate (tx_hw t) e then t else t\<lparr>tx_hw := advance e (tx_hw t), tx_x := (s @ [e], f)\<rparr>)"
    using Cons.prems by (auto simp: txn_env_def data_type Let_def recorder_def)
  with Cons show ?case by (auto split: prod.splits)
qed simp

lemma process_txn_recorder:
  assumes "list_all data_env run"
  shows "process_txn recorder u run hw ([], f) =
     (snd (fresh hw run), ([], if fst (fresh hw run) = [] then f else f @ [fst (fresh hw run)]), True)"
  unfolding process_txn_def using assms
  by (simp add: txn_envs_recorder Let_def pending_fences_default_def split: prod.splits option.splits)
    (simp add: recorder_def)

lemma list_all_dropWhile: "list_all P xs \<Longrightarrow> list_all P (dropWhile Q xs)"
  by (auto simp: list_all_iff dest: set_dropWhileD)

lemma list_all_takeWhile: "list_all P xs \<Longrightarrow> list_all P (takeWhile Q xs)"
  by (auto simp: list_all_iff dest: set_takeWhileD)

text \<open>However a page is split into runs, what is applied is what the highwater lets through.\<close>

lemma process_runs_recorder:
  assumes "list_all data_env es"
  shows "\<exists>f'. process_runs recorder u es hw ([], f) = (snd (fresh hw es), ([], f @ f'), True) \<and> concat f' = fst (fresh hw es)"
  using assms
proof (induction es arbitrary: hw f rule: txns.induct)
  case (2 e es)
  let ?run = "e # takeWhile (\<lambda>e'. run_key e' = run_key e) es" and ?rest = "dropWhile (\<lambda>e'. run_key e' = run_key e) es"
  have d: "list_all data_env ?run" "list_all data_env ?rest"
    using "2.prems" by (auto intro: list_all_takeWhile list_all_dropWhile)
  have "fresh hw (e # es) = fresh hw (?run @ ?rest)" by simp
  note fr = this [unfolded fresh_append]
  obtain g where g: "process_runs recorder u ?rest (snd (fresh hw ?run)) ([], f @ (if fst (fresh hw ?run) = [] then [] else [fst (fresh hw ?run)]))
     = (snd (fresh (snd (fresh hw ?run)) ?rest), ([], (f @ (if fst (fresh hw ?run) = [] then [] else [fst (fresh hw ?run)])) @ g), True)"
    "concat g = fst (fresh (snd (fresh hw ?run)) ?rest)"
    using "2.IH" [OF d(2)] by blast
  show ?case
    by (rule exI [of _ "(if fst (fresh hw ?run) = [] then [] else [fst (fresh hw ?run)]) @ g"])
      (use g fr process_txn_recorder [OF d(1), of u hw f] in \<open>auto simp del: fresh.simps split: if_splits\<close>)
qed simp

text \<open>Strictly above the highwater nothing is a duplicate and every run is flushed as it is.\<close>

definition above :: "highwater \<Rightarrow> envelope list \<Rightarrow> bool" where
  "above hw es \<longleftrightarrow> list_all data_env es \<and> sorted_wrt stamp_less es
     \<and> (\<forall>e \<in> set es. \<not> duplicate hw e)"

lemma pos_less_trans: "pos_less p q \<Longrightarrow> pos_less q r \<Longrightarrow> pos_less p r"
  by (auto simp: pos_less_def)

lemma above_Cons:
  assumes "above hw (e # es)"
  shows "\<not> duplicate hw e" "above (stamp_of e) es" "advance e hw = stamp_of e"
  using assms by (auto simp: above_def duplicate_def advance_def data_env_def stamp_less_def list_all_iff split: option.splits)

lemma fresh_above: "above hw es \<Longrightarrow> fresh hw es = (es, if es = [] then hw else stamp_of (last es))"
  by (induction es arbitrary: hw) (auto simp: above_Cons)

lemma above_append: "above hw (xs @ ys) \<Longrightarrow> above hw xs \<and> above (if xs = [] then hw else stamp_of (last xs)) ys"
  by (induction xs arbitrary: hw) (auto simp: above_Cons dest: above_Cons(2), auto simp: above_def)

lemma process_runs_above:
  assumes "above hw es"
  shows "process_runs recorder u es hw ([], f) = (if es = [] then hw else stamp_of (last es), ([], f @ txns es), True)"
  using assms
proof (induction es arbitrary: hw f rule: txns.induct)
  case (2 e es)
  let ?run = "e # takeWhile (\<lambda>e'. run_key e' = run_key e) es" and ?rest = "dropWhile (\<lambda>e'. run_key e' = run_key e) es"
  have ab: "above hw ?run" "above (stamp_of (last ?run)) ?rest"
    using above_append [of hw ?run ?rest] "2.prems" by auto
  then have "process_txn recorder u ?run hw ([], f) = (stamp_of (last ?run), ([], f @ [?run]), True)"
    by (subst process_txn_recorder) (auto simp: above_def fresh_above [OF ab(1)] simp del: fresh.simps)
  moreover have "last (e # es) = (if ?rest = [] then last ?run else last ?rest)"
    using last_append [of ?run ?rest] by (simp del: last.simps)
  ultimately show ?case using "2.IH" [OF ab(2)] by (simp del: last.simps)
qed simp

section \<open>Cutting and joining\<close>

lemma tail_loop_le: "tail_loop envs key n \<le> n"
  by (induction n) auto

lemma tail_loop_props:
  "(\<forall>i. tail_loop envs key n \<le> i \<and> i < n \<longrightarrow> run_key (envs ! i) = key)
   \<and> (tail_loop envs key n > 0 \<longrightarrow> run_key (envs ! (tail_loop envs key n - 1)) \<noteq> key)"
  by (induction n) (auto simp: less_Suc_eq)

lemma data_seq: "data_env e \<Longrightarrow> \<exists>l n. h_lsn (e_headers e) = Some l \<and> h_seq (e_headers e) = Some n \<and> stamp_of e = Some (lsn_to_u64 l, n)"
  by (auto simp: data_env_def stamp_of_def split: option.splits)

text \<open>Where the trailing transaction is held, the cut is exactly at the start of its run.\<close>

lemma unterminated_tail_Some:
  assumes "unterminated_tail E = Some n"
  shows "n < length E" "\<not> marked (last E)" "h_seq (e_headers (last E)) \<noteq> None"
    "list_all (\<lambda>e. run_key e = run_key (last E)) (drop n E)"
    "take n E \<noteq> [] \<Longrightarrow> run_key (last (take n E)) \<noteq> run_key (last E)"
proof -
  from assms have E: "E \<noteq> []" and n: "n = tail_loop E (run_key (last E)) (length E - 1)"
    and m: "\<not> marked (last E)" "h_seq (e_headers (last E)) \<noteq> None"
    by (auto simp: unterminated_tail_def marked_def Let_def split: if_splits)
  then have len: "n \<le> length E - 1" using tail_loop_le by blast
  with E show "n < length E" by (cases E) auto
  show "\<not> marked (last E)" "h_seq (e_headers (last E)) \<noteq> None" by (fact m)+
  have "run_key (E ! i) = run_key (last E)" if "n \<le> i" "i < length E" for i
  proof (cases "i = length E - 1")
    case True
    with E show ?thesis by (simp add: last_conv_nth)
  next
    case False
    with that n tail_loop_props [of E "run_key (last E)" "length E - 1"] show ?thesis by auto
  qed
  then show "list_all (\<lambda>e. run_key e = run_key (last E)) (drop n E)"
    by (auto simp: list_all_length)
  show "run_key (last (take n E)) \<noteq> run_key (last E)" if "take n E \<noteq> []"
  proof -
    from that len E have "last (take n E) = E ! (n - 1)" "n > 0" by (auto simp: last_conv_nth min_def)
    with n tail_loop_props [of E "run_key (last E)" "length E - 1"] show ?thesis by auto
  qed
qed

lemma unterminated_tail_None:
  "unterminated_tail E = None \<Longrightarrow> list_all data_env E \<Longrightarrow> E = [] \<or> marked (last E)"
  using data_seq [of "last E"] by (auto simp: unterminated_tail_def marked_def Let_def list_all_iff split: if_splits)

lemma while_all: "list_all P xs \<Longrightarrow> takeWhile P xs = xs" "list_all P xs \<Longrightarrow> dropWhile P xs = []"
  by (simp_all add: list_all_iff)

lemma list_all_hd: "list_all P xs \<Longrightarrow> xs \<noteq> [] \<Longrightarrow> P (hd xs)"
  by (cases xs) auto

lemma txns_single: "list_all (\<lambda>e. run_key e = k) xs \<Longrightarrow> xs \<noteq> [] \<Longrightarrow> txns xs = [xs]"
proof (cases xs)
  case (Cons e es)
  assume "list_all (\<lambda>e. run_key e = k) xs"
  then have "list_all (\<lambda>e'. run_key e' = run_key e) es" using Cons by (auto simp: list_all_iff)
  with Cons show ?thesis by (simp add: while_all)
qed simp

lemma txns_append:
  "xs = [] \<or> ys = [] \<or> run_key (last xs) \<noteq> run_key (hd ys) \<Longrightarrow> txns (xs @ ys) = txns xs @ txns ys"
proof (induction xs rule: txns.induct)
  case (2 e es)
  let ?P = "\<lambda>e'. run_key e' = run_key e"
  show ?case
  proof (cases "list_all ?P es")
    case True
    then have "run_key (last (e # es)) = run_key e" by (auto simp: list_all_iff)
    with 2 True show ?thesis
      by (cases ys) (auto simp: while_all takeWhile_append dropWhile_append list_all_iff [symmetric] simp del: last.simps)
  next
    case False
    then obtain x where x: "x \<in> set es" "\<not> ?P x" by (auto simp: list_all_iff)
    then have "dropWhile ?P es \<noteq> []" by auto
    then have "last (dropWhile ?P es) = last (e # es)"
      using x(1) last_appendR [of "dropWhile ?P es" "takeWhile ?P es"] by auto
    with 2 x show ?thesis by (auto simp: takeWhile_append1 dropWhile_append1 simp del: last.simps)
  qed
qed simp

text \<open>The data of a page, and the two things a page does: it is cut, and its complete part is processed.\<close>

definition page_data :: "read_result \<Rightarrow> envelope list" where
  "page_data rr = filter (\<lambda>e. \<not> is_control e) (rr_envelopes rr)"

definition joined :: "envelope list \<Rightarrow> envelope list \<Rightarrow> envelope list" where
  "joined held p = fst (reattach held None p)"

definition cut_at :: "envelope list \<Rightarrow> nat" where
  "cut_at E = (case unterminated_tail E of Some n \<Rightarrow> n | None \<Rightarrow> length E)"

lemma on_page_core:
  assumes "joined (sq_held st) (page_data rr) = E"
    and "process_runs ops u (take (cut_at E) E) (sq_highwater st) x = (hw, x', True)"
  shows "\<exists>st' c. on_page ops u nxt due rr st x = (st', x', c, True) \<and> sq_highwater st' = hw \<and> sq_held st' = drop (cut_at E) E
     \<and> sq_held_from st' = snd (snd (hold_tail (sq_pos st) (reattach (sq_held st) (sq_held_from st) (page_data rr))))"
proof -
  obtain E' hf mf where re: "reattach (sq_held st) (sq_held_from st) (page_data rr) = (E', hf, mf)"
    by (cases "reattach (sq_held st) (sq_held_from st) (page_data rr)")
  then have E: "E' = E" using assms(1)
    by (auto simp: joined_def reattach_def Let_def split: if_splits)
  obtain hf' where ht: "hold_tail (sq_pos st) (E, hf, mf) = (take (cut_at E) E, drop (cut_at E) E, hf')"
    by (cases "unterminated_tail E") (auto simp: hold_tail_def cut_at_def)
  show ?thesis
    using assms(2) re ht unfolding on_page_def E page_data_def [symmetric]
    by (auto simp: Let_def split: prod.splits)
qed

section \<open>Whole transactions, whatever the paging\<close>

text \<open>After the pages so far: what is flushed are the transactions before the held run, the held run is
  unterminated and of one transaction, and the highwater is at the last flushed envelope.\<close>

definition atomic_inv :: "envelope list \<Rightarrow> envelope list \<Rightarrow> highwater \<Rightarrow> envelope list list \<Rightarrow> bool" where
  "atomic_inv T held hw fl \<longleftrightarrow> concat fl @ held = T \<and> txns (concat fl) = fl
     \<and> hw = (if concat fl = [] then None else stamp_of (last (concat fl)))
     \<and> (concat fl \<noteq> [] \<longrightarrow> marked (last (concat fl)))
     \<and> (held \<noteq> [] \<longrightarrow> \<not> marked (last held) \<and> list_all (\<lambda>e. run_key e = run_key (last held)) held)"

lemma concat_txns [simp]: "concat (txns es) = es"
  by (induction es rule: txns.induct) auto

lemma commit_log_append: "commit_log (xs @ ys) \<Longrightarrow> commit_log xs \<and> commit_log ys"
  by (auto simp: commit_log_def sorted_wrt_append successively_append_iff)

lemma commit_log_boundary:
  "commit_log (xs @ ys) \<Longrightarrow> xs \<noteq> [] \<Longrightarrow> ys \<noteq> [] \<Longrightarrow> marked (last xs) \<longleftrightarrow> run_key (last xs) \<noteq> run_key (hd ys)"
  by (auto simp: commit_log_def successively_append_iff)

lemma txns_marked:
  "commit_log es \<Longrightarrow> es = [] \<or> marked (last es) \<Longrightarrow> t \<in> set (txns es) \<Longrightarrow> marked (last t)"
proof (induction es rule: txns.induct)
  case (2 e es)
  let ?run = "e # takeWhile (\<lambda>e'. run_key e' = run_key e) es" and ?rest = "dropWhile (\<lambda>e'. run_key e' = run_key e) es"
  have log: "commit_log (?run @ ?rest)" using 2 by simp
  have key: "run_key (last ?run) = run_key e" by (auto dest: set_takeWhileD last_in_set)
  show ?case
  proof (cases "?rest = []")
    case True
    then have "?run = e # es" by (metis append_Nil2 takeWhile_dropWhile_id)
    with 2 True show ?thesis by auto
  next
    case False
    then have "run_key (hd ?rest) \<noteq> run_key e" using hd_dropWhile by blast
    then have "marked (last ?run)" using commit_log_boundary [OF log _ False] key by simp
    moreover have "last ?rest = last (e # es)" using False last_appendR [of ?rest ?run] by simp
    ultimately show ?thesis using 2 False commit_log_append [OF log] by (auto simp del: last.simps)
  qed
qed simp

lemma commit_log_data: "commit_log es \<Longrightarrow> list_all data_env es"
  by (simp add: commit_log_def)

lemma commit_log_above:
  assumes "commit_log (xs @ ys)"
  shows "above (if xs = [] then None else stamp_of (last xs)) ys"
proof -
  have "\<not> duplicate (stamp_of (last xs)) e" if "xs \<noteq> []" "e \<in> set ys" for e
  proof -
    have "stamp_less (last xs) e" using assms that by (auto simp: commit_log_def sorted_wrt_append)
    then show ?thesis using assms that
      by (auto simp: commit_log_def list_all_iff data_env_def duplicate_def stamp_less_def split: option.splits)
  qed
  with commit_log_append [OF assms] show ?thesis by (auto simp: above_def commit_log_def duplicate_def split: option.splits)
qed

text \<open>Without re-delivery the held run is simply extended.\<close>

lemma joined_extends:
  assumes "commit_log (held @ p)" and "held \<noteq> [] \<Longrightarrow> \<not> marked (last held)"
  shows "joined held p = held @ p"
proof (cases "held = []")
  case False
  let ?lead = "takeWhile (\<lambda>e. run_key e = run_key (last held)) p"
  have "p = [] \<or> ?lead \<noteq> []"
    using commit_log_boundary [OF assms(1) False] assms(2) [OF False] by (cases p) auto
  moreover have "keep_new (h_seq (e_headers (last held))) e" if "e \<in> set ?lead" for e
  proof -
    from that have e: "e \<in> set p" "run_key e = run_key (last held)" by (auto dest: set_takeWhileD)
    have "data_env e" "data_env (last held)" "stamp_less (last held) e"
      using assms(1) False e(1) by (auto simp: commit_log_def list_all_iff sorted_wrt_append)
    then show ?thesis using e(2)
      by (auto simp: run_key_def keep_new_def stamp_less_def pos_less_def dest!: data_seq split: option.splits)
  qed
  ultimately show ?thesis
    using False by (auto simp: joined_def reattach_def Let_def takeWhile_eq_take [symmetric] filter_id_conv
        dropWhile_eq_drop [symmetric])
qed (simp add: joined_def reattach_def)

lemma atomic_step:
  assumes inv: "atomic_inv T (sq_held st) (sq_highwater st) fl" and log: "commit_log (T @ page_data rr)"
  shows "\<exists>st' fl' c. on_page recorder u nxt due rr st ([], fl) = (st', ([], fl'), c, True)
     \<and> atomic_inv (T @ page_data rr) (sq_held st') (sq_highwater st') fl'"
proof -
  let ?D = "concat fl"
  define E where "E = sq_held st @ page_data rr"
  define n where "n = cut_at E"
  let ?R = "take n E" and ?H = "drop n E"
  have T: "T @ page_data rr = ?D @ E" using inv by (auto simp: atomic_inv_def E_def)
  then have cE: "commit_log (?D @ ?R @ ?H)" using log by (simp only: append_take_drop_id)
  have j: "joined (sq_held st) (page_data rr) = E"
    using joined_extends [of "sq_held st"] commit_log_append [of ?D E] log T inv by (simp add: atomic_inv_def E_def)
  have "above (sq_highwater st) E" using commit_log_above [of ?D E] log T inv by (simp add: atomic_inv_def)
  then have "above (sq_highwater st) ?R" using above_append [of _ ?R ?H] by simp
  note pr = process_runs_above [OF this, of u fl, unfolded n_def]
  from on_page_core [OF j pr, of nxt due]
  obtain st' c where run: "on_page recorder u nxt due rr st ([], fl) = (st', ([], fl @ txns ?R), c, True)"
    "sq_highwater st' = (if ?R = [] then sq_highwater st else stamp_of (last ?R))" "sq_held st' = ?H"
    unfolding n_def by blast
  have tail: "?H \<noteq> [] \<longrightarrow> \<not> marked (last ?H) \<and> list_all (\<lambda>e. run_key e = run_key (last ?H)) ?H"
    using unterminated_tail_Some [of E n] by (auto simp: n_def cut_at_def split: option.splits)
  have "marked (last ?R)" if "?R \<noteq> []"
  proof (cases "unterminated_tail E")
    case None
    then show ?thesis using unterminated_tail_None [of E] that log T commit_log_append [of ?D E]
      by (auto simp: n_def cut_at_def dest: commit_log_data)
  next
    case (Some k)
    then have k: "k = n" by (simp add: n_def cut_at_def)
    note tl = unterminated_tail_Some [OF Some, unfolded k]
    have "?H \<noteq> []" using tl(1) by simp
    then have "run_key (hd ?H) = run_key (last E)" by (rule list_all_hd [OF tl(4)])
    then show ?thesis
      using commit_log_boundary [OF _ that \<open>?H \<noteq> []\<close>] commit_log_append [OF cE] tl(5) [OF that] by simp
  qed
  moreover have "txns (?D @ ?R) = fl @ txns ?R"
  proof -
    have "?D = [] \<or> ?R = [] \<or> run_key (last ?D) \<noteq> run_key (hd ?R)"
    proof (cases "?D = [] \<or> ?R = []")
      case False
      then have "marked (last ?D)" using inv by (simp add: atomic_inv_def del: concat_eq_Nil_conv)
      with commit_log_boundary [OF cE] False show ?thesis by (simp add: hd_append del: concat_eq_Nil_conv append_take_drop_id)
    qed blast
    then show ?thesis using txns_append [of ?D ?R] inv by (simp add: atomic_inv_def)
  qed
  ultimately have "atomic_inv (T @ page_data rr) ?H (sq_highwater st') (fl @ txns ?R)"
    using inv tail T run(2) unfolding atomic_inv_def by (auto simp: last_append)
  with run show ?thesis by auto
qed

lemma atomic_pages:
  assumes "atomic_inv T (sq_held st) (sq_highwater st) fl" and "commit_log (T @ concat (map (page_data \<circ> fst) rs))"
  shows "\<exists>st' fl'. run_pages recorder u nxt rs st ([], fl) = (st', ([], fl'), True)
     \<and> atomic_inv (T @ concat (map (page_data \<circ> fst) rs)) (sq_held st') (sq_highwater st') fl'"
  using assms
proof (induction rs arbitrary: T st fl)
  case (Cons r rs)
  obtain rr due where r: "r = (rr, due)" by (cases r)
  have "commit_log (T @ page_data rr)" using Cons.prems(2) commit_log_append [of "T @ page_data rr"] r by simp
  from atomic_step [OF Cons.prems(1) this, of u nxt due] obtain st1 fl1 c where
    s: "on_page recorder u nxt due rr st ([], fl) = (st1, ([], fl1), c, True)"
      "atomic_inv (T @ page_data rr) (sq_held st1) (sq_highwater st1) fl1" by blast
  from Cons.IH [OF s(2)] Cons.prems(2) r s(1) show ?case by simp
qed simp

lemma pages_grouped:
  assumes "commit_log (concat (map (page_data \<circ> fst) rs))"
  shows "\<exists>st' fl. run_pages recorder u nxt rs (seq_start pos None) ([], []) = (st', ([], fl), True)
     \<and> txns (concat (map (page_data \<circ> fst) rs)) = fl @ (if sq_held st' = [] then [] else [sq_held st'])
     \<and> (\<forall>t \<in> set fl. marked (last t)) \<and> (sq_held st' \<noteq> [] \<longrightarrow> \<not> marked (last (sq_held st')))"
proof -
  let ?T = "concat (map (page_data \<circ> fst) rs)"
  have "atomic_inv [] (sq_held (seq_start pos None)) (sq_highwater (seq_start pos None)) []"
    by (simp add: atomic_inv_def seq_start_def)
  from atomic_pages [OF this, of rs u nxt] assms obtain st' fl where
    run: "run_pages recorder u nxt rs (seq_start pos None) ([], []) = (st', ([], fl), True)"
    and inv: "atomic_inv ?T (sq_held st') (sq_highwater st') fl" by auto
  have "?T = concat fl @ sq_held st'" using inv by (simp add: atomic_inv_def)
  moreover have "concat fl = [] \<or> sq_held st' = [] \<or> run_key (last (concat fl)) \<noteq> run_key (hd (sq_held st'))"
    using commit_log_boundary [of "concat fl" "sq_held st'"] inv assms by (auto simp: atomic_inv_def)
  moreover have "sq_held st' \<noteq> [] \<Longrightarrow> txns (sq_held st') = [sq_held st']"
    using inv by (auto simp: atomic_inv_def intro: txns_single)
  ultimately have grp: "txns ?T = fl @ (if sq_held st' = [] then [] else [sq_held st'])"
    using txns_append [of "concat fl" "sq_held st'"] inv by (simp add: atomic_inv_def)
  have "\<forall>t \<in> set fl. marked (last t)"
    using txns_marked [of "concat fl"] inv assms commit_log_append [of "concat fl" "sq_held st'"] by (auto simp: atomic_inv_def)
  with run grp inv show ?thesis by (auto simp: atomic_inv_def)
qed

text \<open>C4: transactions are atomic, however the log is paged. For every log of commits cut into pages
  anywhere, control envelopes interleaved, segments ending and checkpoints due at any page, the
  groups handed to the executors and flushed are exactly the transactions of the log, each whole
  and in commit order; only an unterminated last transaction is held back, entirely.\<close>

theorem pages_atomic:
  assumes "commit_log (concat (map (page_data \<circ> fst) rs))"
  shows "\<exists>st' fl. run_pages recorder u nxt rs (seq_start pos None) ([], []) = (st', ([], fl), True)
     \<and> txns (concat (map (page_data \<circ> fst) rs)) = fl @ (if sq_held st' = [] then [] else [sq_held st'])
     \<and> (\<forall>t \<in> set fl. marked (last t)) \<and> (sq_held st' \<noteq> [] \<longrightarrow> \<not> marked (last (sq_held st')))"
  using assms by (rule pages_grouped)

section \<open>Re-delivery\<close>

text \<open>At-least-once delivery of a commit log: the ingestor sends the log in order, and after a failure
  starts again at the beginning of any transaction not after the point it had reached.
  \<open>deliveries es c is c'\<close>: from expecting index \<open>c\<close>, the indices sent are \<open>is\<close>, and \<open>c'\<close> is expected next.\<close>

definition starts :: "envelope list \<Rightarrow> nat \<Rightarrow> bool" where
  "starts es i \<longleftrightarrow> i = 0 \<or> run_key (es ! (i - 1)) \<noteq> run_key (es ! i)"

fun deliveries :: "envelope list \<Rightarrow> nat \<Rightarrow> nat list \<Rightarrow> nat \<Rightarrow> bool" where
  "deliveries es c [] c' \<longleftrightarrow> c' = c"
| "deliveries es c (i # is) c' \<longleftrightarrow> i < length es \<and> (i = c \<or> i \<le> c \<and> starts es i) \<and> deliveries es (Suc i) is c'"

text \<open>A sequence of indices without gaps above \<open>h\<close>, and how far it reaches.\<close>

fun gapless :: "nat \<Rightarrow> nat list \<Rightarrow> bool" where
  "gapless h [] \<longleftrightarrow> True"
| "gapless h (i # is) \<longleftrightarrow> i \<le> h \<and> gapless (max h (Suc i)) is"

fun reach :: "nat \<Rightarrow> nat list \<Rightarrow> nat" where
  "reach h [] = h"
| "reach h (i # is) = reach (max h (Suc i)) is"

lemma reach_ge: "h \<le> reach h is"
proof (induction "is" arbitrary: h)
  case (Cons i "is")
  then show ?case using le_trans [OF max.cobounded1 [of h "Suc i"] Cons] by simp
qed simp

lemma reach_gt: "i \<in> set is \<Longrightarrow> i < reach h is"
proof (induction "is" arbitrary: h)
  case (Cons j "is")
  then show ?case using reach_ge [of "max h (Suc j)" "is"] by auto
qed simp

lemma max_below: "i < h \<Longrightarrow> max h (Suc i) = h"
  by simp

lemma gapless_append: "gapless h (xs @ ys) \<longleftrightarrow> gapless h xs \<and> gapless (reach h xs) ys"
  by (induction xs arbitrary: h) auto

lemma reach_append: "reach h (xs @ ys) = reach (reach h xs) ys"
  by (induction xs arbitrary: h) auto

lemma reach_bound: "h \<le> n \<Longrightarrow> \<forall>i \<in> set is. i < n \<Longrightarrow> reach h is \<le> n"
  by (induction "is" arbitrary: h) auto

lemma deliveries_append: "deliveries es c (xs @ ys) c' \<longleftrightarrow> (\<exists>d. deliveries es c xs d \<and> deliveries es d ys c')"
  by (induction xs arbitrary: c) auto

lemma deliveries_bound: "deliveries es c is c' \<Longrightarrow> i \<in> set is \<Longrightarrow> i < length es"
  by (induction "is" arbitrary: c) auto

lemma deliveries_last: "deliveries es c is c' \<Longrightarrow> is \<noteq> [] \<Longrightarrow> c' = Suc (last is)"
  by (induction "is" arbitrary: c) (auto split: if_splits)

lemma deliveries_gapless: "deliveries es c is c' \<Longrightarrow> c \<le> h \<Longrightarrow> gapless h is \<and> c' \<le> reach h is"
  by (induction "is" arbitrary: c h) auto

lemma gapless_filter:
  "gapless h is \<Longrightarrow> \<forall>i \<in> set is. \<not> Q i \<longrightarrow> i < h \<Longrightarrow> gapless h (filter Q is) \<and> reach h (filter Q is) = reach h is"
proof (induction "is" arbitrary: h)
  case (Cons i "is")
  have "\<forall>j \<in> set is. \<not> Q j \<longrightarrow> j < max h (Suc i)" using Cons.prems(2) by auto
  with Cons have ih: "gapless (max h (Suc i)) (filter Q is) \<and> reach (max h (Suc i)) (filter Q is) = reach (max h (Suc i)) is" by simp
  show ?case
  proof (cases "Q i")
    case False
    with Cons.prems(2) have "max h (Suc i) = h" by (intro max_below) simp
    with ih False show ?thesis by simp
  qed (use ih Cons.prems in simp)
qed simp

subsection \<open>Stamps of a commit log\<close>

lemma commit_log_less: "commit_log es \<Longrightarrow> i < j \<Longrightarrow> j < length es \<Longrightarrow> stamp_less (es ! i) (es ! j)"
  by (auto simp: commit_log_def sorted_wrt_iff_nth_less)

lemma commit_log_env: "commit_log es \<Longrightarrow> i < length es \<Longrightarrow> data_env (es ! i)"
  by (simp add: commit_log_def list_all_length)

lemma run_key_lsn: "data_env e \<Longrightarrow> data_env e' \<Longrightarrow> run_key e = run_key e' \<Longrightarrow> fst (the (stamp_of e)) = fst (the (stamp_of e'))"
  by (auto simp: run_key_def dest!: data_seq)

text \<open>A transaction is contiguous.\<close>

lemma commit_log_contiguous:
  assumes log: "commit_log es" and "i \<le> j" "j \<le> k" "k < length es" "run_key (es ! i) = run_key (es ! k)"
  shows "run_key (es ! j) = run_key (es ! k)"
proof -
  let ?l = "\<lambda>i. fst (the (stamp_of (es ! i)))"
  have mono: "?l a \<le> ?l b" if "a \<le> b" "b < length es" for a b
    using commit_log_less [OF log, of a b] that by (cases "a = b") (auto simp: stamp_less_def pos_less_def)
  have "?l i = ?l k" using assms commit_log_env [OF log] by (intro run_key_lsn) auto
  then have "?l j = ?l k" using mono [of i j] mono [of j k] assms by simp
  then show ?thesis using log assms unfolding commit_log_def by (meson le_less_trans nth_mem)
qed

lemma commit_log_marked: "commit_log es \<Longrightarrow> Suc i < length es \<Longrightarrow> marked (es ! i) \<longleftrightarrow> run_key (es ! i) \<noteq> run_key (es ! Suc i)"
  by (auto simp: commit_log_def successively_conv_nth)

definition hw_at :: "envelope list \<Rightarrow> nat \<Rightarrow> highwater" where
  "hw_at es h = (if h = 0 then None else stamp_of (es ! (h - 1)))"

lemma duplicate_hw_at:
  assumes log: "commit_log es" and "i < length es" "h \<le> length es"
  shows "duplicate (hw_at es h) (es ! i) \<longleftrightarrow> i < h"
proof (cases h)
  case (Suc k)
  obtain p q where p: "stamp_of (es ! i) = Some p" "stamp_of (es ! k) = Some q"
    using commit_log_env [OF log, of i] commit_log_env [OF log, of k] assms Suc by (auto simp: data_env_def)
  then have dup: "duplicate (hw_at es h) (es ! i) \<longleftrightarrow> \<not> pos_less q p" by (simp add: Suc hw_at_def duplicate_def)
  have "k < i \<Longrightarrow> pos_less q p" "i < k \<Longrightarrow> pos_less p q"
    using commit_log_less [OF log, of k i] commit_log_less [OF log, of i k] assms Suc p by (auto simp: stamp_less_def)
  moreover have "i = k \<Longrightarrow> p = q" using p by simp
  ultimately show ?thesis unfolding dup using Suc by (cases i k rule: linorder_cases) (auto simp: pos_less_def)
qed (simp add: hw_at_def duplicate_def split: option.splits)

text \<open>On a sequence without gaps the highwater lets exactly the new envelopes through, in order.\<close>

lemma fresh_gapless:
  assumes log: "commit_log es"
  shows "gapless h is \<Longrightarrow> \<forall>i \<in> set is. i < length es \<Longrightarrow> h \<le> length es \<Longrightarrow>
    fresh (hw_at es h) (map ((!) es) is) = (map ((!) es) [h..<reach h is], hw_at es (reach h is))"
proof (induction "is" arbitrary: h)
  case (Cons i "is")
  show ?case
  proof (cases "i < h")
    case True
    with Cons show ?thesis by (simp add: duplicate_hw_at [OF log] max_below)
  next
    case False
    with Cons.prems have i: "i = h" by simp
    have "advance (es ! h) (hw_at es h) = hw_at es (Suc h)"
      using commit_log_env [OF log, of h] Cons.prems i by (auto simp: advance_def hw_at_def data_env_def)
    moreover have "[h..<reach (Suc h) is] = h # [Suc h..<reach (Suc h) is]"
      using reach_ge [of "Suc h" "is"] by (simp add: upt_conv_Cons)
    ultimately show ?thesis using Cons i by (simp add: duplicate_hw_at [OF log] max_def)
  qed
qed simp

lemma map_nth_take: "h \<le> length es \<Longrightarrow> map ((!) es) [0..<h] = take h es"
  by (rule nth_equalityI) auto

subsection \<open>One page under re-delivery\<close>

text \<open>The held run, as indices: without gaps above what was applied, of one transaction, unterminated, and
  at least as far as the last envelope delivered.\<close>

definition same_run :: "envelope list \<Rightarrow> nat list \<Rightarrow> bool" where
  "same_run es H \<longleftrightarrow> (\<forall>i \<in> set H. run_key (es ! i) = run_key (es ! last H))"

definition held_ok :: "envelope list \<Rightarrow> nat \<Rightarrow> nat \<Rightarrow> nat list \<Rightarrow> bool" where
  "held_ok es c h H \<longleftrightarrow> h \<le> length es \<and> (\<forall>i \<in> set H. i < length es) \<and> gapless h H
     \<and> (if H = [] then c \<le> h
        else 0 < c \<and> c \<le> Suc (last H) \<and> run_key (es ! (c - 1)) = run_key (es ! last H)
          \<and> same_run es H \<and> \<not> marked (es ! last H))"

definition joined_ok :: "envelope list \<Rightarrow> nat \<Rightarrow> nat \<Rightarrow> nat list \<Rightarrow> bool" where
  "joined_ok es c h E \<longleftrightarrow> (\<forall>i \<in> set E. i < length es) \<and> gapless h E \<and> c \<le> reach h E
     \<and> (E \<noteq> [] \<longrightarrow> 0 < c \<and> c \<le> Suc (last E) \<and> run_key (es ! (c - 1)) = run_key (es ! last E))"

text \<open>An index before the held run's last one and of another transaction was applied already.\<close>

lemma other_txn_applied:
  assumes log: "commit_log es" and ok: "held_ok es c h H" and H: "H \<noteq> []"
    and i: "i \<le> Suc (last H)" "i < length es" "run_key (es ! i) \<noteq> run_key (es ! last H)"
  shows "i \<le> h"
proof -
  have l: "last H < length es" using ok H by (auto simp: held_ok_def)
  have "hd H \<le> h" using ok H by (cases H) (auto simp: held_ok_def)
  moreover have "run_key (es ! hd H) = run_key (es ! last H)"
    using ok H hd_in_set [OF H] by (simp only: held_ok_def same_run_def if_False)
  ultimately have hd: "hd H \<le> h" "run_key (es ! hd H) = run_key (es ! last H)" by blast+
  have "i \<noteq> Suc (last H)"
    using commit_log_marked [OF log, of "last H"] ok H i by (auto simp: held_ok_def)
  then have "i \<le> last H" using i(1) by simp
  then show ?thesis
    using commit_log_contiguous [OF log, of "hd H" i "last H"] hd l i(3) by (cases "i \<le> h") auto
qed

lemma keep_new_index:
  assumes log: "commit_log es" and "i < length es" "j < length es" "run_key (es ! i) = run_key (es ! j)"
  shows "keep_new (h_seq (e_headers (es ! j))) (es ! i) \<longleftrightarrow> j < i"
proof -
  have "j < i \<Longrightarrow> stamp_less (es ! j) (es ! i)" "i < j \<Longrightarrow> stamp_less (es ! i) (es ! j)"
    using commit_log_less [OF log] assms by auto
  with commit_log_env [OF log assms(2)] commit_log_env [OF log assms(3)] assms(4) show ?thesis
    by (cases i j rule: linorder_cases)
      (auto simp: run_key_def keep_new_def stamp_less_def pos_less_def dest!: data_seq split: option.splits)
qed

lemma discard_le:
  assumes log: "commit_log es" and ok: "held_ok es c h H" and P: "deliveries es c P c'" "P \<noteq> []"
    and other: "H \<noteq> [] \<Longrightarrow> run_key (es ! hd P) \<noteq> run_key (es ! last H)"
  shows "hd P \<le> h" "deliveries es (hd P) P c'"
proof -
  obtain i P' where iP: "P = i # P'" using P(2) by (cases P) auto
  have i: "i < length es" "i \<le> c" using P(1) iP by auto
  have "i \<le> h"
  proof (cases "H = []")
    case True
    with ok i show ?thesis by (simp add: held_ok_def)
  next
    case False
    with ok i have "i \<le> Suc (last H)" by (simp add: held_ok_def)
    with other_txn_applied [OF log ok False _ i(1)] other [OF False] iP show ?thesis by simp
  qed
  then show "hd P \<le> h" "deliveries es (hd P) P c'" using P(1) iP by simp_all
qed

lemma joined_from:
  assumes "deliveries es d P c'" and "d \<le> h"
  shows "joined_ok es c' h P"
proof (cases "P = []")
  case True
  with assms show ?thesis by (simp add: joined_ok_def)
next
  case False
  with deliveries_gapless [OF assms] deliveries_last [OF assms(1)] deliveries_bound [OF assms(1)] show ?thesis
    by (auto simp: joined_ok_def)
qed

lemma last_filter_last: "xs \<noteq> [] \<Longrightarrow> Q (last xs) \<Longrightarrow> filter Q xs \<noteq> [] \<and> last (filter Q xs) = last xs"
  by (induction xs rule: rev_induct) auto

lemma joined_extend:
  assumes log: "commit_log es" and ok: "held_ok es c h H" and H: "H \<noteq> []" and P: "deliveries es c P c'"
    and PLR: "P = L @ R" and L: "\<forall>i \<in> set L. run_key (es ! i) = run_key (es ! last H)"
  shows "joined_ok es c' h (H @ filter (\<lambda>i. last H < i) L @ R)"
proof -
  let ?Q = "\<lambda>i. last H < i" and ?E = "H @ filter (\<lambda>i. last H < i) L @ R"
  have m: "last H < reach h H" using reach_gt H by auto
  have c: "c \<le> Suc (last H)" and hk: "run_key (es ! (c - 1)) = run_key (es ! last H)" "0 < c"
    using ok H by (auto simp: held_ok_def)
  then have g: "gapless (reach h H) P \<and> c' \<le> reach (reach h H) P" using deliveries_gapless [OF P] m by simp
  then have gL: "gapless (reach h H) L" "gapless (reach (reach h H) L) R" by (simp_all add: PLR gapless_append)
  have "\<forall>i \<in> set L. \<not> ?Q i \<longrightarrow> i < reach h H" using m by auto
  from gapless_filter [OF gL(1) this] gL(2) ok have gE: "gapless h ?E" "reach h ?E = reach (reach h H) P"
    by (simp_all add: gapless_append reach_append PLR held_ok_def)
  have "0 < c' \<and> c' \<le> Suc (last ?E) \<and> run_key (es ! (c' - 1)) = run_key (es ! last ?E)"
  proof (cases "P = []")
    case True
    then show ?thesis using P PLR c hk by simp
  next
    case False
    then have c': "c' = Suc (last P)" by (rule deliveries_last [OF P])
    show ?thesis
    proof (cases "R = []")
      case False
      then show ?thesis using c' PLR by simp
    next
      case True
      then have lL: "L \<noteq> []" "last P = last L" using False PLR by auto
      let ?F = "filter ?Q L"
      have key: "run_key (es ! last ?E) = run_key (es ! last H)" "last H \<le> last ?E"
      proof -
        have "last ?E \<in> insert (last H) (set ?F)" using True H by (auto simp: last_append dest: last_in_set)
        then show "run_key (es ! last ?E) = run_key (es ! last H)" "last H \<le> last ?E" using L by auto
      qed
      have "last L \<le> last ?E"
      proof (cases "?Q (last L)")
        case True
        then have "?F \<noteq> [] \<and> last ?F = last L" using lL(1) by (simp add: last_filter_last)
        with \<open>R = []\<close> show ?thesis by simp
      qed (use key in simp)
      then show ?thesis using c' lL L key by simp
    qed
  qed
  moreover have "\<forall>i \<in> set ?E. i < length es"
    using ok deliveries_bound [OF P] PLR by (auto simp: held_ok_def)
  ultimately show ?thesis using gE g by (simp add: joined_ok_def)
qed

text \<open>Joining a page, as indices. Either the page stands alone, and what it delivers starts within what was
  applied, or it extends the held run and keeps its pin.\<close>

lemma reattach_index:
  assumes log: "commit_log es" and ok: "held_ok es c h H" and P: "deliveries es c P c'"
  shows "\<exists>E hf mf. reattach (map ((!) es) H) pin (map ((!) es) P) = (map ((!) es) E, hf, mf) \<and> joined_ok es c' h E
     \<and> (mf = None \<and> (\<exists>d \<le> h. deliveries es d P c')
        \<or> mf = Some (run_key (es ! last H)) \<and> hf = pin \<and> H \<noteq> [] \<and> (\<exists>X. E = H @ X))"
proof (cases "H = []")
  case True
  then have "c \<le> h" using ok by (simp add: held_ok_def)
  with joined_from [OF P this] P True show ?thesis by (auto simp: reattach_def)
next
  case False
  let ?k = "\<lambda>i. run_key (es ! i) = run_key (es ! last H)"
  let ?L = "takeWhile ?k P" and ?R = "dropWhile ?k P"
  have last: "last (map ((!) es) H) = es ! last H" using False by (simp add: last_map)
  have tw: "takeWhile (\<lambda>e. run_key e = run_key (es ! last H)) (map ((!) es) P) = map ((!) es) ?L"
    by (simp add: takeWhile_map comp_def)
  have len: "take (length ?L) P = ?L" "drop (length ?L) P = ?R"
    by (simp_all add: takeWhile_eq_take [symmetric] dropWhile_eq_drop [symmetric])
  show ?thesis
  proof (cases "?L = [] \<and> P \<noteq> []")
    case True
    then have "reattach (map ((!) es) H) pin (map ((!) es) P) = (map ((!) es) P, None, None)"
      using False by (simp add: reattach_def Let_def last tw)
    moreover have "\<not> ?k (hd P)" using True by (cases P) auto
    ultimately show ?thesis using discard_le [OF log ok P] joined_from True by blast
  next
    case nz: False
    have "filter (\<lambda>i. keep_new (h_seq (e_headers (es ! last H))) (es ! i)) ?L = filter (\<lambda>i. last H < i) ?L"
    proof (rule filter_cong)
      fix i assume "i \<in> set ?L"
      then have "i < length es" "?k i" using deliveries_bound [OF P] by (auto dest: set_takeWhileD)
      moreover have "last H < length es" using ok False by (simp add: held_ok_def)
      ultimately show "keep_new (h_seq (e_headers (es ! last H))) (es ! i) \<longleftrightarrow> last H < i" by (intro keep_new_index [OF log])
    qed simp
    then have "reattach (map ((!) es) H) pin (map ((!) es) P)
        = (map ((!) es) (H @ filter (\<lambda>i. last H < i) ?L @ ?R), pin, Some (run_key (es ! last H)))"
      using False nz by (auto simp: reattach_def Let_def last tw take_map drop_map len filter_map comp_def)
    moreover have "joined_ok es c' h (H @ filter (\<lambda>i. last H < i) ?L @ ?R)"
      by (rule joined_extend [OF log ok False P]) (auto dest: set_takeWhileD)
    ultimately show ?thesis using False by blast
  qed
qed

text \<open>The pin of a held run: the position before one of the pages read, from which on what was delivered
  starts within what was applied. \<open>ps\<close> are the positions the pages \<open>iss\<close> were read at.\<close>

definition pinned :: "envelope list \<Rightarrow> log_position list \<Rightarrow> nat list list \<Rightarrow> nat \<Rightarrow> nat \<Rightarrow> nat list \<Rightarrow> log_position option \<Rightarrow> bool" where
  "pinned es ps iss c h H pin \<longleftrightarrow> length ps = length iss
     \<and> (if H = [] then pin = None
        else (\<exists>j < length ps. pin = Some (ps ! j) \<and> (\<exists>d \<le> h. deliveries es d (concat (drop j iss)) c)))"

lemma pinnedI:
  "length ps = length iss \<Longrightarrow> H \<noteq> [] \<Longrightarrow> j < length ps \<Longrightarrow> pin = Some (ps ! j) \<Longrightarrow> d \<le> h \<Longrightarrow>
   deliveries es d (concat (drop j iss)) c \<Longrightarrow> pinned es ps iss c h H pin"
  by (auto simp: pinned_def)

lemma pinned_step:
  assumes log: "commit_log es" and ok: "held_ok es c h H" and pin: "pinned es ps iss c h H pin" and P: "deliveries es c P c'"
    and re: "reattach (map ((!) es) H) pin (map ((!) es) P) = (map ((!) es) E, hf, mf)" and jo: "joined_ok es c' h E"
    and cases: "mf = None \<and> (\<exists>d \<le> h. deliveries es d P c') \<or> mf = Some (run_key (es ! last H)) \<and> hf = pin \<and> H \<noteq> [] \<and> (\<exists>X. E = H @ X)"
    and n: "n = cut_at (map ((!) es) E)"
  shows "pinned es (ps @ [rp]) (iss @ [P]) c' (reach h (take n E)) (drop n E) (snd (snd (hold_tail rp (map ((!) es) E, hf, mf))))"
proof (cases "unterminated_tail (map ((!) es) E)")
  case None
  then show ?thesis using n pin by (simp add: pinned_def cut_at_def hold_tail_def)
next
  case (Some m)
  then have m: "m = n" using n by (simp add: cut_at_def)
  have lt: "n < length E" using unterminated_tail_Some(1) [OF Some] m by simp
  have len: "length ps = length iss" using pin by (simp add: pinned_def)
  show ?thesis
  proof (cases "mf = Some (run_key (es ! (E ! n)))")
    case True
    then have "H \<noteq> []" "hf = pin" using cases by auto
    then obtain j d where j: "j < length ps" "pin = Some (ps ! j)" "d \<le> h" "deliveries es d (concat (drop j iss)) c"
      using pin by (auto simp: pinned_def)
    have "deliveries es d (concat (drop j (iss @ [P]))) c'" using j P len by (auto simp: deliveries_append)
    moreover have "d \<le> reach h (take n E)" using j(3) reach_ge le_trans by blast
    ultimately show ?thesis using j(1,2) lt True Some m \<open>hf = pin\<close> len
      by (intro pinnedI [of _ _ _ j _ d]) (simp_all add: hold_tail_def nth_append)
  next
    case False
    have "\<exists>d \<le> reach h (take n E). deliveries es d P c'"
    proof (cases "mf = None")
      case True
      then show ?thesis using cases reach_ge le_trans by blast
    next
      case mf: False
      then obtain X where H: "H \<noteq> []" and X: "E = H @ X" and mk: "mf = Some (run_key (es ! last H))" using cases by blast
      have "same_run es H" "c \<le> Suc (last H)" using ok H by (simp_all add: held_ok_def)
      then have "length H \<le> n" using False mk X by (auto simp: same_run_def nth_append not_less [symmetric])
      then have "last H \<in> set (take n E)" using H X by simp
      then have "c \<le> reach h (take n E)" using reach_gt [of "last H" "take n E" h] \<open>c \<le> Suc (last H)\<close> by simp
      with P show ?thesis by blast
    qed
    then obtain d where "d \<le> reach h (take n E)" "deliveries es d P c'" by blast
    then show ?thesis using False lt Some m len
      by (intro pinnedI [of _ _ _ "length ps" _ d]) (simp_all add: hold_tail_def nth_append)
  qed
qed

lemma cut_index:
  assumes log: "commit_log es" and ok: "joined_ok es c h E" and h: "h \<le> length es"
    and n: "n = cut_at (map ((!) es) E)"
  shows "held_ok es c (reach h (take n E)) (drop n E)"
proof -
  have bound: "\<forall>i \<in> set E. i < length es" using ok by (simp add: joined_ok_def)
  then have h': "reach h (take n E) \<le> length es" using h by (intro reach_bound) (auto dest: in_set_takeD)
  have g: "gapless (reach h (take n E)) (drop n E)"
    using ok gapless_append [of h "take n E" "drop n E"] by (simp add: joined_ok_def)
  show ?thesis
  proof (cases "drop n E = []")
    case True
    then show ?thesis using ok h' by (simp add: held_ok_def joined_ok_def)
  next
    case False
    then have E: "E \<noteq> []" and len: "n < length E" by auto
    then have "unterminated_tail (map ((!) es) E) = Some n" using n by (auto simp: cut_at_def split: option.splits)
    note tl = unterminated_tail_Some [OF this]
    have last: "last (map ((!) es) E) = es ! last E" "last (drop n E) = last E" using E len by (simp_all add: last_map)
    have "same_run es (drop n E)"
      using tl(4) by (auto simp: same_run_def last list_all_iff drop_map)
    with tl(2) ok E g h' False last bound show ?thesis by (auto simp: held_ok_def joined_ok_def dest: in_set_dropD)
  qed
qed

definition once_inv :: "envelope list \<Rightarrow> log_position list \<Rightarrow> nat list list \<Rightarrow> nat \<Rightarrow> seq_state \<Rightarrow> envelope list list \<Rightarrow> bool" where
  "once_inv es ps iss c st fl \<longleftrightarrow>
     (\<exists>h H. sq_held st = map ((!) es) H \<and> sq_highwater st = hw_at es h \<and> concat fl = take h es \<and> held_ok es c h H
        \<and> pinned es ps iss c h H (sq_held_from st))"

lemma once_step:
  assumes log: "commit_log es" and inv: "once_inv es ps iss c st fl"
    and P: "deliveries es c P c'" "page_data rr = map ((!) es) P"
  shows "\<exists>st' fl' ck. on_page recorder u nxt due rr st ([], fl) = (st', ([], fl'), ck, True)
     \<and> once_inv es (ps @ [sq_pos st]) (iss @ [P]) c' st' fl'"
proof -
  from inv obtain h H where st: "sq_held st = map ((!) es) H" "sq_highwater st = hw_at es h"
    and fl: "concat fl = take h es" and ok: "held_ok es c h H" and pin: "pinned es ps iss c h H (sq_held_from st)"
    by (auto simp: once_inv_def)
  have h: "h \<le> length es" using ok by (simp add: held_ok_def)
  from reattach_index [OF log ok P(1), of "sq_held_from st"] obtain E hf mf where
    re: "reattach (map ((!) es) H) (sq_held_from st) (map ((!) es) P) = (map ((!) es) E, hf, mf)"
    and jo: "joined_ok es c' h E"
    and cs: "mf = None \<and> (\<exists>d \<le> h. deliveries es d P c') \<or> mf = Some (run_key (es ! last H)) \<and> hf = sq_held_from st \<and> H \<noteq> [] \<and> (\<exists>X. E = H @ X)"
    by blast
  then have j: "joined (sq_held st) (page_data rr) = map ((!) es) E"
    by (auto simp: joined_def reattach_def Let_def st P(2) split: if_splits)
  define n where "n = cut_at (map ((!) es) E)"
  let ?R = "take n E"
  have bound: "\<forall>i \<in> set ?R. i < length es" using jo by (auto simp: joined_ok_def dest: in_set_takeD)
  have "gapless h ?R" using jo gapless_append [of h ?R "drop n E"] by (simp add: joined_ok_def)
  note fr = fresh_gapless [OF log this bound h]
  have "list_all data_env (map ((!) es) ?R)" using bound commit_log_env [OF log] by (auto simp: list_all_iff)
  from process_runs_recorder [OF this, of u "hw_at es h" fl] obtain g where
    run: "process_runs recorder u (map ((!) es) ?R) (sq_highwater st) ([], fl) = (hw_at es (reach h ?R), ([], fl @ g), True)"
    and g: "concat g = map ((!) es) [h..<reach h ?R]" unfolding fr st(2) by auto
  have "process_runs recorder u (take (cut_at (map ((!) es) E)) (map ((!) es) E)) (sq_highwater st) ([], fl)
      = (hw_at es (reach h ?R), ([], fl @ g), True)" using run by (simp add: n_def take_map)
  from on_page_core [OF j this, of nxt due] obtain st' ck where
    page: "on_page recorder u nxt due rr st ([], fl) = (st', ([], fl @ g), ck, True)" "sq_highwater st' = hw_at es (reach h ?R)"
      "sq_held st' = map ((!) es) (drop n E)" "sq_held_from st' = snd (snd (hold_tail (sq_pos st) (map ((!) es) E, hf, mf)))"
    by (auto simp: n_def drop_map st P(2) re)
  have "concat (fl @ g) = map ((!) es) ([0..<h] @ [h..<reach h ?R])" using fl g map_nth_take [OF h] by simp
  also have "[0..<h] @ [h..<reach h ?R] = [0..<reach h ?R]" using reach_ge [of h ?R] upt_add_eq_append [of 0 h "reach h ?R - h"] by simp
  finally have "concat (fl @ g) = take (reach h ?R) es" using map_nth_take reach_bound [OF h bound] by simp
  with cut_index [OF log jo h n_def] pinned_step [OF log ok pin P(1) re jo cs n_def] page show ?thesis
    unfolding once_inv_def by metis
qed

lemma once_pages:
  assumes log: "commit_log es" and "once_inv es ps js c st fl"
    and "deliveries es c (concat iss) c'" and "map (page_data \<circ> fst) rs = map (map ((!) es)) iss"
  shows "\<exists>st' fl'. run_pages recorder u nxt rs st ([], fl) = (st', ([], fl'), True)
     \<and> once_inv es (ps @ page_positions recorder u nxt rs st ([], fl)) (js @ iss) c' st' fl'"
  using assms(2-)
proof (induction rs arbitrary: ps js c st fl iss)
  case (Cons r rs)
  obtain rr due where r: "r = (rr, due)" by (cases r)
  from Cons.prems(3) r obtain P iss' where iss: "iss = P # iss'" and p: "page_data rr = map ((!) es) P"
    and rest: "map (page_data \<circ> fst) rs = map (map ((!) es)) iss'" by (cases iss) (auto simp: comp_def)
  from Cons.prems(2) iss obtain d where d: "deliveries es c P d" "deliveries es d (concat iss') c'"
    by (auto simp: deliveries_append)
  from once_step [OF log Cons.prems(1) d(1) p, of u nxt due] obtain st1 fl1 ck where
    s: "on_page recorder u nxt due rr st ([], fl) = (st1, ([], fl1), ck, True)"
      "once_inv es (ps @ [sq_pos st]) (js @ [P]) d st1 fl1" by blast
  from Cons.IH [OF s(2) d(2) rest] r s(1) iss show ?case by simp
qed auto

lemma once_start:
  assumes "h \<le> length es" "concat fl = take h es" "c \<le> h"
  shows "once_inv es [] [] c (seq_start pos (hw_at es h)) fl"
  using assms
  by (auto simp: once_inv_def seq_start_def held_ok_def pinned_def intro!: exI [of _ h] exI [of _ "[]"])

lemma once_result:
  assumes log: "commit_log es" and inv: "once_inv es ps iss c st fl"
  shows "\<exists>h. concat fl = take h es \<and> (0 < c \<and> marked (es ! (c - 1)) \<longrightarrow> c \<le> h \<and> sq_held st = [])"
proof -
  from inv obtain h H where st: "sq_held st = map ((!) es) H" "concat fl = take h es" and ok: "held_ok es c h H"
    by (auto simp: once_inv_def)
  have "H = []" if m: "0 < c" "marked (es ! (c - 1))"
  proof (rule ccontr)
    assume H: "H \<noteq> []"
    have "c \<le> Suc (last H) \<and> run_key (es ! (c - 1)) = run_key (es ! last H) \<and> \<not> marked (es ! last H)"
      using ok H by (simp only: held_ok_def if_False simp_thms)
    moreover have "last H < length es" using ok H by (simp add: held_ok_def)
    ultimately have l: "c - 1 \<le> last H" "run_key (es ! (c - 1)) = run_key (es ! last H)" "\<not> marked (es ! last H)" "last H < length es"
      by linarith+
    then have "c - 1 \<noteq> last H" using m(2) by metis
    then have lt: "Suc (c - 1) \<le> last H" using l by simp
    have "run_key (es ! Suc (c - 1)) = run_key (es ! last H)"
      by (rule commit_log_contiguous [OF log, of "c - 1"]) (use lt l in auto)
    with commit_log_marked [OF log, of "c - 1"] m(2) lt l show False by simp
  qed
  then have "c \<le> h \<and> sq_held st = []" if "0 < c \<and> marked (es ! (c - 1))" using that ok st(1) by (simp add: held_ok_def)
  with st(2) show ?thesis by blast
qed

lemma redelivery_run:
  assumes "commit_log es" and "deliveries es 0 (concat iss) c" and "map (page_data \<circ> fst) rs = map (map ((!) es)) iss"
  shows "\<exists>st fl. run_pages recorder u nxt rs (seq_start pos None) ([], []) = (st, ([], fl), True)
     \<and> once_inv es (page_positions recorder u nxt rs (seq_start pos None) ([], [])) iss c st fl"
proof -
  have "once_inv es [] [] 0 (seq_start pos None) []" using once_start [of 0 es "[]" 0 pos] by (simp add: hw_at_def)
  from once_pages [OF assms(1) this assms(2,3), of u nxt] show ?thesis by simp
qed

text \<open>C3: effectively-once processing of at-least-once delivery. For every commit log, every sequence of
  re-deliveries of it that the ingestor can produce, and every paging, the envelopes applied are
  exactly a prefix of the log, each once and in order; and whenever the last envelope delivered
  ends its transaction, everything up to it has been applied and nothing is held.\<close>

theorem redelivery_applied_once:
  assumes "commit_log es" and "deliveries es 0 (concat iss) c" and "map (page_data \<circ> fst) rs = map (map ((!) es)) iss"
  shows "\<exists>st' fl h. run_pages recorder u nxt rs (seq_start pos None) ([], []) = (st', ([], fl), True)
     \<and> concat fl = take h es \<and> (0 < c \<and> marked (es ! (c - 1)) \<longrightarrow> c \<le> h \<and> sq_held st' = [])"
  using redelivery_run [OF assms, of u nxt pos] once_result [OF assms(1)] by blast


subsection \<open>Two commits\<close>

definition ex_change :: "string \<Rightarrow> nat \<Rightarrow> bool \<Rightarrow> envelope" where
  "ex_change lsn n lst =
     \<lparr>e_type = ''public.t'', e_key = show_nat n, e_value = None, e_old = None,
      e_headers = \<lparr>h_operation = ''delete'', h_txid = Some lsn, h_offset = None, h_lsn = Some lsn, h_seq = Some n,
        h_last = (if lst then Some True else None)\<rparr>\<rparr>"

definition ex_commits :: "envelope list" where
  "ex_commits = [ex_change ''0/1'' 0 False, ex_change ''0/1'' 1 True, ex_change ''0/2'' 0 False, ex_change ''0/2'' 1 True]"

definition ex_page :: "envelope list \<Rightarrow> read_result" where
  "ex_page es = \<lparr>rr_envelopes = es, rr_next_offset = Some ''n'', rr_up_to_date = False, rr_closed = False\<rparr>"

lemma ex_lsn: "lsn_to_u64 ''0/1'' = 1" "lsn_to_u64 ''0/2'' = 2"
  by (simp_all add: lsn_to_u64_def hex_or_0_def parse_uint_def parse_nat_radix_def digit_val_def trim_def is_whitespace_def code_of_def u32_max_def u64_max_def Let_def)

lemma ex_commits_log: "commit_log ex_commits"
  by (simp add: commit_log_def ex_commits_def ex_change_def data_env_def stamp_of_def stamp_less_def pos_less_def marked_def
      run_key_def is_control_def CONTROL_TYPE_def ENVELOPE_TYPE_def SOURCE_FENCE_ENVELOPE_def ex_lsn)

lemma ex_page_data: "page_data (ex_page (map ((!) ex_commits) [0, Suc 0])) = map ((!) ex_commits) [0, Suc 0]"
  by (simp add: page_data_def ex_page_def ex_commits_def ex_change_def is_control_def CONTROL_TYPE_def)

lemma page_data_index:
  assumes "\<forall>i \<in> set P. i < 4"
  shows "page_data (ex_page (map ((!) ex_commits) P)) = map ((!) ex_commits) P"
proof -
  have "\<not> is_control (ex_commits ! i)" if "i < 4" for i
    using commit_log_env [OF ex_commits_log, of i] that by (simp add: data_env_def ex_commits_def)
  with assms show ?thesis by (auto simp: page_data_def ex_page_def intro!: filter_True)
qed

text \<open>The second commit arrives in two pages and is handed over once, whole.\<close>

theorem pages_atomic_witness:
  "\<exists>st fl. run_pages recorder (\<lambda>_. None) (\<lambda>_. Err (Other [])) [(ex_page (take 3 ex_commits), True), (ex_page (drop 3 ex_commits), False)]
       (seq_start lp_start None) ([], []) = (st, ([], fl), True)
     \<and> txns ex_commits = fl @ (if sq_held st = [] then [] else [sq_held st])"
proof -
  let ?rs = "[(ex_page (take 3 ex_commits), True), (ex_page (drop 3 ex_commits), False)]"
  have "page_data (ex_page (map ((!) ex_commits) [0, 1, 2])) = map ((!) ex_commits) [0, 1, 2]"
    "page_data (ex_page (map ((!) ex_commits) [3])) = map ((!) ex_commits) [3]"
    by (rule page_data_index; simp)+
  then have d: "concat (map (page_data \<circ> fst) ?rs) = ex_commits" by (simp add: ex_commits_def)
  have "commit_log (concat (map (page_data \<circ> fst) ?rs))" unfolding d by (rule ex_commits_log)
  from pages_atomic [OF this, unfolded d, of "\<lambda>_. None" "\<lambda>_. Err (Other [])" lp_start] show ?thesis by blast
qed

text \<open>A commit is cut short and everything is sent again.\<close>

theorem redelivery_applied_once_witness:
  "\<exists>st fl h. run_pages recorder (\<lambda>_. None) (\<lambda>_. Err (Other []))
       [(ex_page (map ((!) ex_commits) [0, 1, 2]), True), (ex_page (map ((!) ex_commits) [0, 1, 2, 3]), False)]
       (seq_start lp_start None) ([], []) = (st, ([], fl), True)
     \<and> concat fl = take h ex_commits \<and> 4 \<le> h \<and> sq_held st = []"
proof -
  let ?rs = "[(ex_page (map ((!) ex_commits) [0, 1, 2]), True), (ex_page (map ((!) ex_commits) [0, 1, 2, 3]), False)]"
  have "page_data (ex_page (map ((!) ex_commits) [0, 1, 2])) = map ((!) ex_commits) [0, 1, 2]"
    "page_data (ex_page (map ((!) ex_commits) [0, 1, 2, 3])) = map ((!) ex_commits) [0, 1, 2, 3]"
    by (rule page_data_index; simp)+
  then have d: "map (page_data \<circ> fst) ?rs = map (map ((!) ex_commits)) [[0, 1, 2], [0, 1, 2, 3]]" by simp
  have del: "deliveries ex_commits 0 (concat [[0, 1, 2], [0, 1, 2, 3]]) 4"
    by (simp add: starts_def ex_commits_def numeral_eq_Suc)
  have "marked (ex_commits ! (4 - 1))" by (simp add: ex_commits_def ex_change_def marked_def)
  with redelivery_applied_once [OF ex_commits_log del d, of "\<lambda>_. None" "\<lambda>_. Err (Other [])" lp_start]
  obtain st fl h where "run_pages recorder (\<lambda>_. None) (\<lambda>_. Err (Other [])) ?rs (seq_start lp_start None) ([], []) = (st, ([], fl), True)"
    "concat fl = take h ex_commits" "4 \<le> h" "sq_held st = []" using zero_less_numeral by blast
  then show ?thesis by blast
qed


text \<open>A fragment in the middle of a page is not discarded. The second commit was cut short, the first one
  is sent again and then the second in full, all on one page: its first envelope is flushed as a
  transaction of its own. The same fragment at the end of an earlier page would have been dropped.\<close>

lemma orphan_fragment_flushed:
  "fst (snd (run_pages recorder (\<lambda>_. None) (\<lambda>_. Err (Other []))
       [(ex_page (map ((!) ex_commits) [0, 1]), True), (ex_page (map ((!) ex_commits) [2, 0, 1, 2, 3]), False)]
       (seq_start lp_start None) ([], []))) = ([], [take 2 ex_commits, [ex_commits ! 2], [ex_commits ! 3]])"
  by (simp add: on_page_def ex_page_def ex_commits_def ex_change_def seq_start_def lp_start_def start_of_def reattach_def hold_tail_def
      unterminated_tail_def process_txn_def txn_env_def recorder_def duplicate_def advance_def stamp_of_def pos_less_def run_key_def
      is_control_def CONTROL_TYPE_def ENVELOPE_TYPE_def SOURCE_FENCE_ENVELOPE_def pending_fences_default_def ex_lsn cross_segment_def
      numeral_eq_Suc Let_def)

section \<open>Failures\<close>

lemma while_prefix:
  "ys = [] \<or> \<not> P (hd ys) \<Longrightarrow> takeWhile P (takeWhile P xs @ ys) = takeWhile P xs \<and> dropWhile P (takeWhile P xs @ ys) = ys"
  by (induction xs) (auto simp: neq_Nil_conv, (cases ys; simp)+)

lemma process_txn_fail_hw: "process_txn ops u run hw x = (hw', x', False) \<Longrightarrow> hw' = hw"
  by (auto simp: process_txn_def Let_def split: sum.splits prod.splits option.splits if_splits)

text \<open>Processing stops at a transaction boundary: the highwater is the one after the transactions that
  succeeded.\<close>

lemma process_runs_fail:
  "process_runs ops u es hw x = (hw', x', False) \<Longrightarrow>
   \<exists>good run rest x1. es = good @ run @ rest \<and> run \<noteq> [] \<and> process_runs ops u good hw x = (hw', x1, True)
     \<and> process_txn ops u run hw' x1 = (hw', x', False)"
proof (induction ops u es hw x rule: process_runs.induct)
  case (2 ops u e es hw x)
  let ?run = "e # takeWhile (\<lambda>e'. run_key e' = run_key e) es" and ?rest = "dropWhile (\<lambda>e'. run_key e' = run_key e) es"
  obtain hw1 x1 ok where t: "process_txn ops u ?run hw x = (hw1, x1, ok)" by (cases "process_txn ops u ?run hw x") auto
  show ?case
  proof (cases ok)
    case False
    with t 2 have "hw1 = hw'" "x1 = x'" "hw1 = hw" by (auto dest: process_txn_fail_hw)
    with t False show ?thesis by (intro exI [of _ "[]"] exI [of _ ?run] exI [of _ ?rest] exI [of _ x]) simp
  next
    case True
    with t 2 obtain good run rest x2 where g: "?rest = good @ run @ rest" "run \<noteq> []"
      "process_runs ops u good hw1 x1 = (hw', x2, True)" "process_txn ops u run hw' x2 = (hw', x', False)" by fastforce
    have "good = [] \<or> \<not> run_key (hd good) = run_key e"
      using g(1) hd_dropWhile [of "\<lambda>e'. run_key e' = run_key e" es] by (cases good) auto
    note split = while_prefix [where P = "\<lambda>e'. run_key e' = run_key e" and xs = es, OF this]
    have "e # es = (?run @ good) @ run @ rest" using g(1) takeWhile_dropWhile_id [of "\<lambda>e'. run_key e' = run_key e" es] by simp
    moreover have "process_runs ops u (?run @ good) hw x = (hw', x2, True)" using t True g(3) split by simp
    ultimately show ?thesis using g by blast
  qed
qed simp

text \<open>C24: a failed transaction is not acknowledged. When a page stops the loop, whatever the executors do,
  no checkpoint is sent for it and the processed position stays; the final checkpoint is at the
  position published before the page, with the highwater after the transactions of the page that
  succeeded, so that the failed transaction is read and applied again.\<close>

theorem page_failure_rewinds:
  assumes "on_page ops u nxt due rr st x = (st', x', ck, False)"
  shows "ck = None \<and> sq_processed st' = sq_processed st
    \<and> final_checkpoint False st' = Some (published (sq_pos st) (sq_held_from st), sq_highwater st')
    \<and> (\<exists>good run rest x1. take (cut_at (joined (sq_held st) (page_data rr))) (joined (sq_held st) (page_data rr)) = good @ run @ rest
         \<and> run \<noteq> [] \<and> process_runs ops u good (sq_highwater st) x = (sq_highwater st', x1, True)
         \<and> process_txn ops u run (sq_highwater st') x1 = (sq_highwater st', x', False))"
proof -
  let ?E = "joined (sq_held st) (page_data rr)"
  obtain E hf mf where re: "reattach (sq_held st) (sq_held_from st) (page_data rr) = (E, hf, mf)"
    by (cases "reattach (sq_held st) (sq_held_from st) (page_data rr)")
  then have E: "?E = E" by (auto simp: joined_def reattach_def Let_def split: if_splits)
  have hf: "hf = None \<or> hf = sq_held_from st" using re by (auto simp: reattach_def Let_def split: if_splits)
  obtain hf' where ht: "hold_tail (sq_pos st) (E, hf, mf) = (take (cut_at E) E, drop (cut_at E) E, hf')"
    and hf': "hf' = None \<or> hf' = hf \<or> hf' = Some (sq_pos st)"
    by (cases "unterminated_tail E") (auto simp: hold_tail_def cut_at_def)
  obtain hw y ok where pr: "process_runs ops u (take (cut_at E) E) (sq_highwater st) x = (hw, y, ok)"
    by (cases "process_runs ops u (take (cut_at E) E) (sq_highwater st) x") auto
  with assms re ht have no: "\<not> ok" unfolding on_page_def page_data_def [symmetric]
    by (auto simp: Let_def split: prod.splits if_splits)
  with assms re ht pr have st': "ck = None" "x' = y" "sq_highwater st' = hw" "sq_processed st' = sq_processed st"
    "sq_pos st' = (case sq_held_from st of Some p \<Rightarrow> p | None \<Rightarrow> sq_pos st)"
    "sq_held_from st' = (case sq_held_from st of Some p \<Rightarrow> Some p | None \<Rightarrow> hf')"
    unfolding on_page_def page_data_def [symmetric] by (auto simp: Let_def)
  have "final_checkpoint False st' = Some (published (sq_pos st) (sq_held_from st), sq_highwater st')"
    using st'(5,6) hf hf' by (auto simp: final_checkpoint_def published_def split: option.splits)
  with process_runs_fail [of ops u "take (cut_at E) E"] pr no st' show ?thesis unfolding E by auto
qed

text \<open>The second commit fails: the first one stays acknowledged.\<close>

theorem page_failure_rewinds_witness:
  "\<exists>st x. on_page (recorder\<lparr>so_handle := (\<lambda>e y. if e = ex_commits ! 3 then Err (Other []) else so_handle recorder e y)\<rparr>)
       (\<lambda>_. None) (\<lambda>_. Err (Other [])) True (ex_page ex_commits) (seq_start lp_start None) ([], []) = (st, x, None, False)
     \<and> snd x = [take 2 ex_commits] \<and> final_checkpoint False st = Some (lp_start, Some (1, 1))"
proof -
  let ?ops = "recorder\<lparr>so_handle := (\<lambda>e y. if e = ex_commits ! 3 then Err (Other []) else so_handle recorder e y)\<rparr>"
  have run: "\<exists>st x. on_page ?ops (\<lambda>_. None) (\<lambda>_. Err (Other [])) True (ex_page ex_commits) (seq_start lp_start None) ([], []) = (st, x, None, False)
     \<and> snd x = [take 2 ex_commits] \<and> sq_highwater st = Some (1, 1)"
    by (simp add: on_page_def ex_page_def ex_commits_def ex_change_def seq_start_def lp_start_def start_of_def reattach_def hold_tail_def
      unterminated_tail_def process_txn_def txn_env_def recorder_def duplicate_def advance_def stamp_of_def pos_less_def run_key_def
      is_control_def CONTROL_TYPE_def ENVELOPE_TYPE_def SOURCE_FENCE_ENVELOPE_def pending_fences_default_def ex_lsn cross_segment_def
      numeral_eq_Suc Let_def)
  then obtain st x where st: "on_page ?ops (\<lambda>_. None) (\<lambda>_. Err (Other [])) True (ex_page ex_commits) (seq_start lp_start None) ([], []) = (st, x, None, False)"
    "snd x = [take 2 ex_commits]" "sq_highwater st = Some (1, 1)" by blast
  from page_failure_rewinds [OF st(1)] have "final_checkpoint False st = Some (lp_start, Some (1, 1))"
    by (simp add: seq_start_def published_def st(3))
  with st show ?thesis by blast
qed

end
