(* ===== verification/Fanout.thy ===== *)
theory Fanout
  imports Aggregates Sequencer
begin

text \<open>
  The per-table executors of the sequencer (\<^verbatim>\<open>apps/engine/src/engine/sequencer.rs\<close>): registering,
  activating, parking and removing shapes, the buffers of shapes that are being created, and the
  fan-out of one change to every shape of its table. Hash maps are association lists, so that an
  iteration has an order; maps that are only probed are functions. The staged appends of a
  transaction are a function from stream paths to envelopes. The cross-table subquery registry is
  an operation on a state of its own, the appends of an activation are operations on the store, and
  tracing is the flag that decides whether an index is asked.
\<close>

section \<open>State\<close>

datatype create_kind = Plain | Aggregate agg_fn "nat option"

record pending_shape =
  ps_num_id :: nat
  ps_stream_path :: string
  ps_pred :: compiled_predicate
  ps_out_cols :: "nat list option"
  ps_kind :: create_kind
  ps_buffered :: "envelope list"
  ps_buffered_bytes :: nat
  ps_overflowed :: bool

record table_exec =
  te_ts :: tschema
  te_shapes :: "(string \<times> standalone_shape) list"
  te_shape_index :: standalone_index
  te_families :: "(nat list \<times> key_router) list"
  te_family_of :: "string \<Rightarrow> (nat list \<times> nat \<times> row) option"
  te_aggregates :: "(string \<times> agg_shape) list"
  te_agg_index :: standalone_index
  te_circuit_aggs :: "(string \<times> circuit_agg) list"
  te_pending :: "(string \<times> pending_shape) list"
  te_envelopes_total :: nat
  te_library_rows :: "string \<Rightarrow> json option"

definition table_exec_new :: "tschema \<Rightarrow> table_exec" where
  "table_exec_new ts =
     \<lparr>te_ts = ts, te_shapes = [], te_shape_index = index_empty, te_families = [], te_family_of = Map.empty,
      te_aggregates = [], te_agg_index = index_empty, te_circuit_aggs = [], te_pending = [],
      te_envelopes_total = 0, te_library_rows = Map.empty\<rparr>"

definition stamp_before_image :: "envelope \<Rightarrow> table_exec \<Rightarrow> envelope \<times> table_exec" where
  "stamp_before_image env te =
     (let env' = (if e_old env = None then env\<lparr>e_old := te_library_rows te (e_key env)\<rparr> else env) in
      (env',
       if h_operation (e_headers env) = ''delete'' then te\<lparr>te_library_rows := (te_library_rows te)(e_key env := None)\<rparr>
       else (case e_value env of
               Some v \<Rightarrow> te\<lparr>te_library_rows := (te_library_rows te)(e_key env \<mapsto> v)\<rparr>
             | None \<Rightarrow> te)))"

text \<open>What an envelope costs to hold is the argument \<open>mem\<close>.\<close>

definition buffer_pending :: "(envelope \<Rightarrow> nat) \<Rightarrow> envelope \<Rightarrow> nat \<Rightarrow> pending_shape \<Rightarrow> pending_shape \<times> bool" where
  "buffer_pending mem env cap p =
     (if ps_overflowed p then (p, False)
      else if cap > 0 \<and> sat_add (ps_buffered_bytes p) (mem env) > cap
      then (p\<lparr>ps_overflowed := True, ps_buffered := [], ps_buffered_bytes := 0\<rparr>, False)
      else (p\<lparr>ps_buffered_bytes := sat_add (ps_buffered_bytes p) (mem env), ps_buffered := ps_buffered p @ [env]\<rparr>, True))"

type_synonym execs = "(string \<times> table_exec) list"

definition exec_for :: "(table_ref \<Rightarrow> tschema option) \<Rightarrow> string \<Rightarrow> execs \<Rightarrow> execs \<times> table_exec option" where
  "exec_for tables table execs =
     (case map_of execs table of
        Some te \<Rightarrow> (execs, Some te)
      | None \<Rightarrow>
          (case table_parse table of
             Inl _ \<Rightarrow> (execs, None)
           | Inr tref \<Rightarrow>
               if table_as_str tref \<noteq> table then (execs, None)
               else (case tables tref of
                       None \<Rightarrow> (execs, None)
                     | Some ts \<Rightarrow> (AList.update (table_as_str tref) (table_exec_new ts) execs, Some (table_exec_new ts)))))"

section \<open>Fan-out of one change\<close>

type_synonym staged = "string \<Rightarrow> envelope list"

definition stage_out :: "string \<Rightarrow> envelope list \<Rightarrow> staged \<Rightarrow> staged" where
  "stage_out path envs pending = pending(path := pending path @ envs)"

text \<open>Absolute emission, when there is no before-image: every shape is told where the key stands.\<close>

definition absolute_shape ::
  "fault \<Rightarrow> tschema \<Rightarrow> string \<Rightarrow> row option \<Rightarrow> string option \<Rightarrow> string option \<Rightarrow> nat \<Rightarrow> nat option
   \<Rightarrow> string \<times> standalone_shape \<Rightarrow> staged \<Rightarrow> staged" where
  "absolute_shape fl ts key row_now txid lsn lsn_u64 xid sh pending =
     (let s = snd sh in
      if should_skip (ss_gate s) lsn_u64 xid then pending
      else (let held = (case row_now of Some r \<Rightarrow> if matches fl (ss_pred s) r then Some r else None | None \<Rightarrow> None) in
            case absolute_envelope fl ts key held txid lsn (ss_out_cols s) of
              Some e \<Rightarrow> stage_out (ss_stream_path s) [e] pending
            | None \<Rightarrow> pending))"

definition absolute_routed ::
  "fault \<Rightarrow> tschema \<Rightarrow> string \<Rightarrow> row option \<Rightarrow> string option \<Rightarrow> string option \<Rightarrow> nat \<Rightarrow> nat option
   \<Rightarrow> routed_shape \<Rightarrow> staged \<Rightarrow> staged" where
  "absolute_routed fl ts key held txid lsn lsn_u64 xid rs pending =
     (if should_skip (rs_gate rs) lsn_u64 xid then pending
      else (case absolute_envelope fl ts key held txid lsn (rs_out_cols rs) of
              Some e \<Rightarrow> stage_out (rs_stream_path rs) [e] pending
            | None \<Rightarrow> pending))"

definition absolute_router ::
  "fault \<Rightarrow> tschema \<Rightarrow> string \<Rightarrow> row option \<Rightarrow> string option \<Rightarrow> string option \<Rightarrow> nat \<Rightarrow> nat option
   \<Rightarrow> key_router \<Rightarrow> staged \<Rightarrow> staged" where
  "absolute_router fl ts key row_now txid lsn lsn_u64 xid kr pending =
     fold (\<lambda>(k, routed) p.
        fold (absolute_routed fl ts key (if map_option (\<lambda>r. key_of r (kr_key_cols kr)) row_now = Some k then row_now else None)
                txid lsn lsn_u64 xid) routed p)
       (kr_index kr) pending"

text \<open>A standalone shape: its filter on the delta.\<close>

definition fan_shape ::
  "fault \<Rightarrow> f64_ops \<Rightarrow> tschema \<Rightarrow> zdelta \<Rightarrow> string option \<Rightarrow> string option \<Rightarrow> nat \<Rightarrow> nat option
   \<Rightarrow> string \<times> standalone_shape \<Rightarrow> staged \<Rightarrow> staged" where
  "fan_shape fl F ts delta txid lsn lsn_u64 xid sh pending =
     (let s = snd sh in
      if should_skip (ss_gate s) lsn_u64 xid then pending
      else (let out = eval_standalone fl (ss_pred s) delta in
            if out = [] then pending
            else stage_out (ss_stream_path s) (translate_output fl F ts out txid lsn (ss_out_cols s)) pending))"

text \<open>An equality router: each row goes to the shapes registered on its key.\<close>

type_synonym shape_out = "string \<times> nat list option \<times> (row \<times> int) list"

definition route_shape :: "nat \<Rightarrow> nat option \<Rightarrow> row \<times> int \<Rightarrow> routed_shape \<Rightarrow> (nat \<times> shape_out) list \<Rightarrow> (nat \<times> shape_out) list" where
  "route_shape lsn_u64 xid rw rs m =
     (if should_skip (rs_gate rs) lsn_u64 xid then m
      else upd_default (rs_num_id rs) (rs_stream_path rs, rs_out_cols rs, []) (\<lambda>(p, c, rows). (p, c, rows @ [rw])) m)"

definition route_row :: "key_router \<Rightarrow> nat \<Rightarrow> nat option \<Rightarrow> row \<times> int \<Rightarrow> (nat \<times> shape_out) list \<Rightarrow> (nat \<times> shape_out) list" where
  "route_row kr lsn_u64 xid rw m =
     (case map_of (kr_index kr) (key_of (fst rw) (kr_key_cols kr)) of
        None \<Rightarrow> m
      | Some routed \<Rightarrow> fold (route_shape lsn_u64 xid rw) routed m)"

definition fan_router ::
  "fault \<Rightarrow> f64_ops \<Rightarrow> tschema \<Rightarrow> zdelta \<Rightarrow> string option \<Rightarrow> string option \<Rightarrow> nat \<Rightarrow> nat option
   \<Rightarrow> key_router \<Rightarrow> staged \<Rightarrow> staged" where
  "fan_router fl F ts delta txid lsn lsn_u64 xid kr pending =
     fold (\<lambda>(_, path, cols, rows) p.
             (let envs = translate_output fl F ts rows txid lsn cols in
              if envs \<noteq> [] then stage_out path envs p else p))
       (fold (route_row kr lsn_u64 xid) delta []) pending"

text \<open>An aggregate: fold the delta and emit when the value moved.\<close>

definition fan_agg ::
  "fault \<Rightarrow> f64_ops \<Rightarrow> tschema \<Rightarrow> zdelta \<Rightarrow> string option \<Rightarrow> string option \<Rightarrow> nat \<Rightarrow> nat option \<Rightarrow> string set option
   \<Rightarrow> string \<times> agg_shape \<Rightarrow> (string \<times> agg_shape) list \<times> staged \<Rightarrow> (string \<times> agg_shape) list \<times> staged" where
  "fan_agg fl F ts delta txid lsn lsn_u64 xid cands sa st =
     (case (sa, st) of ((sid, agg), (aggs, pending)) \<Rightarrow>
        if (case cands of Some c \<Rightarrow> sid \<notin> c | None \<Rightarrow> False) \<or> should_skip (ag_gate agg) lsn_u64 xid
        then (aggs @ [(sid, agg)], pending)
        else (case agg_apply fl F delta agg of (agg', touched) \<Rightarrow>
                if touched \<and> ag_last agg' \<noteq> Some (agg_value F agg')
                then (let agg'' = agg'\<lparr>ag_last := Some (agg_value F agg')\<rparr> in
                      (aggs @ [(sid, agg'')], stage_out (ag_stream_path agg'') [agg_shape_envelope F ts txid lsn agg''] pending))
                else (aggs @ [(sid, agg')], pending)))"

definition process_envelope ::
  "fault \<Rightarrow> f64_ops \<Rightarrow> (zdelta \<Rightarrow> nat \<Rightarrow> nat option \<Rightarrow> string option \<Rightarrow> 'q \<Rightarrow> 'q result) \<Rightarrow> bool \<Rightarrow> bool
   \<Rightarrow> envelope \<Rightarrow> table_exec \<Rightarrow> staged \<Rightarrow> 'q \<Rightarrow> (table_exec \<times> staged \<times> 'q) result" where
  "process_envelope fl F subq library_mode traced env te pending q =
     rbind (apply_envelope F (te_ts te) env) (\<lambda>(delta, txid, lsn).
       let absolute = (library_mode \<and> needs_absolute_emission env) in
       if delta = [] \<and> \<not> absolute then Ok (te, pending, q)
       else
         (let ts = te_ts te;
              lsn_u64 = (case lsn of Some l \<Rightarrow> lsn_to_u64 l | None \<Rightarrow> 0);
              xid = Option.bind txid parse_u64;
              row_now = map_option fst (find (\<lambda>(_, w). w > 0) delta);
              p1 = (if absolute
                    then fold (\<lambda>(_, kr). absolute_router fl ts (e_key env) row_now txid lsn lsn_u64 xid kr) (te_families te)
                           (fold (absolute_shape fl ts (e_key env) row_now txid lsn lsn_u64 xid) (te_shapes te) pending)
                    else pending);
              visited = (if absolute then []
                         else if traced then te_shapes te
                         else filter (\<lambda>(sid, _). sid \<in> candidates (te_shape_index te) delta) (te_shapes te));
              p2 = fold (fan_shape fl F ts delta txid lsn lsn_u64 xid) visited p1;
              p3 = (if absolute then p2
                    else fold (\<lambda>(_, kr). fan_router fl F ts delta txid lsn lsn_u64 xid kr) (te_families te) p2)
          in if delta = [] then Ok (te, p3, q)
             else rbind (subq delta lsn_u64 xid txid q) (\<lambda>q'.
               let cands = (if traced then None else Some (candidates (te_agg_index te) delta));
                   (aggs, p4) = fold (fan_agg fl F ts delta txid lsn lsn_u64 xid cands) (te_aggregates te) ([], p3)
               in Ok (te\<lparr>te_aggregates := aggs\<rparr>, p4, q'))))"

section \<open>Activation\<close>

datatype activate_failure = PendingBufferOverflow | Failed string

text \<open>The buffered envelopes that the snapshot did not see, as deltas.\<close>

definition buffered_delta :: "f64_ops \<Rightarrow> tschema \<Rightarrow> snapshot_gate \<Rightarrow> envelope \<Rightarrow> (zdelta \<times> string option \<times> string option) option" where
  "buffered_delta F ts gate env =
     (case apply_envelope F ts env of
        Inl _ \<Rightarrow> None
      | Inr (delta, txid, lsn) \<Rightarrow>
          if delta = [] then None
          else if should_skip gate (case lsn of Some l \<Rightarrow> lsn_to_u64 l | None \<Rightarrow> 0) (Option.bind txid parse_u64) then None
          else Some (delta, txid, lsn))"

definition replay_plain ::
  "fault \<Rightarrow> f64_ops \<Rightarrow> tschema \<Rightarrow> snapshot_gate \<Rightarrow> compiled_predicate \<Rightarrow> nat list option \<Rightarrow> envelope list \<Rightarrow> envelope list" where
  "replay_plain fl F ts gate pred cols buffered =
     concat (map (\<lambda>env. case buffered_delta F ts gate env of
               None \<Rightarrow> []
             | Some (delta, txid, lsn) \<Rightarrow>
                 (let matched = eval_standalone fl pred delta in
                  if matched = [] then [] else translate_output fl F ts matched txid lsn cols)) buffered)"

fun replay_agg ::
  "fault \<Rightarrow> f64_ops \<Rightarrow> tschema \<Rightarrow> snapshot_gate \<Rightarrow> envelope list \<Rightarrow> agg_shape \<Rightarrow> envelope list \<Rightarrow> agg_shape \<times> envelope list" where
  "replay_agg fl F ts gate [] agg outs = (agg, outs)"
| "replay_agg fl F ts gate (env # envs) agg outs =
     (case buffered_delta F ts gate env of
        None \<Rightarrow> replay_agg fl F ts gate envs agg outs
      | Some (delta, txid, lsn) \<Rightarrow>
          (case agg_apply fl F delta agg of (agg', touched) \<Rightarrow>
             if touched \<and> ag_last agg' \<noteq> Some (agg_value F agg')
             then (let agg'' = agg'\<lparr>ag_last := Some (agg_value F agg')\<rparr> in
                   replay_agg fl F ts gate envs agg'' (outs @ [agg_shape_envelope F ts txid lsn agg'']))
             else replay_agg fl F ts gate envs agg' outs))"

definition register_plain :: "string \<Rightarrow> snapshot_gate \<Rightarrow> pending_shape \<Rightarrow> table_exec \<Rightarrow> table_exec" where
  "register_plain sid gate p te =
     (case equality_template (ps_pred p) of
        Some pairs \<Rightarrow>
          (let key_cols = map fst pairs; key_tuple = map snd pairs;
               rs = \<lparr>rs_num_id = ps_num_id p, rs_stream_path = ps_stream_path p, rs_gate = gate, rs_out_cols = ps_out_cols p\<rparr>
           in te\<lparr>te_families := upd_default key_cols \<lparr>kr_key_cols = key_cols, kr_index = []\<rparr>
                    (\<lambda>kr. kr\<lparr>kr_index := upd_default key_tuple [] (\<lambda>l. l @ [rs]) (kr_index kr)\<rparr>) (te_families te),
                 te_family_of := (te_family_of te)(sid \<mapsto> (key_cols, ps_num_id p, key_tuple))\<rparr>)
      | None \<Rightarrow>
          te\<lparr>te_shape_index := index_insert sid (ps_pred p) (te_shape_index te),
             te_shapes := AList.update sid \<lparr>ss_pred = ps_pred p, ss_stream_path = ps_stream_path p, ss_gate = gate, ss_out_cols = ps_out_cols p\<rparr> (te_shapes te)\<rparr>)"

definition seed_agg :: "pending_shape \<Rightarrow> agg_fn \<Rightarrow> nat option \<Rightarrow> snapshot_gate \<Rightarrow> agg_seed \<Rightarrow> agg_shape" where
  "seed_agg p func col gate seed =
     \<lparr>ag_count = ag_count seed, ag_nn_count = ag_nn_count seed, ag_sum = ag_sum seed, ag_multiset = ag_multiset seed,
      ag_pred = ps_pred p, ag_func = func, ag_col = col, ag_stream_path = ps_stream_path p, ag_gate = gate, ag_last = None\<rparr>"

definition bump :: "string \<Rightarrow> nat \<Rightarrow> (string \<Rightarrow> nat option) \<Rightarrow> (string \<Rightarrow> nat option)" where
  "bump sid n emitted = emitted(sid \<mapsto> (case emitted sid of None \<Rightarrow> 0 | Some k \<Rightarrow> k) + n)"

text \<open>\<open>reliable\<close> and \<open>retrying\<close> are the two appends on the store's state.\<close>

definition activate_shape ::
  "fault \<Rightarrow> f64_ops \<Rightarrow> (string \<Rightarrow> envelope list \<Rightarrow> 'd \<Rightarrow> 'd) \<Rightarrow> (string \<Rightarrow> envelope list \<Rightarrow> 'd \<Rightarrow> 'd \<times> unit result)
   \<Rightarrow> string \<Rightarrow> string \<Rightarrow> snapshot_gate \<Rightarrow> agg_seed option \<Rightarrow> nat \<Rightarrow> execs \<Rightarrow> (string \<Rightarrow> nat option) \<Rightarrow> 'd
   \<Rightarrow> (execs \<times> (string \<Rightarrow> nat option) \<times> 'd) \<times> (activate_failure + unit)" where
  "activate_shape fl F reliable retrying table sid gate seed emitted_seed execs emitted d =
     (case map_of execs table of
        None \<Rightarrow> ((execs, emitted, d), Inl (Failed ''no executor''))
      | Some te0 \<Rightarrow>
          (case map_of (te_pending te0) sid of
             None \<Rightarrow> ((execs, emitted, d), Inl (Failed ''no pending shape''))
           | Some p \<Rightarrow>
               (let te = te0\<lparr>te_pending := AList.delete sid (te_pending te0)\<rparr>;
                    put = (\<lambda>te'. AList.update table te' execs);
                    emitted1 = (if emitted_seed > 0 then emitted(sid \<mapsto> emitted_seed) else emitted)
                in if ps_overflowed p then ((put te, emitted, d), Inl PendingBufferOverflow)
                   else
                     (case ps_kind p of
                        Plain \<Rightarrow>
                          (let te' = register_plain sid gate p te;
                               outs = replay_plain fl F (te_ts te) gate (ps_pred p) (ps_out_cols p) (ps_buffered p)
                           in if outs = [] then ((put te', emitted1, d), Inr ())
                              else ((put te', bump sid (length outs) emitted1, reliable (ps_stream_path p) outs d), Inr ()))
                      | Aggregate func col \<Rightarrow>
                          (let agg0 = seed_agg p func col gate (case seed of Some s \<Rightarrow> s | None \<Rightarrow> agg_seed_default);
                               agg1 = agg0\<lparr>ag_last := Some (agg_value F agg0)\<rparr>;
                               (agg, outs) = replay_agg fl F (te_ts te) gate (ps_buffered p) agg1 [agg_shape_envelope F (te_ts te) None None agg0];
                               emitted2 = bump sid (length outs) emitted1
                           in case retrying (ps_stream_path p) outs d of
                                (d', Inl _) \<Rightarrow> ((put te, emitted2, d'), Inl (Failed ''append''))
                              | (d', Inr _) \<Rightarrow>
                                  ((put (te\<lparr>te_agg_index := index_insert sid (ag_pred agg) (te_agg_index te),
                                           te_aggregates := AList.update sid agg (te_aggregates te)\<rparr>), emitted2, d'), Inr ()))))))"

section \<open>Commands\<close>

text \<open>\<open>BeginShape\<close>, on the executor of its table if there is one.\<close>

definition begin_shape ::
  "string \<Rightarrow> nat \<Rightarrow> string \<Rightarrow> compiled_predicate \<Rightarrow> nat list option \<Rightarrow> create_kind \<Rightarrow> table_exec \<Rightarrow> table_exec" where
  "begin_shape sid num_id path pred cols kind te =
     te\<lparr>te_pending := AList.update sid
        \<lparr>ps_num_id = num_id, ps_stream_path = path, ps_pred = pred, ps_out_cols = cols, ps_kind = kind,
         ps_buffered = [], ps_buffered_bytes = 0, ps_overflowed = False\<rparr> (te_pending te)\<rparr>"

definition abort_shape :: "string \<Rightarrow> table_exec \<Rightarrow> table_exec" where
  "abort_shape sid te = te\<lparr>te_pending := AList.delete sid (te_pending te)\<rparr>"

text \<open>Taking a routed shape out of its family: the emptied key and the emptied router go too.\<close>

definition prune_router :: "nat list \<Rightarrow> key_router \<Rightarrow> (nat list \<times> key_router) list \<Rightarrow> (nat list \<times> key_router) list" where
  "prune_router cols kr fams = (if kr_index kr = [] then AList.delete cols fams else AList.update cols kr fams)"

definition unroute :: "nat list \<Rightarrow> row \<Rightarrow> (routed_shape list \<Rightarrow> routed_shape list) \<Rightarrow> table_exec \<Rightarrow> table_exec" where
  "unroute cols key drop_it te =
     (case map_of (te_families te) cols of
        None \<Rightarrow> te
      | Some kr \<Rightarrow>
          (let ix = (case map_of (kr_index kr) key of
                       None \<Rightarrow> kr_index kr
                     | Some routed \<Rightarrow>
                         if drop_it routed = [] then AList.delete key (kr_index kr)
                         else AList.update key (drop_it routed) (kr_index kr))
           in te\<lparr>te_families := prune_router cols (kr\<lparr>kr_index := ix\<rparr>) (te_families te)\<rparr>))"

fun remove_first :: "('a \<Rightarrow> bool) \<Rightarrow> 'a list \<Rightarrow> 'a list" where
  "remove_first P [] = []"
| "remove_first P (x # xs) = (if P x then xs else x # remove_first P xs)"

definition routed_gate :: "nat list \<Rightarrow> row \<Rightarrow> nat \<Rightarrow> table_exec \<Rightarrow> snapshot_gate option" where
  "routed_gate cols key num_id te =
     Option.bind (map_of (te_families te) cols) (\<lambda>kr. Option.bind (map_of (kr_index kr) key) (\<lambda>routed.
       map_option rs_gate (find (\<lambda>rs. rs_num_id rs = num_id) routed)))"

text \<open>\<open>DeactivateShape\<close>: unregister a plain shape and hand back its gate.\<close>

definition deactivate_shape :: "string \<Rightarrow> table_exec \<Rightarrow> table_exec \<times> snapshot_gate option" where
  "deactivate_shape sid te =
     (case map_of (te_shapes te) sid of
        Some shape \<Rightarrow>
          (te\<lparr>te_shapes := AList.delete sid (te_shapes te), te_shape_index := index_remove sid (te_shape_index te)\<rparr>, Some (ss_gate shape))
      | None \<Rightarrow>
          (case te_family_of te sid of
             None \<Rightarrow> (te, None)
           | Some (cols, num_id, key) \<Rightarrow>
               (unroute cols key (remove_first (\<lambda>rs. rs_num_id rs = num_id)) (te\<lparr>te_family_of := (te_family_of te)(sid := None)\<rparr>),
                routed_gate cols key num_id te)))"

definition remove_shape :: "string \<Rightarrow> table_exec \<Rightarrow> table_exec" where
  "remove_shape sid te0 =
     (let te = te0\<lparr>te_pending := AList.delete sid (te_pending te0)\<rparr> in
      if map_of (te_circuit_aggs te) sid \<noteq> None then te\<lparr>te_circuit_aggs := AList.delete sid (te_circuit_aggs te)\<rparr>
      else if map_of (te_aggregates te) sid \<noteq> None then
        te\<lparr>te_aggregates := AList.delete sid (te_aggregates te), te_agg_index := index_remove sid (te_agg_index te)\<rparr>
      else if map_of (te_shapes te) sid \<noteq> None then
        te\<lparr>te_shapes := AList.delete sid (te_shapes te), te_shape_index := index_remove sid (te_shape_index te)\<rparr>
      else (case te_family_of te sid of
              None \<Rightarrow> te
            | Some (cols, num_id, key) \<Rightarrow>
                unroute cols key (filter (\<lambda>rs. rs_num_id rs \<noteq> num_id)) (te\<lparr>te_family_of := (te_family_of te)(sid := None)\<rparr>)))"

text \<open>What the sequencer does with one data envelope of a transaction: find the executor, complete the
  before-image in library mode, buffer for the shapes being created, fan out.\<close>

definition handle_envelope ::
  "fault \<Rightarrow> f64_ops \<Rightarrow> (zdelta \<Rightarrow> nat \<Rightarrow> nat option \<Rightarrow> string option \<Rightarrow> 'q \<Rightarrow> 'q result) \<Rightarrow> (envelope \<Rightarrow> nat) \<Rightarrow> nat \<Rightarrow> bool \<Rightarrow> bool
   \<Rightarrow> (table_ref \<Rightarrow> tschema option) \<Rightarrow> envelope \<Rightarrow> execs \<times> staged \<times> 'q \<Rightarrow> (execs \<times> staged \<times> 'q) result" where
  "handle_envelope fl F subq mem cap library_mode traced tables env st =
     (case st of (execs, pending, q) \<Rightarrow>
        (case exec_for tables (e_type env) execs of
           (execs1, None) \<Rightarrow> Ok (execs1, pending, q)
         | (execs1, Some te) \<Rightarrow>
             (let (env1, te1) = (if library_mode then stamp_before_image env te else (env, te));
                  te2 = te1\<lparr>te_pending := map (\<lambda>(sid, p). (sid, fst (buffer_pending mem env1 cap p))) (te_pending te1)\<rparr>
              in rbind (process_envelope fl F subq library_mode traced env1 te2 pending q) (\<lambda>(te3, pending', q').
                   Ok (AList.update (e_type env) (te3\<lparr>te_envelopes_total := te_envelopes_total te3 + 1\<rparr>) execs1, pending', q')))))"

section \<open>The registry of plain shapes\<close>

text \<open>What the executor's index, routers and maps represent: the live plain shapes of the table by id.\<close>

record plain_shape =
  pl_num_id :: nat
  pl_path :: string
  pl_pred :: compiled_predicate
  pl_gate :: snapshot_gate
  pl_cols :: "nat list option"

type_synonym registry = "string \<Rightarrow> plain_shape option"

definition standalone_of :: "plain_shape \<Rightarrow> standalone_shape" where
  "standalone_of g = \<lparr>ss_pred = pl_pred g, ss_stream_path = pl_path g, ss_gate = pl_gate g, ss_out_cols = pl_cols g\<rparr>"

definition routed_of :: "plain_shape \<Rightarrow> routed_shape" where
  "routed_of g = \<lparr>rs_num_id = pl_num_id g, rs_stream_path = pl_path g, rs_gate = pl_gate g, rs_out_cols = pl_cols g\<rparr>"

text \<open>What one change means for one shape: its filter on the delta, unless its snapshot saw the change.\<close>

definition shape_emits ::
  "fault \<Rightarrow> f64_ops \<Rightarrow> tschema \<Rightarrow> zdelta \<Rightarrow> string option \<Rightarrow> string option \<Rightarrow> nat \<Rightarrow> nat option \<Rightarrow> plain_shape \<Rightarrow> envelope list" where
  "shape_emits fl F ts delta txid lsn lsn_u64 xid g =
     (if should_skip (pl_gate g) lsn_u64 xid then []
      else translate_output fl F ts (eval_standalone fl (pl_pred g) delta) txid lsn (pl_cols g))"

definition routed_at :: "(nat list \<times> key_router) list \<Rightarrow> nat list \<Rightarrow> row \<Rightarrow> routed_shape list" where
  "routed_at fams cols key =
     (case map_of fams cols of None \<Rightarrow> [] | Some kr \<Rightarrow> (case map_of (kr_index kr) key of None \<Rightarrow> [] | Some l \<Rightarrow> l))"

text \<open>The shapes of a registry that are routed on a key.\<close>

definition routed_here :: "registry \<Rightarrow> nat list \<Rightarrow> row \<Rightarrow> plain_shape \<Rightarrow> bool" where
  "routed_here G cols key g \<longleftrightarrow>
     (\<exists>sid kv. G sid = Some g \<and> equality_template (pl_pred g) = Some kv \<and> map fst kv = cols \<and> map snd kv = key)"

definition registry_ok :: "registry \<Rightarrow> bool" where
  "registry_ok G \<longleftrightarrow> (\<forall>i j g g'. G i = Some g \<and> G j = Some g' \<and> (pl_num_id g = pl_num_id g' \<or> pl_path g = pl_path g') \<longrightarrow> i = j)"

definition shapes_inv :: "table_exec \<Rightarrow> registry \<Rightarrow> bool" where
  "shapes_inv te G \<longleftrightarrow> distinct (map fst (te_shapes te)) \<and> index_wf (te_shape_index te)
     \<and> ix_placed (te_shape_index te) = map_option (access_leaf \<circ> ss_pred) \<circ> map_of (te_shapes te)
     \<and> map_of (te_shapes te) = (\<lambda>sid. Option.bind (G sid) (\<lambda>g. if equality_template (pl_pred g) = None then Some (standalone_of g) else None))"

definition families_inv :: "table_exec \<Rightarrow> registry \<Rightarrow> bool" where
  "families_inv te G \<longleftrightarrow> distinct (map fst (te_families te))
     \<and> (\<forall>cols kr. map_of (te_families te) cols = Some kr \<longrightarrow> kr_key_cols kr = cols \<and> distinct (map fst (kr_index kr)))
     \<and> (\<forall>cols key. distinct (map rs_num_id (routed_at (te_families te) cols key))
          \<and> set (routed_at (te_families te) cols key) = routed_of ` Collect (routed_here G cols key))
     \<and> te_family_of te = (\<lambda>sid. Option.bind (G sid) (\<lambda>g. map_option (\<lambda>kv. (map fst kv, pl_num_id g, map snd kv)) (equality_template (pl_pred g))))"

definition exec_inv :: "table_exec \<Rightarrow> registry \<Rightarrow> bool" where
  "exec_inv te G \<longleftrightarrow> registry_ok G \<and> shapes_inv te G \<and> families_inv te G"

section \<open>The fan-out is exact\<close>

lemma translate_output_Nil [simp]: "translate_output fl F ts [] txid lsn cols = []"
  by (simp add: translate_output_def)

lemma concat_none: "\<forall>x \<in> set xs. f x = [] \<Longrightarrow> concat (map f xs) = []"
  by simp

lemma concat_single:
  "distinct (map fst xs) \<Longrightarrow> (k, v) \<in> set xs \<Longrightarrow> (\<And>k' v'. (k', v') \<in> set xs \<Longrightarrow> k' \<noteq> k \<Longrightarrow> f (k', v') = []) \<Longrightarrow>
   concat (map f xs) = f (k, v)"
proof (induction xs)
  case (Cons x xs)
  show ?case
  proof (cases "x = (k, v)")
    case True
    with Cons.prems(1) have "k \<notin> fst ` set xs" by auto
    then have "\<forall>y \<in> set xs. f y = []" using Cons.prems(3) by (metis fst_conv image_eqI list.set_intros(2) prod.collapse)
    with True show ?thesis by simp
  next
    case False
    with Cons.prems(2) have mem: "(k, v) \<in> set xs" by simp
    then have "fst x \<noteq> k" using Cons.prems(1) by (metis distinct.simps(2) fst_conv image_eqI list.set_map list.simps(9))
    then have "f x = []" using Cons.prems(3) [of "fst x" "snd x"] by simp
    moreover have "concat (map f xs) = f (k, v)" using Cons mem by simp
    ultimately show ?thesis by simp
  qed
qed simp

text \<open>Staging adds to the path of a shape what that shape emits, and nothing elsewhere.\<close>

lemma fold_stage:
  assumes "\<And>x p path. step x p path = p path @ (if at_path x = path then out x else [])"
  shows "fold step xs p path = p path @ concat (map (\<lambda>x. if at_path x = path then out x else []) xs)"
  by (induction xs arbitrary: p) (simp_all add: assms)

lemma fold_shapes:
  "fold (fan_shape fl F ts delta txid lsn l x) xs p path =
     p path @ concat (map (\<lambda>sh. if ss_stream_path (snd sh) = path
        then (if should_skip (ss_gate (snd sh)) l x then [] else translate_output fl F ts (eval_standalone fl (ss_pred (snd sh)) delta) txid lsn (ss_out_cols (snd sh)))
        else []) xs)"
  by (rule fold_stage) (auto simp: fan_shape_def stage_out_def Let_def)

lemma not_candidate_no_output:
  assumes inv: "shapes_inv te G" and "map_of (te_shapes te) sid = Some s" and "sid \<notin> candidates (te_shape_index te) delta"
  shows "eval_standalone fl (ss_pred s) delta = []"
proof (rule ccontr)
  assume "eval_standalone fl (ss_pred s) delta \<noteq> []"
  then obtain r w where "(r, w) \<in> set delta" "matches fl (ss_pred s) r"
    by (auto simp: eval_standalone_def filter_empty_conv)
  then have "leaf_concerns (access_leaf (ss_pred s)) delta" by (rule matches_concerns)
  moreover have "ix_placed (te_shape_index te) sid = Some (access_leaf (ss_pred s))" "index_wf (te_shape_index te)"
    using inv assms(2) by (simp_all add: shapes_inv_def)
  ultimately show False using assms(3) sidx.cands_iff by blast
qed

lemma standalone_tier:
  assumes inv: "exec_inv te G" and g: "G sid = Some g"
    and vis: "visited = te_shapes te \<or> visited = filter (\<lambda>(sid, _). sid \<in> candidates (te_shape_index te) delta) (te_shapes te)"
  shows "fold (fan_shape fl F ts delta txid lsn l x) visited p (pl_path g) =
    p (pl_path g) @ (if equality_template (pl_pred g) = None then shape_emits fl F ts delta txid lsn l x g else [])"
proof -
  let ?f = "\<lambda>sh. if ss_stream_path (snd sh) = pl_path g
        then (if should_skip (ss_gate (snd sh)) l x then [] else translate_output fl F ts (eval_standalone fl (ss_pred (snd sh)) delta) txid lsn (ss_out_cols (snd sh)))
        else []"
  have si: "shapes_inv te G" and ro: "registry_ok G" using inv by (simp_all add: exec_inv_def)
  have d: "distinct (map fst (te_shapes te))" using si by (simp add: shapes_inv_def)
  have shape: "\<exists>g'. G k = Some g' \<and> s = standalone_of g' \<and> equality_template (pl_pred g') = None" if "(k, s) \<in> set (te_shapes te)" for k s
  proof -
    have "map_of (te_shapes te) k = Some s" using that d by simp
    then show ?thesis using si by (auto simp: shapes_inv_def bind_eq_Some_conv split: if_splits)
  qed
  have sub: "set visited \<subseteq> set (te_shapes te)" and dv: "distinct (map fst visited)"
    using vis d by (auto simp: distinct_map_filter)
  have other: "?f (k, s) = []" if "(k, s) \<in> set visited" "k \<noteq> sid" for k s
    using shape [of k s] that sub ro g by (fastforce simp: registry_ok_def standalone_of_def)
  have "concat (map ?f visited) = (if equality_template (pl_pred g) = None then shape_emits fl F ts delta txid lsn l x g else [])"
  proof (cases "equality_template (pl_pred g) = None")
    case True
    then have mem: "map_of (te_shapes te) sid = Some (standalone_of g)" using si g by (simp add: shapes_inv_def)
    then have em: "?f (sid, standalone_of g) = shape_emits fl F ts delta txid lsn l x g"
      by (simp add: standalone_of_def shape_emits_def)
    show ?thesis
    proof (cases "(sid, standalone_of g) \<in> set visited")
      case in_vis: True
      have "concat (map ?f visited) = ?f (sid, standalone_of g)" by (rule concat_single [OF dv in_vis]) (rule other)
      with em True show ?thesis by simp
    next
      case False
      then have "sid \<notin> candidates (te_shape_index te) delta" using vis mem d by (auto simp: map_of_eq_Some_iff)
      then have "eval_standalone fl (pl_pred g) delta = []"
        using not_candidate_no_output [OF si mem] by (simp add: standalone_of_def)
      moreover have "\<forall>sh \<in> set visited. ?f sh = []"
      proof
        fix sh assume sh: "sh \<in> set visited"
        obtain k s where ks: "sh = (k, s)" by (cases sh)
        show "?f sh = []"
        proof (cases "k = sid")
          case True
          then have "s = standalone_of g" using sh ks sub mem d by (auto simp: map_of_eq_Some_iff dest: eq_key_imp_eq_value)
          with False sh ks True show ?thesis by simp
        qed (use other sh ks in blast)
      qed
      ultimately show ?thesis using True by (simp add: shape_emits_def)
    qed
  next
    case False
    have "\<forall>sh \<in> set visited. ?f sh = []"
    proof
      fix sh assume sh: "sh \<in> set visited"
      obtain k s where ks: "sh = (k, s)" by (cases sh)
      with sh sub shape [of k s] g False have "k \<noteq> sid" by auto
      with other sh ks show "?f sh = []" by blast
    qed
    with False show ?thesis using concat_none [of visited ?f] by auto
  qed
  then show ?thesis by (simp add: fold_shapes)
qed

subsection \<open>Routers\<close>

definition rows_of :: "(nat \<times> shape_out) list \<Rightarrow> nat \<Rightarrow> (row \<times> int) list" where
  "rows_of m n = (case map_of m n of None \<Rightarrow> [] | Some (_, _, rows) \<Rightarrow> rows)"

text \<open>The entries name shapes of the router.\<close>

definition entries_ok :: "key_router \<Rightarrow> (nat \<times> shape_out) list \<Rightarrow> bool" where
  "entries_ok kr m \<longleftrightarrow> distinct (map fst m) \<and> (\<forall>n p c rows. map_of m n = Some (p, c, rows) \<longrightarrow>
     (\<exists>key routed rs. map_of (kr_index kr) key = Some routed \<and> rs \<in> set routed \<and> rs_num_id rs = n \<and> rs_stream_path rs = p \<and> rs_out_cols rs = c))"

lemma rows_of_route_shape:
  "rows_of (route_shape l x rw rs m) n =
     rows_of m n @ (if rs_num_id rs = n \<and> \<not> should_skip (rs_gate rs) l x then [rw] else [])"
  by (auto simp: rows_of_def route_shape_def split: option.splits)

lemma rows_of_fold_shapes:
  "distinct (map rs_num_id routed) \<Longrightarrow> rows_of (fold (route_shape l x rw) routed m) n =
     rows_of m n @ (if \<exists>rs \<in> set routed. rs_num_id rs = n \<and> \<not> should_skip (rs_gate rs) l x then [rw] else [])"
proof (induction routed arbitrary: m)
  case (Cons rs routed)
  have "rs_num_id rs = n \<Longrightarrow> \<not> (\<exists>rs' \<in> set routed. rs_num_id rs' = n)" using Cons.prems by (auto simp: image_iff)
  then show ?case using Cons by (auto simp: rows_of_route_shape)
qed simp

lemma entries_okD:
  "entries_ok kr m \<Longrightarrow> map_of m n = Some (p, c, rows) \<Longrightarrow>
   \<exists>key routed rs. map_of (kr_index kr) key = Some routed \<and> rs \<in> set routed \<and> rs_num_id rs = n \<and> rs_stream_path rs = p \<and> rs_out_cols rs = c"
  unfolding entries_ok_def by blast

lemma entries_ok_step:
  assumes ok: "entries_ok kr m" and mem: "map_of (kr_index kr) key = Some routed" "rs \<in> set routed"
  shows "entries_ok kr (route_shape l x rw rs m)"
proof -
  let ?m = "route_shape l x rw rs m"
  have "\<exists>key routed rs. map_of (kr_index kr) key = Some routed \<and> rs \<in> set routed \<and> rs_num_id rs = n \<and> rs_stream_path rs = p \<and> rs_out_cols rs = c"
    if e: "map_of ?m n = Some (p, c, rows)" for n p c rows
  proof (cases "should_skip (rs_gate rs) l x \<or> n \<noteq> rs_num_id rs")
    case True
    then have "map_of m n = Some (p, c, rows)" using e by (auto simp: route_shape_def split: if_splits)
    with entries_okD [OF ok] show ?thesis by blast
  next
    case False
    show ?thesis
    proof (cases "map_of m n")
      case None
      then have "p = rs_stream_path rs" "c = rs_out_cols rs" using e False by (simp_all add: route_shape_def)
      with mem False show ?thesis by blast
    next
      case (Some e')
      then obtain rows' where "map_of m n = Some (p, c, rows')" using e False by (cases e') (auto simp: route_shape_def)
      with entries_okD [OF ok] show ?thesis by blast
    qed
  qed
  moreover have "distinct (map fst ?m)" using ok by (simp add: entries_ok_def route_shape_def)
  ultimately show ?thesis unfolding entries_ok_def by blast
qed

lemma entries_ok_shapes:
  "entries_ok kr m \<Longrightarrow> map_of (kr_index kr) key = Some routed \<Longrightarrow> set rss \<subseteq> set routed \<Longrightarrow>
   entries_ok kr (fold (route_shape l x rw) rss m)"
proof (induction rss arbitrary: m)
  case (Cons rs rss)
  have "entries_ok kr (route_shape l x rw rs m)" using Cons.prems by (intro entries_ok_step) auto
  with Cons show ?case by simp
qed simp

text \<open>A router whose shapes have one key each collects, for a shape, the rows with its key.\<close>

lemma route_rows:
  assumes "\<And>key routed. map_of (kr_index kr) key = Some routed \<Longrightarrow> distinct (map rs_num_id routed)"
    and uniq: "\<And>key routed rs'. map_of (kr_index kr) key = Some routed \<Longrightarrow> rs' \<in> set routed \<Longrightarrow> rs_num_id rs' = rs_num_id rs \<Longrightarrow> key = key0 \<and> rs' = rs"
    and mem: "map_of (kr_index kr) key0 = Some routed0" "rs \<in> set routed0"
    and "entries_ok kr m"
  shows "rows_of (fold (route_row kr l x) delta m) (rs_num_id rs) = rows_of m (rs_num_id rs) @
      (if should_skip (rs_gate rs) l x then [] else filter (\<lambda>(r, w). key_of r (kr_key_cols kr) = key0) delta)
    \<and> entries_ok kr (fold (route_row kr l x) delta m)"
  using assms(5)
proof (induction delta arbitrary: m)
  case (Cons rw delta)
  let ?k = "key_of (fst rw) (kr_key_cols kr)"
  have "rows_of (route_row kr l x rw m) (rs_num_id rs) = rows_of m (rs_num_id rs) @
      (if \<not> should_skip (rs_gate rs) l x \<and> ?k = key0 then [rw] else []) \<and> entries_ok kr (route_row kr l x rw m)"
  proof (cases "map_of (kr_index kr) ?k")
    case None
    then show ?thesis using mem Cons.prems by (auto simp: route_row_def)
  next
    case (Some routed)
    have "(\<exists>rs' \<in> set routed. rs_num_id rs' = rs_num_id rs \<and> \<not> should_skip (rs_gate rs') l x) \<longleftrightarrow>
        \<not> should_skip (rs_gate rs) l x \<and> ?k = key0"
      using uniq [OF Some] mem Some by (metis option.inject)
    then show ?thesis
      using Some rows_of_fold_shapes [OF assms(1) [OF Some]] entries_ok_shapes [OF Cons.prems Some order_refl]
      by (simp add: route_row_def)
  qed
  with Cons.IH [of "route_row kr l x rw m"] show ?case by (cases rw) auto
qed simp

lemma entries_ok_rows: "entries_ok kr m \<Longrightarrow> entries_ok kr (fold (route_row kr l x) delta m)"
proof (induction delta arbitrary: m)
  case (Cons rw delta)
  have "entries_ok kr (route_row kr l x rw m)"
    using Cons.prems entries_ok_shapes [OF Cons.prems _ order_refl] by (auto simp: route_row_def split: option.splits)
  with Cons show ?case by simp
qed simp

lemma entries_ok_Nil [simp]: "entries_ok kr []"
  by (simp add: entries_ok_def)

lemma fan_router_path:
  "fan_router fl F ts delta txid lsn l x kr p path = p path @
     concat (map (\<lambda>e. if fst (snd e) = path then translate_output fl F ts (snd (snd (snd e))) txid lsn (fst (snd (snd e))) else [])
       (fold (route_row kr l x) delta []))"
  unfolding fan_router_def by (rule fold_stage) (auto simp: stage_out_def Let_def)

text \<open>A registered routed shape, seen from its router and from any other.\<close>

lemma router_of:
  assumes inv: "exec_inv te G" and kr: "map_of (te_families te) cols = Some kr"
    and "map_of (kr_index kr) key = Some routed"
  shows "distinct (map rs_num_id routed)"
    and "rs \<in> set routed \<Longrightarrow> \<exists>g. rs = routed_of g \<and> routed_here G cols key g"
proof -
  have "routed_at (te_families te) cols key = routed" using assms by (simp add: routed_at_def)
  moreover have "distinct (map rs_num_id (routed_at (te_families te) cols key))"
    "set (routed_at (te_families te) cols key) = routed_of ` Collect (routed_here G cols key)"
    using inv by (simp_all add: exec_inv_def families_inv_def)
  ultimately show "distinct (map rs_num_id routed)" "rs \<in> set routed \<Longrightarrow> \<exists>g. rs = routed_of g \<and> routed_here G cols key g"
    by auto
qed

lemma router_tier_one:
  assumes inv: "exec_inv te G" and g: "G sid = Some g" and kr: "map_of (te_families te) cols = Some kr"
  shows "fan_router fl F ts delta txid lsn l x kr p (pl_path g) = p (pl_path g) @
    (case equality_template (pl_pred g) of
       Some kv \<Rightarrow> if map fst kv = cols then shape_emits fl F ts delta txid lsn l x g else []
     | None \<Rightarrow> [])"
proof -
  let ?m = "fold (route_row kr l x) delta []"
  let ?f = "\<lambda>e. if fst (snd e) = pl_path g then translate_output fl F ts (snd (snd (snd e))) txid lsn (fst (snd (snd e))) else []"
  have ok: "entries_ok kr ?m" by (rule entries_ok_rows) simp
  have same: "g' = g" if "routed_here G cols' key' g'" "pl_num_id g' = pl_num_id g \<or> pl_path g' = pl_path g" for cols' key' g'
    using that g inv by (auto simp: routed_here_def exec_inv_def registry_ok_def) (metis option.inject)+
  have entry: "n = pl_num_id g \<and> c = pl_cols g \<and> (\<exists>key. routed_here G cols key g)" if "(n, pl_path g, c, rows) \<in> set ?m" for n c rows
  proof -
    have "map_of ?m n = Some (pl_path g, c, rows)" using that ok by (simp add: entries_ok_def)
    then obtain key routed rs where rs: "map_of (kr_index kr) key = Some routed" "rs \<in> set routed" "rs_num_id rs = n"
      "rs_stream_path rs = pl_path g" "rs_out_cols rs = c" using entries_okD [OF ok] by blast
    from router_of(2) [OF inv kr rs(1,2)] obtain g' where g': "rs = routed_of g'" "routed_here G cols key g'" by blast
    then have "g' = g" using same [OF g'(2)] rs(4) by (simp add: routed_of_def)
    with g' rs show ?thesis by (auto simp: routed_of_def)
  qed
  show ?thesis
  proof (cases "\<exists>kv. equality_template (pl_pred g) = Some kv \<and> map fst kv = cols")
    case False
    have "\<forall>e \<in> set ?m. ?f e = []" using entry False by (fastforce simp: routed_here_def)
    with False show ?thesis unfolding fan_router_path using concat_none [of ?m ?f] by (auto split: option.splits)
  next
    case True
    then obtain kv where kv: "equality_template (pl_pred g) = Some kv" "map fst kv = cols" by blast
    let ?key = "map snd kv"
    have "routed_here G cols ?key g" using kv g by (auto simp: routed_here_def)
    then have "routed_of g \<in> set (routed_at (te_families te) cols ?key)"
      using inv by (auto simp: exec_inv_def families_inv_def)
    then obtain routed0 where r0: "map_of (kr_index kr) ?key = Some routed0" "routed_of g \<in> set routed0"
      using kr by (cases "map_of (kr_index kr) ?key") (auto simp: routed_at_def)
    have uniq: "key = ?key \<and> rs' = routed_of g" if "map_of (kr_index kr) key = Some routed" "rs' \<in> set routed" "rs_num_id rs' = rs_num_id (routed_of g)" for key routed rs'
    proof -
      from router_of(2) [OF inv kr that(1,2)] obtain g' where g': "rs' = routed_of g'" "routed_here G cols key g'" by blast
      then have "g' = g" using same [OF g'(2)] that(3) by (simp add: routed_of_def)
      with g' kv show ?thesis by (auto simp: routed_here_def)
    qed
    have cols: "kr_key_cols kr = cols" using inv kr by (simp add: exec_inv_def families_inv_def)
    have "filter (\<lambda>(r, w). key_of r cols = ?key) delta = eval_standalone fl (pl_pred g) delta"
      unfolding eval_standalone_def by (rule filter_cong) (auto simp: matches_key_of [OF kv(1)] kv(2))
    with route_rows [where l = l and x = x and delta = delta, OF router_of(1) [OF inv kr] uniq r0 entries_ok_Nil]
    have rows: "rows_of ?m (pl_num_id g) = (if should_skip (pl_gate g) l x then [] else eval_standalone fl (pl_pred g) delta)"
      by (simp add: routed_of_def rows_of_def cols)
    have "concat (map ?f ?m) = translate_output fl F ts (rows_of ?m (pl_num_id g)) txid lsn (pl_cols g)"
    proof (cases "map_of ?m (pl_num_id g)")
      case None
      have "\<forall>e \<in> set ?m. ?f e = []"
      proof
        fix e assume e: "e \<in> set ?m"
        obtain n p' c rs' where e': "e = (n, p', c, rs')" by (cases e)
        have "p' \<noteq> pl_path g"
        proof
          assume "p' = pl_path g"
          with entry e e' have "n = pl_num_id g" by blast
          with None e e' show False by (auto simp: map_of_eq_None_iff image_iff)
        qed
        with e' show "?f e = []" by simp
      qed
      with None show ?thesis using concat_none [of ?m ?f] by (simp add: rows_of_def)
    next
      case (Some e)
      obtain p' c rs' where e: "e = (p', c, rs')" by (cases e)
      have d: "distinct (map fst ?m)" using ok by (simp add: entries_ok_def)
      have mem: "(pl_num_id g, e) \<in> set ?m" using Some by (rule map_of_SomeD)
      have pc: "p' = pl_path g \<and> c = pl_cols g"
      proof -
        obtain key routed rs where rs: "map_of (kr_index kr) key = Some routed" "rs \<in> set routed" "rs_num_id rs = pl_num_id g"
          "rs_stream_path rs = p'" "rs_out_cols rs = c" using entries_okD [OF ok] Some e by blast
        with uniq [OF rs(1,2)] show ?thesis by (auto simp: routed_of_def)
      qed
      have "concat (map ?f ?m) = ?f (pl_num_id g, e)"
        by (rule concat_single [OF d mem]) (use entry in fastforce)
      with e pc Some show ?thesis by (simp add: rows_of_def)
    qed
    with rows kv show ?thesis unfolding fan_router_path by (simp add: shape_emits_def)
  qed
qed

lemma router_tier:
  assumes inv: "exec_inv te G" and g: "G sid = Some g"
  shows "fold (\<lambda>(_, kr). fan_router fl F ts delta txid lsn l x kr) (te_families te) p (pl_path g) =
    p (pl_path g) @ (if equality_template (pl_pred g) = None then [] else shape_emits fl F ts delta txid lsn l x g)"
proof -
  let ?f = "\<lambda>ck. case equality_template (pl_pred g) of
       Some kv \<Rightarrow> if map fst kv = fst ck then shape_emits fl F ts delta txid lsn l x g else [] | None \<Rightarrow> []"
  have d: "distinct (map fst (te_families te))" using inv by (simp add: exec_inv_def families_inv_def)
  have "fold (\<lambda>(_, kr). fan_router fl F ts delta txid lsn l x kr) fams p (pl_path g) = p (pl_path g) @ concat (map ?f fams)"
    if "set fams \<subseteq> set (te_families te)" for fams p
    using that
  proof (induction fams arbitrary: p)
    case (Cons ck fams)
    obtain cols kr where ck: "ck = (cols, kr)" by (cases ck)
    with Cons.prems d have "map_of (te_families te) cols = Some kr" by simp
    from router_tier_one [OF inv g this] Cons ck show ?case by (simp split: option.splits)
  qed simp
  then have eq: "fold (\<lambda>(_, kr). fan_router fl F ts delta txid lsn l x kr) (te_families te) p (pl_path g)
      = p (pl_path g) @ concat (map ?f (te_families te))" by simp
  show ?thesis
  proof (cases "equality_template (pl_pred g)")
    case None
    then show ?thesis using concat_none [of "te_families te" ?f] by (simp add: eq)
  next
    case (Some kv)
    have "routed_here G (map fst kv) (map snd kv) g" using Some g by (auto simp: routed_here_def)
    then have "routed_of g \<in> set (routed_at (te_families te) (map fst kv) (map snd kv))"
      using inv by (auto simp: exec_inv_def families_inv_def)
    then obtain kr where "(map fst kv, kr) \<in> set (te_families te)"
      by (cases "map_of (te_families te) (map fst kv)") (auto simp: routed_at_def dest: map_of_SomeD)
    then have "concat (map ?f (te_families te)) = ?f (map fst kv, kr)"
      by (intro concat_single [OF d]) (auto simp: Some)
    with Some show ?thesis by (simp add: eq)
  qed
qed

section \<open>Registering and removing keep the registry\<close>

lemma registry_ok_upd:
  "registry_ok G \<Longrightarrow> (\<And>i g'. G i = Some g' \<Longrightarrow> pl_num_id g' \<noteq> pl_num_id g \<and> pl_path g' \<noteq> pl_path g) \<Longrightarrow> registry_ok (G(sid \<mapsto> g))"
  by (auto simp: registry_ok_def split: if_splits) metis+

lemma registry_ok_del: "registry_ok G \<Longrightarrow> registry_ok (G(sid := None))"
  by (auto simp: registry_ok_def split: if_splits)

lemma routed_here_upd:
  assumes "G sid = None"
  shows "routed_here (G(sid \<mapsto> g)) cols key g' \<longleftrightarrow> routed_here G cols key g' \<or>
     (g' = g \<and> (\<exists>kv. equality_template (pl_pred g) = Some kv \<and> map fst kv = cols \<and> map snd kv = key))"
proof -
  have "(\<exists>i. (G(sid \<mapsto> g)) i = Some g' \<and> P) \<longleftrightarrow> (\<exists>i. G i = Some g' \<and> P) \<or> (g' = g \<and> P)" for P
    using assms by (auto split: if_splits) (metis option.distinct(1))+
  then show ?thesis unfolding routed_here_def by blast
qed

lemma registry_okD:
  "registry_ok G \<Longrightarrow> G i = Some g \<Longrightarrow> G j = Some g' \<Longrightarrow> pl_num_id g = pl_num_id g' \<Longrightarrow> i = j"
  unfolding registry_ok_def by blast

lemma routed_here_del:
  assumes "registry_ok G" "G sid = Some g"
  shows "routed_here (G(sid := None)) cols key g' \<longleftrightarrow> routed_here G cols key g' \<and> pl_num_id g' \<noteq> pl_num_id g"
proof
  assume "routed_here (G(sid := None)) cols key g'"
  then obtain i kv where i: "i \<noteq> sid" "G i = Some g'" "equality_template (pl_pred g') = Some kv" "map fst kv = cols" "map snd kv = key"
    by (auto simp: routed_here_def split: if_splits)
  then show "routed_here G cols key g' \<and> pl_num_id g' \<noteq> pl_num_id g"
    using registry_okD [OF assms(1) i(2) assms(2)] by (auto simp: routed_here_def)
next
  assume "routed_here G cols key g' \<and> pl_num_id g' \<noteq> pl_num_id g"
  then obtain i kv where i: "G i = Some g'" "pl_num_id g' \<noteq> pl_num_id g" "equality_template (pl_pred g') = Some kv" "map fst kv = cols" "map snd kv = key"
    by (auto simp: routed_here_def)
  then have "i \<noteq> sid" using assms(2) by auto
  with i show "routed_here (G(sid := None)) cols key g'" unfolding routed_here_def by (auto intro!: exI [of _ i])
qed

definition plain_of :: "snapshot_gate \<Rightarrow> pending_shape \<Rightarrow> plain_shape" where
  "plain_of gate p =
     \<lparr>pl_num_id = ps_num_id p, pl_path = ps_stream_path p, pl_pred = ps_pred p, pl_gate = gate, pl_cols = ps_out_cols p\<rparr>"

lemma register_standalone:
  assumes inv: "exec_inv te G" and new: "G sid = None" "registry_ok (G(sid \<mapsto> plain_of gate p))" and none: "equality_template (ps_pred p) = None"
  shows "exec_inv (register_plain sid gate p te) (G(sid \<mapsto> plain_of gate p))"
proof -
  have si: "shapes_inv te G" and fi: "families_inv te G" using inv by (simp_all add: exec_inv_def)
  have "map_of (te_shapes te) sid = None" using si new by (simp add: shapes_inv_def)
  then have "ix_placed (te_shape_index te) sid = None" "index_wf (te_shape_index te)" using si by (simp_all add: shapes_inv_def)
  then have "index_wf (index_insert sid (ps_pred p) (te_shape_index te))" by (intro index_wf_insert)
  then have "shapes_inv (register_plain sid gate p te) (G(sid \<mapsto> plain_of gate p))"
    using si none unfolding shapes_inv_def register_plain_def
    by (auto simp: distinct_update update_conv' index_placed_insert plain_of_def standalone_of_def fun_eq_iff)
  moreover have "routed_here (G(sid \<mapsto> plain_of gate p)) cols key = routed_here G cols key" for cols key
    using routed_here_upd [of G sid] new none by (auto simp: fun_eq_iff plain_of_def)
  then have "families_inv (register_plain sid gate p te) (G(sid \<mapsto> plain_of gate p))"
    using fi none new unfolding families_inv_def register_plain_def by (auto simp: plain_of_def fun_eq_iff)
  ultimately show ?thesis using new by (simp add: exec_inv_def)
qed

text \<open>Changing one key of one router.\<close>

definition put_routed :: "nat list \<Rightarrow> row \<Rightarrow> routed_shape list \<Rightarrow> (nat list \<times> key_router) list \<Rightarrow> (nat list \<times> key_router) list \<Rightarrow> bool" where
  "put_routed cols key routed fams fams' \<longleftrightarrow> distinct (map fst fams')
     \<and> (\<forall>c kr. map_of fams' c = Some kr \<longrightarrow> kr_key_cols kr = c \<and> distinct (map fst (kr_index kr)))
     \<and> (\<forall>c k. routed_at fams' c k = (if c = cols \<and> k = key then routed else routed_at fams c k))"

lemma families_inv_put:
  assumes fi: "families_inv te G" and put: "put_routed cols key routed (te_families te) (te_families te')"
    and "distinct (map rs_num_id routed)" "set routed = routed_of ` Collect (routed_here G' cols key)"
    and "\<And>c k. (c, k) \<noteq> (cols, key) \<Longrightarrow> routed_here G' c k = routed_here G c k"
    and "te_family_of te' = (\<lambda>sid. Option.bind (G' sid) (\<lambda>g. map_option (\<lambda>kv. (map fst kv, pl_num_id g, map snd kv)) (equality_template (pl_pred g))))"
  shows "families_inv te' G'"
  unfolding families_inv_def
proof (intro conjI allI impI)
  show "distinct (map fst (te_families te'))" using put by (simp add: put_routed_def)
  fix c k
  show "distinct (map rs_num_id (routed_at (te_families te') c k))"
    using put assms(3) fi by (simp add: put_routed_def families_inv_def)
  show "set (routed_at (te_families te') c k) = routed_of ` Collect (routed_here G' c k)"
    using put assms(4,5) fi by (cases "(c, k) = (cols, key)") (auto simp: put_routed_def families_inv_def)
qed (use put assms(6) in \<open>auto simp: put_routed_def\<close>)

lemma put_routed_push:
  assumes "families_inv te G"
  shows "put_routed cols key (routed_at (te_families te) cols key @ [rs]) (te_families te)
     (upd_default cols \<lparr>kr_key_cols = cols, kr_index = []\<rparr> (\<lambda>kr. kr\<lparr>kr_index := upd_default key [] (\<lambda>l. l @ [rs]) (kr_index kr)\<rparr>) (te_families te))"
  using assms unfolding put_routed_def families_inv_def
  by (auto simp: routed_at_def split: option.splits if_splits)

lemma register_routed:
  assumes inv: "exec_inv te G" and new: "G sid = None" "registry_ok (G(sid \<mapsto> plain_of gate p))" and kv: "equality_template (ps_pred p) = Some kv"
  shows "exec_inv (register_plain sid gate p te) (G(sid \<mapsto> plain_of gate p))"
proof -
  let ?g = "plain_of gate p" and ?cols = "map fst kv" and ?key = "map snd kv"
  have si: "shapes_inv te G" and fi: "families_inv te G" using inv by (simp_all add: exec_inv_def)
  have sh: "te_shapes (register_plain sid gate p te) = te_shapes te" "te_shape_index (register_plain sid gate p te) = te_shape_index te"
    using kv by (simp_all add: register_plain_def Let_def)
  have "shapes_inv (register_plain sid gate p te) (G(sid \<mapsto> ?g))"
    using si new kv unfolding shapes_inv_def sh by (auto simp: plain_of_def fun_eq_iff)
  moreover have "families_inv (register_plain sid gate p te) (G(sid \<mapsto> ?g))"
  proof (rule families_inv_put [OF fi])
    show "put_routed ?cols ?key (routed_at (te_families te) ?cols ?key @ [routed_of ?g]) (te_families te) (te_families (register_plain sid gate p te))"
      using put_routed_push [OF fi, of ?cols ?key "routed_of ?g"] kv by (simp add: register_plain_def Let_def routed_of_def plain_of_def)
    have "ps_num_id p \<notin> rs_num_id ` set (routed_at (te_families te) ?cols ?key)"
    proof
      assume "ps_num_id p \<in> rs_num_id ` set (routed_at (te_families te) ?cols ?key)"
      then obtain g' i where g': "pl_num_id g' = ps_num_id p" "G i = Some g'"
        using fi by (auto simp: families_inv_def routed_of_def routed_here_def)
      then have "i \<noteq> sid" using new by auto
      with registry_okD [OF new(2), of i g' sid ?g] g' show False by (simp add: plain_of_def)
    qed
    then show "distinct (map rs_num_id (routed_at (te_families te) ?cols ?key @ [routed_of ?g]))"
      using fi by (auto simp: families_inv_def routed_of_def plain_of_def)
    show "set (routed_at (te_families te) ?cols ?key @ [routed_of ?g]) = routed_of ` Collect (routed_here (G(sid \<mapsto> ?g)) ?cols ?key)"
      using fi kv by (auto simp: families_inv_def routed_here_upd [of G sid, OF new(1)] plain_of_def)
    show "routed_here (G(sid \<mapsto> ?g)) c k = routed_here G c k" if "(c, k) \<noteq> (?cols, ?key)" for c k
      using that kv by (auto simp: fun_eq_iff routed_here_upd [of G sid, OF new(1)] plain_of_def)
    show "te_family_of (register_plain sid gate p te) = (\<lambda>sid'. Option.bind ((G(sid \<mapsto> ?g)) sid') (\<lambda>g. map_option (\<lambda>kv. (map fst kv, pl_num_id g, map snd kv)) (equality_template (pl_pred g))))"
      using fi kv by (auto simp: families_inv_def register_plain_def Let_def plain_of_def fun_eq_iff)
  qed
  ultimately show ?thesis using new by (simp add: exec_inv_def)
qed

lemma register_inv:
  assumes "exec_inv te G" "G sid = None" "\<And>i g. G i = Some g \<Longrightarrow> pl_num_id g \<noteq> ps_num_id p \<and> pl_path g \<noteq> ps_stream_path p"
  shows "exec_inv (register_plain sid gate p te) (G(sid \<mapsto> plain_of gate p))"
proof -
  have "registry_ok (G(sid \<mapsto> plain_of gate p))"
    using assms by (intro registry_ok_upd) (auto simp: exec_inv_def plain_of_def)
  with assms(1,2) show ?thesis by (cases "equality_template (ps_pred p)") (auto intro: register_standalone register_routed)
qed

text \<open>Both ways of dropping a routed shape take exactly that shape out.\<close>

lemma put_routed_drop:
  assumes fi: "families_inv te G" and fams: "te_families te' = te_families te"
    and nil: "drop_it [] = []" and keep: "map_of (te_families te) cols \<noteq> None"
  shows "put_routed cols key (drop_it (routed_at (te_families te) cols key)) (te_families te) (te_families (unroute cols key drop_it te'))"
proof -
  obtain kr where kr: "map_of (te_families te) cols = Some kr" using keep by blast
  have d: "distinct (map fst (te_families te))" "distinct (map fst (kr_index kr))" "kr_key_cols kr = cols"
    and all: "\<And>c kr. map_of (te_families te) c = Some kr \<Longrightarrow> kr_key_cols kr = c \<and> distinct (map fst (kr_index kr))"
    using fi kr by (auto simp: families_inv_def)
  define ix where "ix = (case map_of (kr_index kr) key of None \<Rightarrow> kr_index kr
     | Some routed \<Rightarrow> if drop_it routed = [] then AList.delete key (kr_index kr) else AList.update key (drop_it routed) (kr_index kr))"
  have un: "te_families (unroute cols key drop_it te') = prune_router cols (kr\<lparr>kr_index := ix\<rparr>) (te_families te)"
    using kr by (simp add: unroute_def ix_def fams Let_def)
  have ixd: "distinct (map fst ix)" using d by (auto simp: ix_def distinct_update distinct_delete split: option.splits)
  have look: "(case map_of ix k of None \<Rightarrow> [] | Some l \<Rightarrow> l) =
      (if k = key then drop_it (routed_at (te_families te) cols key) else routed_at (te_families te) cols k)" for k
    using kr nil by (auto simp: ix_def routed_at_def update_conv' delete_conv' split: option.splits)
  have "distinct (map fst (prune_router cols (kr\<lparr>kr_index := ix\<rparr>) (te_families te)))"
    using d by (simp add: prune_router_def distinct_update distinct_delete)
  moreover have "kr_key_cols kr' = c \<and> distinct (map fst (kr_index kr'))"
    if "map_of (prune_router cols (kr\<lparr>kr_index := ix\<rparr>) (te_families te)) c = Some kr'" for c kr'
    using that all [of c kr'] d(3) ixd by (auto simp: prune_router_def update_conv' delete_conv' split: if_splits)
  moreover have "routed_at (prune_router cols (kr\<lparr>kr_index := ix\<rparr>) (te_families te)) c k
      = (if c = cols \<and> k = key then drop_it (routed_at (te_families te) cols key) else routed_at (te_families te) c k)" for c k
  proof (cases "c = cols")
    case True
    have "routed_at (prune_router cols (kr\<lparr>kr_index := ix\<rparr>) (te_families te)) cols k = (case map_of ix k of None \<Rightarrow> [] | Some l \<Rightarrow> l)"
      by (auto simp: routed_at_def prune_router_def update_conv' delete_conv')
    with True look show ?thesis by simp
  next
    case False
    then show ?thesis by (simp add: routed_at_def prune_router_def update_conv' delete_conv')
  qed
  ultimately show ?thesis unfolding un put_routed_def by blast
qed

lemma find_by_key: "distinct (map f xs) \<Longrightarrow> y \<in> set xs \<Longrightarrow> find (\<lambda>x. f x = f y) xs = Some y"
  by (induction xs) (auto simp: image_iff)

lemma remove_first_filter:
  "distinct (map f xs) \<Longrightarrow> remove_first (\<lambda>x. f x = n) xs = filter (\<lambda>x. f x \<noteq> n) xs"
proof (induction xs)
  case (Cons x xs)
  have "filter (\<lambda>y. f y \<noteq> n) xs = xs" if "f x = n" using Cons.prems that by (auto simp: filter_id_conv image_iff)
  with Cons show ?case by simp
qed simp

lemma unroute_inv:
  assumes inv: "exec_inv te G" and g: "G sid = Some g" and kv: "equality_template (pl_pred g) = Some kv"
    and te': "te_families te' = te_families te" "te_shapes te' = te_shapes te" "te_shape_index te' = te_shape_index te"
      "te_family_of te' = (te_family_of te)(sid := None)"
    and drop_it: "drop_it [] = []" "\<And>xs. distinct (map rs_num_id xs) \<Longrightarrow> drop_it xs = filter (\<lambda>rs. rs_num_id rs \<noteq> pl_num_id g) xs"
  shows "exec_inv (unroute (map fst kv) (map snd kv) drop_it te') (G(sid := None))"
proof -
  let ?cols = "map fst kv" and ?key = "map snd kv" and ?te = "unroute (map fst kv) (map snd kv) drop_it te'"
  have ro: "registry_ok G" and si: "shapes_inv te G" and fi: "families_inv te G" using inv by (simp_all add: exec_inv_def)
  have frame: "te_shapes ?te = te_shapes te" "te_shape_index ?te = te_shape_index te" "te_family_of ?te = (te_family_of te)(sid := None)"
    using te' by (auto simp: unroute_def Let_def split: option.splits)
  have "routed_here G ?cols ?key g" using g kv by (auto simp: routed_here_def)
  then have "routed_of g \<in> set (routed_at (te_families te) ?cols ?key)" using fi by (auto simp: families_inv_def)
  then have keep: "map_of (te_families te) ?cols \<noteq> None" by (cases "map_of (te_families te) ?cols") (auto simp: routed_at_def)
  have dist: "distinct (map rs_num_id (routed_at (te_families te) ?cols ?key))"
    "set (routed_at (te_families te) ?cols ?key) = routed_of ` Collect (routed_here G ?cols ?key)"
    using fi by (simp_all add: families_inv_def)
  have "families_inv ?te (G(sid := None))"
  proof (rule families_inv_put [OF fi put_routed_drop [where drop_it = drop_it and key = ?key, OF fi te'(1) drop_it(1) keep]])
    show "distinct (map rs_num_id (drop_it (routed_at (te_families te) ?cols ?key)))"
      using dist(1) by (simp add: drop_it(2) distinct_map_filter)
    show "set (drop_it (routed_at (te_families te) ?cols ?key)) = routed_of ` Collect (routed_here (G(sid := None)) ?cols ?key)"
      unfolding drop_it(2) [OF dist(1)] using dist(2) by (auto simp: routed_here_del [OF ro g] routed_of_def)
    show "routed_here (G(sid := None)) c k = routed_here G c k" if "(c, k) \<noteq> (?cols, ?key)" for c k
    proof
      fix g'
      have "pl_num_id g' \<noteq> pl_num_id g" if h: "routed_here G c k g'"
      proof
        assume n: "pl_num_id g' = pl_num_id g"
        obtain i kv' where i: "G i = Some g'" "equality_template (pl_pred g') = Some kv'" "map fst kv' = c" "map snd kv' = k"
          using h by (auto simp: routed_here_def)
        have "i = sid" using registry_okD [OF ro i(1) g n] .
        with i g kv \<open>(c, k) \<noteq> (?cols, ?key)\<close> show False by simp
      qed
      then show "routed_here (G(sid := None)) c k g' = routed_here G c k g'" by (auto simp: routed_here_del [OF ro g])
    qed
    show "te_family_of ?te = (\<lambda>sid'. Option.bind ((G(sid := None)) sid') (\<lambda>g. map_option (\<lambda>kv. (map fst kv, pl_num_id g, map snd kv)) (equality_template (pl_pred g))))"
      using fi by (auto simp: frame families_inv_def fun_eq_iff)
  qed
  moreover have "shapes_inv ?te (G(sid := None))"
    using si g kv unfolding shapes_inv_def frame by (auto simp: fun_eq_iff)
  ultimately show ?thesis using registry_ok_del [OF ro] by (simp add: exec_inv_def)
qed

lemma drop_standalone_inv:
  assumes inv: "exec_inv te G" and mem: "map_of (te_shapes te) sid = Some s"
    and te': "te_shapes te' = AList.delete sid (te_shapes te)" "te_shape_index te' = index_remove sid (te_shape_index te)"
      "te_families te' = te_families te" "te_family_of te' = te_family_of te"
  shows "exec_inv te' (G(sid := None))"
proof -
  have ro: "registry_ok G" and si: "shapes_inv te G" and fi: "families_inv te G" using inv by (simp_all add: exec_inv_def)
  obtain g where g: "G sid = Some g" "equality_template (pl_pred g) = None"
    using mem si by (auto simp: shapes_inv_def bind_eq_Some_conv split: if_splits)
  have "routed_here (G(sid := None)) c k g' \<longleftrightarrow> routed_here G c k g'" for c k g'
  proof -
    have "pl_num_id g' \<noteq> pl_num_id g" if "routed_here G c k g'"
      using that g registry_okD [OF ro _ g(1)] by (auto simp: routed_here_def)
    then show ?thesis by (auto simp: routed_here_del [OF ro g(1)])
  qed
  then have "families_inv te' (G(sid := None))"
    using fi g unfolding families_inv_def te' by (auto simp: fun_eq_iff)
  moreover have "shapes_inv te' (G(sid := None))"
    using si unfolding shapes_inv_def te'
    by (auto simp: distinct_delete delete_conv' index_placed_remove fun_eq_iff intro: index_wf_remove)
  ultimately show ?thesis using registry_ok_del [OF ro] by (simp add: exec_inv_def)
qed

lemma exec_inv_cong:
  "exec_inv te G \<Longrightarrow> te_shapes te' = te_shapes te \<Longrightarrow> te_shape_index te' = te_shape_index te \<Longrightarrow> te_families te' = te_families te \<Longrightarrow>
   te_family_of te' = te_family_of te \<Longrightarrow> exec_inv te' G"
  by (simp add: exec_inv_def shapes_inv_def families_inv_def)

lemma exec_inv_absent: "exec_inv te G \<Longrightarrow> map_of (te_shapes te) sid = None \<Longrightarrow> te_family_of te sid = None \<Longrightarrow> G sid = None"
  by (cases "G sid") (auto simp: exec_inv_def shapes_inv_def families_inv_def split: if_splits)

lemma exec_inv_family:
  "exec_inv te G \<Longrightarrow> te_family_of te sid = Some (cols, n, key) \<Longrightarrow>
   \<exists>g kv. G sid = Some g \<and> equality_template (pl_pred g) = Some kv \<and> cols = map fst kv \<and> n = pl_num_id g \<and> key = map snd kv"
  by (auto simp: exec_inv_def families_inv_def bind_eq_Some_conv)

lemma deactivate_inv:
  assumes inv: "exec_inv te G"
  shows "exec_inv (fst (deactivate_shape sid te)) (G(sid := None)) \<and> snd (deactivate_shape sid te) = map_option pl_gate (G sid)"
proof (cases "map_of (te_shapes te) sid")
  case (Some s)
  then obtain g where g: "G sid = Some g" "s = standalone_of g"
    using inv by (auto simp: exec_inv_def shapes_inv_def bind_eq_Some_conv split: if_splits)
  with drop_standalone_inv [OF inv Some] Some show ?thesis by (simp add: deactivate_shape_def standalone_of_def)
next
  case none: None
  show ?thesis
  proof (cases "te_family_of te sid")
    case None
    with none exec_inv_absent [OF inv none] inv show ?thesis by (auto simp: deactivate_shape_def fun_upd_idem)
  next
    case (Some f)
    obtain cols n key where f: "f = (cols, n, key)" by (cases f)
    from exec_inv_family [OF inv Some [unfolded f]] obtain g kv where
      g: "G sid = Some g" "equality_template (pl_pred g) = Some kv" and eqs: "cols = map fst kv" "n = pl_num_id g" "key = map snd kv" by blast
    have "exec_inv (unroute cols key (remove_first (\<lambda>rs. rs_num_id rs = n)) (te\<lparr>te_family_of := (te_family_of te)(sid := None)\<rparr>)) (G(sid := None))"
      unfolding eqs by (rule unroute_inv [OF inv g]) (auto simp: remove_first_filter)
    moreover have "routed_gate cols key n te = Some (pl_gate g)"
    proof -
      have "routed_here G cols key g" using g eqs by (auto simp: routed_here_def)
      then have mem: "routed_of g \<in> set (routed_at (te_families te) cols key)" and d: "distinct (map rs_num_id (routed_at (te_families te) cols key))"
        using inv by (auto simp: exec_inv_def families_inv_def)
      then obtain kr routed where kr: "map_of (te_families te) cols = Some kr" "map_of (kr_index kr) key = Some routed"
        by (cases "map_of (te_families te) cols"; cases "map_of (kr_index (the (map_of (te_families te) cols))) key") (auto simp: routed_at_def)
      then have r: "routed_at (te_families te) cols key = routed" by (simp add: routed_at_def)
      have "find (\<lambda>rs. rs_num_id rs = n) routed = Some (routed_of g)"
        using find_by_key [OF d mem] unfolding r by (simp add: eqs routed_of_def)
      with kr show ?thesis by (simp add: routed_gate_def routed_of_def)
    qed
    ultimately show ?thesis using none Some f g by (simp add: deactivate_shape_def)
  qed
qed

text \<open>Ids are shared by no two kinds of shape, so removing one that is no aggregate removes the plain shape.\<close>

lemma remove_inv:
  assumes inv: "exec_inv te G" and ids: "map_of (te_circuit_aggs te) sid = None" "map_of (te_aggregates te) sid = None"
  shows "exec_inv (remove_shape sid te) (G(sid := None))"
proof -
  define te1 where "te1 = te\<lparr>te_pending := AList.delete sid (te_pending te)\<rparr>"
  have inv1: "exec_inv te1 G" by (rule exec_inv_cong [OF inv]) (simp_all add: te1_def)
  have ids1: "map_of (te_circuit_aggs te1) sid = None" "map_of (te_aggregates te1) sid = None" using ids by (simp_all add: te1_def)
  show ?thesis
  proof (cases "map_of (te_shapes te1) sid")
    case (Some s)
    then have "remove_shape sid te = te1\<lparr>te_shapes := AList.delete sid (te_shapes te1), te_shape_index := index_remove sid (te_shape_index te1)\<rparr>"
      using ids1 by (simp add: remove_shape_def te1_def Let_def)
    then show ?thesis using drop_standalone_inv [OF inv1 Some] by simp
  next
    case none: None
    show ?thesis
    proof (cases "te_family_of te1 sid")
      case None
      then have "remove_shape sid te = te1" using ids1 none by (simp add: remove_shape_def te1_def Let_def)
      with exec_inv_absent [OF inv1 none None] inv1 show ?thesis by (simp add: fun_upd_idem)
    next
      case (Some f)
      obtain cols n key where f: "f = (cols, n, key)" by (cases f)
      from exec_inv_family [OF inv1 Some [unfolded f]] obtain g kv where
        g: "G sid = Some g" "equality_template (pl_pred g) = Some kv" and eqs: "cols = map fst kv" "n = pl_num_id g" "key = map snd kv" by blast
      have "remove_shape sid te = unroute cols key (filter (\<lambda>rs. rs_num_id rs \<noteq> n)) (te1\<lparr>te_family_of := (te_family_of te1)(sid := None)\<rparr>)"
        using ids1 none Some f by (simp add: remove_shape_def te1_def Let_def)
      then show ?thesis unfolding eqs using unroute_inv [OF inv1 g] by simp
    qed
  qed
qed

section \<open>Every history of a table's executor\<close>

text \<open>The executor with the plain shapes that are live, through activations of shapes with fresh ids,
  numbers and paths, removals, parkings and processed changes.\<close>

type_synonym 'q subquery_step = "zdelta \<Rightarrow> nat \<Rightarrow> nat option \<Rightarrow> string option \<Rightarrow> 'q \<Rightarrow> 'q result"

inductive exec_reach :: "fault \<Rightarrow> f64_ops \<Rightarrow> 'q subquery_step \<Rightarrow> table_exec \<Rightarrow> registry \<Rightarrow> bool" for fl F subq where
  ExecNew: "exec_reach fl F subq (table_exec_new ts) Map.empty"
| ExecBegin: "exec_reach fl F subq te G \<Longrightarrow> exec_reach fl F subq (begin_shape sid n path pred cols kind te) G"
| ExecAbort: "exec_reach fl F subq te G \<Longrightarrow> exec_reach fl F subq (abort_shape sid te) G"
| ExecActivate: "exec_reach fl F subq te G \<Longrightarrow> G sid = None \<Longrightarrow> map_of (te_pending te) sid = Some p \<Longrightarrow>
     (\<And>i g. G i = Some g \<Longrightarrow> pl_num_id g \<noteq> ps_num_id p \<and> pl_path g \<noteq> ps_stream_path p) \<Longrightarrow>
     exec_reach fl F subq (register_plain sid gate p (abort_shape sid te)) (G(sid \<mapsto> plain_of gate p))"
| ExecDeactivate: "exec_reach fl F subq te G \<Longrightarrow> exec_reach fl F subq (fst (deactivate_shape sid te)) (G(sid := None))"
| ExecRemove: "exec_reach fl F subq te G \<Longrightarrow> map_of (te_circuit_aggs te) sid = None \<Longrightarrow> map_of (te_aggregates te) sid = None \<Longrightarrow>
     exec_reach fl F subq (remove_shape sid te) (G(sid := None))"
| ExecAggregate: "exec_reach fl F subq te G \<Longrightarrow> exec_reach fl F subq
     (te\<lparr>te_agg_index := index_insert sid (ag_pred agg) (te_agg_index te), te_aggregates := AList.update sid agg (te_aggregates te)\<rparr>) G"
| ExecRemoveAggregate: "exec_reach fl F subq te G \<Longrightarrow> map_of (te_circuit_aggs te) sid \<noteq> None \<or> map_of (te_aggregates te) sid \<noteq> None \<Longrightarrow>
     exec_reach fl F subq (remove_shape sid te) G"
| ExecHandle: "exec_reach fl F subq te G \<Longrightarrow> map_of execs table = Some te \<Longrightarrow>
     handle_envelope fl F subq mem cap lib traced tables env (execs, pending, q) = Ok (execs', pending', q') \<Longrightarrow>
     map_of execs' table = Some te' \<Longrightarrow> exec_reach fl F subq te' G"

lemma process_envelope_frame:
  assumes "process_envelope fl F subq lib traced env te pending q = Ok (te', pending', q')"
  shows "te_shapes te' = te_shapes te \<and> te_shape_index te' = te_shape_index te \<and> te_families te' = te_families te
    \<and> te_family_of te' = te_family_of te \<and> te_ts te' = te_ts te"
proof -
  obtain delta txid lsn where ap: "apply_envelope F (te_ts te) env = Ok (delta, txid, lsn)"
    using assms by (auto simp: process_envelope_def rbind_def split: sum.splits)
  have "te' = te \<or> (\<exists>aggs. te' = te\<lparr>te_aggregates := aggs\<rparr>)"
    using assms unfolding process_envelope_def ap rbind_simps prod.case
    by (auto simp only: Let_def rbind_def split: if_splits sum.splits prod.splits)
  then show ?thesis by auto
qed

lemma exec_for_hit: "exec_for tables t execs = (execs1, r) \<Longrightarrow> map_of execs table = Some te \<Longrightarrow>
    map_of execs1 table = Some te \<and> (t = table \<longrightarrow> r = Some te)"
  by (auto simp: exec_for_def update_conv split: option.splits sum.splits if_splits)

lemma handle_envelope_frame:
  assumes "handle_envelope fl F subq mem cap lib traced tables env (execs, pending, q) = Ok (execs', pending', q')"
    and te: "map_of execs table = Some te" and te': "map_of execs' table = Some te'"
  shows "te_shapes te' = te_shapes te \<and> te_shape_index te' = te_shape_index te \<and> te_families te' = te_families te
    \<and> te_family_of te' = te_family_of te \<and> te_ts te' = te_ts te"
proof -
  obtain execs1 r where ex: "exec_for tables (e_type env) execs = (execs1, r)" by (cases "exec_for tables (e_type env) execs")
  note hit = exec_for_hit [OF ex te]
  show ?thesis
  proof (cases r)
    case None
    with assms(1) ex have "execs' = execs1" by (simp add: handle_envelope_def)
    with hit te' show ?thesis by simp
  next
    case (Some te0)
    obtain env1 te1 where st: "(if lib then stamp_before_image env te0 else (env, te0)) = (env1, te1)" by fastforce
    let ?te2 = "te1\<lparr>te_pending := map (\<lambda>(sid, p). (sid, fst (buffer_pending mem env1 cap p))) (te_pending te1)\<rparr>"
    obtain te3 where run: "process_envelope fl F subq lib traced env1 ?te2 pending q = Ok (te3, pending', q')"
      and ex': "execs' = AList.update (e_type env) (te3\<lparr>te_envelopes_total := te_envelopes_total te3 + 1\<rparr>) execs1"
      using assms(1) ex Some st by (auto simp: handle_envelope_def res_simps)
    have "te_shapes te1 = te_shapes te0 \<and> te_shape_index te1 = te_shape_index te0 \<and> te_families te1 = te_families te0
      \<and> te_family_of te1 = te_family_of te0 \<and> te_ts te1 = te_ts te0"
      using st by (auto simp: stamp_before_image_def Let_def split: if_splits option.splits)
    then show ?thesis using process_envelope_frame [OF run] te' ex' hit Some by (auto simp: update_conv split: if_splits)
  qed
qed

lemma exec_reach_inv: "exec_reach fl F subq te G \<Longrightarrow> exec_inv te G"
proof (induction rule: exec_reach.induct)
  case (ExecNew ts)
  show ?case
    by (auto simp: exec_inv_def registry_ok_def shapes_inv_def families_inv_def table_exec_new_def index_wf_empty routed_at_def
        routed_here_def sidx.registered_empty fun_eq_iff)
next
  case (ExecActivate te G sid p gate)
  have "exec_inv (abort_shape sid te) G" by (rule exec_inv_cong [OF ExecActivate.IH]) (simp_all add: abort_shape_def)
  with ExecActivate show ?case by (intro register_inv) auto
next
  case (ExecHandle te G execs table mem cap lib traced tables env pending q execs' pending' q' te')
  then show ?case using handle_envelope_frame [OF ExecHandle.hyps(3,2,4)] by (intro exec_inv_cong [OF ExecHandle.IH]) auto
next
  case (ExecRemoveAggregate te G sid)
  then show ?case by (intro exec_inv_cong [OF ExecRemoveAggregate.IH]) (auto simp: remove_shape_def Let_def)
next
  case (ExecDeactivate te G sid)
  then show ?case using deactivate_inv by blast
next
  case (ExecRemove te G sid)
  then show ?case by (intro remove_inv)
qed (auto simp: begin_shape_def abort_shape_def intro: exec_inv_cong)

text \<open>Aggregates write to paths of their own.\<close>

lemma agg_apply_path: "ag_stream_path (fst (agg_apply fl F delta agg)) = ag_stream_path agg"
proof -
  have row: "ag_stream_path (fold_agg_row F func col r w s) = ag_stream_path s" for func col r w and s :: agg_shape
    by (auto simp: fold_agg_row_def Let_def split: option.splits)
  have "ag_stream_path (fst (fold (\<lambda>(r, w) (s, touched). if \<not> matches fl (ag_pred s) r then (s, touched)
             else (fold_agg_row F (ag_func s) (ag_col s) r w s, True)) delta (agg, b))) = ag_stream_path agg" for b
    by (induction delta arbitrary: agg b) (auto simp: row)
  then show ?thesis by (simp add: agg_apply_def)
qed

lemma fan_agg_frame:
  assumes "\<forall>sa \<in> set aggs. ag_stream_path (snd sa) \<noteq> path"
  shows "snd (fold (fan_agg fl F ts delta txid lsn l x c) aggs st) path = snd st path"
  using assms
proof (induction aggs arbitrary: st)
  case (Cons sa aggs)
  obtain sid agg where sa: "sa = (sid, agg)" by (cases sa)
  obtain as p where st: "st = (as, p)" by (cases st)
  obtain agg' t where ap: "agg_apply fl F delta agg = (agg', t)" by (cases "agg_apply fl F delta agg")
  have "ag_stream_path agg' = ag_stream_path agg" using agg_apply_path [of fl F delta agg] ap by simp
  then have "snd (fan_agg fl F ts delta txid lsn l x c sa st) path = snd st path"
    using Cons.prems sa st ap by (auto simp: fan_agg_def stage_out_def Let_def)
  with Cons show ?case by simp
qed simp

lemma fan_agg_paths:
  "map (ag_stream_path \<circ> snd) (fst (fold (fan_agg fl F ts delta txid lsn l x c) aggs st)) =
     map (ag_stream_path \<circ> snd) (fst st) @ map (ag_stream_path \<circ> snd) aggs"
proof (induction aggs arbitrary: st)
  case (Cons sa aggs)
  obtain sid agg where sa: "sa = (sid, agg)" by (cases sa)
  obtain as p where st: "st = (as, p)" by (cases st)
  obtain agg' t where ap: "agg_apply fl F delta agg = (agg', t)" by (cases "agg_apply fl F delta agg")
  have "ag_stream_path agg' = ag_stream_path agg" using agg_apply_path [of fl F delta agg] ap by simp
  then have "map (ag_stream_path \<circ> snd) (fst (fan_agg fl F ts delta txid lsn l x c sa st))
      = map (ag_stream_path \<circ> snd) (fst st) @ [ag_stream_path (snd sa)]"
    using sa st ap by (simp add: fan_agg_def Let_def)
  with Cons [of "fan_agg fl F ts delta txid lsn l x c sa st"] show ?case by (simp add: comp_def)
qed simp

section \<open>The sequencer's fan-out and what a subscriber sees\<close>

definition agg_paths :: "table_exec \<Rightarrow> string set" where
  "agg_paths te = set (map (ag_stream_path \<circ> snd) (te_aggregates te))"

lemma process_envelope_shape:
  assumes inv: "exec_inv te G" and g: "G sid = Some g" and paths: "pl_path g \<notin> agg_paths te"
    and env: "\<not> (lib \<and> needs_absolute_emission env)"
    and ap: "apply_envelope F (te_ts te) env = Ok (delta, txid, lsn)"
    and res: "process_envelope fl F subq lib traced env te pending q = Ok (te', pending', q')"
  shows "pending' (pl_path g) = pending (pl_path g) @
      shape_emits fl F (te_ts te) delta txid lsn (case lsn of Some l \<Rightarrow> lsn_to_u64 l | None \<Rightarrow> 0) (Option.bind txid parse_u64) g
    \<and> agg_paths te' = agg_paths te"
proof (cases "delta = []")
  case True
  with res env ap have "te' = te" "pending' = pending" by (auto simp: process_envelope_def)
  with True show ?thesis by (simp add: shape_emits_def eval_standalone_def)
next
  case False
  define l where "l = (case lsn of Some l \<Rightarrow> lsn_to_u64 l | None \<Rightarrow> 0)"
  define x where "x = Option.bind txid parse_u64"
  define visited where "visited = (if traced then te_shapes te else filter (\<lambda>(sid, _). sid \<in> candidates (te_shape_index te) delta) (te_shapes te))"
  define p3 where "p3 = fold (\<lambda>(_, kr). fan_router fl F (te_ts te) delta txid lsn l x kr) (te_families te)
     (fold (fan_shape fl F (te_ts te) delta txid lsn l x) visited pending)"
  define r where "r = fold (fan_agg fl F (te_ts te) delta txid lsn l x (if traced then None else Some (candidates (te_agg_index te) delta))) (te_aggregates te) ([], p3)"
  have out: "te' = te\<lparr>te_aggregates := fst r\<rparr> \<and> pending' = snd r"
    using res env False unfolding process_envelope_def ap rbind_simps prod.case
    by (cases "subq delta l x txid q") (auto simp: l_def x_def visited_def p3_def r_def Let_def split: prod.splits)
  have vis: "visited = te_shapes te \<or> visited = filter (\<lambda>(sid, _). sid \<in> candidates (te_shape_index te) delta) (te_shapes te)"
    by (simp add: visited_def)
  have "p3 (pl_path g) = pending (pl_path g) @ shape_emits fl F (te_ts te) delta txid lsn l x g"
    unfolding p3_def router_tier [OF inv g] standalone_tier [OF inv g vis] by simp
  moreover have "snd r (pl_path g) = p3 (pl_path g)"
    unfolding r_def using paths by (subst fan_agg_frame) (auto simp: agg_paths_def image_iff)
  moreover have "agg_paths te' = agg_paths te"
    using out fan_agg_paths [of fl F "te_ts te" delta txid lsn l x _ "te_aggregates te" "([], p3)"] by (simp add: agg_paths_def r_def)
  ultimately show ?thesis using out by (simp add: l_def x_def)
qed

text \<open>C6: the fan-out reaches every shape exactly. After any history of creating, parking and removing
  shapes and of processed changes, a change that is processed adds to the staged appends of every
  live plain shape precisely what the shape's own filter emits for the change, nothing if the shape's
  snapshot saw it; whether the shape sits in the index of filters or in an equality router, and
  whether tracing makes the executor scan every shape or ask the index.\<close>

theorem fanout_exact:
  assumes "exec_reach fl F subq te G" and "G sid = Some g" and "pl_path g \<notin> agg_paths te"
    and "\<not> (lib \<and> needs_absolute_emission env)"
    and "apply_envelope F (te_ts te) env = Ok (delta, txid, lsn)"
    and "process_envelope fl F subq lib traced env te pending q = Ok (te', pending', q')"
  shows "pending' (pl_path g) = pending (pl_path g) @
      shape_emits fl F (te_ts te) delta txid lsn (case lsn of Some l \<Rightarrow> lsn_to_u64 l | None \<Rightarrow> 0) (Option.bind txid parse_u64) g"
  using process_envelope_shape [OF exec_reach_inv [OF assms(1)] assms(2-)] by blast

fun process_all ::
  "fault \<Rightarrow> f64_ops \<Rightarrow> 'q subquery_step \<Rightarrow> bool \<Rightarrow> envelope list \<Rightarrow> table_exec \<Rightarrow> staged \<Rightarrow> 'q \<Rightarrow> (table_exec \<times> staged \<times> 'q) result" where
  "process_all fl F subq traced [] te pending q = Ok (te, pending, q)"
| "process_all fl F subq traced (env # envs) te pending q =
     rbind (process_envelope fl F subq False traced env te pending q) (\<lambda>(te', pending', q').
       process_all fl F subq traced envs te' pending' q')"

text \<open>Whether a shape's snapshot already shows a committed change.\<close>

definition seen :: "snapshot_gate \<Rightarrow> committed \<Rightarrow> bool" where
  "seen gate c \<longleftrightarrow> should_skip gate (case c_lsn c of Some l \<Rightarrow> lsn_to_u64 l | None \<Rightarrow> 0) (Option.bind (c_txid c) parse_u64)"

lemma committed_env_headers:
  "apply_envelope F ts (committed_env F ts c) = Ok (delta, txid, lsn) \<Longrightarrow> txid = c_txid c \<and> lsn = c_lsn c"
  by (auto simp: apply_envelope_def committed_env_def change_env_def Let_def res_simps split: change.splits if_splits option.splits)

text \<open>What the shape is sent for a committed change, live or replayed.\<close>

definition sent :: "f64_ops \<Rightarrow> tschema \<Rightarrow> plain_shape \<Rightarrow> committed \<Rightarrow> envelope list" where
  "sent F ts g c =
     (if seen (pl_gate g) c then []
      else translate_output NoFault F ts (eval_standalone NoFault (pl_pred g) (change_delta (c_change c))) (c_txid c) (c_lsn c) (pl_cols g))"

lemma sent_converges:
  assumes ts: "schema_wf ts"
  shows "valid_changes F ts S (filter (\<lambda>c. \<not> seen (pl_gate g) c) cs) \<Longrightarrow>
    client_fold (concat (map (sent F ts g) cs)) (shape_view NoFault ts (pl_pred g) (pl_cols g) S)
      = shape_view NoFault ts (pl_pred g) (pl_cols g) (table_after F ts (filter (\<lambda>c. \<not> seen (pl_gate g) c) cs) S)"
proof (induction cs arbitrary: S)
  case (Cons c cs)
  show ?case
  proof (cases "seen (pl_gate g) c")
    case True
    with Cons show ?thesis by (simp add: sent_def)
  next
    case False
    let ?T = "change_table F ts (c_change c) S"
    have "client_fold (sent F ts g c) (shape_view NoFault ts (pl_pred g) (pl_cols g) S) = shape_view NoFault ts (pl_pred g) (pl_cols g) ?T"
      using translate_change [OF ts, of F S "c_change c" NoFault] Cons.prems False by (auto simp: sent_def)
    with Cons.IH [of ?T] Cons.prems False show ?thesis by (simp add: table_after_def)
  qed
qed (simp add: table_after_def)

lemma valid_changes_mem: "valid_changes F ts S cs \<Longrightarrow> c \<in> set cs \<Longrightarrow> \<exists>T. valid_change F ts T (c_change c)"
  by (induction cs arbitrary: S) auto

lemma replay_sent:
  assumes "schema_wf ts" "\<And>c. c \<in> set cs \<Longrightarrow> \<not> seen (pl_gate g) c \<Longrightarrow> \<exists>T. valid_change F ts T (c_change c)"
  shows "replay_plain NoFault F ts (pl_gate g) (pl_pred g) (pl_cols g) (map (committed_env F ts) cs) = concat (map (sent F ts g) cs)"
proof -
  have "(case buffered_delta F ts (pl_gate g) (committed_env F ts c) of None \<Rightarrow> []
     | Some (delta, txid, lsn) \<Rightarrow>
        (let matched = eval_standalone NoFault (pl_pred g) delta in
         if matched = [] then [] else translate_output NoFault F ts matched txid lsn (pl_cols g))) = sent F ts g c"
    if c: "c \<in> set cs" for c
  proof (cases "seen (pl_gate g) c")
    case True
    then have "buffered_delta F ts (pl_gate g) (committed_env F ts c) = None"
      by (auto simp: buffered_delta_def seen_def dest: committed_env_headers split: sum.splits)
    with True show ?thesis by (simp add: sent_def)
  next
    case False
    with assms(2) [OF c] obtain T where "valid_change F ts T (c_change c)" by blast
    from apply_envelope_change [OF assms(1) this] have
      "apply_envelope F ts (committed_env F ts c) = Ok (change_delta (c_change c), c_txid c, c_lsn c)" by (simp add: committed_env_def)
    with False show ?thesis by (auto simp: buffered_delta_def sent_def seen_def Let_def eval_standalone_def)
  qed
  then show ?thesis by (simp add: replay_plain_def comp_def cong: map_cong)
qed

lemma process_all_sent:
  assumes inv: "exec_inv te G" and g: "G sid = Some g" and paths: "pl_path g \<notin> agg_paths te" and ts: "te_ts te = ts" "schema_wf ts"
    and valid: "\<And>c. c \<in> set cs \<Longrightarrow> \<not> seen (pl_gate g) c \<Longrightarrow> \<exists>T. valid_change F ts T (c_change c)"
    and run: "process_all NoFault F subq traced (map (committed_env F ts) cs) te pending q = Ok (te', pending', q')"
  shows "pending' (pl_path g) = pending (pl_path g) @ concat (map (sent F ts g) cs)"
  using inv paths ts(1) valid run
proof (induction cs arbitrary: te pending q)
  case (Cons c cs)
  from Cons.prems(5) obtain te1 p1 q1 where
    one: "process_envelope NoFault F subq False traced (committed_env F ts c) te pending q = Ok (te1, p1, q1)"
    and rest: "process_all NoFault F subq traced (map (committed_env F ts) cs) te1 p1 q1 = Ok (te', pending', q')"
    by (auto simp: res_simps)
  from one obtain delta txid lsn where ap: "apply_envelope F (te_ts te) (committed_env F ts c) = Ok (delta, txid, lsn)"
    by (auto simp: process_envelope_def rbind_def split: sum.splits)
  have hd: "txid = c_txid c" "lsn = c_lsn c" using committed_env_headers ap Cons.prems(3) by auto
  from process_envelope_shape [OF Cons.prems(1) g Cons.prems(2) _ ap one]
  have p1: "p1 (pl_path g) = pending (pl_path g) @ shape_emits NoFault F ts delta txid lsn
      (case lsn of Some l \<Rightarrow> lsn_to_u64 l | None \<Rightarrow> 0) (Option.bind txid parse_u64) g" and ap1: "agg_paths te1 = agg_paths te"
    using Cons.prems(3) by auto
  have "shape_emits NoFault F ts delta txid lsn (case lsn of Some l \<Rightarrow> lsn_to_u64 l | None \<Rightarrow> 0) (Option.bind txid parse_u64) g = sent F ts g c"
  proof (cases "seen (pl_gate g) c")
    case True
    then show ?thesis by (simp add: shape_emits_def sent_def seen_def hd)
  next
    case False
    with Cons.prems(4) [of c] obtain T where "valid_change F ts T (c_change c)" by auto
    from apply_envelope_change [OF ts(2) this] ap Cons.prems(3) have "delta = change_delta (c_change c)" by (simp add: committed_env_def)
    with False show ?thesis by (simp add: shape_emits_def sent_def seen_def hd)
  qed
  moreover have "exec_inv te1 G" "te_ts te1 = ts"
    using process_envelope_frame [OF one] Cons.prems(3) by (auto intro: exec_inv_cong [OF Cons.prems(1)])
  ultimately show ?case using Cons.IH [OF _ _ _ _ rest] p1 ap1 Cons.prems(2,4) by simp
qed simp

lemma activate_plain:
  assumes "map_of execs table = Some te0" "map_of (te_pending te0) sid = Some p" "ps_kind p = Plain" "\<not> ps_overflowed p"
    and "activate_shape fl F reliable retrying table sid gate seed n execs emitted d = ((execs', emitted', d'), r)"
  shows "r = Inr () \<and> map_of execs' table = Some (register_plain sid gate p (abort_shape sid te0))
    \<and> d' = (let outs = replay_plain fl F (te_ts te0) gate (ps_pred p) (ps_out_cols p) (ps_buffered p) in
             if outs = [] then d else reliable (ps_stream_path p) outs d)"
  using assms by (auto simp: activate_shape_def abort_shape_def Let_def update_conv split: if_splits)

lemma register_plain_frame:
  "te_ts (register_plain sid gate p te) = te_ts te \<and> agg_paths (register_plain sid gate p te) = agg_paths te"
  by (auto simp: register_plain_def agg_paths_def Let_def split: option.splits)

lemma abort_shape_frame: "te_ts (abort_shape sid te) = te_ts te \<and> agg_paths (abort_shape sid te) = agg_paths te"
  by (simp add: abort_shape_def agg_paths_def)

text \<open>C2: a subscriber converges through creation and live changes. A plain shape is being created from
  a snapshot \<open>S\<close> of its table, on an executor with any history of other shapes; the changes committed
  since it was registered are \<open>cs1\<close>, buffered, and \<open>cs2\<close>, processed after the activation among all
  other shapes. The activation succeeds, and if the changes the gate lets through are the ones the
  snapshot lacks, the snapshot followed by everything the shape's stream receives, replayed or live,
  folds to exactly the shape of the final table.\<close>

theorem shape_lifetime_converges:
  assumes "exec_reach NoFault F subq te0 G" and "G sid = None" and "map_of execs table = Some te0"
    and "map_of (te_pending te0) sid = Some p" and "ps_kind p = Plain" and "\<not> ps_overflowed p"
    and "\<forall>i g. G i = Some g \<longrightarrow> pl_num_id g \<noteq> ps_num_id p \<and> pl_path g \<noteq> ps_stream_path p"
    and "ps_stream_path p \<notin> agg_paths te0" and "schema_wf (te_ts te0)"
    and "ps_buffered p = map (committed_env F (te_ts te0)) cs1" and "d (ps_stream_path p) = []"
    and "activate_shape NoFault F stage_out retrying table sid gate seed n execs emitted d = ((execs', emitted', d'), r)"
    and "map_of execs' table = Some te"
    and "process_all NoFault F subq traced (map (committed_env F (te_ts te0)) cs2) te d' q = Ok (te', d'', q')"
    and "valid_changes F (te_ts te0) S (filter (\<lambda>c. \<not> seen gate c) (cs1 @ cs2))"
  shows "r = Inr () \<and>
    client_fold (d'' (ps_stream_path p)) (shape_view NoFault (te_ts te0) (ps_pred p) (ps_out_cols p) S)
      = shape_view NoFault (te_ts te0) (ps_pred p) (ps_out_cols p) (table_after F (te_ts te0) (filter (\<lambda>c. \<not> seen gate c) (cs1 @ cs2)) S)"
proof -
  let ?ts = "te_ts te0" and ?g = "plain_of gate p"
  have g: "pl_gate ?g = gate" "pl_pred ?g = ps_pred p" "pl_cols ?g = ps_out_cols p" "pl_path ?g = ps_stream_path p"
    by (simp_all add: plain_of_def)
  note act = activate_plain [OF assms(3-6,12)]
  then have te: "te = register_plain sid gate p (abort_shape sid te0)" using assms(13) by simp
  have reach: "exec_reach NoFault F subq te (G(sid \<mapsto> ?g))"
    unfolding te by (rule ExecActivate [OF assms(1,2,4)]) (use assms(7) in blast)
  have frame: "te_ts te = ?ts" "ps_stream_path p \<notin> agg_paths te"
    using assms(8) by (simp_all add: te register_plain_frame abort_shape_frame)
  have valid: "\<exists>T. valid_change F ?ts T (c_change c)" if "c \<in> set (cs1 @ cs2)" "\<not> seen (pl_gate ?g) c" for c
    using valid_changes_mem [OF assms(15), of c] that by (auto simp: g)
  have "replay_plain NoFault F ?ts gate (ps_pred p) (ps_out_cols p) (ps_buffered p) = concat (map (sent F ?ts ?g) cs1)"
    using replay_sent [OF assms(9), of cs1 ?g F] valid assms(10) by (simp add: g)
  then have "d' (ps_stream_path p) = concat (map (sent F ?ts ?g) cs1)"
    using act assms(11) by (auto simp: stage_out_def Let_def)
  moreover have "d'' (pl_path ?g) = d' (pl_path ?g) @ concat (map (sent F ?ts ?g) cs2)"
    using process_all_sent [OF exec_reach_inv [OF reach], of sid ?g ?ts cs2 F subq traced d' q te' d'' q'] frame assms(9,14) valid by (auto simp: g)
  ultimately show ?thesis using act sent_converges [OF assms(9), of F S ?g "cs1 @ cs2"] assms(15) by (simp add: g)
qed

section \<open>A shape's life, by example\<close>

lemma process_envelope_total:
  assumes "apply_envelope F (te_ts te) env = Ok (delta, txid, lsn)" and "\<And>delta l x t q. subq delta l x t q = Ok q"
  shows "\<exists>te' pending'. process_envelope fl F subq lib traced env te pending q = Ok (te', pending', q)"
  unfolding process_envelope_def assms(1) rbind_simps prod.case by (auto simp: Let_def assms(2) split: prod.splits)

definition ex_filter :: compiled_predicate where
  "ex_filter = IsNull 1 False"

definition ex_insert :: committed where
  "ex_insert = \<lparr>c_change = RowInsert [VInt 1, VText ''admin'', VText ''u''], c_txid = None, c_lsn = None, c_seq = None, c_last = None\<rparr>"

definition ex_update :: committed where
  "ex_update = \<lparr>c_change = RowUpdate [VInt 1, VText ''admin'', VText ''u''] [VInt 1, VNull, VText ''u''], c_txid = None,
     c_lsn = None, c_seq = None, c_last = Some True\<rparr>"

definition ex_subq :: "unit subquery_step" where
  "ex_subq delta l x t q = Ok q"

text \<open>An executor on which a shape is being created, with one insert buffered for it.\<close>

definition ex_created :: table_exec where
  "ex_created = begin_shape ''s'' 1 ''p'' ex_filter None Plain (table_exec_new ex_schema)"

definition ex_shape :: pending_shape where
  "ex_shape = \<lparr>ps_num_id = 1, ps_stream_path = ''p'', ps_pred = ex_filter, ps_out_cols = None, ps_kind = Plain,
     ps_buffered = [committed_env exact_f64 ex_schema ex_insert], ps_buffered_bytes = 0, ps_overflowed = False\<rparr>"

definition ex_buffering :: table_exec where
  "ex_buffering = ex_created\<lparr>te_pending := [(''s'', ex_shape)], te_envelopes_total := 1\<rparr>"

lemma ex_buffering_simps:
  "te_ts ex_buffering = ex_schema" "agg_paths ex_buffering = {}" "te_pending ex_buffering = [(''s'', ex_shape)]"
  by (simp_all add: ex_buffering_def ex_created_def begin_shape_def table_exec_new_def agg_paths_def)

lemma ex_shape_simps:
  "ps_stream_path ex_shape = ''p''" "ps_pred ex_shape = ex_filter" "ps_out_cols ex_shape = None" "ps_kind ex_shape = Plain"
  "\<not> ps_overflowed ex_shape" "ps_buffered ex_shape = [committed_env exact_f64 ex_schema ex_insert]"
  by (simp_all add: ex_shape_def)

lemma ex_changes_valid: "valid_changes exact_f64 ex_schema Map.empty [ex_insert, ex_update]"
proof -
  have "row_key exact_f64 ex_schema [VInt 1, VText ''admin'', VText ''u''] = ''1'' @ [PK_SEP] @ ''u''"
    "row_key exact_f64 ex_schema [VInt 1, VNull, VText ''u''] = ''1'' @ [PK_SEP] @ ''u''" by code_simp+
  then show ?thesis by (simp add: ex_rows_typed ex_insert_def ex_update_def)
qed

lemma ex_delta:
  "change_delta (c_change ex_insert) = [([VInt 1, VText ''admin'', VText ''u''], 1)]"
  "change_delta (c_change ex_update) = [([VInt 1, VText ''admin'', VText ''u''], -1), ([VInt 1, VNull, VText ''u''], 1)]"
  by (simp_all add: ex_insert_def ex_update_def)

lemma ex_apply:
  assumes "c \<in> {ex_insert, ex_update}"
  shows "apply_envelope exact_f64 ex_schema (committed_env exact_f64 ex_schema c) = Ok (change_delta (c_change c), None, None)"
proof -
  obtain T where T: "valid_change exact_f64 ex_schema T (c_change c)"
    using valid_changes_mem [OF ex_changes_valid, of c] assms by auto
  have "c_txid c = None \<and> c_lsn c = None" using assms by (auto simp: ex_insert_def ex_update_def)
  then show ?thesis using apply_envelope_change [OF ex_schema_wf T] by (simp add: committed_env_def)
qed

lemma ex_buffering_reach: "exec_reach NoFault exact_f64 ex_subq ex_buffering Map.empty"
proof (rule ExecHandle [where execs = "[(table_as_str ex_table, ex_created)]" and table = "table_as_str ex_table" and mem = "\<lambda>_. 0"])
  show "exec_reach NoFault exact_f64 ex_subq ex_created Map.empty" unfolding ex_created_def by (intro ExecBegin ExecNew)
  have ty: "e_type (committed_env exact_f64 ex_schema ex_insert) = table_as_str ex_table"
    by (simp add: committed_env_def change_env_def ex_insert_def ex_schema_def)
  show "handle_envelope NoFault exact_f64 ex_subq (\<lambda>_. 0) 0 False False (\<lambda>_. None) (committed_env exact_f64 ex_schema ex_insert)
     ([(table_as_str ex_table, ex_created)], \<lambda>_. [], ()) = Ok ([(table_as_str ex_table, ex_buffering)], \<lambda>_. [], ())"
    by (simp add: handle_envelope_def exec_for_def ty process_envelope_def ex_created_def begin_shape_def table_exec_new_def ex_apply
        buffer_pending_def ex_subq_def ex_buffering_def ex_shape_def Let_def sat_add_def ex_delta)
qed simp_all

lemma ex_seen: "\<not> seen gate_passthrough ex_insert" "\<not> seen gate_passthrough ex_update"
  by (simp_all add: seen_def should_skip_def gate_passthrough_def ex_insert_def ex_update_def)

theorem fanout_exact_witness:
  "\<exists>te' pending'. process_envelope NoFault exact_f64 ex_subq False False (committed_env exact_f64 ex_schema ex_update)
      (register_plain ''s'' gate_passthrough (ex_shape) (abort_shape ''s'' ex_buffering)) (\<lambda>_. []) () = Ok (te', pending', ())
    \<and> pending' ''p'' = shape_emits NoFault exact_f64 ex_schema (change_delta (c_change ex_update)) None None 0 None
        (plain_of gate_passthrough (ex_shape))"
proof -
  let ?te = "register_plain ''s'' gate_passthrough ex_shape (abort_shape ''s'' ex_buffering)"
  have reach: "exec_reach NoFault exact_f64 ex_subq ?te (Map.empty(''s'' \<mapsto> plain_of gate_passthrough ex_shape))"
    by (rule ExecActivate [OF ex_buffering_reach]) (simp_all add: ex_buffering_simps)
  have ts: "te_ts ?te = ex_schema" "agg_paths ?te = {}"
    by (simp_all add: register_plain_frame abort_shape_frame ex_buffering_simps)
  then have ap: "apply_envelope exact_f64 (te_ts ?te) (committed_env exact_f64 ex_schema ex_update) = Ok (change_delta (c_change ex_update), None, None)"
    by (simp add: ex_apply)
  from process_envelope_total [OF ap, of ex_subq NoFault False False "\<lambda>_. []" "()"] obtain te' pending' where
    run: "process_envelope NoFault exact_f64 ex_subq False False (committed_env exact_f64 ex_schema ex_update) ?te (\<lambda>_. []) () = Ok (te', pending', ())"
    by (auto simp: ex_subq_def)
  show ?thesis using fanout_exact [OF reach _ _ _ ap run, of "''s''" "plain_of gate_passthrough ex_shape"] run ts
    by (auto simp: plain_of_def ex_shape_simps)
qed

theorem shape_lifetime_converges_witness:
  "\<exists>execs' emitted' d' te te' d''.
     activate_shape NoFault exact_f64 stage_out (\<lambda>_ _ d. (d, Ok ())) ''t'' ''s'' gate_passthrough None 0 [(''t'', ex_buffering)] Map.empty (\<lambda>_. [])
       = ((execs', emitted', d'), Inr ())
   \<and> map_of execs' ''t'' = Some te
   \<and> process_all NoFault exact_f64 ex_subq False (map (committed_env exact_f64 ex_schema) [ex_update]) te d' () = Ok (te', d'', ())
   \<and> client_fold (d'' ''p'') (shape_view NoFault ex_schema ex_filter None Map.empty)
      = shape_view NoFault ex_schema ex_filter None (table_after exact_f64 ex_schema [ex_insert, ex_update] Map.empty)"
proof -
  have ex: "map_of [(''t'', ex_buffering)] ''t'' = Some ex_buffering" by simp
  have p: "map_of (te_pending ex_buffering) ''s'' = Some ex_shape" "ps_kind ex_shape = Plain" "\<not> ps_overflowed ex_shape" by (simp_all add: ex_buffering_simps ex_shape_simps)
  obtain execs' emitted' d' r where act: "activate_shape NoFault exact_f64 stage_out (\<lambda>_ _ d. (d, Ok ())) ''t'' ''s'' gate_passthrough None 0
      [(''t'', ex_buffering)] Map.empty (\<lambda>_. []) = ((execs', emitted', d'), r)" by (metis prod.exhaust)
  let ?te = "register_plain ''s'' gate_passthrough ex_shape (abort_shape ''s'' ex_buffering)"
  have te: "map_of execs' ''t'' = Some ?te" using activate_plain [OF ex p act] by blast
  have "te_ts ?te = ex_schema" by (simp add: register_plain_frame abort_shape_frame ex_buffering_simps)
  then obtain te' d'' where run: "process_all NoFault exact_f64 ex_subq False (map (committed_env exact_f64 ex_schema) [ex_update]) ?te d' () = Ok (te', d'', ())"
    using process_envelope_total [of exact_f64 ?te "committed_env exact_f64 ex_schema ex_update" _ _ _ ex_subq NoFault False False d' "()"] ex_apply [of ex_update]
    by (auto simp: ex_subq_def)
  have "r = Inr () \<and> client_fold (d'' (ps_stream_path ex_shape)) (shape_view NoFault (te_ts ex_buffering) (ps_pred ex_shape) (ps_out_cols ex_shape) Map.empty)
      = shape_view NoFault (te_ts ex_buffering) (ps_pred ex_shape) (ps_out_cols ex_shape)
          (table_after exact_f64 (te_ts ex_buffering) (filter (\<lambda>c. \<not> seen gate_passthrough c) ([ex_insert] @ [ex_update])) Map.empty)"
    by (rule shape_lifetime_converges [OF ex_buffering_reach _ ex p _ _ _ _ _ act te, where ?cs2.0 = "[ex_update]" and traced = False])
      (use run ex_changes_valid ex_schema_wf in \<open>simp_all add: ex_buffering_simps ex_shape_simps ex_seen\<close>)
  then show ?thesis using act te run by (auto simp: ex_buffering_simps ex_shape_simps ex_seen)
qed

end
