(* ===== verification/PgOutput.thy ===== *)
theory PgOutput
  imports Prelude "HOL-Library.Word"
begin

text \<open>
  The decoder of the logical replication messages (\<^verbatim>\<open>apps/engine/src/pgoutput.rs\<close>), protocol version 1
  in text mode. Bytes are 8-bit words and the fixed-width fields keep their width. The reader is the
  number of bytes consumed with the bytes that are left. \<open>String::from_utf8_lossy\<close> is an argument of the
  decoder, because its replacement character lies outside the modelled range of characters.
\<close>

type_synonym byte = "8 word"

datatype cell = CNull | CUnchangedToast | CText string

type_synonym tuple = "cell list"

datatype old_tuple = OldFull tuple | OldKey tuple

record rel_column =
  rl_name :: string
  rl_type_oid :: "32 word"
  rl_typmod :: "32 word"
  rl_key :: bool

datatype message =
    MRelation "32 word" string string byte "rel_column list"
  | MInsert "32 word" tuple
  | MUpdate "32 word" "old_tuple option" tuple
  | MDelete "32 word" old_tuple
  | MTruncate "32 word list"
  | MIgnored

section \<open>The reader\<close>

type_synonym reader = "nat \<times> byte list"
type_synonym 'a reading = "reader \<Rightarrow> ('a \<times> reader) result"

definition rd_return :: "'a \<Rightarrow> 'a reading" where
  "rd_return x = (\<lambda>r. Ok (x, r))"

definition rd_fail :: "error \<Rightarrow> 'a reading" where
  "rd_fail e = (\<lambda>r. Err e)"

definition rd_bind :: "'a reading \<Rightarrow> ('a \<Rightarrow> 'b reading) \<Rightarrow> 'b reading" where
  "rd_bind f g = (\<lambda>r. rbind (f r) (\<lambda>(x, r1). g x r1))"

definition rd_take :: "nat \<Rightarrow> byte list reading" where
  "rd_take n = (\<lambda>(i, b). if n > length b then Err (Truncated i) else Ok (take n b, (i + n, drop n b)))"

text \<open>\<open>from_be_bytes\<close>.\<close>

definition be_nat :: "byte list \<Rightarrow> nat" where
  "be_nat bs = fold (\<lambda>b a. a * 256 + unat b) bs 0"

definition rd_u8 :: "byte reading" where
  "rd_u8 = rd_bind (rd_take 1) (\<lambda>bs. rd_return (bs ! 0))"

definition rd_i16 :: "16 word reading" where
  "rd_i16 = rd_bind (rd_take 2) (\<lambda>bs. rd_return (word_of_nat (be_nat bs)))"

definition rd_u32 :: "32 word reading" where
  "rd_u32 = rd_bind (rd_take 4) (\<lambda>bs. rd_return (word_of_nat (be_nat bs)))"

text \<open>The same four bytes, read as a signed number where the code does.\<close>

definition rd_i32 :: "32 word reading" where
  "rd_i32 = rd_u32"

fun split_nul :: "byte list \<Rightarrow> (byte list \<times> byte list) option" where
  "split_nul [] = None"
| "split_nul (b # bs) = (if b = 0 then Some ([], bs) else map_option (\<lambda>(x, y). (b # x, y)) (split_nul bs))"

definition rd_cstr :: "(byte list \<Rightarrow> string) \<Rightarrow> string reading" where
  "rd_cstr lossy =
     (\<lambda>(i, b). case split_nul b of
                 None \<Rightarrow> Err Unterminated
               | Some (s, rest) \<Rightarrow> Ok (lossy s, (i + length s + 1, rest)))"

primrec rd_times :: "nat \<Rightarrow> 'a reading \<Rightarrow> 'a list reading" where
  "rd_times 0 f = rd_return []"
| "rd_times (Suc n) f = rd_bind f (\<lambda>x. rd_bind (rd_times n f) (\<lambda>xs. rd_return (x # xs)))"

text \<open>\<open>for _ in 0..ncols\<close> with a signed bound: a negative one runs no iteration.\<close>

definition count_of :: "16 word \<Rightarrow> nat" where
  "count_of w = nat (sint w)"

definition rd_cell :: "(byte list \<Rightarrow> string) \<Rightarrow> cell reading" where
  "rd_cell lossy = rd_bind rd_u8 (\<lambda>kind.
     if kind = 110 then rd_return CNull
     else if kind = 117 then rd_return CUnchangedToast
     else if kind = 116 then
       rd_bind rd_i32 (\<lambda>len.
         if sint len < 0 then rd_fail NegativeLength
         else rd_bind (rd_take (nat (sint len))) (\<lambda>bs. rd_return (CText (lossy bs))))
     else rd_fail (BadCellKind (unat kind)))"

definition rd_tuple :: "(byte list \<Rightarrow> string) \<Rightarrow> tuple reading" where
  "rd_tuple lossy = rd_bind rd_i16 (\<lambda>ncols. rd_times (count_of ncols) (rd_cell lossy))"

definition rd_column :: "(byte list \<Rightarrow> string) \<Rightarrow> rel_column reading" where
  "rd_column lossy =
     rd_bind rd_u8 (\<lambda>flags. rd_bind (rd_cstr lossy) (\<lambda>nm. rd_bind rd_u32 (\<lambda>oid. rd_bind rd_i32 (\<lambda>typmod.
       rd_return \<lparr>rl_name = nm, rl_type_oid = oid, rl_typmod = typmod, rl_key = bit flags 0\<rparr>))))"

section \<open>The messages\<close>

definition rd_relation :: "(byte list \<Rightarrow> string) \<Rightarrow> message reading" where
  "rd_relation lossy =
     rd_bind rd_u32 (\<lambda>rel_id. rd_bind (rd_cstr lossy) (\<lambda>ns. rd_bind (rd_cstr lossy) (\<lambda>nm.
     rd_bind rd_u8 (\<lambda>replident. rd_bind rd_i16 (\<lambda>ncols.
     rd_bind (rd_times (count_of ncols) (rd_column lossy)) (\<lambda>columns.
       rd_return (MRelation rel_id ns nm replident columns)))))))"

definition rd_insert :: "(byte list \<Rightarrow> string) \<Rightarrow> message reading" where
  "rd_insert lossy =
     rd_bind rd_u32 (\<lambda>rel_id. rd_bind rd_u8 (\<lambda>marker.
       if marker \<noteq> 78 then rd_fail (BadMarker (unat marker))
       else rd_bind (rd_tuple lossy) (\<lambda>new. rd_return (MInsert rel_id new))))"

definition rd_new_tuple :: "(byte list \<Rightarrow> string) \<Rightarrow> 32 word \<Rightarrow> old_tuple option \<Rightarrow> byte \<Rightarrow> message reading" where
  "rd_new_tuple lossy rel_id old marker =
     (if marker \<noteq> 78 then rd_fail (BadMarker (unat marker))
      else rd_bind (rd_tuple lossy) (\<lambda>new. rd_return (MUpdate rel_id old new)))"

definition rd_update :: "(byte list \<Rightarrow> string) \<Rightarrow> message reading" where
  "rd_update lossy =
     rd_bind rd_u32 (\<lambda>rel_id. rd_bind rd_u8 (\<lambda>marker.
       if marker = 75 then
         rd_bind (rd_tuple lossy) (\<lambda>t. rd_bind rd_u8 (rd_new_tuple lossy rel_id (Some (OldKey t))))
       else if marker = 79 then
         rd_bind (rd_tuple lossy) (\<lambda>t. rd_bind rd_u8 (rd_new_tuple lossy rel_id (Some (OldFull t))))
       else rd_new_tuple lossy rel_id None marker))"

definition rd_delete :: "(byte list \<Rightarrow> string) \<Rightarrow> message reading" where
  "rd_delete lossy =
     rd_bind rd_u32 (\<lambda>rel_id. rd_bind rd_u8 (\<lambda>marker.
       if marker = 79 then rd_bind (rd_tuple lossy) (\<lambda>t. rd_return (MDelete rel_id (OldFull t)))
       else if marker = 75 then rd_bind (rd_tuple lossy) (\<lambda>t. rd_return (MDelete rel_id (OldKey t)))
       else rd_fail (BadMarker (unat marker))))"

definition rd_truncate :: "message reading" where
  "rd_truncate =
     rd_bind rd_u32 (\<lambda>n. rd_bind rd_u8 (\<lambda>options.
     rd_bind (rd_times (unat n) rd_u32) (\<lambda>ids. rd_return (MTruncate ids))))"

definition rd_message :: "(byte list \<Rightarrow> string) \<Rightarrow> message reading" where
  "rd_message lossy = rd_bind rd_u8 (\<lambda>tag.
     if tag = 82 then rd_relation lossy
     else if tag = 73 then rd_insert lossy
     else if tag = 85 then rd_update lossy
     else if tag = 68 then rd_delete lossy
     else if tag = 84 then rd_truncate
     else rd_return MIgnored)"

definition decode :: "(byte list \<Rightarrow> string) \<Rightarrow> byte list \<Rightarrow> message result" where
  "decode lossy data = rbind (rd_message lossy (0, data)) (\<lambda>(m, r). Ok m)"

section \<open>The protocol's encoding\<close>

text \<open>What the server sends for a message, as the protocol documents it, with \<open>enc\<close> the UTF-8 encoding of
  a text.\<close>

primrec be_bytes :: "nat \<Rightarrow> nat \<Rightarrow> byte list" where
  "be_bytes 0 n = []"
| "be_bytes (Suc k) n = be_bytes k (n div 256) @ [word_of_nat n]"

definition enc_u32 :: "32 word \<Rightarrow> byte list" where "enc_u32 w = be_bytes 4 (unat w)"
definition enc_count :: "nat \<Rightarrow> byte list" where "enc_count n = be_bytes 2 n"
definition enc_cstr :: "(string \<Rightarrow> byte list) \<Rightarrow> string \<Rightarrow> byte list" where "enc_cstr enc s = enc s @ [0]"

fun enc_cell :: "(string \<Rightarrow> byte list) \<Rightarrow> cell \<Rightarrow> byte list" where
  "enc_cell enc CNull = [110]"
| "enc_cell enc CUnchangedToast = [117]"
| "enc_cell enc (CText s) = 116 # be_bytes 4 (length (enc s)) @ enc s"

definition enc_tuple :: "(string \<Rightarrow> byte list) \<Rightarrow> tuple \<Rightarrow> byte list" where
  "enc_tuple enc t = enc_count (length t) @ concat (map (enc_cell enc) t)"

definition enc_column :: "(string \<Rightarrow> byte list) \<Rightarrow> rel_column \<Rightarrow> byte list" where
  "enc_column enc c =
     (if rl_key c then 1 else 0) # enc_cstr enc (rl_name c) @ enc_u32 (rl_type_oid c) @ enc_u32 (rl_typmod c)"

fun enc_old :: "(string \<Rightarrow> byte list) \<Rightarrow> old_tuple \<Rightarrow> byte list" where
  "enc_old enc (OldFull t) = 79 # enc_tuple enc t"
| "enc_old enc (OldKey t) = 75 # enc_tuple enc t"

fun encode :: "(string \<Rightarrow> byte list) \<Rightarrow> message \<Rightarrow> byte list" where
  "encode enc (MRelation rid ns nm ri cols) =
     82 # enc_u32 rid @ enc_cstr enc ns @ enc_cstr enc nm @ ri # enc_count (length cols) @ concat (map (enc_column enc) cols)"
| "encode enc (MInsert rid t) = 73 # enc_u32 rid @ 78 # enc_tuple enc t"
| "encode enc (MUpdate rid old t) =
     85 # enc_u32 rid @ (case old of None \<Rightarrow> [] | Some ot \<Rightarrow> enc_old enc ot) @ 78 # enc_tuple enc t"
| "encode enc (MDelete rid ot) = 68 # enc_u32 rid @ enc_old enc ot"
| "encode enc (MTruncate ids) = 84 # be_bytes 4 (length ids) @ 0 # concat (map enc_u32 ids)"
| "encode enc MIgnored = [89]"

section \<open>Reading what was encoded\<close>

text \<open>\<open>reads f bs x\<close>: on any input that starts with \<open>bs\<close>, \<open>f\<close> consumes exactly \<open>bs\<close> and returns \<open>x\<close>.\<close>

definition reads :: "'a reading \<Rightarrow> byte list \<Rightarrow> 'a \<Rightarrow> bool" where
  "reads f bs x \<longleftrightarrow> (\<forall>i c. f (i, bs @ c) = Ok (x, (i + length bs, c)))"

named_theorems reads_intros

lemma reads_return [reads_intros]: "reads (rd_return x) [] x"
  by (simp add: reads_def rd_return_def)

lemma reads_bind: "reads f b1 x \<Longrightarrow> reads (g x) b2 y \<Longrightarrow> reads (rd_bind f g) (b1 @ b2) y"
  by (simp add: reads_def rd_bind_def rbind_def add.assoc)

lemma reads_bind_last: "reads f b x \<Longrightarrow> reads (g x) [] y \<Longrightarrow> reads (rd_bind f g) b y"
  using reads_bind [of f b x g "[]" y] by simp

lemma reads_bind_cons: "reads f [b] x \<Longrightarrow> reads (g x) bs y \<Longrightarrow> reads (rd_bind f g) (b # bs) y"
  using reads_bind [of f "[b]" x g bs y] by simp

lemma reads_take [reads_intros]: "reads (rd_take (length bs)) bs bs"
  by (simp add: reads_def rd_take_def)

lemma reads_u8 [reads_intros]: "reads rd_u8 [b] b"
  unfolding rd_u8_def using reads_take [of "[b]"] by (intro reads_bind_last) (auto simp: reads_return)

lemma length_be_bytes [simp]: "length (be_bytes k n) = k"
  by (induction k arbitrary: n) auto

lemma be_nat_snoc: "be_nat (bs @ [b]) = be_nat bs * 256 + unat b"
  by (simp add: be_nat_def)

lemma be_nat_be_bytes: "be_nat (be_bytes k n) = n mod 256 ^ k"
proof (induction k arbitrary: n)
  case 0
  then show ?case by (simp add: be_nat_def)
next
  case (Suc k)
  have "be_nat (be_bytes (Suc k) n) = (n div 256) mod 256 ^ k * 256 + n mod 256"
    by (simp add: be_nat_snoc Suc.IH unat_of_nat)
  also have "\<dots> = n mod (256 * 256 ^ k)"
    by (simp add: mod_mult2_eq)
  finally show ?case by simp
qed

lemma reads_u32 [reads_intros]: "reads rd_u32 (enc_u32 w) w"
proof -
  have "unat w < 256 ^ 4" using unsigned_less [of w] by simp
  then have "word_of_nat (be_nat (enc_u32 w)) = w"
    by (simp add: enc_u32_def be_nat_be_bytes)
  moreover have "length (enc_u32 w) = 4" by (simp add: enc_u32_def)
  ultimately show ?thesis
    unfolding rd_u32_def using reads_take [of "enc_u32 w"]
    by (intro reads_bind_last) (auto simp: reads_return)
qed

lemma reads_i32 [reads_intros]: "reads rd_i32 (enc_u32 w) w"
  by (simp add: rd_i32_def reads_u32)

lemma reads_i16 [reads_intros]: "reads rd_i16 (enc_count n) (word_of_nat n)"
proof -
  have "word_of_nat (be_nat (enc_count n)) = (word_of_nat n :: 16 word)"
    by (simp add: enc_count_def be_nat_be_bytes word_of_nat_eq_iff take_bit_eq_mod)
  moreover have "length (enc_count n) = 2" by (simp add: enc_count_def)
  ultimately show ?thesis
    unfolding rd_i16_def using reads_take [of "enc_count n"]
    by (intro reads_bind_last) (auto simp: reads_return)
qed

lemma count_of_nat: "n < 2 ^ 15 \<Longrightarrow> count_of (word_of_nat n) = n"
  by (simp add: count_of_def signed_of_nat signed_take_bit_int_eq_self)

lemma sint_len: "n < 2 ^ 31 \<Longrightarrow> sint (word_of_nat n :: 32 word) = int n"
  by (simp add: signed_of_nat signed_take_bit_int_eq_self)

lemma reads_len:
  assumes "n < 2 ^ 32"
  shows "reads rd_u32 (be_bytes 4 n) (word_of_nat n)"
  using reads_u32 [of "word_of_nat n"] assms by (simp add: enc_u32_def unat_of_nat)

lemma split_nul_append: "0 \<notin> set s \<Longrightarrow> split_nul (s @ 0 # c) = Some (s, c)"
  by (induction s) auto

lemma reads_times:
  assumes "\<And>x. x \<in> set xs \<Longrightarrow> reads f (e x) x"
  shows "reads (rd_times (length xs) f) (concat (map e xs)) xs"
  using assms
proof (induction xs)
  case Nil
  then show ?case by (simp add: reads_return)
next
  case (Cons x xs)
  have "reads (rd_times (length xs) f) (concat (map e xs)) xs" using Cons by simp
  then have "reads (rd_bind (rd_times (length xs) f) (\<lambda>xs. rd_return (x # xs))) (concat (map e xs)) (x # xs)"
    by (rule reads_bind_last) (rule reads_return)
  with Cons.prems [of x] show ?case by (auto intro: reads_bind)
qed

section \<open>The round trip\<close>

text \<open>What the protocol guarantees of a message: counts and lengths fit their signed fields and names have
  no zero byte.\<close>

definition wf_name :: "(string \<Rightarrow> byte list) \<Rightarrow> (byte list \<Rightarrow> string) \<Rightarrow> string \<Rightarrow> bool" where
  "wf_name enc lossy s \<longleftrightarrow> 0 \<notin> set (enc s) \<and> lossy (enc s) = s"

fun wf_cell :: "(string \<Rightarrow> byte list) \<Rightarrow> (byte list \<Rightarrow> string) \<Rightarrow> cell \<Rightarrow> bool" where
  "wf_cell enc lossy (CText s) \<longleftrightarrow> length (enc s) < 2 ^ 31 \<and> lossy (enc s) = s"
| "wf_cell enc lossy _ \<longleftrightarrow> True"

definition wf_tuple :: "(string \<Rightarrow> byte list) \<Rightarrow> (byte list \<Rightarrow> string) \<Rightarrow> tuple \<Rightarrow> bool" where
  "wf_tuple enc lossy t \<longleftrightarrow> length t < 2 ^ 15 \<and> list_all (wf_cell enc lossy) t"

fun wf_old :: "(string \<Rightarrow> byte list) \<Rightarrow> (byte list \<Rightarrow> string) \<Rightarrow> old_tuple \<Rightarrow> bool" where
  "wf_old enc lossy (OldFull t) \<longleftrightarrow> wf_tuple enc lossy t"
| "wf_old enc lossy (OldKey t) \<longleftrightarrow> wf_tuple enc lossy t"

fun wf_message :: "(string \<Rightarrow> byte list) \<Rightarrow> (byte list \<Rightarrow> string) \<Rightarrow> message \<Rightarrow> bool" where
  "wf_message enc lossy (MRelation rid ns nm ri cols) \<longleftrightarrow>
     wf_name enc lossy ns \<and> wf_name enc lossy nm \<and> length cols < 2 ^ 15 \<and> list_all (\<lambda>c. wf_name enc lossy (rl_name c)) cols"
| "wf_message enc lossy (MInsert rid t) \<longleftrightarrow> wf_tuple enc lossy t"
| "wf_message enc lossy (MUpdate rid old t) \<longleftrightarrow> pred_option (wf_old enc lossy) old \<and> wf_tuple enc lossy t"
| "wf_message enc lossy (MDelete rid ot) \<longleftrightarrow> wf_old enc lossy ot"
| "wf_message enc lossy (MTruncate ids) \<longleftrightarrow> length ids < 2 ^ 32"
| "wf_message enc lossy MIgnored \<longleftrightarrow> True"

lemma reads_cstr [reads_intros]: "wf_name enc lossy s \<Longrightarrow> reads (rd_cstr lossy) (enc_cstr enc s) s"
  by (simp add: reads_def rd_cstr_def enc_cstr_def wf_name_def split_nul_append)

lemma reads_cell [reads_intros]: "wf_cell enc lossy c \<Longrightarrow> reads (rd_cell lossy) (enc_cell enc c) c"
proof (cases c)
  case (CText s)
  assume wf: "wf_cell enc lossy c"
  then have len: "length (enc s) < 2 ^ 31" and ls: "lossy (enc s) = s" by (simp_all add: CText)
  have "reads (rd_bind (rd_take (length (enc s))) (\<lambda>bs. rd_return (CText (lossy bs)))) (enc s) (CText s)"
    by (rule reads_bind_last [OF reads_take]) (simp add: ls reads_return)
  moreover have "reads rd_i32 (be_bytes 4 (length (enc s))) (word_of_nat (length (enc s)))"
    unfolding rd_i32_def using len by (intro reads_len) simp
  ultimately have "reads (rd_bind rd_i32 (\<lambda>len. if sint len < 0 then rd_fail NegativeLength
      else rd_bind (rd_take (nat (sint len))) (\<lambda>bs. rd_return (CText (lossy bs)))))
    (be_bytes 4 (length (enc s)) @ enc s) (CText s)"
    using len by (intro reads_bind) (auto simp: sint_len)
  then show ?thesis unfolding rd_cell_def by (auto simp: CText intro!: reads_bind_cons [OF reads_u8])
qed (auto simp: rd_cell_def intro!: reads_bind_last [OF reads_u8] reads_return)

lemma reads_tuple [reads_intros]: "wf_tuple enc lossy t \<Longrightarrow> reads (rd_tuple lossy) (enc_tuple enc t) t"
  unfolding rd_tuple_def enc_tuple_def wf_tuple_def
  by (intro reads_bind [OF reads_i16]) (auto simp: count_of_nat list_all_iff intro!: reads_times reads_cell)

lemma reads_column:
  assumes "wf_name enc lossy (rl_name c)"
  shows "reads (rd_column lossy) (enc_column enc c) c"
proof -
  have "reads (rd_return \<lparr>rl_name = rl_name c, rl_type_oid = rl_type_oid c, rl_typmod = rl_typmod c, rl_key = k\<rparr>) [] c"
    if "k = rl_key c" for k using that reads_return [of c] by (cases c) simp
  then show ?thesis
    unfolding rd_column_def enc_column_def
    by (intro reads_bind_cons [OF reads_u8] reads_bind [OF reads_cstr [OF assms]] reads_bind [OF reads_u32]
        reads_bind_last [OF reads_i32]) auto
qed

lemma reads_relation:
  assumes "wf_message enc lossy (MRelation rid ns nm ri cols)"
  shows "reads (rd_relation lossy)
    (enc_u32 rid @ enc_cstr enc ns @ enc_cstr enc nm @ ri # enc_count (length cols) @ concat (map (enc_column enc) cols))
    (MRelation rid ns nm ri cols)"
proof -
  have "reads (rd_times (count_of (word_of_nat (length cols))) (rd_column lossy)) (concat (map (enc_column enc) cols)) cols"
    using assms by (auto simp: count_of_nat list_all_iff intro!: reads_times reads_column)
  with assms show ?thesis
    unfolding rd_relation_def
    by (intro reads_bind [OF reads_u32] reads_bind [OF reads_cstr] reads_bind_cons [OF reads_u8]
        reads_bind [OF reads_i16] reads_bind_last [OF _ reads_return]) auto
qed

lemma reads_new_tuple: "wf_tuple enc lossy t \<Longrightarrow> reads (rd_bind rd_u8 (rd_new_tuple lossy rid old)) (78 # enc_tuple enc t) (MUpdate rid old t)"
  unfolding rd_new_tuple_def
  by (auto intro!: reads_bind_cons [OF reads_u8] reads_bind_last [OF reads_tuple] reads_return)

lemma reads_update:
  assumes "wf_message enc lossy (MUpdate rid old t)"
  shows "reads (rd_update lossy) (enc_u32 rid @ (case old of None \<Rightarrow> [] | Some ot \<Rightarrow> enc_old enc ot) @ 78 # enc_tuple enc t)
           (MUpdate rid old t)"
proof (cases old)
  case None
  then show ?thesis using assms unfolding rd_update_def
    by (auto simp: rd_new_tuple_def intro!: reads_bind [OF reads_u32] reads_bind_cons [OF reads_u8] reads_bind_last [OF reads_tuple] reads_return)
next
  case (Some ot)
  then show ?thesis using assms unfolding rd_update_def
    by (cases ot) (auto intro!: reads_bind [OF reads_u32] reads_bind_cons [OF reads_u8] reads_bind [OF reads_tuple] reads_new_tuple)
qed

lemma reads_message: "wf_message enc lossy m \<Longrightarrow> reads (rd_message lossy) (encode enc m) m"
proof (induction enc lossy m rule: wf_message.induct)
  case (2 enc lossy rid t)
  then show ?case
    by (auto simp: rd_message_def rd_insert_def intro!: reads_bind_cons [OF reads_u8] reads_bind [OF reads_u32]
        reads_bind_last [OF reads_tuple] reads_return)
next
  case (4 enc lossy rid ot)
  then show ?case
    by (cases ot) (auto simp: rd_message_def rd_delete_def intro!: reads_bind_cons [OF reads_u8] reads_bind [OF reads_u32]
        reads_bind_last [OF reads_tuple] reads_return)
next
  case (5 enc lossy ids)
  then have "reads (rd_times (unat (word_of_nat (length ids) :: 32 word)) rd_u32) (concat (map enc_u32 ids)) ids"
    by (auto simp: unat_of_nat intro!: reads_times reads_u32)
  with 5 show ?case
    by (auto simp: rd_message_def rd_truncate_def intro!: reads_bind_cons [OF reads_u8] reads_bind [OF reads_len]
        reads_bind_last [OF _ reads_return])
qed (auto simp: rd_message_def intro!: reads_bind_cons [OF reads_u8] reads_relation reads_update reads_bind_last [OF reads_u8] reads_return)

text \<open>C25: the decoder inverts the protocol's encoding: every well-formed message, old tuples, unchanged
  columns, null cells and truncations included, decodes from its bytes to itself.\<close>

theorem decode_encode:
  assumes "wf_message enc lossy m"
  shows "decode lossy (encode enc m) = Ok m"
  using reads_message [OF assms, unfolded reads_def, rule_format, of 0 "[]"] by (simp add: decode_def)

text \<open>The ASCII codec, with which the hypotheses hold.\<close>

definition ascii_enc :: "string \<Rightarrow> byte list" where "ascii_enc s = map (\<lambda>c. word_of_nat (of_char c)) s"
definition ascii_dec :: "byte list \<Rightarrow> string" where "ascii_dec bs = map (\<lambda>b. char_of (unat b)) bs"

definition ex_update :: message where
  "ex_update = MUpdate 16385 (Some (OldKey [CText ''7'', CNull])) [CText ''7'', CUnchangedToast]"

theorem decode_encode_witness:
  "decode ascii_dec (encode ascii_enc ex_update) = Ok ex_update \<and> length (encode ascii_enc ex_update) = 25"
proof
  have "wf_message ascii_enc ascii_dec ex_update"
    by (simp add: ex_update_def wf_tuple_def ascii_enc_def ascii_dec_def char_of_def bit_Suc_0_iff)
  then show "decode ascii_dec (encode ascii_enc ex_update) = Ok ex_update" by (rule decode_encode)
  show "length (encode ascii_enc ex_update) = 25"
    by (simp add: ex_update_def enc_tuple_def enc_u32_def enc_count_def ascii_enc_def)
qed

section \<open>Truncated input\<close>

text \<open>A reader is local when bytes after those it consumed do not change what it returns.\<close>

definition localr :: "'a reading \<Rightarrow> bool" where
  "localr f \<longleftrightarrow> (\<forall>i b x j r c. f (i, b) = Ok (x, (j, r)) \<longrightarrow> f (i, b @ c) = Ok (x, (j, r @ c)))"

named_theorems local_intros

lemma local_return [local_intros]: "localr (rd_return x)" by (simp add: localr_def rd_return_def)
lemma local_fail [local_intros]: "localr (rd_fail e)" by (simp add: localr_def rd_fail_def)

lemma local_bind [local_intros]:
  assumes "localr f" and "\<And>x. localr (g x)"
  shows "localr (rd_bind f g)"
  using assms unfolding localr_def rd_bind_def rbind_def
  by (auto split: sum.splits prod.splits; fastforce)

lemma local_take [local_intros]: "localr (rd_take n)" by (auto simp: localr_def rd_take_def split: if_splits)

lemma split_nul_more: "split_nul b = Some (s, r) \<Longrightarrow> split_nul (b @ c) = Some (s, r @ c)"
  by (induction b arbitrary: s) (auto split: if_splits)

lemma local_cstr [local_intros]: "localr (rd_cstr lossy)"
  by (auto simp: localr_def rd_cstr_def split_nul_more split: option.splits)

lemma local_times [local_intros]: "localr f \<Longrightarrow> localr (rd_times n f)"
  by (induction n) (auto intro!: local_intros)

lemma local_if [local_intros]: "localr f \<Longrightarrow> localr g \<Longrightarrow> localr (if b then f else g)" by simp

lemma local_message: "localr (rd_message lossy)"
  unfolding rd_message_def rd_relation_def rd_insert_def rd_update_def rd_delete_def rd_truncate_def rd_new_tuple_def
    rd_tuple_def rd_cell_def rd_column_def rd_i32_def rd_u8_def rd_i16_def rd_u32_def
  by (intro local_intros)

text \<open>A message cut short anywhere is rejected: the decoder returns an error, and never a shorter
  message, on every strict prefix of the bytes of a well-formed message.\<close>

theorem decode_rejects_prefix:
  assumes wf: "wf_message enc lossy m" and cut: "encode enc m = p @ q" and ne: "q \<noteq> []"
  shows "\<exists>e. decode lossy p = Err e"
proof (cases "rd_message lossy (0, p)")
  case (Inr y)
  obtain m' j r where y: "y = (m', (j, r))" by (cases y) auto
  have "rd_message lossy (0, p @ q) = Ok (m', (j, r @ q))"
    using local_message [of lossy] Inr y unfolding localr_def by blast
  moreover have "rd_message lossy (0, p @ q) = Ok (m, (length (encode enc m), []))"
    using reads_message [OF wf, unfolded reads_def, rule_format, of 0 "[]"] by (simp add: cut)
  ultimately show ?thesis using ne by simp
next
  case (Inl e)
  then show ?thesis by (simp add: decode_def rbind_def)
qed

theorem decode_rejects_prefix_witness:
  "(\<exists>e. decode ascii_dec (take 24 (encode ascii_enc ex_update)) = Err e)"
proof -
  have "wf_message ascii_enc ascii_dec ex_update"
    by (simp add: ex_update_def wf_tuple_def ascii_enc_def ascii_dec_def char_of_def bit_Suc_0_iff)
  moreover have "drop 24 (encode ascii_enc ex_update) \<noteq> []"
    by (simp add: ex_update_def enc_tuple_def enc_u32_def enc_count_def ascii_enc_def)
  ultimately show ?thesis
    using decode_rejects_prefix [of ascii_enc ascii_dec ex_update "take 24 (encode ascii_enc ex_update)"
        "drop 24 (encode ascii_enc ex_update)"] by simp
qed

end
