(* ===== verification/Replication.thy ===== *)
theory Replication
  imports PgOutput TxnBuffer Sequencer
begin

text \<open>
  The replication ingestor (\<^verbatim>\<open>apps/engine/src/replication.rs\<close>): envelopes from decoded messages, the
  relation metadata of a connection, one connection's loop from the slot to the change log, and the
  reconnect schedule. The schema handlers the ingestor reports to, the change log and the answers of
  the replication client are arguments; a client event carries what the client parsed of it.
\<close>

section \<open>Reconnecting\<close>

text \<open>Durations are milliseconds.\<close>

definition RECONNECT_MIN :: nat where "RECONNECT_MIN = 1000"
definition RECONNECT_MAX :: nat where "RECONNECT_MAX = 30000"

definition backoff_base :: "nat \<Rightarrow> nat" where
  "backoff_base attempt = min (RECONNECT_MIN * 2 ^ min attempt 16) RECONNECT_MAX"

definition jitter :: "nat \<Rightarrow> nat \<Rightarrow> nat" where
  "jitter base nanos =
     (let spread = base div 2 in
      if spread = 0 then base else (base - spread div 2) + nanos mod spread)"

definition next_backoff :: "nat \<Rightarrow> bool \<Rightarrow> nat \<times> nat" where
  "next_backoff attempt delivered =
     (let a = (if delivered then 0 else attempt) in (backoff_base a, min (a + 1) u32_max))"

section \<open>Tables of the ingestor's own\<close>

definition own_table :: "string \<Rightarrow> table_ref" where
  "own_table nm = \<lparr>canon = ''public.'' @ nm, dot = 6\<rparr>"

definition sync_table :: table_ref where "sync_table = own_table ''__el_sync''"
definition source_fence_table :: table_ref where "source_fence_table = own_table ''circuits_source_fence''"
definition marker_table :: table_ref where "marker_table = own_table ''native_sync_authority_fence''"

section \<open>Envelopes from messages\<close>

definition text_to_json :: "f64_ops \<Rightarrow> string \<Rightarrow> column_type \<Rightarrow> json" where
  "text_to_json F s ty =
     (case ty of
        TInt \<Rightarrow> (case parse_i64 s of Some i \<Rightarrow> JNum (NInt i) | None \<Rightarrow> JNull)
      | TFloat \<Rightarrow> (case f64_parse F s of Some f \<Rightarrow> json_of_f64 f | None \<Rightarrow> JNull)
      | TBool \<Rightarrow> if s = ''t'' \<or> s = ''true'' then JBool True else if s = ''f'' \<or> s = ''false'' then JBool False else JNull
      | TText \<Rightarrow> JStr s)"

definition tuple_step :: "f64_ops \<Rightarrow> tschema \<Rightarrow> cell \<times> string \<Rightarrow> (string \<times> json) list \<Rightarrow> (string \<times> json) list" where
  "tuple_step F ts cn m =
     (case cn of (c, name) \<Rightarrow>
        (case ts_index ts name of
           None \<Rightarrow> m
         | Some i \<Rightarrow>
             (case c of
                CUnchangedToast \<Rightarrow> m
              | CNull \<Rightarrow> AList.update name JNull m
              | CText s \<Rightarrow> AList.update name (text_to_json F s (snd (ts_columns ts ! i))) m)))"

definition tuple_to_map :: "f64_ops \<Rightarrow> tuple \<Rightarrow> string list \<Rightarrow> tschema \<Rightarrow> (string \<times> json) list" where
  "tuple_to_map F t columns ts = fold (tuple_step F ts) (zip t columns) []"

definition key_part :: "f64_ops \<Rightarrow> tschema \<Rightarrow> json \<Rightarrow> string \<Rightarrow> string" where
  "key_part F ts obj name =
     (case obj_get obj name of
        None \<Rightarrow> ''null''
      | Some JNull \<Rightarrow> ''null''
      | Some (JStr s) \<Rightarrow> s
      | Some (JNum n) \<Rightarrow>
          (case as_f64 F (JNum n) of
             Some f \<Rightarrow> if (case ts_index ts name of Some i \<Rightarrow> snd (ts_columns ts ! i) = TFloat | None \<Rightarrow> False)
                       then f64_show F f else json_to_string F (JNum n)
           | None \<Rightarrow> json_to_string F (JNum n))
      | Some (JBool b) \<Rightarrow> if b then ''true'' else ''false''
      | Some v \<Rightarrow> json_to_string F v)"

definition key_from_obj :: "f64_ops \<Rightarrow> json \<Rightarrow> tschema \<Rightarrow> string" where
  "key_from_obj F obj ts =
     (if length (ts_pk_cols ts) = 1 then key_part F ts obj (ts_pk_name ts)
      else join_key_components (map (\<lambda>i. key_part F ts obj (fst (ts_columns ts ! i))) (ts_pk_cols ts)))"

definition make_env :: "f64_ops \<Rightarrow> table_ref \<Rightarrow> tschema \<Rightarrow> string \<Rightarrow> json option \<Rightarrow> json option \<Rightarrow> json \<Rightarrow> envelope" where
  "make_env F table ts op v ol key_src =
     \<lparr>e_type = table_as_str table, e_key = key_from_obj F key_src ts, e_value = v, e_old = ol,
      e_headers = \<lparr>h_operation = op, h_txid = None, h_offset = None, h_lsn = None, h_seq = None, h_last = None\<rparr>\<rparr>"

text \<open>\<open>entry(k).or_insert_with(v)\<close> for each column of the old image.\<close>

definition fill_from :: "(string \<times> json) list \<Rightarrow> (string \<times> json) list \<Rightarrow> (string \<times> json) list" where
  "fill_from om nm = fold (\<lambda>(k, v) m. if map_of m k = None then AList.update k v m else m) om nm"

definition build_envelope :: "f64_ops \<Rightarrow> table_ref \<Rightarrow> tschema \<Rightarrow> string list \<Rightarrow> message \<Rightarrow> envelope option" where
  "build_envelope F table ts columns msg =
     (case msg of
        MInsert _ new \<Rightarrow>
          (let n = JObj (tuple_to_map F new columns ts) in Some (make_env F table ts ''insert'' (Some n) None n))
      | MUpdate _ ol new \<Rightarrow>
          (let old_map = (case ol of Some (OldFull t) \<Rightarrow> Some (tuple_to_map F t columns ts) | _ \<Rightarrow> None);
               new_map = tuple_to_map F new columns ts;
               n = JObj (case old_map of Some om \<Rightarrow> fill_from om new_map | None \<Rightarrow> new_map)
           in Some (make_env F table ts ''update'' (Some n) (map_option JObj old_map) n))
      | MDelete _ ol \<Rightarrow>
          (case ol of
             OldFull t \<Rightarrow> (let p = JObj (tuple_to_map F t columns ts) in Some (make_env F table ts ''delete'' None (Some p) p))
           | OldKey _ \<Rightarrow> None)
      | _ \<Rightarrow> None)"

section \<open>The decoder of a connection\<close>

record rel_meta =
  rm_table :: "table_ref option"
  rm_columns :: "string list"

datatype decoded = DEnv envelope | DSync int | DNone

record decoder =
  dec_incarnation :: "string option"
  dec_rels :: "32 word \<Rightarrow> rel_meta option"

definition decoder_new :: decoder where
  "decoder_new = \<lparr>dec_incarnation = None, dec_rels = Map.empty\<rparr>"

text \<open>The engine behind the ingestor: the live view of the schemas and the two handlers, on its state.\<close>

record 'e schema_events =
  se_tables :: "'e \<Rightarrow> table_ref \<Rightarrow> tschema option"
  se_drift :: "table_ref \<Rightarrow> schema_fingerprint \<Rightarrow> nat option \<Rightarrow> 'e \<Rightarrow> 'e"
  se_truncate :: "table_ref list \<Rightarrow> nat option \<Rightarrow> 'e \<Rightarrow> 'e"

definition observed_fingerprint :: "byte \<Rightarrow> rel_column list \<Rightarrow> schema_fingerprint" where
  "observed_fingerprint ri columns =
     \<lparr>fp_columns = map (\<lambda>c. \<lparr>fc_name = rl_name c, type_oid = unat (rl_type_oid c), typmod = sint (rl_typmod c)\<rparr>) columns,
      replident = char_of (unat ri), fp_pk = None\<rparr>"

definition on_relation ::
  "'e schema_events \<Rightarrow> nat option \<Rightarrow> 32 word \<Rightarrow> string \<Rightarrow> string \<Rightarrow> byte \<Rightarrow> rel_column list \<Rightarrow> decoder \<times> 'e \<Rightarrow> decoder \<times> 'e" where
  "on_relation ev txn rel_id namespace name ri columns st =
     (case st of (dec, e) \<Rightarrow>
        (let table = (case table_new namespace name of Inl _ \<Rightarrow> None | Inr t \<Rightarrow> Some t);
             observed = observed_fingerprint ri columns;
             dec' = dec\<lparr>dec_rels := (dec_rels dec)(rel_id \<mapsto> \<lparr>rm_table = table, rm_columns = column_names observed\<rparr>)\<rparr>
         in (dec',
             case table of
               None \<Rightarrow> e
             | Some t \<Rightarrow>
                 (case Option.bind (se_tables ev e t) ts_fingerprint of
                    Some compiled \<Rightarrow> if still_serves compiled observed then e else se_drift ev t observed txn e
                  | None \<Rightarrow> e))))"

definition on_truncate :: "'e schema_events \<Rightarrow> nat option \<Rightarrow> 32 word list \<Rightarrow> decoder \<times> 'e \<Rightarrow> 'e" where
  "on_truncate ev txn rel_ids st =
     (case st of (dec, e) \<Rightarrow>
        (let tables = filter (\<lambda>t. t \<noteq> sync_table \<and> t \<noteq> source_fence_table \<and> t \<noteq> marker_table \<and> se_tables ev e t \<noteq> None)
                        (List.map_filter (\<lambda>i. Option.bind (dec_rels dec i) rm_table) rel_ids)
         in if tables = [] then e else se_truncate ev tables txn e))"

fun position :: "'a \<Rightarrow> 'a list \<Rightarrow> nat option" where
  "position x [] = None"
| "position x (y # ys) = (if y = x then Some 0 else map_option Suc (position x ys))"

definition cell_text :: "rel_meta \<Rightarrow> tuple \<Rightarrow> string \<Rightarrow> string option" where
  "cell_text rel t name =
     Option.bind (position name (rm_columns rel)) (\<lambda>i.
       case get_at t i of Some (CText s) \<Rightarrow> Some s | _ \<Rightarrow> None)"

definition new_image :: "message \<Rightarrow> tuple option" where
  "new_image msg = (case msg of MInsert _ n \<Rightarrow> Some n | MUpdate _ _ n \<Rightarrow> Some n | _ \<Rightarrow> None)"

definition runtime_fence_envelope :: "(string \<Rightarrow> string option) \<Rightarrow> rel_meta \<Rightarrow> message \<Rightarrow> string \<Rightarrow> envelope option" where
  "runtime_fence_envelope uuid_canon rel msg incarnation =
     Option.bind (new_image msg) (\<lambda>t.
     Option.bind (cell_text rel t ''source_commit_id'') (\<lambda>s. Option.bind (cell_text rel t ''user_id'') (\<lambda>u.
     Option.bind (cell_text rel t ''generation'') (\<lambda>g.
       map_option (\<lambda>mk. into_envelope \<lparr>rf_marker = mk, rf_incarnation = incarnation\<rparr>) (marker_parse uuid_canon s u g)))))"

definition source_fence_envelope :: "(string \<Rightarrow> string option) \<Rightarrow> rel_meta \<Rightarrow> message \<Rightarrow> envelope option" where
  "source_fence_envelope uuid_canon rel msg =
     Option.bind (new_image msg) (\<lambda>t. Option.bind (cell_text rel t ''source_commit_id'') (\<lambda>s.
       if uuid_canon s = Some s
       then Some \<lparr>e_type = SOURCE_FENCE_ENVELOPE, e_key = s, e_value = None, e_old = None,
              e_headers = \<lparr>h_operation = ''source_fence'', h_txid = None, h_offset = None, h_lsn = None, h_seq = None, h_last = None\<rparr>\<rparr>
       else None))"

definition sync_counter :: "rel_meta \<Rightarrow> tuple \<Rightarrow> int option" where
  "sync_counter rel t = Option.bind (cell_text rel t ''n'') parse_i64"

definition message_rel :: "message \<Rightarrow> 32 word option" where
  "message_rel msg = (case msg of MInsert r _ \<Rightarrow> Some r | MUpdate r _ _ \<Rightarrow> Some r | MDelete r _ \<Rightarrow> Some r | _ \<Rightarrow> None)"

definition env_or_none :: "envelope option \<Rightarrow> decoded" where
  "env_or_none r = (case r of Some e \<Rightarrow> DEnv e | None \<Rightarrow> DNone)"

definition on_change ::
  "f64_ops \<Rightarrow> (string \<Rightarrow> string option) \<Rightarrow> (table_ref \<Rightarrow> tschema option) \<Rightarrow> decoder \<Rightarrow> message \<Rightarrow> decoded" where
  "on_change F uuid_canon tables dec msg =
     (case message_rel msg of
        None \<Rightarrow> DNone
      | Some rel_id \<Rightarrow>
          (case dec_rels dec rel_id of
             None \<Rightarrow> DNone
           | Some rel \<Rightarrow>
               (case rm_table rel of
                  None \<Rightarrow> DNone
                | Some table \<Rightarrow>
                    if table = sync_table then
                      (case Option.bind (new_image msg) (sync_counter rel) of Some n \<Rightarrow> DSync n | None \<Rightarrow> DNone)
                    else if table = marker_table then
                      env_or_none (Option.bind (dec_incarnation dec) (runtime_fence_envelope uuid_canon rel msg))
                    else if table = source_fence_table then env_or_none (source_fence_envelope uuid_canon rel msg)
                    else (case tables table of
                            None \<Rightarrow> DNone
                          | Some ts \<Rightarrow> env_or_none (build_envelope F table ts (rm_columns rel) msg)))))"

section \<open>One connection\<close>

text \<open>The chunks of a commit, appended in order; \<open>app\<close> is the change log's operation at a given time.\<close>

lemma td_left_pending:
  "take_next IO td = (td1, Inr (Some x)) \<Longrightarrow> td_left (td1\<lparr>td_pending := Some y\<rparr>) \<le> td_left td"
  by (auto simp: take_next_def next_stamped_def td_left_def dest!: td_left_next_raw split: option.splits prod.splits sum.splits)

lemma td_left_none: "take_next IO td = (td1, Inr None) \<Longrightarrow> td_left td1 \<le> td_left td"
  by (auto simp: take_next_def next_stamped_def next_raw_def td_left_def split: option.splits prod.splits sum.splits if_splits)

lemma chunk_loop_left: "chunk_loop IO td chunk body = (td', Inr c) \<Longrightarrow> td_left td' \<le> td_left td"
proof (induction IO td chunk body rule: chunk_loop.induct)
  case (1 IO td chunk body)
  obtain td1 r where t: "take_next IO td = (td1, r)" by fastforce
  show ?case
  proof (cases r)
    case (Inl e)
    with t 1(2) show ?thesis by (subst (asm) chunk_loop.simps) simp
  next
    case (Inr o1)
    show ?thesis
    proof (cases o1)
      case None
      with t Inr 1(2) have "td' = td1\<lparr>td_exhausted := True\<rparr>" by (subst (asm) chunk_loop.simps) simp
      with td_left_none [of IO td td1] t Inr None show ?thesis by (simp add: td_left_def cong: option.case_cong)
    next
      case (Some x)
      obtain env len where x: "x = (env, len)" by (cases x)
      let ?cost = "len + STAMP_BYTES + (if chunk = [] then 0 else 1)"
      note tk = t [unfolded Inr Some x]
      show ?thesis
      proof (cases "chunk \<noteq> [] \<and> body + ?cost > td_budget td1")
        case True
        with 1(2) tk have "td' = td1\<lparr>td_pending := Some (env, len)\<rparr>"
          by (subst (asm) chunk_loop.simps) (auto simp: Let_def split: if_splits)
        with td_left_pending [OF tk] show ?thesis by simp
      next
        case False
        with 1(2) tk have rec: "chunk_loop IO td1 (chunk @ [env]) (body + ?cost) = (td', Inr c)"
          by (subst (asm) chunk_loop.simps) (auto simp: Let_def)
        have "td_left td' \<le> td_left td1" using 1(1) [OF tk [symmetric] refl refl refl refl False rec] .
        with td_left_take_next [OF tk] show ?thesis by simp
      qed
    qed
  qed
qed

lemma next_chunk_left:
  assumes "next_chunk IO td = (td1, Inr (Some chunk))"
  shows "td_left td1 < td_left td"
proof -
  from assms obtain c0 where c0: "chunk_loop IO td [] 2 = (td1, Inr c0)" "c0 \<noteq> []"
    by (auto simp: next_chunk_def mark_last_def Let_def split: prod.splits sum.splits if_splits)
  obtain td2 r where t: "take_next IO td = (td2, r)" by fastforce
  show ?thesis
  proof (cases "\<exists>env len. r = Inr (Some (env, len))")
    case True
    then obtain env len where r: "r = Inr (Some (env, len))" by blast
    with c0 t have "chunk_loop IO td2 [env] (2 + (len + STAMP_BYTES)) = (td1, Inr c0)"
      by (subst (asm) chunk_loop.simps) (simp add: Let_def)
    from chunk_loop_left [OF this] td_left_take_next [OF t [unfolded r]] show ?thesis by simp
  next
    case False
    with c0 t have False by (subst (asm) chunk_loop.simps) (auto split: sum.splits option.splits)
    then show ?thesis ..
  qed
qed

function append_chunks ::
  "(envelope list \<Rightarrow> 'l \<Rightarrow> 'l \<times> unit result) \<Rightarrow> txn_io \<Rightarrow> txn_drain \<Rightarrow> nat \<Rightarrow> 'l \<Rightarrow> 'l \<times> nat result" where
  "append_chunks app IO td n l =
     (case next_chunk IO td of
        (td1, Inl e) \<Rightarrow> (l, Err e)
      | (td1, Inr None) \<Rightarrow> (l, Ok n)
      | (td1, Inr (Some chunk)) \<Rightarrow>
          (case app chunk l of
             (l1, Inl e) \<Rightarrow> (l1, Err e)
           | (l1, Inr _) \<Rightarrow> append_chunks app IO td1 (n + 1) l1))"
  by auto
termination
  by (relation "measure (\<lambda>(app, IO, td, n, l). td_left td)") (auto intro: next_chunk_left [OF sym])

declare append_chunks.simps [simp del]

definition commit_stamp :: "string \<Rightarrow> nat \<Rightarrow> stamp_t" where
  "commit_stamp lsn xid = \<lparr>st_lsn = lsn, st_txid = show_nat xid\<rparr>"

definition append_commit_chunked ::
  "(envelope list \<Rightarrow> 'l \<Rightarrow> 'l \<times> unit result) \<Rightarrow> txn_io \<Rightarrow> txn_buffer \<Rightarrow> string \<Rightarrow> 'l \<Rightarrow> 'l \<times> nat result" where
  "append_commit_chunked app IO buf commit_lsn l =
     append_chunks app IO (txn_drain_of (commit_stamp commit_lsn (tb_xid buf)) buf) 0 l"

datatype repl_event = EvBegin nat | EvXLogData "byte list" | EvCommit string nat | EvKeepAlive nat | EvOther

datatype stream_end = Ended | ShuttingDown

text \<open>What a connection runs in, and its state. \<open>ig_acked\<close> are the calls of \<open>update_applied_lsn\<close>.\<close>

record ('l, 'e) ingest_env =
  ie_f64 :: f64_ops
  ie_uuid :: "string \<Rightarrow> string option"
  ie_lossy :: "byte list \<Rightarrow> string"
  ie_events :: "'e schema_events"
  ie_io :: txn_io
  ie_cfg :: txn_buffer_config
  ie_append :: "nat \<Rightarrow> envelope list \<Rightarrow> 'l \<Rightarrow> 'l \<times> unit result"
  ie_rotate :: "nat \<Rightarrow> 'l \<Rightarrow> 'l"

record ('l, 'e) ingest =
  ig_txn :: "txn_buffer option"
  ig_dec :: decoder
  ig_engine :: 'e
  ig_log :: 'l
  ig_acked :: "nat list"
  ig_last_lsn :: string
  ig_sync_seq :: int
  ig_connected :: bool

definition keepalive_ack_lsn :: "bool \<Rightarrow> nat \<Rightarrow> nat option" where
  "keepalive_ack_lsn transaction_open wal_end = (if transaction_open then None else Some wal_end)"

definition on_data :: "('l, 'e) ingest_env \<Rightarrow> byte list \<Rightarrow> ('l, 'e) ingest \<Rightarrow> ('l, 'e) ingest \<times> unit result" where
  "on_data env bytes st =
     (case decode (ie_lossy env) bytes of
        Inl e \<Rightarrow> (st, Err e)
      | Inr msg \<Rightarrow>
          (let txn = map_option tb_xid (ig_txn st) in
           case msg of
             MRelation rel_id namespace name ri columns \<Rightarrow>
               (case on_relation (ie_events env) txn rel_id namespace name ri columns (ig_dec st, ig_engine st) of
                  (dec, e) \<Rightarrow> (st\<lparr>ig_dec := dec, ig_engine := e\<rparr>, Ok ()))
           | MTruncate rel_ids \<Rightarrow>
               (st\<lparr>ig_engine := on_truncate (ie_events env) txn rel_ids (ig_dec st, ig_engine st)\<rparr>, Ok ())
           | _ \<Rightarrow>
               (case ig_txn st of
                  None \<Rightarrow> (st, Ok ())
                | Some t \<Rightarrow>
                    (case on_change (ie_f64 env) (ie_uuid env) (se_tables (ie_events env) (ig_engine st)) (ig_dec st) msg of
                       DEnv e \<Rightarrow> (case txn_push (ie_io env) e (length bytes) t of
                                   Inl er \<Rightarrow> (st, Err er)
                                 | Inr t' \<Rightarrow> (st\<lparr>ig_txn := Some t'\<rparr>, Ok ()))
                     | DSync n \<Rightarrow> (st\<lparr>ig_txn := Some (set_sync n t)\<rparr>, Ok ())
                     | DNone \<Rightarrow> (st, Ok ())))))"

definition on_commit :: "('l, 'e) ingest_env \<Rightarrow> nat \<Rightarrow> string \<Rightarrow> nat \<Rightarrow> ('l, 'e) ingest \<Rightarrow> ('l, 'e) ingest \<times> unit result" where
  "on_commit env now commit_lsn end_lsn st =
     (case ig_txn st of
        None \<Rightarrow> (st, Ok ())
      | Some t \<Rightarrow>
          (case append_commit_chunked (ie_append env now) (ie_io env) t commit_lsn (ig_log st) of
             (l, Inl e) \<Rightarrow> (st\<lparr>ig_txn := None, ig_log := l\<rparr>, Err e)
           | (l, Inr _) \<Rightarrow>
               (st\<lparr>ig_txn := None, ig_acked := ig_acked st @ [end_lsn], ig_last_lsn := commit_lsn,
                   ig_sync_seq := (case tb_sync t of Some n \<Rightarrow> max (ig_sync_seq st) n | None \<Rightarrow> ig_sync_seq st),
                   ig_log := ie_rotate env now l\<rparr>, Ok ())))"

definition on_event :: "('l, 'e) ingest_env \<Rightarrow> nat \<Rightarrow> repl_event \<Rightarrow> ('l, 'e) ingest \<Rightarrow> ('l, 'e) ingest \<times> unit result" where
  "on_event env now ev st =
     (case ev of
        EvBegin xid \<Rightarrow> (st\<lparr>ig_txn := Some (txn_new xid (ie_cfg env))\<rparr>, Ok ())
      | EvXLogData bytes \<Rightarrow> on_data env bytes st
      | EvCommit commit_lsn end_lsn \<Rightarrow> on_commit env now commit_lsn end_lsn st
      | EvKeepAlive wal_end \<Rightarrow>
          (case keepalive_ack_lsn (ig_txn st \<noteq> None) wal_end of
             Some a \<Rightarrow> (st\<lparr>ig_acked := ig_acked st @ [a]\<rparr>, Ok ())
           | None \<Rightarrow> (st, Ok ()))
      | EvOther \<Rightarrow> (st, Ok ()))"

text \<open>What one turn of the loop meets: whether the admission is still current at its two checks, what the
  poll gives, and the time.\<close>

datatype poll = Polled "repl_event option" | PollFailed error | PollShutdown

type_synonym turn = "bool \<times> poll \<times> bool \<times> nat"

definition ingress_must_reconnect :: "bool \<Rightarrow> bool \<Rightarrow> bool" where
  "ingress_must_reconnect current transaction_open \<longleftrightarrow> \<not> transaction_open \<and> \<not> current"

definition stream_turn :: "('l, 'e) ingest_env \<Rightarrow> turn \<Rightarrow> ('l, 'e) ingest \<Rightarrow> ('l, 'e) ingest \<times> stream_end result option" where
  "stream_turn env tn st =
     (case tn of (cur1, pl, cur2, now) \<Rightarrow>
        if ingress_must_reconnect cur1 (ig_txn st \<noteq> None) then (st, Some (Ok Ended))
        else (case pl of
                PollShutdown \<Rightarrow> (st, Some (Ok ShuttingDown))
              | PollFailed e \<Rightarrow> (st, Some (Err e))
              | Polled r \<Rightarrow>
                  (let st1 = st\<lparr>ig_connected := True\<rparr> in
                   case r of
                     None \<Rightarrow> (st1, Some (Ok Ended))
                   | Some ev \<Rightarrow>
                       if ingress_must_reconnect cur2 (ig_txn st \<noteq> None) then (st1, Some (Ok Ended))
                       else (case on_event env now ev st1 of
                               (st2, Inl e) \<Rightarrow> (st2, Some (Err e))
                             | (st2, Inr _) \<Rightarrow> (st2, None)))))"

fun stream_loop :: "('l, 'e) ingest_env \<Rightarrow> turn list \<Rightarrow> ('l, 'e) ingest \<Rightarrow> ('l, 'e) ingest \<times> stream_end result option" where
  "stream_loop env [] st = (st, None)"
| "stream_loop env (tn # tns) st =
     (case stream_turn env tn st of (st', None) \<Rightarrow> stream_loop env tns st' | (st', Some r) \<Rightarrow> (st', Some r))"

definition ingest_start :: "string \<Rightarrow> 'e \<Rightarrow> 'l \<Rightarrow> string \<Rightarrow> int \<Rightarrow> ('l, 'e) ingest" where
  "ingest_start incarnation e l last_lsn seq_no =
     \<lparr>ig_txn = None, ig_dec = decoder_new\<lparr>dec_incarnation := Some incarnation\<rparr>, ig_engine = e, ig_log = l, ig_acked = [],
      ig_last_lsn = last_lsn, ig_sync_seq = seq_no, ig_connected = False\<rparr>"

section \<open>An ingested change is the committed one\<close>

definition cell_json :: "f64_ops \<Rightarrow> tschema \<Rightarrow> cell \<Rightarrow> string \<Rightarrow> json option" where
  "cell_json F ts c name =
     (case ts_index ts name of
        None \<Rightarrow> None
      | Some i \<Rightarrow> (case c of CUnchangedToast \<Rightarrow> None | CNull \<Rightarrow> Some JNull | CText s \<Rightarrow> Some (text_to_json F s (snd (ts_columns ts ! i)))))"

lemma tuple_step_json: "tuple_step F ts (c, k) m = (case cell_json F ts c k of None \<Rightarrow> m | Some j \<Rightarrow> AList.update k j m)"
  by (auto simp: tuple_step_def cell_json_def split: option.splits cell.splits)

lemma tuple_fold_other: "k \<notin> snd ` set ps \<Longrightarrow> map_of (fold (tuple_step F ts) ps m) k = map_of m k"
proof (induction ps arbitrary: m)
  case (Cons p ps)
  obtain c k' where p: "p = (c, k')" by (cases p)
  have "map_of (tuple_step F ts p m) k = map_of m k"
    using Cons.prems p by (auto simp: tuple_step_json update_conv split: option.splits)
  with Cons show ?case by simp
qed simp

lemma tuple_fold_at:
  assumes "distinct (map snd ps)" and "(c, k) \<in> set ps"
  shows "map_of (fold (tuple_step F ts) ps m) k = (case cell_json F ts c k of None \<Rightarrow> map_of m k | Some j \<Rightarrow> Some j)"
  using assms
proof (induction ps arbitrary: m)
  case (Cons p ps)
  show ?case
  proof (cases "p = (c, k)")
    case True
    with Cons.prems(1) have "k \<notin> snd ` set ps" by simp
    from tuple_fold_other [OF this] True show ?thesis by (auto simp: tuple_step_json update_conv split: option.splits)
  next
    case False
    with Cons.prems have mem: "(c, k) \<in> set ps" by simp
    then have "snd p \<noteq> k" using Cons.prems(1) by (auto simp: image_iff)
    then have "map_of (tuple_step F ts p m) k = map_of m k"
      by (cases p) (auto simp: tuple_step_json update_conv split: option.splits)
    with Cons mem show ?thesis by (simp split: option.splits)
  qed
qed simp

lemma tuple_to_map_at:
  assumes "distinct columns" "j < length columns" "length t = length columns"
  shows "map_of (tuple_to_map F t columns ts) (columns ! j) = cell_json F ts (t ! j) (columns ! j)"
proof -
  have "map snd (zip t columns) = columns" using assms(3) by simp
  moreover have "(t ! j, columns ! j) \<in> set (zip t columns)" using assms by (auto simp: in_set_zip)
  ultimately show ?thesis using tuple_fold_at [of "zip t columns" "t ! j" "columns ! j" F ts "[]"] assms(1)
    by (simp add: tuple_to_map_def split: option.splits)
qed

lemma map_of_fill_from: "map_of (fill_from om nm) k = (case map_of nm k of Some v \<Rightarrow> Some v | None \<Rightarrow> map_of om k)"
  unfolding fill_from_def
proof (induction om arbitrary: nm)
  case (Cons p om)
  obtain k' v where p: "p = (k', v)" by (cases p)
  show ?case by (simp add: Cons.IH p update_conv split: option.splits)
qed (simp split: option.splits)

text \<open>How the server writes a cell in text mode. Any text that parses to the value will do for numbers.\<close>

definition reads_text :: "f64_ops \<Rightarrow> string \<Rightarrow> val \<Rightarrow> bool" where
  "reads_text F s v =
     (case v of
        VNull \<Rightarrow> False
      | VInt i \<Rightarrow> parse_i64 s = Some i
      | VFloat f \<Rightarrow> f64_parse F s = Some f
      | VText x \<Rightarrow> s = x
      | VBool b \<Rightarrow> s = (if b then ''t'' else ''f''))"

text \<open>A tuple that carries a row of the table: the relation has every column of the schema, maybe others,
  and an unchanged out-of-line cell stands for the old row's.\<close>

definition carries_row :: "f64_ops \<Rightarrow> tschema \<Rightarrow> string list \<Rightarrow> row option \<Rightarrow> tuple \<Rightarrow> row \<Rightarrow> bool" where
  "carries_row F ts columns old t r \<longleftrightarrow> length t = length columns \<and>
     (\<forall>i < length (ts_columns ts). \<exists>j < length columns. columns ! j = fst (ts_columns ts ! i) \<and>
        (case t ! j of
           CNull \<Rightarrow> r ! i = VNull
         | CText s \<Rightarrow> reads_text F s (r ! i)
         | CUnchangedToast \<Rightarrow> (case old of Some p \<Rightarrow> r ! i = p ! i | None \<Rightarrow> False)))"

definition carries :: "f64_ops \<Rightarrow> tschema \<Rightarrow> string list \<Rightarrow> message \<Rightarrow> change \<Rightarrow> bool" where
  "carries F ts columns msg c =
     (case c of
        RowInsert r \<Rightarrow> (\<exists>rel t. msg = MInsert rel t \<and> carries_row F ts columns None t r)
      | RowUpdate p r \<Rightarrow> (\<exists>rel t0 t. msg = MUpdate rel (Some (OldFull t0)) t
           \<and> carries_row F ts columns None t0 p \<and> carries_row F ts columns (Some p) t r)
      | RowDelete p \<Rightarrow> (\<exists>rel t0. msg = MDelete rel (OldFull t0) \<and> carries_row F ts columns None t0 p))"

text \<open>The JSON form of a value on the way in: integers are always numbers here.\<close>

definition ingest_json :: "val \<Rightarrow> json" where
  "ingest_json v = (case v of VInt i \<Rightarrow> JNum (NInt i) | _ \<Rightarrow> to_json v)"

definition obj_row :: "tschema \<Rightarrow> (string \<times> json) list \<Rightarrow> row \<Rightarrow> bool" where
  "obj_row ts m r \<longleftrightarrow> (\<forall>i < length (ts_columns ts). map_of m (fst (ts_columns ts ! i)) = Some (ingest_json (r ! i)))"

lemma from_json_ingest: "val_has_type v ty \<Longrightarrow> from_json F (ingest_json v) ty = Ok v"
proof (cases v)
  case (VInt i)
  assume "val_has_type v ty"
  with VInt show ?thesis by (simp add: ingest_json_def from_json_def is_null_def as_i64_def)
qed (use from_json_to_json [of v ty F] in \<open>simp_all add: ingest_json_def\<close>)

lemma text_to_json_reads:
  "reads_text F s v \<Longrightarrow> val_has_type v ty \<Longrightarrow> text_to_json F s ty = ingest_json v"
  by (cases v) (auto simp: reads_text_def text_to_json_def ingest_json_def to_json_def)

lemma row_from_obj:
  assumes "obj_row ts m r" "typed_row ts r"
  shows "row_from_json F ts m = Ok r"
proof -
  have "map_res (\<lambda>(cname, cty). from_json F (json_get m cname) cty) (ts_columns ts) = Ok r"
    using assms typed_row_length [OF assms(2)] from_json_ingest [OF typed_row_nth [OF assms(2)], of _ F]
    by (auto simp: map_res_Inr_iff list_all2_conv_all_nth obj_row_def json_get_def split_beta)
  then show ?thesis by (simp add: row_from_json_def)
qed

lemma key_part_obj:
  assumes "schema_wf ts" "obj_row ts m r" "typed_row ts r" "i < length (ts_columns ts)"
  shows "key_part F ts (JObj m) (fst (ts_columns ts ! i)) = to_key_string F (r ! i)"
proof -
  have "ts_index ts (fst (ts_columns ts ! i)) = Some i" using assms(1,4) by (simp add: schema_wf_def)
  moreover have "obj_get (JObj m) (fst (ts_columns ts ! i)) = Some (ingest_json (r ! i))"
    using assms(2,4) by (simp add: obj_row_def obj_get_def)
  ultimately show ?thesis using typed_row_nth [OF assms(3,4)]
    by (cases "r ! i") (auto simp: key_part_def ingest_json_def to_json_def to_key_string_def as_f64_def json_of_f64_def)
qed

lemma key_from_obj_row:
  assumes wf: "schema_wf ts" and obj: "obj_row ts m r" and ty: "typed_row ts r"
  shows "key_from_obj F (JObj m) ts = row_key F ts r"
proof -
  have pk: "\<And>i. i \<in> set (ts_pk_cols ts) \<Longrightarrow> i < length (ts_columns ts)" using wf by (simp add: schema_wf_def)
  note part = key_part_obj [OF wf obj ty, of _ F]
  show ?thesis
  proof (cases "length (ts_pk_cols ts) = 1")
    case True
    then obtain i where i: "ts_pk_cols ts = [i]" by (auto simp: length_Suc_conv)
    have "ts_pk_name ts = fst (ts_columns ts ! i)" using wf i by (simp add: schema_wf_def)
    with True i part [of i] pk [of i] typed_row_length [OF ty] show ?thesis
      by (simp add: key_from_obj_def row_key_def key_string_def row_get_def get_at_def)
  next
    case False
    have "map_res (\<lambda>i. rbind (row_get r i) (\<lambda>v. Ok (to_key_string F v))) (ts_pk_cols ts) = Ok (map (\<lambda>i. to_key_string F (r ! i)) (ts_pk_cols ts))"
      using pk typed_row_length [OF ty] by (intro map_res_all_ok) (simp add: row_get_def get_at_def)
    moreover have "map (\<lambda>i. key_part F ts (JObj m) (fst (ts_columns ts ! i))) (ts_pk_cols ts) = map (\<lambda>i. to_key_string F (r ! i)) (ts_pk_cols ts)"
      using part pk by simp
    ultimately show ?thesis using False by (simp add: key_from_obj_def row_key_def key_string_def del: map_eq_conv)
  qed
qed

lemma carries_obj:
  assumes wf: "schema_wf ts" and "distinct columns" and ty: "typed_row ts r" and car: "carries_row F ts columns old t r"
    and old: "\<And>p. old = Some p \<Longrightarrow> obj_row ts om p" and m: "m = (case old of Some _ \<Rightarrow> fill_from om (tuple_to_map F t columns ts) | None \<Rightarrow> tuple_to_map F t columns ts)"
  shows "obj_row ts m r"
  unfolding obj_row_def
proof (intro allI impI)
  fix i assume i: "i < length (ts_columns ts)"
  with car obtain j where j: "j < length columns" "columns ! j = fst (ts_columns ts ! i)"
    and cell: "case t ! j of CNull \<Rightarrow> r ! i = VNull | CText s \<Rightarrow> reads_text F s (r ! i)
        | CUnchangedToast \<Rightarrow> (case old of Some p \<Rightarrow> r ! i = p ! i | None \<Rightarrow> False)" by (auto simp: carries_row_def)
  have ix: "ts_index ts (fst (ts_columns ts ! i)) = Some i" using wf i by (simp add: schema_wf_def)
  have look: "map_of (tuple_to_map F t columns ts) (fst (ts_columns ts ! i)) = cell_json F ts (t ! j) (fst (ts_columns ts ! i))"
    using tuple_to_map_at [OF assms(2) j(1), of t F ts] car j(2) by (simp add: carries_row_def)
  show "map_of m (fst (ts_columns ts ! i)) = Some (ingest_json (r ! i))"
  proof (cases "t ! j")
    case CUnchangedToast
    with cell obtain p where p: "old = Some p" "r ! i = p ! i" by (cases old) auto
    with look CUnchangedToast ix old [OF p(1)] i m show ?thesis by (simp add: map_of_fill_from cell_json_def obj_row_def)
  next
    case CNull
    with look ix m cell show ?thesis by (cases old) (auto simp: map_of_fill_from cell_json_def ingest_json_def to_json_def)
  next
    case (CText s)
    with cell have "text_to_json F s (snd (ts_columns ts ! i)) = ingest_json (r ! i)"
      using text_to_json_reads [OF _ typed_row_nth [OF ty i]] by simp
    with look ix m CText show ?thesis by (cases old) (auto simp: map_of_fill_from cell_json_def)
  qed
qed

text \<open>C16: what is ingested is what was committed. For a message that carries a change of a table, whatever
  the order of the relation's columns, with columns the schema does not know, with any text that
  parses to the cell's number and with unchanged out-of-line cells taken from the old image, the
  envelope built from it has the table's name and the row's key, and applying it gives exactly the
  change: nothing is lost, nothing becomes NULL, and the key is the engine's own key of that row.\<close>

theorem ingest_change_exact:
  assumes "schema_wf ts" and "distinct columns" and "valid_change F ts T c" and "carries F ts columns msg c"
  shows "\<exists>env. build_envelope F (ts_table ts) ts columns msg = Some env
     \<and> e_type env = table_as_str (ts_table ts)
     \<and> e_key env = e_key (change_env F ts None None None None c)
     \<and> apply_envelope F ts env = Ok (change_delta c, None, None)"
proof (cases c)
  case (RowInsert r)
  with assms(3,4) obtain rel t where msg: "msg = MInsert rel t" and car: "carries_row F ts columns None t r" and ty: "typed_row ts r"
    by (auto simp: carries_def)
  note obj = carries_obj [OF assms(1,2) ty car, simplified]
  show ?thesis using row_from_obj [OF obj ty] key_from_obj_row [OF assms(1) obj ty] RowInsert msg
    by (simp add: build_envelope_def make_env_def change_env_def apply_envelope_def env_to_row_def as_object_def)
next
  case (RowUpdate p r)
  with assms(3,4) obtain rel t0 t where msg: "msg = MUpdate rel (Some (OldFull t0)) t"
    and car: "carries_row F ts columns None t0 p" "carries_row F ts columns (Some p) t r" and ty: "typed_row ts p" "typed_row ts r"
    by (auto simp: carries_def)
  note obj0 = carries_obj [OF assms(1,2) ty(1) car(1), simplified]
  have obj: "obj_row ts (fill_from (tuple_to_map F t0 columns ts) (tuple_to_map F t columns ts)) r"
    by (rule carries_obj [OF assms(1,2) ty(2) car(2)]) (use obj0 in simp_all)
  show ?thesis using row_from_obj [OF obj0 ty(1)] row_from_obj [OF obj ty(2)] key_from_obj_row [OF assms(1) obj ty(2)] RowUpdate msg
    by (simp add: build_envelope_def make_env_def change_env_def apply_envelope_def env_to_row_def as_object_def Let_def)
next
  case (RowDelete p)
  with assms(3,4) obtain rel t0 where msg: "msg = MDelete rel (OldFull t0)" and car: "carries_row F ts columns None t0 p" and ty: "typed_row ts p"
    by (auto simp: carries_def)
  note obj = carries_obj [OF assms(1,2) ty car, simplified]
  show ?thesis using row_from_obj [OF obj ty] key_from_obj_row [OF assms(1) obj ty] RowDelete msg
    by (simp add: build_envelope_def make_env_def change_env_def apply_envelope_def env_to_row_def as_object_def)
qed

text \<open>An update whose role column was stored out of line and did not change, in a relation with a column the
  schema does not know.\<close>

theorem ingest_change_exact_witness:
  "\<exists>env. build_envelope exact_f64 ex_table ex_schema [''extra'', ''user'', ''org'', ''role'']
       (MUpdate 1 (Some (OldFull [CNull, CText ''u'', CText ''1'', CText ''a''])) [CNull, CText ''v'', CText ''+1'', CUnchangedToast]) = Some env
     \<and> e_type env = table_as_str ex_table
     \<and> apply_envelope exact_f64 ex_schema env = Ok ([([VInt 1, VText ''a'', VText ''u''], -1), ([VInt 1, VText ''a'', VText ''v''], 1)], None, None)"
proof -
  let ?o = "[VInt 1, VText ''a'', VText ''u'']" and ?r = "[VInt 1, VText ''a'', VText ''v'']"
  let ?cols = "[''extra'', ''user'', ''org'', ''role'']"
  let ?T = "[row_key exact_f64 ex_schema ?o \<mapsto> ?o]"
  have keys: "row_key exact_f64 ex_schema ?o = ''1'' @ [PK_SEP] @ ''u''" "row_key exact_f64 ex_schema ?r = ''1'' @ [PK_SEP] @ ''v''" by code_simp+
  have valid: "valid_change exact_f64 ex_schema ?T (RowUpdate ?o ?r)"
    using keys by (simp add: ex_rows_typed)
  have p1: "parse_i64 ''1'' = Some 1" "parse_i64 ''+1'' = Some 1"
    by (simp_all add: parse_i64_def parse_nat_radix_def digit_val_def code_of_def in_i64_def i64_min_def i64_max_def)
  have "carries_row exact_f64 ex_schema ?cols None [CNull, CText ''u'', CText ''1'', CText ''a''] ?o"
    "carries_row exact_f64 ex_schema ?cols (Some ?o) [CNull, CText ''v'', CText ''+1'', CUnchangedToast] ?r"
    by (simp_all add: carries_row_def ex_schema_def All_less_Suc Ex_less_Suc reads_text_def p1)
  then have "carries exact_f64 ex_schema ?cols
     (MUpdate 1 (Some (OldFull [CNull, CText ''u'', CText ''1'', CText ''a''])) [CNull, CText ''v'', CText ''+1'', CUnchangedToast]) (RowUpdate ?o ?r)"
    by (simp add: carries_def)
  from ingest_change_exact [OF ex_schema_wf _ valid this] obtain env where
    "build_envelope exact_f64 (ts_table ex_schema) ex_schema ?cols
       (MUpdate 1 (Some (OldFull [CNull, CText ''u'', CText ''1'', CText ''a''])) [CNull, CText ''v'', CText ''+1'', CUnchangedToast]) = Some env"
    "e_type env = table_as_str (ts_table ex_schema)"
    "apply_envelope exact_f64 ex_schema env = Ok ([(?o, -1), (?r, 1)], None, None)" by auto
  moreover have "ts_table ex_schema = ex_table" by (simp add: ex_schema_def)
  ultimately show ?thesis by metis
qed

end
