(* ===== verification/Ingest.thy ===== *)
theory Ingest
  imports Replication "HOL-Library.Sublist"
begin

text \<open>
  What the ingestor's connection loop promises. The change log it writes to is an interface: an append
  that succeeds adds the chunk, one that fails may or may not have, a rotation adds nothing; the change
  log of \<open>ChangeLog\<close> provides it. An abstract ingestor keeps only the changes of the open transaction,
  the committed transactions and the acknowledgements; the loop with its buffer, spill file and chunks
  refines it, and what it leaves on the log is what the sequencer's theorems assume.
\<close>

section \<open>The log as the ingestor sees it\<close>

abbreviation uncontrolled :: "envelope list \<Rightarrow> bool" where
  "uncontrolled c \<equiv> list_all (\<lambda>e. \<not> is_control e) c"

locale commit_writer =
  fixes app :: "nat \<Rightarrow> envelope list \<Rightarrow> 'l \<Rightarrow> 'l \<times> unit result"
    and rot :: "nat \<Rightarrow> 'l \<Rightarrow> 'l"
    and holds :: "'l \<Rightarrow> envelope list \<Rightarrow> bool"
  assumes app_ok: "holds l d \<Longrightarrow> uncontrolled c \<Longrightarrow> app now c l = (l', Inr ()) \<Longrightarrow> holds l' (d @ c)"
    and app_err: "holds l d \<Longrightarrow> uncontrolled c \<Longrightarrow> app now c l = (l', Inl e) \<Longrightarrow> holds l' d \<or> holds l' (d @ c)"
    and rot_keeps: "holds l d \<Longrightarrow> holds (rot now l) d"

fun append_list :: "(envelope list \<Rightarrow> 'l \<Rightarrow> 'l \<times> unit result) \<Rightarrow> envelope list list \<Rightarrow> nat \<Rightarrow> 'l \<Rightarrow> 'l \<times> nat result" where
  "append_list f [] n l = (l, Ok n)"
| "append_list f (c # cs) n l = (case f c l of (l1, Inl e) \<Rightarrow> (l1, Err e) | (l1, Inr _) \<Rightarrow> append_list f cs (n + 1) l1)"

lemma append_chunks_drain:
  "drain_all fuel IO td = Some (Ok chunks) \<Longrightarrow> append_chunks f IO td n l = append_list f chunks n l"
proof (induction fuel arbitrary: td chunks n l)
  case (Suc fuel)
  obtain td1 r where nx: "next_chunk IO td = (td1, r)" by fastforce
  with Suc show ?case
    by (auto simp: append_chunks.simps [of f IO td] res_simps split: sum.splits option.splits prod.splits)
qed simp

text \<open>What the change log holds: its data, from segment \<open>lo\<close> to the open one.\<close>

definition log_holds :: "('s \<Rightarrow> streams) \<Rightarrow> nat \<Rightarrow> 's log_writer \<Rightarrow> envelope list \<Rightarrow> bool" where
  "log_holds view lo w d \<longleftrightarrow> (\<exists>hi. writer_inv view lo hi w \<and> log_data view lo hi (lw_ds w) = d)"

context durable_store
begin

lemma change_log_writer: "commit_writer (append_commit S) (maybe_rotate S cfg) (log_holds view lo)"
proof
  fix w d c now w' 
  assume "log_holds view lo w d" and c: "uncontrolled c"
  then obtain hi where inv: "writer_inv view lo hi w" "log_data view lo hi (lw_ds w) = d" by (auto simp: log_holds_def)
  have plain: "filter (\<lambda>e. \<not> is_control e) c = c" using c by (auto simp: list_all_iff intro: filter_True)
  show "log_holds view lo w' (d @ c)" if "append_commit S now c w = (w', Inr ())"
    using append_commit_cases [OF that inv(1)] inv(2) plain by (auto simp: log_holds_def is_ok_def)
  show "log_holds view lo w' d \<or> log_holds view lo w' (d @ c)" if "append_commit S now c w = (w', Inl e)" for e
    using append_commit_cases [OF that inv(1)] inv(2) plain by (auto simp: log_holds_def)
next
  fix w d now assume "log_holds view lo w d"
  then show "log_holds view lo (maybe_rotate S cfg now w) d" using maybe_rotate_cases by (fastforce simp: log_holds_def)
qed

end

interpretation mem_log: commit_writer "append_commit mem_store" "maybe_rotate mem_store cfg" "log_holds ms_streams lo" for cfg lo
  by (rule mem.change_log_writer)

context commit_writer
begin

lemma append_list_holds:
  assumes "holds l d" and "\<forall>c \<in> set cs. uncontrolled c" and "append_list (app now) cs n l = (l', r)"
  shows "case r of Inr _ \<Rightarrow> holds l' (d @ concat cs) | Inl _ \<Rightarrow> \<exists>p. prefix p (concat cs) \<and> holds l' (d @ p)"
  using assms
proof (induction cs arbitrary: n l d)
  case (Cons c cs)
  obtain l1 r1 where a: "app now c l = (l1, r1)" by fastforce
  show ?case
  proof (cases r1)
    case (Inl e)
    with a Cons.prems have "r = Inl e" "l' = l1" by auto
    moreover have "holds l1 d \<or> holds l1 (d @ c)" using app_err [OF Cons.prems(1)] Cons.prems(2) a Inl by auto
    then have "\<exists>p. prefix p (concat (c # cs)) \<and> holds l1 (d @ p)" by (metis Nil_prefix append_Nil2 concat.simps(2) prefixI)
    ultimately show ?thesis by simp
  next
    case (Inr u)
    with a Cons.prems have "holds l1 (d @ c)" "append_list (app now) cs (n + 1) l1 = (l', r)" using app_ok by auto
    from Cons.IH [OF this(1) _ this(2)] Cons.prems(2) show ?thesis by (auto split: sum.splits) (metis prefix_code(2) same_prefix_prefix)
  qed
qed auto

end

section \<open>The abstract ingestor\<close>

record 'e ingest_spec =
  sp_dec :: decoder
  sp_engine :: 'e
  sp_open :: "(nat \<times> envelope list) option"
  sp_seen :: "envelope list"
  sp_done :: "(stamp_t \<times> envelope list) list"
  sp_acks :: "nat list"

definition spec_data :: "('l, 'e) ingest_env \<Rightarrow> byte list \<Rightarrow> 'e ingest_spec \<Rightarrow> 'e ingest_spec" where
  "spec_data env bytes sp =
     (case decode (ie_lossy env) bytes of
        Inl _ \<Rightarrow> sp
      | Inr msg \<Rightarrow>
          (case msg of
             MRelation rel_id namespace name ri columns \<Rightarrow>
               (case on_relation (ie_events env) (map_option fst (sp_open sp)) rel_id namespace name ri columns (sp_dec sp, sp_engine sp) of
                  (dec, e) \<Rightarrow> sp\<lparr>sp_dec := dec, sp_engine := e\<rparr>)
           | MTruncate rel_ids \<Rightarrow>
               sp\<lparr>sp_engine := on_truncate (ie_events env) (map_option fst (sp_open sp)) rel_ids (sp_dec sp, sp_engine sp)\<rparr>
           | _ \<Rightarrow>
               (case sp_open sp of
                  None \<Rightarrow> sp
                | Some (xid, es) \<Rightarrow>
                    (case on_change (ie_f64 env) (ie_uuid env) (se_tables (ie_events env) (sp_engine sp)) (sp_dec sp) msg of
                       DEnv e \<Rightarrow> sp\<lparr>sp_open := Some (xid, es @ [e]), sp_seen := sp_seen sp @ [e]\<rparr>
                     | _ \<Rightarrow> sp))))"

definition spec_event :: "('l, 'e) ingest_env \<Rightarrow> repl_event \<Rightarrow> 'e ingest_spec \<Rightarrow> 'e ingest_spec" where
  "spec_event env ev sp =
     (case ev of
        EvBegin xid \<Rightarrow> sp\<lparr>sp_open := Some (xid, [])\<rparr>
      | EvXLogData bytes \<Rightarrow> spec_data env bytes sp
      | EvCommit commit_lsn end_lsn \<Rightarrow>
          (case sp_open sp of
             None \<Rightarrow> sp
           | Some (xid, es) \<Rightarrow>
               sp\<lparr>sp_open := None, sp_done := sp_done sp @ [(commit_stamp commit_lsn xid, es)], sp_acks := sp_acks sp @ [end_lsn]\<rparr>)
      | EvKeepAlive wal_end \<Rightarrow> if sp_open sp = None then sp\<lparr>sp_acks := sp_acks sp @ [wal_end]\<rparr> else sp
      | EvOther \<Rightarrow> sp)"

definition turn_event :: "turn \<Rightarrow> repl_event option" where
  "turn_event tn = (case tn of (_, Polled r, _, _) \<Rightarrow> r | _ \<Rightarrow> None)"

definition spec_turn :: "('l, 'e) ingest_env \<Rightarrow> turn \<Rightarrow> 'e ingest_spec \<Rightarrow> 'e ingest_spec" where
  "spec_turn env tn sp = (case turn_event tn of None \<Rightarrow> sp | Some ev \<Rightarrow> spec_event env ev sp)"

definition spec_run :: "('l, 'e) ingest_env \<Rightarrow> turn list \<Rightarrow> 'e ingest_spec \<Rightarrow> 'e ingest_spec" where
  "spec_run env tns sp = fold (spec_turn env) tns sp"

definition spec_start :: "string \<Rightarrow> 'e \<Rightarrow> 'e ingest_spec" where
  "spec_start incarnation e =
     \<lparr>sp_dec = decoder_new\<lparr>dec_incarnation := Some incarnation\<rparr>, sp_engine = e, sp_open = None, sp_seen = [], sp_done = [], sp_acks = []\<rparr>"

text \<open>A committed transaction on the log: stamped in order, the end marker on its last envelope.\<close>

definition stamped :: "stamp_t \<times> envelope list \<Rightarrow> envelope list" where
  "stamped c = mark_last (stamp_from (fst c) 0 (snd c))"

definition spec_log :: "'e ingest_spec \<Rightarrow> envelope list" where
  "spec_log sp = concat (map stamped (sp_done sp))"

section \<open>What the abstract ingestor keeps\<close>

text \<open>Envelopes as they are built: no control envelope and no end marker. Every table of the decoder
  passed \<open>TableRef::new\<close>, whose reserved schema keeps table names apart from control names.\<close>

definition built :: "envelope \<Rightarrow> bool" where
  "built e \<longleftrightarrow> \<not> is_control e \<and> h_last (e_headers e) = None"

definition rels_ok :: "decoder \<Rightarrow> bool" where
  "rels_ok dec \<longleftrightarrow> (\<forall>i rel t. dec_rels dec i = Some rel \<and> rm_table rel = Some t \<longrightarrow> (\<exists>a b. table_new a b = Inr t))"

definition spec_ok :: "'e ingest_spec \<Rightarrow> bool" where
  "spec_ok sp \<longleftrightarrow> rels_ok (sp_dec sp) \<and> (\<forall>e \<in> set (sp_seen sp). built e)
     \<and> (\<forall>xid es. sp_open sp = Some (xid, es) \<longrightarrow> set es \<subseteq> set (sp_seen sp))
     \<and> (\<forall>c \<in> set (sp_done sp). set (snd c) \<subseteq> set (sp_seen sp))"

lemma table_new_not_reserved:
  assumes "table_new a b = Inr t"
  shows "table_as_str t \<noteq> CONTROL_TYPE" "table_as_str t \<noteq> ENVELOPE_TYPE" "table_as_str t \<noteq> SOURCE_FENCE_ENVELOPE"
proof -
  from assms have t: "table_as_str t = a @ ''.'' @ b" and a: "CHR ''.'' \<notin> set a" "a \<noteq> ''__circuits''"
    by (auto simp: table_new_def check_schema_def check_part_def table_as_str_def RESERVED_SCHEMA_def res_simps split: if_splits)
  have cut: "takeWhile (\<lambda>c. c \<noteq> CHR ''.'') (table_as_str t) = a" unfolding t using a(1) by (auto simp: takeWhile_append)
  then show "table_as_str t \<noteq> CONTROL_TYPE" "table_as_str t \<noteq> ENVELOPE_TYPE" "table_as_str t \<noteq> SOURCE_FENCE_ENVELOPE"
    using a(2) by (auto simp: CONTROL_TYPE_def ENVELOPE_TYPE_def SOURCE_FENCE_ENVELOPE_def)
qed

lemma build_envelope_built:
  "build_envelope F t ts cols msg = Some e \<Longrightarrow> e_type e = table_as_str t \<and> h_last (e_headers e) = None"
  by (auto simp: build_envelope_def make_env_def Let_def split: message.splits old_tuple.splits)

lemma on_change_cases:
  assumes "on_change F u tables dec msg = DEnv e"
  obtains i rel t where "dec_rels dec i = Some rel" "rm_table rel = Some t"
    "(\<exists>inc. runtime_fence_envelope u rel msg inc = Some e) \<or> source_fence_envelope u rel msg = Some e
      \<or> (\<exists>ts. tables t = Some ts \<and> build_envelope F t ts (rm_columns rel) msg = Some e)"
proof -
  from assms obtain i rel t where rel: "message_rel msg = Some i" "dec_rels dec i = Some rel" "rm_table rel = Some t"
    by (cases "message_rel msg"; cases "dec_rels dec (the (message_rel msg))"; cases "rm_table (the (dec_rels dec (the (message_rel msg))))")
      (simp_all add: on_change_def)
  have "(\<exists>inc. runtime_fence_envelope u rel msg inc = Some e) \<or> source_fence_envelope u rel msg = Some e
      \<or> (\<exists>ts. tables t = Some ts \<and> build_envelope F t ts (rm_columns rel) msg = Some e)"
    using assms rel by (simp add: on_change_def env_or_none_def bind_eq_Some_conv split: if_splits option.splits) blast
  with that rel show ?thesis by blast
qed

lemma on_change_built:
  assumes "rels_ok dec" and "on_change F u tables dec msg = DEnv e"
  shows "built e"
proof -
  from on_change_cases [OF assms(2)] obtain rel t i where rel: "dec_rels dec i = Some rel" "rm_table rel = Some t"
    and cases: "(\<exists>inc. runtime_fence_envelope u rel msg inc = Some e) \<or> source_fence_envelope u rel msg = Some e
      \<or> (\<exists>ts. tables t = Some ts \<and> build_envelope F t ts (rm_columns rel) msg = Some e)"
    by blast
  from assms(1) rel obtain a b where "table_new a b = Inr t" unfolding rels_ok_def by blast
  note tn = table_new_not_reserved [OF this]
  from cases show ?thesis
  proof (elim disjE exE)
    fix inc assume "runtime_fence_envelope u rel msg inc = Some e"
    then show ?thesis
      by (auto simp: runtime_fence_envelope_def bind_eq_Some_conv built_def is_control_def into_envelope_def ENVELOPE_TYPE_def CONTROL_TYPE_def)
  next
    assume "source_fence_envelope u rel msg = Some e"
    then show ?thesis
      by (auto simp: source_fence_envelope_def built_def is_control_def SOURCE_FENCE_ENVELOPE_def CONTROL_TYPE_def bind_eq_Some_conv split: if_splits)
  next
    fix ts assume "tables t = Some ts \<and> build_envelope F t ts (rm_columns rel) msg = Some e"
    with build_envelope_built tn show ?thesis by (fastforce simp: built_def is_control_def)
  qed
qed

lemma on_relation_rels:
  "rels_ok dec \<Longrightarrow> on_relation ev txn i a b ri cols (dec, e) = (dec', e') \<Longrightarrow> rels_ok dec'"
  by (fastforce simp: on_relation_def rels_ok_def Let_def split: sum.splits if_splits)

lemma spec_data_ok:
  assumes "spec_ok sp"
  shows "spec_ok (spec_data env bytes sp) \<and> set (sp_seen sp) \<subseteq> set (sp_seen (spec_data env bytes sp))"
proof (cases "decode (ie_lossy env) bytes")
  case (Inr msg)
  have rels: "rels_ok (sp_dec sp)" using assms by (simp add: spec_ok_def)
  have change: "spec_ok (case on_change (ie_f64 env) (ie_uuid env) (se_tables (ie_events env) (sp_engine sp)) (sp_dec sp) msg of
        DEnv e \<Rightarrow> sp\<lparr>sp_open := Some (xid, es @ [e]), sp_seen := sp_seen sp @ [e]\<rparr> | _ \<Rightarrow> sp)"
    if "sp_open sp = Some (xid, es)" for xid es
    using assms that on_change_built [OF rels] by (fastforce simp: spec_ok_def split: decoded.splits)
  show ?thesis
    using assms Inr change on_relation_rels [OF rels]
    by (auto simp: spec_data_def split: message.splits option.splits decoded.splits prod.splits) (auto simp: spec_ok_def)
qed (use assms in \<open>simp add: spec_data_def\<close>)

lemma spec_turn_ok:
  assumes "spec_ok sp"
  shows "spec_ok (spec_turn env tn sp) \<and> set (sp_seen sp) \<subseteq> set (sp_seen (spec_turn env tn sp))"
proof (cases "turn_event tn")
  case (Some ev)
  then show ?thesis using assms spec_data_ok [OF assms, of env]
    by (cases ev) (auto simp: spec_turn_def spec_event_def split: option.splits, auto simp: spec_ok_def)
qed (use assms in \<open>simp add: spec_turn_def\<close>)

lemma spec_run_ok: "spec_ok sp \<Longrightarrow> spec_ok (spec_run env tns sp) \<and> set (sp_seen sp) \<subseteq> set (sp_seen (spec_run env tns sp))"
proof (induction tns arbitrary: sp)
  case (Cons tn tns)
  from spec_turn_ok [OF Cons.prems, of env tn] Cons.IH [of "spec_turn env tn sp"] show ?case by (auto simp: spec_run_def)
qed (simp add: spec_run_def)

lemma spec_turn_log: "prefix (spec_log sp) (spec_log (spec_turn env tn sp))"
proof (cases "turn_event tn")
  case (Some ev)
  show ?thesis
  proof (cases ev)
    case (EvXLogData bytes)
    have "sp_done (spec_data env bytes sp) = sp_done sp"
      by (auto simp: spec_data_def split: sum.splits message.splits option.splits decoded.splits prod.splits)
    with Some EvXLogData show ?thesis by (simp add: spec_turn_def spec_event_def spec_log_def)
  qed (use Some in \<open>auto simp: spec_turn_def spec_event_def spec_log_def split: option.splits\<close>)
qed (simp add: spec_turn_def)

lemma spec_start_ok: "spec_ok (spec_start inc e)"
  by (simp add: spec_ok_def spec_start_def rels_ok_def decoder_new_def)

section \<open>The loop refines the abstract ingestor\<close>

definition ingest_abs ::
  "('l, 'e) ingest_env \<Rightarrow> ('l \<Rightarrow> envelope list \<Rightarrow> bool) \<Rightarrow> ('l, 'e) ingest \<Rightarrow> 'e ingest_spec \<Rightarrow> bool" where
  "ingest_abs env holds st sp \<longleftrightarrow>
     ig_dec st = sp_dec sp \<and> ig_engine st = sp_engine sp \<and> ig_acked st = sp_acks sp \<and> holds (ig_log st) (spec_log sp)
     \<and> (case (ig_txn st, sp_open sp) of
          (None, None) \<Rightarrow> True
        | (Some t, Some (xid, es)) \<Rightarrow> tb_xid t = xid \<and> tb_holds (ie_io env) t es
        | _ \<Rightarrow> False)"

lemma ingest_abs_open:
  "ingest_abs env holds st sp \<Longrightarrow> (ig_txn st = None \<longleftrightarrow> sp_open sp = None)
     \<and> map_option tb_xid (ig_txn st) = map_option fst (sp_open sp)"
  by (auto simp: ingest_abs_def split: option.splits)

lemma write_xid: "write_spilled IO line tb = Inr tb1 \<Longrightarrow> tb_xid tb1 = tb_xid tb"
  by (auto simp: write_spilled_def split: option.splits if_splits)

lemma write_all_xid: "write_all IO es tb = Inr tb1 \<Longrightarrow> tb_xid tb1 = tb_xid tb"
  by (induction es arbitrary: tb) (auto simp: res_simps dest: write_xid)

lemma txn_push_xid: "txn_push IO e n tb = Inr tb1 \<Longrightarrow> tb_xid tb1 = tb_xid tb"
  by (auto simp: txn_push_def begin_spill_def Let_def dest: write_xid write_all_xid split: if_splits)

lemma on_data_step:
  assumes abs: "ingest_abs env holds st sp" and step: "on_data env bytes st = (st', r)"
  shows "case r of Inr _ \<Rightarrow> ingest_abs env holds st' (spec_data env bytes sp) | Inl _ \<Rightarrow> ingest_abs env holds st' sp"
proof (cases "decode (ie_lossy env) bytes")
  case (Inl e)
  with abs step show ?thesis by (auto simp: on_data_def)
next
  case (Inr msg)
  have eqs: "ig_dec st = sp_dec sp" "ig_engine st = sp_engine sp" "map_option tb_xid (ig_txn st) = map_option fst (sp_open sp)"
    using abs ingest_abs_open [OF abs] by (simp_all add: ingest_abs_def)
  show ?thesis
  proof (cases "(\<exists>a b c d e. msg = MRelation a b c d e) \<or> (\<exists>ids. msg = MTruncate ids)")
    case True
    then show ?thesis using abs step Inr eqs
      by (auto simp: on_data_def spec_data_def spec_log_def ingest_abs_def split: prod.splits option.splits)
  next
    case False
    then have c: "on_data env bytes st = (case ig_txn st of None \<Rightarrow> (st, Ok ()) | Some t \<Rightarrow>
        (case on_change (ie_f64 env) (ie_uuid env) (se_tables (ie_events env) (sp_engine sp)) (sp_dec sp) msg of
           DEnv e \<Rightarrow> (case txn_push (ie_io env) e (length bytes) t of Inl er \<Rightarrow> (st, Err er) | Inr t' \<Rightarrow> (st\<lparr>ig_txn := Some t'\<rparr>, Ok ()))
         | DSync n \<Rightarrow> (st\<lparr>ig_txn := Some (set_sync n t)\<rparr>, Ok ()) | DNone \<Rightarrow> (st, Ok ())))"
      "spec_data env bytes sp = (case sp_open sp of None \<Rightarrow> sp | Some (xid, es) \<Rightarrow>
        (case on_change (ie_f64 env) (ie_uuid env) (se_tables (ie_events env) (sp_engine sp)) (sp_dec sp) msg of
           DEnv e \<Rightarrow> sp\<lparr>sp_open := Some (xid, es @ [e]), sp_seen := sp_seen sp @ [e]\<rparr> | _ \<Rightarrow> sp))"
      using Inr eqs by (simp_all add: on_data_def spec_data_def Let_def split: message.splits cong: option.case_cong)
    show ?thesis
    proof (cases "ig_txn st")
      case None
      with c step abs ingest_abs_open [OF abs] show ?thesis by simp
    next
      case (Some t)
      with abs obtain xid es where sp: "sp_open sp = Some (xid, es)" "tb_xid t = xid" "tb_holds (ie_io env) t es"
        by (auto simp: ingest_abs_def split: option.splits)
      have sync: "tb_holds (ie_io env) (set_sync n t) es \<and> tb_xid (set_sync n t) = xid" for n
        using sp(2,3) by (simp add: set_sync_def tb_holds_def cong: option.case_cong)
      show ?thesis using c step abs Some sp sync txn_push_holds [OF _ sp(3)] txn_push_xid
        by (auto simp: ingest_abs_def spec_log_def split: decoded.splits sum.splits)
    qed
  qed
qed

lemma uncontrolled_stamped: "\<forall>e \<in> set es. built e \<Longrightarrow> uncontrolled (stamp_from s n es)"
  by (induction es arbitrary: n) (auto simp: built_def stamp_env_def is_control_def)

lemma uncontrolled_mark: "uncontrolled (mark_last es) \<longleftrightarrow> uncontrolled es"
proof (cases es rule: rev_cases)
  case (snoc xs x)
  then show ?thesis by (simp add: mark_last_snoc with_last_def is_control_def)
qed (simp add: mark_last_def)

context commit_writer
begin

text \<open>Appending a commit: the whole transaction on success, a prefix of it on failure.\<close>

lemma append_commit_chunked_holds:
  assumes hold: "holds l d" and tb: "tb_holds IO t es" and codec: "\<forall>e \<in> set es. codec_ok IO e" and built: "\<forall>e \<in> set es. built e"
    and run: "append_commit_chunked (app now) IO t lsn l = (l', r)"
  shows "case r of Inr _ \<Rightarrow> holds l' (d @ stamped (commit_stamp lsn (tb_xid t), es))
     | Inl _ \<Rightarrow> \<exists>p. prefix p (stamped (commit_stamp lsn (tb_xid t), es)) \<and> holds l' (d @ p)"
proof -
  let ?s = "commit_stamp lsn (tb_xid t)"
  let ?cs = "mark_final (map (map fst) (txn_pack.pack_all (cfg_append_bytes (tb_cfg t)) (costed IO ?s 0 es)))"
  have cc: "concat ?cs = stamped (?s, es)" by (simp add: concat_packed stamped_def)
  have "uncontrolled (concat ?cs)" unfolding cc stamped_def using uncontrolled_stamped [OF built] by (simp add: uncontrolled_mark)
  then have un: "\<forall>c \<in> set ?cs. uncontrolled c" by (auto simp: list_all_iff)
  have "append_commit_chunked (app now) IO t lsn l = append_list (app now) ?cs 0 l"
    unfolding append_commit_chunked_def by (rule append_chunks_drain [OF drain_of_holds [OF tb codec lessI]])
  with run have "append_list (app now) ?cs 0 l = (l', r)" by simp
  from append_list_holds [OF hold un this] show ?thesis unfolding cc .
qed

lemma on_event_step:
  assumes abs: "ingest_abs env holds st sp" and ok: "spec_ok sp"
    and ops: "ie_append env = app" "ie_rotate env = rot"
    and codec: "\<forall>e \<in> set (sp_seen sp). codec_ok (ie_io env) e" and step: "on_event env now ev st = (st', r)"
  shows "case r of Inr _ \<Rightarrow> ingest_abs env holds st' (spec_event env ev sp)
     | Inl _ \<Rightarrow> ig_acked st' = sp_acks sp \<and>
         (\<exists>p. holds (ig_log st') (spec_log sp @ p) \<and> prefix (spec_log sp @ p) (spec_log (spec_event env ev sp)))"
proof (cases ev)
  case (EvXLogData bytes)
  with step on_data_step [OF abs, of bytes st' r] show ?thesis
    by (auto simp: on_event_def spec_event_def ingest_abs_def spec_log_def spec_data_def split: sum.splits message.splits option.splits decoded.splits prod.splits
        intro!: exI [of _ "[]"])
next
  case (EvCommit lsn end_lsn)
  show ?thesis
  proof (cases "ig_txn st")
    case None
    with step EvCommit abs ingest_abs_open [OF abs] show ?thesis by (auto simp: on_event_def on_commit_def spec_event_def)
  next
    case (Some t)
    with abs obtain xid es where sp: "sp_open sp = Some (xid, es)" "tb_xid t = xid" "tb_holds (ie_io env) t es"
      by (auto simp: ingest_abs_def split: option.splits)
    have es: "set es \<subseteq> set (sp_seen sp)" using ok sp(1) by (auto simp: spec_ok_def)
    obtain l1 r1 where run: "append_commit_chunked (app now) (ie_io env) t lsn (ig_log st) = (l1, r1)" by fastforce
    have hold: "holds (ig_log st) (spec_log sp)" using abs by (simp add: ingest_abs_def)
    have c: "\<forall>e \<in> set es. codec_ok (ie_io env) e" "\<forall>e \<in> set es. built e" using codec es ok by (auto simp: spec_ok_def)
    note res = append_commit_chunked_holds [OF hold sp(3) c run]
    have log: "spec_log (spec_event env ev sp) = spec_log sp @ stamped (commit_stamp lsn xid, es)"
      using sp(1) EvCommit by (simp add: spec_event_def spec_log_def)
    show ?thesis
    proof (cases r1)
      case (Inl e)
      with res obtain p where "prefix p (stamped (commit_stamp lsn xid, es))" "holds l1 (spec_log sp @ p)" using sp(2) by auto
      then show ?thesis using step EvCommit Some run Inl abs ops log by (auto simp: on_event_def on_commit_def ingest_abs_def intro!: exI [of _ p])
    next
      case (Inr n)
      have "holds (rot now l1) (spec_log sp @ stamped (commit_stamp lsn xid, es))"
        using res Inr sp(2) by (intro rot_keeps) simp
      then show ?thesis using step EvCommit Some run Inr abs ops log sp(1)
        by (auto simp: on_event_def on_commit_def ingest_abs_def spec_event_def)
    qed
  qed
next
  case (EvBegin xid)
  with step abs show ?thesis by (auto simp: on_event_def spec_event_def ingest_abs_def spec_log_def txn_new_def tb_holds_def)
next
  case (EvKeepAlive w)
  with step abs ingest_abs_open [OF abs] show ?thesis
    by (auto simp: on_event_def spec_event_def keepalive_ack_lsn_def ingest_abs_def spec_log_def split: if_splits option.splits)
next
  case EvOther
  with step abs show ?thesis by (auto simp: on_event_def spec_event_def)
qed

lemma stream_loop_refines:
  assumes "ingest_abs env holds st sp" and "spec_ok sp"
    and ops: "ie_append env = app" "ie_rotate env = rot"
    and "\<forall>e \<in> set (sp_seen (spec_run env tns sp)). codec_ok (ie_io env) e"
    and "stream_loop env tns st = (st', out)"
  shows "\<exists>n \<le> length tns. \<exists>p. holds (ig_log st') (spec_log (spec_run env (take n tns) sp) @ p)
     \<and> ig_acked st' = sp_acks (spec_run env (take n tns) sp)
     \<and> (if out = None then n = length tns \<and> p = []
        else if \<exists>e. out = Some (Inl e) then prefix (spec_log (spec_run env (take n tns) sp) @ p) (spec_log (spec_run env (take (Suc n) tns) sp))
        else p = [])"
  using assms(1,2,5,6)
proof (induction tns arbitrary: st sp)
  case Nil
  then show ?case by (auto simp: spec_run_def ingest_abs_def)
next
  case (Cons tn tns)
  obtain cur1 pl cur2 now where tn: "tn = (cur1, pl, cur2, now)" by (cases tn)
  obtain st1 o1 where turn: "stream_turn env tn st = (st1, o1)" by fastforce
  have start: "spec_run env (take 0 (tn # tns)) sp = sp" by (simp add: spec_run_def)
  have one: "spec_run env (take (Suc 0) (tn # tns)) sp = spec_turn env tn sp" by (simp add: spec_run_def)
  have stay: ?case if "st' = st \<or> st' = st\<lparr>ig_connected := True\<rparr>" "out = Some r" for r
    using that Cons.prems(1) start spec_turn_log [of sp env tn]
    by (intro exI [of _ 0] conjI exI [of _ "[]"]) (auto simp: ingest_abs_def spec_run_def)
  show ?case
  proof (cases "turn_event tn = None \<or> ingress_must_reconnect cur1 (ig_txn st \<noteq> None) \<or> ingress_must_reconnect cur2 (ig_txn st \<noteq> None)")
    case True
    then obtain r where r: "o1 = Some r" "st1 = st \<or> st1 = st\<lparr>ig_connected := True\<rparr>"
      using turn tn by (auto simp: stream_turn_def turn_event_def Let_def split: if_splits poll.splits option.splits)
    then have "st' = st1" "out = Some r" using Cons.prems(4) turn by auto
    then show ?thesis using stay [of r] r(2) by simp
  next
    case False
    then obtain ev where ev: "turn_event tn = Some ev" and pl: "pl = Polled (Some ev)" using tn by (auto simp: turn_event_def split: poll.splits)
    obtain st2 r where on: "on_event env now ev (st\<lparr>ig_connected := True\<rparr>) = (st2, r)" by fastforce
    have abs1: "ingest_abs env holds (st\<lparr>ig_connected := True\<rparr>) sp" using Cons.prems(1) by (simp add: ingest_abs_def)
    have sp1: "spec_turn env tn sp = spec_event env ev sp" using ev by (simp add: spec_turn_def)
    have run1: "spec_run env (tn # tns) sp = spec_run env tns (spec_event env ev sp)" using sp1 by (simp add: spec_run_def)
    have ok1: "spec_ok (spec_event env ev sp)" "set (sp_seen sp) \<subseteq> set (sp_seen (spec_event env ev sp))"
      using spec_turn_ok [OF Cons.prems(2), of env tn] sp1 by simp_all
    have codec: "\<forall>e \<in> set (sp_seen sp). codec_ok (ie_io env) e"
      using Cons.prems(3) ok1 spec_run_ok [OF ok1(1), of env tns] unfolding run1 by blast
    note step = on_event_step [OF abs1 Cons.prems(2) ops codec on]
    show ?thesis
    proof (cases r)
      case (Inl e)
      with on turn tn pl False have t: "st1 = st2" "o1 = Some (Inl e)" by (auto simp: stream_turn_def Let_def split: if_splits)
      with Cons.prems(4) turn have "st' = st2" "out = Some (Inl e)" by auto
      moreover from step Inl obtain p where "ig_acked st2 = sp_acks sp" "holds (ig_log st2) (spec_log sp @ p)"
        "prefix (spec_log sp @ p) (spec_log (spec_event env ev sp))" by auto
      ultimately show ?thesis using start one sp1 by (intro exI [of _ 0] conjI exI [of _ p]) auto
    next
      case (Inr u)
      with on turn tn pl False have t: "st1 = st2" "o1 = None" by (auto simp: stream_turn_def Let_def split: if_splits)
      then have rest: "stream_loop env tns st2 = (st', out)" using Cons.prems(4) turn by simp
      have abs2: "ingest_abs env holds st2 (spec_event env ev sp)" using step Inr by simp
      from Cons.IH [OF abs2 ok1(1) Cons.prems(3) [unfolded run1] rest] obtain n p where np: "n \<le> length tns"
        "holds (ig_log st') (spec_log (spec_run env (take n tns) (spec_event env ev sp)) @ p)"
        "ig_acked st' = sp_acks (spec_run env (take n tns) (spec_event env ev sp))"
        "if out = None then n = length tns \<and> p = []
         else if \<exists>e. out = Some (Inl e) then prefix (spec_log (spec_run env (take n tns) (spec_event env ev sp)) @ p) (spec_log (spec_run env (take (Suc n) tns) (spec_event env ev sp)))
         else p = []" by blast
      have "spec_run env (take (Suc k) (tn # tns)) sp = spec_run env (take k tns) (spec_event env ev sp)" for k
        using sp1 by (simp add: spec_run_def)
      with np show ?thesis by (intro exI [of _ "Suc n"] conjI exI [of _ p]) auto
    qed
  qed
qed

end

text \<open>C15: nothing is acknowledged before it is durable, and the log is the commits. Over a log that keeps
  the writer's contract, whatever the server sends, whenever the connection stops or fails, whether a
  transaction was buffered in memory or spilled and however its appends were chunked: the first \<open>n\<close>
  turns were handled, the log holds exactly the transactions committed in them, in commit order, each
  stamped \<open>0, 1, \<dots>\<close> with its commit's LSN and xid and with the end marker on its last envelope, and
  the positions acknowledged to the server are exactly those commits' ends and the keepalives met
  outside a transaction. Only when an append failed can there be more on the log, and then it is the
  beginning of the one transaction that failed, which was not acknowledged.\<close>

theorem ingest_acks_durable:
  assumes "commit_writer (ie_append env) (ie_rotate env) holds" and "holds l []"
    and "\<forall>e \<in> set (sp_seen (spec_run env tns (spec_start incarnation eng))). codec_ok (ie_io env) e"
    and "stream_loop env tns (ingest_start incarnation eng l last_lsn seq_no) = (st, out)"
  shows "\<exists>n \<le> length tns. \<exists>p.
     (let sp = spec_run env (take n tns) (spec_start incarnation eng);
          sp' = spec_run env (take (Suc n) tns) (spec_start incarnation eng)
      in holds (ig_log st) (concat (map stamped (sp_done sp)) @ p) \<and> ig_acked st = sp_acks sp
       \<and> (if out = None then n = length tns \<and> p = []
          else if \<exists>e. out = Some (Inl e) then prefix (concat (map stamped (sp_done sp)) @ p) (concat (map stamped (sp_done sp')))
          else p = []))"
proof -
  have "ingest_abs env holds (ingest_start incarnation eng l last_lsn seq_no) (spec_start incarnation eng)"
    using assms(2) by (simp add: ingest_abs_def ingest_start_def spec_start_def spec_log_def)
  from commit_writer.stream_loop_refines [OF assms(1) this spec_start_ok refl refl assms(3,4)] show ?thesis
    unfolding spec_log_def Let_def .
qed

section \<open>The ingestor feeds the sequencer\<close>

lemma stamp_from_nth: "length (stamp_from s n es) = length es \<and> (i < length es \<longrightarrow> stamp_from s n es ! i = stamp_env s (n + i) (es ! i))"
  by (induction es arbitrary: n i) (auto simp: nth_Cons split: nat.splits)

lemma mark_last_nth: "length (mark_last xs) = length xs \<and> (i < length xs \<longrightarrow> mark_last xs ! i = (if Suc i = length xs then with_last (xs ! i) else xs ! i))"
proof (cases xs rule: rev_cases)
  case (snoc ys y)
  then show ?thesis by (auto simp: mark_last_snoc nth_append)
qed (simp add: mark_last_def)

lemma stamped_nth:
  "length (stamped c) = length (snd c)"
  "i < length (snd c) \<Longrightarrow> stamped c ! i =
     (if Suc i = length (snd c) then with_last (stamp_env (fst c) i (snd c ! i)) else stamp_env (fst c) i (snd c ! i))"
  using stamp_from_nth [of "fst c" 0 "snd c" i] mark_last_nth [of "stamp_from (fst c) 0 (snd c)" i] by (auto simp: stamped_def)

definition commit_pos :: "stamp_t \<times> envelope list \<Rightarrow> nat" where
  "commit_pos c = lsn_to_u64 (st_lsn (fst c))"

lemma stamped_env:
  assumes "i < length (snd c)" and "\<forall>e \<in> set (snd c). built e"
  shows "stamp_of (stamped c ! i) = Some (commit_pos c, i)" "run_key (stamped c ! i) = (Some (st_txid (fst c)), Some (st_lsn (fst c)))"
    "marked (stamped c ! i) \<longleftrightarrow> Suc i = length (snd c)" "e_type (stamped c ! i) = e_type (snd c ! i)"
proof -
  have "h_last (e_headers (snd c ! i)) = None" using assms by (auto simp: built_def)
  then show "marked (stamped c ! i) \<longleftrightarrow> Suc i = length (snd c)"
    using assms(1) by (simp add: stamped_nth marked_def with_last_def stamp_env_def)
  show "stamp_of (stamped c ! i) = Some (commit_pos c, i)" "run_key (stamped c ! i) = (Some (st_txid (fst c)), Some (st_lsn (fst c)))"
    "e_type (stamped c ! i) = e_type (snd c ! i)"
    using assms(1) by (simp_all add: stamped_nth stamp_of_def run_key_def with_last_def stamp_env_def commit_pos_def)
qed

lemma stamped_mem:
  assumes "e \<in> set (stamped c)" and "\<forall>e \<in> set (snd c). built e"
  shows "\<exists>i < length (snd c). stamp_of e = Some (commit_pos c, i)
    \<and> run_key e = (Some (st_txid (fst c)), Some (st_lsn (fst c))) \<and> e_type e = e_type (snd c ! i)"
proof -
  from assms(1) obtain i where "i < length (snd c)" "e = stamped c ! i" by (auto simp: in_set_conv_nth stamped_nth(1))
  with stamped_env [OF _ assms(2)] show ?thesis by blast
qed

text \<open>What is said of the commits: their envelopes come from tables, their positions increase.\<close>

definition commits_ok :: "(stamp_t \<times> envelope list) list \<Rightarrow> bool" where
  "commits_ok D \<longleftrightarrow> sorted_wrt (<) (map commit_pos D)
     \<and> (\<forall>c \<in> set D. \<forall>e \<in> set (snd c). built e \<and> e_type e \<noteq> ENVELOPE_TYPE \<and> e_type e \<noteq> SOURCE_FENCE_ENVELOPE)"

lemma commits_ok_tail: "commits_ok (c # D) \<Longrightarrow> commits_ok D"
  by (simp add: commits_ok_def)

lemma commits_ok_mem: "commits_ok D \<Longrightarrow> c \<in> set D \<Longrightarrow> \<forall>e \<in> set (snd c). built e"
  by (simp add: commits_ok_def)

lemma commits_ok_head: "commits_ok (c # D) \<Longrightarrow> \<forall>e \<in> set (snd c). built e"
  by (simp add: commits_ok_def)

lemma commits_run_key:
  assumes "commits_ok D" and "e \<in> set (concat (map stamped D))"
  shows "\<exists>c \<in> set D. stamp_of e \<noteq> None \<and> fst (the (stamp_of e)) = commit_pos c
    \<and> run_key e = (Some (st_txid (fst c)), Some (st_lsn (fst c)))"
proof -
  from assms(2) obtain c where c: "c \<in> set D" "e \<in> set (stamped c)" by auto
  with stamped_mem [OF c(2) commits_ok_mem [OF assms(1) c(1)]] show ?thesis by auto
qed

lemma stamped_sorted: "\<forall>e \<in> set (snd c). built e \<Longrightarrow> sorted_wrt stamp_less (stamped c)"
  unfolding sorted_wrt_iff_nth_less using stamped_env(1) [of _ c] by (auto simp: stamped_nth(1) stamp_less_def pos_less_def)

lemma commits_sorted: "commits_ok D \<Longrightarrow> sorted_wrt stamp_less (concat (map stamped D))"
proof (induction D)
  case (Cons c D)
  have "stamp_less e e'" if e: "e \<in> set (stamped c)" and e': "e' \<in> set (concat (map stamped D))" for e e'
  proof -
    from stamped_mem [OF e commits_ok_head [OF Cons.prems]] have p: "fst (the (stamp_of e)) = commit_pos c" by auto
    from commits_run_key [OF commits_ok_tail [OF Cons.prems] e'] obtain c' where
      "c' \<in> set D" "fst (the (stamp_of e')) = commit_pos c'" by blast
    moreover have "commit_pos c < commit_pos c'" using Cons.prems \<open>c' \<in> set D\<close> by (simp add: commits_ok_def)
    ultimately show ?thesis using p by (simp add: stamp_less_def pos_less_def)
  qed
  with Cons.IH [OF commits_ok_tail [OF Cons.prems]] stamped_sorted [OF commits_ok_head [OF Cons.prems]] show ?case
    by (auto simp: sorted_wrt_append)
qed simp

lemma commits_inj: "commits_ok D \<Longrightarrow> c \<in> set D \<Longrightarrow> c' \<in> set D \<Longrightarrow> commit_pos c = commit_pos c' \<Longrightarrow> c = c'"
  using strict_sorted_iff [of "map commit_pos D"] by (auto simp: commits_ok_def distinct_map dest: inj_onD)

lemma lsn_pos: "run_key e = run_key e' \<Longrightarrow> stamp_of e \<noteq> None \<Longrightarrow> stamp_of e' \<noteq> None \<Longrightarrow> fst (the (stamp_of e)) = fst (the (stamp_of e'))"
  by (auto simp: run_key_def stamp_of_def split: option.splits)

lemma stamped_marks: "\<forall>e \<in> set (snd c). built e \<Longrightarrow> successively (\<lambda>e e'. marked e \<longleftrightarrow> run_key e \<noteq> run_key e') (stamped c)"
  unfolding successively_conv_nth using stamped_env [of _ c] by (auto simp: stamped_nth(1))

lemma stamped_last_marked: "\<forall>e \<in> set (snd c). built e \<Longrightarrow> snd c \<noteq> [] \<Longrightarrow> marked (last (stamped c))"
  using stamped_env(3) [of "length (snd c) - 1" c] stamped_nth(1) [of c] by (subst last_conv_nth) auto

lemma commits_boundary:
  assumes ok: "commits_ok (c # D)" and e: "e \<in> set (stamped c)" and e': "e' \<in> set (concat (map stamped D))"
  shows "run_key e \<noteq> run_key e'"
proof
  assume same: "run_key e = run_key e'"
  from stamped_mem [OF e commits_ok_head [OF ok]] have p: "stamp_of e \<noteq> None" "fst (the (stamp_of e)) = commit_pos c" by auto
  from commits_run_key [OF commits_ok_tail [OF ok] e'] obtain c' where
    c': "c' \<in> set D" "stamp_of e' \<noteq> None" "fst (the (stamp_of e')) = commit_pos c'" by blast
  from lsn_pos [OF same p(1) c'(2)] p(2) c'(1,3) ok show False by (auto simp: commits_ok_def)
qed

lemma commits_marks: "commits_ok D \<Longrightarrow> successively (\<lambda>e e'. marked e \<longleftrightarrow> run_key e \<noteq> run_key e') (concat (map stamped D))"
proof (induction D)
  case (Cons c D)
  note b = commits_ok_head [OF Cons.prems]
  have "marked (last (stamped c)) \<and> run_key (last (stamped c)) \<noteq> run_key (hd (concat (map stamped D)))"
    if "stamped c \<noteq> []" "concat (map stamped D) \<noteq> []"
  proof
    have "snd c \<noteq> []" using that(1) stamped_nth(1) [of c] by force
    then show "marked (last (stamped c))" by (rule stamped_last_marked [OF b])
    show "run_key (last (stamped c)) \<noteq> run_key (hd (concat (map stamped D)))"
      by (rule commits_boundary [OF Cons.prems last_in_set [OF that(1)] hd_in_set [OF that(2)]])
  qed
  with Cons.IH [OF commits_ok_tail [OF Cons.prems]] stamped_marks [OF b] show ?case by (auto simp: successively_append_iff)
qed simp

lemma commits_commit_log:
  assumes "commits_ok D"
  shows "commit_log (concat (map stamped D))"
  unfolding commit_log_def
proof (intro conjI ballI impI)
  show "list_all data_env (concat (map stamped D))"
  proof (unfold list_all_iff, rule ballI)
    fix e assume "e \<in> set (concat (map stamped D))"
    then obtain c where c: "c \<in> set D" "e \<in> set (stamped c)" by auto
    note b = commits_ok_mem [OF assms c(1)]
    from stamped_mem [OF c(2) b] obtain i where "i < length (snd c)" "stamp_of e \<noteq> None" "e_type e = e_type (snd c ! i)" by blast
    then show "data_env e" using assms c(1) by (auto simp: commits_ok_def data_env_def built_def is_control_def)
  qed
  show "sorted_wrt stamp_less (concat (map stamped D))" by (rule commits_sorted [OF assms])
  show "successively (\<lambda>e e'. marked e \<longleftrightarrow> run_key e \<noteq> run_key e') (concat (map stamped D))" by (rule commits_marks [OF assms])
next
  fix e e' assume e: "e \<in> set (concat (map stamped D))" and e': "e' \<in> set (concat (map stamped D))"
    and eq: "fst (the (stamp_of e)) = fst (the (stamp_of e'))"
  from commits_run_key [OF assms e] commits_run_key [OF assms e'] obtain c c' where
    c: "c \<in> set D" "fst (the (stamp_of e)) = commit_pos c" "run_key e = (Some (st_txid (fst c)), Some (st_lsn (fst c)))"
    and c': "c' \<in> set D" "fst (the (stamp_of e')) = commit_pos c'" "run_key e' = (Some (st_txid (fst c')), Some (st_lsn (fst c')))" by blast
  with commits_inj [OF assms c(1) c'(1)] eq show "run_key e = run_key e'" by simp
qed

lemma txns_commits: "commits_ok D \<Longrightarrow> txns (concat (map stamped D)) = map stamped (filter (\<lambda>c. snd c \<noteq> []) D)"
proof (induction D)
  case (Cons c D)
  note b = commits_ok_head [OF Cons.prems]
  show ?case
  proof (cases "snd c = []")
    case True
    then have "stamped c = []" using stamped_nth(1) [of c] by simp
    with True Cons.IH [OF commits_ok_tail [OF Cons.prems]] show ?thesis by simp
  next
    case False
    then have ne: "stamped c \<noteq> []" using stamped_nth(1) [of c] by auto
    have "list_all (\<lambda>e. run_key e = (Some (st_txid (fst c)), Some (st_lsn (fst c)))) (stamped c)"
      using stamped_mem [OF _ b] by (auto simp: list_all_iff)
    then have "txns (stamped c) = [stamped c]" using ne by (intro txns_single)
    moreover have "concat (map stamped D) = [] \<or> run_key (last (stamped c)) \<noteq> run_key (hd (concat (map stamped D)))"
      using commits_boundary [OF Cons.prems last_in_set [OF ne] hd_in_set] by auto
    ultimately show ?thesis using txns_append [of "stamped c" "concat (map stamped D)"] False Cons.IH [OF commits_ok_tail [OF Cons.prems]] by simp
  qed
qed simp


section \<open>One commit, by example\<close>

definition ex_columns :: "rel_column list" where
  "ex_columns = map (\<lambda>n. \<lparr>rl_name = n, rl_type_oid = 25, rl_typmod = 0, rl_key = True\<rparr>) [''org'', ''role'', ''user'']"

definition ex_relation :: message where
  "ex_relation = MRelation 1 ''public'' ''members'' 102 ex_columns"

definition ex_new_row :: message where
  "ex_new_row = MInsert 1 [CText ''1'', CNull, CText ''u'']"

definition ex_ingested :: envelope where
  "ex_ingested = (let n = JObj (tuple_to_map exact_f64 [CText ''1'', CNull, CText ''u''] [''org'', ''role'', ''user''] ex_schema)
     in make_env exact_f64 ex_table ex_schema ''insert'' (Some n) None n)"

definition ex_ingest_env :: "(mem_state log_writer, unit) ingest_env" where
  "ex_ingest_env =
     \<lparr>ie_f64 = exact_f64, ie_uuid = (\<lambda>_. None), ie_lossy = ascii_dec,
      ie_events = \<lparr>se_tables = (\<lambda>_ t. if t = ex_table then Some ex_schema else None), se_drift = (\<lambda>_ _ _ e. e), se_truncate = (\<lambda>_ _ e. e)\<rparr>,
      ie_io = \<lparr>io_ser = (\<lambda>_. ''x''), io_de = (\<lambda>_. Ok ex_ingested), io_mem = (\<lambda>_. 1), io_disk = (\<lambda>_. True)\<rparr>,
      ie_cfg = ex_txn_cfg, ie_append = append_commit mem_store, ie_rotate = maybe_rotate mem_store default_change_log_config\<rparr>"

definition ex_turn :: "repl_event \<Rightarrow> turn" where
  "ex_turn ev = (True, Polled (Some ev), True, 0)"

definition ex_turns :: "turn list" where
  "ex_turns = map ex_turn [EvBegin 7, EvXLogData (encode ascii_enc ex_relation), EvXLogData (encode ascii_enc ex_new_row),
     EvKeepAlive 15, EvCommit ''0/1'' 20, EvKeepAlive 30]"

lemma ex_decode:
  "decode ascii_dec (encode ascii_enc ex_relation) = Ok ex_relation" "decode ascii_dec (encode ascii_enc ex_new_row) = Ok ex_new_row"
proof -
  have "wf_message ascii_enc ascii_dec ex_relation"
    by (simp add: ex_relation_def ex_columns_def wf_name_def ascii_enc_def ascii_dec_def char_of_def bit_Suc_0_iff)
  then show "decode ascii_dec (encode ascii_enc ex_relation) = Ok ex_relation"
    using reads_message [unfolded reads_def, rule_format, of ascii_enc ascii_dec ex_relation 0 "[]"] by (simp add: decode_def)
  have "wf_message ascii_enc ascii_dec ex_new_row"
    by (simp add: ex_new_row_def wf_tuple_def ascii_enc_def ascii_dec_def char_of_def bit_Suc_0_iff)
  then show "decode ascii_dec (encode ascii_enc ex_new_row) = Ok ex_new_row"
    using reads_message [unfolded reads_def, rule_format, of ascii_enc ascii_dec ex_new_row 0 "[]"] by (simp add: decode_def)
qed

lemma ex_ingest_env_simps [simp]:
  "ie_f64 ex_ingest_env = exact_f64" "ie_uuid ex_ingest_env = (\<lambda>_. None)" "ie_lossy ex_ingest_env = ascii_dec"
  "se_tables (ie_events ex_ingest_env) e = (\<lambda>t. if t = ex_table then Some ex_schema else None)"
  "ie_append ex_ingest_env = append_commit mem_store" "ie_rotate ex_ingest_env = maybe_rotate mem_store default_change_log_config"
  "codec_ok (ie_io ex_ingest_env) ex_ingested"
  by (simp_all add: ex_ingest_env_def codec_ok_def newline_def)

abbreviation ex_decoder :: decoder where
  "ex_decoder \<equiv> \<lparr>dec_incarnation = Some [], dec_rels = [1 \<mapsto> \<lparr>rm_table = Some ex_table, rm_columns = [''org'', ''role'', ''user'']\<rparr>]\<rparr>"

lemma ex_on_relation:
  "on_relation (ie_events ex_ingest_env) (Some x) 1 ''public'' ''members'' 102 ex_columns (decoder_new\<lparr>dec_incarnation := Some []\<rparr>, ()) = (ex_decoder, ())"
proof -
  have new: "table_new ''public'' ''members'' = Inr ex_table"
    by (simp add: table_new_def check_schema_def check_part_def RESERVED_SCHEMA_def ex_table_def)
  show ?thesis by (simp add: on_relation_def new observed_fingerprint_def ex_columns_def decoder_new_def ex_schema_def column_names_def)
qed

lemma ex_on_change:
  "on_change exact_f64 u (\<lambda>t. if t = ex_table then Some ex_schema else None) ex_decoder ex_new_row = DEnv ex_ingested"
proof -
  have "ex_table \<noteq> sync_table" "ex_table \<noteq> marker_table" "ex_table \<noteq> source_fence_table"
    by (simp_all add: ex_table_def sync_table_def marker_table_def source_fence_table_def own_table_def)
  then show ?thesis
    by (simp add: on_change_def message_rel_def env_or_none_def build_envelope_def ex_new_row_def ex_ingested_def Let_def)
qed

lemma ex_spec:
  "spec_run ex_ingest_env ex_turns (spec_start [] ()) =
     \<lparr>sp_dec = ex_decoder, sp_engine = (), sp_open = None, sp_seen = [ex_ingested],
      sp_done = [(commit_stamp ''0/1'' 7, [ex_ingested])], sp_acks = [20, 30]\<rparr>"
proof -
  have rel: "spec_data ex_ingest_env (encode ascii_enc ex_relation) sp = sp\<lparr>sp_dec := ex_decoder, sp_engine := ()\<rparr>"
    if "sp_open sp = Some (x, es)" "sp_dec sp = decoder_new\<lparr>dec_incarnation := Some []\<rparr>" "sp_engine sp = ()" for sp x es
    using that ex_on_relation by (simp add: spec_data_def ex_decode) (simp add: ex_relation_def)
  have row: "spec_data ex_ingest_env (encode ascii_enc ex_new_row) sp = sp\<lparr>sp_open := Some (x, es @ [ex_ingested]), sp_seen := sp_seen sp @ [ex_ingested]\<rparr>"
    if "sp_open sp = Some (x, es)" "sp_dec sp = ex_decoder" for sp x es
    using that ex_on_change by (simp add: spec_data_def ex_decode) (simp add: ex_new_row_def)
  show ?thesis
    by (simp add: spec_run_def ex_turns_def ex_turn_def spec_turn_def turn_event_def spec_event_def spec_start_def rel row)
qed

theorem ingest_acks_durable_witness:
  "\<exists>st out n p. stream_loop ex_ingest_env ex_turns (ingest_start [] () (ex_log_writer []) ''0/0'' 0) = (st, out)
     \<and> n \<le> length ex_turns
     \<and> log_holds ms_streams 0 (ig_log st) (concat (map stamped (sp_done (spec_run ex_ingest_env (take n ex_turns) (spec_start [] ())))) @ p)
     \<and> ig_acked st = sp_acks (spec_run ex_ingest_env (take n ex_turns) (spec_start [] ()))
     \<and> (out = None \<longrightarrow> n = length ex_turns \<and> p = [])"
proof -
  obtain st out where run: "stream_loop ex_ingest_env ex_turns (ingest_start [] () (ex_log_writer []) ''0/0'' 0) = (st, out)" by fastforce
  have w: "commit_writer (ie_append ex_ingest_env) (ie_rotate ex_ingest_env) (log_holds ms_streams 0)"
    by (simp add: mem.change_log_writer)
  have "log_data ms_streams 0 0 (lw_ds (ex_log_writer [])) = []"
    by (simp add: log_data_def seg_data_def seg_def stream_at_def ex_log_writer_def ex_seg0_qualify)
  then have l: "log_holds ms_streams 0 (ex_log_writer []) []" using ex_writer_inv by (auto simp: log_holds_def)
  have c: "\<forall>e \<in> set (sp_seen (spec_run ex_ingest_env ex_turns (spec_start [] ()))). codec_ok (ie_io ex_ingest_env) e"
    by (simp add: ex_spec)
  from ingest_acks_durable [OF w l c run] obtain n p where "n \<le> length ex_turns"
    "log_holds ms_streams 0 (ig_log st) (concat (map stamped (sp_done (spec_run ex_ingest_env (take n ex_turns) (spec_start [] ())))) @ p)"
    "ig_acked st = sp_acks (spec_run ex_ingest_env (take n ex_turns) (spec_start [] ()))"
    "out = None \<longrightarrow> n = length ex_turns \<and> p = []" by (auto simp: Let_def split: if_splits)
  with run show ?thesis by blast
qed


end
