(* ===== verification/Reconnect.thy ===== *)
theory Reconnect
  imports Ingest
begin

text \<open>
  The ingestor across connections: the outer loop \<open>run\<close> of \<^verbatim>\<open>replication.rs\<close> with its admission check,
  bounded set-up and backoff, over any number of processes. A replication slot starts every connection
  at the position it was told last; together with the sequencer's de-duplication this makes every
  commit reach the executors exactly once.
\<close>

section \<open>Set-up of a connection\<close>

datatype 'a await_outcome = Ready 'a | Failed error | Shutdown | TimedOut

text \<open>\<open>r\<close> is what the awaited call gives before the deadline, if anything.\<close>

definition await_with_shutdown :: "bool \<Rightarrow> 'a result option \<Rightarrow> 'a await_outcome" where
  "await_with_shutdown shutting_down r =
     (if shutting_down then Shutdown
      else (case r of None \<Rightarrow> TimedOut | Some (Inr v) \<Rightarrow> Ready v | Some (Inl e) \<Rightarrow> Failed e))"

datatype refused = EpochBroken string | SlotBusy "int option" | CheckFailed

text \<open>What one turn of \<open>run\<close> meets: the shutdown flag, the answer of \<open>before_connect\<close>, the connection
  configuration, the two bounded waits of the set-up, the engine the connection finds, the two
  admission checks and the time of its first frame, the frames after it, and the clock's noise.\<close>

record 'e attempt =
  at_shutdown :: bool
  at_admission :: "refused + string"
  at_config :: "unit result"
  at_connect :: "bool \<times> unit result option"
  at_first :: "bool \<times> repl_event option result option"
  at_engine :: 'e
  at_checks :: "bool \<times> bool \<times> nat"
  at_turns :: "turn list"
  at_nanos :: nat

type_synonym 'e conn = "string \<times> 'e \<times> turn list \<times> nat list"

text \<open>\<open>rn_waits\<close> are the waits taken so far, \<open>rn_trace\<close> the connections made, with what each was sent and
  what it acknowledged.\<close>

record ('l, 'e) run_state =
  rn_attempt :: nat
  rn_waits :: "nat list"
  rn_log :: 'l
  rn_last_lsn :: string
  rn_sync_seq :: int
  rn_trace :: "'e conn list"

definition first_turn :: "'e attempt \<Rightarrow> repl_event \<Rightarrow> turn" where
  "first_turn a ev = (case at_checks a of (cur1, cur2, now) \<Rightarrow> (cur1, Polled (Some ev), cur2, now))"

definition connection ::
  "('l, 'e) ingest_env \<Rightarrow> string \<Rightarrow> 'e attempt \<Rightarrow> ('l, 'e) ingest \<Rightarrow> ('l, 'e) ingest \<times> stream_end result option \<times> turn list" where
  "connection env incarnation a st =
     (case await_with_shutdown (fst (at_connect a)) (snd (at_connect a)) of
        Failed e \<Rightarrow> (st, Some (Err e), [])
      | Shutdown \<Rightarrow> (st, Some (Ok ShuttingDown), [])
      | TimedOut \<Rightarrow> (st, Some (Err (Other ''replication connect timed out'')), [])
      | Ready _ \<Rightarrow>
          (case await_with_shutdown (fst (at_first a)) (snd (at_first a)) of
             Ready (Some ev) \<Rightarrow>
               (let tns = first_turn a ev # at_turns a in
                case stream_loop env tns st of (st', out) \<Rightarrow> (st', out, tns))
           | Ready None \<Rightarrow> (st, Some (Ok Ended), [])
           | Failed e \<Rightarrow> (st, Some (Err e), [])
           | Shutdown \<Rightarrow> (st, Some (Ok ShuttingDown), [])
           | TimedOut \<Rightarrow> (st, Some (Err (Other ''replication setup timed out'')), [])))"

section \<open>The outer loop\<close>

definition back_off :: "bool \<Rightarrow> nat \<Rightarrow> ('l, 'e) run_state \<Rightarrow> ('l, 'e) run_state" where
  "back_off reached nanos rs =
     (case next_backoff (rn_attempt rs) reached of
        (base, nxt) \<Rightarrow> rs\<lparr>rn_attempt := nxt, rn_waits := rn_waits rs @ [jitter base nanos]\<rparr>)"

text \<open>One turn of the loop, and whether another follows. A connection whose frames end without an outcome
  is one its process did not survive.\<close>

definition run_attempt :: "('l, 'e) ingest_env \<Rightarrow> 'e attempt \<Rightarrow> ('l, 'e) run_state \<Rightarrow> ('l, 'e) run_state \<times> bool" where
  "run_attempt env a rs =
     (if at_shutdown a then (rs, False)
      else (case at_admission a of
              Inl _ \<Rightarrow> (back_off False (at_nanos a) rs, True)
            | Inr incarnation \<Rightarrow>
                (case at_config a of
                   Inl _ \<Rightarrow> (back_off False (at_nanos a) rs, True)
                 | Inr _ \<Rightarrow>
                     (case connection env incarnation a
                             (ingest_start incarnation (at_engine a) (rn_log rs) (rn_last_lsn rs) (rn_sync_seq rs)) of
                        (st, out, tns) \<Rightarrow>
                          (let rs1 = rs\<lparr>rn_log := ig_log st, rn_last_lsn := ig_last_lsn st, rn_sync_seq := ig_sync_seq st,
                                       rn_trace := rn_trace rs @ [(incarnation, at_engine a, tns, ig_acked st)]\<rparr>
                           in case out of
                                None \<Rightarrow> (rs1, False)
                              | Some (Inr ShuttingDown) \<Rightarrow> (rs1, False)
                              | Some (Inr Ended) \<Rightarrow> (back_off (ig_connected st) (at_nanos a) rs1, True)
                              | Some (Inl _) \<Rightarrow> (back_off (ig_connected st) (at_nanos a) rs1, True))))))"

fun run_loop :: "('l, 'e) ingest_env \<Rightarrow> 'e attempt list \<Rightarrow> ('l, 'e) run_state \<Rightarrow> ('l, 'e) run_state" where
  "run_loop env [] rs = rs"
| "run_loop env (a # as) rs = (case run_attempt env a rs of (rs', go_on) \<Rightarrow> if go_on then run_loop env as rs' else rs')"

text \<open>One process after another on the same log.\<close>

definition processes :: "('l, 'e) ingest_env \<Rightarrow> 'e attempt list list \<Rightarrow> ('l, 'e) run_state \<Rightarrow> ('l, 'e) run_state" where
  "processes env pss rs = fold (\<lambda>as rs. run_loop env as (rs\<lparr>rn_attempt := 0\<rparr>)) pss rs"

definition run_start :: "'l \<Rightarrow> string \<Rightarrow> int \<Rightarrow> ('l, 'e) run_state" where
  "run_start l last_lsn seq_no =
     \<lparr>rn_attempt = 0, rn_waits = [], rn_log = l, rn_last_lsn = last_lsn, rn_sync_seq = seq_no, rn_trace = []\<rparr>"

section \<open>The schedule\<close>

lemma jitter_bounds:
  assumes "RECONNECT_MIN \<le> base"
  shows "3 * base \<le> 4 * jitter base nanos" "4 * jitter base nanos \<le> 5 * base"
proof -
  define s q m where "s = base div 2" and "q = s div 2" and "m = nanos mod s"
  have s: "2 * s \<le> base" "0 < s" using assms by (simp_all add: s_def RECONNECT_MIN_def)
  have q: "2 * q \<le> s" "s \<le> 2 * q + 1" by (simp_all add: q_def)
  have m: "m < s" using s by (simp add: m_def)
  have "jitter base nanos = (base - q) + m" using s by (simp add: jitter_def Let_def s_def q_def m_def)
  with s q m show "3 * base \<le> 4 * jitter base nanos" "4 * jitter base nanos \<le> 5 * base" by linarith+
qed

lemma backoff_base_bounds: "RECONNECT_MIN \<le> backoff_base n" "backoff_base n \<le> RECONNECT_MAX"
  by (simp_all add: backoff_base_def RECONNECT_MIN_def RECONNECT_MAX_def)

text \<open>Every wait lies within a quarter of the schedule.\<close>

lemma run_loop_waits:
  "\<forall>w \<in> set (rn_waits rs). 750 \<le> w \<and> w \<le> 37500 \<Longrightarrow> \<forall>w \<in> set (rn_waits (run_loop env as rs)). 750 \<le> w \<and> w \<le> 37500"
proof (induction "as" arbitrary: rs)
  case (Cons a "as")
  obtain rs' b where run: "run_attempt env a rs = (rs', b)" by fastforce
  have j: "750 \<le> jitter (backoff_base n) k \<and> jitter (backoff_base n) k \<le> 37500" for n k
    using jitter_bounds [OF backoff_base_bounds(1), of n k] backoff_base_bounds [of n] by (simp add: RECONNECT_MIN_def RECONNECT_MAX_def)
  from run Cons.prems j have w: "\<forall>w \<in> set (rn_waits rs'). 750 \<le> w \<and> w \<le> 37500"
    by (auto simp: run_attempt_def back_off_def next_backoff_def Let_def split: if_splits sum.splits prod.splits option.splits stream_end.splits)
  from Cons.IH [OF w] run w show ?case by simp
qed simp

section \<open>The replication slot\<close>

text \<open>The server's side, as its documentation has it. The history is the list of its commits, each with the
  end position that acknowledges it. A connection is sent the commits after the slot's confirmed
  position, in order, and no position it is told between transactions lies beyond a commit it was not
  sent. The confirmed position moves only forward, to a position a connection acknowledged; which of
  them reached the server is not known.\<close>

type_synonym history = "((stamp_t \<times> envelope list) \<times> nat) list"

definition covered :: "history \<Rightarrow> nat \<Rightarrow> nat" where
  "covered H w = length (takeWhile (\<lambda>h. snd h \<le> w) H)"

definition serves :: "('l, 'e) ingest_env \<Rightarrow> history \<Rightarrow> nat \<Rightarrow> 'e conn \<Rightarrow> bool" where
  "serves env H k cn \<longleftrightarrow>
     (case cn of (incarnation, eng, tns, acks) \<Rightarrow>
        \<forall>n \<le> length tns. let sp = spec_run env (take n tns) (spec_start incarnation eng)
          in prefix (sp_done sp) (drop k (map fst H)) \<and> (\<forall>w \<in> set (sp_acks sp). covered H w \<le> k + length (sp_done sp)))"

inductive slot :: "('l, 'e) ingest_env \<Rightarrow> history \<Rightarrow> 'e conn list \<Rightarrow> nat \<Rightarrow> bool" for env H where
  slot_new: "slot env H [] 0"
| slot_kept: "slot env H cs k \<Longrightarrow> serves env H k cn \<Longrightarrow> slot env H (cs @ [cn]) k"
| slot_moved: "slot env H cs k \<Longrightarrow> serves env H k cn \<Longrightarrow> w \<in> set (snd (snd (snd cn))) \<Longrightarrow> k \<le> covered H w \<Longrightarrow>
    slot env H (cs @ [cn]) (covered H w)"

inductive_cases slot_snocE: "slot env H (cs @ [cn]) k"

section \<open>What reaches the log\<close>

abbreviation commit_data :: "(stamp_t \<times> envelope list) list \<Rightarrow> envelope list" where
  "commit_data C \<equiv> concat (map stamped C)"

text \<open>The log is a sequence of deliveries of the commits, expected to go on at or after the start of commit \<open>k\<close>.\<close>

definition delivers :: "(stamp_t \<times> envelope list) list \<Rightarrow> nat \<Rightarrow> envelope list \<Rightarrow> bool" where
  "delivers C k d \<longleftrightarrow> (\<exists>is c. d = map ((!) (commit_data C)) is \<and> deliveries (commit_data C) 0 is c
     \<and> length (commit_data (take k C)) \<le> c)"

lemma deliveries_run: "a \<le> b \<Longrightarrow> b \<le> length es \<Longrightarrow> deliveries es a [a..<b] b"
proof (induction "b - a" arbitrary: a)
  case (Suc n)
  then have "deliveries es (Suc a) [Suc a..<b] b" by simp
  with Suc show ?case by (simp add: upt_conv_Cons)
qed simp

lemma deliveries_upt:
  assumes "b \<le> length es" and "a \<le> c" and "a < b \<Longrightarrow> starts es a"
  shows "deliveries es c [a..<b] (if a < b then b else c)"
  using assms deliveries_run [of "Suc a" b es] by (auto simp: upt_conv_Cons)

lemma commits_ok_take: "commits_ok C \<Longrightarrow> commits_ok (take k C)"
  by (auto simp: commits_ok_def take_map [symmetric] sorted_wrt_take dest: in_set_takeD)

lemma commits_last_marked: "commits_ok D \<Longrightarrow> commit_data D \<noteq> [] \<Longrightarrow> marked (last (commit_data D))"
proof (induction D rule: rev_induct)
  case (snoc c D)
  have D: "commits_ok D" and b: "\<forall>e \<in> set (snd c). built e"
    using snoc.prems(1) by (auto simp: commits_ok_def sorted_wrt_append)
  show ?case
  proof (cases "snd c = []")
    case True
    then have "stamped c = []" using stamped_nth(1) [of c] by simp
    with snoc D show ?thesis by simp
  next
    case False
    then have "stamped c \<noteq> []" using stamped_nth(1) [of c] by force
    with stamped_last_marked [OF b False] show ?thesis by simp
  qed
qed simp

text \<open>The start of a commit is a place where re-delivery may begin.\<close>

lemma commit_boundary:
  assumes "commits_ok C"
  shows "length (commit_data (take k C)) = 0 \<or> marked (commit_data C ! (length (commit_data (take k C)) - 1))"
    "length (commit_data (take k C)) < length (commit_data C) \<Longrightarrow> starts (commit_data C) (length (commit_data (take k C)))"
proof -
  let ?D = "commit_data (take k C)" and ?es = "commit_data C"
  have es: "?es = ?D @ commit_data (drop k C)" by (metis append_take_drop_id concat_append map_append)
  have m: "marked (?es ! (length ?D - 1))" if "?D \<noteq> []"
    using commits_last_marked [OF commits_ok_take [OF assms] that] that by (simp add: es nth_append last_conv_nth)
  then show "length ?D = 0 \<or> marked (?es ! (length ?D - 1))" by auto
  show "starts ?es (length ?D)" if "length ?D < length ?es"
    using m commit_log_marked [OF commits_commit_log [OF assms], of "length ?D - 1"] that by (cases "?D = []") (auto simp: starts_def)
qed

lemma delivers_step:
  assumes ok: "commits_ok C" and d: "delivers C k d"
    and p: "prefix p (commit_data (take 1 (drop (k + n) C)))" and k': "k' \<le> k + n"
  shows "delivers C k' (d @ commit_data (take n (drop k C)) @ p)"
proof -
  let ?es = "commit_data C" and ?off = "\<lambda>j. length (commit_data (take j C))"
  from d obtain js c where d: "d = map ((!) ?es) js" "deliveries ?es 0 js c" "?off k \<le> c" by (auto simp: delivers_def)
  define a b where "a = ?off k" and "b = ?off (k + n) + length p"
  obtain q where q: "commit_data (take 1 (drop (k + n) C)) = p @ q" using p by (auto simp: prefix_def)
  have "C = take k C @ take n (drop k C) @ take 1 (drop (k + n) C) @ drop 1 (drop (k + n) C)"
    by (metis add.commute append_take_drop_id drop_drop)
  then have es: "?es = commit_data (take k C) @ commit_data (take n (drop k C)) @ p @ q @ commit_data (drop 1 (drop (k + n) C))"
    by (metis append.assoc concat_append map_append q)
  have off: "?off (k + n) = a + length (commit_data (take n (drop k C)))" by (simp add: a_def take_add)
  have b: "b \<le> length ?es" using es off by (simp add: a_def b_def)
  have "map ((!) ?es) [a..<b] = take (b - a) (drop a ?es)" using b by (intro nth_equalityI) auto
  also have "\<dots> = commit_data (take n (drop k C)) @ p" by (subst es) (simp add: a_def b_def off)
  finally have new: "map ((!) ?es) [a..<b] = commit_data (take n (drop k C)) @ p" .
  have "deliveries ?es c [a..<b] (if a < b then b else c)"
    using b d(3) commit_boundary(2) [OF ok, of k] by (intro deliveries_upt) (auto simp: a_def)
  with d(2) have "deliveries ?es 0 (js @ [a..<b]) (if a < b then b else c)" unfolding deliveries_append by blast
  moreover have "?off k' \<le> (if a < b then b else c)"
  proof -
    have "?off k' \<le> ?off (k + n)" using k' by (metis (no_types, lifting) append_take_drop_id concat_append le_add1 length_append map_append min.absorb1 take_take)
    moreover have "?off (k + n) \<le> b" by (simp add: b_def)
    ultimately show ?thesis using d(3) [folded a_def] by (cases "a < b") simp_all
  qed
  ultimately show ?thesis unfolding delivers_def
    using new d(1) by (intro exI [of _ "js @ [a..<b]"] exI [of _ "if a < b then b else c"]) simp
qed

section \<open>One connection\<close>

lemma spec_turn_done: "sp_done (spec_turn env tn sp) = sp_done sp \<or> (\<exists>c. sp_done (spec_turn env tn sp) = sp_done sp @ [c])"
proof (cases "turn_event tn")
  case (Some ev)
  have "sp_done (spec_data env bytes sp) = sp_done sp" for bytes
    by (auto simp: spec_data_def split: sum.splits message.splits option.splits decoded.splits prod.splits)
  with Some show ?thesis by (cases ev) (auto simp: spec_turn_def spec_event_def split: option.splits)
qed (simp add: spec_turn_def)

lemma spec_run_step: "n < length tns \<Longrightarrow> spec_run env (take (Suc n) tns) sp = spec_turn env (tns ! n) (spec_run env (take n tns) sp)"
  by (simp add: spec_run_def take_Suc_conv_app_nth)

lemma spec_next_done:
  "sp_done (spec_run env (take (Suc n) tns) sp) = sp_done (spec_run env (take n tns) sp)
     \<or> n < length tns \<and> (\<exists>c. sp_done (spec_run env (take (Suc n) tns) sp) = sp_done (spec_run env (take n tns) sp) @ [c])"
  using spec_turn_done [of env "tns ! n" "spec_run env (take n tns) sp"] spec_run_step [of n tns env sp]
  by (cases "n < length tns") simp_all

lemma commit_writer_after:
  assumes "commit_writer app rot holds"
  shows "commit_writer app rot (\<lambda>l d. holds l (x @ d))"
proof -
  from assms have w: "commit_writer app rot holds" .
  show ?thesis by unfold_locales (use w in \<open>fastforce simp: commit_writer_def\<close>)+
qed

text \<open>Whatever happens on a connection, the log grows by commits from the slot's position on, and perhaps the
  beginning of one more; what was acknowledged are commits that were appended.\<close>

lemma stream_loop_delivers:
  assumes w: "commit_writer (ie_append env) (ie_rotate env) holds" and l: "holds l d"
    and serves: "serves env H k (incarnation, eng, tns, acks)"
    and codec: "\<forall>e \<in> set (sp_seen (spec_run env tns (spec_start incarnation eng))). codec_ok (ie_io env) e"
    and run: "stream_loop env tns (ingest_start incarnation eng l last_lsn seq_no) = (st, out)"
  shows "\<exists>n p. holds (ig_log st) (d @ commit_data (take n (drop k (map fst H))) @ p)
     \<and> prefix p (commit_data (take 1 (drop (k + n) (map fst H))))
     \<and> (\<forall>w \<in> set (ig_acked st). covered H w \<le> k + n)"
proof -
  let ?C = "map fst H" and ?sp = "\<lambda>n. spec_run env (take n tns) (spec_start incarnation eng)"
  have "ingest_abs env (\<lambda>l x. holds l (d @ x)) (ingest_start incarnation eng l last_lsn seq_no) (spec_start incarnation eng)"
    using l by (simp add: ingest_abs_def ingest_start_def spec_start_def spec_log_def)
  from commit_writer.stream_loop_refines [OF commit_writer_after [OF w] this spec_start_ok refl refl codec run] obtain n p where
    n: "n \<le> length tns" "holds (ig_log st) (d @ spec_log (?sp n) @ p)" "ig_acked st = sp_acks (?sp n)"
    and p: "if out = None then n = length tns \<and> p = []
        else if \<exists>e. out = Some (Inl e) then prefix (spec_log (?sp n) @ p) (spec_log (?sp (Suc n))) else p = []" by blast
  have p: "p = [] \<or> prefix (spec_log (?sp n) @ p) (spec_log (?sp (Suc n)))" using p by (auto split: if_splits)
  have sv: "prefix (sp_done (?sp m)) (drop k ?C)" "\<forall>w \<in> set (sp_acks (?sp m)). covered H w \<le> k + length (sp_done (?sp m))" if "m \<le> length tns" for m
    using serves that by (auto simp: serves_def Let_def)
  let ?n = "length (sp_done (?sp n))"
  have upto: "take ?n (drop k ?C) = sp_done (?sp n)" using sv(1) [OF n(1)] by (auto simp: prefix_def)
  have "prefix p (commit_data (take 1 (drop (k + ?n) ?C)))"
    using spec_next_done [of env n tns "spec_start incarnation eng"]
  proof (elim disjE conjE exE)
    assume "sp_done (?sp (Suc n)) = sp_done (?sp n)"
    with p show ?thesis by (auto simp: spec_log_def)
  next
    fix c assume "n < length tns" and c: "sp_done (?sp (Suc n)) = sp_done (?sp n) @ [c]"
    with sv(1) [of "Suc n"] obtain zs where "drop k ?C = sp_done (?sp n) @ c # zs" by (auto simp: prefix_def)
    then have "drop (k + ?n) ?C = c # zs" by (metis add.commute append_eq_conv_conj drop_drop)
    with p c show ?thesis by (auto simp: spec_log_def)
  qed
  with n upto sv(2) [OF n(1)] show ?thesis by (intro exI [of _ ?n] exI [of _ p]) (auto simp: spec_log_def)
qed

section \<open>Any number of connections\<close>

definition codec_fits :: "('l, 'e) ingest_env \<Rightarrow> 'e conn \<Rightarrow> bool" where
  "codec_fits env cn \<longleftrightarrow> (case cn of (incarnation, eng, tns, acks) \<Rightarrow>
     \<forall>e \<in> set (sp_seen (spec_run env tns (spec_start incarnation eng))). codec_ok (ie_io env) e)"

text \<open>The invariant of the outer loop: whatever the slot may have confirmed, the log delivers the commits up
  to there.\<close>

definition run_inv :: "('l, 'e) ingest_env \<Rightarrow> ('l \<Rightarrow> envelope list \<Rightarrow> bool) \<Rightarrow> history \<Rightarrow> ('l, 'e) run_state \<Rightarrow> bool" where
  "run_inv env holds H rs \<longleftrightarrow>
     (\<forall>k. slot env H (rn_trace rs) k \<and> (\<forall>cn \<in> set (rn_trace rs). codec_fits env cn) \<longrightarrow>
        (\<exists>d. holds (rn_log rs) d \<and> delivers (map fst H) k d))"

lemma connection_delivers:
  assumes w: "commit_writer (ie_append env) (ie_rotate env) holds" and l: "holds l d"
    and run: "connection env incarnation a (ingest_start incarnation (at_engine a) l last_lsn seq_no) = (st, out, tns)"
    and "serves env H k (incarnation, at_engine a, tns, ig_acked st)" and "codec_fits env (incarnation, at_engine a, tns, ig_acked st)"
  shows "\<exists>n p. holds (ig_log st) (d @ commit_data (take n (drop k (map fst H))) @ p)
     \<and> prefix p (commit_data (take 1 (drop (k + n) (map fst H))))
     \<and> (\<forall>w \<in> set (ig_acked st). covered H w \<le> k + n)"
proof -
  have "tns = [] \<and> st = ingest_start incarnation (at_engine a) l last_lsn seq_no
      \<or> stream_loop env tns (ingest_start incarnation (at_engine a) l last_lsn seq_no) = (st, out)"
    using run by (auto simp: connection_def Let_def split: await_outcome.splits option.splits prod.splits)
  then show ?thesis
  proof
    assume "tns = [] \<and> st = ingest_start incarnation (at_engine a) l last_lsn seq_no"
    with l show ?thesis by (intro exI [of _ 0] exI [of _ "[]"]) (simp add: ingest_start_def)
  next
    assume "stream_loop env tns (ingest_start incarnation (at_engine a) l last_lsn seq_no) = (st, out)"
    from stream_loop_delivers [OF w l assms(4) _ this] assms(5) show ?thesis by (simp add: codec_fits_def)
  qed
qed

lemma slot_below: "slot env H cs k \<Longrightarrow> cs = xs @ [cn] \<Longrightarrow>
   \<exists>k0. slot env H xs k0 \<and> serves env H k0 cn \<and> (k = k0 \<or> (\<exists>w \<in> set (snd (snd (snd cn))). k = covered H w))"
  by (erule slot.cases) auto

lemma run_attempt_inv:
  assumes w: "commit_writer (ie_append env) (ie_rotate env) holds" and ok: "commits_ok (map fst H)"
    and inv: "run_inv env holds H rs" and run: "run_attempt env a rs = (rs', go_on)"
  shows "run_inv env holds H rs'"
proof (cases "rn_log rs' = rn_log rs \<and> rn_trace rs' = rn_trace rs")
  case True
  with inv show ?thesis by (simp add: run_inv_def)
next
  case False
  with run obtain incarnation st out tns where
    conn: "connection env incarnation a (ingest_start incarnation (at_engine a) (rn_log rs) (rn_last_lsn rs) (rn_sync_seq rs)) = (st, out, tns)"
    and rs': "rn_log rs' = ig_log st" "rn_trace rs' = rn_trace rs @ [(incarnation, at_engine a, tns, ig_acked st)]"
    by (auto simp: run_attempt_def Let_def back_off_def split: if_splits sum.splits prod.splits option.splits stream_end.splits)
  show ?thesis unfolding run_inv_def
  proof (intro allI impI)
    fix k assume k: "slot env H (rn_trace rs') k \<and> (\<forall>cn \<in> set (rn_trace rs'). codec_fits env cn)"
    from slot_below [OF conjunct1 [OF k] rs'(2)] obtain k0 where k0: "slot env H (rn_trace rs) k0"
      "serves env H k0 (incarnation, at_engine a, tns, ig_acked st)" "k = k0 \<or> (\<exists>w \<in> set (ig_acked st). k = covered H w)" by auto
    with inv k rs'(2) obtain d where d: "holds (rn_log rs) d" "delivers (map fst H) k0 d" by (auto simp: run_inv_def)
    from connection_delivers [OF w d(1) conn k0(2)] k rs'(2) obtain n p where
      "holds (ig_log st) (d @ commit_data (take n (drop k0 (map fst H))) @ p)"
      "prefix p (commit_data (take 1 (drop (k0 + n) (map fst H))))" "\<forall>w \<in> set (ig_acked st). covered H w \<le> k0 + n" by auto
    with delivers_step [OF ok d(2), of p n k] k0(3) rs'(1) show "\<exists>d. holds (rn_log rs') d \<and> delivers (map fst H) k d" by fastforce
  qed
qed

lemma run_loop_inv:
  assumes "commit_writer (ie_append env) (ie_rotate env) holds" and "commits_ok (map fst H)" and "run_inv env holds H rs"
  shows "run_inv env holds H (run_loop env as rs)"
  using assms(3)
proof (induction "as" arbitrary: rs)
  case (Cons a "as")
  obtain rs' b where "run_attempt env a rs = (rs', b)" by fastforce
  with run_attempt_inv [OF assms(1,2) Cons.prems this] Cons.IH show ?case by simp
qed simp

lemma processes_inv:
  assumes "commit_writer (ie_append env) (ie_rotate env) holds" and "commits_ok (map fst H)" and "holds l []"
  shows "run_inv env holds H (processes env pss (run_start l last_lsn seq_no))"
proof -
  have start: "run_inv env holds H (run_start l last_lsn seq_no)"
    using assms(3) by (auto simp: run_inv_def run_start_def delivers_def elim: slot.cases intro!: exI [of _ "[]"])
  have "run_inv env holds H rs \<Longrightarrow> run_inv env holds H (processes env pss rs)" for rs
    using run_loop_inv [OF assms(1,2)] by (induction pss arbitrary: rs) (simp_all add: processes_def run_inv_def)
  from this [OF start] show ?thesis .
qed

section \<open>Exactly once, from the slot to the executors\<close>

lemma split_indices: "concat pss = map f js \<Longrightarrow> \<exists>iss. concat iss = js \<and> pss = map (map f) iss"
proof (induction pss arbitrary: js)
  case (Cons p pss)
  then have p: "p = map f (take (length p) js)" "concat pss = map f (drop (length p) js)"
    by (metis append_eq_conv_conj concat.simps(2) take_map, metis append_eq_conv_conj concat.simps(2) drop_map)
  from Cons.IH [OF p(2)] obtain iss where "concat iss = drop (length p) js" "pss = map (map f) iss" by blast
  with p(1) show ?case by (intro exI [of _ "take (length p) js # iss"]) simp
qed simp

text \<open>What is delivered up to a transaction's end is applied, even while a later one is held back.\<close>

lemma once_boundary:
  assumes log: "commit_log es" and inv: "once_inv es ps iss c st fl" and i: "i \<le> c" "i = 0 \<or> marked (es ! (i - 1))"
  shows "\<exists>h. concat fl = take h es \<and> i \<le> h"
proof -
  from inv obtain h H where fl: "concat fl = take h es" and ok: "held_ok es c h H" by (auto simp: once_inv_def)
  have "i \<le> h"
  proof (cases "H = [] \<or> i = 0")
    case True
    then show ?thesis using ok i by (auto simp: held_ok_def)
  next
    case False
    then have H: "H \<noteq> []" "0 < i" "marked (es ! (i - 1))" using i(2) by auto
    have same: "same_run es H" and k: "c \<le> Suc (last H)" "last H < length es" "\<not> marked (es ! last H)"
      using ok H(1) by (simp_all add: held_ok_def)
    have key: "run_key (es ! hd H) = run_key (es ! last H)" using same hd_in_set [OF H(1)] unfolding same_run_def by blast
    have hd: "hd H \<le> h" using ok H(1) by (cases H) (auto simp: held_ok_def)
    show ?thesis
    proof (rule ccontr)
      assume "\<not> i \<le> h"
      then have b: "hd H \<le> i - 1" "i - 1 \<le> last H" using hd i(1) k(1) H(2) by linarith+
      moreover have "i - 1 \<noteq> last H" using H(3) k(3) by metis
      ultimately have lt: "Suc (i - 1) \<le> last H" by simp
      have "run_key (es ! (i - 1)) = run_key (es ! last H)" by (rule commit_log_contiguous [OF log b k(2) key])
      moreover have "run_key (es ! Suc (i - 1)) = run_key (es ! last H)"
        by (rule commit_log_contiguous [OF log _ lt k(2) key]) (use b in linarith)
      ultimately show False using commit_log_marked [OF log, of "i - 1"] lt k(2) H(3) by simp
    qed
  qed
  with fl show ?thesis by blast
qed

text \<open>C1: every commit reaches the executors exactly once, from the replication slot on. Take any number of
  processes, each with any sequence of refused, failed, timed-out, cut and shut-down connections, on a
  slot that re-sends from its confirmed position whatever was not confirmed. However the log they
  leave is paged, the sequencer applies a prefix of the server's commits: every change once, in commit
  order, none invented; and it contains every commit the slot has confirmed, which the server will
  never send again.\<close>

theorem slot_to_executors_once:
  assumes "commit_writer (ie_append env) (ie_rotate env) holds" and "holds l []" and "commits_ok (map fst H)"
    and "rs = processes env pss (run_start l last_lsn seq_no)"
    and "slot env H (rn_trace rs) k" and "\<forall>cn \<in> set (rn_trace rs). codec_fits env cn"
  shows "\<exists>d. holds (rn_log rs) d \<and> (\<forall>pages u nxt pos. concat (map (page_data \<circ> fst) pages) = d \<longrightarrow>
     (\<exists>st' fl h. run_pages recorder u nxt pages (seq_start pos None) ([], []) = (st', ([], fl), True)
        \<and> concat fl = take h (concat (map stamped (map fst H)))
        \<and> length (concat (map stamped (take k (map fst H)))) \<le> h))"
proof -
  let ?C = "map fst H" and ?es = "commit_data (map fst H)"
  from processes_inv [OF assms(1,3,2), of pss last_lsn seq_no] assms(4-6) obtain d where d: "holds (rn_log rs) d" "delivers ?C k d"
    by (auto simp: run_inv_def)
  from d(2) obtain js c where js: "d = map ((!) ?es) js" "deliveries ?es 0 js c" "length (commit_data (take k ?C)) \<le> c"
    by (auto simp: delivers_def)
  note log = commits_commit_log [OF assms(3)]
  have "\<exists>st' fl h. run_pages recorder u nxt pages (seq_start pos None) ([], []) = (st', ([], fl), True)
        \<and> concat fl = take h ?es \<and> length (commit_data (take k ?C)) \<le> h"
    if p: "concat (map (page_data \<circ> fst) pages) = d" for pages u nxt pos
  proof -
    from split_indices [OF p [unfolded js(1)]] obtain iss where
      iss: "concat iss = js" "map (page_data \<circ> fst) pages = map (map ((!) ?es)) iss" by blast
    from redelivery_run [OF log _ iss(2), of c u nxt pos] js(2) iss(1) obtain st fl where
      "run_pages recorder u nxt pages (seq_start pos None) ([], []) = (st, ([], fl), True)"
      "once_inv ?es (page_positions recorder u nxt pages (seq_start pos None) ([], [])) iss c st fl" by auto
    with once_boundary [OF log _ js(3)] commit_boundary(1) [OF assms(3), of k] show ?thesis by blast
  qed
  with d(1) show ?thesis by blast
qed

section \<open>A failed append, by example\<close>

text \<open>A log that is a list and refuses what is appended at time 13.\<close>

definition ex_list_env :: "(envelope list, unit) ingest_env" where
  "ex_list_env =
     \<lparr>ie_f64 = exact_f64, ie_uuid = (\<lambda>_. None), ie_lossy = ascii_dec, ie_events = ie_events ex_ingest_env, ie_io = ie_io ex_ingest_env,
      ie_cfg = ex_txn_cfg, ie_append = (\<lambda>now c l. if now = 13 then (l, Err (Other [])) else (l @ c, Ok ())), ie_rotate = (\<lambda>_ l. l)\<rparr>"

definition ex_attempt :: "nat \<Rightarrow> unit attempt" where
  "ex_attempt now =
     \<lparr>at_shutdown = False, at_admission = Inr [], at_config = Ok (), at_connect = (False, Some (Ok ())),
      at_first = (False, Some (Ok (Some (EvBegin 7)))), at_engine = (), at_checks = (True, True, 0),
      at_turns = [ex_turn (EvXLogData (encode ascii_enc ex_relation)), ex_turn (EvXLogData (encode ascii_enc ex_new_row)),
        ex_turn (EvKeepAlive 15), (True, Polled (Some (EvCommit ''0/1'' 20)), True, now), ex_turn (EvKeepAlive 30)],
      at_nanos = 0\<rparr>"

definition ex_history :: history where
  "ex_history = [((commit_stamp ''0/1'' 7, [ex_ingested]), 20)]"

abbreviation ex_frames :: "nat \<Rightarrow> turn list" where
  "ex_frames now \<equiv> ex_turn (EvBegin 7) # at_turns (ex_attempt now)"

lemma ex_list_env_simps [simp]:
  "ie_f64 ex_list_env = exact_f64" "ie_uuid ex_list_env = (\<lambda>_. None)" "ie_lossy ex_list_env = ascii_dec"
  "ie_events ex_list_env = ie_events ex_ingest_env" "ie_io ex_list_env = ie_io ex_ingest_env" "ie_cfg ex_list_env = ex_txn_cfg"
  "ie_append ex_list_env = (\<lambda>now c l. if now = 13 then (l, Err (Other [])) else (l @ c, Ok ()))" "ie_rotate ex_list_env = (\<lambda>_ l. l)"
  by (simp_all add: ex_list_env_def)

lemma ex_list_writer: "commit_writer (ie_append ex_list_env) (ie_rotate ex_list_env) (=)"
  by unfold_locales (auto split: if_splits)

lemma ex_spec_data:
  "sp_open sp = Some (x, es) \<Longrightarrow> sp_dec sp = decoder_new\<lparr>dec_incarnation := Some []\<rparr> \<Longrightarrow>
     spec_data ex_list_env (encode ascii_enc ex_relation) sp = sp\<lparr>sp_dec := ex_decoder, sp_engine := ()\<rparr>"
  "sp_open sp = Some (x, es) \<Longrightarrow> sp_dec sp = ex_decoder \<Longrightarrow>
     spec_data ex_list_env (encode ascii_enc ex_new_row) sp = sp\<lparr>sp_open := Some (x, es @ [ex_ingested]), sp_seen := sp_seen sp @ [ex_ingested]\<rparr>"
  using ex_on_relation [of x] ex_on_change [of "\<lambda>_. None"]
  by (simp_all add: spec_data_def ex_decode) (simp_all add: ex_relation_def ex_new_row_def)

lemma ex_serves: "serves ex_list_env ex_history 0 ([], (), ex_frames now, acks)"
proof -
  have "n \<le> 6 \<longleftrightarrow> n = 0 \<or> n = 1 \<or> n = 2 \<or> n = 3 \<or> n = 4 \<or> n = 5 \<or> n = 6" for n :: nat by auto
  then show ?thesis
    by (auto simp: serves_def Let_def ex_attempt_def spec_run_def ex_turn_def spec_turn_def turn_event_def spec_event_def spec_start_def
        ex_spec_data ex_history_def covered_def numeral_eq_Suc)
qed

definition ex_buffer :: txn_buffer where
  "ex_buffer = (txn_new 7 ex_txn_cfg)\<lparr>tb_count := 1, tb_buffered_bytes := 1, tb_raw_bytes := length (encode ascii_enc ex_new_row),
     tb_mem_bytes := 1, tb_mem := [ex_ingested]\<rparr>"

lemma ex_buffer_sync [simp]: "tb_sync ex_buffer = None"
  by (simp add: ex_buffer_def txn_new_def)

lemma ex_push: "txn_push (ie_io ex_ingest_env) ex_ingested (length (encode ascii_enc ex_new_row)) (txn_new 7 ex_txn_cfg) = Inr ex_buffer"
  by (simp add: txn_push_def ex_ingest_env_def txn_new_def ex_txn_cfg_def ex_buffer_def)

lemma ex_chunks:
  "append_commit_chunked f (ie_io ex_ingest_env) ex_buffer ''0/1'' l =
     (case f (stamped (commit_stamp ''0/1'' 7, [ex_ingested])) l of (l1, Inl e) \<Rightarrow> (l1, Err e) | (l1, Inr _) \<Rightarrow> (l1, Ok 1))"
proof -
  have "tb_holds (ie_io ex_ingest_env) ex_buffer [ex_ingested]" by (simp add: tb_holds_def ex_buffer_def txn_new_def)
  from append_chunks_drain [OF drain_of_holds [OF this _ lessI]] have
    "append_commit_chunked f (ie_io ex_ingest_env) ex_buffer ''0/1'' l =
       append_list f (mark_final (map (map fst) (txn_pack.pack_all (cfg_append_bytes (tb_cfg ex_buffer))
         (costed (ie_io ex_ingest_env) (commit_stamp ''0/1'' 7) 0 [ex_ingested])))) 0 l"
    by (simp add: append_commit_chunked_def ex_buffer_def txn_new_def)
  then show ?thesis
    by (simp add: txn_pack.pack_all.simps [of _ "[x]" for x] stamped_def split: prod.splits sum.splits)
qed

lemma ex_on_data:
  "ig_txn st = Some t \<Longrightarrow> ig_dec st = decoder_new\<lparr>dec_incarnation := Some []\<rparr> \<Longrightarrow>
     on_data ex_list_env (encode ascii_enc ex_relation) st = (st\<lparr>ig_dec := ex_decoder, ig_engine := ()\<rparr>, Ok ())"
  "ig_txn st = Some (txn_new 7 ex_txn_cfg) \<Longrightarrow> ig_dec st = ex_decoder \<Longrightarrow>
     on_data ex_list_env (encode ascii_enc ex_new_row) st = (st\<lparr>ig_txn := Some ex_buffer\<rparr>, Ok ())"
  using ex_on_relation [of "tb_xid t"] ex_on_change [of "\<lambda>_. None"] ex_push
  by (simp_all add: on_data_def ex_decode) (simp_all add: ex_relation_def ex_new_row_def)

lemmas ex_loop_defs = ex_attempt_def ex_turn_def stream_turn_def ingress_must_reconnect_def on_event_def ingest_start_def
  keepalive_ack_lsn_def on_commit_def ex_chunks

lemma ex_stream_fails:
  "stream_loop ex_list_env (ex_frames 13) (ingest_start [] () l last_lsn seq_no) = (st, out) \<Longrightarrow>
     out = Some (Err (Other [])) \<and> ig_acked st = [] \<and> ig_log st = l \<and> ig_connected st"
  by (auto simp: ex_loop_defs ex_on_data)

lemma ex_stream_runs:
  "stream_loop ex_list_env (ex_frames 0) (ingest_start [] () l last_lsn seq_no) = (st, out) \<Longrightarrow>
     out = None \<and> ig_acked st = [20, 30] \<and> ig_log st = l @ stamped (commit_stamp ''0/1'' 7, [ex_ingested])"
  by (auto simp: ex_loop_defs ex_on_data)

lemma ex_processes:
  "rn_trace (processes ex_list_env [[ex_attempt 13, ex_attempt 0]] (run_start [] ''0/0'' 0)) =
     [([], (), ex_frames 13, []), ([], (), ex_frames 0, [20, 30])]"
  "rn_log (processes ex_list_env [[ex_attempt 13, ex_attempt 0]] (run_start [] ''0/0'' 0)) = stamped (commit_stamp ''0/1'' 7, [ex_ingested])"
proof -
  have conn: "connection ex_list_env [] (ex_attempt now) st = (case stream_loop ex_list_env (ex_frames now) st of (st', out) \<Rightarrow> (st', out, ex_frames now))" for now st
    by (simp add: connection_def await_with_shutdown_def first_turn_def ex_attempt_def ex_turn_def)
  have at: "at_shutdown (ex_attempt now) = False" "at_admission (ex_attempt now) = Inr []" "at_config (ex_attempt now) = Ok ()" "at_engine (ex_attempt now) = ()" for now
    by (simp_all add: ex_attempt_def)
  obtain st out where one: "stream_loop ex_list_env (ex_frames 13) (ingest_start [] () [] ''0/0'' 0) = (st, out)" by fastforce
  note r1 = ex_stream_fails [OF one]
  obtain st2 out2 where two: "stream_loop ex_list_env (ex_frames 0) (ingest_start [] () [] (ig_last_lsn st) (ig_sync_seq st)) = (st2, out2)" by fastforce
  note r2 = ex_stream_runs [OF two]
  show "rn_trace (processes ex_list_env [[ex_attempt 13, ex_attempt 0]] (run_start [] ''0/0'' 0)) =
     [([], (), ex_frames 13, []), ([], (), ex_frames 0, [20, 30])]"
    "rn_log (processes ex_list_env [[ex_attempt 13, ex_attempt 0]] (run_start [] ''0/0'' 0)) = stamped (commit_stamp ''0/1'' 7, [ex_ingested])"
    using one two r1 r2 by (simp_all add: processes_def run_start_def run_attempt_def at conn back_off_def Let_def split: prod.splits del: stream_loop.simps)
qed

text \<open>The first connection appends the commit in vain and acknowledges nothing; the second is sent it again.
  With the slot moved past it, it has been applied.\<close>

theorem slot_to_executors_once_witness:
  "\<exists>st' fl h. run_pages recorder (\<lambda>_. None) (\<lambda>_. Err (Other []))
       [(ex_page (rn_log (processes ex_list_env [[ex_attempt 13, ex_attempt 0]] (run_start [] ''0/0'' 0))), False)]
       (seq_start lp_start None) ([], []) = (st', ([], fl), True)
     \<and> concat fl = take h (stamped (commit_stamp ''0/1'' 7, [ex_ingested])) \<and> 1 \<le> h"
proof -
  let ?rs = "processes ex_list_env [[ex_attempt 13, ex_attempt 0]] (run_start [] ''0/0'' 0)" and ?c = "(commit_stamp ''0/1'' 7, [ex_ingested])"
  have ty: "e_type ex_ingested = ''public.members''" by (simp add: ex_ingested_def make_env_def Let_def table_as_str_def ex_table_def)
  have last: "h_last (e_headers ex_ingested) = None" by (simp add: ex_ingested_def make_env_def Let_def)
  have ok: "commits_ok (map fst ex_history)"
    by (simp add: commits_ok_def ex_history_def built_def is_control_def ty last CONTROL_TYPE_def ENVELOPE_TYPE_def SOURCE_FENCE_ENVELOPE_def)
  have "slot ex_list_env ex_history ([] @ [([], (), ex_frames 13, [])]) 0" by (intro slot_kept slot_new ex_serves)
  from slot_moved [OF this ex_serves, of 20 0 "[20, 30]"] have slot: "slot ex_list_env ex_history (rn_trace ?rs) 1"
    by (simp add: ex_processes covered_def ex_history_def)
  have "sp_seen (spec_run ex_list_env (ex_frames now) (spec_start [] ())) = [ex_ingested]" for now
    by (simp add: ex_attempt_def spec_run_def ex_turn_def spec_turn_def turn_event_def spec_event_def spec_start_def ex_spec_data)
  then have codec: "\<forall>cn \<in> set (rn_trace ?rs). codec_fits ex_list_env cn" by (simp add: ex_processes codec_fits_def)
  have "page_data (ex_page (stamped ?c)) = stamped ?c"
    by (simp add: page_data_def ex_page_def stamped_def mark_last_def stamp_env_def is_control_def ty CONTROL_TYPE_def)
  then have page: "concat (map (page_data \<circ> fst) [(ex_page (rn_log ?rs), False)]) = rn_log ?rs" by (simp add: ex_processes)
  from slot_to_executors_once [OF ex_list_writer refl ok refl slot codec] page obtain st' fl h where
    "run_pages recorder (\<lambda>_. None) (\<lambda>_. Err (Other [])) [(ex_page (rn_log ?rs), False)] (seq_start lp_start None) ([], []) = (st', ([], fl), True)"
    "concat fl = take h (concat (map stamped (map fst ex_history)))" "length (concat (map stamped (take 1 (map fst ex_history)))) \<le> h" by metis
  moreover have "length (stamped ?c) = 1" by (simp add: stamped_nth(1))
  ultimately have "concat fl = take h (stamped ?c)" "1 \<le> h" by (simp_all add: ex_history_def)
  with \<open>run_pages _ _ _ _ _ _ = _\<close> show ?thesis by blast
qed

end
