(* ===== verification/Catalog.thy ===== *)
theory Catalog
  imports ChangeLog PgGate Aggregates
begin

text \<open>
  The durable shape catalog of \<^verbatim>\<open>engine/catalog.rs\<close>: its events, the writer task that appends them
  in order and retries in place, the checks a boot makes on the raw log and the fold it restores from.
  The fold ignores an event id it has seen, so a retried append counts once; the writer's durable
  position is never ahead of what a restart folds to. The texts of refusals are abridged.
\<close>

section \<open>Events\<close>

record agg_info =
  ai_func :: agg_fn
  ai_col :: "string option"

record shape_record =
  sr_id :: string
  sr_table :: table_ref
  sr_stream_path :: string
  sr_changes_only :: bool
  sr_where_json :: "predicate_json option"
  sr_columns :: "string list option"
  sr_family_key :: "string list option"
  sr_is_subquery :: bool
  sr_aggregate :: "agg_info option"
  sr_fingerprint :: "schema_fingerprint option"
  sr_backfill_rows :: "nat option"
  sr_backfill_bytes :: "nat option"

definition de_canonical_table :: "string \<Rightarrow> table_ref result" where
  "de_canonical_table raw =
     rbind (table_parse raw) (\<lambda>t.
     if table_as_str t \<noteq> raw then Err (Other (''table is not the canonical schema.name: '' @ raw)) else Ok t)"

record slot_binding =
  bd_system_identifier :: string
  bd_timeline_id :: nat
  bd_slot :: string
  bd_bound_at :: string

record source_drain_receipt =
  rc_source_commit_id :: string
  rc_commit_lsn :: string

datatype catalog_event =
    EvStoreBound store_bound
  | EvCreated shape_record "string option" string nat
  | EvJoined string string nat
  | EvLeft string string bool
  | EvDormant string log_position snapshot_gate
  | EvReactivated string
  | EvBackfillSized string nat nat
  | EvDropped string
  | EvRetired string
  | EvOffset log_position "(nat \<times> nat) option"
  | EvChangesRotated nat nat
  | EvChangesSegmentDeleted nat
  | EvConsumerPinned string log_position
  | EvConsumerEvicted string
  | EvSchemaChanged table_ref schema_fingerprint
  | EvSourceDrained source_drain_receipt
  | EvSlotBound slot_binding

section \<open>The fold\<close>

text \<open>A restored shape: its record, its sharing signature, its live subscriptions with their leases, and
  where it resumes if it is dormant.\<close>

type_synonym restored =
  "shape_record \<times> string option \<times> (string \<times> nat) list \<times> (log_position \<times> snapshot_gate) option"

record catalog_fold =
  cf_recs :: "(string \<times> restored) list"
  cf_pending_retire :: "(string \<times> string) list"
  cf_max_shape_id :: "nat option"
  cf_start_pos :: log_position
  cf_start_highwater :: "(nat \<times> nat) option"
  cf_current_segment :: nat
  cf_segment_starts :: "(nat \<times> nat) list"
  cf_consumers :: "(string \<times> log_position) list"
  cf_binding :: "slot_binding option"
  cf_source_receipts :: "(string \<times> source_drain_receipt) list"
  cf_last_source_receipt :: "source_drain_receipt option"
  cf_seen :: "string set"

definition default_fold :: catalog_fold where
  "default_fold =
     \<lparr>cf_recs = [], cf_pending_retire = [], cf_max_shape_id = None, cf_start_pos = lp_start, cf_start_highwater = None,
      cf_current_segment = 0, cf_segment_starts = [], cf_consumers = [], cf_binding = None, cf_source_receipts = [],
      cf_last_source_receipt = None, cf_seen = {}\<rparr>"

definition shape_id_num :: "string \<Rightarrow> nat option" where
  "shape_id_num sid = (case strip_prefix ''s'' sid of None \<Rightarrow> None | Some ds \<Rightarrow> parse_u64 ds)"

text \<open>\<open>get_mut\<close> on the records, and the lease of a join.\<close>

definition with_rec :: "string \<Rightarrow> (restored \<Rightarrow> restored) \<Rightarrow> catalog_fold \<Rightarrow> catalog_fold" where
  "with_rec sid f cf =
     (case map_of (cf_recs cf) sid of None \<Rightarrow> cf | Some r \<Rightarrow> cf\<lparr>cf_recs := AList.update sid (f r) (cf_recs cf)\<rparr>)"

definition renew :: "string \<Rightarrow> nat \<Rightarrow> (string \<times> nat) list \<Rightarrow> (string \<times> nat) list" where
  "renew sub t subs = AList.update sub (case map_of subs sub of None \<Rightarrow> t | Some lease \<Rightarrow> max lease t) subs"

fun fold_apply :: "catalog_event \<Rightarrow> catalog_fold \<Rightarrow> catalog_fold" where
  "fold_apply (EvStoreBound _) cf = cf"
| "fold_apply (EvCreated rec sig sub t) cf =
     (let cf1 = (case shape_id_num (sr_id rec) of
                   None \<Rightarrow> cf
                 | Some n \<Rightarrow> cf\<lparr>cf_max_shape_id := Some (case cf_max_shape_id cf of None \<Rightarrow> n | Some cur \<Rightarrow> max cur n)\<rparr>)
      in cf1\<lparr>cf_recs := AList.update (sr_id rec) (rec, sig, [(sub, t)], None) (cf_recs cf1)\<rparr>)"
| "fold_apply (EvJoined sid sub t) cf = with_rec sid (\<lambda>(rec, sig, subs, d). (rec, sig, renew sub t subs, d)) cf"
| "fold_apply (EvLeft sid sub lapsed) cf = with_rec sid (\<lambda>(rec, sig, subs, d). (rec, sig, AList.delete sub subs, d)) cf"
| "fold_apply (EvDormant sid resume gate) cf = with_rec sid (\<lambda>(rec, sig, subs, d). (rec, sig, subs, Some (resume, gate))) cf"
| "fold_apply (EvReactivated sid) cf = with_rec sid (\<lambda>(rec, sig, subs, d). (rec, sig, subs, None)) cf"
| "fold_apply (EvBackfillSized sid rows bytes) cf =
     with_rec sid (\<lambda>(rec, rest). (rec\<lparr>sr_backfill_rows := Some rows, sr_backfill_bytes := Some bytes\<rparr>, rest)) cf"
| "fold_apply (EvDropped sid) cf =
     (case map_of (cf_recs cf) sid of
        None \<Rightarrow> cf
      | Some (rec, _) \<Rightarrow>
          cf\<lparr>cf_recs := AList.delete sid (cf_recs cf),
             cf_pending_retire := AList.update sid (sr_stream_path rec) (cf_pending_retire cf)\<rparr>)"
| "fold_apply (EvRetired sid) cf = cf\<lparr>cf_pending_retire := AList.delete sid (cf_pending_retire cf)\<rparr>"
| "fold_apply (EvOffset pos hw) cf = cf\<lparr>cf_start_pos := pos, cf_start_highwater := hw\<rparr>"
| "fold_apply (EvChangesRotated sg t) cf =
     cf\<lparr>cf_current_segment := max (cf_current_segment cf) sg, cf_segment_starts := bt_insert sg t (cf_segment_starts cf)\<rparr>"
| "fold_apply (EvChangesSegmentDeleted sg) cf = cf\<lparr>cf_segment_starts := filter (\<lambda>e. fst e \<noteq> sg) (cf_segment_starts cf)\<rparr>"
| "fold_apply (EvConsumerPinned sid pos) cf = cf\<lparr>cf_consumers := AList.update sid pos (cf_consumers cf)\<rparr>"
| "fold_apply (EvConsumerEvicted sid) cf = cf\<lparr>cf_consumers := AList.delete sid (cf_consumers cf)\<rparr>"
| "fold_apply (EvSchemaChanged _ _) cf = cf"
| "fold_apply (EvSourceDrained receipt) cf =
     (if map_of (cf_source_receipts cf) (rc_source_commit_id receipt) = None
      then cf\<lparr>cf_source_receipts := AList.update (rc_source_commit_id receipt) receipt (cf_source_receipts cf),
              cf_last_source_receipt := Some receipt\<rparr>
      else cf)"
| "fold_apply (EvSlotBound b) cf = cf\<lparr>cf_binding := Some b\<rparr>"

definition apply_once :: "string \<Rightarrow> catalog_event \<Rightarrow> catalog_fold \<Rightarrow> catalog_fold" where
  "apply_once eid ev cf = (if eid \<in> cf_seen cf then cf else fold_apply ev (cf\<lparr>cf_seen := insert eid (cf_seen cf)\<rparr>))"

definition pending_retirements :: "catalog_fold \<Rightarrow> (string \<times> string) list" where
  "pending_retirements cf = sort_key fst (cf_pending_retire cf)"

definition fold_is_empty :: "catalog_fold \<Rightarrow> bool" where
  "fold_is_empty cf \<longleftrightarrow> cf_recs cf = [] \<and> cf_start_pos cf = lp_start"

section \<open>Checks on the raw log\<close>

definition jfield :: "string \<Rightarrow> json \<Rightarrow> json option" where
  "jfield k j = (case j of JObj m \<Rightarrow> map_of m k | _ \<Rightarrow> None)"

definition jstr :: "string \<Rightarrow> json \<Rightarrow> string option" where
  "jstr k j = Option.bind (jfield k j) as_str"

definition as_u64 :: "json \<Rightarrow> nat option" where
  "as_u64 j = (case j of JNum (NInt n) \<Rightarrow> if 0 \<le> n \<and> nat n \<le> u64_max then Some (nat n) else None | _ \<Rightarrow> None)"

definition predates_subscriptions :: "json \<Rightarrow> string option" where
  "predates_subscriptions ev =
     (let kind = (case jstr ''t'' ev of None \<Rightarrow> ''<untagged>'' | Some k \<Rightarrow> k) in
      if jstr ''eid'' ev = None then Some (''a '' @ kind @ '' event with no eid'')
      else if kind \<in> {''created'', ''joined'', ''left''} \<and> jstr ''subscription'' ev = None
        then Some (''a '' @ kind @ '' event with no subscription'')
      else if kind \<in> {''created'', ''joined''} \<and> Option.bind (jfield ''at'' ev) as_u64 = None
        then Some (''a '' @ kind @ '' event with no lease timestamp'')
      else None)"

definition predates_segmentation :: "json \<Rightarrow> string option" where
  "predates_segmentation ev =
     (case jstr ''t'' ev of
        Some k \<Rightarrow>
          (if k = ''offset'' then (case jstr ''offset'' ev of Some v \<Rightarrow> Some (''bare change-log offset '' @ v) | None \<Rightarrow> None)
           else if k = ''dormant'' then (case jstr ''resume_offset'' ev of Some v \<Rightarrow> Some (''bare dormant resume offset '' @ v) | None \<Rightarrow> None)
           else None)
      | None \<Rightarrow> None)"

text \<open>A record whose table is spelt in the short form.\<close>

definition predates_qualification :: "json \<Rightarrow> string option" where
  "predates_qualification ev =
     (case Option.bind (jfield ''rec'' ev) (jstr ''table'') of
        None \<Rightarrow> None
      | Some raw \<Rightarrow> (case table_parse raw of Inr t \<Rightarrow> if table_as_str t \<noteq> raw then Some raw else None | Inl _ \<Rightarrow> None))"

text \<open>\<open>de\<close> is the derived deserialiser of events.\<close>

definition validate_store_binding :: "(json \<Rightarrow> catalog_event option) \<Rightarrow> json list \<Rightarrow> store_bound \<Rightarrow> unit result" where
  "validate_store_binding de events expected =
     (case events of
        [] \<Rightarrow> Err (Other ''catalog event zero is missing StoreBound'')
      | first # rest \<Rightarrow>
          (case de first of
             None \<Rightarrow> Err (Other ''StoreBound is malformed'')
           | Some (EvStoreBound observed) \<Rightarrow>
               if observed \<noteq> expected then Err (Other ''StoreBound mismatch'')
               else if list_ex (\<lambda>ev. jstr ''t'' ev = Some ''storeBound'') rest
               then Err (Other ''StoreBound must occur exactly once as catalog event zero'')
               else Ok ()
           | Some _ \<Rightarrow> Err (Other ''catalog event zero is missing StoreBound'')))"

definition fold_event :: "(json \<Rightarrow> catalog_event option) \<Rightarrow> json \<Rightarrow> catalog_fold \<Rightarrow> catalog_fold result" where
  "fold_event de j cf =
     (case predates_qualification j of
        Some raw \<Rightarrow> Err (Other (''durable catalog predates ADR-0002: bare table name '' @ raw))
      | None \<Rightarrow>
     (case predates_segmentation j of
        Some detail \<Rightarrow> Err (Other (''durable catalog predates ADR-0006: '' @ detail))
      | None \<Rightarrow>
     (case predates_subscriptions j of
        Some detail \<Rightarrow> Err (Other (''durable catalog predates ADR-0008: '' @ detail))
      | None \<Rightarrow>
          (case de j of
             None \<Rightarrow> Ok cf
           | Some ev \<Rightarrow> Ok (apply_once (case jstr ''eid'' j of None \<Rightarrow> [] | Some e \<Rightarrow> e) ev cf)))))"

fun fold_events :: "(json \<Rightarrow> catalog_event option) \<Rightarrow> json list \<Rightarrow> catalog_fold \<Rightarrow> catalog_fold result" where
  "fold_events de [] cf = Ok cf"
| "fold_events de (j # js) cf = rbind (fold_event de j cf) (fold_events de js)"

definition fold_catalog :: "(json \<Rightarrow> catalog_event option) \<Rightarrow> store_bound option \<Rightarrow> json list \<Rightarrow> catalog_fold result" where
  "fold_catalog de bound events =
     rbind (case bound of None \<Rightarrow> Ok () | Some b \<Rightarrow> validate_store_binding de events b)
       (\<lambda>_. fold_events de events default_fold)"

definition schema_moved_while_down :: "shape_record \<Rightarrow> (table_ref \<Rightarrow> tschema option) \<Rightarrow> string list option" where
  "schema_moved_while_down rec compiled =
     (case Option.bind (compiled (sr_table rec)) ts_fingerprint of
        None \<Rightarrow> None
      | Some now \<Rightarrow>
          (case sr_fingerprint rec of
             Some old \<Rightarrow> if still_serves old now then None else Some (describe_drift old now)
           | None \<Rightarrow> Some [''the record predates schema fingerprinting'']))"

section \<open>The writer\<close>

datatype append_verdict = RetryAppend | RefusedAppend

definition classify_append :: "error \<Rightarrow> append_verdict" where
  "classify_append e = (if is_unavailable e then RetryAppend else RefusedAppend)"

definition CATALOG_BACKOFF_MAX :: nat where "CATALOG_BACKOFF_MAX = 5000"

definition catalog_backoff :: "nat \<Rightarrow> nat" where
  "catalog_backoff attempt = min (100 * 2 ^ min (attempt - 1) 6) CATALOG_BACKOFF_MAX"

record catalog_send =
  sd_ev :: catalog_event
  sd_seq :: nat
  sd_eid :: string
  sd_done :: bool

text \<open>The writer task with its queue, and the catalog stream as it stands: the events with their ids, in
  append order. \<open>cw_acked\<close> are the sends whose waiter was woken; \<open>cw_running\<close> is false once the
  process has exited on a refusal.\<close>

record catalog_writer =
  cw_queue :: "catalog_send list"
  cw_in_flight :: nat
  cw_nonce :: string
  cw_next_eid :: nat
  cw_landed_seq :: nat
  cw_durable :: "log_position option"
  cw_ensured :: bool
  cw_acked :: "nat list"
  cw_running :: bool
  cw_log :: "(string \<times> catalog_event) list"

fun show_hex :: "nat \<Rightarrow> string" where
  "show_hex n = (if n < 16 then [''0123456789abcdef'' ! n] else show_hex (n div 16) @ [''0123456789abcdef'' ! (n mod 16)])"

declare show_hex.simps [simp del]

definition event_id :: "string \<Rightarrow> nat \<Rightarrow> string" where
  "event_id nonce n = nonce @ ''-'' @ show_hex n"

definition enqueue :: "catalog_event \<Rightarrow> bool \<Rightarrow> catalog_writer \<Rightarrow> catalog_writer \<times> bool" where
  "enqueue ev waits w =
     (let n = cw_next_eid w; w1 = w\<lparr>cw_next_eid := n + 1\<rparr> in
      if cw_running w
      then (w1\<lparr>cw_in_flight := cw_in_flight w + 1,
               cw_queue := cw_queue w @ [\<lparr>sd_ev = ev, sd_seq = n, sd_eid = event_id (cw_nonce w) n, sd_done = waits\<rparr>]\<rparr>, True)
      else (w1, False))"

text \<open>The position a landed checkpoint publishes.\<close>

definition raise_durable :: "log_position \<Rightarrow> log_position option \<Rightarrow> log_position option" where
  "raise_durable pos cur = (case cur of None \<Rightarrow> Some pos | Some c \<Rightarrow> if lp_less c pos then Some pos else Some c)"

definition seed_durable_offset :: "log_position \<Rightarrow> catalog_writer \<Rightarrow> catalog_writer" where
  "seed_durable_offset pos w = w\<lparr>cw_durable := raise_durable pos (cw_durable w)\<rparr>"

definition checkpoint :: "catalog_event \<Rightarrow> log_position option" where
  "checkpoint ev = (case ev of EvOffset pos _ \<Rightarrow> Some pos | _ \<Rightarrow> None)"

text \<open>One attempt to append the event at the head of the queue. \<open>created\<close> is the answer to the creation
  of the stream; \<open>committed\<close> says whether the store took the append, which an error hides.\<close>

definition catalog_attempt :: "bool \<Rightarrow> bool \<Rightarrow> unit result \<Rightarrow> catalog_writer \<Rightarrow> catalog_writer" where
  "catalog_attempt created committed reply w =
     (case cw_queue w of
        [] \<Rightarrow> w
      | s # rest \<Rightarrow>
          if \<not> cw_running w then w
          else
            (let w1 = w\<lparr>cw_ensured := cw_ensured w \<or> created,
                       cw_log := (if committed then cw_log w @ [(sd_eid s, sd_ev s)] else cw_log w)\<rparr>
             in case reply of
                  Inr _ \<Rightarrow>
                    w1\<lparr>cw_queue := rest,
                       cw_durable := (case checkpoint (sd_ev s) of None \<Rightarrow> cw_durable w | Some p \<Rightarrow> raise_durable p (cw_durable w)),
                       cw_landed_seq := sd_seq s, cw_in_flight := cw_in_flight w - 1,
                       cw_acked := (if sd_done s then cw_acked w @ [sd_seq s] else cw_acked w)\<rparr>
                | Inl e \<Rightarrow>
                    if cw_ensured w1 \<and> classify_append e = RefusedAppend then w1\<lparr>cw_running := False\<rparr> else w1))"

definition writer_start :: "string \<Rightarrow> (string \<times> catalog_event) list \<Rightarrow> catalog_writer" where
  "writer_start nonce L =
     \<lparr>cw_queue = [], cw_in_flight = 0, cw_nonce = nonce, cw_next_eid = 1, cw_landed_seq = 0, cw_durable = None,
      cw_ensured = False, cw_acked = [], cw_running = True, cw_log = L\<rparr>"

text \<open>What \<open>wait_durable\<close> waits for: everything enqueued so far has landed.\<close>

definition durable_target :: "catalog_writer \<Rightarrow> nat" where
  "durable_target w = cw_next_eid w - 1"

definition is_durable :: "nat \<Rightarrow> catalog_writer \<Rightarrow> bool" where
  "is_durable target w \<longleftrightarrow> cw_landed_seq w \<ge> target"

definition drained :: "catalog_writer \<Rightarrow> bool" where
  "drained w \<longleftrightarrow> cw_in_flight w = 0"

section \<open>The states of the writer\<close>

text \<open>Any interleaving of sends, attempts with any replies and the boot's seed; \<open>sent\<close> are the sends in
  order. A success means that the append was committed, an error hides whether it was.\<close>

abbreviation fold_log :: "(string \<times> catalog_event) list \<Rightarrow> catalog_fold" where
  "fold_log L \<equiv> fold (\<lambda>(eid, ev). apply_once eid ev) L default_fold"

inductive writer_reach :: "string \<Rightarrow> (string \<times> catalog_event) list \<Rightarrow> catalog_writer \<Rightarrow> catalog_send list \<Rightarrow> bool" for nonce L0 where
  reach_start: "writer_reach nonce L0 (writer_start nonce L0) []"
| reach_send: "writer_reach nonce L0 w sent \<Longrightarrow> enqueue ev waits w = (w', True) \<Longrightarrow> writer_reach nonce L0 w' (sent @ [last (cw_queue w')])"
| reach_lost: "writer_reach nonce L0 w sent \<Longrightarrow> enqueue ev waits w = (w', False) \<Longrightarrow> writer_reach nonce L0 w' sent"
| reach_attempt: "writer_reach nonce L0 w sent \<Longrightarrow> (reply = Ok () \<Longrightarrow> committed) \<Longrightarrow>
    writer_reach nonce L0 (catalog_attempt created committed reply w) sent"
| reach_seed: "writer_reach nonce L0 w sent \<Longrightarrow> writer_reach nonce L0 (seed_durable_offset (cf_start_pos (fold_log L0)) w) sent"

definition entry :: "catalog_send \<Rightarrow> string \<times> catalog_event" where
  "entry s = (sd_eid s, sd_ev s)"

lemma hex_digit_inj: "a < 16 \<Longrightarrow> b < 16 \<Longrightarrow> ''0123456789abcdef'' ! a = ''0123456789abcdef'' ! b \<Longrightarrow> a = b"
proof -
  have "distinct ''0123456789abcdef''" by simp
  then show "a < 16 \<Longrightarrow> b < 16 \<Longrightarrow> ''0123456789abcdef'' ! a = ''0123456789abcdef'' ! b \<Longrightarrow> a = b"
    using nth_eq_iff_index_eq [of "''0123456789abcdef''" a b] by simp
qed

lemma show_hex_nonempty: "show_hex n \<noteq> []"
  by (subst show_hex.simps) simp

lemma show_hex_inj: "show_hex m = show_hex n \<Longrightarrow> m = n"
proof (induction m arbitrary: n rule: less_induct)
  case (less m)
  note m = show_hex.simps [of m] and n = show_hex.simps [of n]
  show ?case
  proof (cases "m < 16 \<or> n < 16")
    case True
    then show ?thesis using less.prems m n hex_digit_inj [of m n] show_hex_nonempty
      by (cases "m < 16"; cases "n < 16") (auto simp: append_eq_Cons_conv Cons_eq_append_conv)
  next
    case False
    then have "show_hex (m div 16) = show_hex (n div 16)" "''0123456789abcdef'' ! (m mod 16) = ''0123456789abcdef'' ! (n mod 16)"
      using less.prems m n by auto
    with less.IH [of "m div 16" "n div 16"] hex_digit_inj [of "m mod 16" "n mod 16"] False
    have "m div 16 = n div 16" "m mod 16 = n mod 16" by auto
    then show ?thesis by (metis div_mult_mod_eq)
  qed
qed

lemma event_id_inj [simp]: "event_id nonce m = event_id nonce n \<longleftrightarrow> m = n"
  using show_hex_inj by (auto simp: event_id_def)

lemma remdups_adj_snoc: "remdups_adj (xs @ [y]) = (if xs \<noteq> [] \<and> last xs = y then remdups_adj xs else remdups_adj xs @ [y])"
  by (induction xs rule: remdups_adj.induct) auto

text \<open>What every state has: the events that landed are a beginning of those sent, the log holds them one
  after the other with copies of an event only beside each other, and perhaps copies of the next one;
  what was acknowledged has landed.\<close>

definition catalog_inv :: "string \<Rightarrow> (string \<times> catalog_event) list \<Rightarrow> catalog_writer \<Rightarrow> catalog_send list \<Rightarrow> bool" where
  "catalog_inv nonce L0 w sent \<longleftrightarrow>
     cw_nonce w = nonce \<and> (\<forall>i < length sent. sd_seq (sent ! i) = Suc i \<and> sd_eid (sent ! i) = event_id nonce (Suc i))
     \<and> (cw_running w \<longrightarrow> cw_next_eid w = Suc (length sent))
     \<and> cw_landed_seq w \<le> length sent \<and> cw_queue w = drop (cw_landed_seq w) sent \<and> cw_in_flight w = length (cw_queue w)
     \<and> (\<forall>i \<in> set (cw_acked w). i \<le> cw_landed_seq w)
     \<and> (\<exists>new m. cw_log w = L0 @ new \<and> remdups_adj new = map entry (take m sent) \<and> cw_landed_seq w \<le> m \<and> m \<le> Suc (cw_landed_seq w) \<and> m \<le> length sent)
     \<and> (\<forall>p. cw_durable w = Some p \<longrightarrow> p = cf_start_pos (fold_log L0) \<or> (\<exists>s \<in> set (take (cw_landed_seq w) sent). checkpoint (sd_ev s) = Some p))"

lemma last_remdups_adj: "xs \<noteq> [] \<Longrightarrow> last (remdups_adj xs) = last xs"
  by (induction xs rule: remdups_adj.induct) auto

lemma commit_copy:
  assumes new: "remdups_adj new = map entry (take m sent)" and m: "k \<le> m" "m \<le> Suc k" and k: "k < length sent"
    and eid: "\<forall>i < length sent. sd_eid (sent ! i) = event_id nonce (Suc i)"
  shows "remdups_adj (new @ [entry (sent ! k)]) = map entry (take (Suc k) sent)"
proof (cases "m = Suc k")
  case True
  then have "new \<noteq> []" "last (remdups_adj new) = entry (sent ! k)" using new k by (auto simp: take_Suc_conv_app_nth)
  then show ?thesis using new True last_remdups_adj [of new] by (simp add: remdups_adj_snoc)
next
  case False
  then have m: "m = k" using m by simp
  have "last new \<noteq> entry (sent ! k)" if "new \<noteq> []"
  proof -
    have "0 < k" using that new m by (cases k) auto
    moreover have "last new = last (map entry (take k sent))" using last_remdups_adj [OF that] new m by simp
    moreover have ne: "take k sent \<noteq> []" using k \<open>0 < k\<close> by auto
    moreover have "last (take k sent) = sent ! (k - 1)" using k \<open>0 < k\<close> by (simp add: last_conv_nth [OF ne])
    ultimately have "last new = entry (sent ! (k - 1))" by (simp add: last_map)
    with eid k \<open>0 < k\<close> show ?thesis by (auto simp: entry_def)
  qed
  then show ?thesis using new m k by (auto simp: remdups_adj_snoc take_Suc_conv_app_nth)
qed

lemma catalog_inv_attempt:
  assumes inv: "catalog_inv nonce L0 w sent" and ok: "reply = Ok () \<Longrightarrow> committed"
  shows "catalog_inv nonce L0 (catalog_attempt created committed reply w) sent"
proof (cases "cw_queue w = [] \<or> \<not> cw_running w")
  case True
  then show ?thesis using inv by (cases "cw_queue w") (simp_all add: catalog_attempt_def)
next
  case False
  let ?k = "cw_landed_seq w"
  from False have k: "?k < length sent" using inv by (simp add: catalog_inv_def)
  then have q: "cw_queue w = sent ! ?k # drop (Suc ?k) sent" using inv by (simp add: catalog_inv_def Cons_nth_drop_Suc)
  have seq: "sd_seq (sent ! ?k) = Suc ?k" and eid: "\<forall>i < length sent. sd_eid (sent ! i) = event_id nonce (Suc i)"
    using inv k by (simp_all add: catalog_inv_def)
  from inv obtain new m where new: "cw_log w = L0 @ new" "remdups_adj new = map entry (take m sent)" and m: "?k \<le> m" "m \<le> Suc ?k" "m \<le> length sent"
    by (auto simp: catalog_inv_def)
  note copy = commit_copy [OF new(2) m(1,2) k eid]
  let ?known = "\<lambda>r. r = cf_start_pos (fold_log L0) \<or> (\<exists>s \<in> set (take (Suc ?k) sent). checkpoint (sd_ev s) = Some r)"
  have dur: "?known r" if "checkpoint (sd_ev (sent ! ?k)) = Some p" "raise_durable p (cw_durable w) = Some r" for p r
    using inv that k by (auto simp: catalog_inv_def raise_durable_def take_Suc_conv_app_nth split: option.splits if_splits)
  have dur0: "?known r" if "cw_durable w = Some r" for r
    using inv that k by (auto simp: catalog_inv_def take_Suc_conv_app_nth)
  show ?thesis
  proof (cases reply)
    case (Inl e)
    have "\<exists>new' m'. (if committed then cw_log w @ [entry (sent ! ?k)] else cw_log w) = L0 @ new'
        \<and> remdups_adj new' = map entry (take m' sent) \<and> ?k \<le> m' \<and> m' \<le> Suc ?k \<and> m' \<le> length sent"
    proof (cases committed)
      case True
      then show ?thesis using new(1) k copy by (intro exI [of _ "new @ [entry (sent ! ?k)]"] exI [of _ "Suc ?k"]) simp
    qed (use new m in auto)
    moreover have "catalog_attempt created committed reply w = w\<lparr>cw_ensured := cw_ensured w \<or> created,
        cw_log := (if committed then cw_log w @ [entry (sent ! ?k)] else cw_log w),
        cw_running := \<not> ((cw_ensured w \<or> created) \<and> classify_append e = RefusedAppend)\<rparr>"
      using Inl False q by (cases w) (auto simp: catalog_attempt_def entry_def Let_def)
    ultimately show ?thesis using inv False by (auto simp: catalog_inv_def)
  next
    case (Inr u)
    with ok have "committed" by simp
    then have "catalog_attempt created committed reply w = w\<lparr>cw_ensured := cw_ensured w \<or> created, cw_log := L0 @ (new @ [entry (sent ! ?k)]),
        cw_queue := drop (Suc ?k) sent, cw_durable := (case checkpoint (sd_ev (sent ! ?k)) of None \<Rightarrow> cw_durable w | Some p \<Rightarrow> raise_durable p (cw_durable w)),
        cw_landed_seq := Suc ?k, cw_in_flight := cw_in_flight w - 1,
        cw_acked := (if sd_done (sent ! ?k) then cw_acked w @ [Suc ?k] else cw_acked w)\<rparr>"
      using Inr False q seq new(1) by (simp add: catalog_attempt_def entry_def Let_def)
    moreover have "\<exists>new' m. new @ [entry (sent ! ?k)] = new' \<and> remdups_adj new' = map entry (take m sent) \<and> Suc ?k \<le> m \<and> m \<le> Suc (Suc ?k) \<and> m \<le> length sent"
      using copy k by (intro exI [of _ "new @ [entry (sent ! ?k)]"] exI [of _ "Suc ?k"]) simp
    ultimately show ?thesis using inv k dur dur0 q by (auto simp: catalog_inv_def split: option.splits)
  qed
qed

lemma writer_reach_inv: "writer_reach nonce L0 w sent \<Longrightarrow> catalog_inv nonce L0 w sent"
proof (induction rule: writer_reach.induct)
  case reach_start
  then show ?case by (auto simp: catalog_inv_def writer_start_def intro!: exI [of _ 0])
next
  case (reach_send w sent ev waits w')
  let ?s = "\<lparr>sd_ev = ev, sd_seq = Suc (length sent), sd_eid = event_id nonce (Suc (length sent)), sd_done = waits\<rparr>" and ?k = "cw_landed_seq w"
  note inv = reach_send.IH
  have r: "cw_running w" and w': "w' = w\<lparr>cw_next_eid := Suc (Suc (length sent)), cw_in_flight := cw_in_flight w + 1, cw_queue := cw_queue w @ [?s]\<rparr>"
    using reach_send.hyps inv by (auto simp: enqueue_def catalog_inv_def Let_def split: if_splits)
  have k: "?k \<le> length sent" using inv by (simp add: catalog_inv_def)
  from inv obtain new m where "cw_log w = L0 @ new" "remdups_adj new = map entry (take m sent)" "?k \<le> m" "m \<le> Suc ?k" "m \<le> length sent"
    by (auto simp: catalog_inv_def)
  then have "\<exists>new m. cw_log w = L0 @ new \<and> remdups_adj new = map entry (take m (sent @ [?s])) \<and> ?k \<le> m \<and> m \<le> Suc ?k \<and> m \<le> Suc (length sent)"
    by (intro exI [of _ new] exI [of _ m]) simp
  with inv k r show ?case unfolding w' by (simp add: catalog_inv_def nth_append less_Suc_eq)
next
  case (reach_lost w sent ev waits w')
  then show ?case by (auto simp: enqueue_def catalog_inv_def Let_def split: if_splits)
next
  case (reach_attempt w sent reply committed created)
  then show ?case by (intro catalog_inv_attempt) simp_all
next
  case (reach_seed w sent)
  then show ?case by (auto simp: seed_durable_offset_def raise_durable_def catalog_inv_def split: option.splits)
qed

section \<open>Retried appends count once\<close>

text \<open>The fold without the ids it has seen.\<close>

definition unseen :: "catalog_fold \<Rightarrow> catalog_fold" where
  "unseen cf = cf\<lparr>cf_seen := {}\<rparr>"

lemma cf_start_pos_unseen [simp]: "cf_start_pos (unseen cf) = cf_start_pos cf"
  by (simp add: unseen_def)

lemma fold_apply_seen: "fold_apply ev (cf\<lparr>cf_seen := S\<rparr>) = (fold_apply ev cf)\<lparr>cf_seen := S\<rparr>"
  by (cases ev) (auto simp: with_rec_def Let_def split: option.splits prod.splits)

lemma cf_seen_fold_apply [simp]: "cf_seen (fold_apply ev cf) = cf_seen cf"
  by (cases ev) (auto simp: with_rec_def Let_def split: option.splits prod.splits)

lemma unseen_fold_apply: "unseen (fold_apply ev cf) = fold_apply ev (unseen cf)"
  by (simp add: unseen_def fold_apply_seen)

lemma apply_once_seen: "cf_seen (apply_once eid ev cf) = insert eid (cf_seen cf)"
  by (auto simp: apply_once_def)

lemma apply_once_twice: "apply_once eid ev' (apply_once eid ev cf) = apply_once eid ev cf"
  by (simp add: apply_once_def [of eid ev'] apply_once_seen)

lemma fold_remdups_adj:
  "fold (\<lambda>(eid, ev). apply_once eid ev) (remdups_adj xs) cf = fold (\<lambda>(eid, ev). apply_once eid ev) xs cf"
proof (induction xs arbitrary: cf rule: remdups_adj.induct)
  case (3 x y xs)
  then show ?case by (cases "x = y") (auto simp: apply_once_twice split_beta)
qed simp_all

lemma cf_seen_fold: "cf_seen (fold (\<lambda>(eid, ev). apply_once eid ev) xs cf) = cf_seen cf \<union> fst ` set xs"
  by (induction xs arbitrary: cf) (auto simp: apply_once_seen)

lemma fold_distinct:
  "distinct (map fst xs) \<Longrightarrow> cf_seen cf \<inter> fst ` set xs = {} \<Longrightarrow>
   unseen (fold (\<lambda>(eid, ev). apply_once eid ev) xs cf) = fold fold_apply (map snd xs) (unseen cf)"
proof (induction xs arbitrary: cf)
  case (Cons x xs)
  obtain eid ev where x: "x = (eid, ev)" by (cases x)
  with Cons.prems have once: "apply_once eid ev cf = (fold_apply ev cf)\<lparr>cf_seen := insert eid (cf_seen cf)\<rparr>"
    by (simp add: apply_once_def fold_apply_seen)
  have "cf_seen (apply_once eid ev cf) \<inter> fst ` set xs = {}" using Cons.prems x by (auto simp: apply_once_seen)
  with Cons.IH [of "apply_once eid ev cf"] Cons.prems x have
    "unseen (fold (\<lambda>(eid, ev). apply_once eid ev) xs (apply_once eid ev cf)) = fold fold_apply (map snd xs) (unseen (apply_once eid ev cf))" by simp
  moreover have "unseen (apply_once eid ev cf) = fold_apply ev (unseen cf)" by (simp add: once unseen_def fold_apply_seen)
  ultimately show ?case using x by simp
qed simp

text \<open>The log of a reachable writer folds to the events sent, up to some point, each once.\<close>

lemma reach_fold:
  assumes reach: "writer_reach nonce L0 w sent" and fresh: "\<forall>x \<in> set L0. \<forall>n. fst x \<noteq> event_id nonce n"
  shows "\<exists>m. cw_landed_seq w \<le> m \<and> m \<le> Suc (cw_landed_seq w) \<and> m \<le> length sent
     \<and> unseen (fold_log (cw_log w)) = fold fold_apply (map sd_ev (take m sent)) (unseen (fold_log L0))"
proof -
  note inv = writer_reach_inv [OF reach]
  from inv obtain new m where new: "cw_log w = L0 @ new" "remdups_adj new = map entry (take m sent)"
    and m: "cw_landed_seq w \<le> m" "m \<le> Suc (cw_landed_seq w)" "m \<le> length sent" by (auto simp: catalog_inv_def)
  have eid: "sd_eid (sent ! i) = event_id nonce (Suc i)" if "i < length sent" for i using inv that by (simp add: catalog_inv_def)
  have keys: "map fst (map entry (take m sent)) = map (\<lambda>i. event_id nonce (Suc i)) [0..<m]"
    using m(3) eid by (intro nth_equalityI) (auto simp: entry_def)
  have "distinct (map fst (map entry (take m sent)))" unfolding keys by (auto simp: distinct_map inj_on_def)
  moreover have "cf_seen (fold_log L0) \<inter> fst ` set (map entry (take m sent)) = {}"
  proof -
    have "fst ` set (map entry (take m sent)) = set (map (\<lambda>i. event_id nonce (Suc i)) [0..<m])" using keys by (metis list.set_map)
    then show ?thesis using fresh by (auto simp: cf_seen_fold default_fold_def)
  qed
  ultimately have "unseen (fold (\<lambda>(eid, ev). apply_once eid ev) (map entry (take m sent)) (fold_log L0))
      = fold fold_apply (map snd (map entry (take m sent))) (unseen (fold_log L0))" by (rule fold_distinct)
  then have "unseen (fold_log (cw_log w)) = fold fold_apply (map sd_ev (take m sent)) (unseen (fold_log L0))"
    using fold_remdups_adj [of new "fold_log L0"] by (simp add: new entry_def comp_def)
  with m show ?thesis by blast
qed


text \<open>\<open>enqueue\<close> mints the number and sends in two steps, here taken as one. When two senders interleave
  between them the events are queued in the other order, and the landed number then goes backwards: with
  everything landed, \<open>wait_durable\<close> still waits.\<close>

lemma landed_seq_goes_back:
  "let mk = (\<lambda>n. \<lparr>sd_ev = EvRetired ''s1'', sd_seq = n, sd_eid = event_id ''n'' n, sd_done = False\<rparr>);
       w = (writer_start ''n'' [])\<lparr>cw_next_eid := 3, cw_in_flight := 2, cw_queue := [mk 2, mk 1]\<rparr>;
       w' = catalog_attempt True True (Ok ()) (catalog_attempt True True (Ok ()) w)
   in drained w' \<and> length (cw_log w') = 2 \<and> \<not> is_durable (durable_target w') w'"
  by (simp add: Let_def writer_start_def catalog_attempt_def checkpoint_def drained_def is_durable_def durable_target_def)

text \<open>A run in which the first append lands but its answer is lost: the log holds the event twice.\<close>

definition example_pos :: log_position where
  "example_pos = \<lparr>lp_segment = 0, lp_offset = ''7''\<rparr>"

definition example_sent :: catalog_send where
  "example_sent = \<lparr>sd_ev = EvOffset example_pos None, sd_seq = 1, sd_eid = event_id ''n'' 1, sd_done = True\<rparr>"

definition example_writer :: catalog_writer where
  "example_writer = catalog_attempt True True (Ok ()) (catalog_attempt True True (Err (Io ''timeout''))
     (fst (enqueue (EvOffset example_pos None) True (writer_start ''n'' []))))"

lemma example_writer_reach: "writer_reach ''n'' [] example_writer [example_sent]"
proof -
  have "enqueue (EvOffset example_pos None) True (writer_start ''n'' []) = (fst (enqueue (EvOffset example_pos None) True (writer_start ''n'' [])), True)"
    by (simp add: enqueue_def writer_start_def)
  from reach_send [OF reach_start this] have "writer_reach ''n'' [] (fst (enqueue (EvOffset example_pos None) True (writer_start ''n'' []))) [example_sent]"
    by (simp add: enqueue_def writer_start_def example_sent_def)
  then show ?thesis unfolding example_writer_def by (intro reach_attempt) simp_all
qed

lemma example_writer_state:
  "cw_log example_writer = [entry example_sent, entry example_sent]" "cw_acked example_writer = [1]" "cw_durable example_writer = Some example_pos"
  by (simp_all add: example_writer_def enqueue_def writer_start_def catalog_attempt_def entry_def example_sent_def checkpoint_def
      raise_durable_def classify_append_def is_unavailable_def)


section \<open>The durable position\<close>

abbreviation lp_le :: "log_position \<Rightarrow> log_position \<Rightarrow> bool" where
  "lp_le p q \<equiv> \<not> lp_less q p"

lemma lp_le_trans: "lp_le p q \<Longrightarrow> lp_le q r \<Longrightarrow> lp_le p r"
  by (auto simp: lp_less_def)

lemma fold_start_pos:
  "cf_start_pos (fold fold_apply evs cf) = (case rev (List.map_filter checkpoint evs) of [] \<Rightarrow> cf_start_pos cf | p # _ \<Rightarrow> p)"
proof (induction evs rule: rev_induct)
  case (snoc ev evs)
  have "cf_start_pos (fold_apply ev cf') = (case checkpoint ev of None \<Rightarrow> cf_start_pos cf' | Some p \<Rightarrow> p)" for cf'
    by (cases ev) (auto simp: checkpoint_def with_rec_def Let_def split: option.splits prod.splits)
  with snoc show ?case by (auto simp: map_filter_def split: option.splits)
qed (simp add: map_filter_def)

text \<open>C33: the durable position never runs ahead of a restart. When the sequencer's checkpoints do not go
  backwards, then whatever storage did, a crash in any reachable state of the writer leaves a catalog
  that folds to a position at or after the one the writer publishes: deleting change-log segments
  before the published position never removes what the next process reads.\<close>

theorem durable_floor_safe:
  assumes "writer_reach nonce L0 w sent" and "\<forall>x \<in> set L0. \<forall>n. fst x \<noteq> event_id nonce n"
    and "sorted_wrt lp_le (cf_start_pos (fold_log L0) # List.map_filter checkpoint (map sd_ev sent))"
    and "cw_durable w = Some p"
  shows "lp_le p (cf_start_pos (fold_log (cw_log w)))"
proof -
  from reach_fold [OF assms(1,2)] obtain m where m: "cw_landed_seq w \<le> m"
    "unseen (fold_log (cw_log w)) = fold fold_apply (map sd_ev (take m sent)) (unseen (fold_log L0))" by blast
  let ?cs = "List.map_filter checkpoint (map sd_ev (take m sent))" and ?p0 = "cf_start_pos (fold_log L0)"
  have start: "cf_start_pos (fold_log (cw_log w)) = (case rev ?cs of [] \<Rightarrow> ?p0 | q # _ \<Rightarrow> q)"
    using fold_start_pos [of "map sd_ev (take m sent)" "unseen (fold_log L0)"] unfolding m(2) [symmetric] cf_start_pos_unseen .
  have "List.map_filter checkpoint (map sd_ev sent) = ?cs @ List.map_filter checkpoint (map sd_ev (drop m sent))"
    by (simp add: map_filter_def flip: map_append filter_append)
  then have sorted: "sorted_wrt lp_le (?p0 # ?cs)" using assms(3) by (auto simp: sorted_wrt_append)
  have "p \<in> set (?p0 # ?cs)"
  proof -
    from writer_reach_inv [OF assms(1)] assms(4) have "p = ?p0 \<or> (\<exists>s \<in> set (take (cw_landed_seq w) sent). checkpoint (sd_ev s) = Some p)"
      by (auto simp: catalog_inv_def)
    then show ?thesis using set_take_subset_set_take [OF m(1), of sent] by (force simp: map_filter_def image_iff)
  qed
  moreover have "last (?p0 # ?cs) = cf_start_pos (fold_log (cw_log w))" unfolding start by (cases ?cs rule: rev_cases) auto
  moreover have "lp_le q (last (?p0 # ?cs))" if "q \<in> set (?p0 # ?cs)" for q
    using sorted that by (cases "?p0 # ?cs" rule: rev_cases) (auto simp: sorted_wrt_append lp_less_def)
  ultimately show ?thesis by metis
qed

theorem durable_floor_safe_witness: "lp_le example_pos (cf_start_pos (fold_log [entry example_sent, entry example_sent]))"
  using durable_floor_safe [OF example_writer_reach _ _ example_writer_state(3)]
  by (simp add: example_writer_state example_sent_def default_fold_def checkpoint_def map_filter_def example_pos_def lp_less_def lp_start_def start_of_def)

end
