(* ===== verification/Retirement.thy ===== *)
theory Retirement
  imports Catalog
begin

text \<open>
  The retirement queue of \<^verbatim>\<open>engine/retirement.rs\<close>: streams the engine has promised to remove. A failed
  retirement goes to the back of the queue and is tried again, and its completion is recorded in the
  catalog only when storage has accepted the delete.
\<close>

section \<open>The queue\<close>

definition retire_backoff :: "nat \<Rightarrow> nat" where
  "retire_backoff attempt = min (500 * 2 ^ min (attempt - 1) 4) 5000"

text \<open>A completion is named by a number and says whether its waiter wants the record durable.\<close>

record retirement =
  rt_stream_path :: string
  rt_shape_id :: "string option"
  rt_attempt :: nat
  rt_completion :: "(nat \<times> bool) option"

text \<open>The channel into the worker, the worker's own queue, the gauge, whether the worker runs, and the
  completions announced with their outcomes.\<close>

record retire_queue =
  rq_chan :: "retirement list"
  rq_queue :: "retirement list"
  rq_pending :: nat
  rq_running :: bool
  rq_outcomes :: "(nat \<times> bool) list"

definition retire_start :: retire_queue where
  "retire_start = \<lparr>rq_chan = [], rq_queue = [], rq_pending = 0, rq_running = True, rq_outcomes = []\<rparr>"

definition enqueue_with_completion :: "string \<Rightarrow> string option \<Rightarrow> (nat \<times> bool) option \<Rightarrow> retire_queue \<Rightarrow> retire_queue" where
  "enqueue_with_completion path sid completion q =
     (if rq_running q
      then q\<lparr>rq_pending := rq_pending q + 1,
             rq_chan := rq_chan q @ [\<lparr>rt_stream_path = path, rt_shape_id = sid, rt_attempt = 0, rt_completion = completion\<rparr>]\<rparr>
      else q)"

definition retire_enqueue :: "string \<Rightarrow> string option \<Rightarrow> retire_queue \<Rightarrow> retire_queue" where
  "retire_enqueue path sid q = enqueue_with_completion path sid None q"

definition announce :: "bool \<Rightarrow> retirement \<Rightarrow> (nat \<times> bool) list" where
  "announce ok it = (case rt_completion it of None \<Rightarrow> [] | Some (c, _) \<Rightarrow> [(c, ok)])"

definition abandon_retirements :: "retirement list \<Rightarrow> retire_queue \<Rightarrow> retire_queue" where
  "abandon_retirements current q =
     (let gone = current @ rq_queue q @ rq_chan q in
      q\<lparr>rq_chan := [], rq_queue := [], rq_pending := rq_pending q - length gone, rq_running := False,
        rq_outcomes := rq_outcomes q @ concat (map (announce False) gone)\<rparr>)"

definition wants_durable :: "retirement \<Rightarrow> bool" where
  "wants_durable it = (case rt_completion it of Some (_, d) \<Rightarrow> d | None \<Rightarrow> False)"

definition retire_done :: "retirement \<Rightarrow> retirement list \<Rightarrow> retire_queue \<Rightarrow> retire_queue" where
  "retire_done it rest q =
     q\<lparr>rq_chan := [], rq_queue := rest, rq_pending := rq_pending q - 1, rq_outcomes := rq_outcomes q @ announce True it\<rparr>"

text \<open>One turn of the worker. \<open>reply\<close> is what storage answers for the stream at the head, \<open>landed\<close>
  whether a durable record that was queued also landed.\<close>

definition retire_turn :: "bool \<Rightarrow> (string \<Rightarrow> unit result) \<Rightarrow> bool \<Rightarrow> retire_queue \<times> catalog_writer \<Rightarrow> retire_queue \<times> catalog_writer" where
  "retire_turn shutting_down reply landed = (\<lambda>(q, w).
     if \<not> rq_running q then (q, w)
     else (case rq_queue q @ rq_chan q of
             [] \<Rightarrow> (q, w)
           | it # rest \<Rightarrow>
               if shutting_down then (abandon_retirements [] q, w)
               else (case reply (rt_stream_path it) of
                       Inr _ \<Rightarrow>
                         (case rt_shape_id it of
                            None \<Rightarrow> (retire_done it rest q, w)
                          | Some sid \<Rightarrow>
                              (case enqueue (EvRetired sid) (wants_durable it) w of
                                 (w1, queued) \<Rightarrow>
                                   if wants_durable it \<and> \<not> (queued \<and> landed)
                                   then (abandon_retirements [it] (q\<lparr>rq_chan := [], rq_queue := rest\<rparr>), w1)
                                   else (retire_done it rest q, w1)))
                     | Inl _ \<Rightarrow>
                         (q\<lparr>rq_chan := [], rq_queue := rest @ [it\<lparr>rt_attempt := rt_attempt it + 1\<rparr>]\<rparr>, w))))"

section \<open>A round of the queue\<close>

abbreviation waiting :: "retire_queue \<Rightarrow> retirement list" where
  "waiting q \<equiv> rq_queue q @ rq_chan q"

definition queue_ok :: "retire_queue \<Rightarrow> bool" where
  "queue_ok q \<longleftrightarrow> rq_pending q = length (waiting q)"

lemma queue_ok_start: "queue_ok retire_start"
  by (simp add: queue_ok_def retire_start_def)

lemma queue_ok_enqueue: "queue_ok q \<Longrightarrow> queue_ok (enqueue_with_completion path sid c q)"
  by (simp add: queue_ok_def enqueue_with_completion_def)

lemma queue_ok_turn: "queue_ok q \<Longrightarrow> retire_turn sd reply landed (q, w) = (q', w') \<Longrightarrow> queue_ok q'"
proof (cases "waiting q")
  case (Cons it rest)
  assume ok: "queue_ok q" and turn: "retire_turn sd reply landed (q, w) = (q', w')"
  from ok Cons have "rq_pending q = Suc (length rest)" "length (rq_queue q) + length (rq_chan q) = Suc (length rest)"
    unfolding queue_ok_def by (simp, metis length_Cons length_append)
  with ok turn Cons show ?thesis
    by (auto simp: retire_turn_def queue_ok_def retire_done_def abandon_retirements_def Let_def
        split: if_splits sum.splits option.splits prod.splits)
qed (auto simp: retire_turn_def queue_ok_def split: if_splits)

definition answered :: "(string \<Rightarrow> unit result) \<Rightarrow> retirement \<Rightarrow> bool" where
  "answered reply it \<longleftrightarrow> is_ok (reply (rt_stream_path it))"

definition bump_attempt :: "retirement \<Rightarrow> retirement" where
  "bump_attempt it = it\<lparr>rt_attempt := rt_attempt it + 1\<rparr>"

text \<open>The records a round writes, in order.\<close>

definition retired_records :: "(string \<Rightarrow> unit result) \<Rightarrow> retirement list \<Rightarrow> (catalog_event \<times> bool) list" where
  "retired_records reply its =
     List.map_filter (\<lambda>it. if answered reply it then map_option (\<lambda>sid. (EvRetired sid, wants_durable it)) (rt_shape_id it) else None) its"

fun send_all :: "(catalog_event \<times> bool) list \<Rightarrow> catalog_writer \<Rightarrow> catalog_writer" where
  "send_all [] w = w"
| "send_all ((ev, waits) # evs) w = send_all evs (fst (enqueue ev waits w))"

lemma enqueue_running: "cw_running w \<Longrightarrow> cw_running (fst (enqueue ev waits w)) \<and> snd (enqueue ev waits w)"
  by (simp add: enqueue_def Let_def)

lemma retire_round_from:
  assumes "rq_running q" and "waiting q = its @ back'" and "cw_running w"
  shows "\<exists>q'. (retire_turn False reply True ^^ length its) (q, w) = (q', send_all (retired_records reply its) w)
     \<and> rq_running q' \<and> waiting q' = back' @ map bump_attempt (filter (\<lambda>it. \<not> answered reply it) its)
     \<and> rq_outcomes q' = rq_outcomes q @ concat (map (announce True) (filter (answered reply) its))
     \<and> rq_pending q' = rq_pending q - length (filter (answered reply) its)"
  using assms
proof (induction its arbitrary: q w back')
  case Nil
  then show ?case by (simp add: retired_records_def map_filter_def)
next
  case (Cons it its)
  show ?case
  proof (cases "reply (rt_stream_path it)")
    case (Inl e)
    let ?q = "q\<lparr>rq_chan := [], rq_queue := (its @ back') @ [bump_attempt it]\<rparr>"
    have turn: "retire_turn False reply True (q, w) = (?q, w)"
      using Cons.prems Inl by (simp add: retire_turn_def bump_attempt_def)
    have "rq_running ?q" "waiting ?q = its @ (back' @ [bump_attempt it])" using Cons.prems by simp_all
    from Cons.IH [OF this Cons.prems(3)] show ?thesis
      using turn Inl by (simp add: funpow_Suc_right answered_def retired_records_def map_filter_def del: funpow.simps)
  next
    case (Inr u)
    obtain w1 queued where e: "(case rt_shape_id it of None \<Rightarrow> (w, True) | Some sid \<Rightarrow> enqueue (EvRetired sid) (wants_durable it) w) = (w1, queued)"
      by (metis surj_pair)
    have w1: "cw_running w1" "queued" using e Cons.prems(3) enqueue_running [OF Cons.prems(3)] by (cases "rt_shape_id it"; metis (no_types, lifting) fst_conv snd_conv option.simps(4,5))+
    let ?q = "retire_done it (its @ back') q"
    have turn: "retire_turn False reply True (q, w) = (?q, w1)"
      using Cons.prems Inr e w1(2) by (auto simp: retire_turn_def split: option.splits)
    have "rq_running ?q" "waiting ?q = its @ back'" using Cons.prems by (simp_all add: retire_done_def)
    from Cons.IH [OF this w1(1)] have IH: "\<exists>q'. (retire_turn False reply True ^^ length its) (?q, w1) = (q', send_all (retired_records reply its) w1)
     \<and> rq_running q' \<and> waiting q' = back' @ map bump_attempt (filter (\<lambda>it. \<not> answered reply it) its)
     \<and> rq_outcomes q' = rq_outcomes ?q @ concat (map (announce True) (filter (answered reply) its))
     \<and> rq_pending q' = rq_pending ?q - length (filter (answered reply) its)" .
    have "send_all (retired_records reply its) w1 = send_all (retired_records reply (it # its)) w"
      using e Inr by (auto simp: retired_records_def map_filter_def answered_def split: option.splits)
    moreover have "answered reply it" using Inr by (simp add: answered_def)
    ultimately show ?thesis using IH turn
      by (auto simp: funpow_Suc_right retire_done_def simp del: funpow.simps)
  qed
qed

text \<open>C34: no stream starves the others. A round of as many turns as there are retirements waiting tries each
  of them once, whatever storage answers for the others: those it accepts are recorded as retired, in
  order, announced and gone; those it refuses wait on, in order, one attempt older, none lost.\<close>

theorem retirement_round:
  assumes "rq_running q" and "cw_running w" and "queue_ok q"
  shows "\<exists>q'. (retire_turn False reply True ^^ length (waiting q)) (q, w) = (q', send_all (retired_records reply (waiting q)) w)
     \<and> waiting q' = map bump_attempt (filter (\<lambda>it. \<not> answered reply it) (waiting q))
     \<and> rq_outcomes q' = rq_outcomes q @ concat (map (announce True) (filter (answered reply) (waiting q)))
     \<and> rq_pending q' = length (waiting q')"
proof -
  from retire_round_from [OF assms(1) _ assms(2), of "waiting q" "[]" reply] obtain q' where
    q': "(retire_turn False reply True ^^ length (waiting q)) (q, w) = (q', send_all (retired_records reply (waiting q)) w)"
      "waiting q' = map bump_attempt (filter (\<lambda>it. \<not> answered reply it) (waiting q))"
      "rq_outcomes q' = rq_outcomes q @ concat (map (announce True) (filter (answered reply) (waiting q)))"
      "rq_pending q' = rq_pending q - length (filter (answered reply) (waiting q))" by auto
  have "length (filter (answered reply) (waiting q)) + length (filter (\<lambda>it. \<not> answered reply it) (waiting q)) = rq_pending q"
    using assms(3) unfolding queue_ok_def by (metis sum_length_filter_compl)
  with q'(2,4) have "rq_pending q' = length (waiting q')" by (simp del: filter_append length_append)
  with q' show ?thesis by blast
qed

text \<open>Storage refuses the first of two streams: it waits on, the second is recorded and gone.\<close>

definition example_queue :: retire_queue where
  "example_queue = retire_enqueue ''b'' (Some ''s2'') (retire_enqueue ''a'' (Some ''s1'') retire_start)"

theorem retirement_round_witness:
  "\<exists>q'. (retire_turn False (\<lambda>path. if path = ''a'' then Err (Io path) else Ok ()) True ^^ 2) (example_queue, writer_start ''n'' [])
       = (q', fst (enqueue (EvRetired ''s2'') False (writer_start ''n'' [])))
     \<and> waiting q' = [\<lparr>rt_stream_path = ''a'', rt_shape_id = Some ''s1'', rt_attempt = 1, rt_completion = None\<rparr>]
     \<and> rq_pending q' = 1"
proof -
  have w: "waiting example_queue = [\<lparr>rt_stream_path = ''a'', rt_shape_id = Some ''s1'', rt_attempt = 0, rt_completion = None\<rparr>,
      \<lparr>rt_stream_path = ''b'', rt_shape_id = Some ''s2'', rt_attempt = 0, rt_completion = None\<rparr>]"
    and "rq_running example_queue" "queue_ok example_queue" "cw_running (writer_start ''n'' [])"
    by (simp_all add: example_queue_def retire_enqueue_def enqueue_with_completion_def retire_start_def queue_ok_def writer_start_def)
  from retirement_round [OF this(2,4,3), of "\<lambda>path. if path = ''a'' then Err (Io path) else Ok ()"] obtain q' where
    "(retire_turn False (\<lambda>path. if path = ''a'' then Err (Io path) else Ok ()) True ^^ 2) (example_queue, writer_start ''n'' [])
       = (q', fst (enqueue (EvRetired ''s2'') False (writer_start ''n'' [])))"
    and q': "waiting q' = [\<lparr>rt_stream_path = ''a'', rt_shape_id = Some ''s1'', rt_attempt = 1, rt_completion = None\<rparr>]"
      "rq_pending q' = length (waiting q')"
    unfolding w by (auto simp: retired_records_def map_filter_simps answered_def wants_durable_def bump_attempt_def announce_def numeral_2_eq_2 simp del: length_append)
  moreover have "rq_pending q' = 1" unfolding q'(2) q'(1) by simp
  ultimately show ?thesis by blast
qed

end
