(* ===== verification/Retention.thy ===== *)
theory Retention
  imports ChangeLog
begin

text \<open>
  Shape retention (\<^verbatim>\<open>apps/engine/src/retention.rs\<close>): the configuration, the lifecycle states and the
  pure planner of a sweep with its layered eviction policy. Durations are seconds; the wait handles
  of the transitional states are left out.
\<close>

record retention_config =
  rc_idle_timeout :: nat
  rc_subscription_lease_timeout :: nat
  rc_dormant_ttl :: nat
  rc_replay_min_bytes :: nat
  rc_replay_multiplier :: nat
  rc_max_shapes :: nat
  rc_disk_budget_bytes :: nat
  rc_sweep_interval :: nat
  rc_reactivation_join_timeout :: nat
  rc_pending_buffer_max_bytes :: nat

definition default_retention_config :: retention_config where
  "default_retention_config =
     \<lparr>rc_idle_timeout = 6 * 3600, rc_subscription_lease_timeout = 1800, rc_dormant_ttl = 7 * 24 * 3600,
      rc_replay_min_bytes = 16 * 1024 * 1024, rc_replay_multiplier = 4, rc_max_shapes = 10000,
      rc_disk_budget_bytes = 0, rc_sweep_interval = 60, rc_reactivation_join_timeout = 20,
      rc_pending_buffer_max_bytes = 64 * 1024 * 1024\<rparr>"

definition env_parsed :: "(string \<Rightarrow> string option) \<Rightarrow> string \<Rightarrow> nat option" where
  "env_parsed get name = Option.bind (get name) (\<lambda>v. parse_u64 (trim v))"

definition env_u64 :: "(string \<Rightarrow> string option) \<Rightarrow> string \<Rightarrow> nat \<Rightarrow> nat" where
  "env_u64 get name dflt = (case env_parsed get name of None \<Rightarrow> dflt | Some n \<Rightarrow> n)"

definition replay_budget :: "retention_config \<Rightarrow> nat option \<Rightarrow> nat" where
  "replay_budget cfg backfill_bytes =
     max (rc_replay_min_bytes cfg)
       (sat_mul (case backfill_bytes of None \<Rightarrow> 0 | Some b \<Rightarrow> b) (rc_replay_multiplier cfg))"

definition retention_from_env :: "(string \<Rightarrow> string option) \<Rightarrow> retention_config" where
  "retention_from_env get =
     (let d = default_retention_config;
          legacy_idle = env_parsed get ''ELECTRIC_CIRCUITS_SHAPE_IDLE_SECS'';
          lease_secs = (case env_parsed get ''ELECTRIC_CIRCUITS_SUBSCRIPTION_LEASE_SECS'' of
                          Some n \<Rightarrow> n
                        | None \<Rightarrow> (case legacy_idle of Some n \<Rightarrow> n | None \<Rightarrow> rc_subscription_lease_timeout d))
      in \<lparr>rc_idle_timeout = (case legacy_idle of Some n \<Rightarrow> n | None \<Rightarrow> rc_idle_timeout d),
          rc_subscription_lease_timeout = lease_secs,
          rc_dormant_ttl = env_u64 get ''ELECTRIC_CIRCUITS_SHAPE_DORMANT_TTL_SECS'' (rc_dormant_ttl d),
          rc_replay_min_bytes = env_u64 get ''ELECTRIC_CIRCUITS_REPLAY_MIN_BYTES'' (rc_replay_min_bytes d),
          rc_replay_multiplier = env_u64 get ''ELECTRIC_CIRCUITS_REPLAY_MULTIPLIER'' (rc_replay_multiplier d),
          rc_max_shapes = env_u64 get ''ELECTRIC_CIRCUITS_MAX_SHAPES'' (rc_max_shapes d),
          rc_disk_budget_bytes = sat_mul (env_u64 get ''ELECTRIC_CIRCUITS_SHAPE_DISK_BUDGET_MB'' 0) (1024 * 1024),
          rc_sweep_interval = max (env_u64 get ''ELECTRIC_CIRCUITS_RETENTION_SWEEP_SECS'' 60) 1,
          rc_reactivation_join_timeout = env_u64 get ''ELECTRIC_CIRCUITS_REACTIVATION_JOIN_TIMEOUT_SECS'' (rc_reactivation_join_timeout d),
          rc_pending_buffer_max_bytes = env_u64 get ''ELECTRIC_CIRCUITS_PENDING_BUFFER_MAX_BYTES'' (rc_pending_buffer_max_bytes d)\<rparr>)"

datatype life_state =
    LifeActive | LifeDeactivating | LifeDormant nat log_position snapshot_gate | LifeReactivating log_position

record shape_life =
  sl_last_read :: nat
  sl_state :: life_state

record sweep_shape =
  ss_id :: string
  ss_refcount :: nat
  ss_idle :: nat
  ss_dormant_for :: "nat option"
  ss_in_transition :: bool
  ss_dormancy_eligible :: bool
  ss_stream_bytes :: nat
  ss_replay_span_bytes :: "nat option"
  ss_replay_span_deferred :: bool
  ss_backfill_bytes :: "nat option"

datatype evict_reason = DormantTtl | MaxShapes | DiskBudget | ChangeLogRetention | ReplayBudget

definition reason_str :: "evict_reason \<Rightarrow> string" where
  "reason_str r = (case r of DormantTtl \<Rightarrow> ''dormant-ttl'' | MaxShapes \<Rightarrow> ''max-shapes'' | DiskBudget \<Rightarrow> ''disk-budget''
     | ChangeLogRetention \<Rightarrow> ''change-log-retention'' | ReplayBudget \<Rightarrow> ''replay-budget'')"

record sweep_plan =
  sw_deactivate :: "string list"
  sw_evict :: "(string \<times> evict_reason) list"
  sw_over_capacity :: bool
  sw_over_budget :: bool

section \<open>The planner, tier by tier\<close>

definition goes_dormant :: "retention_config \<Rightarrow> sweep_shape \<Rightarrow> bool" where
  "goes_dormant cfg s \<longleftrightarrow> rc_idle_timeout cfg \<noteq> 0 \<and> ss_dormancy_eligible s \<and> \<not> ss_in_transition s
     \<and> ss_dormant_for s = None \<and> ss_refcount s = 0 \<and> ss_idle s \<ge> rc_idle_timeout cfg"

definition span_eviction :: "retention_config \<Rightarrow> sweep_shape \<Rightarrow> evict_reason option" where
  "span_eviction cfg s =
     (if ss_dormant_for s = None then None
      else if ss_replay_span_deferred s then None
      else (case ss_replay_span_bytes s of
              None \<Rightarrow> Some ChangeLogRetention
            | Some n \<Rightarrow> if n > replay_budget cfg (ss_backfill_bytes s) then Some ReplayBudget else None))"

definition ttl_dormant :: "retention_config \<Rightarrow> sweep_shape \<Rightarrow> bool" where
  "ttl_dormant cfg s \<longleftrightarrow> rc_dormant_ttl cfg \<noteq> 0 \<and> (case ss_dormant_for s of None \<Rightarrow> False | Some d \<Rightarrow> d \<ge> rc_dormant_ttl cfg)"

definition ttl_active :: "retention_config \<Rightarrow> sweep_shape \<Rightarrow> bool" where
  "ttl_active cfg s \<longleftrightarrow> rc_dormant_ttl cfg \<noteq> 0 \<and> \<not> ss_dormancy_eligible s \<and> \<not> ss_in_transition s \<and> ss_refcount s = 0
     \<and> ss_idle s \<ge> rc_idle_timeout cfg + rc_dormant_ttl cfg"

definition early_evictions :: "retention_config \<Rightarrow> sweep_shape list \<Rightarrow> (string \<times> evict_reason) list" where
  "early_evictions cfg shapes =
     List.map_filter (\<lambda>s. map_option (Pair (ss_id s)) (span_eviction cfg s)) shapes
     @ map (\<lambda>s. (ss_id s, DormantTtl)) (filter (ttl_dormant cfg) shapes)
     @ map (\<lambda>s. (ss_id s, DormantTtl)) (filter (ttl_active cfg) shapes)"

text \<open>The two pressure loops take from the front of one queue. Each returns what it evicted, what is left
  of the queue and whether the queue ran dry first.\<close>

fun cap_loop :: "nat \<Rightarrow> nat \<Rightarrow> sweep_shape list \<Rightarrow> sweep_shape list \<times> sweep_shape list \<times> bool" where
  "cap_loop mx n [] = ([], [], n > mx)"
| "cap_loop mx n (s # lru) =
     (if n > mx then (case cap_loop mx (n - 1) lru of (e, rest, ov) \<Rightarrow> (s # e, rest, ov)) else ([], s # lru, False))"

fun budget_loop :: "nat \<Rightarrow> nat \<Rightarrow> sweep_shape list \<Rightarrow> sweep_shape list \<times> sweep_shape list \<times> bool" where
  "budget_loop budget live_bytes [] = ([], [], live_bytes > budget)"
| "budget_loop budget live_bytes (s # lru) =
     (if live_bytes > budget
      then (case budget_loop budget (live_bytes - ss_stream_bytes s) lru of (e, rest, ov) \<Rightarrow> (s # e, rest, ov))
      else ([], s # lru, False))"

definition lru_queue :: "sweep_shape list \<Rightarrow> string set \<Rightarrow> sweep_shape list" where
  "lru_queue shapes evicted =
     sort_key (\<lambda>s. - int (ss_idle s)) (filter (\<lambda>s. ss_dormant_for s \<noteq> None \<and> ss_id s \<notin> evicted) shapes)"

definition cap_tier ::
  "retention_config \<Rightarrow> sweep_shape list \<Rightarrow> string set \<Rightarrow> sweep_shape list \<Rightarrow> sweep_shape list \<times> sweep_shape list \<times> bool" where
  "cap_tier cfg shapes evicted lru =
     (if rc_max_shapes cfg > 0 then cap_loop (rc_max_shapes cfg) (length shapes - card evicted) lru else ([], lru, False))"

definition bytes_left :: "sweep_shape list \<Rightarrow> string set \<Rightarrow> nat" where
  "bytes_left shapes evicted = sum_list (map ss_stream_bytes (filter (\<lambda>s. ss_id s \<notin> evicted) shapes))"

definition budget_tier ::
  "retention_config \<Rightarrow> sweep_shape list \<Rightarrow> string set \<Rightarrow> sweep_shape list \<Rightarrow> sweep_shape list \<times> sweep_shape list \<times> bool" where
  "budget_tier cfg shapes evicted lru =
     (if rc_disk_budget_bytes cfg > 0 then budget_loop (rc_disk_budget_bytes cfg) (bytes_left shapes evicted) lru else ([], lru, False))"

definition plan_sweep :: "retention_config \<Rightarrow> sweep_shape list \<Rightarrow> sweep_plan" where
  "plan_sweep cfg shapes =
     (let early = early_evictions cfg shapes;
          evicted1 = set (map fst early);
          (capped, lru2, over_cap) = cap_tier cfg shapes evicted1 (lru_queue shapes evicted1);
          (budgeted, lru3, over_bud) = budget_tier cfg shapes (evicted1 \<union> set (map ss_id capped)) lru2
      in \<lparr>sw_deactivate = map ss_id (filter (goes_dormant cfg) shapes),
          sw_evict = early @ map (\<lambda>s. (ss_id s, MaxShapes)) capped @ map (\<lambda>s. (ss_id s, DiskBudget)) budgeted,
          sw_over_capacity = over_cap, sw_over_budget = over_bud\<rparr>)"

section \<open>What a sweep may do\<close>

lemma cap_loop_split:
  "cap_loop mx n lru = (e, rest, ov) \<Longrightarrow> lru = e @ rest \<and> (ov \<longrightarrow> rest = []) \<and> (length lru \<le> n \<longrightarrow> n - length e \<le> mx \<or> ov)"
  by (induction mx n lru arbitrary: e rest ov rule: cap_loop.induct) (auto split: if_splits prod.splits)

lemma budget_loop_split:
  "budget_loop b n lru = (e, rest, ov) \<Longrightarrow>
     lru = e @ rest \<and> (ov \<longrightarrow> rest = []) \<and> (n - sum_list (map ss_stream_bytes e) \<le> b \<or> ov)"
  by (induction b n lru arbitrary: e rest ov rule: budget_loop.induct) (auto split: if_splits prod.splits)

lemma set_lru_queue: "set (lru_queue shapes ev) = {s \<in> set shapes. ss_dormant_for s \<noteq> None \<and> ss_id s \<notin> ev}"
  by (auto simp: lru_queue_def)

lemma in_map_filter: "y \<in> set (List.map_filter f xs) \<longleftrightarrow> (\<exists>x \<in> set xs. f x = Some y)"
  by (force simp: List.map_filter_def)

lemma early_evictions_iff:
  "(i, r) \<in> set (early_evictions cfg shapes) \<longleftrightarrow>
     (\<exists>s \<in> set shapes. ss_id s = i \<and> (span_eviction cfg s = Some r \<or> r = DormantTtl \<and> (ttl_dormant cfg s \<or> ttl_active cfg s)))"
  by (auto simp: early_evictions_def in_map_filter)

definition evictable :: "retention_config \<Rightarrow> sweep_shape \<Rightarrow> bool" where
  "evictable cfg s \<longleftrightarrow> ss_dormant_for s \<noteq> None \<or> ttl_active cfg s"

lemma span_eviction_dormant: "span_eviction cfg s = Some r \<Longrightarrow> ss_dormant_for s \<noteq> None"
  by (auto simp: span_eviction_def split: if_splits)

lemma early_evictable: "(i, r) \<in> set (early_evictions cfg shapes) \<Longrightarrow> \<exists>s \<in> set shapes. ss_id s = i \<and> evictable cfg s"
  unfolding early_evictions_iff evictable_def using span_eviction_dormant by (fastforce simp: ttl_dormant_def)

lemma cap_tier_split:
  "cap_tier cfg shapes ev lru = (e, rest, ov) \<Longrightarrow> lru = e @ rest \<and> (ov \<longrightarrow> rest = [])
     \<and> (rc_max_shapes cfg > 0 \<longrightarrow> length lru \<le> length shapes - card ev \<longrightarrow> length shapes - card ev - length e \<le> rc_max_shapes cfg \<or> ov)"
  using cap_loop_split [of "rc_max_shapes cfg" "length shapes - card ev" lru e rest ov]
  by (auto simp: cap_tier_def split: if_splits)

lemma budget_tier_split:
  "budget_tier cfg shapes ev lru = (e, rest, ov) \<Longrightarrow> lru = e @ rest \<and> (ov \<longrightarrow> rest = [])
     \<and> (rc_disk_budget_bytes cfg > 0 \<longrightarrow> bytes_left shapes ev - sum_list (map ss_stream_bytes e) \<le> rc_disk_budget_bytes cfg \<or> ov)"
  using budget_loop_split [of "rc_disk_budget_bytes cfg" "bytes_left shapes ev" lru e rest ov]
  by (auto simp: budget_tier_def split: if_splits)

text \<open>The plan's pieces, named once for the proofs below.\<close>

lemma plan_sweep_parts:
  obtains capped rest budgeted rest2 over_cap over_bud where
    "plan_sweep cfg shapes =
       \<lparr>sw_deactivate = map ss_id (filter (goes_dormant cfg) shapes),
        sw_evict = early_evictions cfg shapes @ map (\<lambda>s. (ss_id s, MaxShapes)) capped @ map (\<lambda>s. (ss_id s, DiskBudget)) budgeted,
        sw_over_capacity = over_cap, sw_over_budget = over_bud\<rparr>"
    "cap_tier cfg shapes (fst ` set (early_evictions cfg shapes)) (lru_queue shapes (fst ` set (early_evictions cfg shapes))) = (capped, rest, over_cap)"
    "budget_tier cfg shapes (fst ` set (early_evictions cfg shapes) \<union> ss_id ` set capped) rest = (budgeted, rest2, over_bud)"
proof -
  let ?ev = "fst ` set (early_evictions cfg shapes)"
  obtain capped rest oc where c: "cap_tier cfg shapes ?ev (lru_queue shapes ?ev) = (capped, rest, oc)" by (metis prod_cases3)
  obtain budgeted rest2 ob where b: "budget_tier cfg shapes (?ev \<union> ss_id ` set capped) rest = (budgeted, rest2, ob)" by (metis prod_cases3)
  have "plan_sweep cfg shapes =
       \<lparr>sw_deactivate = map ss_id (filter (goes_dormant cfg) shapes),
        sw_evict = early_evictions cfg shapes @ map (\<lambda>s. (ss_id s, MaxShapes)) capped @ map (\<lambda>s. (ss_id s, DiskBudget)) budgeted,
        sw_over_capacity = oc, sw_over_budget = ob\<rparr>"
    using c b by (simp add: plan_sweep_def Let_def)
  with c b show thesis by (rule that [rotated])
qed


definition ex_sweep_shape :: "string \<Rightarrow> nat \<Rightarrow> nat option \<Rightarrow> sweep_shape" where
  "ex_sweep_shape i idle dormant =
     \<lparr>ss_id = i, ss_refcount = 0, ss_idle = idle, ss_dormant_for = dormant, ss_in_transition = False,
      ss_dormancy_eligible = True, ss_stream_bytes = 10, ss_replay_span_bytes = Some 0,
      ss_replay_span_deferred = False, ss_backfill_bytes = None\<rparr>"

definition ex_sweep :: "sweep_shape list" where
  "ex_sweep = [ex_sweep_shape ''a'' 30000 None, ex_sweep_shape ''b'' 9 (Some 700000), ex_sweep_shape ''c'' 5 (Some 5)]"

lemmas ex_sweep_defs = ex_sweep_def ex_sweep_shape_def plan_sweep_def early_evictions_def span_eviction_def ttl_dormant_def
  ttl_active_def goes_dormant_def replay_budget_def sat_mul_def default_retention_config_def lru_queue_def cap_tier_def
  budget_tier_def bytes_left_def List.map_filter_def u64_max_def


section \<open>Caps and budgets\<close>

lemma length_filter_mono: "(\<And>x. P x \<Longrightarrow> Q x) \<Longrightarrow> length (filter P xs) \<le> length (filter Q xs)"
  by (induction xs) (auto simp: le_SucI)

lemma filter_out_length:
  assumes "distinct (map f xs)" "A \<subseteq> f ` set xs"
  shows "length (filter (\<lambda>x. f x \<notin> A) xs) = length xs - card A"
proof -
  have fin: "finite A" using assms(2) finite_subset by blast
  have "distinct (map f (filter (\<lambda>x. f x \<in> A) xs))" using assms(1) distinct_map_filter by blast
  then have "card (set (map f (filter (\<lambda>x. f x \<in> A) xs))) = length (filter (\<lambda>x. f x \<in> A) xs)"
    using distinct_card by fastforce
  moreover have "set (map f (filter (\<lambda>x. f x \<in> A) xs)) = A" using assms(2) by auto
  ultimately have "length (filter (\<lambda>x. f x \<in> A) xs) = card A" by simp
  with sum_length_filter_compl [of "\<lambda>x. f x \<in> A" xs] show ?thesis by simp
qed

lemma bytes_left_sum:
  assumes "distinct (map ss_id shapes)"
  shows "bytes_left shapes ev = (\<Sum>s \<in> {s \<in> set shapes. ss_id s \<notin> ev}. ss_stream_bytes s)"
  using assms by (simp add: bytes_left_def sum_list_distinct_conv_sum_set distinct_map)

lemma bytes_left_remove:
  assumes "distinct (map ss_id shapes)" "distinct e" "set e \<subseteq> {s \<in> set shapes. ss_id s \<notin> ev}"
  shows "bytes_left shapes (ev \<union> ss_id ` set e) = bytes_left shapes ev - sum_list (map ss_stream_bytes e)"
proof -
  let ?A = "{s \<in> set shapes. ss_id s \<notin> ev}"
  have inj: "inj_on ss_id (set shapes)" using assms(1) by (simp add: distinct_map)
  have "{s \<in> set shapes. ss_id s \<notin> ev \<union> ss_id ` set e} = ?A - set e"
    using assms(3) inj by (auto dest: inj_onD)
  then have "bytes_left shapes (ev \<union> ss_id ` set e) = (\<Sum>s \<in> ?A - set e. ss_stream_bytes s)"
    using bytes_left_sum [OF assms(1)] by simp
  also have "\<dots> = (\<Sum>s \<in> ?A. ss_stream_bytes s) - (\<Sum>s \<in> set e. ss_stream_bytes s)"
    using assms(3) by (intro sum_diff_nat) auto
  finally show ?thesis using bytes_left_sum [OF assms(1)] assms(2) by (simp add: sum_list_distinct_conv_sum_set)
qed

lemma lru_queue_distinct: "distinct (map ss_id shapes) \<Longrightarrow> distinct (map ss_id (lru_queue shapes ev))"
proof -
  assume d: "distinct (map ss_id shapes)"
  then have "distinct (map ss_id (filter (\<lambda>s. ss_dormant_for s \<noteq> None \<and> ss_id s \<notin> ev) shapes))"
    by (rule distinct_map_filter)
  moreover have "mset (map ss_id (lru_queue shapes ev)) = mset (map ss_id (filter (\<lambda>s. ss_dormant_for s \<noteq> None \<and> ss_id s \<notin> ev) shapes))"
    by (simp add: lru_queue_def)
  ultimately show ?thesis by (metis mset_eq_imp_distinct_iff)
qed

definition kept_shapes :: "retention_config \<Rightarrow> sweep_shape list \<Rightarrow> sweep_shape list" where
  "kept_shapes cfg shapes = filter (\<lambda>s. ss_id s \<notin> fst ` set (sw_evict (plan_sweep cfg shapes))) shapes"

text \<open>The queue is split into what the cap took, what the budget took and what stays.\<close>

lemma plan_sweep_queue:
  assumes d: "distinct (map ss_id shapes)"
  obtains early capped budgeted stay where
    "early \<subseteq> ss_id ` set shapes" "lru_queue shapes early = capped @ budgeted @ stay"
    "kept_shapes cfg shapes = filter (\<lambda>s. ss_id s \<notin> early \<union> ss_id ` set capped \<union> ss_id ` set budgeted) shapes"
    "rc_max_shapes cfg > 0 \<Longrightarrow> length shapes - card early - length capped \<le> rc_max_shapes cfg
       \<or> sw_over_capacity (plan_sweep cfg shapes) \<and> budgeted = [] \<and> stay = []"
    "rc_disk_budget_bytes cfg > 0 \<Longrightarrow>
       bytes_left shapes (early \<union> ss_id ` set capped) - sum_list (map ss_stream_bytes budgeted) \<le> rc_disk_budget_bytes cfg
       \<or> sw_over_budget (plan_sweep cfg shapes) \<and> stay = []"
    "\<And>i r. r \<in> {MaxShapes, DiskBudget} \<Longrightarrow> (i, r) \<in> set (sw_evict (plan_sweep cfg shapes)) \<Longrightarrow> i \<in> ss_id ` (set capped \<union> set budgeted)"
proof -
  let ?ev = "fst ` set (early_evictions cfg shapes)"
  obtain capped rest budgeted rest2 oc ob where p: "plan_sweep cfg shapes =
       \<lparr>sw_deactivate = map ss_id (filter (goes_dormant cfg) shapes),
        sw_evict = early_evictions cfg shapes @ map (\<lambda>s. (ss_id s, MaxShapes)) capped @ map (\<lambda>s. (ss_id s, DiskBudget)) budgeted,
        sw_over_capacity = oc, sw_over_budget = ob\<rparr>"
    and c: "cap_tier cfg shapes ?ev (lru_queue shapes ?ev) = (capped, rest, oc)"
    and b: "budget_tier cfg shapes (?ev \<union> ss_id ` set capped) rest = (budgeted, rest2, ob)"
    by (rule plan_sweep_parts)
  have ev: "?ev \<subseteq> ss_id ` set shapes" using early_evictable by fastforce
  note cs = cap_tier_split [OF c] and bs = budget_tier_split [OF b]
  have "length (lru_queue shapes ?ev) \<le> length (filter (\<lambda>s. ss_id s \<notin> ?ev) shapes)"
    unfolding lru_queue_def length_sort by (rule length_filter_mono) simp
  then have len: "length (lru_queue shapes ?ev) \<le> length shapes - card ?ev"
    using filter_out_length [OF d ev] by simp
  have k: "kept_shapes cfg shapes = filter (\<lambda>s. ss_id s \<notin> ?ev \<union> ss_id ` set capped \<union> ss_id ` set budgeted) shapes"
    unfolding kept_shapes_def p by (rule filter_cong) (auto simp: image_image image_Un)
  have no_early: "(i, r) \<notin> set (early_evictions cfg shapes)" if "r \<in> {MaxShapes, DiskBudget}" for i r
    using that by (auto simp: early_evictions_iff span_eviction_def split: if_splits option.splits)
  show thesis
  proof (rule that [OF ev _ k])
    show "lru_queue shapes ?ev = capped @ budgeted @ rest2" using cs bs by simp
    show "length shapes - card ?ev - length capped \<le> rc_max_shapes cfg
       \<or> sw_over_capacity (plan_sweep cfg shapes) \<and> budgeted = [] \<and> rest2 = []" if "rc_max_shapes cfg > 0"
      using cs bs len that p by auto
    show "bytes_left shapes (?ev \<union> ss_id ` set capped) - sum_list (map ss_stream_bytes budgeted) \<le> rc_disk_budget_bytes cfg
       \<or> sw_over_budget (plan_sweep cfg shapes) \<and> rest2 = []" if "rc_disk_budget_bytes cfg > 0"
      using bs that p by auto
    show "i \<in> ss_id ` (set capped \<union> set budgeted)"
      if "r \<in> {MaxShapes, DiskBudget}" "(i, r) \<in> set (sw_evict (plan_sweep cfg shapes))" for i r
      using that no_early [OF that(1)] p by auto
  qed
qed

lemma unlisted_length:
  assumes d: "distinct (map ss_id shapes)" and "early \<subseteq> ss_id ` set shapes" and "distinct (map ss_id capped)"
    and "set capped \<subseteq> {s \<in> set shapes. ss_id s \<notin> early}"
  shows "length (filter (\<lambda>s. ss_id s \<notin> early \<union> ss_id ` set capped) shapes) = length shapes - card early - length capped"
proof -
  have "card (early \<union> ss_id ` set capped) = card early + card (ss_id ` set capped)"
    using assms(2,4) by (intro card_Un_disjoint) (auto intro: finite_subset)
  moreover have "card (ss_id ` set capped) = length capped" using assms(3) distinct_card [of "map ss_id capped"] by simp
  moreover have "early \<union> ss_id ` set capped \<subseteq> ss_id ` set shapes" using assms(2,4) by auto
  ultimately show ?thesis using filter_out_length [OF d, of "early \<union> ss_id ` set capped"] by simp
qed

lemma lru_order:
  assumes "lru_queue shapes early = xs @ stay" and "t \<in> set xs" and "s \<in> set stay"
  shows "ss_idle s \<le> ss_idle t"
proof -
  have "sorted (map (\<lambda>s. - int (ss_idle s)) (xs @ stay))"
    unfolding assms(1) [symmetric] lru_queue_def by (rule sorted_sort_key)
  with assms(2,3) show ?thesis by (auto simp: sorted_append)
qed

text \<open>C37: Caps and budgets are enforced, least recently read first. After the planned evictions either the
  number of shapes is within the cap, or the plan raises the over-capacity flag and no dormant shape
  is left; likewise for the disk budget; and a dormant shape that survives was read no earlier than
  any shape evicted for pressure.\<close>

theorem plan_sweep_bounds:
  assumes d: "distinct (map ss_id shapes)"
  shows "(rc_max_shapes cfg > 0 \<longrightarrow> length (kept_shapes cfg shapes) \<le> rc_max_shapes cfg
           \<or> sw_over_capacity (plan_sweep cfg shapes) \<and> list_all (\<lambda>s. ss_dormant_for s = None) (kept_shapes cfg shapes))
     \<and> (rc_disk_budget_bytes cfg > 0 \<longrightarrow> sum_list (map ss_stream_bytes (kept_shapes cfg shapes)) \<le> rc_disk_budget_bytes cfg
           \<or> sw_over_budget (plan_sweep cfg shapes) \<and> list_all (\<lambda>s. ss_dormant_for s = None) (kept_shapes cfg shapes))
     \<and> (\<forall>s t r. s \<in> set (kept_shapes cfg shapes) \<and> ss_dormant_for s \<noteq> None \<and> t \<in> set shapes \<and> r \<in> {MaxShapes, DiskBudget}
           \<and> (ss_id t, r) \<in> set (sw_evict (plan_sweep cfg shapes)) \<longrightarrow> ss_idle s \<le> ss_idle t)"
proof -
  obtain early capped budgeted stay where ev: "early \<subseteq> ss_id ` set shapes"
    and q: "lru_queue shapes early = capped @ budgeted @ stay"
    and k: "kept_shapes cfg shapes = filter (\<lambda>s. ss_id s \<notin> early \<union> ss_id ` set capped \<union> ss_id ` set budgeted) shapes"
    and cap: "rc_max_shapes cfg > 0 \<Longrightarrow> length shapes - card early - length capped \<le> rc_max_shapes cfg
       \<or> sw_over_capacity (plan_sweep cfg shapes) \<and> budgeted = [] \<and> stay = []"
    and bud: "rc_disk_budget_bytes cfg > 0 \<Longrightarrow>
       bytes_left shapes (early \<union> ss_id ` set capped) - sum_list (map ss_stream_bytes budgeted) \<le> rc_disk_budget_bytes cfg
       \<or> sw_over_budget (plan_sweep cfg shapes) \<and> stay = []"
    and why: "\<And>i r. r \<in> {MaxShapes, DiskBudget} \<Longrightarrow> (i, r) \<in> set (sw_evict (plan_sweep cfg shapes)) \<Longrightarrow> i \<in> ss_id ` (set capped \<union> set budgeted)"
    using plan_sweep_queue [OF d, of cfg] by blast
  have dq: "distinct (map ss_id (capped @ budgeted @ stay))" using lru_queue_distinct [OF d, of early] q by simp
  have sq: "set (capped @ budgeted @ stay) = {s \<in> set shapes. ss_dormant_for s \<noteq> None \<and> ss_id s \<notin> early}"
    using set_lru_queue [of shapes early] q by simp
  have inj: "\<And>s t. s \<in> set shapes \<Longrightarrow> t \<in> set shapes \<Longrightarrow> ss_id s = ss_id t \<Longrightarrow> s = t" using d by (metis distinct_map inj_onD)
  have stay: "s \<in> set stay" if "s \<in> set (kept_shapes cfg shapes)" "ss_dormant_for s \<noteq> None" for s
    using that k sq by auto
  have none: "stay = [] \<Longrightarrow> list_all (\<lambda>s. ss_dormant_for s = None) (kept_shapes cfg shapes)"
    using stay by (fastforce simp: list_all_iff)
  have "length (kept_shapes cfg shapes) \<le> length (filter (\<lambda>s. ss_id s \<notin> early \<union> ss_id ` set capped) shapes)"
    unfolding k by (rule length_filter_mono) simp
  also have "\<dots> = length shapes - card early - length capped" using dq sq by (intro unlisted_length [OF d ev]) auto
  finally have len: "length (kept_shapes cfg shapes) \<le> length shapes - card early - length capped" .
  have "sum_list (map ss_stream_bytes (kept_shapes cfg shapes)) = bytes_left shapes ((early \<union> ss_id ` set capped) \<union> ss_id ` set budgeted)"
    by (simp add: k bytes_left_def)
  also have "\<dots> = bytes_left shapes (early \<union> ss_id ` set capped) - sum_list (map ss_stream_bytes budgeted)"
    using dq sq by (intro bytes_left_remove [OF d]) (auto simp: distinct_map)
  finally have bytes: "sum_list (map ss_stream_bytes (kept_shapes cfg shapes)) =
    bytes_left shapes (early \<union> ss_id ` set capped) - sum_list (map ss_stream_bytes budgeted)" .
  show ?thesis
  proof (intro conjI allI impI)
    assume "0 < rc_max_shapes cfg"
    from cap [OF this] len none show "length (kept_shapes cfg shapes) \<le> rc_max_shapes cfg
       \<or> sw_over_capacity (plan_sweep cfg shapes) \<and> list_all (\<lambda>s. ss_dormant_for s = None) (kept_shapes cfg shapes)" by linarith
  next
    assume "0 < rc_disk_budget_bytes cfg"
    from bud [OF this] bytes none show "sum_list (map ss_stream_bytes (kept_shapes cfg shapes)) \<le> rc_disk_budget_bytes cfg
       \<or> sw_over_budget (plan_sweep cfg shapes) \<and> list_all (\<lambda>s. ss_dormant_for s = None) (kept_shapes cfg shapes)" by linarith
  next
    fix s t r
    assume a: "s \<in> set (kept_shapes cfg shapes) \<and> ss_dormant_for s \<noteq> None \<and> t \<in> set shapes \<and> r \<in> {MaxShapes, DiskBudget}
       \<and> (ss_id t, r) \<in> set (sw_evict (plan_sweep cfg shapes))"
    then have "ss_id t \<in> ss_id ` set (capped @ budgeted)" using why [of r "ss_id t"] by simp
    then obtain t' where "ss_id t' = ss_id t" "t' \<in> set (capped @ budgeted)" by (auto simp: image_iff)
    moreover from this have "t' = t" using inj [of t' t] a sq by auto
    ultimately show "ss_idle s \<le> ss_idle t" using lru_order [of shapes early "capped @ budgeted" stay t s] q stay a by simp
  qed
qed

theorem plan_sweep_bounds_witness:
  "length (kept_shapes (default_retention_config\<lparr>rc_max_shapes := 1\<rparr>) ex_sweep) \<le> 1
   \<and> sw_evict (plan_sweep (default_retention_config\<lparr>rc_max_shapes := 1\<rparr>) ex_sweep) = [(''b'', DormantTtl), (''c'', MaxShapes)]"
proof
  have "distinct (map ss_id ex_sweep)" by (simp add: ex_sweep_def ex_sweep_shape_def)
  note b = plan_sweep_bounds [OF this, of "default_retention_config\<lparr>rc_max_shapes := 1\<rparr>"]
  have "\<not> sw_over_capacity (plan_sweep (default_retention_config\<lparr>rc_max_shapes := 1\<rparr>) ex_sweep)" by (simp add: ex_sweep_defs)
  with b show "length (kept_shapes (default_retention_config\<lparr>rc_max_shapes := 1\<rparr>) ex_sweep) \<le> 1"
    by (simp add: default_retention_config_def)
  show "sw_evict (plan_sweep (default_retention_config\<lparr>rc_max_shapes := 1\<rparr>) ex_sweep) = [(''b'', DormantTtl), (''c'', MaxShapes)]"
    by (simp add: ex_sweep_defs)
qed

text \<open>A dormant shape that is past both its replay budget and the TTL is listed twice.\<close>

lemma plan_sweep_lists_twice:
  "sw_evict (plan_sweep default_retention_config [(ex_sweep_shape ''b'' 9 (Some 700000))\<lparr>ss_replay_span_bytes := None\<rparr>])
   = [(''b'', ChangeLogRetention), (''b'', DormantTtl)]"
  by (simp add: ex_sweep_defs)

end
