(* ===== verification/Registry.thy ===== *)
theory Registry
  imports Retirement Retention Output "HOL-Library.Product_Lexorder" "HOL-Library.Option_ord"
begin

text \<open>
  The engine's registry of shapes: \<open>EngineState\<close> of \<^verbatim>\<open>engine/mod.rs\<close> with its subscriptions, schema
  generations and sharing signatures, and the critical sections of \<^verbatim>\<open>engine/lifecycle.rs\<close> and
  \<^verbatim>\<open>engine/drift.rs\<close> that change it. A definition here is what one hold of the state lock does; what
  happens between two holds (backfills, waits for storage) is left to the interleaving of the steps.
  The catalog events an operation sends are kept in order in \<open>rg_events\<close>; the theory \<open>Restore\<close> shows
  that folding them gives the registry back.
\<close>

section \<open>State\<close>

datatype share_outcome = SharePending | ShareReady | ShareFailed | ShareDegraded | ShareRaced

record feed_share =
  fs_sig :: string
  fs_subs :: "(string \<times> nat) list"
  fs_ready :: share_outcome

definition refcount :: "feed_share \<Rightarrow> nat" where
  "refcount s = length (fs_subs s)"

text \<open>\<open>EngineState\<close>, the lives of the shapes, the catalog events sent, the removals sent to the sequencer
  and the streams handed to the retirement queue.\<close>

record registry =
  rg_tables :: "table_ref \<Rightarrow> tschema option"
  rg_shapes :: "(string \<times> shape_record) list"
  rg_next_shape_id :: nat
  rg_feed_by_sig :: "string \<Rightarrow> string option"
  rg_feed_shares :: "(string \<times> feed_share) list"
  rg_schema_gen :: "table_ref \<Rightarrow> nat option"
  rg_unresolved :: "table_ref set"
  rg_epoch_gen :: nat
  rg_subs_by_id :: "string \<Rightarrow> string option"
  rg_next_minted_sub :: nat
  rg_lives :: "string \<Rightarrow> shape_life option"
  rg_events :: "catalog_event list"
  rg_removed :: "(table_ref \<times> string) list"
  rg_retiring :: "(string \<times> string option) list"

definition registry_start :: registry where
  "registry_start =
     \<lparr>rg_tables = (\<lambda>_. None), rg_shapes = [], rg_next_shape_id = 1, rg_feed_by_sig = (\<lambda>_. None), rg_feed_shares = [],
      rg_schema_gen = (\<lambda>_. None), rg_unresolved = {}, rg_epoch_gen = 0, rg_subs_by_id = (\<lambda>_. None), rg_next_minted_sub = 1,
      rg_lives = (\<lambda>_. None), rg_events = [], rg_removed = [], rg_retiring = []\<rparr>"

definition send_event :: "catalog_event \<Rightarrow> registry \<Rightarrow> registry" where
  "send_event ev g = g\<lparr>rg_events := rg_events g @ [ev]\<rparr>"

section \<open>Generations\<close>

record schema_gens =
  sg_tables :: "(table_ref \<times> nat) list"
  sg_epoch :: nat

definition gen_of :: "registry \<Rightarrow> table_ref \<Rightarrow> nat" where
  "gen_of g t = (case rg_schema_gen g t of None \<Rightarrow> 0 | Some n \<Rightarrow> n)"

definition capture_gens :: "table_ref list \<Rightarrow> registry \<Rightarrow> schema_gens" where
  "capture_gens tables g = \<lparr>sg_tables = map (\<lambda>t. (t, gen_of g t)) tables, sg_epoch = rg_epoch_gen g\<rparr>"

definition drifted_since :: "schema_gens \<Rightarrow> registry \<Rightarrow> table_ref option" where
  "drifted_since gens g = map_option fst (find (\<lambda>(t, n). gen_of g t \<noteq> n) (sg_tables gens))"

definition epoch_reset_since :: "schema_gens \<Rightarrow> registry \<Rightarrow> bool" where
  "epoch_reset_since gens g \<longleftrightarrow> rg_epoch_gen g \<noteq> sg_epoch gens"

definition first_unresolved :: "table_ref list \<Rightarrow> registry \<Rightarrow> table_ref option" where
  "first_unresolved tables g = find (\<lambda>t. t \<in> rg_unresolved g) tables"

section \<open>Subscriptions\<close>

definition MINTED_SUB_PREFIX :: char where "MINTED_SUB_PREFIX = CHR ''~''"

definition minted_seq :: "string \<Rightarrow> nat option" where
  "minted_seq sub = (case rsplit_once (CHR ''-'') sub of None \<Rightarrow> None | Some (_, n) \<Rightarrow> parse_u64 n)"

definition mint_subscription :: "string \<Rightarrow> registry \<Rightarrow> registry \<times> string" where
  "mint_subscription nonce g =
     (g\<lparr>rg_next_minted_sub := rg_next_minted_sub g + 1\<rparr>, MINTED_SUB_PREFIX # nonce @ ''-'' @ show_nat (rg_next_minted_sub g))"

definition resolve_subscription :: "string \<Rightarrow> string option \<Rightarrow> registry \<Rightarrow> registry \<times> string" where
  "resolve_subscription nonce sub g = (case sub of Some s \<Rightarrow> (g, s) | None \<Rightarrow> mint_subscription nonce g)"

definition subscription_owner :: "string \<Rightarrow> registry \<Rightarrow> string option" where
  "subscription_owner sub g = rg_subs_by_id g sub"

definition subscribe :: "string \<Rightarrow> string \<Rightarrow> nat \<Rightarrow> registry \<Rightarrow> registry \<times> bool" where
  "subscribe sid sub t g =
     (case map_of (rg_feed_shares g) sid of
        None \<Rightarrow> (g, False)
      | Some share \<Rightarrow>
          (g\<lparr>rg_feed_shares := AList.update sid (share\<lparr>fs_subs := renew sub t (fs_subs share)\<rparr>) (rg_feed_shares g),
             rg_subs_by_id := (rg_subs_by_id g)(sub \<mapsto> sid)\<rparr>,
           map_of (fs_subs share) sub = None))"

definition unsubscribe :: "string \<Rightarrow> string \<Rightarrow> registry \<Rightarrow> registry \<times> bool" where
  "unsubscribe sid sub g =
     (case map_of (rg_feed_shares g) sid of
        None \<Rightarrow> (g, False)
      | Some share \<Rightarrow>
          if map_of (fs_subs share) sub = None then (g, False)
          else (g\<lparr>rg_feed_shares := AList.update sid (share\<lparr>fs_subs := AList.delete sub (fs_subs share)\<rparr>) (rg_feed_shares g),
                  rg_subs_by_id := (if rg_subs_by_id g sub = Some sid then (rg_subs_by_id g)(sub := None) else rg_subs_by_id g)\<rparr>,
                True))"

text \<open>The claim an anonymous release takes: minted ones first, the oldest lease first.\<close>

definition pick_claim :: "bool \<Rightarrow> (string \<times> nat) list \<Rightarrow> string option" where
  "pick_claim minted subs =
     (case filter (\<lambda>(sub, t). (take 1 sub = [MINTED_SUB_PREFIX]) = minted) subs of
        [] \<Rightarrow> None
      | cs \<Rightarrow> Some (fst (arg_min_list (\<lambda>(sub, t). (t, minted_seq sub, sub)) cs)))"

definition unsubscribe_anonymous :: "string \<Rightarrow> registry \<Rightarrow> registry \<times> string option" where
  "unsubscribe_anonymous sid g =
     (case map_of (rg_feed_shares g) sid of
        None \<Rightarrow> (g, None)
      | Some share \<Rightarrow>
          (case (case pick_claim True (fs_subs share) of Some v \<Rightarrow> Some v | None \<Rightarrow> pick_claim False (fs_subs share)) of
             None \<Rightarrow> (g, None)
           | Some victim \<Rightarrow> (case unsubscribe sid victim g of (g1, removed) \<Rightarrow> (g1, if removed then Some victim else None))))"

definition forget_subscriptions :: "string \<Rightarrow> registry \<Rightarrow> registry" where
  "forget_subscriptions sid g =
     (case map_of (rg_feed_shares g) sid of
        None \<Rightarrow> g
      | Some share \<Rightarrow>
          g\<lparr>rg_subs_by_id := fold (\<lambda>sub m. if m sub = Some sid then m(sub := None) else m) (map fst (fs_subs share)) (rg_subs_by_id g)\<rparr>)"

definition lapsed_subscriptions :: "nat \<Rightarrow> nat \<Rightarrow> registry \<Rightarrow> (string \<times> string) list" where
  "lapsed_subscriptions window now g =
     (if window = 0 then []
      else sort (concat (map (\<lambda>(sid, share). map (\<lambda>(sub, t). (sid, sub)) (filter (\<lambda>(sub, t). now - t > max window 1) (fs_subs share)))
                             (rg_feed_shares g))))"

section \<open>Signatures\<close>

definition canon_where :: "f64_ops \<Rightarrow> predicate_json option \<Rightarrow> string" where
  "canon_where F w = (case w of None \<Rightarrow> [] | Some p \<Rightarrow> canonical_pred F p)"

fun join_commas :: "string list \<Rightarrow> string" where
  "join_commas [] = []"
| "join_commas [x] = x"
| "join_commas (x # xs) = x @ '','' @ join_commas xs"

definition canon_cols :: "nat list option \<Rightarrow> string" where
  "canon_cols cols = (case cols of None \<Rightarrow> [] | Some v \<Rightarrow> join_commas (map show_nat (sort v)))"

abbreviation unit_sep :: string where "unit_sep \<equiv> [char_of (0x1F :: nat)]"

definition shape_signature :: "f64_ops \<Rightarrow> table_ref \<Rightarrow> predicate_json option \<Rightarrow> nat list option \<Rightarrow> bool \<Rightarrow> string" where
  "shape_signature F t w cols changes_only =
     ''shape'' @ unit_sep @ show_bool changes_only @ unit_sep @ table_as_str t @ unit_sep @ canon_where F w @ unit_sep @ canon_cols cols"

fun show_agg_fn :: "agg_fn \<Rightarrow> string" where
  "show_agg_fn FnCount = ''Count''"
| "show_agg_fn FnSum = ''Sum''"
| "show_agg_fn FnAvg = ''Avg''"
| "show_agg_fn FnMin = ''Min''"
| "show_agg_fn FnMax = ''Max''"

definition agg_signature :: "f64_ops \<Rightarrow> table_ref \<Rightarrow> predicate_json option \<Rightarrow> agg_fn \<Rightarrow> nat option \<Rightarrow> string" where
  "agg_signature F t w fn col =
     ''agg'' @ unit_sep @ table_as_str t @ unit_sep @ canon_where F w @ unit_sep @ show_agg_fn fn @ unit_sep
       @ (case col of None \<Rightarrow> ''None'' | Some i \<Rightarrow> ''Some('' @ show_nat i @ '')'')"

text \<open>The tables a predicate's subqueries read, each once, in the order they are met.\<close>

fun ref_tables :: "predicate_json \<Rightarrow> table_ref list \<Rightarrow> table_ref list" where
  "ref_tables (PIn _ (Subquery t _ w) _) acc =
     (let acc1 = (if t \<in> set acc then acc else acc @ [t]) in case w of None \<Rightarrow> acc1 | Some p \<Rightarrow> ref_tables p acc1)"
| "ref_tables (PAnd ps) acc = fold ref_tables ps acc"
| "ref_tables (POr ps) acc = fold ref_tables ps acc"
| "ref_tables (PNot p) acc = ref_tables p acc"
| "ref_tables (PLeaf _ _ _) acc = acc"
| "ref_tables (PIsNull _ _) acc = acc"

definition referenced_tables :: "predicate_json \<Rightarrow> table_ref list" where
  "referenced_tables p = ref_tables p []"

fun predicate_has_subquery :: "predicate_json \<Rightarrow> bool" where
  "predicate_has_subquery (PIn _ _ _) = True"
| "predicate_has_subquery (PAnd ps) = (\<exists>p \<in> set ps. predicate_has_subquery p)"
| "predicate_has_subquery (POr ps) = (\<exists>p \<in> set ps. predicate_has_subquery p)"
| "predicate_has_subquery (PNot p) = predicate_has_subquery p"
| "predicate_has_subquery (PLeaf _ _ _) = False"
| "predicate_has_subquery (PIsNull _ _) = False"

section \<open>Creating and joining\<close>

definition ensure_subscription_free :: "string \<Rightarrow> string \<Rightarrow> registry \<Rightarrow> unit result" where
  "ensure_subscription_free sub sid g =
     (case subscription_owner sub g of
        Some owner \<Rightarrow> if owner \<noteq> sid then Err (Other (''subscription conflict: '' @ sub)) else Ok ()
      | None \<Rightarrow> Ok ())"

text \<open>\<open>resolving\<close> are the tables a drift resolution holds the lock of.\<close>

definition ensure_schema_resolved :: "table_ref set \<Rightarrow> table_ref list \<Rightarrow> registry \<Rightarrow> unit result" where
  "ensure_schema_resolved resolving tables g =
     (if first_unresolved tables g \<noteq> None then Err (Other ''schema is unresolved after a change'')
      else if \<exists>t \<in> set tables. t \<in> resolving then Err (Other ''schema is being resolved after a change'')
      else Ok ())"

text \<open>The join of a live shape with the same signature; \<open>None\<close> when there is none. The flag of the answer
  says whether the claim is new.\<close>

definition try_join :: "table_ref set \<Rightarrow> table_ref list \<Rightarrow> string option \<Rightarrow> string \<Rightarrow> nat \<Rightarrow> registry \<Rightarrow>
    (registry \<times> (shape_record \<times> bool) result) option" where
  "try_join resolving deps feed_sig sub now g =
     (case Option.bind feed_sig (rg_feed_by_sig g) of
        None \<Rightarrow> None
      | Some sid \<Rightarrow>
          (case map_of (rg_shapes g) sid of
             None \<Rightarrow> None
           | Some rec \<Rightarrow>
               Some (case rbind (ensure_schema_resolved resolving deps g) (\<lambda>_. ensure_subscription_free sub sid g) of
                       Inl e \<Rightarrow> (g, Err e)
                     | Inr _ \<Rightarrow>
                         (case subscribe sid sub now g of
                            (g1, fresh) \<Rightarrow> (send_event (EvJoined sid sub now) g1, Ok (rec, fresh))))))"

definition shape_id :: "nat \<Rightarrow> string" where
  "shape_id n = ''s'' @ show_nat n"

definition shape_stream :: "string \<Rightarrow> string" where
  "shape_stream sid = ''shape/'' @ sid"

text \<open>The registration of a new shape: \<open>tmpl\<close> is its record but for the id, the stream and the size.
  \<open>refused\<close> stands for the checks after the id is taken (a missing table, a sequencer that is gone, a
  degraded engine); the two clock readings are the event's and the share's.\<close>

definition register_shape :: "bool \<Rightarrow> shape_record \<Rightarrow> string option \<Rightarrow> string \<Rightarrow> nat \<Rightarrow> nat \<Rightarrow> nat \<Rightarrow> registry \<Rightarrow> registry \<times> shape_record result" where
  "register_shape refused tmpl feed_sig sub t1 t2 now g =
     (let sid = shape_id (rg_next_shape_id g); g1 = g\<lparr>rg_next_shape_id := rg_next_shape_id g + 1\<rparr> in
      if refused then (g1, Err (Other ''create refused''))
      else
        (let rec = tmpl\<lparr>sr_id := sid, sr_stream_path := shape_stream sid, sr_backfill_rows := None, sr_backfill_bytes := None\<rparr>;
             g2 = send_event (EvCreated rec feed_sig sub t1) (g1\<lparr>rg_shapes := AList.update sid rec (rg_shapes g1)\<rparr>);
             g3 = g2\<lparr>rg_lives := (rg_lives g2)(sid \<mapsto> \<lparr>sl_last_read = now, sl_state = LifeActive\<rparr>)\<rparr>
         in (case feed_sig of
               None \<Rightarrow> g3
             | Some s \<Rightarrow>
                 fst (subscribe sid sub t2
                   (g3\<lparr>rg_feed_by_sig := (rg_feed_by_sig g3)(s \<mapsto> sid),
                       rg_feed_shares := AList.update sid \<lparr>fs_sig = s, fs_subs = [], fs_ready = SharePending\<rparr> (rg_feed_shares g3)\<rparr>)),
             Ok rec)))"

definition create_or_join :: "table_ref set \<Rightarrow> table_ref list \<Rightarrow> bool \<Rightarrow> shape_record \<Rightarrow> string option \<Rightarrow> string \<Rightarrow> nat \<Rightarrow> nat \<Rightarrow> nat \<Rightarrow> registry \<Rightarrow>
    registry \<times> (shape_record \<times> bool) result" where
  "create_or_join resolving deps refused tmpl feed_sig sub t1 t2 now g =
     (case try_join resolving deps feed_sig sub t1 g of
        Some r \<Rightarrow> r
      | None \<Rightarrow>
          (case ensure_subscription_free sub [] g of
             Inl e \<Rightarrow> (g, Err e)
           | Inr _ \<Rightarrow>
               (case register_shape refused tmpl feed_sig sub t1 t2 now g of
                  (g1, Inl e) \<Rightarrow> (g1, Err e)
                | (g1, Inr rec) \<Rightarrow> (g1, Ok (rec, True)))))"

text \<open>What the creator publishes to those who joined it.\<close>

definition publish_outcome :: "string \<Rightarrow> share_outcome \<Rightarrow> registry \<Rightarrow> registry" where
  "publish_outcome sid out g =
     (case map_of (rg_feed_shares g) sid of
        None \<Rightarrow> g
      | Some share \<Rightarrow> g\<lparr>rg_feed_shares := AList.update sid (share\<lparr>fs_ready := out\<rparr>) (rg_feed_shares g)\<rparr>)"

definition ensure_schema_unchanged :: "schema_gens \<Rightarrow> registry \<Rightarrow> unit result" where
  "ensure_schema_unchanged gens g =
     (if epoch_reset_since gens g then Err (Other ''the replication epoch was reset during creation'')
      else case drifted_since gens g of
             Some t \<Rightarrow> Err (Other (''schema changed during creation: '' @ table_as_str t))
           | None \<Rightarrow> Ok ())"

definition recheck_after_durability :: "bool \<Rightarrow> string \<Rightarrow> string \<Rightarrow> schema_gens \<Rightarrow> registry \<Rightarrow> unit result" where
  "recheck_after_durability degraded sid path gens g =
     (if degraded then Err (Other ''degraded'')
      else rbind (ensure_schema_unchanged gens g) (\<lambda>_.
             case map_of (rg_shapes g) sid of
               Some rec \<Rightarrow> if sr_stream_path rec = path then Ok () else Err (Other ''shape moved during its catalog durability wait'')
             | None \<Rightarrow> Err (Other ''shape was retired during its catalog durability wait'')))"

section \<open>Releasing and renewing\<close>

definition touch_shape :: "string \<Rightarrow> nat \<Rightarrow> registry \<Rightarrow> registry" where
  "touch_shape sid now g =
     (case rg_lives g sid of None \<Rightarrow> g | Some life \<Rightarrow> g\<lparr>rg_lives := (rg_lives g)(sid \<mapsto> life\<lparr>sl_last_read := now\<rparr>)\<rparr>)"

definition release_subscription :: "string \<Rightarrow> string option \<Rightarrow> nat \<Rightarrow> registry \<Rightarrow> registry" where
  "release_subscription sid sub now g =
     (case (case sub of
              Some s \<Rightarrow> (case unsubscribe sid s g of (g1, removed) \<Rightarrow> (g1, if removed then Some s else None))
            | None \<Rightarrow> unsubscribe_anonymous sid g) of
        (g1, released) \<Rightarrow>
          touch_shape sid now (case released of None \<Rightarrow> g1 | Some s \<Rightarrow> send_event (EvLeft sid s False) g1))"

definition renew_subscription_local :: "string \<Rightarrow> string \<Rightarrow> nat \<Rightarrow> registry \<Rightarrow> registry" where
  "renew_subscription_local sid sub t g = fst (subscribe sid sub t g)"

text \<open>The lease half of a sweep, in the two parts the lock makes of it: the lapsed claims are released
  under the lock and recorded after it.\<close>

definition release_lapsed :: "nat \<Rightarrow> nat \<Rightarrow> registry \<Rightarrow> registry \<times> (string \<times> string) list" where
  "release_lapsed window now g =
     (let expired = lapsed_subscriptions window now g in (fold (\<lambda>(sid, sub) h. fst (unsubscribe sid sub h)) expired g, expired))"

definition record_lapsed :: "(string \<times> string) list \<Rightarrow> registry \<Rightarrow> registry" where
  "record_lapsed lapsed g = fold (\<lambda>(sid, sub). send_event (EvLeft sid sub True)) lapsed g"

definition sweep_leases :: "nat \<Rightarrow> nat \<Rightarrow> registry \<Rightarrow> registry" where
  "sweep_leases window now g = (case release_lapsed window now g of (g1, lapsed) \<Rightarrow> record_lapsed lapsed g1)"

section \<open>Removing shapes\<close>

definition retire_shape_stream :: "unit result \<Rightarrow> string \<Rightarrow> string \<Rightarrow> registry \<Rightarrow> registry" where
  "retire_shape_stream reply sid path g =
     (case reply of
        Inr _ \<Rightarrow> send_event (EvRetired sid) g
      | Inl _ \<Rightarrow> g\<lparr>rg_retiring := rg_retiring g @ [(path, Some sid)]\<rparr>)"

text \<open>The share entry of a shape goes with its signature.\<close>

definition remove_share :: "string \<Rightarrow> registry \<Rightarrow> registry" where
  "remove_share sid g =
     (case map_of (rg_feed_shares g) sid of
        None \<Rightarrow> g
      | Some share \<Rightarrow> g\<lparr>rg_feed_shares := AList.delete sid (rg_feed_shares g), rg_feed_by_sig := (rg_feed_by_sig g)(fs_sig share := None)\<rparr>)"

text \<open>Everything the registry holds of a shape goes, and \<open>Dropped\<close> is sent if it was registered.\<close>

definition unregister :: "string \<Rightarrow> registry \<Rightarrow> registry" where
  "unregister sid g =
     (let g1 = remove_share sid (forget_subscriptions sid (g\<lparr>rg_lives := (rg_lives g)(sid := None)\<rparr>));
          g2 = g1\<lparr>rg_shapes := AList.delete sid (rg_shapes g1)\<rparr>
      in if map_of (rg_shapes g) sid = None then g2 else send_event (EvDropped sid) g2)"

definition send_remove :: "shape_record \<Rightarrow> registry \<Rightarrow> registry" where
  "send_remove rec g = g\<lparr>rg_removed := rg_removed g @ [(sr_table rec, sr_id rec)]\<rparr>"

definition purge_shape :: "unit result \<Rightarrow> string \<Rightarrow> registry \<Rightarrow> registry" where
  "purge_shape reply sid g =
     (case map_of (rg_shapes g) sid of
        None \<Rightarrow> unregister sid g
      | Some rec \<Rightarrow> retire_shape_stream reply sid (sr_stream_path rec) (send_remove rec (unregister sid g)))"

definition parkable :: "shape_record \<Rightarrow> bool" where
  "parkable rec \<longleftrightarrow> \<not> sr_is_subquery rec \<and> sr_aggregate rec = None \<and> \<not> sr_changes_only rec"

definition subscribers :: "string \<Rightarrow> registry \<Rightarrow> nat" where
  "subscribers sid g = (case map_of (rg_feed_shares g) sid of None \<Rightarrow> 0 | Some share \<Rightarrow> refcount share)"

datatype evicted = EvictedYes | EvictedSkipped

definition evict_shape :: "retention_config \<Rightarrow> nat \<Rightarrow> evict_reason \<Rightarrow> unit result \<Rightarrow> string \<Rightarrow> registry \<Rightarrow> registry \<times> evicted" where
  "evict_shape cfg now reason reply sid g =
     (case map_of (rg_shapes g) sid of
        None \<Rightarrow> (g, EvictedYes)
      | Some rec \<Rightarrow>
          (let dormant = (case rg_lives g sid of Some life \<Rightarrow> (case sl_state life of LifeDormant _ _ _ \<Rightarrow> True | _ \<Rightarrow> False) | None \<Rightarrow> False);
               idle = (case rg_lives g sid of
                         Some life \<Rightarrow> \<not> parkable rec \<and> sl_state life = LifeActive
                           \<and> now - sl_last_read life \<ge> rc_idle_timeout cfg + rc_dormant_ttl cfg
                       | None \<Rightarrow> False);
               replay = dormant \<and> (reason = ReplayBudget \<or> reason = ChangeLogRetention)
           in if \<not> (dormant \<or> idle) \<or> (\<not> replay \<and> subscribers sid g > 0) then (g, EvictedSkipped)
              else (let g1 = unregister sid g; g2 = (if parkable rec then g1 else send_remove rec g1)
                    in (retire_shape_stream reply sid (sr_stream_path rec) g2, EvictedYes))))"

datatype registration = RegSequencer | RegRegistry

text \<open>Undoing a create. The signature goes only when it still points to this shape.\<close>

definition rollback_create :: "registration \<Rightarrow> unit result \<Rightarrow> string \<Rightarrow> table_ref \<Rightarrow> string \<Rightarrow> registry \<Rightarrow> registry" where
  "rollback_create registration reply sid table path g =
     (let existed = (map_of (rg_shapes g) sid \<noteq> None);
          g1 = forget_subscriptions sid (g\<lparr>rg_shapes := AList.delete sid (rg_shapes g)\<rparr>);
          g2 = (case map_of (rg_feed_shares g1) sid of
                  None \<Rightarrow> g1
                | Some share \<Rightarrow>
                    g1\<lparr>rg_feed_shares := AList.delete sid (rg_feed_shares g1),
                       rg_feed_by_sig := (if rg_feed_by_sig g1 (fs_sig share) = Some sid then (rg_feed_by_sig g1)(fs_sig share := None)
                                          else rg_feed_by_sig g1)\<rparr>);
          g3 = (if registration = RegSequencer then g2\<lparr>rg_removed := rg_removed g2 @ [(table, sid)]\<rparr> else g2);
          g4 = g3\<lparr>rg_lives := (rg_lives g3)(sid := None)\<rparr>;
          g5 = (if existed then send_event (EvDropped sid) g4 else g4)
      in (case reply of
            Inr _ \<Rightarrow> if existed then send_event (EvRetired sid) g5 else g5
          | Inl _ \<Rightarrow> g5\<lparr>rg_retiring := rg_retiring g5 @ [(path, if existed then Some sid else None)]\<rparr>))"

section \<open>Parking and waking\<close>

definition set_state :: "string \<Rightarrow> life_state \<Rightarrow> registry \<Rightarrow> registry" where
  "set_state sid st g =
     (case rg_lives g sid of None \<Rightarrow> g | Some life \<Rightarrow> g\<lparr>rg_lives := (rg_lives g)(sid \<mapsto> life\<lparr>sl_state := st\<rparr>)\<rparr>)"

text \<open>The two halves of a parking: the checks, and what the sequencer's answer makes of it.\<close>

definition deactivate_begin :: "retention_config \<Rightarrow> nat \<Rightarrow> string \<Rightarrow> registry \<Rightarrow> registry \<times> bool" where
  "deactivate_begin cfg now sid g =
     (case (map_of (rg_shapes g) sid, rg_lives g sid) of
        (Some rec, Some life) \<Rightarrow>
          if parkable rec \<and> subscribers sid g = 0 \<and> sl_state life = LifeActive \<and> now - sl_last_read life \<ge> rc_idle_timeout cfg
          then (set_state sid LifeDeactivating g, True) else (g, False)
      | _ \<Rightarrow> (g, False))"

definition deactivate_settle :: "nat \<Rightarrow> (log_position \<times> snapshot_gate) option \<Rightarrow> string \<Rightarrow> registry \<Rightarrow> registry" where
  "deactivate_settle now resp sid g =
     (case rg_lives g sid of
        None \<Rightarrow> g
      | Some life \<Rightarrow>
          (case resp of
             Some (resume, gate) \<Rightarrow> send_event (EvDormant sid resume gate) (set_state sid (LifeDormant now resume gate) g)
           | None \<Rightarrow> touch_shape sid now (set_state sid LifeActive g)))"

text \<open>The first step of \<open>ensure_active\<close>: the read is noted, and a dormant shape starts to wake.\<close>

datatype wake = WakeDone | WakeWait | WakeStarted log_position snapshot_gate

definition ensure_active_step :: "nat \<Rightarrow> string \<Rightarrow> registry \<Rightarrow> registry \<times> wake" where
  "ensure_active_step now sid g =
     (case rg_lives g sid of
        None \<Rightarrow> (g, WakeDone)
      | Some life \<Rightarrow>
          (let g1 = touch_shape sid now g in
           case sl_state life of
             LifeActive \<Rightarrow> (g1, WakeDone)
           | LifeDeactivating \<Rightarrow> (g1, WakeWait)
           | LifeReactivating _ \<Rightarrow> (g1, WakeWait)
           | LifeDormant _ resume gate \<Rightarrow> (set_state sid (LifeReactivating resume) g1, WakeStarted resume gate)))"

text \<open>How the replay of a waking shape ends: it is live; it could not be brought up to date and is evicted,
  with the reason; or it failed and sleeps on.\<close>

datatype wake_outcome = WokenUp | WakeEvict evict_reason | WakeFailed

definition reactivate_settle :: "retention_config \<Rightarrow> nat \<Rightarrow> wake_outcome \<Rightarrow> unit result \<Rightarrow> string \<Rightarrow> log_position \<Rightarrow> snapshot_gate \<Rightarrow> registry \<Rightarrow> registry" where
  "reactivate_settle cfg now out reply sid resume gate g =
     (case out of
        WokenUp \<Rightarrow> touch_shape sid now (set_state sid LifeActive (send_event (EvReactivated sid) g))
      | WakeEvict reason \<Rightarrow> fst (evict_shape cfg now reason reply sid (set_state sid (LifeDormant now resume gate) g))
      | WakeFailed \<Rightarrow> set_state sid (LifeDormant now resume gate) g)"

section \<open>Schema drift and epochs\<close>

definition depends_on :: "table_ref \<Rightarrow> shape_record \<Rightarrow> bool" where
  "depends_on t rec \<longleftrightarrow> sr_table rec = t \<or> (case sr_where_json rec of None \<Rightarrow> False | Some w \<Rightarrow> t \<in> set (referenced_tables w))"

text \<open>The bump and the enumeration are one critical section.\<close>

definition bump_and_enumerate :: "table_ref \<Rightarrow> registry \<Rightarrow> registry \<times> string list" where
  "bump_and_enumerate t g =
     (g\<lparr>rg_schema_gen := (rg_schema_gen g)(t \<mapsto> gen_of g t + 1)\<rparr>, map (sr_id \<circ> snd) (filter (depends_on t \<circ> snd) (rg_shapes g)))"

definition retire_dependents :: "(string \<Rightarrow> unit result) \<Rightarrow> table_ref \<Rightarrow> registry \<Rightarrow> registry" where
  "retire_dependents reply t g = (case bump_and_enumerate t g of (g1, ids) \<Rightarrow> fold (\<lambda>sid. purge_shape (reply sid) sid) ids g1)"

definition swap_table_schema :: "table_ref \<Rightarrow> tschema option \<Rightarrow> registry \<Rightarrow> registry" where
  "swap_table_schema t ts g = g\<lparr>rg_unresolved := rg_unresolved g - {t}, rg_tables := (rg_tables g)(t := ts)\<rparr>"

definition mark_unresolved :: "(string \<Rightarrow> unit result) \<Rightarrow> table_ref \<Rightarrow> registry \<Rightarrow> registry" where
  "mark_unresolved reply t g = (let g1 = retire_dependents reply t g in g1\<lparr>rg_unresolved := insert t (rg_unresolved g1)\<rparr>)"

definition handle_dropped_table :: "(string \<Rightarrow> unit result) \<Rightarrow> table_ref \<Rightarrow> registry \<Rightarrow> registry" where
  "handle_dropped_table reply t g = swap_table_schema t None (retire_dependents reply t g)"

text \<open>An epoch reset retires every shape; the new slot is made, and bound, only behind the barrier of the
  catalog's drain. \<open>slot\<close> is the answer of the slot's recreation with the binding read then.\<close>

definition reset_epoch :: "(string \<Rightarrow> unit result) \<Rightarrow> bool \<Rightarrow> slot_binding result \<Rightarrow> registry \<Rightarrow> registry \<times> unit result" where
  "reset_epoch reply drained_in_time slot g =
     (let g1 = fold (\<lambda>sid. purge_shape (reply sid) sid) (map fst (rg_shapes g)) (g\<lparr>rg_epoch_gen := rg_epoch_gen g + 1\<rparr>) in
      if \<not> drained_in_time then (g1, Err (Other ''the catalog writer did not drain the shape drops''))
      else case slot of
             Inl e \<Rightarrow> (g1, Err e)
           | Inr b \<Rightarrow> (send_event (EvSlotBound b) g1, Ok ()))"

section \<open>The invariant\<close>

declare map_of_eq_Some_iff [simp del] Some_eq_map_of_iff [simp del]

definition ids_ok :: "registry \<Rightarrow> bool" where
  "ids_ok g \<longleftrightarrow> distinct (map fst (rg_shapes g)) \<and>
     (\<forall>sid rec. map_of (rg_shapes g) sid = Some rec \<longrightarrow>
        sr_id rec = sid \<and> sr_stream_path rec = shape_stream sid \<and> (\<exists>n < rg_next_shape_id g. sid = shape_id n))"

definition sigs_ok :: "registry \<Rightarrow> bool" where
  "sigs_ok g \<longleftrightarrow> distinct (map fst (rg_feed_shares g)) \<and> (\<forall>sid. map_of (rg_feed_shares g) sid \<noteq> None \<longrightarrow> map_of (rg_shapes g) sid \<noteq> None) \<and>
     (\<forall>s sid. rg_feed_by_sig g s = Some sid \<longleftrightarrow> (\<exists>sh. map_of (rg_feed_shares g) sid = Some sh \<and> fs_sig sh = s))"

definition subs_ok :: "registry \<Rightarrow> bool" where
  "subs_ok g \<longleftrightarrow> (\<forall>sid sh. map_of (rg_feed_shares g) sid = Some sh \<longrightarrow> distinct (map fst (fs_subs sh))) \<and>
     (\<forall>sub sid. rg_subs_by_id g sub = Some sid \<longleftrightarrow> (\<exists>sh. map_of (rg_feed_shares g) sid = Some sh \<and> map_of (fs_subs sh) sub \<noteq> None))"

definition lives_ok :: "registry \<Rightarrow> bool" where
  "lives_ok g \<longleftrightarrow> (\<forall>sid. rg_lives g sid \<noteq> None \<longrightarrow> map_of (rg_shapes g) sid \<noteq> None)"

definition registry_inv :: "registry \<Rightarrow> bool" where
  "registry_inv g \<longleftrightarrow> ids_ok g \<and> sigs_ok g \<and> subs_ok g \<and> lives_ok g"

lemmas inv_defs = registry_inv_def ids_ok_def sigs_ok_def subs_ok_def lives_ok_def

lemma registry_inv_start: "registry_inv registry_start"
  by (simp add: inv_defs registry_start_def)

text \<open>What the invariant does not speak of.\<close>

lemma inv_neutral [simp]:
  "registry_inv (g\<lparr>rg_events := x1\<rparr>) = registry_inv g" "registry_inv (g\<lparr>rg_removed := x2\<rparr>) = registry_inv g"
  "registry_inv (g\<lparr>rg_retiring := x3\<rparr>) = registry_inv g" "registry_inv (g\<lparr>rg_next_minted_sub := x4\<rparr>) = registry_inv g"
  "registry_inv (g\<lparr>rg_schema_gen := x5\<rparr>) = registry_inv g" "registry_inv (g\<lparr>rg_unresolved := x6\<rparr>) = registry_inv g"
  "registry_inv (g\<lparr>rg_epoch_gen := x7\<rparr>) = registry_inv g" "registry_inv (g\<lparr>rg_tables := x8\<rparr>) = registry_inv g"
  "registry_inv (send_event ev g) = registry_inv g" "registry_inv (send_remove rec g) = registry_inv g"
  by (simp_all add: inv_defs send_event_def send_remove_def)

lemma inv_next: "registry_inv g \<Longrightarrow> rg_next_shape_id g \<le> n \<Longrightarrow> registry_inv (g\<lparr>rg_next_shape_id := n\<rparr>)"
  by (simp add: inv_defs) (meson less_le_trans)

lemma claim_owner: "subs_ok g \<Longrightarrow> map_of (rg_feed_shares g) sid = Some sh \<Longrightarrow> map_of (fs_subs sh) sub = Some t \<Longrightarrow> rg_subs_by_id g sub = Some sid"
  by (auto simp: subs_ok_def)

lemma owner_claim: "subs_ok g \<Longrightarrow> rg_subs_by_id g sub = Some sid \<Longrightarrow> \<exists>sh t. map_of (rg_feed_shares g) sid = Some sh \<and> map_of (fs_subs sh) sub = Some t"
  by (auto simp: subs_ok_def)

lemma sig_owner: "sigs_ok g \<Longrightarrow> map_of (rg_feed_shares g) sid = Some sh \<Longrightarrow> rg_feed_by_sig g (fs_sig sh) = Some sid"
  by (auto simp: sigs_ok_def)

lemma owner_sig: "sigs_ok g \<Longrightarrow> rg_feed_by_sig g s = Some sid \<Longrightarrow> \<exists>sh. map_of (rg_feed_shares g) sid = Some sh \<and> fs_sig sh = s"
  by (auto simp: sigs_ok_def)

lemma subs_distinct: "subs_ok g \<Longrightarrow> map_of (rg_feed_shares g) sid = Some sh \<Longrightarrow> distinct (map fst (fs_subs sh))"
  by (auto simp: subs_ok_def)

text \<open>To show the two halves of a new state's invariant.\<close>

lemma subs_okI:
  assumes "\<And>sid sh. map_of (rg_feed_shares g) sid = Some sh \<Longrightarrow> distinct (map fst (fs_subs sh))"
    and "\<And>sid sh sub t. map_of (rg_feed_shares g) sid = Some sh \<Longrightarrow> map_of (fs_subs sh) sub = Some t \<Longrightarrow> rg_subs_by_id g sub = Some sid"
    and "\<And>sid sub. rg_subs_by_id g sub = Some sid \<Longrightarrow> \<exists>sh t. map_of (rg_feed_shares g) sid = Some sh \<and> map_of (fs_subs sh) sub = Some t"
  shows "subs_ok g"
  unfolding subs_ok_def using assms by blast

lemma sigs_okI:
  assumes "distinct (map fst (rg_feed_shares g))" and "\<And>sid sh. map_of (rg_feed_shares g) sid = Some sh \<Longrightarrow> map_of (rg_shapes g) sid \<noteq> None"
    and "\<And>sid sh. map_of (rg_feed_shares g) sid = Some sh \<Longrightarrow> rg_feed_by_sig g (fs_sig sh) = Some sid"
    and "\<And>s sid. rg_feed_by_sig g s = Some sid \<Longrightarrow> \<exists>sh. map_of (rg_feed_shares g) sid = Some sh \<and> fs_sig sh = s"
  shows "sigs_ok g"
  unfolding sigs_ok_def using assms by blast

lemma inv_lives: "registry_inv g \<Longrightarrow> rg_lives g sid \<noteq> None \<Longrightarrow> registry_inv (g\<lparr>rg_lives := (rg_lives g)(sid \<mapsto> life)\<rparr>)"
  by (auto simp: inv_defs)

lemma inv_touch [simp]: "registry_inv g \<Longrightarrow> registry_inv (touch_shape sid now g)"
  by (simp add: touch_shape_def inv_lives split: option.split)

lemma inv_set_state [simp]: "registry_inv g \<Longrightarrow> registry_inv (set_state sid st g)"
  by (simp add: set_state_def inv_lives split: option.split)

lemma inv_retire_stream [simp]: "registry_inv (retire_shape_stream reply sid path g) = registry_inv g"
  by (simp add: retire_shape_stream_def split: sum.split)

lemma distinct_renew [simp]: "distinct (map fst (renew sub t subs)) = distinct (map fst subs)"
  by (auto simp: renew_def update_keys distinct_update intro: distinct_update)

lemma map_of_renew: "map_of (renew sub t subs) = (map_of subs)(sub \<mapsto> case map_of subs sub of None \<Rightarrow> t | Some lease \<Rightarrow> max lease t)"
  by (simp add: renew_def update_conv')

lemma inv_set_subs:
  assumes "registry_inv g" and Some: "map_of (rg_feed_shares g) sid = Some share" and S: "distinct (map fst S)"
    and ids: "\<And>sub a. ids sub = Some a \<longleftrightarrow> (if a = sid then map_of S sub \<noteq> None else rg_subs_by_id g sub = Some a)"
  shows "registry_inv (g\<lparr>rg_feed_shares := AList.update sid (share\<lparr>fs_subs := S\<rparr>) (rg_feed_shares g), rg_subs_by_id := ids\<rparr>)"
    (is "registry_inv ?g")
proof -
  have g: "subs_ok g" "sigs_ok g" using assms(1) by (simp_all add: registry_inv_def)
  have shares: "map_of (rg_feed_shares ?g) = (map_of (rg_feed_shares g))(sid \<mapsto> share\<lparr>fs_subs := S\<rparr>)" by (simp add: update_conv')
  have "subs_ok ?g"
  proof (rule subs_okI)
    fix a sh assume "map_of (rg_feed_shares ?g) a = Some sh"
    then show "distinct (map fst (fs_subs sh))" unfolding shares using S subs_distinct [OF g(1)] by (auto split: if_splits)
  next
    fix a sh b x assume "map_of (rg_feed_shares ?g) a = Some sh" "map_of (fs_subs sh) b = Some x"
    then show "rg_subs_by_id ?g b = Some a" unfolding shares using claim_owner [OF g(1)] by (auto simp: ids split: if_splits)
  next
    fix a b assume "rg_subs_by_id ?g b = Some a"
    then show "\<exists>sh t. map_of (rg_feed_shares ?g) a = Some sh \<and> map_of (fs_subs sh) b = Some t"
      unfolding shares using owner_claim [OF g(1), of b a] by (auto simp: ids split: if_splits)
  qed
  moreover have "sigs_ok ?g"
  proof (rule sigs_okI)
    show "distinct (map fst (rg_feed_shares ?g))" using g(2) by (simp add: sigs_ok_def distinct_update)
  next
    fix a sh assume "map_of (rg_feed_shares ?g) a = Some sh"
    then show "map_of (rg_shapes ?g) a \<noteq> None" unfolding shares using Some g(2) by (auto simp: sigs_ok_def split: if_splits)
  next
    fix a sh assume "map_of (rg_feed_shares ?g) a = Some sh"
    then show "rg_feed_by_sig ?g (fs_sig sh) = Some a" unfolding shares using Some sig_owner [OF g(2)] by (auto split: if_splits)
  next
    fix s a assume "rg_feed_by_sig ?g s = Some a"
    then show "\<exists>sh. map_of (rg_feed_shares ?g) a = Some sh \<and> fs_sig sh = s" unfolding shares using Some owner_sig [OF g(2)] by fastforce
  qed
  ultimately show ?thesis using assms(1) by (simp add: registry_inv_def ids_ok_def lives_ok_def)
qed

lemma inv_subscribe:
  assumes "registry_inv g" and "rg_subs_by_id g sub = None \<or> rg_subs_by_id g sub = Some sid"
  shows "registry_inv (fst (subscribe sid sub t g))"
proof (cases "map_of (rg_feed_shares g) sid")
  case (Some share)
  have so: "subs_ok g" using assms(1) by (simp add: registry_inv_def)
  have "registry_inv (g\<lparr>rg_feed_shares := AList.update sid (share\<lparr>fs_subs := renew sub t (fs_subs share)\<rparr>) (rg_feed_shares g),
      rg_subs_by_id := (rg_subs_by_id g)(sub \<mapsto> sid)\<rparr>)"
  proof (rule inv_set_subs [OF assms(1) Some])
    fix b a
    show "((rg_subs_by_id g)(sub \<mapsto> sid)) b = Some a \<longleftrightarrow> (if a = sid then map_of (renew sub t (fs_subs share)) b \<noteq> None else rg_subs_by_id g b = Some a)"
      using Some assms(2) claim_owner [OF so Some, of b] owner_claim [OF so, of b sid] by (auto simp: map_of_renew)
  qed (simp add: subs_distinct [OF so Some])
  then show ?thesis using Some by (simp add: subscribe_def)
qed (use assms in \<open>simp add: subscribe_def\<close>)

lemma inv_unsubscribe:
  assumes "registry_inv g"
  shows "registry_inv (fst (unsubscribe sid sub g))"
proof (cases "\<exists>share t. map_of (rg_feed_shares g) sid = Some share \<and> map_of (fs_subs share) sub = Some t")
  case True
  then obtain share t where share: "map_of (rg_feed_shares g) sid = Some share" "map_of (fs_subs share) sub = Some t" by blast
  have so: "subs_ok g" using assms(1) by (simp add: registry_inv_def)
  note owner = claim_owner [OF so share]
  have "registry_inv (g\<lparr>rg_feed_shares := AList.update sid (share\<lparr>fs_subs := AList.delete sub (fs_subs share)\<rparr>) (rg_feed_shares g),
      rg_subs_by_id := (rg_subs_by_id g)(sub := None)\<rparr>)"
  proof (rule inv_set_subs [OF assms share(1) distinct_delete [OF subs_distinct [OF so share(1)]]])
    fix b a
    show "((rg_subs_by_id g)(sub := None)) b = Some a \<longleftrightarrow> (if a = sid then map_of (AList.delete sub (fs_subs share)) b \<noteq> None else rg_subs_by_id g b = Some a)"
      using share owner claim_owner [OF so share(1), of b] owner_claim [OF so, of b sid] by auto
  qed
  then show ?thesis using share owner by (simp add: unsubscribe_def)
next
  case False
  then show ?thesis using assms by (auto simp: unsubscribe_def split: option.split)
qed

text \<open>What a removal leaves.\<close>

lemma forget_ids:
  "fold (\<lambda>sub m. if m sub = Some sid then m(sub := None) else m) ids m = (\<lambda>sub. if sub \<in> set ids \<and> m sub = Some sid then None else m sub)"
  by (induction ids arbitrary: m) (auto simp: fun_eq_iff)

lemma unregister_fields:
  assumes "registry_inv g"
  shows "map_of (rg_shapes (unregister sid g)) = (map_of (rg_shapes g))(sid := None)"
    and "map_of (rg_feed_shares (unregister sid g)) = (map_of (rg_feed_shares g))(sid := None)"
    and "rg_feed_by_sig (unregister sid g) = (\<lambda>s. if rg_feed_by_sig g s = Some sid then None else rg_feed_by_sig g s)"
    and "rg_subs_by_id (unregister sid g) = (\<lambda>sub. if rg_subs_by_id g sub = Some sid then None else rg_subs_by_id g sub)"
    and "rg_lives (unregister sid g) = (rg_lives g)(sid := None)"
    and "rg_events (unregister sid g) = rg_events g @ (if map_of (rg_shapes g) sid = None then [] else [EvDropped sid])"
    and "rg_next_shape_id (unregister sid g) = rg_next_shape_id g"
proof -
  have so: "subs_ok g" "sigs_ok g" using assms by (simp_all add: registry_inv_def)
  show "rg_feed_by_sig (unregister sid g) = (\<lambda>s. if rg_feed_by_sig g s = Some sid then None else rg_feed_by_sig g s)"
    using owner_sig [OF so(2)] sig_owner [OF so(2), of sid]
    by (fastforce simp: unregister_def remove_share_def forget_subscriptions_def send_event_def Let_def split: option.split)
  show "rg_subs_by_id (unregister sid g) = (\<lambda>sub. if rg_subs_by_id g sub = Some sid then None else rg_subs_by_id g sub)"
    using owner_claim [OF so(1), of _ sid]
    by (fastforce simp: unregister_def remove_share_def forget_subscriptions_def forget_ids send_event_def Let_def image_iff
        dest: map_of_SomeD split: option.split)
qed (auto simp: unregister_def remove_share_def forget_subscriptions_def send_event_def Let_def split: option.split)

lemma inv_unregister:
  assumes "registry_inv g"
  shows "registry_inv (unregister sid g)"
proof -
  note f = unregister_fields [OF assms, of sid]
  have g: "subs_ok g" "sigs_ok g" "ids_ok g" using assms by (simp_all add: registry_inv_def)
  have keys: "distinct (map fst (rg_shapes (unregister sid g)))" "distinct (map fst (rg_feed_shares (unregister sid g)))" using assms
    by (auto simp: inv_defs unregister_def remove_share_def forget_subscriptions_def send_event_def Let_def distinct_delete split: option.split)
  have "ids_ok (unregister sid g)" using g(3) keys(1) by (auto simp: ids_ok_def f split: if_splits)
  moreover have "sigs_ok (unregister sid g)"
  proof (rule sigs_okI)
    fix a sh assume "map_of (rg_feed_shares (unregister sid g)) a = Some sh"
    then have sh: "a \<noteq> sid" "map_of (rg_feed_shares g) a = Some sh" by (auto simp: f split: if_splits)
    then show "map_of (rg_shapes (unregister sid g)) a \<noteq> None" using g(2) by (auto simp: f sigs_ok_def)
    show "rg_feed_by_sig (unregister sid g) (fs_sig sh) = Some a" using sh sig_owner [OF g(2) sh(2)] by (simp add: f)
  next
    fix s a assume "rg_feed_by_sig (unregister sid g) s = Some a"
    then show "\<exists>sh. map_of (rg_feed_shares (unregister sid g)) a = Some sh \<and> fs_sig sh = s"
      using owner_sig [OF g(2), of s a] by (auto simp: f split: if_splits)
  qed (rule keys(2))
  moreover have "subs_ok (unregister sid g)"
    using subs_distinct [OF g(1)] claim_owner [OF g(1)] owner_claim [OF g(1)] by (intro subs_okI) (fastforce simp: f split: if_splits)+
  moreover have "lives_ok (unregister sid g)" using assms by (simp add: inv_defs f)
  ultimately show ?thesis by (simp add: registry_inv_def)
qed

text \<open>Undoing a create is a removal.\<close>

lemma rollback_unregister:
  assumes "registry_inv g"
  shows "rollback_create registration reply sid table path g =
     (let g1 = (unregister sid g)\<lparr>rg_removed := (if registration = RegSequencer then rg_removed g @ [(table, sid)] else rg_removed g),
            rg_retiring := (if is_ok reply then rg_retiring g else rg_retiring g @ [(path, map_option (\<lambda>_. sid) (map_of (rg_shapes g) sid))])\<rparr>
      in if is_ok reply \<and> map_of (rg_shapes g) sid \<noteq> None then send_event (EvRetired sid) g1 else g1)"
proof -
  have "rg_feed_by_sig g (fs_sig share) = Some sid" if "map_of (rg_feed_shares g) sid = Some share" for share
    using assms that by (auto simp: inv_defs)
  then show ?thesis
    by (intro registry.equality; cases reply; cases "map_of (rg_feed_shares g) sid"; cases "map_of (rg_shapes g) sid"; cases registration;
        simp add: rollback_create_def unregister_def remove_share_def forget_subscriptions_def send_event_def Let_def)
qed

lemma inv_rollback: "registry_inv g \<Longrightarrow> registry_inv (rollback_create registration reply sid table path g)"
  using rollback_unregister [of g registration reply sid table path] inv_unregister [of g sid] by (auto simp: Let_def)

lemma inv_purge: "registry_inv g \<Longrightarrow> registry_inv (purge_shape reply sid g)"
  by (simp add: purge_shape_def inv_unregister split: option.split)

lemma inv_purges: "registry_inv g \<Longrightarrow> registry_inv (fold (\<lambda>sid. purge_shape (reply sid) sid) ids g)"
  by (induction ids arbitrary: g) (simp_all add: inv_purge)

lemma inv_evict: "registry_inv g \<Longrightarrow> registry_inv (fst (evict_shape cfg now reason reply sid g))"
  by (simp add: evict_shape_def Let_def inv_unregister split: option.split)

lemma inv_release_lapsed: "registry_inv g \<Longrightarrow> registry_inv (fold (\<lambda>(sid, sub) h. fst (unsubscribe sid sub h)) lapsed g)"
  by (induction lapsed arbitrary: g) (auto simp: inv_unsubscribe)

lemma rg_record_lapsed: "record_lapsed lapsed g = g\<lparr>rg_events := rg_events g @ map (\<lambda>(sid, sub). EvLeft sid sub True) lapsed\<rparr>"
  unfolding record_lapsed_def by (induction lapsed arbitrary: g) (auto simp: send_event_def)

lemma inv_sweep: "registry_inv g \<Longrightarrow> registry_inv (sweep_leases window now g)"
  by (simp add: sweep_leases_def release_lapsed_def Let_def rg_record_lapsed inv_release_lapsed)

lemma inv_release: "registry_inv g \<Longrightarrow> registry_inv (release_subscription sid sub now g)"
proof -
  assume g: "registry_inv g"
  have "fst (unsubscribe_anonymous sid g) = g \<or> (\<exists>v. fst (unsubscribe_anonymous sid g) = fst (unsubscribe sid v g))"
    unfolding unsubscribe_anonymous_def by (cases "map_of (rg_feed_shares g) sid") (auto simp: split_beta split: option.split)
  then have "registry_inv (fst (unsubscribe_anonymous sid g))" using g inv_unsubscribe by metis
  then show ?thesis using inv_unsubscribe [OF g, of sid]
    unfolding release_subscription_def by (cases sub) (auto simp: split_beta split: option.split)
qed

lemma shape_id_inj [simp]: "shape_id m = shape_id n \<longleftrightarrow> m = n"
  using show_nat_inj by (auto simp: shape_id_def)

lemma shape_id_fresh: "ids_ok g \<Longrightarrow> map_of (rg_shapes g) (shape_id (rg_next_shape_id g)) = None"
  unfolding ids_ok_def by (metis less_irrefl not_Some_eq shape_id_inj)

text \<open>A new shape under a fresh signature.\<close>

lemma inv_add_shape:
  assumes g: "registry_inv g" and sid: "sid = shape_id n" "n < rg_next_shape_id g" "map_of (rg_shapes g) sid = None"
    and rec: "sr_id rec = sid" "sr_stream_path rec = shape_stream sid"
  shows "registry_inv ((send_event ev (g\<lparr>rg_shapes := AList.update sid rec (rg_shapes g)\<rparr>))\<lparr>rg_lives := (rg_lives g)(sid \<mapsto> life)\<rparr>)"
  using assms by (auto simp: inv_defs update_conv' distinct_update send_event_def split: if_splits)

lemma inv_add_share:
  assumes g: "registry_inv g" and sid: "map_of (rg_shapes g) sid \<noteq> None" "map_of (rg_feed_shares g) sid = None"
    and sig: "rg_feed_by_sig g (fs_sig share) = None" and share: "fs_subs share = []"
  shows "registry_inv (g\<lparr>rg_feed_by_sig := (rg_feed_by_sig g)(fs_sig share \<mapsto> sid), rg_feed_shares := AList.update sid share (rg_feed_shares g)\<rparr>)"
    (is "registry_inv ?g")
proof -
  have so: "subs_ok g" "sigs_ok g" using g by (simp_all add: registry_inv_def)
  have shares: "map_of (rg_feed_shares ?g) = (map_of (rg_feed_shares g))(sid \<mapsto> share)" by (simp add: update_conv')
  have "subs_ok ?g"
  proof (rule subs_okI)
    fix a sh assume "map_of (rg_feed_shares ?g) a = Some sh"
    then show "distinct (map fst (fs_subs sh))" unfolding shares using share subs_distinct [OF so(1)] by (auto split: if_splits)
  next
    fix a sh b t assume "map_of (rg_feed_shares ?g) a = Some sh" "map_of (fs_subs sh) b = Some t"
    then show "rg_subs_by_id ?g b = Some a" unfolding shares using share claim_owner [OF so(1)] by (auto split: if_splits)
  next
    fix a b assume "rg_subs_by_id ?g b = Some a"
    then show "\<exists>sh t. map_of (rg_feed_shares ?g) a = Some sh \<and> map_of (fs_subs sh) b = Some t"
      unfolding shares using sid owner_claim [OF so(1), of b a] by auto
  qed
  moreover have "sigs_ok ?g"
  proof (rule sigs_okI)
    show "distinct (map fst (rg_feed_shares ?g))" using so(2) by (simp add: sigs_ok_def distinct_update)
  next
    fix a sh assume sh: "map_of (rg_feed_shares ?g) a = Some sh"
    then show "map_of (rg_shapes ?g) a \<noteq> None" unfolding shares using sid so(2) by (auto simp: sigs_ok_def split: if_splits)
    from sh show "rg_feed_by_sig ?g (fs_sig sh) = Some a" unfolding shares using sig sig_owner [OF so(2), of a sh] by (auto split: if_splits)
  next
    fix s a assume "rg_feed_by_sig ?g s = Some a"
    then show "\<exists>sh. map_of (rg_feed_shares ?g) a = Some sh \<and> fs_sig sh = s"
      unfolding shares using sid owner_sig [OF so(2), of s a] by (auto split: if_splits)
  qed
  ultimately show ?thesis using g by (simp add: registry_inv_def ids_ok_def lives_ok_def)
qed

lemma inv_register:
  assumes g: "registry_inv g" and sig: "Option.bind feed_sig (rg_feed_by_sig g) = None" and sub: "rg_subs_by_id g sub = None"
  shows "registry_inv (fst (register_shape refused tmpl feed_sig sub t1 t2 now g))"
proof (cases refused)
  case True
  then show ?thesis using inv_next [OF g] by (simp add: register_shape_def Let_def)
next
  case False
  let ?sid = "shape_id (rg_next_shape_id g)"
  let ?rec = "tmpl\<lparr>sr_id := ?sid, sr_stream_path := shape_stream ?sid, sr_backfill_rows := None, sr_backfill_bytes := None\<rparr>"
  let ?g1 = "g\<lparr>rg_next_shape_id := rg_next_shape_id g + 1\<rparr>"
  let ?g3 = "(send_event (EvCreated ?rec feed_sig sub t1) (?g1\<lparr>rg_shapes := AList.update ?sid ?rec (rg_shapes ?g1)\<rparr>))
    \<lparr>rg_lives := (rg_lives ?g1)(?sid \<mapsto> \<lparr>sl_last_read = now, sl_state = LifeActive\<rparr>)\<rparr>"
  have fresh: "map_of (rg_shapes g) ?sid = None" using g shape_id_fresh by (simp add: registry_inv_def)
  have "registry_inv ?g1" using g inv_next by simp
  then have g3: "registry_inv ?g3"
    using inv_add_shape [of ?g1 ?sid "rg_next_shape_id g" ?rec] fresh by simp
  show ?thesis
  proof (cases feed_sig)
    case None
    then show ?thesis using False g3 by (simp add: register_shape_def Let_def send_event_def)
  next
    case (Some s)
    let ?share = "\<lparr>fs_sig = s, fs_subs = [], fs_ready = SharePending\<rparr>"
    have "map_of (rg_feed_shares g) ?sid = None" using g fresh unfolding registry_inv_def sigs_ok_def by (metis not_None_eq)
    then have "registry_inv (?g3\<lparr>rg_feed_by_sig := (rg_feed_by_sig ?g3)(s \<mapsto> ?sid), rg_feed_shares := AList.update ?sid ?share (rg_feed_shares ?g3)\<rparr>)"
      using inv_add_share [OF g3, of ?sid ?share] sig Some by (simp add: send_event_def update_conv')
    from inv_subscribe [OF this, of sub ?sid t2] show ?thesis
      using False Some sub by (simp add: register_shape_def Let_def send_event_def)
  qed
qed

lemma try_join_None: "try_join resolving deps feed_sig sub t g = None \<Longrightarrow> registry_inv g \<Longrightarrow> Option.bind feed_sig (rg_feed_by_sig g) = None"
proof (cases "Option.bind feed_sig (rg_feed_by_sig g)")
  case (Some sid)
  assume "registry_inv g" and none: "try_join resolving deps feed_sig sub t g = None"
  from Some have "\<exists>sh. map_of (rg_feed_shares g) sid = Some sh" using \<open>registry_inv g\<close>
    by (cases feed_sig) (auto simp: registry_inv_def dest: owner_sig)
  then have "map_of (rg_shapes g) sid \<noteq> None" using \<open>registry_inv g\<close> by (auto simp: inv_defs)
  with none Some show ?thesis by (auto simp: try_join_def split: option.splits)
qed simp

lemma subscription_free: "ensure_subscription_free sub sid g = Ok () \<longleftrightarrow> rg_subs_by_id g sub = None \<or> rg_subs_by_id g sub = Some sid"
  by (auto simp: ensure_subscription_free_def subscription_owner_def split: option.splits)

lemma inv_try_join:
  assumes "registry_inv g" and "try_join resolving deps feed_sig sub t g = Some (g', r)"
  shows "registry_inv g'"
  using assms inv_subscribe [OF assms(1), of sub _ t]
  by (auto simp: try_join_def subscription_free rbind_eq_Inr split: option.splits sum.splits prod.splits) (metis fst_conv)+

lemma owner_not_empty: "registry_inv g \<Longrightarrow> rg_subs_by_id g sub \<noteq> Some []"
  using owner_claim [of g sub "[]"] unfolding registry_inv_def sigs_ok_def ids_ok_def shape_id_def
  by (metis append_Cons list.distinct(1) option.distinct(1) option.exhaust_sel)

lemma inv_create:
  assumes "registry_inv g"
  shows "registry_inv (fst (create_or_join resolving deps refused tmpl feed_sig sub t1 t2 now g))"
proof (cases "try_join resolving deps feed_sig sub t1 g")
  case None
  note sig = try_join_None [OF None assms]
  show ?thesis
  proof (cases "ensure_subscription_free sub [] g")
    case (Inl e)
    then show ?thesis using assms None by (simp add: create_or_join_def)
  next
    case (Inr u)
    then have "rg_subs_by_id g sub = None" using subscription_free [of sub "[]" g] owner_not_empty [OF assms] by auto
    from inv_register [OF assms sig this, of refused tmpl t1 t2 now] show ?thesis using None Inr
      by (auto simp: create_or_join_def split: prod.splits sum.splits)
  qed
next
  case (Some r)
  then show ?thesis using inv_try_join [OF assms, of resolving deps feed_sig sub t1 "fst r" "snd r"] by (simp add: create_or_join_def)
qed

lemma inv_publish: "registry_inv g \<Longrightarrow> registry_inv (publish_outcome sid out g)"
  by (auto simp: publish_outcome_def inv_defs update_conv' distinct_update split: option.split)

lemma inv_deactivate: "registry_inv g \<Longrightarrow> registry_inv (fst (deactivate_begin cfg now sid g))"
  "registry_inv g \<Longrightarrow> registry_inv (deactivate_settle now resp sid g)"
  by (auto simp: deactivate_begin_def deactivate_settle_def split: option.split)

lemma inv_wake: "registry_inv g \<Longrightarrow> registry_inv (fst (ensure_active_step now sid g))"
  "registry_inv g \<Longrightarrow> registry_inv (reactivate_settle cfg now out reply sid resume gate g)"
  by (auto simp: ensure_active_step_def reactivate_settle_def Let_def inv_evict split: option.split life_state.split wake_outcome.split)

lemma inv_drift: "registry_inv g \<Longrightarrow> registry_inv (retire_dependents reply t g)"
  "registry_inv g \<Longrightarrow> registry_inv (swap_table_schema t ts g)"
  "registry_inv g \<Longrightarrow> registry_inv (mark_unresolved reply t g)"
  "registry_inv g \<Longrightarrow> registry_inv (handle_dropped_table reply t g)"
proof -
  show a: "registry_inv (retire_dependents reply t g)" if "registry_inv g"
    using that by (simp add: retire_dependents_def bump_and_enumerate_def inv_purges)
  show b: "registry_inv (swap_table_schema t ts g)" if "registry_inv g" for g ts
    using that by (simp add: swap_table_schema_def inv_defs)
  show "registry_inv (mark_unresolved reply t g)" if "registry_inv g" using a [OF that] by (simp add: mark_unresolved_def Let_def)
  show "registry_inv (handle_dropped_table reply t g)" if "registry_inv g" using b [OF a [OF that]] by (simp add: handle_dropped_table_def)
qed

lemma inv_reset: "registry_inv g \<Longrightarrow> registry_inv (fst (reset_epoch reply d slot g))"
  by (simp add: reset_epoch_def Let_def inv_purges split: sum.split)

section \<open>The steps of the registry\<close>

text \<open>Events that say nothing of a shape's registration: the sequencer's checkpoints, the change log, the
  readers, the sizes and the receipts, and the retirement worker's completions.\<close>

fun side_event :: "catalog_event \<Rightarrow> bool" where
  "side_event (EvCreated _ _ _ _) = False"
| "side_event (EvJoined _ _ _) = False"
| "side_event (EvLeft _ _ _) = False"
| "side_event (EvDormant _ _ _) = False"
| "side_event (EvReactivated _) = False"
| "side_event (EvDropped _) = False"
| "side_event _ = True"

text \<open>One hold of the state lock, or one turn of a task that changes the lives. A shape settles only out of
  the transition it began.\<close>

inductive registry_step :: "registry \<Rightarrow> registry \<Rightarrow> bool" where
  step_mint: "registry_step g (fst (resolve_subscription nonce sub g))"
| step_create: "rg_next_shape_id g \<le> u64_max \<Longrightarrow> t1 \<le> t2 \<Longrightarrow>
    registry_step g (fst (create_or_join resolving deps refused tmpl feed_sig sub t1 t2 now g))"
| step_publish: "registry_step g (publish_outcome sid out g)"
| step_release: "registry_step g (release_subscription sid sub now g)"
| step_renew: "rg_subs_by_id g sub = Some sid \<Longrightarrow> registry_step g (renew_subscription_local sid sub t g)"
| step_sweep: "registry_step g (sweep_leases window now g)"
| step_purge: "registry_step g (purge_shape reply sid g)"
| step_evict: "registry_step g (fst (evict_shape cfg now reason reply sid g))"
| step_rollback: "registry_step g (rollback_create registration reply sid table path g)"
| step_touch: "registry_step g (touch_shape sid now g)"
| step_park: "registry_step g (fst (deactivate_begin cfg now sid g))"
| step_parked: "map_option sl_state (rg_lives g sid) \<in> {None, Some LifeDeactivating} \<Longrightarrow> registry_step g (deactivate_settle now resp sid g)"
| step_wake: "registry_step g (fst (ensure_active_step now sid g))"
| step_woken: "map_option sl_state (rg_lives g sid) \<in> {None, Some (LifeReactivating resume)} \<Longrightarrow>
    registry_step g (reactivate_settle cfg now out reply sid resume gate g)"
| step_drift: "registry_step g (retire_dependents replies t g)"
| step_swap: "registry_step g (swap_table_schema t ts g)"
| step_unresolved: "registry_step g (mark_unresolved replies t g)"
| step_gone: "registry_step g (handle_dropped_table replies t g)"
| step_reset: "registry_step g (fst (reset_epoch replies d slot g))"
| step_side: "side_event ev \<Longrightarrow> registry_step g (send_event ev g)"

lemma inv_mint: "registry_inv g \<Longrightarrow> registry_inv (fst (resolve_subscription nonce sub g))"
  by (simp add: resolve_subscription_def mint_subscription_def split: option.split)

lemma inv_step: "registry_step g g' \<Longrightarrow> registry_inv g \<Longrightarrow> registry_inv g'"
  by (induction rule: registry_step.induct)
    (auto simp: renew_subscription_local_def intro: inv_mint inv_create inv_publish inv_release inv_subscribe inv_sweep inv_purge inv_evict
      inv_rollback inv_deactivate inv_wake inv_drift inv_reset)

inductive registry_steps :: "registry \<Rightarrow> registry \<Rightarrow> bool" where
  steps_refl: "registry_steps g g"
| steps_step: "registry_steps g g' \<Longrightarrow> registry_step g' g'' \<Longrightarrow> registry_steps g g''"

lemma inv_steps: "registry_steps g g' \<Longrightarrow> registry_inv g \<Longrightarrow> registry_inv g'"
  by (induction rule: registry_steps.induct) (auto intro: inv_step)

section \<open>A create overtaken by a drift\<close>

lemma gens_send [simp]: "rg_schema_gen (send_event ev g) = rg_schema_gen g" "rg_epoch_gen (send_event ev g) = rg_epoch_gen g"
  "rg_schema_gen (touch_shape sid now g) = rg_schema_gen g" "rg_epoch_gen (touch_shape sid now g) = rg_epoch_gen g"
  "rg_schema_gen (set_state sid st g) = rg_schema_gen g" "rg_epoch_gen (set_state sid st g) = rg_epoch_gen g"
  "rg_schema_gen (send_remove rec g) = rg_schema_gen g" "rg_epoch_gen (send_remove rec g) = rg_epoch_gen g"
  by (simp_all add: send_event_def touch_shape_def set_state_def send_remove_def split: option.split)

lemma gens_subs [simp]:
  "rg_schema_gen (fst (subscribe sid sub t g)) = rg_schema_gen g" "rg_epoch_gen (fst (subscribe sid sub t g)) = rg_epoch_gen g"
  "rg_schema_gen (fst (unsubscribe sid sub g)) = rg_schema_gen g" "rg_epoch_gen (fst (unsubscribe sid sub g)) = rg_epoch_gen g"
  by (simp_all add: subscribe_def unsubscribe_def split: option.split)

lemma gens_remove [simp]:
  "rg_schema_gen (retire_shape_stream reply sid path g) = rg_schema_gen g" "rg_epoch_gen (retire_shape_stream reply sid path g) = rg_epoch_gen g"
  "rg_schema_gen (unregister sid g) = rg_schema_gen g" "rg_epoch_gen (unregister sid g) = rg_epoch_gen g"
  by (simp_all add: retire_shape_stream_def unregister_def remove_share_def forget_subscriptions_def Let_def split: sum.split option.split)

lemma gens_purge [simp]:
  "rg_schema_gen (purge_shape reply sid g) = rg_schema_gen g" "rg_epoch_gen (purge_shape reply sid g) = rg_epoch_gen g"
  by (simp_all add: purge_shape_def split: option.split)

lemma gens_purges [simp]:
  "rg_schema_gen (fold (\<lambda>sid. purge_shape (reply sid) sid) ids g) = rg_schema_gen g"
  "rg_epoch_gen (fold (\<lambda>sid. purge_shape (reply sid) sid) ids g) = rg_epoch_gen g"
  by (induction ids arbitrary: g) simp_all

lemma gens_evict [simp]:
  "rg_schema_gen (fst (evict_shape cfg now reason reply sid g)) = rg_schema_gen g" "rg_epoch_gen (fst (evict_shape cfg now reason reply sid g)) = rg_epoch_gen g"
  by (simp_all add: evict_shape_def Let_def split: option.split)

lemma gens_release [simp]:
  "rg_schema_gen (release_subscription sid sub now g) = rg_schema_gen g" "rg_epoch_gen (release_subscription sid sub now g) = rg_epoch_gen g"
  by (simp_all add: release_subscription_def unsubscribe_anonymous_def split_beta split: option.split)

lemma gens_lapsed [simp]:
  "rg_schema_gen (fold (\<lambda>(sid, sub) h. fst (unsubscribe sid sub h)) lapsed g) = rg_schema_gen g"
  "rg_epoch_gen (fold (\<lambda>(sid, sub) h. fst (unsubscribe sid sub h)) lapsed g) = rg_epoch_gen g"
  by (induction lapsed arbitrary: g) auto

lemma gens_create [simp]:
  "rg_schema_gen (fst (create_or_join resolving deps refused tmpl feed_sig sub t1 t2 now g)) = rg_schema_gen g"
  "rg_epoch_gen (fst (create_or_join resolving deps refused tmpl feed_sig sub t1 t2 now g)) = rg_epoch_gen g"
  by (simp_all add: create_or_join_def try_join_def register_shape_def Let_def split_beta split: option.split sum.split)

lemma gens_rollback [simp]:
  "rg_schema_gen (rollback_create registration reply sid table path g) = rg_schema_gen g"
  "rg_epoch_gen (rollback_create registration reply sid table path g) = rg_epoch_gen g"
  by (simp_all add: rollback_create_def forget_subscriptions_def Let_def split: option.split sum.split)

lemma gens_mono_step: "registry_step g g' \<Longrightarrow> gen_of g t \<le> gen_of g' t \<and> rg_epoch_gen g \<le> rg_epoch_gen g'"
  by (induction rule: registry_step.induct)
    (auto simp: gen_of_def resolve_subscription_def mint_subscription_def publish_outcome_def renew_subscription_local_def sweep_leases_def release_lapsed_def
      Let_def rg_record_lapsed deactivate_begin_def deactivate_settle_def ensure_active_step_def reactivate_settle_def retire_dependents_def
      bump_and_enumerate_def swap_table_schema_def mark_unresolved_def handle_dropped_table_def reset_epoch_def
      split: option.split life_state.split wake_outcome.split sum.split)

lemma gens_mono: "registry_steps g g' \<Longrightarrow> gen_of g t \<le> gen_of g' t \<and> rg_epoch_gen g \<le> rg_epoch_gen g'"
  by (induction rule: registry_steps.induct) (use gens_mono_step in \<open>auto intro: order_trans\<close>)

lemma drifted_None: "drifted_since (capture_gens deps g0) g = None \<longleftrightarrow> (\<forall>t \<in> set deps. gen_of g t = gen_of g0 t)"
  by (auto simp: drifted_since_def capture_gens_def find_None_iff)

lemma unchanged_iff: "ensure_schema_unchanged (capture_gens deps g0) g = Ok () \<longleftrightarrow>
    rg_epoch_gen g = rg_epoch_gen g0 \<and> (\<forall>t \<in> set deps. gen_of g t = gen_of g0 t)"
  by (auto simp: ensure_schema_unchanged_def epoch_reset_since_def drifted_None [symmetric] capture_gens_def [of deps g0] split: option.split)

lemma gen_retire: "gen_of (retire_dependents replies t g) t = gen_of g t + 1"
  by (simp add: gen_of_def retire_dependents_def bump_and_enumerate_def)

lemma epoch_reset_bump: "rg_epoch_gen (fst (reset_epoch replies d slot g)) = rg_epoch_gen g + 1"
  by (simp add: reset_epoch_def Let_def split: sum.split)

text \<open>C10: no create is acknowledged over a schema that moved. Whatever else happens, once the dependents of a
  table have been retired, or the epoch reset, the closing check of every create or join that captured
  its generations before refuses it, if it depends on the table.\<close>

theorem overtaken_create_refused:
  assumes before: "registry_steps g0 g1" and after: "registry_steps g2 g"
    and moved: "t \<in> set deps \<and> g2 = retire_dependents replies t g1 \<or> g2 = fst (reset_epoch replies d slot g1)"
  shows "\<exists>e. recheck_after_durability degraded sid path (capture_gens deps g0) g = Err e"
proof -
  from moved have "gen_of g1 t < gen_of g2 t \<and> t \<in> set deps \<or> rg_epoch_gen g1 < rg_epoch_gen g2"
    using gen_retire [of replies t g1] epoch_reset_bump [of replies d slot g1] by auto
  then have "gen_of g0 t < gen_of g t \<and> t \<in> set deps \<or> rg_epoch_gen g0 < rg_epoch_gen g"
    using gens_mono [OF before, of t] gens_mono [OF after, of t] by auto
  then have "ensure_schema_unchanged (capture_gens deps g0) g \<noteq> Ok ()" unfolding unchanged_iff by (metis less_irrefl)
  then show ?thesis by (cases "ensure_schema_unchanged (capture_gens deps g0) g") (auto simp: recheck_after_durability_def)
qed

lemma purge_shapes: "registry_inv g \<Longrightarrow> map_of (rg_shapes (purge_shape reply sid g)) = (map_of (rg_shapes g))(sid := None)"
  by (auto simp: purge_shape_def unregister_fields retire_shape_stream_def send_event_def send_remove_def split: option.split sum.split)

lemma purges_shapes:
  "registry_inv g \<Longrightarrow> map_of (rg_shapes (fold (\<lambda>sid. purge_shape (reply sid) sid) ids g)) = (\<lambda>sid. if sid \<in> set ids then None else map_of (rg_shapes g) sid)"
  by (induction ids arbitrary: g) (auto simp: inv_purge purge_shapes)

text \<open>What the enumeration of a drift finds is what depends on the table.\<close>

lemma enumerate_dependents:
  assumes "registry_inv g" and "map_of (rg_shapes g) sid = Some rec"
  shows "sid \<in> set (snd (bump_and_enumerate t g)) \<longleftrightarrow> depends_on t rec"
proof -
  have keys: "distinct (map fst (rg_shapes g))" using assms(1) by (simp add: inv_defs)
  have sid: "sr_id r = a" if "(a, r) \<in> set (rg_shapes g)" for a r
    using assms(1) map_of_is_SomeI [OF keys that] by (simp add: inv_defs)
  have "sid \<in> set (snd (bump_and_enumerate t g)) \<longleftrightarrow> (\<exists>a r. (a, r) \<in> set (rg_shapes g) \<and> depends_on t r \<and> sr_id r = sid)"
    by (auto simp: bump_and_enumerate_def image_iff)
  also have "\<dots> \<longleftrightarrow> (\<exists>r. (sid, r) \<in> set (rg_shapes g) \<and> depends_on t r)" using sid by blast
  also have "\<dots> \<longleftrightarrow> depends_on t rec" unfolding in_set_map_of [OF keys] using assms(2) by simp
  finally show ?thesis .
qed


section \<open>Examples\<close>

definition example_table :: table_ref where
  "example_table = \<lparr>canon = ''public.items'', dot = 6\<rparr>"

definition example_record :: shape_record where
  "example_record = \<lparr>sr_id = [], sr_table = example_table, sr_stream_path = [], sr_changes_only = False, sr_where_json = None,
     sr_columns = None, sr_family_key = None, sr_is_subquery = False, sr_aggregate = None, sr_fingerprint = None,
     sr_backfill_rows = None, sr_backfill_bytes = None\<rparr>"

definition example_registry :: registry where
  "example_registry = fst (create_or_join {} [example_table] False example_record (Some ''sig'') ''alice'' 5 5 0 registry_start)"

lemma example_registry_reached: "registry_steps registry_start example_registry" "registry_inv example_registry"
proof -
  have "registry_step registry_start example_registry" unfolding example_registry_def
    by (rule step_create) (simp_all add: registry_start_def u64_max_def)
  then show "registry_steps registry_start example_registry" by (rule steps_step [OF steps_refl])
  then show "registry_inv example_registry" by (rule inv_steps) (rule registry_inv_start)
qed

lemma example_registry_shape:
  "map_of (rg_shapes example_registry) (shape_id 1) = Some (example_record\<lparr>sr_id := shape_id 1, sr_stream_path := shape_stream (shape_id 1)\<rparr>)"
  by (simp add: example_registry_def create_or_join_def try_join_def ensure_subscription_free_def subscription_owner_def register_shape_def Let_def
      subscribe_def send_event_def registry_start_def example_record_def)

theorem overtaken_create_refused_witness:
  "\<exists>e. recheck_after_durability False (shape_id 1) (shape_stream (shape_id 1)) (capture_gens [example_table] registry_start)
     (retire_dependents (\<lambda>_. Ok ()) example_table example_registry) = Err e"
  by (rule overtaken_create_refused [OF example_registry_reached(1) steps_refl, of example_table _ _ "\<lambda>_. Ok ()"]) simp


end
