(* ===== verification/Restore.thy ===== *)
theory Restore
  imports Registry
begin

text \<open>
  A restart: installing the folded catalog in a starting engine, \<open>apply_catalog\<close> of
  \<^verbatim>\<open>engine/catalog.rs\<close>. The registry refines the catalog's fold: after any steps, the fold of the
  events sent is the registry's registration, so a restart restores what was registered, however often
  the process crashed before.
\<close>

section \<open>Installing a folded catalog\<close>

datatype restore_mode = RestoreResume | RestorePark

text \<open>What a boot holds beside the registry: the readers' pins, where the sequencer starts, and the drain
  receipts.\<close>

record boot =
  bt_registry :: registry
  bt_consumers :: "(string \<times> log_position) list"
  bt_seq_start :: log_position
  bt_seq_highwater :: "(nat \<times> nat) option"
  bt_source_receipts :: "string \<Rightarrow> source_drain_receipt option"
  bt_last_receipt :: "source_drain_receipt option"

definition boot_start :: boot where
  "boot_start = \<lparr>bt_registry = registry_start, bt_consumers = [], bt_seq_start = lp_start, bt_seq_highwater = None,
     bt_source_receipts = (\<lambda>_. None), bt_last_receipt = None\<rparr>"

text \<open>A record that is neither a subquery shape nor over a table that moved can be resumed.\<close>

definition resumable :: "(table_ref \<Rightarrow> tschema option) \<Rightarrow> shape_record \<Rightarrow> bool" where
  "resumable compiled rec \<longleftrightarrow> schema_moved_while_down rec compiled = None \<and> \<not> sr_is_subquery rec"

text \<open>The streams a boot finds missing or closed; a failed question aborts.\<close>

definition preflight_one :: "(string \<Rightarrow> stream_head option result) \<Rightarrow> (table_ref \<Rightarrow> tschema option) \<Rightarrow> string \<times> restored \<Rightarrow> string option result" where
  "preflight_one head compiled = (\<lambda>(sid, rec, _).
     if \<not> resumable compiled rec then Ok None
     else rbind (head (sr_stream_path rec)) (\<lambda>h.
       Ok (case h of None \<Rightarrow> Some sid | Some h' \<Rightarrow> if sh_closed h' then Some sid else None)))"

definition preflight_catalog_streams :: "(string \<Rightarrow> stream_head option result) \<Rightarrow> (table_ref \<Rightarrow> tschema option) \<Rightarrow> (string \<times> restored) list \<Rightarrow> string list result" where
  "preflight_catalog_streams head compiled recs =
     rbind (map_res (preflight_one head compiled) recs) (\<lambda>found. Ok (sort (List.map_filter (\<lambda>x. x) found)))"

type_synonym restoring = "registry \<times> (string \<times> string) list \<times> shape_record list"

definition drop_restored :: "string \<Rightarrow> shape_record \<Rightarrow> restoring \<Rightarrow> restoring" where
  "drop_restored sid rec = (\<lambda>(g, dead, resume). (send_event (EvDropped sid) g, dead @ [(sid, sr_stream_path rec)], resume))"

definition restore_share :: "string \<Rightarrow> string option \<Rightarrow> (string \<times> nat) list \<Rightarrow> registry \<Rightarrow> registry" where
  "restore_share sid sig subs g =
     (case sig of
        None \<Rightarrow> g
      | Some s \<Rightarrow>
          fold (\<lambda>(sub, t) h. fst (subscribe sid sub t h)) subs
            (g\<lparr>rg_feed_by_sig := (rg_feed_by_sig g)(s \<mapsto> sid),
               rg_feed_shares := AList.update sid \<lparr>fs_sig = s, fs_subs = [], fs_ready = ShareReady\<rparr> (rg_feed_shares g)\<rparr>))"

definition restore_one :: "(table_ref \<Rightarrow> tschema option) \<Rightarrow> nat \<Rightarrow> string \<times> restored \<Rightarrow> restoring \<Rightarrow> restoring" where
  "restore_one compiled now = (\<lambda>(sid, rec, sig, subs, dormant) (g, dead, resume).
     if \<not> resumable compiled rec then drop_restored sid rec (g, dead, resume)
     else
       (let g1 = restore_share sid sig subs (g\<lparr>rg_shapes := AList.update sid rec (rg_shapes g)\<rparr>);
            st = (case dormant of Some (at', gate) \<Rightarrow> LifeDormant now at' gate | None \<Rightarrow> LifeActive)
        in (g1\<lparr>rg_lives := (rg_lives g1)(sid \<mapsto> \<lparr>sl_last_read = now, sl_state = st\<rparr>)\<rparr>, dead,
            if dormant = None then resume @ [rec] else resume)))"

definition rollback_catalog_restore :: "string list \<Rightarrow> registry \<Rightarrow> registry" where
  "rollback_catalog_restore ids g =
     (let g1 = g\<lparr>rg_removed := rg_removed g @ List.map_filter (\<lambda>sid. map_option (\<lambda>rec. (sr_table rec, sid)) (map_of (rg_shapes g) sid)) ids\<rparr>
      in fold (\<lambda>sid h. let h1 = remove_share sid (forget_subscriptions sid (h\<lparr>rg_lives := (rg_lives h)(sid := None)\<rparr>))
                       in h1\<lparr>rg_shapes := AList.delete sid (rg_shapes h1)\<rparr>) ids g1)"

definition retire_dead :: "(string \<Rightarrow> unit result) \<Rightarrow> (string \<times> string) list \<Rightarrow> registry \<Rightarrow> registry" where
  "retire_dead reply dead g = fold (\<lambda>(sid, path). retire_shape_stream (reply sid) sid path) dead g"

fun resume_all :: "(shape_record \<Rightarrow> unit result) \<Rightarrow> shape_record list \<Rightarrow> unit result" where
  "resume_all reply [] = Ok ()"
| "resume_all reply (rec # recs) = rbind (reply rec) (\<lambda>_. resume_all reply recs)"

text \<open>The part of the installation after the receipts and the preflight: the counter, the outstanding
  retirements and the records. \<open>gone\<close> are the records whose streams are gone, \<open>pause\<close> the sequencer's
  answer to the pause of its reads (\<open>Ok\<close> where none runs yet), \<open>resume_reply\<close> its answers to the
  registrations and \<open>release\<close> the end of the pause.\<close>

definition install :: "(table_ref \<Rightarrow> tschema option) \<Rightarrow> restore_mode \<Rightarrow> nat \<Rightarrow> unit result \<Rightarrow> (shape_record \<Rightarrow> unit result) \<Rightarrow> unit result \<Rightarrow> (string \<Rightarrow> unit result) \<Rightarrow>
    string list \<Rightarrow> catalog_fold \<Rightarrow> registry \<Rightarrow> registry \<times> unit result" where
  "install compiled mode now pause resume_reply release retire_reply gone cf g =
     (let g1 = g\<lparr>rg_retiring := rg_retiring g @ map (\<lambda>(sid, path). (path, Some sid)) (pending_retirements cf)\<rparr>;
          g2 = (case cf_max_shape_id cf of None \<Rightarrow> g1 | Some k \<Rightarrow> g1\<lparr>rg_next_shape_id := max (rg_next_shape_id g1) (k + 1)\<rparr>);
          lost = List.map_filter (\<lambda>sid. map_option (\<lambda>r. (sid, fst r)) (map_of (cf_recs cf) sid)) gone;
          (g3, dead, _) = fold (\<lambda>(sid, rec). drop_restored sid rec) lost (g2, [], []);
          recs = filter (\<lambda>e. fst e \<notin> set gone) (cf_recs cf)
      in if recs = [] \<and> cf_start_pos cf = lp_start then (retire_dead retire_reply dead g3, release)
         else if mode = RestorePark then (fold (\<lambda>(sid, rec, _) h. h\<lparr>rg_shapes := AList.update sid rec (rg_shapes h)\<rparr>) recs g3, release)
         else case pause of
             Inl e \<Rightarrow> (rollback_catalog_restore (map fst recs) g3, Err e)
           | Inr _ \<Rightarrow>
               (let (g4, dead', resume) = fold (restore_one compiled now) recs (g3, dead, []);
                    g5 = retire_dead retire_reply dead' g4
                in case rbind (resume_all resume_reply (sort_key sr_id resume)) (\<lambda>_. release) of
                     Inr _ \<Rightarrow> (g5, Ok ())
                   | Inl e \<Rightarrow> (rollback_catalog_restore (map fst recs) g5, Err e)))"

definition apply_catalog :: "(string \<Rightarrow> stream_head option result) \<Rightarrow> nat set \<Rightarrow> (table_ref \<Rightarrow> tschema option) \<Rightarrow> restore_mode \<Rightarrow> nat \<Rightarrow> unit result \<Rightarrow>
    (shape_record \<Rightarrow> unit result) \<Rightarrow> unit result \<Rightarrow> (string \<Rightarrow> unit result) \<Rightarrow> catalog_fold \<Rightarrow> boot \<Rightarrow> boot \<times> unit result" where
  "apply_catalog head segments compiled mode now pause resume_reply release retire_reply cf b =
     (if \<exists>c \<in> set (cf_consumers cf). lp_segment (snd c) \<notin> segments then (b, Err (Other ''a consumer is pinned to an unknown segment''))
      else
        (let live = bt_last_receipt b;
             keep = (case live of Some r \<Rightarrow> map_of (cf_source_receipts cf) (rc_source_commit_id r) = None | None \<Rightarrow> False);
             b1 = b\<lparr>bt_consumers := cf_consumers cf, bt_source_receipts := bt_source_receipts b ++ map_of (cf_source_receipts cf),
                    bt_last_receipt := (if keep then live else case cf_last_source_receipt cf of Some r \<Rightarrow> Some r | None \<Rightarrow> live)\<rparr>
         in case (if mode = RestoreResume then preflight_catalog_streams head compiled (cf_recs cf) else Ok []) of
              Inl e \<Rightarrow> (b1, Err e)
            | Inr gone \<Rightarrow>
                (case install compiled mode now pause resume_reply release retire_reply gone cf (bt_registry b1) of
                   (g, r) \<Rightarrow>
                     if filter (\<lambda>e. fst e \<notin> set gone) (cf_recs cf) = [] \<and> cf_start_pos cf = lp_start then (b1\<lparr>bt_registry := g\<rparr>, r)
                     else (b1\<lparr>bt_registry := g, bt_seq_start := cf_start_pos cf, bt_seq_highwater := cf_start_highwater cf\<rparr>, r))))"

section \<open>The registry and the catalog's fold\<close>

definition unsized :: "shape_record \<Rightarrow> shape_record" where
  "unsized rec = rec\<lparr>sr_backfill_rows := None, sr_backfill_bytes := None\<rparr>"

definition claims_match :: "(string \<times> nat) list \<Rightarrow> (string \<times> nat) list \<Rightarrow> bool" where
  "claims_match subs mem \<longleftrightarrow> (\<forall>sub. map_of subs sub = None \<longleftrightarrow> map_of mem sub = None)
     \<and> (\<forall>sub t t'. map_of subs sub = Some t \<longrightarrow> map_of mem sub = Some t' \<longrightarrow> t \<le> t')"

definition life_matches :: "shape_life option \<Rightarrow> (log_position \<times> snapshot_gate) option \<Rightarrow> bool" where
  "life_matches life d = (case life of
       None \<Rightarrow> True
     | Some l \<Rightarrow> (case sl_state l of LifeDormant _ p _ \<Rightarrow> map_option fst d = Some p | LifeReactivating p \<Rightarrow> map_option fst d = Some p | _ \<Rightarrow> d = None))"

text \<open>What a restart would restore of a shape is what the registry holds of it: the record up to the size of
  its backfill, the signature, the claims with leases no younger, and where it sleeps.\<close>

fun shape_matches :: "feed_share option \<Rightarrow> shape_life option \<Rightarrow> shape_record \<Rightarrow> restored \<Rightarrow> bool" where
  "shape_matches share life rec (rec', sig, subs, d) \<longleftrightarrow> unsized rec' = unsized rec \<and> sig = map_option fs_sig share
     \<and> (case share of None \<Rightarrow> True | Some s \<Rightarrow> claims_match subs (fs_subs s)) \<and> life_matches life d"

definition matches_catalog :: "registry \<Rightarrow> catalog_fold \<Rightarrow> bool" where
  "matches_catalog g cf \<longleftrightarrow>
     (\<forall>sid. rel_option (shape_matches (map_of (rg_feed_shares g) sid) (rg_lives g sid)) (map_of (rg_shapes g) sid) (map_of (cf_recs cf) sid))
     \<and> (\<forall>k. cf_max_shape_id cf = Some k \<longrightarrow> k < rg_next_shape_id g)"

text \<open>An operation tracks the catalog when the events it sends take the fold where it takes the registry.\<close>

definition tracks :: "(catalog_event \<Rightarrow> bool) \<Rightarrow> registry \<Rightarrow> catalog_fold \<Rightarrow> registry \<Rightarrow> bool" where
  "tracks P g cf g' \<longleftrightarrow> (\<exists>evs. rg_events g' = rg_events g @ evs \<and> list_all P evs \<and> matches_catalog g' (fold fold_apply evs cf))"

fun shrinks :: "catalog_event \<Rightarrow> bool" where
  "shrinks (EvCreated _ _ _ _) = False"
| "shrinks (EvJoined _ _ _) = False"
| "shrinks _ = True"

text \<open>The ids the engine mints.\<close>

fun event_ok :: "catalog_event \<Rightarrow> bool" where
  "event_ok (EvCreated rec _ _ _) \<longleftrightarrow> (\<exists>n \<le> u64_max. sr_id rec = shape_id n)"
| "event_ok _ \<longleftrightarrow> True"

lemma shrinks_ok: "shrinks ev \<Longrightarrow> event_ok ev"
  by (cases ev) simp_all

lemma tracks_refl: "matches_catalog g cf \<Longrightarrow> tracks P g cf g"
  unfolding tracks_def by (intro exI [of _ "[]"]) simp

lemma tracks_trans:
  assumes "tracks P g cf g1" and "\<And>cf1. matches_catalog g1 cf1 \<Longrightarrow> tracks P g1 cf1 g2"
  shows "tracks P g cf g2"
proof -
  from assms(1) obtain evs where evs: "rg_events g1 = rg_events g @ evs" "list_all P evs" "matches_catalog g1 (fold fold_apply evs cf)"
    by (auto simp: tracks_def)
  from assms(2) [OF evs(3)] obtain evs' where "rg_events g2 = rg_events g1 @ evs'" "list_all P evs'"
    "matches_catalog g2 (fold fold_apply evs' (fold fold_apply evs cf))" by (auto simp: tracks_def)
  then show ?thesis unfolding tracks_def using evs by (intro exI [of _ "evs @ evs'"]) simp
qed

text \<open>A change that sends nothing.\<close>

lemma tracks_silent:
  assumes "matches_catalog g cf" and "rg_events g' = rg_events g" and "rg_next_shape_id g \<le> rg_next_shape_id g'"
    and "map_of (rg_shapes g') = map_of (rg_shapes g)"
    and "\<And>sid rec r. map_of (rg_shapes g) sid = Some rec \<Longrightarrow> map_of (cf_recs cf) sid = Some r \<Longrightarrow>
      shape_matches (map_of (rg_feed_shares g) sid) (rg_lives g sid) rec r \<Longrightarrow> shape_matches (map_of (rg_feed_shares g') sid) (rg_lives g' sid) rec r"
  shows "tracks P g cf g'"
proof -
  have "rel_option (shape_matches (map_of (rg_feed_shares g') sid) (rg_lives g' sid)) (map_of (rg_shapes g') sid) (map_of (cf_recs cf) sid)" for sid
  proof -
    have "rel_option (shape_matches (map_of (rg_feed_shares g) sid) (rg_lives g sid)) (map_of (rg_shapes g) sid) (map_of (cf_recs cf) sid)"
      using assms(1) by (simp add: matches_catalog_def)
    then show ?thesis unfolding assms(4)
      by (cases "map_of (rg_shapes g) sid"; cases "map_of (cf_recs cf) sid") (simp_all add: assms(5) [of sid] del: shape_matches.simps)
  qed
  then have "matches_catalog g' cf" using assms(1,3) by (auto simp: matches_catalog_def intro: less_le_trans)
  then show ?thesis using assms(2) unfolding tracks_def by (intro exI [of _ "[]"]) simp
qed

text \<open>A change of one shape, with the event that says so.\<close>

lemma tracks_one:
  assumes m: "matches_catalog g cf" and ev: "rg_events g' = rg_events g @ [ev]" "P ev"
    and next': "\<And>k. cf_max_shape_id (fold_apply ev cf) = Some k \<Longrightarrow> k < rg_next_shape_id g'"
    and others: "\<And>a. a \<noteq> sid \<Longrightarrow> map_of (rg_shapes g') a = map_of (rg_shapes g) a \<and> map_of (rg_feed_shares g') a = map_of (rg_feed_shares g) a
      \<and> rg_lives g' a = rg_lives g a \<and> map_of (cf_recs (fold_apply ev cf)) a = map_of (cf_recs cf) a"
    and this': "rel_option (shape_matches (map_of (rg_feed_shares g') sid) (rg_lives g' sid)) (map_of (rg_shapes g') sid) (map_of (cf_recs (fold_apply ev cf)) sid)"
  shows "tracks P g cf g'"
proof -
  have "rel_option (shape_matches (map_of (rg_feed_shares g') a) (rg_lives g' a)) (map_of (rg_shapes g') a) (map_of (cf_recs (fold_apply ev cf)) a)" for a
    using m others [of a] this' by (cases "a = sid") (auto simp: matches_catalog_def)
  then have "matches_catalog g' (fold_apply ev cf)" using next' by (simp add: matches_catalog_def)
  then show ?thesis using ev unfolding tracks_def by (intro exI [of _ "[ev]"]) simp
qed

lemma map_of_with_rec: "map_of (cf_recs (with_rec sid f cf)) = (\<lambda>a. if a = sid then map_option f (map_of (cf_recs cf) sid) else map_of (cf_recs cf) a)"
  "cf_max_shape_id (with_rec sid f cf) = cf_max_shape_id cf"
  by (auto simp: with_rec_def update_conv' fun_eq_iff split: option.split)

lemma max_with_rec [simp]: "cf_max_shape_id (with_rec sid f cf) = cf_max_shape_id cf"
  by (simp add: with_rec_def split: option.split)

lemma matches_at: "matches_catalog g cf \<Longrightarrow> rel_option (shape_matches (map_of (rg_feed_shares g) sid) (rg_lives g sid)) (map_of (rg_shapes g) sid) (map_of (cf_recs cf) sid)"
  by (simp add: matches_catalog_def)

lemma matches_max: "matches_catalog g cf \<Longrightarrow> cf_max_shape_id cf = Some k \<Longrightarrow> k < rg_next_shape_id g"
  by (simp add: matches_catalog_def)

lemma unsized_sized [simp]: "unsized (rec\<lparr>sr_backfill_rows := a, sr_backfill_bytes := b\<rparr>) = unsized rec"
  by (simp add: unsized_def)

lemma tracks_side:
  assumes "matches_catalog g cf" and "side_event ev"
  shows "tracks shrinks g cf (send_event ev g)"
proof (rule tracks_one [OF assms(1), where ev = ev and sid = "case ev of EvBackfillSized sid _ _ \<Rightarrow> sid | _ \<Rightarrow> []"])
  show "rg_events (send_event ev g) = rg_events g @ [ev]" by (simp add: send_event_def)
  show "shrinks ev" using assms(2) by (cases ev) simp_all
  have recs: "map_of (cf_recs (fold_apply ev cf)) a = (case ev of EvBackfillSized sid rows bytes \<Rightarrow>
      if a = sid then map_option (\<lambda>(rec, rest). (rec\<lparr>sr_backfill_rows := Some rows, sr_backfill_bytes := Some bytes\<rparr>, rest)) (map_of (cf_recs cf) a)
      else map_of (cf_recs cf) a | _ \<Rightarrow> map_of (cf_recs cf) a)" and max': "cf_max_shape_id (fold_apply ev cf) = cf_max_shape_id cf" for a
    using assms(2) by (cases ev; simp add: map_of_with_rec)+
  show "k < rg_next_shape_id (send_event ev g)" if "cf_max_shape_id (fold_apply ev cf) = Some k" for k
    using that matches_max [OF assms(1)] by (simp add: max' send_event_def)
  let ?sid = "case ev of EvBackfillSized sid _ _ \<Rightarrow> sid | _ \<Rightarrow> []"
  show "map_of (rg_shapes (send_event ev g)) a = map_of (rg_shapes g) a \<and> map_of (rg_feed_shares (send_event ev g)) a = map_of (rg_feed_shares g) a
      \<and> rg_lives (send_event ev g) a = rg_lives g a \<and> map_of (cf_recs (fold_apply ev cf)) a = map_of (cf_recs cf) a" if "a \<noteq> ?sid" for a
    using that assms(2) recs [of a] by (cases ev) (simp_all add: send_event_def)
  have "rel_option (shape_matches (map_of (rg_feed_shares g) ?sid) (rg_lives g ?sid)) (map_of (rg_shapes g) ?sid) (map_of (cf_recs (fold_apply ev cf)) ?sid)"
    using matches_at [OF assms(1), of ?sid] recs [of ?sid]
    by (cases "map_of (rg_shapes g) ?sid"; cases "map_of (cf_recs cf) ?sid"; cases ev) auto
  then show "rel_option (shape_matches (map_of (rg_feed_shares (send_event ev g)) ?sid) (rg_lives (send_event ev g) ?sid)) (map_of (rg_shapes (send_event ev g)) ?sid)
      (map_of (cf_recs (fold_apply ev cf)) ?sid)" by (simp add: send_event_def)
qed

text \<open>Claims.\<close>

lemma claims_renew: "claims_match subs mem \<Longrightarrow> t \<le> t' \<Longrightarrow> claims_match (renew sub t subs) (renew sub t' mem)"
proof -
  assume m: "claims_match subs mem" and t: "t \<le> t'"
  have "(case map_of subs sub of None \<Rightarrow> t | Some l \<Rightarrow> max l t) \<le> (case map_of mem sub of None \<Rightarrow> t' | Some l \<Rightarrow> max l t')"
    using m [unfolded claims_match_def, THEN conjunct1, rule_format, of sub] m [unfolded claims_match_def, THEN conjunct2, rule_format, of sub] t
    by (cases "map_of subs sub"; cases "map_of mem sub") (auto simp: max.coboundedI1 max.coboundedI2)
  then show ?thesis using m by (auto simp: claims_match_def map_of_renew)
qed

lemma claims_delete: "claims_match subs mem \<Longrightarrow> claims_match (AList.delete sub subs) (AList.delete sub mem)"
  by (auto simp: claims_match_def)

lemma claims_renew_mem: "claims_match subs mem \<Longrightarrow> map_of mem sub = Some l \<Longrightarrow> claims_match subs (renew sub t mem)"
  by (fastforce simp: claims_match_def map_of_renew split: option.splits)

lemma claims_delete_absent: "claims_match subs mem \<Longrightarrow> map_of mem sub = None \<Longrightarrow> claims_match (AList.delete sub subs) mem"
  by (auto simp: claims_match_def)

lemma tracks_join:
  assumes m: "matches_catalog g cf" and share: "map_of (rg_feed_shares g) sid \<noteq> None"
  shows "tracks event_ok g cf (send_event (EvJoined sid sub t) (fst (subscribe sid sub t g)))"
proof (rule tracks_one [OF m, where ev = "EvJoined sid sub t" and sid = sid])
  let ?g = "send_event (EvJoined sid sub t) (fst (subscribe sid sub t g))"
  obtain s where s: "map_of (rg_feed_shares g) sid = Some s" using share by blast
  show "rg_events ?g = rg_events g @ [EvJoined sid sub t]" using s by (simp add: send_event_def subscribe_def)
  show "rel_option (shape_matches (map_of (rg_feed_shares ?g) sid) (rg_lives ?g sid)) (map_of (rg_shapes ?g) sid) (map_of (cf_recs (fold_apply (EvJoined sid sub t) cf)) sid)"
    using matches_at [OF m, of sid] s
    by (cases "map_of (rg_shapes g) sid"; cases "map_of (cf_recs cf) sid") (auto simp: send_event_def subscribe_def map_of_with_rec update_conv' intro: claims_renew)
qed (use matches_max [OF m] in \<open>auto simp: send_event_def subscribe_def map_of_with_rec update_conv' split: option.splits\<close>)

lemma tracks_leave:
  assumes m: "matches_catalog g cf"
  shows "tracks shrinks g cf (send_event (EvLeft sid sub l) (fst (unsubscribe sid sub g)))"
proof (rule tracks_one [OF m, where ev = "EvLeft sid sub l" and sid = sid])
  let ?g = "send_event (EvLeft sid sub l) (fst (unsubscribe sid sub g))"
  show "rg_events ?g = rg_events g @ [EvLeft sid sub l]" by (simp add: send_event_def unsubscribe_def split: option.split)
  show "rel_option (shape_matches (map_of (rg_feed_shares ?g) sid) (rg_lives ?g sid)) (map_of (rg_shapes ?g) sid) (map_of (cf_recs (fold_apply (EvLeft sid sub l) cf)) sid)"
    using matches_at [OF m, of sid]
    by (cases "map_of (rg_shapes g) sid"; cases "map_of (cf_recs cf) sid"; cases "map_of (rg_feed_shares g) sid")
      (auto simp: send_event_def unsubscribe_def map_of_with_rec update_conv' intro: claims_delete claims_delete_absent)
qed (use matches_max [OF m] in \<open>auto simp: send_event_def unsubscribe_def map_of_with_rec update_conv' split: option.splits\<close>)

lemma rel_remove: "rel_option R x None \<longleftrightarrow> x = None"
  by (cases x) simp_all

lemma unregister_absent: "registry_inv g \<Longrightarrow> map_of (rg_shapes g) sid = None \<Longrightarrow> map_of (rg_feed_shares g) sid = None \<and> rg_lives g sid = None"
  unfolding registry_inv_def sigs_ok_def lives_ok_def by (metis not_None_eq)

lemma tracks_unregister:
  assumes m: "matches_catalog g cf" and g: "registry_inv g"
  shows "tracks shrinks g cf (unregister sid g)"
proof (cases "map_of (rg_shapes g) sid")
  case None
  show ?thesis
    by (rule tracks_silent [OF m]) (use None g unregister_absent [OF g None] in \<open>auto simp: unregister_fields\<close>)
next
  case (Some rec)
  then obtain r where r: "map_of (cf_recs cf) sid = Some r" using matches_at [OF m, of sid] by (cases "map_of (cf_recs cf) sid") auto
  have recs: "map_of (cf_recs (fold_apply (EvDropped sid) cf)) = (map_of (cf_recs cf))(sid := None)"
    and max': "cf_max_shape_id (fold_apply (EvDropped sid) cf) = cf_max_shape_id cf" using r by (auto split: prod.split)
  show ?thesis
    by (rule tracks_one [OF m, where ev = "EvDropped sid" and sid = sid])
      (use Some matches_max [OF m] in \<open>auto simp: unregister_fields [OF g] recs max' rel_remove simp del: fold_apply.simps\<close>)
qed

lemma tracks_register:
  assumes m: "matches_catalog g cf" and g: "registry_inv g" and n: "rg_next_shape_id g \<le> u64_max" and t: "t1 \<le> t2"
  shows "tracks event_ok g cf (fst (register_shape refused tmpl feed_sig sub t1 t2 now g))"
proof (cases refused)
  case True
  then show ?thesis by (intro tracks_silent [OF m]) (auto simp: register_shape_def Let_def)
next
  case False
  let ?sid = "shape_id (rg_next_shape_id g)"
  let ?rec = "tmpl\<lparr>sr_id := ?sid, sr_stream_path := shape_stream ?sid, sr_backfill_rows := None, sr_backfill_bytes := None\<rparr>"
  let ?ev = "EvCreated ?rec feed_sig sub t1" and ?g = "fst (register_shape refused tmpl feed_sig sub t1 t2 now g)"
  have num: "shape_id_num ?sid = Some (rg_next_shape_id g)" using n by (simp add: shape_id_num_def shape_id_def)
  have recs: "map_of (cf_recs (fold_apply ?ev cf)) = (map_of (cf_recs cf))(?sid \<mapsto> (?rec, feed_sig, [(sub, t1)], None))"
    and max': "cf_max_shape_id (fold_apply ?ev cf) = Some (case cf_max_shape_id cf of None \<Rightarrow> rg_next_shape_id g | Some k \<Rightarrow> max k (rg_next_shape_id g))"
    by (simp_all add: num Let_def update_conv')
  have f: "map_of (rg_shapes ?g) = (map_of (rg_shapes g))(?sid \<mapsto> ?rec)" "rg_events ?g = rg_events g @ [?ev]"
    "rg_lives ?g = (rg_lives g)(?sid \<mapsto> \<lparr>sl_last_read = now, sl_state = LifeActive\<rparr>)" "rg_next_shape_id ?g = Suc (rg_next_shape_id g)"
    "map_of (rg_feed_shares ?g) = (case feed_sig of None \<Rightarrow> map_of (rg_feed_shares g)
       | Some s \<Rightarrow> (map_of (rg_feed_shares g))(?sid \<mapsto> \<lparr>fs_sig = s, fs_subs = [(sub, t2)], fs_ready = SharePending\<rparr>))"
    using False by (cases feed_sig; simp add: register_shape_def Let_def send_event_def subscribe_def update_conv' renew_def)+
  have absent: "map_of (rg_shapes g) ?sid = None" using g shape_id_fresh by (simp add: registry_inv_def)
  show ?thesis
  proof (rule tracks_one [OF m f(2), where sid = ?sid])
    show "rel_option (shape_matches (map_of (rg_feed_shares ?g) ?sid) (rg_lives ?g ?sid)) (map_of (rg_shapes ?g) ?sid) (map_of (cf_recs (fold_apply ?ev cf)) ?sid)"
      using t unregister_absent [OF g absent] unfolding recs f by (cases feed_sig) (simp_all add: claims_match_def life_matches_def)
    show "k < rg_next_shape_id ?g" if "cf_max_shape_id (fold_apply ?ev cf) = Some k" for k
      using that matches_max [OF m] unfolding max' f(4) by (auto simp: less_Suc_eq split: option.splits)
  next
    fix a assume "a \<noteq> ?sid"
    then show "map_of (rg_shapes ?g) a = map_of (rg_shapes g) a \<and> map_of (rg_feed_shares ?g) a = map_of (rg_feed_shares g) a \<and> rg_lives ?g a = rg_lives g a
        \<and> map_of (cf_recs (fold_apply ?ev cf)) a = map_of (cf_recs cf) a" unfolding recs f by (cases feed_sig) simp_all
  qed (use n in auto)
qed

lemma tracks_retire:
  assumes "matches_catalog g cf"
  shows "tracks shrinks g cf (retire_shape_stream reply sid path g)"
proof (cases reply)
  case (Inl e)
  show ?thesis by (rule tracks_silent [OF assms]) (auto simp: retire_shape_stream_def Inl)
next
  case (Inr u)
  then show ?thesis using tracks_side [OF assms, of "EvRetired sid"] by (simp add: retire_shape_stream_def)
qed

lemma tracks_removed: "matches_catalog g cf \<Longrightarrow> tracks shrinks g cf (send_remove rec g)"
  by (rule tracks_silent) (auto simp: send_remove_def)

lemma tracks_purge:
  assumes m: "matches_catalog g cf" and g: "registry_inv g"
  shows "tracks shrinks g cf (purge_shape reply sid g)"
proof -
  have "tracks shrinks g cf (retire_shape_stream reply sid path (send_remove rec (unregister sid g)))" for rec path
    using tracks_trans [OF tracks_trans [OF tracks_unregister [OF m g] tracks_removed] tracks_retire] .
  then show ?thesis using tracks_unregister [OF m g] by (simp add: purge_shape_def split: option.split)
qed

lemma tracks_purges:
  assumes "matches_catalog g cf" and "registry_inv g"
  shows "tracks shrinks g cf (fold (\<lambda>sid. purge_shape (reply sid) sid) ids g)"
  using assms(1,2)
proof (induction ids arbitrary: g cf)
  case (Cons sid ids)
  have "tracks shrinks g cf (purge_shape (reply sid) sid g)" using tracks_purge [OF Cons.prems] .
  then show ?case using Cons.IH inv_purge [OF Cons.prems(2)] by (auto elim!: tracks_trans)
qed (simp add: tracks_refl)

lemma tracks_evict:
  assumes m: "matches_catalog g cf" and g: "registry_inv g"
  shows "tracks shrinks g cf (fst (evict_shape cfg now reason reply sid g))"
proof -
  have "tracks shrinks g cf (retire_shape_stream reply sid path (if b then unregister sid g else send_remove rec (unregister sid g)))" for rec path b
    using tracks_trans [OF tracks_trans [OF tracks_unregister [OF m g] tracks_removed] tracks_retire]
      tracks_trans [OF tracks_unregister [OF m g] tracks_retire] by simp
  then show ?thesis using tracks_refl [OF m] by (simp add: evict_shape_def Let_def split: option.split)
qed

lemma matches_irrelevant [simp]: "matches_catalog (g\<lparr>rg_removed := x2, rg_retiring := x3\<rparr>) cf = matches_catalog g cf"
  by (simp add: matches_catalog_def)

lemma tracks_rollback:
  assumes m: "matches_catalog g cf" and g: "registry_inv g"
  shows "tracks shrinks g cf (rollback_create registration reply sid table path g)"
proof -
  have 1: "tracks shrinks g cf ((unregister sid g)\<lparr>rg_removed := x, rg_retiring := y\<rparr>)" for x y
    using tracks_unregister [OF m g, of sid] by (auto simp: tracks_def)
  show ?thesis unfolding rollback_unregister [OF g] Let_def using 1 tracks_trans [OF 1 tracks_side] by simp
qed

lemma send_commutes: "unsubscribe sid sub (send_event ev g) = (send_event ev (fst (unsubscribe sid sub g)), snd (unsubscribe sid sub g))"
  by (simp add: unsubscribe_def send_event_def split: option.split)

lemma sweep_interleaved:
  "record_lapsed lapsed (fold (\<lambda>(sid, sub) h. fst (unsubscribe sid sub h)) lapsed g)
     = fold (\<lambda>(sid, sub) h. send_event (EvLeft sid sub True) (fst (unsubscribe sid sub h))) lapsed g"
proof -
  have com: "fold (\<lambda>(sid, sub) h. fst (unsubscribe sid sub h)) xs (send_event ev h) = send_event ev (fold (\<lambda>(sid, sub) h. fst (unsubscribe sid sub h)) xs h)" for xs ev h
    by (induction xs arbitrary: h) (auto simp: send_commutes)
  show ?thesis unfolding record_lapsed_def
    by (induction lapsed arbitrary: g) (auto simp: com [symmetric] split_beta)
qed

lemma tracks_sweep:
  assumes "matches_catalog g cf"
  shows "tracks shrinks g cf (sweep_leases window now g)"
proof -
  have "tracks shrinks g cf (fold (\<lambda>(sid, sub) h. send_event (EvLeft sid sub True) (fst (unsubscribe sid sub h))) lapsed g)" for lapsed
    using assms(1)
  proof (induction lapsed arbitrary: g cf)
    case (Cons x lapsed)
    obtain sid sub where x: "x = (sid, sub)" by (cases x)
    show ?case using tracks_trans [OF tracks_leave [OF Cons.prems] Cons.IH] by (simp add: x)
  qed (simp add: tracks_refl)
  then show ?thesis by (simp add: sweep_leases_def release_lapsed_def Let_def sweep_interleaved)
qed

text \<open>The lives.\<close>

lemma tracks_life:
  assumes "matches_catalog g cf" and "\<And>l d. rg_lives g sid = Some l \<Longrightarrow> life_matches (Some l) d \<Longrightarrow> life_matches (Some (f l)) d"
  shows "tracks shrinks g cf (case rg_lives g sid of None \<Rightarrow> g | Some l \<Rightarrow> g\<lparr>rg_lives := (rg_lives g)(sid \<mapsto> f l)\<rparr>)"
proof (cases "rg_lives g sid")
  case (Some l)
  have "tracks shrinks g cf (g\<lparr>rg_lives := (rg_lives g)(sid \<mapsto> f l)\<rparr>)"
    by (rule tracks_silent [OF assms(1)]) (use Some assms(2) [OF Some] in \<open>auto\<close>)
  then show ?thesis by (simp add: Some)
qed (simp add: tracks_refl [OF assms(1)])

lemma tracks_touch: "matches_catalog g cf \<Longrightarrow> tracks shrinks g cf (touch_shape sid now g)"
  unfolding touch_shape_def by (rule tracks_life) (auto simp: life_matches_def)

lemma tracks_set_state:
  assumes "matches_catalog g cf"
    and "\<And>l d. rg_lives g sid = Some l \<Longrightarrow> life_matches (Some l) d \<Longrightarrow> life_matches (Some (l\<lparr>sl_state := st\<rparr>)) d"
  shows "tracks shrinks g cf (set_state sid st g)"
  unfolding set_state_def by (rule tracks_life [OF assms])

lemma tracks_park: "matches_catalog g cf \<Longrightarrow> tracks shrinks g cf (fst (deactivate_begin cfg now sid g))"
  by (auto simp: deactivate_begin_def life_matches_def tracks_refl intro: tracks_set_state split: option.split)

text \<open>A life that changes with an event of its own.\<close>

lemma tracks_life_event:
  assumes m: "matches_catalog g cf"
    and ev: "fold_apply ev = with_rec sid (\<lambda>(rec, sig, subs, d). (rec, sig, subs, d'))" "shrinks ev"
    and g': "g' = send_event ev (set_state sid st g)" and life: "\<And>l. life_matches (Some (l\<lparr>sl_state := st\<rparr>)) d'"
  shows "tracks shrinks g cf g'"
proof (rule tracks_one [OF m, where ev = ev and sid = sid])
  have f: "rg_shapes g' = rg_shapes g" "rg_feed_shares g' = rg_feed_shares g" "rg_events g' = rg_events g @ [ev]" "rg_next_shape_id g' = rg_next_shape_id g"
    "rg_lives g' = (\<lambda>a. if a = sid then map_option (\<lambda>l. l\<lparr>sl_state := st\<rparr>) (rg_lives g sid) else rg_lives g a)"
    unfolding g' by (auto simp: send_event_def set_state_def fun_eq_iff split: option.split)
  show "rg_events g' = rg_events g @ [ev]" by (rule f)
  show "rel_option (shape_matches (map_of (rg_feed_shares g') sid) (rg_lives g' sid)) (map_of (rg_shapes g') sid) (map_of (cf_recs (fold_apply ev cf)) sid)"
    using matches_at [OF m, of sid] life unfolding f ev(1)
    by (cases "map_of (rg_shapes g) sid"; cases "map_of (cf_recs cf) sid"; cases "rg_lives g sid")
      (auto simp: map_of_with_rec life_matches_def split: life_state.splits)
  show "k < rg_next_shape_id g'" if "cf_max_shape_id (fold_apply ev cf) = Some k" for k
    using that matches_max [OF m] unfolding f ev(1) by simp
  show "map_of (rg_shapes g') a = map_of (rg_shapes g) a \<and> map_of (rg_feed_shares g') a = map_of (rg_feed_shares g) a
      \<and> rg_lives g' a = rg_lives g a \<and> map_of (cf_recs (fold_apply ev cf)) a = map_of (cf_recs cf) a" if "a \<noteq> sid" for a
    using that unfolding f ev(1) by (simp add: map_of_with_rec)
qed (rule ev(2))

lemma tracks_parked:
  assumes m: "matches_catalog g cf" and st: "map_option sl_state (rg_lives g sid) \<in> {None, Some LifeDeactivating}"
  shows "tracks shrinks g cf (deactivate_settle now resp sid g)"
proof (cases "rg_lives g sid")
  case (Some life)
  show ?thesis
  proof (cases resp)
    case None
    have "tracks shrinks g cf (set_state sid LifeActive g)" using st by (intro tracks_set_state [OF m]) (auto simp: life_matches_def)
    then show ?thesis using tracks_trans [OF _ tracks_touch] Some None by (simp add: deactivate_settle_def)
  next
    case (Some r)
    obtain resume gate where r: "r = (resume, gate)" by (cases r)
    have "tracks shrinks g cf (send_event (EvDormant sid resume gate) (set_state sid (LifeDormant now resume gate) g))"
      by (rule tracks_life_event [OF m, of "EvDormant sid resume gate" sid "Some (resume, gate)"]) (auto simp: life_matches_def)
    then show ?thesis using Some r \<open>rg_lives g sid = Some life\<close> by (simp add: deactivate_settle_def)
  qed
qed (simp add: deactivate_settle_def tracks_refl [OF m])

lemma tracks_wake: "matches_catalog g cf \<Longrightarrow> tracks shrinks g cf (fst (ensure_active_step now sid g))"
proof -
  assume m: "matches_catalog g cf"
  show ?thesis
  proof (cases "rg_lives g sid")
    case (Some life)
    have t: "tracks shrinks g cf (touch_shape sid now g)" by (rule tracks_touch [OF m])
    have "tracks shrinks g cf (set_state sid (LifeReactivating resume) (touch_shape sid now g))" if "sl_state life = LifeDormant a resume gate" for a resume gate
      by (rule tracks_trans [OF t tracks_set_state]) (use Some that in \<open>auto simp: touch_shape_def life_matches_def\<close>)
    then show ?thesis using Some t by (auto simp: ensure_active_step_def Let_def split: life_state.split)
  qed (simp add: ensure_active_step_def tracks_refl [OF m])
qed

lemma tracks_woken:
  assumes m: "matches_catalog g cf" and g: "registry_inv g" and st: "map_option sl_state (rg_lives g sid) \<in> {None, Some (LifeReactivating resume)}"
  shows "tracks shrinks g cf (reactivate_settle cfg now out reply sid resume gate g)"
proof (cases out)
  case WokenUp
  have "tracks shrinks g cf (set_state sid LifeActive (send_event (EvReactivated sid) g))"
    by (rule tracks_life_event [OF m, of "EvReactivated sid" sid None _ LifeActive])
      (auto simp: life_matches_def send_event_def set_state_def split: option.split)
  then show ?thesis using tracks_trans [OF _ tracks_touch] by (simp add: reactivate_settle_def WokenUp)
next
  case (WakeEvict reason)
  have "tracks shrinks g cf (set_state sid (LifeDormant now resume gate) g)" using st by (intro tracks_set_state [OF m]) (auto simp: life_matches_def)
  then show ?thesis using tracks_trans [OF _ tracks_evict] inv_set_state [OF g] by (simp add: reactivate_settle_def WakeEvict)
next
  case WakeFailed
  then show ?thesis using st by (auto simp: reactivate_settle_def life_matches_def intro!: tracks_set_state [OF m])
qed

lemma tracks_release:
  assumes m: "matches_catalog g cf"
  shows "tracks shrinks g cf (release_subscription sid sub now g)"
proof -
  have leave: "unsubscribe sid s g = (g1, True) \<Longrightarrow> tracks shrinks g cf (send_event (EvLeft sid s False) g1)"
    "unsubscribe sid s g = (g1, False) \<Longrightarrow> tracks shrinks g cf g1" for s g1
    using tracks_leave [OF m, of sid s False] tracks_refl [OF m] by (auto simp: unsubscribe_def split: option.splits if_splits)
  have "tracks shrinks g cf (case snd r of None \<Rightarrow> fst r | Some s \<Rightarrow> send_event (EvLeft sid s False) (fst r))"
    if "r = (case sub of Some s \<Rightarrow> (case unsubscribe sid s g of (g1, removed) \<Rightarrow> (g1, if removed then Some s else None)) | None \<Rightarrow> unsubscribe_anonymous sid g)" for r
    using leave tracks_refl [OF m] unfolding that unsubscribe_anonymous_def
    by (cases sub) (auto split: prod.split option.split if_splits)
  from tracks_trans [OF this [OF refl] tracks_touch] show ?thesis by (simp add: release_subscription_def split_beta)
qed

lemma tracks_create:
  assumes m: "matches_catalog g cf" and g: "registry_inv g" and n: "rg_next_shape_id g \<le> u64_max" "t1 \<le> t2"
  shows "tracks event_ok g cf (fst (create_or_join resolving deps refused tmpl feed_sig sub t1 t2 now g))
    \<and> length (rg_events (fst (create_or_join resolving deps refused tmpl feed_sig sub t1 t2 now g))) \<le> Suc (length (rg_events g))"
proof (cases "try_join resolving deps feed_sig sub t1 g")
  case None
  have "length (rg_events (fst (register_shape refused tmpl feed_sig sub t1 t2 now g))) \<le> Suc (length (rg_events g))"
    by (cases feed_sig) (simp_all add: register_shape_def Let_def send_event_def subscribe_def update_conv')
  then show ?thesis using None tracks_register [OF m g n, of refused tmpl feed_sig sub now] tracks_refl [OF m]
    by (simp add: create_or_join_def split_beta split: sum.split)
next
  case (Some r)
  then obtain sid rec where sid: "Option.bind feed_sig (rg_feed_by_sig g) = Some sid" "map_of (rg_shapes g) sid = Some rec"
    by (auto simp: try_join_def split: option.splits)
  then have share: "map_of (rg_feed_shares g) sid \<noteq> None" using g by (cases feed_sig) (auto simp: inv_defs)
  have "length (rg_events (fst (subscribe sid sub t1 g))) = length (rg_events g)" by (simp add: subscribe_def split: option.split)
  then show ?thesis using Some sid tracks_join [OF m share, of sub t1] tracks_refl [OF m]
    by (auto simp: create_or_join_def try_join_def send_event_def split: sum.splits prod.splits)
qed

lemma tracks_reset:
  assumes m: "matches_catalog g cf" and g: "registry_inv g"
  shows "tracks shrinks g cf (fst (reset_epoch replies d slot g))"
proof -
  let ?g = "g\<lparr>rg_epoch_gen := rg_epoch_gen g + 1\<rparr>"
  have "matches_catalog ?g cf" "registry_inv ?g" using m g by (simp_all add: matches_catalog_def)
  from tracks_purges [OF this, of replies "map fst (rg_shapes g)"]
  have p: "tracks shrinks g cf (fold (\<lambda>sid. purge_shape (replies sid) sid) (map fst (rg_shapes g)) ?g)" by (simp add: tracks_def)
  show ?thesis using p tracks_trans [OF p tracks_side [of _ _ "EvSlotBound _"]] by (simp add: reset_epoch_def Let_def split: sum.split)
qed

lemma tracks_drift:
  assumes m: "matches_catalog g cf" and g: "registry_inv g"
  shows "tracks shrinks g cf (retire_dependents replies t g)" and "tracks shrinks g cf (swap_table_schema t ts g)"
    and "tracks shrinks g cf (mark_unresolved replies t g)" and "tracks shrinks g cf (handle_dropped_table replies t g)"
proof -
  let ?g = "g\<lparr>rg_schema_gen := (rg_schema_gen g)(t \<mapsto> gen_of g t + 1)\<rparr>"
  have "matches_catalog ?g cf" "registry_inv ?g" using m g by (simp_all add: matches_catalog_def)
  from tracks_purges [OF this, of replies "snd (bump_and_enumerate t g)"]
  show r: "tracks shrinks g cf (retire_dependents replies t g)" by (simp add: tracks_def retire_dependents_def bump_and_enumerate_def)
  have swap: "tracks shrinks h cf' (swap_table_schema t ts h)" if "matches_catalog h cf'" for h cf' ts
    by (rule tracks_silent [OF that]) (simp_all add: swap_table_schema_def)
  show "tracks shrinks g cf (swap_table_schema t ts g)" by (rule swap [OF m])
  show "tracks shrinks g cf (handle_dropped_table replies t g)" unfolding handle_dropped_table_def by (rule tracks_trans [OF r swap])
  show "tracks shrinks g cf (mark_unresolved replies t g)" using r by (simp add: mark_unresolved_def tracks_def matches_catalog_def Let_def)
qed

lemma tracks_publish: "matches_catalog g cf \<Longrightarrow> tracks shrinks g cf (publish_outcome sid out g)"
proof -
  assume m: "matches_catalog g cf"
  show ?thesis
  proof (cases "map_of (rg_feed_shares g) sid")
    case (Some share)
    have "tracks shrinks g cf (g\<lparr>rg_feed_shares := AList.update sid (share\<lparr>fs_ready := out\<rparr>) (rg_feed_shares g)\<rparr>)"
      by (rule tracks_silent [OF m]) (use Some in \<open>auto simp: update_conv'\<close>)
    then show ?thesis by (simp add: publish_outcome_def Some)
  qed (simp add: publish_outcome_def tracks_refl [OF m])
qed

lemma tracks_renew:
  assumes m: "matches_catalog g cf" and g: "registry_inv g" and sub: "rg_subs_by_id g sub = Some sid"
  shows "tracks shrinks g cf (renew_subscription_local sid sub t g)"
proof -
  obtain share l where share: "map_of (rg_feed_shares g) sid = Some share" "map_of (fs_subs share) sub = Some l"
    using owner_claim [OF _ sub] g by (auto simp: registry_inv_def)
  show ?thesis by (rule tracks_silent [OF m])
      (use share in \<open>auto simp: renew_subscription_local_def subscribe_def update_conv' intro: claims_renew_mem\<close>)
qed

lemma tracks_mint: "matches_catalog g cf \<Longrightarrow> tracks shrinks g cf (fst (resolve_subscription nonce sub g))"
  by (rule tracks_silent) (auto simp: resolve_subscription_def mint_subscription_def split: option.split)

lemmas tracks_ops = tracks_mint tracks_publish tracks_release tracks_renew tracks_sweep tracks_purge tracks_evict tracks_rollback tracks_touch tracks_park
  tracks_parked tracks_wake tracks_woken tracks_drift tracks_reset tracks_side

definition step_events :: "catalog_event list \<Rightarrow> bool" where
  "step_events evs \<longleftrightarrow> list_all event_ok evs \<and> (list_all shrinks evs \<or> length evs \<le> 1)"

lemma tracks_shrinking: "tracks shrinks g cf g' \<Longrightarrow> \<exists>evs. rg_events g' = rg_events g @ evs \<and> step_events evs \<and> matches_catalog g' (fold fold_apply evs cf)"
  by (auto simp: tracks_def step_events_def list_all_iff intro: shrinks_ok)

lemma step_tracks:
  assumes "registry_step g g'" and "registry_inv g" and "matches_catalog g cf"
  shows "\<exists>evs. rg_events g' = rg_events g @ evs \<and> step_events evs \<and> matches_catalog g' (fold fold_apply evs cf)"
  using assms
proof (induction rule: registry_step.induct)
  case (step_create g t1 t2 resolving deps refused tmpl feed_sig sub now)
  from tracks_create [OF step_create.prems(2,1) step_create.hyps, of resolving deps refused tmpl feed_sig sub now]
  show ?case by (auto simp: tracks_def step_events_def)
qed ((rule tracks_shrinking, (rule tracks_ops; assumption))+)

section \<open>Folds a restart can install\<close>

text \<open>Keys are distinct, and every id is one the counter has passed.\<close>

definition fold_keys :: "catalog_fold \<Rightarrow> bool" where
  "fold_keys cf \<longleftrightarrow> distinct (map fst (cf_recs cf)) \<and>
     (\<forall>sid rec sig subs d. map_of (cf_recs cf) sid = Some (rec, sig, subs, d) \<longrightarrow>
        distinct (map fst subs) \<and> (\<exists>n k. sid = shape_id n \<and> cf_max_shape_id cf = Some k \<and> n \<le> k))"

definition signed :: "catalog_fold \<Rightarrow> string \<Rightarrow> string \<Rightarrow> bool" where
  "signed cf sid s \<longleftrightarrow> (\<exists>rec subs d. map_of (cf_recs cf) sid = Some (rec, Some s, subs, d))"

definition claimed :: "catalog_fold \<Rightarrow> string \<Rightarrow> string \<Rightarrow> bool" where
  "claimed cf sid sub \<longleftrightarrow> (\<exists>rec s subs d. map_of (cf_recs cf) sid = Some (rec, Some s, subs, d) \<and> map_of subs sub \<noteq> None)"

text \<open>A record says its own id and stream; a signature is one shape's, and so is a claim.\<close>

definition fold_excl :: "catalog_fold \<Rightarrow> bool" where
  "fold_excl cf \<longleftrightarrow> (\<forall>sid r. map_of (cf_recs cf) sid = Some r \<longrightarrow> sr_id (fst r) = sid \<and> sr_stream_path (fst r) = shape_stream sid)
     \<and> (\<forall>a b s. signed cf a s \<longrightarrow> signed cf b s \<longrightarrow> a = b) \<and> (\<forall>a b sub. claimed cf a sub \<longrightarrow> claimed cf b sub \<longrightarrow> a = b)"

lemma fold_keys_with_rec:
  assumes "fold_keys cf" and "\<And>rec sig subs d. distinct (map fst subs) \<Longrightarrow> distinct (map fst (fst (snd (snd (f (rec, sig, subs, d))))))"
  shows "fold_keys (with_rec sid f cf)"
proof (cases "map_of (cf_recs cf) sid")
  case (Some r)
  obtain rec sig subs d where r: "r = (rec, sig, subs, d)" by (cases r)
  have "distinct (map fst subs)" using assms(1) Some r unfolding fold_keys_def by blast
  from assms(2) [OF this, of rec sig d] show ?thesis using assms(1) Some r
    by (auto simp: fold_keys_def with_rec_def update_conv' distinct_update split: if_splits)
qed (use assms(1) in \<open>simp add: with_rec_def\<close>)

lemma shape_id_num_id: "n \<le> u64_max \<Longrightarrow> shape_id_num (shape_id n) = Some n"
  by (simp add: shape_id_num_def shape_id_def)

lemma fold_keys_apply: "fold_keys cf \<Longrightarrow> event_ok ev \<Longrightarrow> fold_keys (fold_apply ev cf)"
proof (induction ev cf rule: fold_apply.induct)
  case (2 rec sig sub t cf)
  then obtain n where n: "n \<le> u64_max" "sr_id rec = shape_id n" by auto
  note num = shape_id_num_id [OF n(1)]
  let ?cf = "fold_apply (EvCreated rec sig sub t) cf"
  obtain K where K: "cf_max_shape_id ?cf = Some K" "n \<le> K" "\<And>k. cf_max_shape_id cf = Some k \<Longrightarrow> k \<le> K"
    by (cases "cf_max_shape_id cf") (auto simp: num n(2) Let_def)
  have recs: "map_of (cf_recs ?cf) = (map_of (cf_recs cf))(shape_id n \<mapsto> (rec, sig, [(sub, t)], None))" and keys: "distinct (map fst (cf_recs ?cf))"
    using 2(1) by (simp_all add: num n(2) Let_def update_conv' fold_keys_def distinct_update)
  have "distinct (map fst subs) \<and> (\<exists>n k. sid = shape_id n \<and> cf_max_shape_id ?cf = Some k \<and> n \<le> k)"
    if "map_of (cf_recs ?cf) sid = Some (rec', sig', subs, d)" for sid rec' sig' subs d
  proof (cases "sid = shape_id n")
    case False
    with that 2(1) obtain m k where "distinct (map fst subs)" "sid = shape_id m" "cf_max_shape_id cf = Some k" "m \<le> k"
      unfolding recs fold_keys_def by (metis fun_upd_other)
    with K show ?thesis by (metis order_trans)
  qed (use that K(1,2) recs in \<open>auto simp del: fold_apply.simps\<close>)
  with keys show ?case unfolding fold_keys_def by blast
next
  case (3 sid sub t cf)
  then show ?case by (auto intro: fold_keys_with_rec)
next
  case (4 sid sub l cf)
  then show ?case by (simp, intro fold_keys_with_rec) (simp_all add: distinct_delete)
next
  case (5 sid resume gate cf)
  then show ?case by (auto intro: fold_keys_with_rec)
next
  case (6 sid cf)
  then show ?case by (auto intro: fold_keys_with_rec)
next
  case (7 sid rows bytes cf)
  then show ?case by (auto intro: fold_keys_with_rec)
next
  case (8 sid cf)
  then show ?case by (auto simp: fold_keys_def distinct_delete split: option.split prod.split if_splits)
qed (auto simp: fold_keys_def)

lemma unsized_eq: "unsized rec = unsized rec0 \<Longrightarrow> sr_id rec = sr_id rec0 \<and> sr_stream_path rec = sr_stream_path rec0"
  by (cases rec; cases rec0) (simp add: unsized_def)

text \<open>A fold that holds less of another.\<close>

lemma fold_excl_shrink:
  assumes "fold_excl cf" and "\<And>sid rec sig subs d. map_of (cf_recs cf') sid = Some (rec, sig, subs, d) \<Longrightarrow>
      \<exists>rec0 subs0 d0. map_of (cf_recs cf) sid = Some (rec0, sig, subs0, d0) \<and> unsized rec = unsized rec0 \<and> (\<forall>sub. map_of subs sub \<noteq> None \<longrightarrow> map_of subs0 sub \<noteq> None)"
  shows "fold_excl cf'"
proof -
  have "signed cf' a s \<Longrightarrow> signed cf a s" "claimed cf' a sub \<Longrightarrow> claimed cf a sub" for a s sub
    using assms(2) unfolding signed_def claimed_def by fastforce+
  moreover have "sr_id (fst r) = sid \<and> sr_stream_path (fst r) = shape_stream sid" if "map_of (cf_recs cf') sid = Some r" for sid r
  proof -
    obtain rec sig subs d where r: "r = (rec, sig, subs, d)" by (cases r)
    from assms(2) [of sid rec sig subs d] that r obtain rec0 subs0 d0 where "map_of (cf_recs cf) sid = Some (rec0, sig, subs0, d0)" "unsized rec = unsized rec0" by blast
    then show ?thesis using assms(1) unsized_eq [of rec rec0] r unfolding fold_excl_def by fastforce
  qed
  ultimately show ?thesis using assms(1) unfolding fold_excl_def by metis
qed

lemma shrink_recs:
  assumes "shrinks ev" and "map_of (cf_recs (fold_apply ev cf)) sid = Some (rec, sig, subs, d)"
  shows "\<exists>rec0 subs0 d0. map_of (cf_recs cf) sid = Some (rec0, sig, subs0, d0) \<and> unsized rec = unsized rec0 \<and> (\<forall>sub. map_of subs sub \<noteq> None \<longrightarrow> map_of subs0 sub \<noteq> None)"
proof (cases ev)
  case (EvDropped a)
  then have "map_of (cf_recs cf) sid = Some (rec, sig, subs, d)" using assms(2) by (auto split: option.splits if_splits)
  then show ?thesis by blast
qed (use assms in \<open>auto simp: map_of_with_rec split: if_splits\<close>)

lemma fold_excl_apply: "fold_excl cf \<Longrightarrow> shrinks ev \<Longrightarrow> fold_excl (fold_apply ev cf)"
  using fold_excl_shrink [of cf "fold_apply ev cf"] shrink_recs [of ev cf] by blast

lemma fold_excl_matches:
  assumes "registry_inv g" and "matches_catalog g cf"
  shows "fold_excl cf"
proof -
  have so: "subs_ok g" "sigs_ok g" "ids_ok g" using assms(1) by (simp_all add: registry_inv_def)
  have at: "\<exists>rec0. map_of (rg_shapes g) sid = Some rec0 \<and> shape_matches (map_of (rg_feed_shares g) sid) (rg_lives g sid) rec0 r" if "map_of (cf_recs cf) sid = Some r" for sid r
    using matches_at [OF assms(2), of sid] that by (cases "map_of (rg_shapes g) sid") auto
  have ids: "sr_id (fst r) = sid \<and> sr_stream_path (fst r) = shape_stream sid" if r: "map_of (cf_recs cf) sid = Some r" for sid r
  proof -
    obtain rec sig subs d where r4: "r = (rec, sig, subs, d)" by (cases r)
    from at [OF r] obtain rec0 where "map_of (rg_shapes g) sid = Some rec0" "unsized rec = unsized rec0" unfolding r4 by auto
    then show ?thesis using so(3) unsized_eq [of rec rec0] unfolding r4 ids_ok_def by auto
  qed
  have sg: "rg_feed_by_sig g s = Some a" if "signed cf a s" for a s
  proof -
    from that obtain rec subs d where "map_of (cf_recs cf) a = Some (rec, Some s, subs, d)" by (auto simp: signed_def)
    from at [OF this] show ?thesis using sig_owner [OF so(2), of a] by (cases "map_of (rg_feed_shares g) a") auto
  qed
  have cl: "rg_subs_by_id g sub = Some a" if claimed: "claimed cf a sub" for a sub
  proof -
    from claimed obtain rec s subs d where "map_of (cf_recs cf) a = Some (rec, Some s, subs, d)" "map_of subs sub \<noteq> None" by (auto simp: claimed_def)
    from at [OF this(1)] obtain share where "map_of (rg_feed_shares g) a = Some share" "claims_match subs (fs_subs share)"
      by (cases "map_of (rg_feed_shares g) a") auto
    moreover from this(2) \<open>map_of subs sub \<noteq> None\<close> obtain t where "map_of (fs_subs share) sub = Some t"
      unfolding claims_match_def by (metis option.exhaust)
    ultimately show ?thesis using claim_owner [OF so(1)] by blast
  qed
  have "a = b" if "signed cf a s" "signed cf b s" for a b s using sg [OF that(1)] sg [OF that(2)] by simp
  moreover have "a = b" if "claimed cf a sub" "claimed cf b sub" for a b sub using cl [OF that(1)] cl [OF that(2)] by simp
  ultimately show ?thesis unfolding fold_excl_def using ids by blast
qed

section \<open>What the installation leaves\<close>

lemma inv_add_record:
  assumes "registry_inv g" and "sid = shape_id n" "n < rg_next_shape_id g" and "sr_id rec = sid" "sr_stream_path rec = shape_stream sid"
  shows "registry_inv (g\<lparr>rg_shapes := AList.update sid rec (rg_shapes g)\<rparr>)"
  using assms by (auto simp: inv_defs update_conv' distinct_update split: if_splits)

lemma inv_add_life: "registry_inv g \<Longrightarrow> map_of (rg_shapes g) sid \<noteq> None \<Longrightarrow> registry_inv (g\<lparr>rg_lives := (rg_lives g)(sid \<mapsto> life)\<rparr>)"
  by (auto simp: inv_defs)

lemma restore_subs:
  assumes "registry_inv g" and "map_of (rg_feed_shares g) sid = Some share" and "distinct (map fst subs)"
    and "\<And>sub. sub \<in> fst ` set subs \<Longrightarrow> rg_subs_by_id g sub = None"
  shows "let g' = fold (\<lambda>(sub, t) h. fst (subscribe sid sub t h)) subs g in
     registry_inv g' \<and> (\<exists>share'. map_of (rg_feed_shares g') = (map_of (rg_feed_shares g))(sid \<mapsto> share') \<and> fs_sig share' = fs_sig share
       \<and> map_of (fs_subs share') = map_of (fs_subs share) ++ map_of subs)
     \<and> rg_subs_by_id g' = (\<lambda>sub. if sub \<in> fst ` set subs then Some sid else rg_subs_by_id g sub)
     \<and> rg_shapes g' = rg_shapes g \<and> rg_lives g' = rg_lives g \<and> rg_events g' = rg_events g \<and> rg_next_shape_id g' = rg_next_shape_id g
     \<and> rg_feed_by_sig g' = rg_feed_by_sig g \<and> rg_retiring g' = rg_retiring g"
  using assms
proof (induction subs arbitrary: g share)
  case Nil
  then show ?case by (auto simp: Let_def fun_eq_iff)
next
  case (Cons x subs)
  obtain sub t where x: "x = (sub, t)" by (cases x)
  let ?g1 = "fst (subscribe sid sub t g)" and ?share1 = "share\<lparr>fs_subs := renew sub t (fs_subs share)\<rparr>"
  have free: "rg_subs_by_id g sub = None" using Cons.prems(4) x by simp
  have inv1: "registry_inv ?g1" using inv_subscribe [OF Cons.prems(1)] free by blast
  have absent: "map_of (fs_subs share) sub = None"
    using claim_owner [of g sid share sub] Cons.prems(1,2) free by (cases "map_of (fs_subs share) sub") (auto simp: registry_inv_def)
  have f: "map_of (rg_feed_shares ?g1) = (map_of (rg_feed_shares g))(sid \<mapsto> ?share1)" "rg_subs_by_id ?g1 = (rg_subs_by_id g)(sub \<mapsto> sid)"
    "rg_shapes ?g1 = rg_shapes g" "rg_lives ?g1 = rg_lives g" "rg_events ?g1 = rg_events g" "rg_next_shape_id ?g1 = rg_next_shape_id g"
    "rg_feed_by_sig ?g1 = rg_feed_by_sig g" "rg_retiring ?g1 = rg_retiring g"
    using Cons.prems(2) by (simp_all add: subscribe_def update_conv')
  have sub: "sub \<notin> fst ` set subs" "distinct (map fst subs)" using Cons.prems(3) x by auto
  have "rg_subs_by_id ?g1 s = None" if "s \<in> fst ` set subs" for s using that sub(1) Cons.prems(4) x f(2) by auto
  note free1 = this
  have share1: "map_of (rg_feed_shares ?g1) sid = Some ?share1" by (simp add: f(1))
  have m1: "map_of (fs_subs ?share1) = (map_of (fs_subs share))(sub \<mapsto> t)" using absent by (simp add: map_of_renew)
  have m: "map_of (fs_subs ?share1) ++ map_of subs = map_of (fs_subs share) ++ map_of (x # subs)"
    unfolding m1 using sub(1) x by (simp add: map_add_upd_left dom_map_of_conv_image_fst)
  let ?g' = "fold (\<lambda>(sub, t) h. fst (subscribe sid sub t h)) subs ?g1"
  note IH = Cons.IH [OF inv1 share1 sub(2) free1, unfolded Let_def m]
  from IH obtain share' where share': "map_of (rg_feed_shares ?g') = (map_of (rg_feed_shares ?g1))(sid \<mapsto> share')" "fs_sig share' = fs_sig ?share1"
    "map_of (fs_subs share') = map_of (fs_subs share) ++ map_of (x # subs)" by blast
  have "map_of (rg_feed_shares ?g') = (map_of (rg_feed_shares g))(sid \<mapsto> share')" "fs_sig share' = fs_sig share"
    using share'(1,2) unfolding f(1) by (simp_all only: fun_upd_upd) simp
  with share'(3) have "\<exists>share'. map_of (rg_feed_shares ?g') = (map_of (rg_feed_shares g))(sid \<mapsto> share') \<and> fs_sig share' = fs_sig share
      \<and> map_of (fs_subs share') = map_of (fs_subs share) ++ map_of (x # subs)" by blast
  moreover have "rg_subs_by_id ?g' = (\<lambda>s. if s \<in> fst ` set (x # subs) then Some sid else rg_subs_by_id g s)"
  proof -
    have "rg_subs_by_id ?g' = (\<lambda>s. if s \<in> fst ` set subs then Some sid else rg_subs_by_id ?g1 s)" using IH by blast
    then show ?thesis by (auto simp: f(2) x fun_eq_iff)
  qed
  moreover have "fold (\<lambda>(sub, t) h. fst (subscribe sid sub t h)) (x # subs) g = ?g'" by (simp add: x)
  ultimately show ?case using IH unfolding Let_def f(3-8) by (simp only:)
qed

text \<open>One record of the fold, installed beside those already there.\<close>

definition installable :: "registry \<Rightarrow> string \<times> restored \<Rightarrow> bool" where
  "installable g = (\<lambda>(sid, rec, sig, subs, d).
     map_of (rg_shapes g) sid = None \<and> sr_id rec = sid \<and> sr_stream_path rec = shape_stream sid \<and> distinct (map fst subs)
     \<and> (\<exists>n < rg_next_shape_id g. sid = shape_id n)
     \<and> (\<forall>s. sig = Some s \<longrightarrow> rg_feed_by_sig g s = None \<and> (\<forall>sub \<in> fst ` set subs. rg_subs_by_id g sub = None)))"

lemma restore_share_ok:
  assumes g: "registry_inv g" and sid: "map_of (rg_shapes g) sid \<noteq> None" "map_of (rg_feed_shares g) sid = None" and subs: "distinct (map fst subs)"
    and sig: "\<And>s. sig = Some s \<Longrightarrow> rg_feed_by_sig g s = None \<and> (\<forall>sub \<in> fst ` set subs. rg_subs_by_id g sub = None)"
  shows "let g' = restore_share sid sig subs g in
     registry_inv g' \<and> (\<exists>share'. map_of (rg_feed_shares g') = (map_of (rg_feed_shares g))(sid := share') \<and> map_option fs_sig share' = sig
       \<and> (\<forall>sh. share' = Some sh \<longrightarrow> map_of (fs_subs sh) = map_of subs))
     \<and> rg_subs_by_id g' = (\<lambda>sub. if sig \<noteq> None \<and> sub \<in> fst ` set subs then Some sid else rg_subs_by_id g sub)
     \<and> rg_shapes g' = rg_shapes g \<and> rg_lives g' = rg_lives g \<and> rg_events g' = rg_events g \<and> rg_next_shape_id g' = rg_next_shape_id g
     \<and> rg_feed_by_sig g' = (case sig of None \<Rightarrow> rg_feed_by_sig g | Some s \<Rightarrow> (rg_feed_by_sig g)(s \<mapsto> sid)) \<and> rg_retiring g' = rg_retiring g"
proof (cases sig)
  case None
  then show ?thesis using g sid(2) by (auto simp: restore_share_def Let_def intro!: exI [of _ None])
next
  case (Some s)
  let ?share = "\<lparr>fs_sig = s, fs_subs = [], fs_ready = ShareReady\<rparr>"
  let ?g = "g\<lparr>rg_feed_by_sig := (rg_feed_by_sig g)(s \<mapsto> sid), rg_feed_shares := AList.update sid ?share (rg_feed_shares g)\<rparr>"
  have "registry_inv ?g" using inv_add_share [OF g sid, of ?share] sig [OF Some] by simp
  from restore_subs [OF this _ subs, of sid ?share] sig [OF Some] show ?thesis
    by (auto simp: restore_share_def Some Let_def update_conv')
qed

text \<open>What is left of a record in the registry, and what of its neighbours.\<close>

definition holds :: "(table_ref \<Rightarrow> tschema option) \<Rightarrow> registry \<Rightarrow> string \<Rightarrow> restored option \<Rightarrow> bool" where
  "holds compiled g sid r = (case r of
       Some (rec, sig, subs, d) \<Rightarrow>
         if resumable compiled rec
         then map_of (rg_shapes g) sid = Some rec \<and> map_option fs_sig (map_of (rg_feed_shares g) sid) = sig
           \<and> (\<forall>sh. map_of (rg_feed_shares g) sid = Some sh \<longrightarrow> map_of (fs_subs sh) = map_of subs)
           \<and> rg_lives g sid \<noteq> None \<and> life_matches (rg_lives g sid) d
         else map_of (rg_shapes g) sid = None
     | None \<Rightarrow> map_of (rg_shapes g) sid = None)"

lemma restore_one_ok:
  assumes g: "registry_inv g" and x: "installable g (sid, rec, sig, subs, d)" and res: "resumable compiled rec"
  shows "\<exists>g'. restore_one compiled now (sid, rec, sig, subs, d) (g, dead, resume) = (g', dead, if d = None then resume @ [rec] else resume)
     \<and> registry_inv g' \<and> holds compiled g' sid (Some (rec, sig, subs, d))
     \<and> (\<forall>a. a \<noteq> sid \<longrightarrow> map_of (rg_shapes g') a = map_of (rg_shapes g) a \<and> map_of (rg_feed_shares g') a = map_of (rg_feed_shares g) a \<and> rg_lives g' a = rg_lives g a)
     \<and> rg_events g' = rg_events g \<and> rg_next_shape_id g' = rg_next_shape_id g \<and> rg_retiring g' = rg_retiring g
     \<and> (\<forall>s. sig \<noteq> Some s \<longrightarrow> rg_feed_by_sig g' s = rg_feed_by_sig g s)
     \<and> (\<forall>sub. \<not> (sig \<noteq> None \<and> sub \<in> fst ` set subs) \<longrightarrow> rg_subs_by_id g' sub = rg_subs_by_id g sub)"
proof -
  let ?g1 = "g\<lparr>rg_shapes := AList.update sid rec (rg_shapes g)\<rparr>" and ?st = "case d of Some (p, gate) \<Rightarrow> LifeDormant now p gate | None \<Rightarrow> LifeActive"
  let ?life = "\<lparr>sl_last_read = now, sl_state = ?st\<rparr>"
  obtain n where n: "n < rg_next_shape_id g" "sid = shape_id n" using x by (auto simp: installable_def)
  have inv1: "registry_inv ?g1" using inv_add_record [OF g n(2,1), of rec] x by (simp add: installable_def)
  have none: "map_of (rg_feed_shares g) sid = None" using unregister_absent [OF g] x by (simp add: installable_def)
  have "registry_inv (restore_share sid sig subs ?g1)"
    and shares: "\<exists>share'. map_of (rg_feed_shares (restore_share sid sig subs ?g1)) = (map_of (rg_feed_shares g))(sid := share') \<and> map_option fs_sig share' = sig
       \<and> (\<forall>sh. share' = Some sh \<longrightarrow> map_of (fs_subs sh) = map_of subs)"
    and f: "rg_shapes (restore_share sid sig subs ?g1) = rg_shapes ?g1" "rg_lives (restore_share sid sig subs ?g1) = rg_lives g"
      "rg_events (restore_share sid sig subs ?g1) = rg_events g" "rg_next_shape_id (restore_share sid sig subs ?g1) = rg_next_shape_id g"
      "rg_retiring (restore_share sid sig subs ?g1) = rg_retiring g"
      "rg_feed_by_sig (restore_share sid sig subs ?g1) = (case sig of None \<Rightarrow> rg_feed_by_sig ?g1 | Some s \<Rightarrow> (rg_feed_by_sig ?g1)(s \<mapsto> sid))"
      "rg_subs_by_id (restore_share sid sig subs ?g1) = (\<lambda>sub. if sig \<noteq> None \<and> sub \<in> fst ` set subs then Some sid else rg_subs_by_id ?g1 sub)"
    using restore_share_ok [OF inv1, of sid subs sig] none x by (simp_all add: installable_def Let_def update_conv')
  moreover from shares obtain share' where share': "map_of (rg_feed_shares (restore_share sid sig subs ?g1)) = (map_of (rg_feed_shares g))(sid := share')"
    "map_option fs_sig share' = sig" "\<forall>sh. share' = Some sh \<longrightarrow> map_of (fs_subs sh) = map_of subs" by blast
  let ?g' = "(restore_share sid sig subs ?g1)\<lparr>rg_lives := (rg_lives (restore_share sid sig subs ?g1))(sid \<mapsto> ?life)\<rparr>"
  have "registry_inv ?g'" using inv_add_life [OF calculation(1), of sid ?life] by (simp add: f(1) update_conv')
  moreover have "holds compiled ?g' sid (Some (rec, sig, subs, d))" using res share'
    by (auto simp: holds_def f(1) update_conv' life_matches_def split: option.split)
  moreover have "restore_one compiled now (sid, rec, sig, subs, d) (g, dead, resume) = (?g', dead, if d = None then resume @ [rec] else resume)"
    using res by (simp add: restore_one_def Let_def f(2))
  ultimately show ?thesis using share'(1) by (intro exI [of _ ?g']) (auto simp: f update_conv' split: option.split)
qed

fun apart :: "string \<times> restored \<Rightarrow> string \<times> restored \<Rightarrow> bool" where
  "apart (a, ra, siga, subsa, da) (b, rb, sigb, subsb, db) \<longleftrightarrow> a \<noteq> b \<and> (siga = sigb \<longrightarrow> siga = None)
     \<and> (siga \<noteq> None \<and> sigb \<noteq> None \<longrightarrow> fst ` set subsa \<inter> fst ` set subsb = {})"

abbreviation dropped :: "(table_ref \<Rightarrow> tschema option) \<Rightarrow> (string \<times> restored) list \<Rightarrow> (string \<times> restored) list" where
  "dropped compiled xs \<equiv> filter (\<lambda>x. \<not> resumable compiled (fst (snd x))) xs"

lemma installable_send [simp]: "installable (send_event ev g) x = installable g x"
  by (cases x) (simp add: installable_def send_event_def)

lemma restore_all_ok:
  assumes "registry_inv g" and "\<And>x. x \<in> set xs \<Longrightarrow> installable g x" and "sorted_wrt apart xs"
  shows "\<exists>g' resume'. fold (restore_one compiled now) xs (g, dead, resume)
        = (g', dead @ map (\<lambda>x. (fst x, sr_stream_path (fst (snd x)))) (dropped compiled xs), resume')
     \<and> registry_inv g' \<and> (\<forall>sid \<in> fst ` set xs. holds compiled g' sid (map_of xs sid))
     \<and> (\<forall>a. a \<notin> fst ` set xs \<longrightarrow> map_of (rg_shapes g') a = map_of (rg_shapes g) a \<and> map_of (rg_feed_shares g') a = map_of (rg_feed_shares g) a \<and> rg_lives g' a = rg_lives g a)
     \<and> rg_events g' = rg_events g @ map (\<lambda>x. EvDropped (fst x)) (dropped compiled xs)
     \<and> rg_next_shape_id g' = rg_next_shape_id g \<and> rg_retiring g' = rg_retiring g"
  using assms
proof (induction xs arbitrary: g dead resume)
  case (Cons x xs)
  obtain sid rec sig subs d where x: "x = (sid, rec, sig, subs, d)" by (cases x)
  have sid: "sid \<notin> fst ` set xs" using Cons.prems(3) x by fastforce
  have inst: "installable g (sid, rec, sig, subs, d)" using Cons.prems(2) x by simp
  have rest: "sorted_wrt apart xs" using Cons.prems(3) by simp
  show ?case
  proof (cases "resumable compiled rec")
    case False
    have inv1: "registry_inv (send_event (EvDropped sid) g)" using Cons.prems(1) by simp
    have inst1: "installable (send_event (EvDropped sid) g) y" if "y \<in> set xs" for y using Cons.prems(2) that by simp
    from Cons.IH [OF inv1 inst1 rest, of "dead @ [(sid, sr_stream_path rec)]" resume]
    obtain g' resume' where g': "fold (restore_one compiled now) xs (send_event (EvDropped sid) g, dead @ [(sid, sr_stream_path rec)], resume)
        = (g', (dead @ [(sid, sr_stream_path rec)]) @ map (\<lambda>x. (fst x, sr_stream_path (fst (snd x)))) (dropped compiled xs), resume')"
      "registry_inv g'" "\<forall>sid \<in> fst ` set xs. holds compiled g' sid (map_of xs sid)"
      "\<forall>a. a \<notin> fst ` set xs \<longrightarrow> map_of (rg_shapes g') a = map_of (rg_shapes (send_event (EvDropped sid) g)) a \<and> map_of (rg_feed_shares g') a = map_of (rg_feed_shares (send_event (EvDropped sid) g)) a \<and> rg_lives g' a = rg_lives (send_event (EvDropped sid) g) a"
      "rg_events g' = rg_events (send_event (EvDropped sid) g) @ map (\<lambda>x. EvDropped (fst x)) (dropped compiled xs)"
      "rg_next_shape_id g' = rg_next_shape_id (send_event (EvDropped sid) g) \<and> rg_retiring g' = rg_retiring (send_event (EvDropped sid) g)" by blast
    note g' = g'(1-3) g'(4-6) [unfolded send_event_def, simplified]
    have "holds compiled g' sid (map_of (x # xs) sid)" using g'(4) sid inst False x by (simp add: holds_def installable_def)
    then have "\<forall>a \<in> fst ` set (x # xs). holds compiled g' a (map_of (x # xs) a)" using g'(3) sid x by (auto simp: image_iff)
    moreover have "restore_one compiled now x (g, dead, resume) = (send_event (EvDropped sid) g, dead @ [(sid, sr_stream_path rec)], resume)"
      using False by (simp add: x restore_one_def drop_restored_def)
    ultimately show ?thesis using g' False x by (intro exI [of _ g'] exI [of _ resume']) simp
  next
    case True
    from restore_one_ok [OF Cons.prems(1) inst True, of now dead resume] obtain g1 where g1:
      "restore_one compiled now x (g, dead, resume) = (g1, dead, if d = None then resume @ [rec] else resume)"
      "registry_inv g1" "holds compiled g1 sid (Some (rec, sig, subs, d))"
      "\<forall>a. a \<noteq> sid \<longrightarrow> map_of (rg_shapes g1) a = map_of (rg_shapes g) a \<and> map_of (rg_feed_shares g1) a = map_of (rg_feed_shares g) a \<and> rg_lives g1 a = rg_lives g a"
      "rg_events g1 = rg_events g" "rg_next_shape_id g1 = rg_next_shape_id g" "rg_retiring g1 = rg_retiring g"
      "\<forall>s. sig \<noteq> Some s \<longrightarrow> rg_feed_by_sig g1 s = rg_feed_by_sig g s"
      "\<forall>sub. \<not> (sig \<noteq> None \<and> sub \<in> fst ` set subs) \<longrightarrow> rg_subs_by_id g1 sub = rg_subs_by_id g sub" by (auto simp: x)
    have "installable g1 y" if y: "y \<in> set xs" for y
    proof -
      obtain b rb sigb subsb db where yb: "y = (b, rb, sigb, subsb, db)" by (cases y)
      have "installable g y" "apart x y" using Cons.prems(2,3) y by auto
      then show ?thesis using g1(4,6,8,9) unfolding yb x by (fastforce simp: installable_def)
    qed
    from Cons.IH [OF g1(2) this rest] obtain g' resume' where g': "fold (restore_one compiled now) xs (g1, dead, if d = None then resume @ [rec] else resume)
        = (g', dead @ map (\<lambda>x. (fst x, sr_stream_path (fst (snd x)))) (dropped compiled xs), resume')"
      "registry_inv g'" "\<forall>sid \<in> fst ` set xs. holds compiled g' sid (map_of xs sid)"
      "\<forall>a. a \<notin> fst ` set xs \<longrightarrow> map_of (rg_shapes g') a = map_of (rg_shapes g1) a \<and> map_of (rg_feed_shares g') a = map_of (rg_feed_shares g1) a \<and> rg_lives g' a = rg_lives g1 a"
      "rg_events g' = rg_events g1 @ map (\<lambda>x. EvDropped (fst x)) (dropped compiled xs)"
      "rg_next_shape_id g' = rg_next_shape_id g1 \<and> rg_retiring g' = rg_retiring g1" by blast
    have "holds compiled g' sid (map_of (x # xs) sid)" using g'(4) sid g1(3) x by (simp add: holds_def)
    then have "\<forall>a \<in> fst ` set (x # xs). holds compiled g' a (map_of (x # xs) a)" using g'(3) sid x by (auto simp: image_iff)
    moreover have "\<forall>a. a \<notin> fst ` set (x # xs) \<longrightarrow> map_of (rg_shapes g') a = map_of (rg_shapes g) a \<and> map_of (rg_feed_shares g') a = map_of (rg_feed_shares g) a \<and> rg_lives g' a = rg_lives g a"
      using g'(4) g1(4) x by simp
    ultimately show ?thesis using g' g1 True x by (intro exI [of _ g'] exI [of _ resume']) simp
  qed
qed simp

text \<open>The folds of what a boot drops, and the pairs that stay apart.\<close>

lemma map_of_kept: "map_of (filter (\<lambda>e. P (fst e)) xs) k = (if P k then map_of xs k else None)"
  by (induction xs) auto

lemma fold_drops: "fold (\<lambda>(sid, rec). drop_restored sid rec) lost (g, dead, resume)
    = (g\<lparr>rg_events := rg_events g @ map (\<lambda>x. EvDropped (fst x)) lost\<rparr>, dead @ map (\<lambda>x. (fst x, sr_stream_path (snd x))) lost, resume)"
  by (induction lost arbitrary: g dead) (auto simp: drop_restored_def send_event_def)

lemma drops_recs:
  "map_of (cf_recs (fold fold_apply (map EvDropped ids) cf)) sid = (if sid \<in> set ids then None else map_of (cf_recs cf) sid)"
  "cf_max_shape_id (fold fold_apply (map EvDropped ids) cf) = cf_max_shape_id cf"
proof (induction ids arbitrary: cf)
  case (Cons a ids)
  { case 1 show ?case by (simp add: Cons.IH(1) delete_conv' split: option.split) }
  { case 2 show ?case by (simp add: Cons.IH(2) split: option.split) }
qed simp_all

lemma keys_apart:
  assumes k: "distinct (map fst xs)" and x: "\<And>sid r. map_of xs sid = Some r \<Longrightarrow> map_of (cf_recs cf) sid = Some r" and e: "fold_excl cf"
  shows "sorted_wrt apart xs"
  using k x
proof (induction xs)
  case (Cons x xs)
  obtain a ra siga subsa da where xa: "x = (a, ra, siga, subsa, da)" by (cases x)
  have a: "map_of (cf_recs cf) a = Some (ra, siga, subsa, da)" using Cons.prems(2) xa by simp
  have tail: "map_of (cf_recs cf) b = Some r" if "(b, r) \<in> set xs" for b r
  proof -
    have "map_of (x # xs) b = Some r" by (rule map_of_is_SomeI [OF Cons.prems(1)]) (simp add: that)
    then show ?thesis by (rule Cons.prems(2))
  qed
  have "apart x y" if y: "y \<in> set xs" for y
  proof -
    obtain b rb sigb subsb db where yb: "y = (b, rb, sigb, subsb, db)" by (cases y)
    have ne: "a \<noteq> b" using y yb xa Cons.prems(1) by force
    have b: "map_of (cf_recs cf) b = Some (rb, sigb, subsb, db)" using tail y yb by simp
    have "siga = None" if same: "siga = sigb"
    proof (cases siga)
      case (Some s)
      then have "signed cf a s" "signed cf b s" using a b same unfolding signed_def by simp_all
      then show ?thesis using e ne unfolding fold_excl_def by blast
    qed
    moreover have "False" if "siga \<noteq> None" "sigb \<noteq> None" "sub \<in> fst ` set subsa" "sub \<in> fst ` set subsb" for sub
    proof -
      have "map_of subsa sub \<noteq> None" "map_of subsb sub \<noteq> None" using that(3,4) by (simp_all add: map_of_eq_None_iff)
      then have "claimed cf a sub" "claimed cf b sub" using a b that(1,2) unfolding claimed_def by blast+
      then show False using e ne unfolding fold_excl_def by blast
    qed
    ultimately show ?thesis using ne unfolding xa yb by auto
  qed
  moreover have "sorted_wrt apart xs" proof (rule Cons.IH)
    show "distinct (map fst xs)" using Cons.prems(1) by simp
    show "map_of (cf_recs cf) b = Some r" if "map_of xs b = Some r" for b r using tail [OF map_of_SomeD [OF that]] .
  qed
  ultimately show ?case by simp
qed simp

text \<open>A registry as a boot finds it: nothing registered, and the counter past the fold's ids.\<close>

definition fresh :: "registry \<Rightarrow> catalog_fold \<Rightarrow> bool" where
  "fresh g cf \<longleftrightarrow> registry_inv g \<and> rg_shapes g = [] \<and> rg_events g = [] \<and> rg_feed_by_sig g = (\<lambda>_. None) \<and> rg_subs_by_id g = (\<lambda>_. None)
     \<and> (\<forall>k. cf_max_shape_id cf = Some k \<longrightarrow> k < rg_next_shape_id g)"

abbreviation kept :: "string list \<Rightarrow> catalog_fold \<Rightarrow> (string \<times> restored) list" where
  "kept gone cf \<equiv> filter (\<lambda>e. fst e \<notin> set gone) (cf_recs cf)"

lemma kept_installable:
  assumes f: "fresh g cf" and k: "fold_keys cf" and e: "fold_excl cf" and x: "x \<in> set (kept gone cf)"
  shows "installable (g\<lparr>rg_events := evs\<rparr>) x"
proof -
  obtain sid rec sig subs d where r: "x = (sid, rec, sig, subs, d)" by (cases x)
  have m: "map_of (cf_recs cf) sid = Some (rec, sig, subs, d)" using k x r by (intro map_of_is_SomeI) (auto simp: fold_keys_def)
  from k m obtain n j where n: "sid = shape_id n" "cf_max_shape_id cf = Some j" "n \<le> j" "distinct (map fst subs)" unfolding fold_keys_def by blast
  have "sr_id rec = sid \<and> sr_stream_path rec = shape_stream sid" using e m unfolding fold_excl_def by fastforce
  moreover have "n < rg_next_shape_id g" using f n unfolding fresh_def by fastforce
  ultimately show ?thesis using f n(1,4) by (auto simp: installable_def r fresh_def)
qed

lemma dropped_iff:
  assumes "distinct (map fst xs)"
  shows "sid \<in> fst ` set (dropped compiled xs) \<longleftrightarrow> (\<exists>r. map_of xs sid = Some r \<and> \<not> resumable compiled (fst r))"
proof -
  have "(sid, r) \<in> set xs \<longleftrightarrow> map_of xs sid = Some r" for r using assms by (metis map_of_SomeD map_of_is_SomeI)
  then show ?thesis by (force simp: image_iff)
qed

lemma restored_registry:
  assumes f: "fresh g cf" and k: "fold_keys cf" and e: "fold_excl cf"
    and lost: "\<And>sid. sid \<in> fst ` set lost \<longleftrightarrow> sid \<in> set gone \<and> map_of (cf_recs cf) sid \<noteq> None"
  shows "\<exists>g' dead' resume. fold (restore_one compiled now) (kept gone cf) (g\<lparr>rg_events := map (\<lambda>x. EvDropped (fst x)) lost\<rparr>, dead, []) = (g', dead', resume)
     \<and> registry_inv g' \<and> (\<forall>sid. holds compiled g' sid (if sid \<in> set gone then None else map_of (cf_recs cf) sid))
     \<and> list_all shrinks (rg_events g') \<and> matches_catalog g' (fold fold_apply (rg_events g') cf) \<and> rg_next_shape_id g' = rg_next_shape_id g"
proof -
  let ?xs = "kept gone cf" and ?g = "g\<lparr>rg_events := map (\<lambda>x. EvDropped (fst x)) lost\<rparr>"
  have dist: "distinct (map fst ?xs)" using k by (simp add: fold_keys_def distinct_map_filter)
  have m: "map_of ?xs sid = (if sid \<in> set gone then None else map_of (cf_recs cf) sid)" for sid
    using map_of_kept [of "\<lambda>k. k \<notin> set gone" "cf_recs cf" sid] by simp
  have inv: "registry_inv ?g" using f by (simp add: fresh_def)
  have ap: "sorted_wrt apart ?xs" using m by (intro keys_apart [OF dist _ e]) (simp split: if_splits)
  have inst: "installable ?g x" if "x \<in> set ?xs" for x using kept_installable [OF f k e that] .
  from restore_all_ok [OF inv inst ap, of compiled now dead "[]"]
  obtain g' dead' resume where g': "fold (restore_one compiled now) ?xs (?g, dead, []) = (g', dead', resume)" "registry_inv g'"
    "\<forall>sid \<in> fst ` set ?xs. holds compiled g' sid (map_of ?xs sid)" "\<forall>a. a \<notin> fst ` set ?xs \<longrightarrow> map_of (rg_shapes g') a = map_of (rg_shapes ?g) a"
    "rg_events g' = rg_events ?g @ map (\<lambda>x. EvDropped (fst x)) (dropped compiled ?xs)" "rg_next_shape_id g' = rg_next_shape_id ?g" by blast
  have h: "holds compiled g' sid (map_of ?xs sid)" for sid
  proof (cases "sid \<in> fst ` set ?xs")
    case False
    then have "map_of ?xs sid = None" by (rule map_of_eq_None_iff [THEN iffD2])
    then show ?thesis using g'(4) False f by (simp add: holds_def fresh_def)
  qed (use g'(3) in blast)
  let ?ids = "map fst lost @ map fst (dropped compiled ?xs)"
  have evs: "rg_events g' = map EvDropped ?ids" using g'(5) by simp
  have "rel_option (shape_matches (map_of (rg_feed_shares g') sid) (rg_lives g' sid)) (map_of (rg_shapes g') sid) (map_of (cf_recs (fold fold_apply (rg_events g') cf)) sid)" for sid
  proof -
    have ids: "sid \<in> set ?ids \<longleftrightarrow> (sid \<in> set gone \<and> map_of (cf_recs cf) sid \<noteq> None) \<or> (\<exists>r. map_of ?xs sid = Some r \<and> \<not> resumable compiled (fst r))"
      unfolding dropped_iff [OF dist, symmetric] lost [symmetric] by auto
    show ?thesis
    proof (cases "map_of ?xs sid")
      case None
      then have "map_of (cf_recs (fold fold_apply (rg_events g') cf)) sid = None" unfolding evs drops_recs(1) using ids m by auto
      then show ?thesis using h [of sid] None by (simp add: holds_def)
    next
      case (Some r)
      obtain rec sig subs d where r: "r = (rec, sig, subs, d)" by (cases r)
      have c: "map_of (cf_recs cf) sid = Some r" "sid \<notin> set gone" using Some m by (auto split: if_splits)
      show ?thesis
      proof (cases "resumable compiled rec")
        case True
        then have "map_of (cf_recs (fold fold_apply (rg_events g') cf)) sid = Some r" unfolding evs drops_recs(1) using ids c Some r by simp
        moreover have "claims_match subs (fs_subs sh)" if "map_of (rg_feed_shares g') sid = Some sh" for sh
          using h [of sid] True that unfolding Some r holds_def claims_match_def by auto
        ultimately show ?thesis using h [of sid] True unfolding Some r holds_def by (auto split: option.splits)
      next
        case False
        then have "map_of (cf_recs (fold fold_apply (rg_events g') cf)) sid = None" unfolding evs drops_recs(1) using ids c Some r by simp
        then show ?thesis using h [of sid] False unfolding Some r holds_def by simp
      qed
    qed
  qed
  moreover have "cf_max_shape_id (fold fold_apply (rg_events g') cf) = cf_max_shape_id cf" unfolding evs by (rule drops_recs(2))
  ultimately have "matches_catalog g' (fold fold_apply (rg_events g') cf)" using f g'(6) by (simp add: matches_catalog_def fresh_def)
  moreover have "list_all shrinks (rg_events g')" by (auto simp: evs list_all_iff)
  ultimately show ?thesis using g' h m by auto
qed

lemma map_fst_lost: "map fst (List.map_filter (\<lambda>sid. map_option (\<lambda>r. (sid, f r)) (m sid)) gone) = filter (\<lambda>sid. m sid \<noteq> None) gone"
  by (induction gone) (auto simp: List.map_filter_def)

lemma retire_one_keeps:
  "rg_shapes (retire_shape_stream reply sid path g) = rg_shapes g" "rg_feed_shares (retire_shape_stream reply sid path g) = rg_feed_shares g"
  "rg_lives (retire_shape_stream reply sid path g) = rg_lives g" "rg_next_shape_id (retire_shape_stream reply sid path g) = rg_next_shape_id g"
  "registry_inv (retire_shape_stream reply sid path g) = registry_inv g"
  by (cases reply; simp add: retire_shape_stream_def send_event_def)+

lemma retire_keeps:
  "rg_shapes (retire_dead reply dead g) = rg_shapes g" "rg_feed_shares (retire_dead reply dead g) = rg_feed_shares g"
  "rg_lives (retire_dead reply dead g) = rg_lives g" "rg_next_shape_id (retire_dead reply dead g) = rg_next_shape_id g"
  "registry_inv (retire_dead reply dead g) = registry_inv g"
  unfolding retire_dead_def by (induction dead arbitrary: g) (simp_all add: split_beta retire_one_keeps)

lemma holds_retire: "holds compiled (retire_dead reply dead g) sid r = holds compiled g sid r"
  unfolding holds_def retire_keeps ..

lemma tracks_retires: "matches_catalog g cf \<Longrightarrow> tracks shrinks g cf (retire_dead reply dead g)"
  unfolding retire_dead_def
proof (induction dead arbitrary: g cf)
  case (Cons x dead)
  show ?case using tracks_trans [OF tracks_retire [OF Cons.prems] Cons.IH] by (simp add: split_beta)
qed (simp add: tracks_refl)

lemma install_resumes:
  assumes i: "install compiled RestoreResume now pause resume_reply release retire_reply gone cf registry_start = (g', Ok ())"
    and k: "fold_keys cf" and e: "fold_excl cf"
  shows "registry_inv g' \<and> (\<forall>sid. holds compiled g' sid (if sid \<in> set gone then None else map_of (cf_recs cf) sid))
     \<and> list_all shrinks (rg_events g') \<and> matches_catalog g' (fold fold_apply (rg_events g') cf)"
proof -
  let ?g1 = "registry_start\<lparr>rg_retiring := rg_retiring registry_start @ map (\<lambda>(sid, path). (path, Some sid)) (pending_retirements cf)\<rparr>"
  let ?g2 = "case cf_max_shape_id cf of None \<Rightarrow> ?g1 | Some n \<Rightarrow> ?g1\<lparr>rg_next_shape_id := max (rg_next_shape_id ?g1) (n + 1)\<rparr>"
  let ?lost = "List.map_filter (\<lambda>sid. map_option (\<lambda>r. (sid, fst r)) (map_of (cf_recs cf) sid)) gone"
  let ?g3 = "?g2\<lparr>rg_events := map (\<lambda>x. EvDropped (fst x)) ?lost\<rparr>" and ?dead = "map (\<lambda>x. (fst x, sr_stream_path (snd x))) ?lost"
  have f: "fresh ?g2 cf"
    by (auto simp: fresh_def registry_start_def inv_defs split: option.split)
  have lost: "sid \<in> fst ` set ?lost \<longleftrightarrow> sid \<in> set gone \<and> map_of (cf_recs cf) sid \<noteq> None" for sid
    using arg_cong [OF map_fst_lost [of fst "map_of (cf_recs cf)" gone], of set] by (simp add: conj_commute)
  obtain g4 dead' resume where g4: "fold (restore_one compiled now) (kept gone cf) (?g3, ?dead, []) = (g4, dead', resume)"
    "registry_inv g4" "\<forall>sid. holds compiled g4 sid (if sid \<in> set gone then None else map_of (cf_recs cf) sid)"
    "list_all shrinks (rg_events g4)" "matches_catalog g4 (fold fold_apply (rg_events g4) cf)"
    using restored_registry [OF f k e lost, of compiled now ?dead] by blast
  have "?g2\<lparr>rg_events := rg_events ?g2 @ map (\<lambda>x. EvDropped (fst x)) ?lost\<rparr> = ?g3" using f by (simp add: fresh_def)
  then have "fold (\<lambda>(sid, rec). drop_restored sid rec) ?lost (?g2, [], []) = (?g3, ?dead, [])" unfolding fold_drops by simp
  note step = this
  have "g' = retire_dead retire_reply dead' g4"
  proof (cases "kept gone cf = [] \<and> cf_start_pos cf = lp_start")
    case True
    then show ?thesis using i g4(1) unfolding install_def Let_def step by simp
  next
    case False
    then show ?thesis using i g4(1) unfolding install_def Let_def step by (auto split: sum.splits)
  qed
  moreover from tracks_retires [OF g4(5), of retire_reply dead'] obtain evs where "rg_events (retire_dead retire_reply dead' g4) = rg_events g4 @ evs"
    "list_all shrinks evs" "matches_catalog (retire_dead retire_reply dead' g4) (fold fold_apply evs (fold fold_apply (rg_events g4) cf))"
    unfolding tracks_def by blast
  ultimately show ?thesis using g4(2-4) by (simp add: retire_keeps(5) holds_retire)
qed

lemma install_next:
  assumes "install compiled RestoreResume now pause resume_reply release retire_reply gone cf registry_start = (g', Ok ())" and "fold_keys cf" "fold_excl cf"
    and "cf_max_shape_id cf = Some k"
  shows "k < rg_next_shape_id g'"
proof -
  have "cf_max_shape_id (fold fold_apply evs cf) = Some k" if "list_all shrinks evs" for evs
    using that assms(4)
  proof (induction evs arbitrary: cf)
    case (Cons ev evs)
    then have "cf_max_shape_id (fold_apply ev cf) = Some k" by (cases ev) (auto split: option.split)
    then show ?case using Cons by simp
  qed simp
  then show ?thesis using install_resumes [OF assms(1-3)] matches_max by blast
qed

lemma apply_resumes:
  assumes "apply_catalog head segments compiled RestoreResume now pause resume_reply release retire_reply cf boot_start = (b, Ok ())"
  shows "\<exists>gone. preflight_catalog_streams head compiled (cf_recs cf) = Ok gone
     \<and> install compiled RestoreResume now pause resume_reply release retire_reply gone cf registry_start = (bt_registry b, Ok ())"
  using assms by (auto simp: apply_catalog_def Let_def boot_start_def split: if_splits sum.splits prod.splits)

text \<open>A boot succeeds when the store and the sequencer answer.\<close>

lemma resume_all_ok [simp]: "resume_all (\<lambda>_. Ok ()) recs = Ok ()"
  by (induction recs) simp_all

lemma install_succeeds: "snd (install compiled mode now (Ok ()) (\<lambda>_. Ok ()) (Ok ()) retire_reply gone cf g) = Ok ()"
  by (simp add: install_def Let_def split: prod.split)

lemma apply_succeeds:
  assumes "\<forall>c \<in> set (cf_consumers cf). lp_segment (snd c) \<in> segments" and "preflight_catalog_streams head compiled (cf_recs cf) = Ok gone"
  shows "snd (apply_catalog head segments compiled RestoreResume now (Ok ()) (\<lambda>_. Ok ()) (Ok ()) retire_reply cf b) = Ok ()"
proof -
  obtain g r where i: "install compiled RestoreResume now (Ok ()) (\<lambda>_. Ok ()) (Ok ()) retire_reply gone cf (bt_registry b) = (g, r)" by fastforce
  then have "r = Ok ()" using install_succeeds [of compiled RestoreResume now retire_reply gone cf "bt_registry b"] by simp
  then show ?thesis using assms i by (auto simp: apply_catalog_def Let_def)
qed

section \<open>Any number of crashes\<close>

abbreviation fold_of :: "catalog_event list \<Rightarrow> catalog_fold" where
  "fold_of evs \<equiv> fold fold_apply evs default_fold"

text \<open>The registries an engine can be in, with the events the catalog held when its process started. A
  crash keeps some prefix of the events sent, as the writer's log does (\<open>reach_fold\<close>), and the next
  process installs their fold. The lease sweep releases and records in one step.\<close>

inductive engine_reach :: "catalog_event list \<Rightarrow> registry \<Rightarrow> bool" where
  engine_start: "engine_reach [] registry_start"
| engine_step: "engine_reach durable g \<Longrightarrow> registry_step g g' \<Longrightarrow> engine_reach durable g'"
| engine_restart: "engine_reach durable g \<Longrightarrow>
    apply_catalog head segments compiled RestoreResume now pause resume_reply release retire_reply (fold_of (durable @ take m (rg_events g))) boot_start = (b, Ok ()) \<Longrightarrow>
    engine_reach (durable @ take m (rg_events g)) (bt_registry b)"

definition log_inv :: "catalog_event list \<Rightarrow> registry \<Rightarrow> bool" where
  "log_inv durable g \<longleftrightarrow> registry_inv g \<and> matches_catalog g (fold_of (durable @ rg_events g))
     \<and> (\<forall>m. fold_keys (fold_of (durable @ take m (rg_events g))) \<and> fold_excl (fold_of (durable @ take m (rg_events g))))"

lemma prefixes_shrink:
  assumes "list_all shrinks evs" and "fold_keys cf" and "fold_excl cf"
  shows "fold_keys (fold fold_apply (take m evs) cf) \<and> fold_excl (fold fold_apply (take m evs) cf)"
  using assms
proof (induction evs arbitrary: cf m)
  case (Cons ev evs)
  then show ?case by (cases m) (auto simp: fold_keys_apply fold_excl_apply shrinks_ok)
qed simp

lemma log_inv_extend:
  assumes j: "log_inv durable g" and evs: "rg_events g' = rg_events g @ evs" "step_events evs"
    and g': "registry_inv g'" "matches_catalog g' (fold fold_apply evs (fold_of (durable @ rg_events g)))"
  shows "log_inv durable g'"
proof -
  let ?cf = "fold_of (durable @ rg_events g)"
  have cf: "fold_keys ?cf" "fold_excl ?cf" using j unfolding log_inv_def by (metis order_refl take_all_iff)+
  have full: "fold_excl (fold fold_apply evs ?cf)" using fold_excl_matches [OF g'] .
  have tail: "fold_keys (fold fold_apply (take m evs) ?cf) \<and> fold_excl (fold fold_apply (take m evs) ?cf)" for m
  proof (cases "list_all shrinks evs")
    case True
    then show ?thesis using prefixes_shrink [OF _ cf] by blast
  next
    case False
    then have "length evs \<le> 1" "list_all event_ok evs" using evs(2) by (auto simp: step_events_def)
    then show ?thesis using cf full by (cases evs; cases m) (auto simp: fold_keys_apply)
  qed
  have "fold_keys (fold_of (durable @ take m (rg_events g'))) \<and> fold_excl (fold_of (durable @ take m (rg_events g')))" for m
  proof (cases "m \<le> length (rg_events g)")
    case True
    then show ?thesis using j by (simp add: evs(1) log_inv_def)
  next
    case False
    then show ?thesis using tail [of "m - length (rg_events g)"] by (simp add: evs(1))
  qed
  then show ?thesis using g' by (simp add: log_inv_def evs(1))
qed

lemma empty_fold: "fold_keys default_fold" "fold_excl default_fold" "matches_catalog registry_start default_fold"
  by (simp_all add: fold_keys_def fold_excl_def signed_def claimed_def default_fold_def matches_catalog_def registry_start_def)

lemma engine_reach_inv: "engine_reach durable g \<Longrightarrow> log_inv durable g"
proof (induction rule: engine_reach.induct)
  case engine_start
  have "rg_events registry_start = []" by (simp add: registry_start_def)
  then show ?case by (simp add: log_inv_def registry_inv_start empty_fold)
next
  case (engine_step durable g g')
  then have g: "registry_inv g" "matches_catalog g (fold_of (durable @ rg_events g))" by (simp_all add: log_inv_def)
  from step_tracks [OF engine_step.hyps(2) g] obtain evs where "rg_events g' = rg_events g @ evs" "step_events evs"
    "matches_catalog g' (fold fold_apply evs (fold_of (durable @ rg_events g)))" by blast
  then show ?case using log_inv_extend [OF engine_step.IH] inv_step [OF engine_step.hyps(2) g(1)] by blast
next
  case (engine_restart durable g head segments compiled now pause resume_reply release retire_reply m b)
  let ?d = "durable @ take m (rg_events g)"
  have cf: "fold_keys (fold_of ?d)" "fold_excl (fold_of ?d)" using engine_restart.IH unfolding log_inv_def by blast+
  from apply_resumes [OF engine_restart.hyps(2)] obtain gone where
    "install compiled RestoreResume now pause resume_reply release retire_reply gone (fold_of ?d) registry_start = (bt_registry b, Ok ())" by blast
  from install_resumes [OF this cf] have i: "registry_inv (bt_registry b)" "list_all shrinks (rg_events (bt_registry b))"
    "matches_catalog (bt_registry b) (fold_of (?d @ rg_events (bt_registry b)))" by simp_all
  moreover have "fold_keys (fold_of (?d @ take n (rg_events (bt_registry b)))) \<and> fold_excl (fold_of (?d @ take n (rg_events (bt_registry b))))" for n
    using prefixes_shrink [OF i(2) cf, of n] by simp
  ultimately show ?case unfolding log_inv_def by blast
qed

text \<open>A stream that can still be appended to, as the boot asks the store.\<close>

definition appendable :: "(string \<Rightarrow> stream_head option result) \<Rightarrow> string \<Rightarrow> bool" where
  "appendable head path = (case head path of Inr (Some h) \<Rightarrow> \<not> sh_closed h | _ \<Rightarrow> False)"

lemma preflight_exact:
  assumes p: "preflight_catalog_streams head compiled recs = Ok gone" and k: "distinct (map fst recs)"
    and r: "map_of recs sid = Some (rec, rest)" and res: "resumable compiled rec"
  shows "sid \<in> set gone \<longleftrightarrow> \<not> appendable head (sr_stream_path rec)"
proof -
  from p obtain found where found: "list_all2 (\<lambda>x y. preflight_one head compiled x = Ok y) recs found" "gone = sort (List.map_filter (\<lambda>x. x) found)"
    by (auto simp: preflight_catalog_streams_def res_simps)
  have lost: "a \<in> set gone \<longleftrightarrow> Some a \<in> set found" for a by (simp add: found(2) in_map_filter)
  have one: "preflight_one head compiled (sid, rec, rest) = Ok y \<Longrightarrow> (y = Some sid \<longleftrightarrow> \<not> appendable head (sr_stream_path rec))" for y
    using res by (auto simp: preflight_one_def appendable_def res_simps split: option.splits if_splits)
  have own: "preflight_one head compiled x = Ok (Some a) \<Longrightarrow> a = fst x" for x a
    by (cases x) (auto simp: preflight_one_def res_simps split: option.splits if_splits)
  have mem: "(sid, rec, rest) \<in> set recs" using r by (rule map_of_SomeD)
  then obtain i where i: "i < length recs" "recs ! i = (sid, rec, rest)" by (auto simp: in_set_conv_nth)
  have y: "found ! i \<in> set found" "preflight_one head compiled (sid, rec, rest) = Ok (found ! i)"
    using list_all2_nthD [OF found(1) i(1)] i list_all2_lengthD [OF found(1)] by auto
  show ?thesis
  proof
    assume "sid \<in> set gone"
    then obtain j where j: "j < length found" "found ! j = Some sid" using lost by (auto simp: in_set_conv_nth)
    let ?x = "recs ! j"
    have x: "?x \<in> set recs" "preflight_one head compiled ?x = Ok (Some sid)"
      using list_all2_nthD2 [OF found(1) j(1)] j list_all2_lengthD [OF found(1)] by auto
    then have "map_of recs sid = Some (snd ?x)" using own [OF x(2)] map_of_is_SomeI [OF k, of "fst ?x" "snd ?x"] by simp
    then have "?x = (sid, rec, rest)" using r own [OF x(2)] by (cases ?x) simp
    then show "\<not> appendable head (sr_stream_path rec)" using one x(2) by metis
  next
    assume "\<not> appendable head (sr_stream_path rec)"
    then show "sid \<in> set gone" using one [OF y(2)] y(1) lost by simp
  qed
qed

lemma resumable_unsized: "unsized rec = unsized rec' \<Longrightarrow> resumable compiled rec = resumable compiled rec'"
proof -
  have "schema_moved_while_down (unsized rec) compiled = schema_moved_while_down rec compiled \<and> sr_is_subquery (unsized rec) = sr_is_subquery rec" for rec
    by (simp add: unsized_def schema_moved_while_down_def split: option.split)
  then show "unsized rec = unsized rec' \<Longrightarrow> resumable compiled rec = resumable compiled rec'" unfolding resumable_def by metis
qed



section \<open>Examples\<close>

definition example_head :: "string \<Rightarrow> stream_head option result" where
  "example_head = (\<lambda>_. Ok (Some \<lparr>sh_next_offset = None, sh_closed = False\<rparr>))"

definition example_boot :: "boot \<times> unit result" where
  "example_boot = apply_catalog example_head {} (\<lambda>_. None) RestoreResume 9 (Ok ()) (\<lambda>_. Ok ()) (Ok ()) (\<lambda>_. Ok ()) (fold_of ([] @ rg_events example_registry)) boot_start"

lemma example_reach: "engine_reach [] example_registry"
proof -
  have "registry_step registry_start example_registry" unfolding example_registry_def
    by (rule step_create) (simp_all add: registry_start_def u64_max_def)
  then show ?thesis by (rule engine_step [OF engine_start])
qed

lemma example_events: "rg_events example_registry
    = [EvCreated (example_record\<lparr>sr_id := shape_id 1, sr_stream_path := shape_stream (shape_id 1)\<rparr>) (Some ''sig'') ''alice'' 5]"
  by (simp add: example_registry_def create_or_join_def try_join_def ensure_subscription_free_def subscription_owner_def register_shape_def Let_def
      subscribe_def send_event_def registry_start_def example_record_def)

lemma example_num: "shape_id_num (shape_id 1) = Some 1"
  by (rule shape_id_num_id) (simp add: u64_max_def)

lemma example_fold: "fold_of ([] @ rg_events example_registry) = default_fold\<lparr>cf_max_shape_id := Some 1, cf_recs := [(shape_id 1,
    example_record\<lparr>sr_id := shape_id 1, sr_stream_path := shape_stream (shape_id 1)\<rparr>, Some ''sig'', [(''alice'', 5)], None)]\<rparr>"
  by (simp add: example_events default_fold_def example_num Let_def del: One_nat_def)

lemma example_boots: "snd example_boot = Ok ()"
  unfolding example_boot_def example_fold
  by (rule apply_succeeds [where gone = "[]"]) (simp_all add: default_fold_def preflight_catalog_streams_def preflight_one_def example_head_def)



text \<open>What the two halves of the lease sweep allow. A claim that lapses, is taken again before the sweep's
  \<open>Left\<close> is sent, and is acknowledged, is live in the registry and gone from the catalog: a restart
  forgets it.\<close>

lemma lapse_overtakes_join:
  defines "g1 \<equiv> fst (release_lapsed 10 100 example_registry)"
    and "lapsed \<equiv> snd (release_lapsed 10 100 example_registry)"
  defines "g3 \<equiv> record_lapsed lapsed (fst (create_or_join {} [example_table] False example_record (Some ''sig'') ''alice'' 100 100 0 g1))"
  shows "rg_subs_by_id g3 ''alice'' = Some (shape_id 1)"
    and "map_option (\<lambda>(_, _, subs, _). subs) (map_of (cf_recs (fold_of (rg_events g3))) (shape_id 1)) = Some []"
  by (simp_all add: assms release_lapsed_def lapsed_subscriptions_def record_lapsed_def example_registry_def create_or_join_def try_join_def
      ensure_subscription_free_def subscription_owner_def register_shape_def Let_def unsubscribe_def touch_shape_def
      ensure_schema_resolved_def first_unresolved_def example_num
      subscribe_def send_event_def registry_start_def example_record_def with_rec_def renew_def default_fold_def del: One_nat_def)

end
