(* ===== verification/WhereSql.thy ===== *)
theory WhereSql
  imports Predicates "HOL-Library.Char_ord"
begin

text \<open>
  The SQL \<open>where\<close> clause of the Electric adapter: binding of \<open>$N\<close> parameters
  (\<^verbatim>\<open>params.rs\<close>), the lexer and the recursive-descent parser into the JSON predicates
  (\<^verbatim>\<open>where_sql.rs\<close>). The parser recurses on fuel; the fuel \<open>parse_where\<close> gives is
  enough for every text (\<open>parse_where_total\<close>). JSON text is read by a parameter.
\<close>

section \<open>Parameters\<close>

abbreviation quote :: char where "quote \<equiv> CHR 0x27"
abbreviation dquote :: char where "dquote \<equiv> CHR 0x22"

type_synonym param_map = "(string \<times> string) list"

definition json_to_param_string :: "f64_ops \<Rightarrow> json \<Rightarrow> string" where
  "json_to_param_string F v = (case v of JStr s \<Rightarrow> s | JNull \<Rightarrow> [] | _ \<Rightarrow> json_to_string F v)"

definition validate_param_keys :: "param_map \<Rightarrow> unit result" where
  "validate_param_keys m =
     (case map_res (\<lambda>(k, _). case parse_i64 k of Some n \<Rightarrow> Ok n | None \<Rightarrow> Err (Other ''Parameters can only use numbers as keys'')) m of
        Inl e \<Rightarrow> Err e
      | Inr nums \<Rightarrow>
          if sort nums = map int [1..<length nums + 1] then Ok ()
          else Err (Other ''Parameters must be numbered sequentially, starting from 1''))"

text \<open>The bracket form takes precedence over a JSON object; \<open>from_str\<close> reads JSON text.\<close>

definition bracket_key :: "string \<Rightarrow> string option" where
  "bracket_key k = Option.bind (strip_prefix ''params['' k) (strip_suffix '']'')"

definition parse_params :: "f64_ops \<Rightarrow> (string \<Rightarrow> json option) \<Rightarrow> (string \<times> string) list \<Rightarrow> param_map result" where
  "parse_params F from_str pairs =
     (let bracket = fold (\<lambda>(k, v) m. case bracket_key k of Some i \<Rightarrow> AList.update i v m | None \<Rightarrow> m) pairs [] in
      rbind (if bracket \<noteq> [] then Ok bracket
             else case map_of pairs ''params'' of
                    None \<Rightarrow> Ok []
                  | Some text \<Rightarrow>
                      rbind (ok_or (from_str text) (Other ''params must be valid JSON'')) (\<lambda>j.
                      rbind (ok_or (as_object j) (Other ''params must be a JSON object'')) (\<lambda>obj.
                        Ok (fold (\<lambda>(k, v). AList.update k (json_to_param_string F v)) obj []))))
        (\<lambda>m. rbind (validate_param_keys m) (\<lambda>_. Ok m)))"

definition doubled :: "char \<Rightarrow> string \<Rightarrow> string" where
  "doubled q v = concat (map (\<lambda>c. if c = q then [q, q] else [c]) v)"

text \<open>\<open>substitute\<close> from a position, inside a literal or not.\<close>

function substitute_from :: "(string \<Rightarrow> string option) \<Rightarrow> bool \<Rightarrow> string \<Rightarrow> string result" where
  "substitute_from P in_quote [] = Ok []"
| "substitute_from P in_quote (c # cs) =
     (if in_quote then
        (if c = quote then
           (if cs \<noteq> [] \<and> hd cs = quote then rbind (substitute_from P True (tl cs)) (\<lambda>s. Ok (c # quote # s))
            else rbind (substitute_from P False cs) (\<lambda>s. Ok (c # s)))
         else rbind (substitute_from P True cs) (\<lambda>s. Ok (c # s)))
      else if c = quote then rbind (substitute_from P True cs) (\<lambda>s. Ok (c # s))
      else if c = CHR ''$'' \<and> cs \<noteq> [] \<and> is_ascii_digit (hd cs) then
        (let num = takeWhile is_ascii_digit cs in
         case P num of
           Some v \<Rightarrow> rbind (substitute_from P False (dropWhile is_ascii_digit cs)) (\<lambda>s. Ok (quote # doubled quote v @ quote # s))
         | None \<Rightarrow> Err (Other (''parameter $'' @ num @ '' was not provided'')))
      else rbind (substitute_from P False cs) (\<lambda>s. Ok (c # s)))"
  by pat_completeness auto
termination
  by (relation "measure (\<lambda>(_, _, s). length s)") (auto simp: less_Suc_eq_le length_dropWhile_le)

definition substitute :: "string \<Rightarrow> param_map \<Rightarrow> string result" where
  "substitute w params = substitute_from (map_of params) False w"

section \<open>The lexer\<close>

datatype tok =
    TkIdent string | TkStr string | TkNum string | TkOp string | TkLParen | TkRParen | TkComma
  | TkAnd | TkOr | TkNot | TkLike | TkBetween | TkIn | TkSelect | TkFrom | TkWhere | TkTrue | TkFalse | TkIs | TkNull

text \<open>\<open>char::is_alphabetic\<close> and \<open>is_alphanumeric\<close> below 256.\<close>

definition is_alphabetic :: "char \<Rightarrow> bool" where
  "is_alphabetic c = (let n = code_of c in (65 \<le> n \<and> n \<le> 90) \<or> (97 \<le> n \<and> n \<le> 122) \<or> n = 170 \<or> n = 181 \<or> n = 186
     \<or> (192 \<le> n \<and> n \<noteq> 215 \<and> n \<noteq> 247))"

definition is_alphanumeric :: "char \<Rightarrow> bool" where
  "is_alphanumeric c = (is_alphabetic c \<or> is_ascii_digit c \<or> code_of c \<in> {178, 179, 185, 188, 189, 190})"

definition to_ascii_uppercase :: "string \<Rightarrow> string" where
  "to_ascii_uppercase = map (\<lambda>c. if 97 \<le> code_of c \<and> code_of c \<le> 122 then char_of (code_of c - 32) else c)"

definition op_char :: "char \<Rightarrow> bool" where
  "op_char c = (c \<in> {CHR ''='', CHR ''<'', CHR ''>'', CHR ''!''})"

definition ident_char :: "char \<Rightarrow> bool" where
  "ident_char c = (is_alphanumeric c \<or> c = CHR ''_'')"

text \<open>A literal after its opening quote; a doubled quote is one.\<close>

fun lex_quoted :: "char \<Rightarrow> string \<Rightarrow> (string \<times> string) option" where
  "lex_quoted q [] = None"
| "lex_quoted q [c] = (if c = q then Some ([], []) else None)"
| "lex_quoted q (c # d # cs) =
     (if c = q then (if d = q then map_option (\<lambda>(b, r). (q # b, r)) (lex_quoted q cs) else Some ([], d # cs))
      else map_option (\<lambda>(b, r). (c # b, r)) (lex_quoted q (d # cs)))"

definition digit_at :: "string \<Rightarrow> nat \<Rightarrow> bool" where
  "digit_at cs j = (j < length cs \<and> is_ascii_digit (cs ! j))"

definition starts_number :: "string \<Rightarrow> bool" where
  "starts_number cs =
     (digit_at cs 0 \<or> (cs ! 0 = CHR ''.'' \<and> digit_at cs 1)
      \<or> (cs ! 0 = CHR ''-'' \<and> (digit_at cs 1 \<or> (1 < length cs \<and> cs ! 1 = CHR ''.'' \<and> digit_at cs 2))))"

fun scan_mantissa :: "bool \<Rightarrow> string \<Rightarrow> string \<times> string" where
  "scan_mantissa seen [] = ([], [])"
| "scan_mantissa seen (c # cs) =
     (if is_ascii_digit c \<or> (c = CHR ''.'' \<and> \<not> seen)
      then (case scan_mantissa (seen \<or> c = CHR ''.'') cs of (b, r) \<Rightarrow> (c # b, r))
      else ([], c # cs))"

definition scan_sign :: "char set \<Rightarrow> string \<Rightarrow> string \<times> string" where
  "scan_sign signs cs = (case cs of c # r \<Rightarrow> if c \<in> signs then ([c], r) else ([], cs) | [] \<Rightarrow> ([], []))"

definition scan_exponent :: "string \<Rightarrow> string \<times> string" where
  "scan_exponent cs =
     (case cs of
        [] \<Rightarrow> ([], [])
      | c # r \<Rightarrow>
          if c = CHR ''e'' \<or> c = CHR ''E'' then
            (case scan_sign {CHR ''+'', CHR ''-''} r of (sg, r1) \<Rightarrow>
               if digit_at r1 0 then (c # sg @ takeWhile is_ascii_digit r1, dropWhile is_ascii_digit r1) else ([], cs))
          else ([], cs))"

definition lex_number :: "string \<Rightarrow> (string \<times> string) result" where
  "lex_number cs =
     (case scan_sign {CHR ''-''} cs of (sg, r0) \<Rightarrow> case scan_mantissa False r0 of (b, r1) \<Rightarrow> case scan_exponent r1 of (e, r2) \<Rightarrow>
        if r2 \<noteq> [] \<and> (hd r2 = CHR ''.'' \<or> ident_char (hd r2))
        then Err (Other (''malformed numeric literal starting with '' @ sg @ b @ e)) else Ok (sg @ b @ e, r2))"

definition keyword :: "string \<Rightarrow> tok" where
  "keyword buf =
     (let kw = to_ascii_uppercase buf in
      if kw = ''AND'' then TkAnd else if kw = ''OR'' then TkOr else if kw = ''NOT'' then TkNot else if kw = ''LIKE'' then TkLike
      else if kw = ''BETWEEN'' then TkBetween else if kw = ''IN'' then TkIn else if kw = ''SELECT'' then TkSelect
      else if kw = ''FROM'' then TkFrom else if kw = ''WHERE'' then TkWhere else if kw = ''TRUE'' then TkTrue
      else if kw = ''FALSE'' then TkFalse else if kw = ''IS'' then TkIs else if kw = ''NULL'' then TkNull else TkIdent buf)"

text \<open>One turn of the lexer's loop, on a text that is not empty: the token, if the turn gives one, and the
  rest.\<close>

definition lex_one :: "string \<Rightarrow> (tok option \<times> string) result" where
  "lex_one cs =
     (let c = hd cs; r = tl cs in
      if is_whitespace c then Ok (None, r)
      else if c = quote then rbind (ok_or (lex_quoted quote r) (Other ''unterminated string literal'')) (\<lambda>(b, r'). Ok (Some (TkStr b), r'))
      else if c = CHR ''('' then Ok (Some TkLParen, r)
      else if c = CHR '')'' then Ok (Some TkRParen, r)
      else if c = CHR '','' then Ok (Some TkComma, r)
      else if op_char c then Ok (Some (TkOp (takeWhile op_char cs)), dropWhile op_char cs)
      else if c = dquote then rbind (ok_or (lex_quoted dquote r) (Other ''unterminated quoted identifier'')) (\<lambda>(b, r'). Ok (Some (TkIdent b), r'))
      else if starts_number cs then rbind (lex_number cs) (\<lambda>(b, r'). Ok (Some (TkNum b), r'))
      else if is_alphabetic c \<or> c = CHR ''_'' then Ok (Some (keyword (takeWhile ident_char cs)), dropWhile ident_char cs)
      else Err (Other ''unexpected character in where clause''))"

lemma lex_quoted_shorter: "lex_quoted q cs = Some (b, r) \<Longrightarrow> length r < length cs"
  by (induction q cs arbitrary: b r rule: lex_quoted.induct) (fastforce split: if_splits)+

lemma scan_mantissa_rest: "scan_mantissa seen cs = (b, r) \<Longrightarrow> cs = b @ r"
  by (induction seen cs arbitrary: b r rule: scan_mantissa.induct) (auto split: if_splits prod.splits)

lemma scan_sign_rest: "scan_sign signs cs = (b, r) \<Longrightarrow> cs = b @ r"
  by (auto simp: scan_sign_def split: list.splits if_splits)

lemma scan_exponent_rest: "scan_exponent cs = (b, r) \<Longrightarrow> cs = b @ r"
  by (auto simp: scan_exponent_def split: list.splits if_splits prod.splits dest!: scan_sign_rest)

lemma lex_number_shorter:
  assumes n: "starts_number cs" and l: "lex_number cs = Ok (b, r)"
  shows "length r < length cs"
proof -
  obtain sg r0 where sg: "scan_sign {CHR ''-''} cs = (sg, r0)" by fastforce
  obtain m r1 where m: "scan_mantissa False r0 = (m, r1)" by fastforce
  obtain e r2 where e: "scan_exponent r1 = (e, r2)" by fastforce
  have "r = r2" using l by (simp add: lex_number_def sg m e split: if_splits)
  then have cs: "cs = sg @ m @ e @ r" using scan_sign_rest [OF sg] scan_mantissa_rest [OF m] scan_exponent_rest [OF e] by simp
  have "sg \<noteq> [] \<or> m \<noteq> []"
  proof (cases cs)
    case Nil
    then show ?thesis using n by (simp add: starts_number_def digit_at_def)
  next
    case (Cons c cs')
    then show ?thesis using n sg m
      by (auto simp: starts_number_def digit_at_def scan_sign_def split: if_splits prod.splits)
  qed
  then show ?thesis by (auto simp: cs)
qed

lemma dropWhile_shorter: "P c \<Longrightarrow> length (dropWhile P (c # cs)) < length (c # cs)"
  using length_dropWhile_le [of P cs] by simp

lemma lex_one_shorter:
  assumes l: "lex_one (c # cs) = Ok (t, r)"
  shows "length r < length (c # cs)"
proof (cases "is_whitespace c \<or> c = CHR ''('' \<or> c = CHR '')'' \<or> c = CHR '',''")
  case True
  then show ?thesis using l unfolding lex_one_def by (auto simp: Let_def is_whitespace_def code_of_def)
next
  case False
  then have ws: "\<not> is_whitespace c" "c \<noteq> CHR ''(''" "c \<noteq> CHR '')''" "c \<noteq> CHR '',''" by auto
  note step = l [unfolded lex_one_def Let_def list.sel if_not_P [OF ws(1)] if_not_P [OF ws(2)] if_not_P [OF ws(3)] if_not_P [OF ws(4)]]
  show ?thesis
  proof (cases "c = quote \<or> c = dquote")
    case True
    then show ?thesis using step by (auto simp: op_char_def res_simps ok_or_def split: option.splits dest!: lex_quoted_shorter)
  next
    case False
    then have q: "c \<noteq> quote" "c \<noteq> dquote" by auto
    note step = step [unfolded if_not_P [OF q(1)] if_not_P [OF q(2)]]
    show ?thesis
    proof (cases "op_char c")
      case True
      then have "r = dropWhile op_char (c # cs)" using step by simp
      then show ?thesis using dropWhile_shorter [of op_char c cs, OF True] by simp
    next
      case False
      note step = step [unfolded if_not_P [OF False]]
      show ?thesis
      proof (cases "starts_number (c # cs)")
        case True
        then show ?thesis using step by (auto simp: res_simps dest: lex_number_shorter)
      next
        case False
        note step = step [unfolded if_not_P [OF False]]
        have a: "is_alphabetic c \<or> c = CHR ''_''" using step by (rule contrapos_pp) simp
        then have "ident_char c" by (auto simp: ident_char_def is_alphanumeric_def)
        moreover have "r = dropWhile ident_char (c # cs)" using step [unfolded if_P [OF a]] by simp
        ultimately show ?thesis using dropWhile_shorter [of ident_char c cs] by simp
      qed
    qed
  qed
qed

function tokenize :: "string \<Rightarrow> tok list result" where
  "tokenize [] = Ok []"
| "tokenize (c # cs) =
     (case lex_one (c # cs) of
        Inl e \<Rightarrow> Err e
      | Inr (t, r) \<Rightarrow> rbind (tokenize r) (\<lambda>ts. Ok (case t of None \<Rightarrow> ts | Some t' \<Rightarrow> t' # ts)))"
  by pat_completeness auto
termination
  by (relation "measure length") (auto dest: lex_one_shorter)

section \<open>The parser\<close>

text \<open>A parser takes the tokens from its position on. \<open>None\<close> is running out of fuel.\<close>

type_synonym 'a parsed = "('a \<times> tok list) result option"

definition pbind :: "'a parsed \<Rightarrow> ('a \<Rightarrow> tok list \<Rightarrow> 'b parsed) \<Rightarrow> 'b parsed" where
  "pbind m f = (case m of None \<Rightarrow> None | Some (Inl e) \<Rightarrow> Some (Err e) | Some (Inr (x, r)) \<Rightarrow> f x r)"

abbreviation pok :: "'a \<Rightarrow> tok list \<Rightarrow> 'a parsed" where
  "pok x r \<equiv> Some (Ok (x, r))"

definition perr :: "string \<Rightarrow> 'a parsed" where
  "perr msg = Some (Err (Other msg))"

definition eat :: "tok \<Rightarrow> tok list \<Rightarrow> unit parsed" where
  "eat t ts = (case ts of u # r \<Rightarrow> if u = t then pok () r else perr ''unexpected token'' | [] \<Rightarrow> perr ''unexpected end'')"

definition parse_ident :: "tok list \<Rightarrow> string parsed" where
  "parse_ident ts = (case ts of TkIdent s # r \<Rightarrow> pok s r | _ \<Rightarrow> perr ''expected identifier'')"

definition num_literal :: "f64_ops \<Rightarrow> string \<Rightarrow> json result" where
  "num_literal F n =
     (case (if CHR ''.'' \<in> set n \<or> CHR ''e'' \<in> set n \<or> CHR ''E'' \<in> set n then None else parse_i64 n) of
        Some i \<Rightarrow> Ok (JNum (NInt i))
      | None \<Rightarrow>
          (case f64_parse F n of
             None \<Rightarrow> Err (Other (''invalid numeric literal '' @ n))
           | Some (Finite q) \<Rightarrow> Ok (JNum (NFloat (Finite q)))
           | Some _ \<Rightarrow> Err (Other (''numeric literal out of range: '' @ n))))"

definition parse_literal :: "f64_ops \<Rightarrow> tok list \<Rightarrow> json parsed" where
  "parse_literal F ts =
     (case ts of
        TkStr s # r \<Rightarrow> pok (JStr s) r
      | TkTrue # r \<Rightarrow> pok (JBool True) r
      | TkFalse # r \<Rightarrow> pok (JBool False) r
      | TkNum n # r \<Rightarrow> (case num_literal F n of Inl e \<Rightarrow> Some (Err e) | Inr j \<Rightarrow> pok j r)
      | _ \<Rightarrow> perr ''expected literal'')"

definition ord_of :: "'a::linorder \<Rightarrow> 'a \<Rightarrow> int" where
  "ord_of a b = (if a < b then -1 else if a = b then 0 else 1)"

definition const_ord :: "f64_ops \<Rightarrow> json \<Rightarrow> json \<Rightarrow> int option" where
  "const_ord F l r =
     (case (l, r) of
        (JNum a, JNum b) \<Rightarrow> (case (as_f64 F l, as_f64 F r) of (Some x, Some y) \<Rightarrow> Some (ord_of x y) | _ \<Rightarrow> None)
      | (JStr a, JStr b) \<Rightarrow> Some (ord_of a b)
      | (JBool a, JBool b) \<Rightarrow> Some (ord_of a b)
      | _ \<Rightarrow> None)"

definition eval_const :: "f64_ops \<Rightarrow> json \<Rightarrow> string \<Rightarrow> json \<Rightarrow> bool" where
  "eval_const F l op r =
     (let ord = const_ord F l r; is = (\<lambda>P. case ord of Some d \<Rightarrow> P d | None \<Rightarrow> False) in
      if op = ''='' then l = r
      else if op = ''<>'' \<or> op = ''!='' then l \<noteq> r
      else if op = ''<'' then is (\<lambda>d. d < 0) else if op = ''<='' then is (\<lambda>d. d \<le> 0)
      else if op = ''>'' then is (\<lambda>d. d > 0) else if op = ''>='' then is (\<lambda>d. d \<ge> 0) else False)"

definition leaf_op_of :: "string \<Rightarrow> leaf_op option" where
  "leaf_op_of op =
     (if op = ''='' then Some OpEq else if op = ''<>'' \<or> op = ''!='' then Some OpNeq else if op = ''<'' then Some OpLt
      else if op = ''<='' then Some OpLte else if op = ''>'' then Some OpGt else if op = ''>='' then Some OpGte else None)"

fun is_lit :: "tok \<Rightarrow> bool" where
  "is_lit (TkStr _) = True" | "is_lit (TkNum _) = True" | "is_lit TkTrue = True" | "is_lit TkFalse = True" | "is_lit _ = False"

text \<open>A comparison of two literals is evaluated; true is the empty conjunction, false the empty
  disjunction.\<close>

definition const_predicate :: "f64_ops \<Rightarrow> tok list \<Rightarrow> predicate_json parsed" where
  "const_predicate F ts =
     pbind (parse_literal F ts) (\<lambda>left r.
       case r of
         TkOp op # r1 \<Rightarrow> pbind (parse_literal F r1) (\<lambda>right r2. pok (if eval_const F left op right then PAnd [] else POr []) r2)
       | _ \<Rightarrow> perr ''expected comparison operator after literal'')"

definition starts :: "tok \<Rightarrow> tok list \<Rightarrow> bool" where
  "starts t ts \<longleftrightarrow> ts \<noteq> [] \<and> hd ts = t"

definition eat_not :: "tok list \<Rightarrow> bool \<times> tok list" where
  "eat_not ts = (if starts TkNot ts then (True, tl ts) else (False, ts))"

text \<open>What follows a column, but for \<open>IN\<close>. \<open>IS\<close> comes with its own negation.\<close>

definition parse_is :: "tschema option \<Rightarrow> string \<Rightarrow> bool \<Rightarrow> tok list \<Rightarrow> predicate_json parsed" where
  "parse_is schema col negated ts =
     (case eat_not ts of (is_not, r) \<Rightarrow> pbind (eat TkNull r) (\<lambda>_ r1.
        if negated then perr ''unexpected NOT before IS''
        else case schema of
               None \<Rightarrow> pok (PIsNull col (\<not> is_not)) r1
             | Some sch \<Rightarrow> (case column_index sch col of Inl e \<Rightarrow> Some (Err e) | Inr _ \<Rightarrow> pok (PIsNull col (\<not> is_not)) r1)))"

fun parse_list :: "f64_ops \<Rightarrow> nat \<Rightarrow> tok list \<Rightarrow> json list parsed" where
  "parse_list F 0 ts = None"
| "parse_list F (Suc n) ts =
     pbind (parse_literal F ts) (\<lambda>v r.
       if starts TkComma r then pbind (parse_list F n (tl r)) (\<lambda>vs r1. pok (v # vs) r1) else pok [v] r)"

definition parse_tail :: "f64_ops \<Rightarrow> string \<Rightarrow> tok list \<Rightarrow> predicate_json parsed" where
  "parse_tail F col ts =
     (case ts of
        TkOp op # r \<Rightarrow>
          pbind (parse_literal F r) (\<lambda>v r1.
            case leaf_op_of op of None \<Rightarrow> perr (''unsupported operator '' @ op) | Some lop \<Rightarrow> pok (PLeaf col lop v) r1)
      | TkLike # r \<Rightarrow> pbind (parse_literal F r) (\<lambda>v r1. pok (PLeaf col OpLike v) r1)
      | TkBetween # r \<Rightarrow>
          pbind (parse_literal F r) (\<lambda>lo r1. pbind (eat TkAnd r1) (\<lambda>_ r2. pbind (parse_literal F r2) (\<lambda>hi r3.
            pok (PAnd [PLeaf col OpGte lo, PLeaf col OpLte hi]) r3)))
      | _ \<Rightarrow> perr ''expected operator after column'')"

text \<open>The literal list of an \<open>IN\<close>, after its parenthesis.\<close>

definition parse_in_list :: "f64_ops \<Rightarrow> string \<Rightarrow> tok list \<Rightarrow> predicate_json parsed" where
  "parse_in_list F col ts =
     pbind (parse_list F (length ts + 1) ts) (\<lambda>vs r. pbind (eat TkRParen r) (\<lambda>_ r1. pok (POr (map (PLeaf col OpEq) vs)) r1))"

definition negate :: "bool \<Rightarrow> predicate_json parsed \<Rightarrow> predicate_json parsed" where
  "negate negated m = pbind m (\<lambda>p r. pok (if negated then PNot p else p) r)"

definition select_head :: "tok list \<Rightarrow> (string \<times> table_ref) parsed" where
  "select_head ts =
     pbind (parse_ident ts) (\<lambda>project r. pbind (eat TkFrom r) (\<lambda>_ r1. pbind (parse_ident r1) (\<lambda>raw r2.
       if CHR ''.'' \<in> set raw then perr ''qualified inner table is not supported in a SQL where clause''
       else case table_parse raw of Inl e \<Rightarrow> Some (Err e) | Inr t \<Rightarrow> pok (project, t) r2)))"

text \<open>The methods below \<open>parse_or\<close> take it as an argument (\<open>self\<close>): it is called again only inside
  parentheses and subqueries, so its fuel is the depth of these.\<close>

type_synonym pred_parser = "tok list \<Rightarrow> predicate_json parsed"

definition parse_select :: "pred_parser \<Rightarrow> string \<Rightarrow> bool \<Rightarrow> pred_parser" where
  "parse_select self col negated ts =
     pbind (select_head ts) (\<lambda>(project, t) r.
       pbind (if starts TkWhere r then pbind (self (tl r)) (\<lambda>p r1. pok (Some p) r1) else pok None r) (\<lambda>w r2.
         pbind (eat TkRParen r2) (\<lambda>_ r3. pok (PIn col (Subquery t project w) negated) r3)))"

definition parse_predicate :: "f64_ops \<Rightarrow> tschema option \<Rightarrow> pred_parser \<Rightarrow> pred_parser" where
  "parse_predicate F sch self ts =
     (if ts \<noteq> [] \<and> is_lit (hd ts) then const_predicate F ts
      else pbind (parse_ident ts) (\<lambda>col r.
        case eat_not r of (negated, r1) \<Rightarrow>
          if starts TkIs r1 then parse_is sch col negated (tl r1)
          else if starts TkIn r1 then pbind (eat TkLParen (tl r1)) (\<lambda>_ r2.
            if starts TkSelect r2 then parse_select self col negated (tl r2) else negate negated (parse_in_list F col r2))
          else negate negated (parse_tail F col r1)))"

definition parse_primary :: "f64_ops \<Rightarrow> tschema option \<Rightarrow> pred_parser \<Rightarrow> pred_parser" where
  "parse_primary F sch self ts =
     (if starts TkLParen ts then pbind (self (tl ts)) (\<lambda>p r. pbind (eat TkRParen r) (\<lambda>_ r1. pok p r1))
      else parse_predicate F sch self ts)"

primrec parse_not :: "f64_ops \<Rightarrow> tschema option \<Rightarrow> pred_parser \<Rightarrow> pred_parser" where
  "parse_not F sch self [] = parse_primary F sch self []"
| "parse_not F sch self (t # ts) =
     (if t = TkNot then pbind (parse_not F sch self ts) (\<lambda>p r. pok (PNot p) r) else parse_primary F sch self (t # ts))"

text \<open>The loop of \<open>parse_and\<close> and \<open>parse_or\<close>: more operands as long as their keyword follows.\<close>

fun more :: "tok \<Rightarrow> pred_parser \<Rightarrow> nat \<Rightarrow> tok list \<Rightarrow> predicate_json list parsed" where
  "more kw sub 0 ts = None"
| "more kw sub (Suc n) ts =
     (if starts kw ts then pbind (sub (tl ts)) (\<lambda>p r. pbind (more kw sub n r) (\<lambda>ps r1. pok (p # ps) r1)) else pok [] ts)"

definition parse_and :: "f64_ops \<Rightarrow> tschema option \<Rightarrow> pred_parser \<Rightarrow> pred_parser" where
  "parse_and F sch self ts =
     pbind (parse_not F sch self ts) (\<lambda>p r. pbind (more TkAnd (parse_not F sch self) (length r + 1) r) (\<lambda>ps r1.
       pok (if ps = [] then p else PAnd (p # ps)) r1))"

primrec parse_or :: "f64_ops \<Rightarrow> tschema option \<Rightarrow> nat \<Rightarrow> pred_parser" where
  "parse_or F sch 0 = (\<lambda>ts. None)"
| "parse_or F sch (Suc n) = (\<lambda>ts.
     pbind (parse_and F sch (parse_or F sch n) ts) (\<lambda>p r. pbind (more TkOr (parse_and F sch (parse_or F sch n)) (length r + 1) r) (\<lambda>ps r1.
       pok (if ps = [] then p else POr (p # ps)) r1)))"

definition eq_ignore_ascii_case :: "string \<Rightarrow> string \<Rightarrow> bool" where
  "eq_ignore_ascii_case a b \<longleftrightarrow> to_ascii_uppercase a = to_ascii_uppercase b"

definition where_fuel :: "tok list \<Rightarrow> nat" where
  "where_fuel ts = length ts + 1"

definition parse_where_typed :: "f64_ops \<Rightarrow> string \<Rightarrow> tschema option \<Rightarrow> predicate_json option result option" where
  "parse_where_typed F sql sch =
     (let trimmed = trim sql in
      if trimmed = [] \<or> eq_ignore_ascii_case trimmed ''true'' then Some (Ok None)
      else case tokenize trimmed of
             Inl e \<Rightarrow> Some (Err e)
           | Inr ts \<Rightarrow>
               (case parse_or F sch (where_fuel ts) ts of
                  None \<Rightarrow> None
                | Some (Inl e) \<Rightarrow> Some (Err e)
                | Some (Inr (p, r)) \<Rightarrow> if r \<noteq> [] then Some (Err (Other ''trailing tokens after where clause'')) else Some (Ok (Some p))))"

definition parse_where :: "f64_ops \<Rightarrow> string \<Rightarrow> predicate_json option result option" where
  "parse_where F sql = parse_where_typed F sql None"

section \<open>Every text is answered\<close>

named_theorems parse_simps

lemma pbind_pok [parse_simps]: "pbind m f = pok y r' \<longleftrightarrow> (\<exists>x r. m = pok x r \<and> f x r = pok y r')"
  by (auto simp: pbind_def split: option.splits sum.splits prod.splits)

lemma pbind_None [parse_simps]: "pbind m f = None \<longleftrightarrow> m = None \<or> (\<exists>x r. m = pok x r \<and> f x r = None)"
  by (auto simp: pbind_def split: option.splits sum.splits prod.splits)

lemma pbind_ok [simp]: "pbind (pok x r) f = f x r"
  by (simp add: pbind_def)

lemma perr_simps [simp]: "perr msg \<noteq> None" "perr msg \<noteq> pok x r"
  by (simp_all add: perr_def)

lemma eat_pok [parse_simps]: "eat t ts = pok u r \<longleftrightarrow> ts = t # r"
  by (auto simp: eat_def split: list.splits if_splits)

lemma starts_tl: "starts t ts \<longleftrightarrow> (\<exists>r. ts = t # r)"
  by (cases ts) (auto simp: starts_def)

lemma basic_total [simp]: "eat t ts \<noteq> None" "parse_ident ts \<noteq> None" "parse_literal F ts \<noteq> None"
proof -
  show "eat t ts \<noteq> None" by (cases ts) (auto simp: eat_def perr_def)
  show "parse_ident ts \<noteq> None" by (cases ts; cases "hd ts") (auto simp: parse_ident_def perr_def)
  show "parse_literal F ts \<noteq> None" by (cases ts; cases "hd ts") (auto simp: parse_literal_def perr_def split: sum.split)
qed

definition eats :: "(tok list \<Rightarrow> 'a parsed) \<Rightarrow> bool" where
  "eats p \<longleftrightarrow> (\<forall>ts x r. p ts = pok x r \<longrightarrow> length r < length ts)"

lemma eatsD: "eats p \<Longrightarrow> p ts = pok x r \<Longrightarrow> length r < length ts"
  by (auto simp: eats_def)

lemma eats_basic: "eats parse_ident" "eats (parse_literal F)"
proof -
  have "parse_ident ts = pok x r \<Longrightarrow> length r < length ts" for ts x r by (cases ts; cases "hd ts") (auto simp: parse_ident_def)
  then show "eats parse_ident" by (auto simp: eats_def)
  have "parse_literal F ts = pok x r \<Longrightarrow> length r < length ts" for ts x r
    by (cases ts; cases "hd ts") (auto simp: parse_literal_def split: sum.splits)
  then show "eats (parse_literal F)" by (auto simp: eats_def)
qed

lemmas basic_eats = eats_basic(1) [THEN eatsD] eats_basic(2) [THEN eatsD]

lemma eats_select_head: "select_head ts = pok x r \<Longrightarrow> length r < length ts"
  by (auto simp: select_head_def parse_simps split: if_splits sum.splits dest!: basic_eats)

lemma eats_const: "const_predicate F ts = pok p r \<Longrightarrow> length r < length ts"
proof -
  assume "const_predicate F ts = pok p r"
  then obtain l r1 where l: "parse_literal F ts = pok l r1"
    and rest: "(case r1 of TkOp op # r2 \<Rightarrow> pbind (parse_literal F r2) (\<lambda>right r3. pok (if eval_const F l op right then PAnd [] else POr []) r3)
       | _ \<Rightarrow> perr ''expected comparison operator after literal'') = pok p r" unfolding const_predicate_def pbind_pok by blast
  from rest obtain op r2 where "r1 = TkOp op # r2" "length r < length r2"
    by (cases r1; cases "hd r1") (auto simp: pbind_pok dest: basic_eats)
  then show ?thesis using basic_eats(2) [OF l] by simp
qed

lemma eat_not_length: "eat_not ts = (b, r) \<Longrightarrow> length r \<le> length ts"
  by (auto simp: eat_not_def split: if_splits)

lemma eats_is: "parse_is sch col negated ts = pok p r \<Longrightarrow> length r < length ts"
  by (auto simp: parse_is_def parse_simps split: prod.splits if_splits option.splits sum.splits dest!: eat_not_length)

lemma eats_list: "parse_list F n ts = pok vs r \<Longrightarrow> length r < length ts"
proof (induction n arbitrary: ts vs r)
  case (Suc n)
  then obtain v r1 where v: "parse_literal F ts = pok v r1"
    and rest: "(if starts TkComma r1 then pbind (parse_list F n (tl r1)) (\<lambda>vs r1. pok (v # vs) r1) else pok [v] r1) = pok vs r"
    by (auto simp: pbind_pok)
  have "length r \<le> length r1" using rest Suc.IH [of "tl r1"] by (fastforce simp: pbind_pok starts_tl split: if_splits)
  then show ?case using basic_eats(2) [OF v] by simp
qed simp

lemma eats_in_list: "parse_in_list F col ts = pok p r \<Longrightarrow> length r < length ts"
  by (auto simp: parse_in_list_def parse_simps simp del: parse_list.simps dest!: eats_list)

lemma eats_tail: "parse_tail F col ts = pok p r \<Longrightarrow> length r < length ts"
  by (auto simp: parse_tail_def parse_simps split: list.splits tok.splits option.splits dest!: basic_eats)

lemma negate_pok: "negate b m = pok p r \<Longrightarrow> \<exists>q. m = pok q r"
  by (auto simp: negate_def parse_simps)

lemma eats_select:
  assumes "eats self" and "parse_select self col negated ts = pok p r"
  shows "length r < length ts"
  using assms(2) unfolding parse_select_def
  by (auto simp: parse_simps starts_tl split: prod.splits if_splits dest!: eats_select_head eatsD [OF assms(1)])

lemma eats_predicate:
  assumes self: "eats self"
  shows "eats (parse_predicate F sch self)"
proof -
  have "length r < length ts" if p: "parse_predicate F sch self ts = pok x r" for ts x r
  proof (cases "ts \<noteq> [] \<and> is_lit (hd ts)")
    case True
    then show ?thesis using p eats_const by (simp add: parse_predicate_def)
  next
    case False
    note p = p [unfolded parse_predicate_def if_not_P [OF False] pbind_pok]
    then obtain col r0 where col: "parse_ident ts = pok col r0" and p: "(case eat_not r0 of (negated, r1) \<Rightarrow>
          if starts TkIs r1 then parse_is sch col negated (tl r1)
          else if starts TkIn r1 then pbind (eat TkLParen (tl r1)) (\<lambda>_ r2.
            if starts TkSelect r2 then parse_select self col negated (tl r2) else negate negated (parse_in_list F col r2))
          else negate negated (parse_tail F col r1)) = pok x r" by blast
    obtain negated r1 where n: "eat_not r0 = (negated, r1)" by fastforce
    have "length r < length r1"
    proof (cases "starts TkIs r1")
      case True
      then show ?thesis using p n by (auto simp: starts_tl dest!: eats_is)
    next
      case no_is: False
      show ?thesis
      proof (cases "starts TkIn r1")
        case True
        with no_is p n obtain r2 where r2: "r1 = TkIn # TkLParen # r2"
          and "(if starts TkSelect r2 then parse_select self col negated (tl r2) else negate negated (parse_in_list F col r2)) = pok x r"
          by (auto simp: starts_tl parse_simps)
        then show ?thesis by (auto simp: starts_tl split: if_splits dest!: eats_select [OF self] negate_pok eats_in_list)
      next
        case False
        with no_is p n show ?thesis by (auto dest!: negate_pok eats_tail)
      qed
    qed
    then show ?thesis using basic_eats(1) [OF col] eat_not_length [OF n] by simp
  qed
  then show ?thesis by (simp add: eats_def)
qed

lemma eats_primary:
  assumes "eats self"
  shows "eats (parse_primary F sch self)"
  unfolding eats_def parse_primary_def using eatsD [OF assms] eatsD [OF eats_predicate [OF assms]]
  by (fastforce simp: parse_simps starts_tl split: if_splits)

lemma eats_not: "eats self \<Longrightarrow> eats (parse_not F sch self)"
proof -
  assume "eats self"
  then have "parse_not F sch self ts = pok p r \<Longrightarrow> length r < length ts" for ts p r
    by (induction ts arbitrary: p r) (auto simp: parse_simps split: if_splits dest: eatsD [OF eats_primary] less_SucI)
  then show ?thesis by (simp add: eats_def)
qed

lemma more_length: "eats sub \<Longrightarrow> more kw sub n ts = pok ps r \<Longrightarrow> length r \<le> length ts"
proof (induction n arbitrary: ts ps)
  case (Suc n)
  then show ?case by (fastforce simp: parse_simps starts_tl split: if_splits dest: eatsD)
qed simp

text \<open>An operand and those that follow it.\<close>

lemma eats_operands:
  assumes "eats sub"
  shows "eats (\<lambda>ts. pbind (sub ts) (\<lambda>p r. pbind (more kw sub (length r + 1) r) (\<lambda>ps r1. pok (f p ps) r1)))"
proof -
  have "length r1 < length ts" if "sub ts = pok p r" "more kw sub (length r + 1) r = pok ps r1" for ts p r ps r1
    using eatsD [OF assms that(1)] more_length [OF assms that(2)] by simp
  then show ?thesis unfolding eats_def pbind_pok by blast
qed

lemma eats_and: "eats self \<Longrightarrow> eats (parse_and F sch self)"
  using eats_operands [OF eats_not] unfolding parse_and_def [abs_def] .

lemma eats_or: "eats (parse_or F sch n)"
proof (induction n)
  case (Suc n)
  show ?case unfolding parse_or.simps by (rule eats_operands [OF eats_and [OF Suc.IH]])
qed (simp add: eats_def)

text \<open>Fuel above the number of tokens is enough.\<close>

declare not_None_eq [iff del]

definition total_below :: "(tok list \<Rightarrow> 'a parsed) \<Rightarrow> nat \<Rightarrow> bool" where
  "total_below p n \<longleftrightarrow> (\<forall>ts. length ts < n \<longrightarrow> p ts \<noteq> None)"

lemma pbind_total: "m \<noteq> None \<Longrightarrow> (\<And>x r. m = pok x r \<Longrightarrow> f x r \<noteq> None) \<Longrightarrow> pbind m f \<noteq> None"
  by (auto simp: pbind_None)

lemma total_belowD: "total_below p n \<Longrightarrow> length ts < n \<Longrightarrow> p ts \<noteq> None"
  by (simp add: total_below_def)

lemma select_head_total: "select_head ts \<noteq> None"
  by (simp add: select_head_def parse_simps perr_def split: sum.split)

lemma parse_is_total: "parse_is sch col negated ts \<noteq> None"
  by (simp add: parse_is_def parse_simps perr_def split: prod.split option.split sum.split)

lemma const_total: "const_predicate F ts \<noteq> None"
  unfolding const_predicate_def pbind_None
proof (clarsimp, goal_cases)
  case (1 l r)
  then show ?case by (cases r; cases "hd r") (auto simp: parse_simps perr_def)
qed

lemma list_total: "length ts < n \<Longrightarrow> parse_list F n ts \<noteq> None"
proof (induction n arbitrary: ts)
  case (Suc n)
  have "parse_list F n (tl r) \<noteq> None" if "parse_literal F ts = pok v r" "starts TkComma r" for v r
    using basic_eats(2) [OF that(1)] that(2) Suc.prems by (intro Suc.IH) (auto simp: starts_tl)
  then show ?case by (auto simp: pbind_None)
qed simp

lemma in_list_total: "parse_in_list F col ts \<noteq> None"
  unfolding parse_in_list_def pbind_None using list_total [of ts "length ts + 1" F] by simp

lemma tail_total: "parse_tail F col ts \<noteq> None"
  unfolding parse_tail_def by (cases ts; cases "hd ts") (auto simp: parse_simps perr_def split: option.split)

lemma negate_total: "negate b m = None \<longleftrightarrow> m = None"
  by (auto simp: negate_def parse_simps)

lemma select_total:
  assumes "total_below self n" and "length ts \<le> n"
  shows "parse_select self col negated ts \<noteq> None"
proof -
  have "self (tl r) \<noteq> None" if "select_head ts = pok x r" "starts TkWhere r" for x r
    using eats_select_head [OF that(1)] that(2) assms(2) by (intro total_belowD [OF assms(1)]) (auto simp: starts_tl)
  then show ?thesis unfolding parse_select_def by (auto simp: pbind_None select_head_total split: prod.splits if_splits)
qed

lemma predicate_total:
  assumes "total_below self n" and "length ts \<le> n"
  shows "parse_predicate F sch self ts \<noteq> None"
proof (cases "ts \<noteq> [] \<and> is_lit (hd ts)")
  case True
  then show ?thesis using const_total by (simp add: parse_predicate_def)
next
  case False
  have "(if starts TkIs r1 then parse_is sch col negated (tl r1)
          else if starts TkIn r1 then pbind (eat TkLParen (tl r1)) (\<lambda>_ r2.
            if starts TkSelect r2 then parse_select self col negated (tl r2) else negate negated (parse_in_list F col r2))
          else negate negated (parse_tail F col r1)) \<noteq> None" if r1: "length r1 \<le> n" for negated r1 col
  proof -
    have "parse_select self col negated (tl r2) \<noteq> None" if "eat TkLParen (tl r1) = pok u r2" for u r2
      using that r1 by (intro select_total [OF assms(1)]) (cases r1, auto simp: parse_simps)
    then show ?thesis by (auto simp: parse_is_total pbind_None negate_total in_list_total tail_total)
  qed
  note rest = this
  show ?thesis unfolding parse_predicate_def if_not_P [OF False]
  proof (rule pbind_total)
    fix col r
    assume i: "parse_ident ts = pok col r"
    obtain negated r1 where n: "eat_not r = (negated, r1)" by fastforce
    have "length r1 \<le> n" using basic_eats(1) [OF i] eat_not_length [OF n] assms(2) by simp
    then show "(case eat_not r of (negated, r1) \<Rightarrow>
          if starts TkIs r1 then parse_is sch col negated (tl r1)
          else if starts TkIn r1 then pbind (eat TkLParen (tl r1)) (\<lambda>_ r2.
            if starts TkSelect r2 then parse_select self col negated (tl r2) else negate negated (parse_in_list F col r2))
          else negate negated (parse_tail F col r1)) \<noteq> None" unfolding n prod.case by (rule rest)
  qed simp
qed

lemma primary_total:
  assumes "total_below self n" and "length ts \<le> n"
  shows "parse_primary F sch self ts \<noteq> None"
  using predicate_total [OF assms] total_belowD [OF assms(1), of "tl ts"] assms(2)
  by (auto simp: parse_primary_def pbind_None starts_tl)

lemma not_total: "total_below self n \<Longrightarrow> length ts \<le> n \<Longrightarrow> parse_not F sch self ts \<noteq> None"
  by (induction ts) (auto simp: pbind_None primary_total)

lemma more_total:
  assumes "\<And>ts. length ts \<le> n \<Longrightarrow> sub ts \<noteq> None" and "eats sub" and "length ts \<le> n" and "length ts < k"
  shows "more kw sub k ts \<noteq> None"
  using assms(3,4)
proof (induction k arbitrary: ts)
  case (Suc k)
  have "more kw sub k r \<noteq> None" if "starts kw ts" "sub (tl ts) = pok p r" for p r
    using Suc.prems that eatsD [OF assms(2) that(2)] by (intro Suc.IH) (auto simp: starts_tl)
  moreover have "sub (tl ts) \<noteq> None" if "starts kw ts" using assms(1) [of "tl ts"] Suc.prems that by (auto simp: starts_tl)
  ultimately show ?case by (auto simp: pbind_None)
qed simp

lemma operands_total:
  assumes "\<And>ts. length ts \<le> n \<Longrightarrow> sub ts \<noteq> None" and "eats sub" and "length ts \<le> n"
  shows "pbind (sub ts) (\<lambda>p r. pbind (more kw sub (length r + 1) r) (\<lambda>ps r1. pok (f p ps) r1)) \<noteq> None"
proof -
  have "more kw sub (length r + 1) r \<noteq> None" if "sub ts = pok p r" for p r
    using eatsD [OF assms(2) that] assms(3) by (intro more_total [OF assms(1,2)]) auto
  then show ?thesis using assms(1,3) by (simp add: pbind_None)
qed

lemma and_total: "total_below self n \<Longrightarrow> eats self \<Longrightarrow> length ts \<le> n \<Longrightarrow> parse_and F sch self ts \<noteq> None"
  unfolding parse_and_def by (rule operands_total [where n = n]) (auto simp: not_total eats_not)

lemma or_total: "total_below (parse_or F sch n) n"
proof (induction n)
  case (Suc n)
  have "parse_or F sch (Suc n) ts \<noteq> None" if "length ts \<le> n" for ts
    unfolding parse_or.simps
    by (rule operands_total [where n = n]) (use and_total [OF Suc.IH eats_or] eats_and [OF eats_or] that in auto)
  then show ?case by (auto simp: total_below_def)
qed (simp add: total_below_def)

text \<open>C32: the parser of \<open>where\<close> clauses answers every text: with fuel for one more level of nesting than
  there are tokens it never runs out, so the recursion of \<open>parse_or\<close>, which is bounded by the nesting
  of parentheses and subqueries, ends with a predicate or an error.\<close>

theorem parse_where_total: "\<exists>answer. parse_where_typed F sql sch = Some answer"
proof -
  have "parse_or F sch (where_fuel ts) ts \<noteq> None" for ts
    using total_belowD [OF or_total, of ts "where_fuel ts"] by (simp add: where_fuel_def)
  then show ?thesis by (auto simp: parse_where_typed_def Let_def split: option.split sum.split)
qed

section \<open>Printing and parsing\<close>

text \<open>A printer, as a reference: every operand list in parentheses, identifiers quoted.\<close>

fun lit_tok :: "json \<Rightarrow> tok" where
  "lit_tok (JStr s) = TkStr s"
| "lit_tok (JBool b) = (if b then TkTrue else TkFalse)"
| "lit_tok (JNum (NInt i)) = TkNum (show_int i)"
| "lit_tok _ = TkNull"

fun op_tok :: "leaf_op \<Rightarrow> tok" where
  "op_tok OpEq = TkOp ''=''" | "op_tok OpNeq = TkOp ''<>''" | "op_tok OpLt = TkOp ''<''" | "op_tok OpLte = TkOp ''<=''"
| "op_tok OpGt = TkOp ''>''" | "op_tok OpGte = TkOp ''>=''" | "op_tok OpLike = TkLike"

definition operand_toks :: "tok \<Rightarrow> tok list list \<Rightarrow> tok list" where
  "operand_toks kw xs = (case xs of [] \<Rightarrow> [] | x # ys \<Rightarrow> TkLParen # x @ concat (map (\<lambda>y. kw # y) ys) @ [TkRParen])"

fun pred_toks :: "predicate_json \<Rightarrow> tok list" where
  "pred_toks (PLeaf col op v) = [TkIdent col, op_tok op, lit_tok v]"
| "pred_toks (PIsNull col b) = [TkIdent col, TkIs] @ (if b then [] else [TkNot]) @ [TkNull]"
| "pred_toks (PAnd ps) = (if ps = [] then [TkNum ''0'', TkOp ''='', TkNum ''0''] else operand_toks TkAnd (map pred_toks ps))"
| "pred_toks (POr ps) = (if ps = [] then [TkNum ''0'', TkOp ''='', TkNum ''1''] else operand_toks TkOr (map pred_toks ps))"
| "pred_toks (PNot p) = TkNot # pred_toks p"
| "pred_toks (PIn col (Subquery t project w) negated) =
     TkIdent col # (if negated then [TkNot] else []) @ [TkIn, TkLParen, TkSelect, TkIdent project, TkFrom, TkIdent (table_name t)]
       @ (case w of None \<Rightarrow> [] | Some p \<Rightarrow> TkWhere # pred_toks p) @ [TkRParen]"

text \<open>The predicates SQL can spell: literals that are text, truth values or integers of 64 bits, operand
  lists not of length one, tables of the public schema whose name is a bare one.\<close>

fun sql_lit :: "json \<Rightarrow> bool" where
  "sql_lit (JStr s) = True"
| "sql_lit (JBool b) = True"
| "sql_lit (JNum (NInt i)) = in_i64 i"
| "sql_lit _ = False"

fun sql_pred :: "predicate_json \<Rightarrow> bool" where
  "sql_pred (PLeaf col op v) = sql_lit v"
| "sql_pred (PIsNull col b) = True"
| "sql_pred (PAnd ps) = (length ps \<noteq> 1 \<and> (\<forall>p \<in> set ps. sql_pred p))"
| "sql_pred (POr ps) = (length ps \<noteq> 1 \<and> (\<forall>p \<in> set ps. sql_pred p))"
| "sql_pred (PNot p) = sql_pred p"
| "sql_pred (PIn col (Subquery t project w) negated) =
     (CHR ''.'' \<notin> set (table_name t) \<and> table_parse (table_name t) = Ok t \<and> (case w of None \<Rightarrow> True | Some p \<Rightarrow> sql_pred p))"

lemma show_int_plain: "c \<in> set (show_int i) \<Longrightarrow> is_ascii_digit c \<or> c = CHR ''-''"
  by (auto simp: show_int_def dest: show_nat_digits split: if_splits)

lemma num_literal_show: "in_i64 i \<Longrightarrow> num_literal F (show_int i) = Ok (JNum (NInt i))"
proof -
  have "CHR ''.'' \<notin> set (show_int i)" "CHR ''e'' \<notin> set (show_int i)" "CHR ''E'' \<notin> set (show_int i)"
    using show_int_plain [of "CHR ''.''" i] show_int_plain [of "CHR ''e''" i] show_int_plain [of "CHR ''E''" i]
    by (auto simp: is_ascii_digit_def code_of_def)
  then show "in_i64 i \<Longrightarrow> ?thesis" by (simp add: num_literal_def)
qed

lemma parse_lit: "sql_lit v \<Longrightarrow> parse_literal F (lit_tok v # r) = pok v r"
  by (cases v rule: sql_lit.cases) (simp_all add: parse_literal_def num_literal_show)

lemma starts_Cons [simp]: "starts t (u # r) \<longleftrightarrow> u = t" "\<not> starts t []"
  by (simp_all add: starts_def)

lemma starts_append [simp]: "x \<noteq> [] \<Longrightarrow> starts t (x @ r) \<longleftrightarrow> hd x = t"
  by (cases x) simp_all

lemma pred_toks_hd: "hd (pred_toks p) \<in> {TkNot, TkLParen} \<union> range TkIdent \<union> range TkNum" "pred_toks p \<noteq> []"
  by (induction p rule: pred_toks.induct) (auto simp: operand_toks_def split: list.splits)

lemma more_operands:
  assumes "\<And>p r. p \<in> set ps \<Longrightarrow> sub (pred_toks p @ r) = pok p r" and "\<not> starts kw r" and "length ps < k"
  shows "more kw sub k (concat (map (\<lambda>y. kw # y) (map pred_toks ps)) @ r) = pok ps r"
  using assms(1,3)
proof (induction ps arbitrary: k)
  case Nil
  then show ?case using assms(2) by (cases k) auto
next
  case (Cons p ps)
  then show ?case by (cases k) auto
qed

lemma length_operands: "length ps \<le> length (concat (map (\<lambda>y. kw # y) (map f ps)))"
  by (induction ps) auto

text \<open>One operand, then whole clauses, before a token that continues neither.\<close>

lemma parse_and_one:
  assumes "parse_not F sch self (x @ r) = pok p r" and "\<not> starts TkAnd r"
  shows "parse_and F sch self (x @ r) = pok p r"
  using assms by (simp add: parse_and_def)

lemma parse_or_one:
  assumes "parse_not F sch (parse_or F sch n) (x @ r) = pok p r" and "\<not> starts TkAnd r" and "\<not> starts TkOr r"
  shows "parse_or F sch (Suc n) (x @ r) = pok p r"
  using parse_and_one [OF assms(1,2)] assms(3) by simp

lemma parse_operands:
  assumes sub: "\<And>p r. p \<in> set ps \<Longrightarrow> parse_not F sch (parse_or F sch m) (pred_toks p @ r) = pok p r"
    and len: "length ps \<noteq> 1" and ne: "ps \<noteq> []"
  shows "parse_not F sch (parse_or F sch (Suc m)) (operand_toks TkAnd (map pred_toks ps) @ rest) = pok (PAnd ps) rest"
    and "parse_not F sch (parse_or F sch (Suc m)) (operand_toks TkOr (map pred_toks ps) @ rest) = pok (POr ps) rest"
proof -
  obtain p qs where ps: "ps = p # qs" "qs \<noteq> []" using len ne by (cases ps) auto
  let ?tail = "\<lambda>kw. concat (map (\<lambda>y. kw # y) (map pred_toks qs)) @ TkRParen # rest"
  have first: "parse_not F sch (parse_or F sch m) (pred_toks p @ r) = pok p r" for r using sub ps by simp
  have qs: "length qs < length (?tail kw) + 1" for kw using length_operands [of qs kw pred_toks] by simp
  have "more TkAnd (parse_not F sch (parse_or F sch m)) (length (?tail TkAnd) + 1) (?tail TkAnd) = pok qs (TkRParen # rest)"
    by (rule more_operands) (use sub ps qs [of TkAnd] in auto)
  then have "parse_and F sch (parse_or F sch m) (pred_toks p @ ?tail TkAnd) = pok (PAnd ps) (TkRParen # rest)"
    unfolding parse_and_def first pbind_ok using ps by simp
  then have "parse_or F sch (Suc m) (pred_toks p @ ?tail TkAnd) = pok (PAnd ps) (TkRParen # rest)" by simp
  then show "parse_not F sch (parse_or F sch (Suc m)) (operand_toks TkAnd (map pred_toks ps) @ rest) = pok (PAnd ps) rest"
    by (simp add: operand_toks_def ps parse_primary_def eat_def del: parse_or.simps)
  have one: "parse_and F sch (parse_or F sch m) (pred_toks q @ r) = pok q r" if "q \<in> set ps" "\<not> starts TkAnd r" for q r
    using parse_and_one [OF sub [OF that(1)] that(2)] .
  have no_and: "\<not> starts TkAnd (concat (map (\<lambda>y. TkOr # y) xs) @ TkRParen # rest)" for xs by (cases xs) auto
  have "more TkOr (parse_and F sch (parse_or F sch m)) k (concat (map (\<lambda>y. TkOr # y) (map pred_toks xs)) @ TkRParen # rest) = pok xs (TkRParen # rest)"
    if "set xs \<subseteq> set ps" "length xs < k" for xs k
    using that
  proof (induction xs arbitrary: k)
    case Nil
    then show ?case by (cases k) auto
  next
    case (Cons q xs)
    then show ?case using one [of q "concat (map (\<lambda>y. TkOr # y) (map pred_toks xs)) @ TkRParen # rest"] no_and [of "map pred_toks xs"]
      by (cases k) auto
  qed
  from this [OF _ qs [of TkOr]] have m1: "more TkOr (parse_and F sch (parse_or F sch m)) (length (?tail TkOr) + 1) (?tail TkOr) = pok qs (TkRParen # rest)"
    unfolding ps by (simp only: set_subset_Cons)
  have a1: "parse_and F sch (parse_or F sch m) (pred_toks p @ ?tail TkOr) = pok p (?tail TkOr)"
    using one [of p "?tail TkOr"] no_and [of "map pred_toks qs"] ps by simp
  have "parse_or F sch (Suc m) (pred_toks p @ ?tail TkOr) = pok (POr ps) (TkRParen # rest)"
    unfolding parse_or.simps a1 pbind_ok m1 using ps by simp
  then show "parse_not F sch (parse_or F sch (Suc m)) (operand_toks TkOr (map pred_toks ps) @ rest) = pok (POr ps) rest"
    by (simp add: operand_toks_def ps parse_primary_def eat_def del: parse_or.simps)
qed

lemma leaf_op_tok: "op \<noteq> OpLike \<Longrightarrow> \<exists>s. op_tok op = TkOp s \<and> leaf_op_of s = Some op"
  by (cases op) (auto simp: leaf_op_of_def)

lemma parse_leaf: "sql_lit v \<Longrightarrow> parse_not F sch self (TkIdent col # op_tok op # lit_tok v # r) = pok (PLeaf col op v) r"
proof (cases "op = OpLike")
  case True
  then show "sql_lit v \<Longrightarrow> ?thesis"
    by (simp add: parse_primary_def parse_predicate_def parse_ident_def eat_not_def parse_tail_def negate_def parse_lit)
next
  case False
  then obtain s where "op_tok op = TkOp s" "leaf_op_of s = Some op" using leaf_op_tok by blast
  then show "sql_lit v \<Longrightarrow> ?thesis"
    by (simp add: parse_primary_def parse_predicate_def parse_ident_def eat_not_def parse_tail_def negate_def parse_lit)
qed

lemma show_zero: "show_int 0 = ''0''" and show_one: "show_int 1 = ''1''"
  by code_simp+

lemma parse_const: "parse_not F sch self (TkNum ''0'' # TkOp ''='' # TkNum [c] # r)
    = pok (if num_literal F [c] = Ok (JNum (NInt 0)) then PAnd [] else POr []) r" if c: "c \<in> {CHR ''0'', CHR ''1''}"
proof -
  have "num_literal F ''0'' = Ok (JNum (NInt 0))" "num_literal F ''1'' = Ok (JNum (NInt 1))"
    using num_literal_show [of 0 F] num_literal_show [of 1 F] by (simp_all add: show_zero show_one in_i64_def i64_min_def i64_max_def)
  then show ?thesis using c
    by (auto simp: parse_primary_def parse_predicate_def const_predicate_def parse_literal_def eval_const_def)
qed

lemma operand_length: "q \<in> set ps \<Longrightarrow> length (f q) < length (operand_toks kw (map f ps))"
proof (cases ps)
  case (Cons p qs)
  assume q: "q \<in> set ps"
  have "length (f q) \<le> length (concat (map (\<lambda>y. kw # y) (map f qs)))" if "q \<in> set qs"
    using that by (induction qs) auto
  then show ?thesis using q Cons by (auto simp: operand_toks_def)
qed simp

lemma select_pred:
  assumes "CHR ''.'' \<notin> set (table_name t)" "table_parse (table_name t) = Ok t"
    and "(if starts TkWhere (w_toks @ TkRParen # r) then pbind (self (tl (w_toks @ TkRParen # r))) (\<lambda>p r1. pok (Some p) r1) else pok None (w_toks @ TkRParen # r))
        = pok w (TkRParen # r)"
  shows "parse_not F sch self (TkIdent col # (if negated then [TkNot] else []) @ [TkIn, TkLParen, TkSelect, TkIdent project, TkFrom, TkIdent (table_name t)] @ w_toks @ TkRParen # r)
      = pok (PIn col (Subquery t project w) negated) r"
proof -
  have head: "select_head (TkIdent project # TkFrom # TkIdent (table_name t) # x) = pok (project, t) x" for x
    using assms(1,2) by (simp add: select_head_def parse_ident_def eat_def)
  then have "parse_select self col negated (TkIdent project # TkFrom # TkIdent (table_name t) # w_toks @ TkRParen # r) = pok (PIn col (Subquery t project w) negated) r"
    unfolding parse_select_def head pbind_ok prod.case assms(3) by (simp add: eat_def)
  then show ?thesis by (cases negated) (simp_all add: parse_primary_def parse_predicate_def parse_ident_def eat_not_def eat_def)
qed

lemma parse_pred: "sql_pred p \<Longrightarrow> length (pred_toks p) \<le> n \<Longrightarrow> parse_not F None (parse_or F None n) (pred_toks p @ r) = pok p r"
proof (induction p arbitrary: n r rule: pred_toks.induct)
  case (1 col op v)
  then show ?case using parse_leaf by simp
next
  case (2 col b)
  then show ?case by (simp add: parse_primary_def parse_predicate_def parse_ident_def eat_not_def parse_is_def eat_def)
next
  case (3 ps)
  show ?case
  proof (cases "ps = []")
    case True
    have "num_literal F ''0'' = Ok (JNum (NInt 0))" using num_literal_show [of 0 F] by (simp add: show_zero in_i64_def i64_min_def i64_max_def)
    then show ?thesis using parse_const [of "CHR ''0''"] True by simp
  next
    case False
    with 3(3) obtain m where m: "n = Suc m" "length (operand_toks TkAnd (map pred_toks ps)) \<le> Suc m" by (cases n) (auto simp: operand_toks_def split: list.splits)
    have "parse_not F None (parse_or F None m) (pred_toks q @ r) = pok q r" if "q \<in> set ps" for q r
      using operand_length [OF that, of pred_toks TkAnd] m(2) 3(2) that False by (intro 3(1)) auto
    from parse_operands(1) [OF this] show ?thesis using 3(2) False m(1) by (simp del: parse_or.simps)
  qed
next
  case (4 ps)
  show ?case
  proof (cases "ps = []")
    case True
    have "num_literal F ''1'' = Ok (JNum (NInt 1))" using num_literal_show [of 1 F] by (simp add: show_one in_i64_def i64_min_def i64_max_def)
    then show ?thesis using parse_const [of "CHR ''1''"] True by simp
  next
    case False
    with 4(3) obtain m where m: "n = Suc m" "length (operand_toks TkOr (map pred_toks ps)) \<le> Suc m" by (cases n) (auto simp: operand_toks_def split: list.splits)
    have "parse_not F None (parse_or F None m) (pred_toks q @ r) = pok q r" if "q \<in> set ps" for q r
      using operand_length [OF that, of pred_toks TkOr] m(2) 4(2) that False by (intro 4(1)) auto
    from parse_operands(2) [OF this] show ?thesis using 4(2) False m(1) by (simp del: parse_or.simps)
  qed
next
  case (5 p)
  then show ?case by simp
next
  case (6 col t project w negated)
  show ?case
  proof (cases w)
    case None
    then show ?thesis using select_pred [of t "[]" r "parse_or F None n" None F None col negated project] 6(2) by simp
  next
    case (Some p)
    with 6(3) obtain m where m: "n = Suc m" "length (pred_toks p) \<le> m" by (cases n) auto
    have "parse_not F None (parse_or F None m) (pred_toks p @ TkRParen # r) = pok p (TkRParen # r)" using 6(1) Some 6(2) m(2) by simp
    then have "parse_or F None n (pred_toks p @ TkRParen # r) = pok p (TkRParen # r)" unfolding m(1) by (rule parse_or_one) simp_all
    then show ?thesis using select_pred [of t "TkWhere # pred_toks p" r "parse_or F None n" "Some p" F None col negated project] 6(2) Some by simp
  qed
qed

section \<open>Printing and lexing\<close>

fun show_tok :: "tok \<Rightarrow> string" where
  "show_tok (TkIdent s) = dquote # doubled dquote s @ [dquote]"
| "show_tok (TkStr s) = quote # doubled quote s @ [quote]"
| "show_tok (TkNum n) = n"
| "show_tok (TkOp s) = s"
| "show_tok TkLParen = ''(''" | "show_tok TkRParen = '')''" | "show_tok TkComma = '',''"
| "show_tok TkAnd = ''AND''" | "show_tok TkOr = ''OR''" | "show_tok TkNot = ''NOT''" | "show_tok TkLike = ''LIKE''"
| "show_tok TkBetween = ''BETWEEN''" | "show_tok TkIn = ''IN''" | "show_tok TkSelect = ''SELECT''" | "show_tok TkFrom = ''FROM''"
| "show_tok TkWhere = ''WHERE''" | "show_tok TkTrue = ''TRUE''" | "show_tok TkFalse = ''FALSE''" | "show_tok TkIs = ''IS''" | "show_tok TkNull = ''NULL''"

fun good_tok :: "tok \<Rightarrow> bool" where
  "good_tok (TkNum n) \<longleftrightarrow> (\<exists>i. n = show_int i)"
| "good_tok (TkOp s) \<longleftrightarrow> s \<noteq> [] \<and> (\<forall>c \<in> set s. op_char c)"
| "good_tok _ \<longleftrightarrow> True"

text \<open>The end of a token: nothing, or a space.\<close>

definition ends :: "string \<Rightarrow> bool" where
  "ends r \<longleftrightarrow> r = [] \<or> hd r = CHR '' ''"

lemma lex_doubled: "r = [] \<or> hd r \<noteq> q \<Longrightarrow> lex_quoted q (doubled q s @ q # r) = Some (s, r)"
proof (induction s)
  case Nil
  then show ?case by (cases r) (auto simp: doubled_def)
next
  case (Cons c s)
  have "lex_quoted q (c # doubled q s @ q # r) = Some (c # s, r)" if "c \<noteq> q"
    using Cons that by (cases "doubled q s @ q # r") auto
  then show ?case using Cons by (auto simp: doubled_def)
qed

lemma takeWhile_ends: "\<forall>c \<in> set s. P c \<Longrightarrow> ends r \<Longrightarrow> \<not> P (CHR '' '') \<Longrightarrow> takeWhile P (s @ r) = s \<and> dropWhile P (s @ r) = r"
  by (cases r) (auto simp: ends_def)

lemma not_space: "ends r \<Longrightarrow> r = [] \<or> hd r \<noteq> quote" "ends r \<Longrightarrow> r = [] \<or> hd r \<noteq> dquote"
  by (auto simp: ends_def)

lemma space_no_ident: "\<not> ident_char (CHR '' '')"
  by code_simp

lemma lex_word:
  assumes "w \<noteq> []" "\<forall>c \<in> set w. ident_char c" "is_alphabetic (hd w)" and r: "ends r"
  shows "lex_one (w @ r) = Ok (Some (keyword w), r)"
proof -
  obtain c cs where w: "w = c # cs" using assms(1) by (cases w) auto
  have a: "is_alphabetic c" using assms(3) w by simp
  then have "\<not> is_whitespace c" "c \<noteq> quote" "c \<noteq> CHR ''(''" "c \<noteq> CHR '')''" "c \<noteq> CHR '',''" "\<not> op_char c" "c \<noteq> dquote"
    "\<not> starts_number (c # cs @ r)"
    by (auto simp: is_alphabetic_def is_whitespace_def op_char_def starts_number_def digit_at_def is_ascii_digit_def code_of_def Let_def)
  moreover have "takeWhile ident_char (w @ r) = w" "dropWhile ident_char (w @ r) = r"
    using takeWhile_ends [OF assms(2) r, OF space_no_ident] by blast+
  ultimately show ?thesis using a unfolding w by (simp add: lex_one_def Let_def del: takeWhile.simps dropWhile.simps)
qed

lemma scan_mantissa_digits: "\<forall>c \<in> set ds. is_ascii_digit c \<Longrightarrow> ends r \<Longrightarrow> scan_mantissa b (ds @ r) = (ds, r)"
proof (induction ds arbitrary: b)
  case Nil
  then show ?case by (cases r) (auto simp: ends_def is_ascii_digit_def code_of_def)
next
  case (Cons c ds)
  have "c \<noteq> CHR ''.''" using Cons.prems(1) by (auto simp: is_ascii_digit_def code_of_def)
  then show ?case using Cons by simp
qed

lemma lex_number_show: "ends r \<Longrightarrow> lex_one (show_int i @ r) = Ok (Some (TkNum (show_int i)), r)"
proof -
  assume r: "ends r"
  define ds where "ds = show_nat (nat \<bar>i\<bar>)"
  have ds: "\<forall>c \<in> set ds. is_ascii_digit c" "ds \<noteq> []" using show_nat_digits by (auto simp: ds_def)
  have i: "show_int i = (if i < 0 then [CHR ''-''] else []) @ ds" by (simp add: show_int_def ds_def)
  obtain d ds' where d: "ds = d # ds'" "is_ascii_digit d" using ds by (cases ds) auto
  have dne: "d \<noteq> CHR ''-''" "d \<noteq> CHR ''(''" "d \<noteq> CHR '')''" "d \<noteq> CHR '',''" "d \<noteq> quote" "d \<noteq> dquote" "\<not> op_char d" "\<not> is_whitespace d"
    using d(2) by (auto simp: is_ascii_digit_def op_char_def is_whitespace_def code_of_def Let_def)
  have sign: "scan_sign {CHR ''-''} (show_int i @ r) = ((if i < 0 then [CHR ''-''] else []), ds @ r)" using dne(1) by (simp add: i d(1) scan_sign_def)
  have no_exp: "scan_exponent r = ([], r)" using r by (cases r) (auto simp: scan_exponent_def ends_def)
  have "\<not> (r \<noteq> [] \<and> (hd r = CHR ''.'' \<or> ident_char (hd r)))"
    using r by (auto simp: ends_def ident_char_def is_alphanumeric_def is_alphabetic_def is_ascii_digit_def code_of_def)
  then have "lex_number (show_int i @ r) = Ok (show_int i, r)"
    unfolding lex_number_def sign prod.case scan_mantissa_digits [OF ds(1) r] no_exp by (simp add: i)
  moreover have "starts_number (show_int i @ r)" using d by (simp add: i starts_number_def digit_at_def)
  moreover have "hd (show_int i @ r) = (if i < 0 then CHR ''-'' else d)" by (simp add: i d(1))
  moreover have "\<not> is_whitespace (CHR ''-'')" "\<not> op_char (CHR ''-'')" by (simp_all add: is_whitespace_def op_char_def code_of_def)
  ultimately show ?thesis using dne by (simp add: lex_one_def Let_def)
qed

lemma space_no_op: "\<not> op_char (CHR '' '')"
  by (simp add: op_char_def)

lemma lex_op: "s \<noteq> [] \<Longrightarrow> \<forall>c \<in> set s. op_char c \<Longrightarrow> ends r \<Longrightarrow> lex_one (s @ r) = Ok (Some (TkOp s), r)"
proof -
  assume s: "s \<noteq> []" "\<forall>c \<in> set s. op_char c" and r: "ends r"
  obtain c cs where c: "s = c # cs" "op_char c" using s by (cases s) auto
  have "\<not> is_whitespace c" "c \<noteq> quote" "c \<noteq> CHR ''(''" "c \<noteq> CHR '')''" "c \<noteq> CHR '',''"
    using c(2) by (auto simp: op_char_def is_whitespace_def code_of_def)
  moreover have "takeWhile op_char (s @ r) = s" "dropWhile op_char (s @ r) = r"
    using takeWhile_ends [OF s(2) r, OF space_no_op] by blast+
  ultimately show ?thesis using c(2) unfolding c(1) by (simp add: lex_one_def Let_def del: takeWhile.simps dropWhile.simps)
qed

abbreviation word_toks :: "tok set" where
  "word_toks \<equiv> {TkAnd, TkOr, TkNot, TkLike, TkBetween, TkIn, TkSelect, TkFrom, TkWhere, TkTrue, TkFalse, TkIs, TkNull}"

lemma show_keyword:
  "t \<in> word_toks \<Longrightarrow> keyword (show_tok t) = t \<and> list_all ident_char (show_tok t) \<and> show_tok t \<noteq> [] \<and> is_alphabetic (hd (show_tok t))"
  by (elim insertE emptyE; hypsubst; code_simp)

lemma lex_show: "good_tok t \<Longrightarrow> ends r \<Longrightarrow> lex_one (show_tok t @ r) = Ok (Some t, r)"
proof -
  assume t: "good_tok t" and r: "ends r"
  consider "t \<in> word_toks" | s where "t = TkIdent s" | s where "t = TkStr s" | n where "t = TkNum n" | s where "t = TkOp s"
    | "t \<in> {TkLParen, TkRParen, TkComma}" by (cases t) auto
  then show ?thesis
  proof cases
    case 1
    then have w: "keyword (show_tok t) = t" "\<forall>c \<in> set (show_tok t). ident_char c" "show_tok t \<noteq> []" "is_alphabetic (hd (show_tok t))"
      using show_keyword [OF 1] unfolding list_all_iff by blast+
    show ?thesis using lex_word [OF w(3,2,4) r] unfolding w(1) .
  next
    case 2
    then show ?thesis using lex_doubled [OF not_space(2) [OF r]] by (simp add: lex_one_def is_whitespace_def op_char_def code_of_def ok_or_def)
  next
    case 3
    then show ?thesis using lex_doubled [OF not_space(1) [OF r]] by (simp add: lex_one_def is_whitespace_def code_of_def ok_or_def)
  next
    case 4
    then show ?thesis using lex_number_show [OF r] t by auto
  next
    case 5
    then show ?thesis using lex_op [OF _ _ r] t by simp
  next
    case 6
    then show ?thesis by (auto simp: lex_one_def is_whitespace_def code_of_def)
  qed
qed

abbreviation show_toks :: "tok list \<Rightarrow> string" where
  "show_toks ts \<equiv> join '' '' (map show_tok ts)"

lemma show_tok_ends: "good_tok t \<Longrightarrow> show_tok t \<noteq> [] \<and> \<not> is_whitespace (hd (show_tok t)) \<and> \<not> is_whitespace (last (show_tok t))"
proof -
  assume t: "good_tok t"
  have d: "is_ascii_digit c \<or> c = CHR ''-'' \<or> op_char c \<Longrightarrow> \<not> is_whitespace c" for c
    by (auto simp: is_ascii_digit_def is_whitespace_def op_char_def code_of_def Let_def)
  have n: "show_int i \<noteq> []" for i by (simp add: show_int_def)
  show ?thesis
  proof (cases t)
    case (TkNum x)
    then show ?thesis using t n show_int_plain d by (metis good_tok.simps(1) show_tok.simps(3) hd_in_set last_in_set)
  next
    case (TkOp x)
    then show ?thesis using t d by simp
  qed (auto simp: is_whitespace_def code_of_def)
qed

lemma tokenize_show: "\<forall>t \<in> set ts. good_tok t \<Longrightarrow> tokenize (show_toks ts) = Ok ts"
proof (induction ts rule: induct_list012)
  case (2 t)
  then obtain c cs where c: "show_tok t = c # cs" using show_tok_ends [of t] by (cases "show_tok t") auto
  show ?case using lex_show [of t "[]"] 2 c by (simp add: ends_def)
next
  case (3 t u ts)
  obtain c cs where c: "show_tok t = c # cs" using show_tok_ends [of t] 3(3) by (cases "show_tok t") auto
  have step: "tokenize (show_tok t @ r) = rbind (tokenize r) (\<lambda>ts. Ok (t # ts))" if "ends r" for r
    using lex_show [of t r] 3(3) c that by simp
  have space: "tokenize (CHR '' '' # r) = tokenize r" for r
    by (cases "tokenize r") (simp_all add: lex_one_def is_whitespace_def code_of_def)
  have split: "show_toks (t # u # ts) = show_tok t @ CHR '' '' # show_toks (u # ts)" by simp
  have "ends (CHR '' '' # show_toks (u # ts))" by (simp add: ends_def)
  from step [OF this] show ?case unfolding split space using 3(2,3) by simp
qed simp

lemma show_toks_ends:
  assumes "\<forall>t \<in> set ts. good_tok t" and "ts \<noteq> []"
  shows "show_toks ts \<noteq> [] \<and> hd (show_toks ts) = hd (show_tok (hd ts)) \<and> \<not> is_whitespace (last (show_toks ts))"
  using assms
proof (induction ts rule: induct_list012)
  case (2 t)
  then show ?case using show_tok_ends by simp
next
  case (3 t u ts)
  then have "show_tok t \<noteq> []" "show_toks (u # ts) \<noteq> []" "\<not> is_whitespace (last (show_toks (u # ts)))" using show_tok_ends by auto
  then show ?case by (simp del: join.simps(3) add: join.simps(3) [of _ "show_tok t"])
qed simp

lemma set_operands: "set (operand_toks kw xs) \<subseteq> {TkLParen, TkRParen, kw} \<union> (\<Union>x \<in> set xs. set x)"
  by (cases xs) (auto simp: operand_toks_def)

lemma pred_toks_good: "sql_pred p \<Longrightarrow> t \<in> set (pred_toks p) \<Longrightarrow> good_tok t"
proof (induction p arbitrary: t rule: pred_toks.induct)
  case (1 col op v)
  have "good_tok (op_tok op)" by (cases op) (auto simp: op_char_def)
  moreover have "good_tok (lit_tok v)" using 1 by (cases v rule: sql_lit.cases) auto
  ultimately show ?case using 1 by auto
next
  case (3 ps)
  have "good_tok (TkNum ''0'')" using show_zero by (auto intro: exI [of _ 0])
  then show ?case using 3 set_operands [of TkAnd "map pred_toks ps"] by (cases "ps = []") (auto simp: op_char_def)
next
  case (4 ps)
  have "good_tok (TkNum ''0'')" "good_tok (TkNum ''1'')" using show_zero show_one by (auto intro: exI [of _ 0] exI [of _ 1])
  then show ?case using 4 set_operands [of TkOr "map pred_toks ps"] by (cases "ps = []") (auto simp: op_char_def)
qed (auto split: option.splits if_splits)

definition print_where :: "predicate_json \<Rightarrow> string" where
  "print_where p = show_toks (pred_toks p)"


section \<open>Bound parameters\<close>

text \<open>A text that stops every token it follows, and tokenizing up to it.\<close>

definition stops :: "string \<Rightarrow> bool" where
  "stops r \<longleftrightarrow> r = [] \<or> hd r \<in> {quote, dquote, CHR ''$''}"

lemma stopsD:
  assumes "stops r"
  shows "r = [] \<or> \<not> is_ascii_digit (hd r)" "r = [] \<or> hd r \<noteq> CHR ''.''" "r = [] \<or> hd r \<notin> {CHR ''+'', CHR ''-''}" "r = [] \<or> hd r \<noteq> CHR ''e'' \<and> hd r \<noteq> CHR ''E''"
    "r = [] \<or> \<not> ident_char (hd r)" "r = [] \<or> \<not> op_char (hd r)"
proof -
  have "\<forall>c \<in> {quote, dquote, CHR ''$''}. \<not> is_ascii_digit c \<and> c \<noteq> CHR ''.'' \<and> c \<notin> {CHR ''+'', CHR ''-''} \<and> c \<noteq> CHR ''e'' \<and> c \<noteq> CHR ''E'' \<and> \<not> ident_char c \<and> \<not> op_char c"
    by code_simp
  with assms show "r = [] \<or> \<not> is_ascii_digit (hd r)" "r = [] \<or> hd r \<noteq> CHR ''.''" "r = [] \<or> hd r \<notin> {CHR ''+'', CHR ''-''}" "r = [] \<or> hd r \<noteq> CHR ''e'' \<and> hd r \<noteq> CHR ''E''"
    "r = [] \<or> \<not> ident_char (hd r)" "r = [] \<or> \<not> op_char (hd r)" unfolding stops_def by blast+
qed

lemma while_stop: "r = [] \<or> \<not> P (hd r) \<Longrightarrow> takeWhile P (a @ r) = takeWhile P a \<and> dropWhile P (a @ r) = dropWhile P a @ r"
  by (induction a) (cases r; auto)+

lemma digit_stop: "stops r \<Longrightarrow> j \<le> length a \<Longrightarrow> digit_at (a @ r) j = digit_at a j"
  using stopsD(1) [of r] by (cases "j = length a") (auto simp: digit_at_def nth_append hd_conv_nth)

lemma starts_number_stop: "a \<noteq> [] \<Longrightarrow> stops r \<Longrightarrow> starts_number (a @ r) = starts_number a"
proof -
  assume a: "a \<noteq> []" and r: "stops r"
  have dot: "1 < length (a @ r) \<and> (a @ r) ! 1 = CHR ''.'' \<longleftrightarrow> 1 < length a \<and> a ! 1 = CHR ''.''"
  proof (cases "length a = 1")
    case True
    then show ?thesis using stopsD(2) [OF r] by (cases r) (simp_all add: nth_append)
  next
    case False
    then have "1 < length a" using a by (cases a) auto
    then show ?thesis by (simp add: nth_append)
  qed
  have len: "1 \<le> length a" using a by (cases a) auto
  have "digit_at (a @ r) 1 = digit_at a 1" "digit_at (a @ r) 0 = digit_at a 0" using digit_stop [OF r, of 1 a] digit_stop [OF r, of 0 a] len by simp_all
  moreover have "1 < length a \<Longrightarrow> digit_at (a @ r) 2 = digit_at a 2" using digit_stop [OF r, of 2 a] by simp
  moreover have "(a @ r) ! 0 = a ! 0" using a by (cases a) auto
  ultimately show ?thesis unfolding starts_number_def using dot
    by (cases "1 < length a \<and> a ! 1 = CHR ''.''") (simp_all only: conj_assoc simp_thms, (argo | blast)?)
qed

lemma scan_mantissa_stop: "stops r \<Longrightarrow> scan_mantissa b (a @ r) = (fst (scan_mantissa b a), snd (scan_mantissa b a) @ r)"
proof (induction b a rule: scan_mantissa.induct)
  case (1 seen)
  then show ?case using stopsD(1,2) [of r] by (cases r) auto
next
  case (2 seen c cs)
  then show ?case by (auto split: prod.split)
qed

lemma scan_sign_stop: "r = [] \<or> hd r \<notin> signs \<Longrightarrow> scan_sign signs (a @ r) = (fst (scan_sign signs a), snd (scan_sign signs a) @ r)"
  by (cases a; cases r) (auto simp: scan_sign_def)

lemma scan_exponent_stop:
  assumes r: "stops r"
  shows "scan_exponent (a @ r) = (fst (scan_exponent a), snd (scan_exponent a) @ r)"
proof (cases a)
  case Nil
  then show ?thesis using stopsD(4) [OF r] by (cases r) (auto simp: scan_exponent_def)
next
  case (Cons c cs)
  have d: "digit_at (x @ r) 0 = digit_at x 0" for x using digit_stop [OF r, of 0] by simp
  show ?thesis using while_stop [of r is_ascii_digit "snd (scan_sign {CHR ''+'', CHR ''-''} cs)"] stopsD(1) [OF r]
      scan_sign_stop [of r "{CHR ''+'', CHR ''-''}" cs] stopsD(3) [OF r]
    by (auto simp: Cons scan_exponent_def d split: prod.split)
qed

lemma lex_number_stop:
  assumes r: "stops r"
  shows "lex_number (a @ r) = (case lex_number a of Inl e \<Rightarrow> Err e | Inr (b, a') \<Rightarrow> Ok (b, a' @ r))"
proof -
  obtain sg r0 where sg: "scan_sign {CHR ''-''} a = (sg, r0)" by fastforce
  obtain m r1 where m: "scan_mantissa False r0 = (m, r1)" by fastforce
  obtain e r2 where e: "scan_exponent r1 = (e, r2)" by fastforce
  have "scan_sign {CHR ''-''} (a @ r) = (sg, r0 @ r)" "scan_mantissa False (r0 @ r) = (m, r1 @ r)" "scan_exponent (r1 @ r) = (e, r2 @ r)"
    using scan_sign_stop [of r "{CHR ''-''}" a] stopsD(3) [OF r] scan_mantissa_stop [OF r, of False r0] scan_exponent_stop [OF r, of r1] sg m e by auto
  moreover have "r2 @ r \<noteq> [] \<and> (hd (r2 @ r) = CHR ''.'' \<or> ident_char (hd (r2 @ r))) \<longleftrightarrow> r2 \<noteq> [] \<and> (hd r2 = CHR ''.'' \<or> ident_char (hd r2))"
    using stopsD(2,5) [OF r] by (cases r2) auto
  ultimately show ?thesis unfolding lex_number_def sg m e prod.case
    by (cases "r2 \<noteq> [] \<and> (hd r2 = CHR ''.'' \<or> ident_char (hd r2))") (simp_all only: prod.case sum.case if_True if_False simp_thms)
qed

lemma lex_one_stop:
  assumes a: "a \<noteq> []" "hd a \<notin> {quote, dquote}" and r: "stops r"
  shows "lex_one (a @ r) = (case lex_one a of Inl e \<Rightarrow> Err e | Inr (t, a') \<Rightarrow> Ok (t, a' @ r))"
proof -
  obtain c cs where c: "a = c # cs" using a(1) by (cases a) auto
  have q: "c \<noteq> quote" "c \<noteq> dquote" using a(2) c by auto
  note w = while_stop [of r op_char a] while_stop [of r ident_char a] stopsD(5,6) [OF r] starts_number_stop [OF a(1) r] lex_number_stop [OF r, of a]
  have "hd (a @ r) = c" "tl (a @ r) = cs @ r" "hd a = c" "tl a = cs" by (simp_all add: c)
  then show ?thesis unfolding lex_one_def Let_def using w q
    by (simp del: dropWhile.simps takeWhile.simps add: rbind_def split: sum.split prod.split)
qed

text \<open>Where a position of a clause is, and clauses that keep quotes and dollar signs out of their quoted
  identifiers.\<close>

datatype place = Outside | InText | InIdent

fun plain_idents :: "place \<Rightarrow> string \<Rightarrow> bool" where
  "plain_idents m [] \<longleftrightarrow> True"
| "plain_idents Outside (c # cs) \<longleftrightarrow> plain_idents (if c = quote then InText else if c = dquote then InIdent else Outside) cs"
| "plain_idents InText (c # cs) \<longleftrightarrow> plain_idents (if c = quote then Outside else InText) cs"
| "plain_idents InIdent (c # cs) \<longleftrightarrow> (if c = dquote then plain_idents Outside cs else c \<noteq> quote \<and> c \<noteq> CHR ''$'' \<and> plain_idents InIdent cs)"

definition placeholder :: "string \<Rightarrow> bool" where
  "placeholder w \<longleftrightarrow> (\<exists>d cs. w = CHR ''$'' # d # cs \<and> is_ascii_digit d)"

text \<open>The substitution, one character at a time.\<close>

lemma sub_text: "substitute_from P True (c # cs) = rbind (substitute_from P (c \<noteq> quote) cs) (\<lambda>s. Ok (c # s))"
  by (cases cs) (auto simp: rbind_def split: sum.splits)

lemma sub_quote: "substitute_from P False (quote # cs) = rbind (substitute_from P True cs) (\<lambda>s. Ok (quote # s))"
  by simp

lemma sub_other: "c \<noteq> quote \<Longrightarrow> \<not> placeholder (c # cs) \<Longrightarrow> substitute_from P False (c # cs) = rbind (substitute_from P False cs) (\<lambda>s. Ok (c # s))"
  by (cases cs) (auto simp: placeholder_def)

lemma sub_placeholder:
  assumes "placeholder w" and "substitute_from P False w = Ok s"
  shows "\<exists>v s1. P (takeWhile is_ascii_digit (tl w)) = Some v \<and> substitute_from P False (dropWhile is_ascii_digit (tl w)) = Ok s1 \<and> s = quote # doubled quote v @ quote # s1"
proof -
  obtain d cs where w: "w = CHR ''$'' # d # cs" "is_ascii_digit d" using assms(1) by (auto simp: placeholder_def)
  show ?thesis using assms(2) unfolding w(1)
    by (auto simp: w(2) res_simps Let_def split: option.splits)
qed

lemma placeholder_rest: "placeholder w \<Longrightarrow> length (dropWhile is_ascii_digit (tl w)) < length w"
  using length_dropWhile_le [of is_ascii_digit "tl w"] by (auto simp: placeholder_def)

lemma plain_digits: "plain_idents Outside (dropWhile is_ascii_digit cs) = plain_idents Outside cs"
proof (induction cs)
  case (Cons c cs)
  have "is_ascii_digit c \<Longrightarrow> c \<noteq> quote \<and> c \<noteq> dquote" by (auto simp: is_ascii_digit_def code_of_def)
  then show ?case using Cons by auto
qed simp

lemma plain_placeholder: "placeholder w \<Longrightarrow> plain_idents Outside w \<Longrightarrow> plain_idents Outside (dropWhile is_ascii_digit (tl w))"
  using plain_digits [of "tl w"] by (auto simp: placeholder_def)

lemma lex_push: "c \<noteq> q \<Longrightarrow> lex_quoted q (c # s) = map_option (\<lambda>(b, r). (c # b, r)) (lex_quoted q s)"
  by (cases s) auto

lemma lex_close: "lex_quoted q (q # s) = (if s \<noteq> [] \<and> hd s = q then map_option (\<lambda>(b, r). (q # b, r)) (lex_quoted q (tl s)) else Some ([], s))"
  by (cases s) auto

lemma lex_doubled_on: "lex_quoted q (doubled q v @ s) = map_option (\<lambda>(b, r). (v @ b, r)) (lex_quoted q s)"
proof (induction v)
  case Nil
  show ?case by (simp add: doubled_def option.map_ident split_beta)
next
  case (Cons c v)
  have d: "doubled q (c # v) @ s = (if c = q then q # q # doubled q v @ s else c # doubled q v @ s)" by (simp add: doubled_def)
  show ?case unfolding d using Cons lex_push [of c q "doubled q v @ s"] lex_close [of q "q # doubled q v @ s"]
    by (auto simp: option.map_comp comp_def split_beta)
qed

text \<open>Two bindings of a clause, lexed side by side: \<open>both n r r'\<close> says that the texts left are those of one
  rest of the clause.\<close>

definition both :: "(string \<Rightarrow> string option) \<Rightarrow> (string \<Rightarrow> string option) \<Rightarrow> nat \<Rightarrow> string \<Rightarrow> string \<Rightarrow> bool" where
  "both P P' n r r' \<longleftrightarrow> (\<exists>w. plain_idents Outside w \<and> length w \<le> n \<and> substitute_from P False w = Ok r \<and> substitute_from P' False w = Ok r')"

definition together :: "(string \<Rightarrow> string option) \<Rightarrow> (string \<Rightarrow> string option) \<Rightarrow> nat \<Rightarrow> (string \<times> string) option \<Rightarrow> (string \<times> string) option \<Rightarrow> bool" where
  "together P P' n = rel_option (\<lambda>(b, r) (b', r'). both P P' n r r')"

lemma together_map: "together P P' m x y \<Longrightarrow> m \<le> n \<Longrightarrow> together P P' n (map_option (\<lambda>(b, r). (f b, r)) x) (map_option (\<lambda>(b, r). (g b, r)) y)"
  unfolding together_def both_def by (cases x; cases y) (auto intro: order_trans)

lemma both_texts:
  "plain_idents Outside w \<Longrightarrow> substitute_from P False w = Ok s \<Longrightarrow> substitute_from P' False w = Ok s' \<Longrightarrow>
     together P P' (length w) (lex_quoted quote (quote # s)) (lex_quoted quote (quote # s'))"
  "plain_idents InText w \<Longrightarrow> substitute_from P True w = Ok s \<Longrightarrow> substitute_from P' True w = Ok s' \<Longrightarrow>
     together P P' (length w) (lex_quoted quote s) (lex_quoted quote s')"
proof (induction w arbitrary: s s' rule: measure_induct_rule [where f = length])
  case (less w)
  note IH = less.IH
  { case 1
    note pre = 1
    consider (nil) "w = []" | (q) cs where "w = quote # cs" | (ph) "placeholder w" | (oth) c cs where "w = c # cs" "c \<noteq> quote" "\<not> placeholder w" by (cases w) auto
    then show ?case
    proof cases
      case nil
      with pre(2,3) show ?thesis by (auto simp: together_def both_def)
    next
      case q
      with pre(2,3) obtain s1 s1' where s: "substitute_from P True cs = Ok s1" "s = quote # s1" "substitute_from P' True cs = Ok s1'" "s' = quote # s1'"
        by (auto simp: sub_quote res_simps simp del: substitute_from.simps)
      have "together P P' (length cs) (lex_quoted quote s1) (lex_quoted quote s1')" using IH(2) [of cs] s pre(1) q by simp
      from together_map [OF this, of "length w"] show ?thesis by (simp add: lex_close s q)
    next
      case ph
      let ?rest = "dropWhile is_ascii_digit (tl w)"
      obtain v s1 where s: "substitute_from P False ?rest = Ok s1" "s = quote # doubled quote v @ quote # s1"
        using sub_placeholder [OF ph pre(2)] by blast
      obtain v' s1' where s': "substitute_from P' False ?rest = Ok s1'" "s' = quote # doubled quote v' @ quote # s1'"
        using sub_placeholder [OF ph pre(3)] by blast
      have "together P P' (length ?rest) (lex_quoted quote (quote # s1)) (lex_quoted quote (quote # s1'))"
        using IH(1) [OF placeholder_rest [OF ph] plain_placeholder [OF ph pre(1)] s(1) s'(1)] .
      from together_map [OF this, of "length w" "\<lambda>b. quote # v @ b" "\<lambda>b. quote # v' @ b"] placeholder_rest [OF ph] show ?thesis
        unfolding lex_close [of quote s] lex_close [of quote s'] by (simp add: s(2) s'(2) lex_doubled_on option.map_comp comp_def case_prod_beta')
    next
      case oth
      with pre(2,3) obtain s1 s1' where s: "s = c # s1" "s' = c # s1'"
        using sub_other [OF oth(2), of cs] by (auto simp: res_simps simp del: substitute_from.simps)
      then show ?thesis using pre oth(2) by (auto simp: lex_close together_def both_def)
    qed
  }
  { case 2
    note pre = 2
    show ?case
    proof (cases w)
      case Nil
      then show ?thesis using pre(2,3) by (simp add: together_def)
    next
      case (Cons c cs)
      with pre(2,3) obtain s1 s1' where s: "substitute_from P (c \<noteq> quote) cs = Ok s1" "s = c # s1" "substitute_from P' (c \<noteq> quote) cs = Ok s1'" "s' = c # s1'"
        by (auto simp: sub_text res_simps simp del: substitute_from.simps)
      show ?thesis
      proof (cases "c = quote")
        case True
        have "together P P' (length cs) (lex_quoted quote (quote # s1)) (lex_quoted quote (quote # s1'))" using IH(1) [of cs] s pre(1) Cons True by simp
        then show ?thesis using s True Cons by (auto simp: together_def both_def intro: le_SucI elim!: option.rel_mono_strong)
      next
        case False
        have "together P P' (length cs) (lex_quoted quote s1) (lex_quoted quote s1')" using IH(2) [of cs] s pre(1) Cons False by simp
        from together_map [OF this, of "length w"] show ?thesis by (simp add: lex_push [OF False] s Cons)
      qed
    qed
  }
qed

lemma sub_hd:
  assumes "substitute_from P False w = Ok s"
  shows "w = [] \<and> s = [] \<or> w \<noteq> [] \<and> s \<noteq> [] \<and> hd s = (if placeholder w then quote else hd w)"
proof (cases w)
  case (Cons c cs)
  show ?thesis
  proof (cases "placeholder w")
    case True
    then show ?thesis using sub_placeholder [OF True assms] Cons by auto
  next
    case False
    have "\<exists>b. substitute_from P False w = rbind (substitute_from P b cs) (\<lambda>s. Ok (c # s))"
      using sub_other [of c cs P] sub_quote [of P cs] False Cons by (cases "c = quote") blast+
    then obtain b where "rbind (substitute_from P b cs) (\<lambda>s. Ok (c # s)) = Ok s" using assms by auto
    then show ?thesis using False Cons by (auto simp: res_simps)
  qed
qed (use assms in simp)

lemma both_idents:
  assumes "plain_idents InIdent w" and "substitute_from P False w = Ok s" and "substitute_from P' False w = Ok s'"
  shows "rel_option (\<lambda>(b, r) (b', r'). b = b' \<and> both P P' (length w) r r') (lex_quoted dquote s) (lex_quoted dquote s')"
  using assms
proof (induction w arbitrary: s s' rule: measure_induct_rule [where f = length])
  case (less w)
  show ?case
  proof (cases w)
    case Nil
    then show ?thesis using less.prems by simp
  next
    case (Cons c cs)
    have cc: "c \<noteq> quote \<and> \<not> placeholder w" using less.prems(1) Cons by (auto simp: placeholder_def split: if_splits)
    with less.prems(2,3) obtain s1 s1' where s: "substitute_from P False cs = Ok s1" "s = c # s1" "substitute_from P' False cs = Ok s1'" "s' = c # s1'"
      using sub_other [of c cs] Cons by (auto simp: res_simps simp del: substitute_from.simps)
    have mono: "rel_option (\<lambda>(b, r) (b', r'). b = b' \<and> both P P' (length w) r r') (map_option (\<lambda>(b, r). (c # b, r)) x) (map_option (\<lambda>(b, r). (c # b, r)) y)"
      if "rel_option (\<lambda>(b, r) (b', r'). b = b' \<and> both P P' m r r') x y" "m \<le> length w" for m x y
      using that unfolding both_def by (cases x; cases y) (auto intro: order_trans)
    show ?thesis
    proof (cases "c = dquote")
      case False
      then have "rel_option (\<lambda>(b, r) (b', r'). b = b' \<and> both P P' (length cs) r r') (lex_quoted dquote s1) (lex_quoted dquote s1')"
        using less.IH [of cs s1 s1'] s less.prems(1) Cons by simp
      from mono [OF this] show ?thesis using Cons by (simp add: s lex_push [OF False])
    next
      case c: True
      have out: "plain_idents Outside cs" using less.prems(1) Cons c by simp
      show ?thesis
      proof (cases "cs \<noteq> [] \<and> hd cs = dquote")
        case True
        then obtain ds where ds: "cs = dquote # ds" by (cases cs) auto
        with s obtain s2 s2' where s2: "substitute_from P False ds = Ok s2" "s1 = dquote # s2" "substitute_from P' False ds = Ok s2'" "s1' = dquote # s2'"
          using sub_other [of dquote ds] by (auto simp: placeholder_def res_simps simp del: substitute_from.simps)
        have "rel_option (\<lambda>(b, r) (b', r'). b = b' \<and> both P P' (length ds) r r') (lex_quoted dquote s2) (lex_quoted dquote s2')"
          using less.IH [of ds s2 s2'] s2 out Cons ds by simp
        from mono [OF this] show ?thesis using Cons ds c by (simp add: s s2 lex_close)
      next
        case False
        have hd_out: "x = [] \<or> hd x \<noteq> dquote" if "substitute_from Q False cs = Ok x" for Q x
        proof (cases cs)
          case Nil
          then show ?thesis using that by simp
        next
          case (Cons d ds)
          then show ?thesis using sub_hd [OF that] False by auto
        qed
        have "both P P' (length w) s1 s1'" using s out Cons by (auto simp: both_def)
        then show ?thesis using hd_out [OF s(1)] hd_out [OF s(3)] c by (auto simp: s lex_close)
      qed
    qed
  qed
qed

abbreviation plain_char :: "char \<Rightarrow> bool" where
  "plain_char c \<equiv> c \<notin> {quote, dquote, CHR ''$''}"

lemma sub_plain: "\<forall>c \<in> set a. plain_char c \<Longrightarrow> substitute_from P False (a @ w) = rbind (substitute_from P False w) (\<lambda>s. Ok (a @ s))"
proof (induction a)
  case (Cons c a)
  have "substitute_from P False ((c # a) @ w) = rbind (substitute_from P False (a @ w)) (\<lambda>s. Ok (c # s))"
    using sub_other [of c "a @ w" P] Cons.prems by (auto simp: placeholder_def)
  then show ?case using Cons by (cases "substitute_from P False w") auto
qed (cases "substitute_from P False w"; simp)

lemma plain_append: "\<forall>c \<in> set a. plain_char c \<Longrightarrow> plain_idents Outside (a @ w) = plain_idents Outside w"
  by (induction a) auto

lemma sub_stops: "w = [] \<or> \<not> plain_char (hd w) \<Longrightarrow> substitute_from P False w = Ok s \<Longrightarrow> stops s"
  using sub_hd [of P w s] by (auto simp: stops_def split: if_splits)

lemma lex_one_suffix:
  assumes a: "a \<noteq> []" "hd a \<notin> {quote, dquote}" and l: "lex_one a = Ok (t, a')"
  shows "\<exists>b. a = b @ a'"
proof -
  obtain c cs where c: "a = c # cs" using a(1) by (cases a) auto
  have num: "\<exists>b. a = b @ a'" if n: "lex_number a = Ok (x, a')" for x
  proof -
    obtain sg r0 where sg: "scan_sign {CHR ''-''} a = (sg, r0)" by fastforce
    obtain m r1 where m: "scan_mantissa False r0 = (m, r1)" by fastforce
    obtain e r2 where e: "scan_exponent r1 = (e, r2)" by fastforce
    have "a' = r2" using n by (simp add: lex_number_def sg m e split: if_splits)
    then show ?thesis using scan_sign_rest [OF sg] scan_mantissa_rest [OF m] scan_exponent_rest [OF e] by (metis append.assoc)
  qed
  have drop: "\<exists>b. a = b @ dropWhile Q a" for Q by (metis takeWhile_dropWhile_id)
  have one: "\<exists>b. a = b @ cs" by (simp add: c)
  have hd: "hd a = c" "tl a = cs" "c \<noteq> quote" "c \<noteq> dquote" using a(2) by (simp_all add: c)
  show ?thesis
    using l num drop [of op_char] drop [of ident_char] one unfolding lex_one_def Let_def hd(1,2) if_not_P [OF hd(3)] if_not_P [OF hd(4)]
    by (auto simp: res_simps simp del: takeWhile.simps dropWhile.simps split: if_splits)
qed

definition same_shape :: "tok \<Rightarrow> tok \<Rightarrow> bool" where
  "same_shape t u \<longleftrightarrow> t = u \<or> (\<exists>a b. t = TkStr a \<and> u = TkStr b)"

definition same_shapes :: "tok list result \<Rightarrow> tok list result \<Rightarrow> bool" where
  "same_shapes r r' = (case (r, r') of (Inr ts, Inr ts') \<Rightarrow> list_all2 same_shape ts ts' | (Inl e, Inl e') \<Rightarrow> e = e' | _ \<Rightarrow> False)"

lemma same_shape_simps [simp]: "same_shape t t" "same_shape (TkStr a) (TkStr b)" "same_shapes (Inl e) (Inl e)"
  by (auto simp: same_shape_def same_shapes_def)

lemma same_shapes_cons: "same_shape t t' \<Longrightarrow> same_shapes r r' \<Longrightarrow> same_shapes (rbind r (\<lambda>ts. Ok (t # ts))) (rbind r' (\<lambda>ts. Ok (t' # ts)))"
  by (cases r; cases r') (auto simp: same_shapes_def)

lemma same_shapes_skip: "same_shapes r r' \<Longrightarrow> same_shapes (rbind r (\<lambda>ts. Ok (case t of None \<Rightarrow> ts | Some t' \<Rightarrow> t' # ts))) (rbind r' (\<lambda>ts. Ok (case t of None \<Rightarrow> ts | Some t' \<Rightarrow> t' # ts)))"
  by (cases r; cases r'; cases t) (auto simp: same_shapes_def same_shape_def)

text \<open>A text literal, and a quoted identifier, at the head of two texts.\<close>

lemma tokenize_quoted: "tokenize (quote # s) = (case lex_quoted quote s of None \<Rightarrow> Err (Other ''unterminated string literal'')
    | Some (b, r) \<Rightarrow> rbind (tokenize r) (\<lambda>ts. Ok (TkStr b # ts)))"
  by (simp add: lex_one_def is_whitespace_def code_of_def ok_or_def split: option.split prod.split)

lemma tokenize_dquoted: "tokenize (dquote # s) = (case lex_quoted dquote s of None \<Rightarrow> Err (Other ''unterminated quoted identifier'')
    | Some (b, r) \<Rightarrow> rbind (tokenize r) (\<lambda>ts. Ok (TkIdent b # ts)))"
  by (simp add: lex_one_def is_whitespace_def op_char_def code_of_def ok_or_def split: option.split prod.split)

lemma tokenize_dollar: "\<exists>e. \<forall>s. tokenize (CHR ''$'' # s) = Err e"
  by (simp add: lex_one_def is_whitespace_def op_char_def starts_number_def digit_at_def is_ascii_digit_def is_alphabetic_def code_of_def)

lemma tokenize_plain:
  assumes a: "a \<noteq> []" "hd a \<notin> {quote, dquote}" and s: "stops s"
  shows "tokenize (a @ s) = (case lex_one a of Inl e \<Rightarrow> Err e
    | Inr (t, a') \<Rightarrow> rbind (tokenize (a' @ s)) (\<lambda>ts. Ok (case t of None \<Rightarrow> ts | Some t' \<Rightarrow> t' # ts)))"
proof -
  obtain c cs where c: "a = c # cs" using a(1) by (cases a) auto
  have l: "lex_one (c # cs @ s) = (case lex_one a of Inl e \<Rightarrow> Err e | Inr (t, a') \<Rightarrow> Ok (t, a' @ s))" using lex_one_stop [OF a s] c by simp
  have "tokenize (a @ s) = (case lex_one (c # cs @ s) of Inl e \<Rightarrow> Err e
    | Inr (t, r) \<Rightarrow> rbind (tokenize r) (\<lambda>ts. Ok (case t of None \<Rightarrow> ts | Some t' \<Rightarrow> t' # ts)))" by (simp add: c)
  then show ?thesis unfolding l by (simp split: sum.split prod.split)
qed

lemma tokenize_both:
  assumes "plain_idents Outside w" and "substitute_from P False w = Ok s" and "substitute_from P' False w = Ok s'"
  shows "same_shapes (tokenize s) (tokenize s')"
  using assms
proof (induction w arbitrary: s s' rule: measure_induct_rule [where f = length])
  case (less w)
  have go: "same_shapes (tokenize r) (tokenize r')" if "both P P' n r r'" "n < length w" for n r r'
    using that less.IH unfolding both_def by (meson order_le_less_trans)
  have lit: "same_shapes (tokenize (quote # u)) (tokenize (quote # u'))" if "together P P' n (lex_quoted quote u) (lex_quoted quote u')" "n < length w" for n u u'
    using that go unfolding tokenize_quoted together_def
    by (cases "lex_quoted quote u"; cases "lex_quoted quote u'") (auto intro!: same_shapes_cons go)
  consider (nil) "w = []" | (q) cs where "w = quote # cs" | (ph) "placeholder w" | (dq) cs where "w = dquote # cs"
    | (dollar) cs where "w = CHR ''$'' # cs" "\<not> placeholder w" | (pl) "w \<noteq> []" "plain_char (hd w)"
    by (cases w) auto
  then show ?case
  proof cases
    case nil
    then show ?thesis using less.prems by (simp add: same_shapes_def)
  next
    case q
    with less.prems obtain s1 s1' where s: "substitute_from P True cs = Ok s1" "s = quote # s1" "substitute_from P' True cs = Ok s1'" "s' = quote # s1'"
      by (auto simp: sub_quote res_simps simp del: substitute_from.simps)
    have "plain_idents InText cs" using less.prems(1) q by simp
    from lit [OF both_texts(2) [OF this s(1,3)]] show ?thesis using q by (simp add: s(2,4) del: tokenize.simps)
  next
    case ph
    let ?rest = "dropWhile is_ascii_digit (tl w)"
    obtain v s1 where s: "substitute_from P False ?rest = Ok s1" "s = quote # doubled quote v @ quote # s1" using sub_placeholder [OF ph less.prems(2)] by blast
    obtain v' s1' where s': "substitute_from P' False ?rest = Ok s1'" "s' = quote # doubled quote v' @ quote # s1'" using sub_placeholder [OF ph less.prems(3)] by blast
    have "together P P' (length ?rest) (lex_quoted quote (quote # s1)) (lex_quoted quote (quote # s1'))"
      using both_texts(1) [OF plain_placeholder [OF ph less.prems(1)] s(1) s'(1)] .
    from together_map [OF this order_refl, of "\<lambda>b. v @ b" "\<lambda>b. v' @ b"] show ?thesis
      unfolding s(2) s'(2) by (intro lit [OF _ placeholder_rest [OF ph]]) (simp add: lex_doubled_on)
  next
    case dq
    with less.prems obtain s1 s1' where s: "substitute_from P False cs = Ok s1" "s = dquote # s1" "substitute_from P' False cs = Ok s1'" "s' = dquote # s1'"
      using sub_other [of dquote cs] by (auto simp: placeholder_def res_simps simp del: substitute_from.simps)
    have "plain_idents InIdent cs" using less.prems(1) dq by simp
    from both_idents [OF this s(1,3)] show ?thesis using go [of "length cs"] dq unfolding s(2,4) tokenize_dquoted
      by (cases "lex_quoted dquote s1"; cases "lex_quoted dquote s1'") (auto intro!: same_shapes_cons go)
  next
    case dollar
    with less.prems obtain s1 s1' where "s = CHR ''$'' # s1" "s' = CHR ''$'' # s1'"
      using sub_other [of "CHR ''$''" cs] by (auto simp: res_simps simp del: substitute_from.simps)
    then show ?thesis using tokenize_dollar by (auto simp: same_shapes_def simp del: tokenize.simps)
  next
    case pl
    let ?a = "takeWhile plain_char w" and ?w = "dropWhile plain_char w"
    have a: "?a \<noteq> []" "hd ?a \<notin> {quote, dquote}" "\<forall>c \<in> set ?a. plain_char c" using pl by (cases w; auto dest: set_takeWhileD)+
    have sub: "substitute_from Q False w = rbind (substitute_from Q False ?w) (\<lambda>s. Ok (?a @ s))" for Q
      using sub_plain [OF a(3), of Q ?w] by (simp only: takeWhile_dropWhile_id)
    obtain s1 s1' where s: "substitute_from P False ?w = Ok s1" "s = ?a @ s1" "substitute_from P' False ?w = Ok s1'" "s' = ?a @ s1'"
      using less.prems(2,3) unfolding sub [of P] sub [of P'] by (auto simp: res_simps)
    have w: "?w = [] \<or> \<not> plain_char (hd ?w)" using hd_dropWhile [of plain_char w] by blast
    note st = sub_stops [OF w s(1)] sub_stops [OF w s(3)]
    show ?thesis
    proof (cases "lex_one ?a")
      case (Inl e)
      then show ?thesis using tokenize_plain [OF a(1,2) st(1)] tokenize_plain [OF a(1,2) st(2)] by (simp add: s(2,4) same_shapes_def)
    next
      case (Inr x)
      obtain t a' where x: "x = (t, a')" by (cases x)
      from lex_one_suffix [OF a(1,2) Inr [unfolded x]] obtain b where b: "?a = b @ a'" by blast
      have a': "\<forall>c \<in> set a'. plain_char c" using a(3) unfolding b by simp
      have "length a' < length ?a" using lex_one_shorter [of "hd ?a" "tl ?a"] a(1) Inr x by simp
      moreover have "length ?a + length ?w = length w" unfolding length_append [symmetric] by (rule arg_cong [OF takeWhile_dropWhile_id])
      ultimately have len: "length (a' @ ?w) < length w" unfolding length_append by linarith
      have "plain_idents Outside ?w" using plain_append [OF a(3), of ?w] less.prems(1) by (simp only: takeWhile_dropWhile_id)
      then have "same_shapes (tokenize (a' @ s1)) (tokenize (a' @ s1'))"
        using less.IH [OF len, of "a' @ s1" "a' @ s1'"] sub_plain [OF a', of _ ?w] plain_append [OF a', of ?w] s(1,3) by simp
      then show ?thesis using same_shapes_skip tokenize_plain [OF a(1,2) st(1)] tokenize_plain [OF a(1,2) st(2)] Inr x by (simp add: s(2,4))
    qed
  qed
qed


section \<open>Examples\<close>

definition example_clause :: string where
  "example_clause = ''owner = $1 AND note = '' @ [quote] @ ''cost $1'' @ [quote]"


definition example_pred :: predicate_json where
  "example_pred = PAnd [PNot (PLeaf [dquote] OpLike (JStr [quote])),
     PIn ''owner'' (Subquery \<lparr>canon = ''public.users'', dot = 6\<rparr> ''id'' (Some (PIsNull ''gone'' True))) True]"


text \<open>Where the clause puts a placeholder inside a quoted identifier, a value does break out.\<close>

lemma value_leaves_identifier:
  "map_res (\<lambda>v. rbind (substitute ([dquote] @ ''co$1l'' @ [dquote] @ '' = 1'') [(''1'', v)]) tokenize) [''x'', [dquote] @ '' IS NULL OR '' @ [dquote]]
     = Ok [[TkIdent (''co'' @ [quote] @ ''x'' @ [quote] @ ''l''), TkOp ''='', TkNum ''1''],
           [TkIdent (''co'' @ [quote]), TkIs, TkNull, TkOr, TkIdent ([quote] @ ''l''), TkOp ''='', TkNum ''1'']]"
  by code_simp

text \<open>The null tests of a subquery are looked up in the outer table: a column of the inner table alone is
  refused.\<close>

lemma inner_column_refused:
  assumes "column_index sch ''gone'' = Inl e"
  shows "parse_where_typed F ''owner IN (SELECT id FROM users WHERE gone IS NULL)'' (Some sch) = Some (Err e)"
proof -
  have "tokenize ''owner IN (SELECT id FROM users WHERE gone IS NULL)''
      = Ok [TkIdent ''owner'', TkIn, TkLParen, TkSelect, TkIdent ''id'', TkFrom, TkIdent ''users'', TkWhere, TkIdent ''gone'', TkIs, TkNull, TkRParen]"
    "trim ''owner IN (SELECT id FROM users WHERE gone IS NULL)'' = ''owner IN (SELECT id FROM users WHERE gone IS NULL)''"
    "\<not> eq_ignore_ascii_case ''owner IN (SELECT id FROM users WHERE gone IS NULL)'' ''true''"
    "table_parse ''users'' = Ok \<lparr>canon = ''public.users'', dot = 6\<rparr>" by code_simp+
  note text_facts = this
  have err: "parse_or F (Some sch) (Suc n) ts = Some (Err e)" if "parse_not F (Some sch) (parse_or F (Some sch) n) ts = Some (Err e)" for n ts
    using that by (simp add: parse_and_def pbind_def)
  have "parse_not F (Some sch) self (TkIdent ''gone'' # TkIs # r) = Some (Err e)" if "r = [TkNull, TkRParen]" for self r
    using assms that by (simp add: parse_primary_def parse_predicate_def parse_ident_def eat_not_def eat_def parse_is_def)
  note inner = err [OF this]
  have "parse_not F (Some sch) self (TkIdent ''owner'' # TkIn # TkLParen # TkSelect # TkIdent ''id'' # TkFrom # TkIdent ''users'' # TkWhere # ts) = Some (Err e)"
    if "self ts = Some (Err e)" for self ts
    using that text_facts(4)
    by (simp add: parse_primary_def parse_predicate_def parse_ident_def eat_not_def eat_def parse_select_def select_head_def pbind_def)
  note outer = err [OF this, OF inner]
  show ?thesis using text_facts(1-3) outer by (simp add: parse_where_typed_def where_fuel_def del: parse_or.simps)
qed

end
