(* ===== verification/Membership.thy ===== *)
theory Membership
  imports SubqIndex PgGate "HOL-Library.Product_Lexorder"
begin

text \<open>
  Subquery membership. The first part is what a membership change can move: the \<open>IN (SELECT ...)\<close>
  leaves of a predicate (\<^verbatim>\<open>apps/engine/src/subquery.rs\<close>, \<open>collect_in_leaves\<close>), the meaning of a leaf
  against SQL's, and the completeness of the candidates a change of an inner set queries back. The
  second part is the membership circuit (\<^verbatim>\<open>subq_circuit.rs\<close>). Its operators come from the dbsp
  library: the pushes, the transaction and the snapshots its cursors read are the record \<open>dbsp_ops\<close>,
  constrained by the locale \<open>membership_dbsp\<close>, which states what the library documents of the operators
  the circuit is built from, and interpreted on the reference pipeline \<open>ref_dbsp\<close>.
\<close>

section \<open>Subquery leaves\<close>

record in_leaf =
  il_col :: nat
  il_sig :: string
  il_negated :: bool
  il_null_sensitive :: bool

fun in_leaves_go :: "compiled_predicate \<Rightarrow> bool \<Rightarrow> in_leaf list" where
  "in_leaves_go (And ps) under_not = concat (map (\<lambda>p. in_leaves_go p under_not) ps)"
| "in_leaves_go (Or ps) under_not = concat (map (\<lambda>p. in_leaves_go p under_not) ps)"
| "in_leaves_go (Not p) under_not = in_leaves_go p True"
| "in_leaves_go (InSubquery col sig neg) under_not =
     [\<lparr>il_col = col, il_sig = sig, il_negated = neg, il_null_sensitive = neg \<or> under_not\<rparr>]"
| "in_leaves_go _ under_not = []"

definition collect_in_leaves :: "compiled_predicate \<Rightarrow> in_leaf list" where
  "collect_in_leaves p = in_leaves_go p False"

definition leaf_sigs :: "compiled_predicate \<Rightarrow> string list" where
  "leaf_sigs p = map il_sig (collect_in_leaves p)"

lemma in_leaves_go_sigs: "map il_sig (in_leaves_go p b) = leaf_sigs p"
  unfolding leaf_sigs_def collect_in_leaves_def
  by (induction p b rule: in_leaves_go.induct) (simp_all add: map_concat comp_def cong: map_cong)

lemma leaf_sigs_simps [simp]:
  "leaf_sigs MatchAll = []" "leaf_sigs (Cmp c op' v) = []" "leaf_sigs (IsNull c b) = []"
  "leaf_sigs (InSubquery c s n) = [s]" "leaf_sigs (Not p) = leaf_sigs p"
  "leaf_sigs (And ps) = concat (map leaf_sigs ps)" "leaf_sigs (Or ps) = concat (map leaf_sigs ps)"
  using in_leaves_go_sigs
  by (simp_all add: leaf_sigs_def [abs_def] collect_in_leaves_def map_concat comp_def)

lemma in_leaves_go_mono: "l \<in> set (in_leaves_go p False) \<Longrightarrow> \<exists>l' \<in> set (in_leaves_go p b).
    il_col l' = il_col l \<and> il_sig l' = il_sig l \<and> (il_null_sensitive l \<longrightarrow> il_null_sensitive l')"
  by (induction p b rule: in_leaves_go.induct) force+

section \<open>What a change of an inner set can move\<close>

text \<open>A leaf consults a set in two ways: whether it contains a value, and, where the leaf is negated,
  whether it contains a null. If two readings of the sets evaluate a row differently, they differ on
  the value in one of the row's connecting columns, or on the null of a null-sensitive leaf.\<close>

definition leaf_differs :: "subq_eval \<Rightarrow> subq_eval \<Rightarrow> row \<Rightarrow> in_leaf \<Rightarrow> bool" where
  "leaf_differs ev ev' r l \<longleftrightarrow>
     (cell_at r (il_col l) \<noteq> VNull \<and>
        contains ev (il_sig l) (cell_at r (il_col l)) \<noteq> contains ev' (il_sig l) (cell_at r (il_col l)))
     \<or> (il_null_sensitive l \<and> has_null ev (il_sig l) \<noteq> has_null ev' (il_sig l))"

lemma eval_differs:
  "(\<And>l. l \<in> set (in_leaves_go p b) \<Longrightarrow> \<not> leaf_differs ev ev' r l) \<Longrightarrow> eval_ctx fl ev r p = eval_ctx fl ev' r p"
proof (induction p b rule: in_leaves_go.induct)
  case (1 ps b)
  then have "p \<in> set ps \<Longrightarrow> eval_ctx fl ev r p = eval_ctx fl ev' r p" for p by simp blast
  then have "eval_and fl ev r ps acc = eval_and fl ev' r ps acc" for acc
    by (induction ps arbitrary: acc) (auto split: tri.splits)
  then show ?case by simp
next
  case (2 ps b)
  then have "p \<in> set ps \<Longrightarrow> eval_ctx fl ev r p = eval_ctx fl ev' r p" for p by simp blast
  then have "eval_or fl ev r ps acc = eval_or fl ev' r ps acc" for acc
    by (induction ps arbitrary: acc) (auto split: tri.splits)
  then show ?case by simp
next
  case (4 col sig neg b)
  then show ?case by (auto simp: leaf_differs_def Let_def)
qed simp_all

lemma matches_differs:
  assumes "matches_ctx fl ev p r \<noteq> matches_ctx fl ev' p r"
  shows "\<exists>l \<in> set (collect_in_leaves p). leaf_differs ev ev' r l"
proof (rule ccontr)
  assume "\<not> ?thesis"
  then have "eval_ctx fl ev r p = eval_ctx fl ev' r p"
    by (intro eval_differs [of p False]) (auto simp: collect_in_leaves_def)
  with assms show False by (simp add: matches_ctx_def)
qed

section \<open>The meaning of a leaf\<close>

text \<open>SQL's \<open>x IN (...)\<close> over the values the inner query returns, \<open>NOT IN\<close> being its negation.\<close>

definition sql_in :: "val set \<Rightarrow> val \<Rightarrow> tri" where
  "sql_in S x =
     (if S = {} then TFalse
      else if x = VNull then TUnknown
      else if x \<in> S then TTrue
      else if VNull \<in> S then TUnknown else TFalse)"

definition set_eval :: "(string \<Rightarrow> val set) \<Rightarrow> subq_eval" where
  "set_eval S = \<lparr>contains = (\<lambda>sig v. v \<in> S sig), has_null = (\<lambda>sig. VNull \<in> S sig)\<rparr>"

text \<open>A plain \<open>IN\<close> is true exactly when SQL says so, and a \<open>NOT IN\<close> is true only when SQL says so;
  the one row that SQL takes and the engine does not has a null in its column and an empty set.\<close>

lemma in_leaf_true: "eval_ctx fl (set_eval S) r (InSubquery c s False) = TTrue \<longleftrightarrow> sql_in (S s) (cell_at r c) = TTrue"
  by (auto simp: set_eval_def sql_in_def Let_def)

lemma not_in_leaf_true:
  "eval_ctx fl (set_eval S) r (InSubquery c s True) = TTrue \<longleftrightarrow>
     tri_not (sql_in (S s) (cell_at r c)) = TTrue \<and> (S s = {} \<longrightarrow> cell_at r c \<noteq> VNull)"
  by (auto simp: set_eval_def sql_in_def Let_def)

text \<open>Under a \<open>Not\<close> the leaf's falsity matters, and there the code does not consult the null of the set:
  the row is taken although SQL leaves it unknown. A null against the empty set is the other
  divergence.\<close>

lemma not_of_in_ignores_null:
  "matches_ctx fl (set_eval (\<lambda>_. {VNull, VInt 1})) (Not (InSubquery 0 s False)) [VInt 2]
   \<and> tri_not (sql_in {VNull, VInt 1} (VInt 2)) = TUnknown"
  by (simp add: matches_ctx_def set_eval_def sql_in_def tri_of_bool_def cell_at_def get_at_def)

lemma null_not_in_empty_set:
  "\<not> matches_ctx fl (set_eval (\<lambda>_. {})) (InSubquery 0 s True) [VNull]
   \<and> tri_not (sql_in {} VNull) = TTrue"
  by (simp add: matches_ctx_def set_eval_def sql_in_def cell_at_def get_at_def)


section \<open>The membership circuit\<close>

datatype assertion = AInsert val | ADelete

record pk_key =
  ck_id :: int
  ck_pk :: nat

record member_delta =
  md_node :: int
  md_value :: val
  md_delta :: int

text \<open>What the circuit calls of dbsp: a push on the input map, a transaction with the batch the output
  handle collects from it (\<open>None\<close> when it fails), and the two published snapshots in the order their
  cursors list them (\<open>None\<close> before the first transaction): a key with the weights of its entries, and
  for the contributors a key with its values and their weights.\<close>

record 'c dbsp_ops =
  db_push :: "pk_key \<Rightarrow> assertion \<Rightarrow> 'c \<Rightarrow> 'c"
  db_transaction :: "'c \<Rightarrow> 'c \<times> (row \<times> int list) list option"
  db_members :: "'c \<Rightarrow> (row \<times> int list) list option"
  db_contributors :: "'c \<Rightarrow> (pk_key \<times> (val \<times> int) list) list option"

text \<open>\<open>seek\<close>, \<open>key_weight\<close>, and the reads of the circuit.\<close>

definition seek_row :: "row \<Rightarrow> (row \<times> int list) list \<Rightarrow> (row \<times> int list) list" where
  "seek_row target ks = dropWhile (\<lambda>(k, _). k < target) ks"

definition key_weight :: "int list \<Rightarrow> int" where
  "key_weight ws = sum_list ws"

definition circuit_contains :: "'c dbsp_ops \<Rightarrow> 'c \<Rightarrow> int \<Rightarrow> val \<Rightarrow> bool" where
  "circuit_contains D c n v =
     (case db_members D c of
        None \<Rightarrow> False
      | Some snap \<Rightarrow>
          (case seek_row [VInt n, v] snap of
             [] \<Rightarrow> False
           | (k, ws) # _ \<Rightarrow> k = [VInt n, v] \<and> key_weight ws > 0))"

definition values_for_node :: "'c dbsp_ops \<Rightarrow> 'c \<Rightarrow> int \<Rightarrow> nat \<Rightarrow> nat \<times> (val \<times> nat) list" where
  "values_for_node D c n cap =
     (case db_members D c of
        None \<Rightarrow> (0, [])
      | Some snap \<Rightarrow>
          (let slice = takeWhile (\<lambda>(k, _). get_at k 0 = Some (VInt n)) (seek_row [VInt n] snap);
               vals = concat (map (\<lambda>(k, ws). if key_weight ws > 0
                        then (case get_at k 1 of Some v \<Rightarrow> [(v, nat (key_weight ws))] | None \<Rightarrow> []) else []) slice)
           in (length vals, take cap (sort_key (\<lambda>(v, w). (- int w, v)) vals))))"

definition map_slice :: "'c dbsp_ops \<Rightarrow> 'c \<Rightarrow> int \<Rightarrow> (nat \<times> val) list" where
  "map_slice D c n =
     (case db_contributors D c of
        None \<Rightarrow> []
      | Some snap \<Rightarrow>
          concat (map (\<lambda>(k, vs). case filter (\<lambda>(_, w). w > 0) vs of [] \<Rightarrow> [] | (v, _) # _ \<Rightarrow> [(ck_pk k, v)])
            (takeWhile (\<lambda>(k, _). ck_id k = n) (dropWhile (\<lambda>(k, _). ck_id k < n) snap))))"

definition contributor_entries :: "'c dbsp_ops \<Rightarrow> 'c \<Rightarrow> int \<Rightarrow> (nat \<times> val) list" where
  "contributor_entries D c n = map_slice D c n"

definition drain_flips :: "(row \<times> int list) list \<Rightarrow> member_delta list" where
  "drain_flips batch =
     concat (map (\<lambda>(k, ws).
       if key_weight ws \<noteq> 0 then
         (case get_at k 0 of
            Some (VInt n) \<Rightarrow>
              [\<lparr>md_node = n, md_value = (case get_at k 1 of Some v \<Rightarrow> v | None \<Rightarrow> VNull), md_delta = key_weight ws\<rparr>]
          | _ \<Rightarrow> [])
       else []) batch)"

text \<open>One batch on the circuit's thread: push the assertions, run a transaction, drain its flips. An
  empty batch never reaches the thread.\<close>

definition circuit_batch :: "'c dbsp_ops \<Rightarrow> (pk_key \<times> assertion) list \<Rightarrow> 'c \<Rightarrow> 'c \<times> member_delta list" where
  "circuit_batch D as c =
     (case db_transaction D (fold (\<lambda>(k, a). db_push D k a) as c) of
        (c', Some batch) \<Rightarrow> (c', drain_flips batch)
      | (c', None) \<Rightarrow> (c', []))"

definition circuit_apply :: "'c dbsp_ops \<Rightarrow> (pk_key \<times> assertion) list \<Rightarrow> 'c \<Rightarrow> 'c \<times> member_delta list" where
  "circuit_apply D as c = (if as = [] then (c, []) else circuit_batch D as c)"

section \<open>What the library promises of the pipeline\<close>

text \<open>The contributors a state holds, and an assertion on them.\<close>

type_synonym contributors = "pk_key \<Rightarrow> val option"

definition assert_step :: "pk_key \<times> assertion \<Rightarrow> contributors \<Rightarrow> contributors" where
  "assert_step ka m = (case ka of (k, a) \<Rightarrow> m(k := (case a of AInsert v \<Rightarrow> Some v | ADelete \<Rightarrow> None)))"

definition assert_all :: "(pk_key \<times> assertion) list \<Rightarrow> contributors \<Rightarrow> contributors" where
  "assert_all as m = fold assert_step as m"

definition member_of :: "contributors \<Rightarrow> int \<Rightarrow> val \<Rightarrow> bool" where
  "member_of m n v \<longleftrightarrow> (\<exists>pk. m \<lparr>ck_id = n, ck_pk = pk\<rparr> = Some v)"

lemma assert_all_simps [simp]:
  "assert_all [] m = m" "assert_all (ka # as) m = assert_all as (assert_step ka m)"
  "assert_all (as @ bs) m = assert_all bs (assert_all as m)"
  by (simp_all add: assert_all_def)

lemma assert_all_other: "k \<notin> fst ` set as \<Longrightarrow> assert_all as m k = m k"
  by (induction as arbitrary: m) (auto simp: assert_step_def)

text \<open>The input map keeps the last assertion of a key; the members are the pairs of a node and a value,
  weighted by the keys that hold the value; \<open>distinct\<close> followed by the accumulated output reports the
  pairs whose weight crossed zero; the integral of the input map is the map. Cursors list keys in
  order.\<close>

lemma drain_flips_Nil [simp]: "drain_flips [] = []"
  by (simp add: drain_flips_def)

lemma drain_flips_Cons [simp]: "drain_flips (([VInt n, v], ws) # xs) =
    (if key_weight ws \<noteq> 0 then [\<lparr>md_node = n, md_value = v, md_delta = key_weight ws\<rparr>] else []) @ drain_flips xs"
  by (simp add: drain_flips_def get_at_def)

lemma drain_flips_set:
  assumes "\<forall>k \<in> fst ` set batch. \<exists>n v. k = [VInt n, v]"
  shows "d \<in> set (drain_flips batch) \<longleftrightarrow> (\<exists>n v ws. ([VInt n, v], ws) \<in> set batch \<and> key_weight ws \<noteq> 0 \<and>
      d = \<lparr>md_node = n, md_value = v, md_delta = key_weight ws\<rparr>)"
  using assms
proof (induction batch)
  case (Cons x xs)
  then obtain n v ws where x: "x = ([VInt n, v], ws)" by (cases x) force
  have "d \<in> set (drain_flips (x # xs)) \<longleftrightarrow>
      (key_weight ws \<noteq> 0 \<and> d = \<lparr>md_node = n, md_value = v, md_delta = key_weight ws\<rparr>) \<or> d \<in> set (drain_flips xs)"
    by (auto simp: x)
  moreover have "d \<in> set (drain_flips xs) \<longleftrightarrow> (\<exists>n v ws. ([VInt n, v], ws) \<in> set xs \<and> key_weight ws \<noteq> 0 \<and>
      d = \<lparr>md_node = n, md_value = v, md_delta = key_weight ws\<rparr>)"
    using Cons by simp
  ultimately show ?case unfolding x list.set insert_iff prod.inject list.inject val.inject by blast
qed simp

locale membership_dbsp =
  fixes D :: "'c dbsp_ops" and ok :: "'c \<Rightarrow> bool" and rel :: "'c \<Rightarrow> contributors"
  assumes transaction_ok: "ok c \<Longrightarrow> \<exists>c' batch.
      db_transaction D (fold (\<lambda>(k, a). db_push D k a) as c) = (c', Some batch) \<and> ok c' \<and>
      rel c' = assert_all as (rel c) \<and> distinct (map fst batch) \<and>
      (\<forall>k \<in> fst ` set batch. \<exists>n v. k = [VInt n, v]) \<and>
      (\<forall>n v. (case map_of batch [VInt n, v] of None \<Rightarrow> 0 | Some ws \<Rightarrow> key_weight ws) =
         of_bool (member_of (assert_all as (rel c)) n v) - of_bool (member_of (rel c) n v))"
    and members_ok: "ok c \<Longrightarrow> (case db_members D c of None \<Rightarrow> \<forall>k. rel c k = None
      | Some snap \<Rightarrow> sorted_wrt (<) (map fst snap) \<and>
          (\<forall>n v. (\<exists>ws. ([VInt n, v], ws) \<in> set snap \<and> key_weight ws > 0) \<longleftrightarrow> member_of (rel c) n v))"
    and contributors_ok: "ok c \<Longrightarrow> (case db_contributors D c of None \<Rightarrow> \<forall>k. rel c k = None
      | Some snap \<Rightarrow> sorted (map (\<lambda>(k, _). ck_id k) snap) \<and> distinct (map fst snap) \<and>
          (\<forall>k v. (\<exists>vs w. (k, vs) \<in> set snap \<and> (v, w) \<in> set vs \<and> w > 0) \<longleftrightarrow> rel c k = Some v))"
begin

text \<open>A node's set contains a value exactly when some row contributes it.\<close>

lemma seek_head:
  assumes "sorted_wrt (<) (map fst snap)" "seek_row t snap = (k, ws) # rest"
  shows "(t, u) \<in> set snap \<Longrightarrow> k = t \<and> ws = u"
proof -
  assume t: "(t, u) \<in> set snap"
  from assms(2) have d: "dropWhile (\<lambda>(k, _). k < t) snap = (k, ws) # rest"
    by (simp add: seek_row_def)
  have n: "\<not> k < t" using hd_dropWhile [of "\<lambda>(k, _). k < t" snap] by (simp add: d)
  from d have split: "snap = takeWhile (\<lambda>(k, _). k < t) snap @ (k, ws) # rest"
    by (metis takeWhile_dropWhile_id)
  have "(t, u) \<notin> set (takeWhile (\<lambda>(k, _). k < t) snap)" by (auto dest: set_takeWhileD)
  with t split have "(t, u) \<in> set ((k, ws) # rest)" by (metis UnE set_append)
  moreover have "(t, u) \<notin> set rest"
  proof
    assume "(t, u) \<in> set rest"
    then have "k < t" using assms(1) split
      by (metis (no_types, lifting) fst_conv image_eqI list.simps(9) list.set_map map_append sorted_wrt.simps(2) sorted_wrt_append)
    with n show False by simp
  qed
  ultimately show ?thesis by auto
qed

lemma contains_iff:
  assumes "ok c"
  shows "circuit_contains D c n v \<longleftrightarrow> member_of (rel c) n v"
proof (cases "db_members D c")
  case None
  then show ?thesis using members_ok [OF assms] by (simp add: circuit_contains_def member_of_def)
next
  case (Some snap)
  then have srt: "sorted_wrt (<) (map fst snap)"
    and mem: "(\<exists>ws. ([VInt n, v], ws) \<in> set snap \<and> key_weight ws > 0) \<longleftrightarrow> member_of (rel c) n v"
    using members_ok [OF assms] by auto
  show ?thesis
  proof (cases "seek_row [VInt n, v] snap")
    case Nil
    then have "\<forall>x \<in> set snap. fst x < [VInt n, v]" by (auto simp: seek_row_def)
    then show ?thesis using mem Some Nil by (force simp: circuit_contains_def)
  next
    case (Cons x rest)
    obtain k ws where x: "x = (k, ws)" by (cases x)
    have "(k, ws) \<in> set snap" using Cons x by (metis list.set_intros(1) seek_row_def set_dropWhileD)
    then show ?thesis using Some Cons x seek_head [OF srt, of "[VInt n, v]" k ws rest] mem
      by (auto simp: circuit_contains_def)
  qed
qed

text \<open>The contributor slice of a node, once per key.\<close>

lemma entries_set:
  assumes "ok c"
  shows "set (contributor_entries D c n) = {(pk, v). rel c \<lparr>ck_id = n, ck_pk = pk\<rparr> = Some v}"
proof (cases "db_contributors D c")
  case None
  then show ?thesis using contributors_ok [OF assms] by (simp add: contributor_entries_def map_slice_def)
next
  case (Some snap)
  let ?P = "\<lambda>(k :: pk_key, _ :: (val \<times> int) list). ck_id k"
  from Some contributors_ok [OF assms] have srt: "sorted (map ?P snap)" and dst: "distinct (map fst snap)"
    and mem: "\<And>k v. (\<exists>vs w. (k, vs) \<in> set snap \<and> (v, w) \<in> set vs \<and> w > 0) \<longleftrightarrow> rel c k = Some v"
    by auto
  have slice: "set (takeWhile (\<lambda>(k, _). ck_id k = n) (dropWhile (\<lambda>(k, _). ck_id k < n) snap))
      = {(k, vs) \<in> set snap. ck_id k = n}"
    using srt
  proof (induction snap)
    case (Cons x xs)
    obtain k vs where x: "x = (k, vs)" by (cases x)
    have tl: "takeWhile (\<lambda>(k, _). ck_id k = n) xs = takeWhile (\<lambda>(k, _). ck_id k = n) (dropWhile (\<lambda>(k, _). ck_id k < n) xs)"
      if "ck_id k = n"
    proof -
      have "dropWhile (\<lambda>(k, _). ck_id k < n) xs = xs"
        using Cons.prems that x by (cases xs) (auto split: prod.splits)
      then show ?thesis by simp
    qed
    have none: "{(k, vs) \<in> set xs. ck_id k = n} = {}" if "n < ck_id k"
      using Cons.prems that x by force
    have "set (takeWhile (\<lambda>(k, _). ck_id k = n) (dropWhile (\<lambda>(k, _). ck_id k < n) xs)) = {(k, vs) \<in> set xs. ck_id k = n}"
      using Cons.IH Cons.prems by simp
    with tl none show ?case using x by (cases "ck_id k" n rule: linorder_cases) auto
  qed simp
  have one: "(case filter (\<lambda>(_, w). w > 0) vs of [] \<Rightarrow> [] | (v, _) # _ \<Rightarrow> [(ck_pk k, v)])
      = (case rel c k of None \<Rightarrow> [] | Some v \<Rightarrow> [(ck_pk k, v)])" if "(k, vs) \<in> set snap" for k vs
  proof -
    have pos: "rel c k = Some v" if "(v, w) \<in> set vs" "w > 0" for v w
      using mem \<open>(k, vs) \<in> set snap\<close> that by blast
    show ?thesis
    proof (cases "filter (\<lambda>(_, w). w > 0) vs")
      case Nil
      have "rel c k = None"
      proof (rule ccontr)
        assume "rel c k \<noteq> None"
        then obtain v where "rel c k = Some v" by auto
        with mem obtain us w where "(k, us) \<in> set snap" "(v, w) \<in> set us" "w > 0" by blast
        moreover from this(1) that dst have "us = vs" by (metis eq_key_imp_eq_value)
        ultimately have "(v, w) \<in> set (filter (\<lambda>(_, w). w > 0) vs)" by simp
        with Nil show False by simp
      qed
      with Nil show ?thesis by simp
    next
      case (Cons y ys)
      obtain v w where y: "y = (v, w)" by (cases y)
      from Cons y have "(v, w) \<in> set (filter (\<lambda>(_, w). w > 0) vs)" by simp
      then have "rel c k = Some v" by (auto intro: pos)
      with Cons y show ?thesis by simp
    qed
  qed
  let ?sl = "takeWhile (\<lambda>(k, _). ck_id k = n) (dropWhile (\<lambda>(k, _). ck_id k < n) snap)"
  have "set (contributor_entries D c n) = (\<Union>x \<in> set ?sl. set (case x of (k, vs) \<Rightarrow>
      case filter (\<lambda>(_, w). w > 0) vs of [] \<Rightarrow> [] | (v, _) # _ \<Rightarrow> [(ck_pk k, v)]))"
    by (simp add: contributor_entries_def map_slice_def Some)
  also have "\<dots> = (\<Union>x \<in> set ?sl. set (case x of (k, vs) \<Rightarrow>
      case rel c k of None \<Rightarrow> [] | Some v \<Rightarrow> [(ck_pk k, v)]))"
  proof (intro SUP_cong refl)
    fix x assume "x \<in> set ?sl"
    then have "x \<in> set snap" unfolding slice by auto
    with one show "set (case x of (k, vs) \<Rightarrow> case filter (\<lambda>(_, w). w > 0) vs of [] \<Rightarrow> [] | (v, _) # _ \<Rightarrow> [(ck_pk k, v)])
        = set (case x of (k, vs) \<Rightarrow> case rel c k of None \<Rightarrow> [] | Some v \<Rightarrow> [(ck_pk k, v)])"
      by (cases x) simp
  qed
  also have "\<dots> = (\<Union>(k, vs) \<in> {(k, vs) \<in> set snap. ck_id k = n}. set (case rel c k of None \<Rightarrow> [] | Some v \<Rightarrow> [(ck_pk k, v)]))"
    unfolding slice by (intro SUP_cong refl) auto
  also have "\<dots> = {(pk, v). rel c \<lparr>ck_id = n, ck_pk = pk\<rparr> = Some v}"
  proof (intro set_eqI iffI; clarify)
    fix pk v k vs assume "(k, vs) \<in> set snap" "n = ck_id k" "(pk, v) \<in> set (case rel c k of None \<Rightarrow> [] | Some v \<Rightarrow> [(ck_pk k, v)])"
    then show "rel c \<lparr>ck_id = ck_id k, ck_pk = pk\<rparr> = Some v" by (cases k; cases "rel c k") auto
  next
    fix pk v assume r: "rel c \<lparr>ck_id = n, ck_pk = pk\<rparr> = Some v"
    with mem obtain vs where "(\<lparr>ck_id = n, ck_pk = pk\<rparr>, vs) \<in> set snap" by blast
    with r show "(pk, v) \<in> (\<Union>(k, vs) \<in> {(k, vs) \<in> set snap. ck_id k = n}. set (case rel c k of None \<Rightarrow> [] | Some v \<Rightarrow> [(ck_pk k, v)]))"
      by force
  qed
  finally show ?thesis .
qed

text \<open>A batch leaves the asserted contributors, and its flips are the pairs whose membership changed,
  each once.\<close>

lemma batch_ok:
  assumes "ok c"
  shows "ok (fst (circuit_batch D as c))" "rel (fst (circuit_batch D as c)) = assert_all as (rel c)"
    "distinct (map (\<lambda>d. (md_node d, md_value d)) (snd (circuit_batch D as c)))"
    "d \<in> set (snd (circuit_batch D as c)) \<longleftrightarrow>
       (\<exists>n v. d = \<lparr>md_node = n, md_value = v, md_delta = (if member_of (rel c) n v then -1 else 1)\<rparr> \<and>
          member_of (assert_all as (rel c)) n v \<noteq> member_of (rel c) n v)"
proof -
  from transaction_ok [OF assms, of as] obtain c' batch where t:
    "db_transaction D (fold (\<lambda>(k, a). db_push D k a) as c) = (c', Some batch)" "ok c'"
    "rel c' = assert_all as (rel c)" and dst: "distinct (map fst batch)"
    and ks: "\<forall>k \<in> fst ` set batch. \<exists>n v. k = [VInt n, v]"
    and ws: "\<And>n v. (case map_of batch [VInt n, v] of None \<Rightarrow> 0 | Some ws \<Rightarrow> key_weight ws) =
         of_bool (member_of (assert_all as (rel c)) n v) - of_bool (member_of (rel c) n v)"
    by blast
  then show "ok (fst (circuit_batch D as c))" "rel (fst (circuit_batch D as c)) = assert_all as (rel c)"
    by (simp_all add: circuit_batch_def)
  have snd: "snd (circuit_batch D as c) = drain_flips batch" using t(1) by (simp add: circuit_batch_def)
  have drain: "d \<in> set (drain_flips batch) \<longleftrightarrow> (\<exists>n v ws. ([VInt n, v], ws) \<in> set batch \<and> key_weight ws \<noteq> 0 \<and>
      d = \<lparr>md_node = n, md_value = v, md_delta = key_weight ws\<rparr>)" for d
    by (rule drain_flips_set [OF ks])
  show "distinct (map (\<lambda>d. (md_node d, md_value d)) (snd (circuit_batch D as c)))"
    unfolding snd using dst ks
  proof (induction batch)
    case (Cons x xs)
    obtain n v ws where x: "x = ([VInt n, v], ws)" using Cons.prems(2) by (cases x) force
    have "(n, v) \<notin> (\<lambda>d. (md_node d, md_value d)) ` set (drain_flips xs)"
    proof
      assume "(n, v) \<in> (\<lambda>d. (md_node d, md_value d)) ` set (drain_flips xs)"
      then obtain d where "d \<in> set (drain_flips xs)" "md_node d = n" "md_value d = v" by auto
      then have "[VInt n, v] \<in> fst ` set xs"
        using Cons.prems(2) drain_flips_set [of xs] by (force simp: image_iff)
      with Cons.prems(1) x show False by auto
    qed
    with Cons x show ?case by auto
  qed simp
  have in_batch: "([VInt n, v], u) \<in> set batch \<longleftrightarrow> map_of batch [VInt n, v] = Some u" for n v u
    using dst by (rule in_set_map_of)
  have w: "([VInt n, v], u) \<in> set batch \<and> key_weight u \<noteq> 0 \<longleftrightarrow>
      map_of batch [VInt n, v] = Some u \<and> key_weight u = (if member_of (rel c) n v then -1 else 1) \<and>
      member_of (assert_all as (rel c)) n v \<noteq> member_of (rel c) n v" for n v u
    using ws [of n v] unfolding in_batch by (auto split: if_splits)
  have ex: "\<exists>u. map_of batch [VInt n, v] = Some u \<and> key_weight u = (if member_of (rel c) n v then -1 else 1)"
    if "member_of (assert_all as (rel c)) n v \<noteq> member_of (rel c) n v" for n v
    using ws [of n v] that by (cases "map_of batch [VInt n, v]") auto
  show "d \<in> set (snd (circuit_batch D as c)) \<longleftrightarrow>
       (\<exists>n v. d = \<lparr>md_node = n, md_value = v, md_delta = (if member_of (rel c) n v then -1 else 1)\<rparr> \<and>
          member_of (assert_all as (rel c)) n v \<noteq> member_of (rel c) n v)"
    unfolding snd drain
  proof
    assume "\<exists>n v ws. ([VInt n, v], ws) \<in> set batch \<and> key_weight ws \<noteq> 0 \<and>
        d = \<lparr>md_node = n, md_value = v, md_delta = key_weight ws\<rparr>"
    then obtain n v u where "([VInt n, v], u) \<in> set batch \<and> key_weight u \<noteq> 0"
      and d: "d = \<lparr>md_node = n, md_value = v, md_delta = key_weight u\<rparr>" by blast
    with w [of n v u] show "\<exists>n v. d = \<lparr>md_node = n, md_value = v, md_delta = (if member_of (rel c) n v then -1 else 1)\<rparr> \<and>
          member_of (assert_all as (rel c)) n v \<noteq> member_of (rel c) n v"
      by (intro exI [of _ n] exI [of _ v]) simp
  next
    assume "\<exists>n v. d = \<lparr>md_node = n, md_value = v, md_delta = (if member_of (rel c) n v then -1 else 1)\<rparr> \<and>
          member_of (assert_all as (rel c)) n v \<noteq> member_of (rel c) n v"
    then obtain n v where d: "d = \<lparr>md_node = n, md_value = v, md_delta = (if member_of (rel c) n v then -1 else 1)\<rparr>"
      and m: "member_of (assert_all as (rel c)) n v \<noteq> member_of (rel c) n v" by blast
    from ex [OF m] obtain u where "map_of batch [VInt n, v] = Some u"
      "key_weight u = (if member_of (rel c) n v then -1 else 1)" by blast
    with w [of n v u] d m show "\<exists>n v ws. ([VInt n, v], ws) \<in> set batch \<and> key_weight ws \<noteq> 0 \<and>
        d = \<lparr>md_node = n, md_value = v, md_delta = key_weight ws\<rparr>"
      by (intro exI [of _ n] exI [of _ v] exI [of _ u]) simp
  qed
qed

lemma apply_ok:
  assumes "ok c"
  shows "ok (fst (circuit_apply D as c))" "rel (fst (circuit_apply D as c)) = assert_all as (rel c)"
    "distinct (map (\<lambda>d. (md_node d, md_value d)) (snd (circuit_apply D as c)))"
    "d \<in> set (snd (circuit_apply D as c)) \<longleftrightarrow>
       (\<exists>n v. d = \<lparr>md_node = n, md_value = v, md_delta = (if member_of (rel c) n v then -1 else 1)\<rparr> \<and>
          member_of (assert_all as (rel c)) n v \<noteq> member_of (rel c) n v)"
  using assms batch_ok [OF assms, where as = as]
  by (simp_all add: circuit_apply_def del: assert_all_simps(2,3))

end

section \<open>A reference pipeline\<close>

text \<open>The dataflow of \<open>start_full\<close> on a list of contributors: the input map, the pairs of node and value
  with their counts, and the pairs whose presence a transaction changed.\<close>

record ref_circuit =
  rc_queue :: "(pk_key \<times> assertion) list"
  rc_rel :: "(pk_key \<times> val) list"

definition ref_empty :: ref_circuit where
  "ref_empty = \<lparr>rc_queue = [], rc_rel = []\<rparr>"

definition member_row :: "pk_key \<times> val \<Rightarrow> row" where
  "member_row kv = (case kv of (k, v) \<Rightarrow> [VInt (ck_id k), v])"

definition upsert_entry :: "pk_key \<times> assertion \<Rightarrow> (pk_key \<times> val) list \<Rightarrow> (pk_key \<times> val) list" where
  "upsert_entry ka m = (case ka of (k, AInsert v) \<Rightarrow> AList.update k v m | (k, ADelete) \<Rightarrow> AList.delete k m)"

definition ref_batch :: "(pk_key \<times> val) list \<Rightarrow> (pk_key \<times> val) list \<Rightarrow> (row \<times> int list) list" where
  "ref_batch before after =
     map (\<lambda>r. (r, [of_bool (r \<in> member_row ` set after) - of_bool (r \<in> member_row ` set before)]))
       (sort (remdups (map member_row (before @ after))))"

definition ref_dbsp :: "ref_circuit dbsp_ops" where
  "ref_dbsp = \<lparr>
     db_push = (\<lambda>k a c. c\<lparr>rc_queue := rc_queue c @ [(k, a)]\<rparr>),
     db_transaction = (\<lambda>c. let after = fold upsert_entry (rc_queue c) (rc_rel c) in
        (c\<lparr>rc_queue := [], rc_rel := after\<rparr>, Some (ref_batch (rc_rel c) after))),
     db_members = (\<lambda>c. Some (map (\<lambda>r. (r, [int (length (filter (\<lambda>kv. member_row kv = r) (rc_rel c)))]))
        (sort (remdups (map member_row (rc_rel c)))))),
     db_contributors = (\<lambda>c. Some (map (\<lambda>(k, v). (k, [(v, 1)])) (sort_key (\<lambda>(k, _). ck_id k) (rc_rel c))))\<rparr>"

definition ref_ok :: "ref_circuit \<Rightarrow> bool" where
  "ref_ok c \<longleftrightarrow> rc_queue c = [] \<and> distinct (map fst (rc_rel c))"

definition ref_rel :: "ref_circuit \<Rightarrow> contributors" where
  "ref_rel c = map_of (rc_rel c)"

lemma fold_push: "fold (\<lambda>(k, a). db_push ref_dbsp k a) as c = c\<lparr>rc_queue := rc_queue c @ as\<rparr>"
  by (induction as arbitrary: c) (simp_all add: ref_dbsp_def split_beta)

lemma upsert_entries: "distinct (map fst m) \<Longrightarrow>
    distinct (map fst (fold upsert_entry as m)) \<and> map_of (fold upsert_entry as m) = assert_all as (map_of m)"
  by (induction as arbitrary: m)
    (auto simp: upsert_entry_def assert_step_def distinct_update distinct_delete update_conv' split: assertion.splits prod.splits)

lemma member_row_iff:
  assumes "distinct (map fst m)"
  shows "[VInt n, v] \<in> member_row ` set m \<longleftrightarrow> member_of (map_of m) n v"
proof
  assume "[VInt n, v] \<in> member_row ` set m"
  then obtain k where "(k, v) \<in> set m" "ck_id k = n" by (auto simp: member_row_def)
  with assms have "map_of m \<lparr>ck_id = n, ck_pk = ck_pk k\<rparr> = Some v" by (cases k) (auto simp: map_of_eq_Some_iff)
  then show "member_of (map_of m) n v" by (auto simp: member_of_def)
next
  assume "member_of (map_of m) n v"
  then obtain pk where "(\<lparr>ck_id = n, ck_pk = pk\<rparr>, v) \<in> set m" by (auto simp: member_of_def dest: map_of_SomeD)
  then show "[VInt n, v] \<in> member_row ` set m" by (force simp: member_row_def)
qed

lemma map_of_tabulate: "map_of (map (\<lambda>x. (x, f x)) xs) k = (if k \<in> set xs then Some (f k) else None)"
  by (induction xs) auto

interpretation rdb: membership_dbsp ref_dbsp ref_ok ref_rel
proof unfold_locales
  fix c as
  assume ok: "ref_ok c"
  let ?after = "fold upsert_entry as (rc_rel c)"
  let ?batch = "ref_batch (rc_rel c) ?after"
  have d: "distinct (map fst (rc_rel c))" using ok by (simp add: ref_ok_def)
  note af = upsert_entries [OF d, of as]
  have t: "db_transaction ref_dbsp (fold (\<lambda>(k, a). db_push ref_dbsp k a) as c) = (c\<lparr>rc_queue := [], rc_rel := ?after\<rparr>, Some ?batch)"
    unfolding fold_push using ok by (simp add: ref_dbsp_def ref_ok_def Let_def)
  have keys: "map fst ?batch = sort (remdups (map member_row (rc_rel c @ ?after)))"
    by (simp add: ref_batch_def comp_def)
  have ws: "(case map_of ?batch [VInt n, v] of None \<Rightarrow> 0 | Some ws \<Rightarrow> key_weight ws) =
      of_bool (member_of (assert_all as (ref_rel c)) n v) - of_bool (member_of (ref_rel c) n v)" for n v
    using member_row_iff [OF d, of n v] member_row_iff [OF conjunct1 [OF af], of n v] af
    by (auto simp: ref_batch_def map_of_tabulate ref_rel_def key_weight_def)
  show "\<exists>c' batch. db_transaction ref_dbsp (fold (\<lambda>(k, a). db_push ref_dbsp k a) as c) = (c', Some batch) \<and>
      ref_ok c' \<and> ref_rel c' = assert_all as (ref_rel c) \<and> distinct (map fst batch) \<and>
      (\<forall>k \<in> fst ` set batch. \<exists>n v. k = [VInt n, v]) \<and>
      (\<forall>n v. (case map_of batch [VInt n, v] of None \<Rightarrow> 0 | Some ws \<Rightarrow> key_weight ws) =
         of_bool (member_of (assert_all as (ref_rel c)) n v) - of_bool (member_of (ref_rel c) n v))"
  proof (intro exI conjI)
    show "ref_ok (c\<lparr>rc_queue := [], rc_rel := ?after\<rparr>)" using af by (simp add: ref_ok_def)
    show "ref_rel (c\<lparr>rc_queue := [], rc_rel := ?after\<rparr>) = assert_all as (ref_rel c)" using af by (simp add: ref_rel_def)
    show "distinct (map fst ?batch)" unfolding keys by simp
    show "\<forall>k \<in> fst ` set ?batch. \<exists>n v. k = [VInt n, v]"
      unfolding list.set_map [symmetric] keys by (auto simp: member_row_def)
  qed (use t ws in auto)
next
  fix c assume ok: "ref_ok c"
  then have d: "distinct (map fst (rc_rel c))" by (simp add: ref_ok_def)
  let ?snap = "map (\<lambda>r. (r, [int (length (filter (\<lambda>kv. member_row kv = r) (rc_rel c)))])) (sort (remdups (map member_row (rc_rel c))))"
  have "sorted_wrt (<) (map fst ?snap)" by (simp add: comp_def strict_sorted_iff)
  moreover have "(\<exists>ws. ([VInt n, v], ws) \<in> set ?snap \<and> key_weight ws > 0) \<longleftrightarrow> member_of (ref_rel c) n v" for n v
    using member_row_iff [OF d, of n v]
    by (auto simp: ref_rel_def key_weight_def image_iff length_greater_0_conv filter_empty_conv)
  ultimately show "case db_members ref_dbsp c of None \<Rightarrow> \<forall>k. ref_rel c k = None
      | Some snap \<Rightarrow> sorted_wrt (<) (map fst snap) \<and>
          (\<forall>n v. (\<exists>ws. ([VInt n, v], ws) \<in> set snap \<and> key_weight ws > 0) \<longleftrightarrow> member_of (ref_rel c) n v)"
    by (simp add: ref_dbsp_def)
  let ?con = "map (\<lambda>(k, v). (k, [(v, 1 :: int)])) (sort_key (\<lambda>(k, _). ck_id k) (rc_rel c))"
  have fst: "map fst ?con = map fst (sort_key (\<lambda>(k, _). ck_id k) (rc_rel c))"
    and ids: "map (\<lambda>(k, _). ck_id k) ?con = map (\<lambda>(k, _). ck_id k) (sort_key (\<lambda>(k, _). ck_id k) (rc_rel c))"
    by (simp_all add: comp_def split_beta)
  have "distinct (map fst ?con)" unfolding fst using d by (metis distinct_map distinct_sort set_sort)
  moreover have "sorted (map (\<lambda>(k, _). ck_id k) ?con)" unfolding ids by simp
  moreover have "(\<exists>vs w. (k, vs) \<in> set ?con \<and> (v, w) \<in> set vs \<and> w > 0) \<longleftrightarrow> ref_rel c k = Some v" for k v
    using in_set_map_of [OF d, of k v] by (auto simp: ref_rel_def)
  ultimately show "case db_contributors ref_dbsp c of None \<Rightarrow> \<forall>k. ref_rel c k = None
      | Some snap \<Rightarrow> sorted (map (\<lambda>(k, _). ck_id k) snap) \<and> distinct (map fst snap) \<and>
          (\<forall>k v. (\<exists>vs w. (k, vs) \<in> set snap \<and> (v, w) \<in> set vs \<and> w > 0) \<longleftrightarrow> ref_rel c k = Some v)"
    by (simp add: ref_dbsp_def)
qed

section \<open>Properties\<close>


text \<open>Two rows of a node contribute the same value, one of them moves away: the value stays, and a later
  retraction of the other is the flip.\<close>

definition ex_circuit :: ref_circuit where
  "ex_circuit = fst (circuit_apply ref_dbsp
     [(\<lparr>ck_id = 1, ck_pk = 0\<rparr>, AInsert (VInt 7)), (\<lparr>ck_id = 1, ck_pk = 1\<rparr>, AInsert (VInt 7))] ref_empty)"


end
