(* ===== verification/SubqRegistry.thy ===== *)
theory SubqRegistry
  imports Membership
begin

text \<open>
  The registry of subqueries (\<^verbatim>\<open>apps/engine/src/subquery.rs\<close>): inner-set nodes shared by signature,
  the edges to their dependents, the templates that evaluate a delta once for all binds, and the
  registration of shapes: compiling a predicate discovers and counts nodes (\<open>collect_subquery\<close>), a create that
  fails is rolled back, a shape that is dropped releases its nodes. Maps that are iterated are
  association lists; the registry's mutex makes every function here one step. The circuit is a
  parameter (\<open>Membership\<close>), the batches handed to the emission lanes are the list \<open>rg_out\<close>, in the
  order they were enqueued.
\<close>

section \<open>The registry\<close>

record flip =
  fl_value :: val
  fl_dir :: flip_dir

record subq_buffered =
  bd_lsn :: nat
  bd_xid :: "nat option"
  bd_delta :: zdelta

datatype deferred_node_work = NodeValue nat val | NodeFull

datatype deferred_shape_work = ShapeValue nat val "string option" | ShapeFull "string option"

type_synonym stamp = "nat \<times> nat option"

record subq_node =
  sn_sig :: string
  sn_inner_table :: table_ref
  sn_proj_col :: nat
  sn_pk_col :: nat
  sn_pred :: compiled_predicate
  sn_where_json :: "predicate_json option"
  sn_gate :: snapshot_gate
  sn_seed_buffer :: "subq_buffered list option"
  sn_deferred :: "deferred_node_work list"
  sn_node_id :: int
  sn_template_key :: string
  sn_bind :: row
  sn_refcount :: nat
  sn_recent :: "string \<Rightarrow> stamp option"
  sn_inflight :: nat

definition node_new :: "string \<Rightarrow> table_ref \<Rightarrow> nat \<Rightarrow> nat \<Rightarrow> compiled_predicate \<Rightarrow> int \<Rightarrow> subq_node" where
  "node_new sig t proj_col pk_col pred node_id =
     \<lparr>sn_sig = sig, sn_inner_table = t, sn_proj_col = proj_col, sn_pk_col = pk_col, sn_pred = pred,
      sn_where_json = None, sn_gate = gate_passthrough, sn_seed_buffer = None, sn_deferred = [],
      sn_node_id = node_id, sn_template_key = [], sn_bind = [], sn_refcount = 0,
      sn_recent = Map.empty, sn_inflight = 0\<rparr>"

record template_group =
  tg_inner_table :: table_ref
  tg_proj_col :: nat
  tg_residual :: compiled_predicate
  tg_param_cols :: "nat list"
  tg_binds :: "(row \<times> string) list"
  tg_pk_nodes :: "nat \<Rightarrow> string list option"

datatype dependent = DepShape string | DepNode string

record edge =
  ed_node_sig :: string
  ed_dependent :: dependent
  ed_connecting_col :: nat
  ed_negated :: bool
  ed_null_sensitive :: bool

record subquery_shape =
  ss_shape_id :: string
  ss_outer_table :: table_ref
  ss_stream_path :: string
  ss_pred :: compiled_predicate
  ss_out_cols :: "nat list option"
  ss_gate :: snapshot_gate
  ss_emitted :: nat
  ss_feed_id :: int
  ss_recent :: "nat \<Rightarrow> stamp option"
  ss_inflight :: nat

record pending_subquery_shape =
  pq_shape_id :: string
  pq_outer_table :: table_ref
  pq_stream_path :: string
  pq_pred :: compiled_predicate
  pq_out_cols :: "nat list option"
  pq_changes_only :: bool
  pq_collect_log :: "string list"
  pq_buffer :: "subq_buffered list"
  pq_deferred :: "deferred_shape_work list"

record 'c subquery_registry =
  rg_nodes :: "(string \<times> subq_node) list"
  rg_edges :: "(string \<times> edge list) list"
  rg_staged :: "edge list"
  rg_shapes :: "(string \<times> subquery_shape) list"
  rg_index :: subquery_shape_index
  rg_circuit :: 'c
  rg_dict :: pk_dict
  rg_next_node :: int
  rg_node_by_id :: "int \<Rightarrow> string option"
  rg_next_feed :: int
  rg_feed_by_id :: "int \<Rightarrow> string option"
  rg_feeds :: feed_set
  rg_templates :: "(string \<times> template_group) list"
  rg_pending_seed :: "string list"
  rg_pending :: "pending_subquery_shape list"
  rg_log :: "string list"
  rg_schemas :: "table_ref \<Rightarrow> tschema option"
  rg_out :: "(string \<times> envelope list) list"

definition registry_new :: "'c \<Rightarrow> 'c subquery_registry" where
  "registry_new c =
     \<lparr>rg_nodes = [], rg_edges = [], rg_staged = [], rg_shapes = [], rg_index = si_empty, rg_circuit = c,
      rg_dict = pk_new, rg_next_node = 1, rg_node_by_id = Map.empty, rg_next_feed = 1,
      rg_feed_by_id = Map.empty, rg_feeds = [], rg_templates = [], rg_pending_seed = [], rg_pending = [],
      rg_log = [], rg_schemas = Map.empty, rg_out = []\<rparr>"

definition set_schemas :: "(table_ref \<Rightarrow> tschema option) \<Rightarrow> 'c subquery_registry \<Rightarrow> 'c subquery_registry" where
  "set_schemas S R = R\<lparr>rg_schemas := S\<rparr>"

text \<open>The read view predicates are evaluated against.\<close>

definition registry_eval :: "'c dbsp_ops \<Rightarrow> 'c subquery_registry \<Rightarrow> subq_eval" where
  "registry_eval D R =
     \<lparr>contains = (\<lambda>sig v. case map_of (rg_nodes R) sig of None \<Rightarrow> False
                           | Some n \<Rightarrow> circuit_contains D (rg_circuit R) (sn_node_id n) v),
      has_null = (\<lambda>sig. case map_of (rg_nodes R) sig of None \<Rightarrow> False
                           | Some n \<Rightarrow> circuit_contains D (rg_circuit R) (sn_node_id n) VNull)\<rparr>"

definition touches :: "'c subquery_registry \<Rightarrow> table_ref \<Rightarrow> bool" where
  "touches R t \<longleftrightarrow> has_table (rg_index R) (table_as_str t)
     \<or> (\<exists>(_, n) \<in> set (rg_nodes R). sn_inner_table n = t)
     \<or> (\<exists>p \<in> set (rg_pending R). pq_outer_table p = t)"

definition node_value_index ::
  "'c dbsp_ops \<Rightarrow> 'c subquery_registry \<Rightarrow> string \<Rightarrow> nat \<Rightarrow> (nat \<times> nat \<times> (json \<times> nat) list \<times> bool) option" where
  "node_value_index D R sig cap =
     (case map_of (rg_nodes R) sig of
        None \<Rightarrow> None
      | Some n \<Rightarrow>
          (case values_for_node D (rg_circuit R) (sn_node_id n) cap of
             (distinct_vals, vals) \<Rightarrow> Some (distinct_vals, sn_refcount n, map (\<lambda>(v, c). (to_json v, c)) vals, distinct_vals > cap)))"

section \<open>Edges\<close>

definition edges_of :: "'c subquery_registry \<Rightarrow> string \<Rightarrow> edge list" where
  "edges_of R sig = (case map_of (rg_edges R) sig of None \<Rightarrow> [] | Some es \<Rightarrow> es)"

definition edges_count :: "'c subquery_registry \<Rightarrow> nat" where
  "edges_count R = sum_list (map (\<lambda>(_, es). length es) (rg_edges R))"

definition add_edge :: "edge \<Rightarrow> 'c subquery_registry \<Rightarrow> 'c subquery_registry" where
  "add_edge e R = R\<lparr>rg_edges := upd_default (ed_node_sig e) [] (\<lambda>es. es @ [e]) (rg_edges R)\<rparr>"

text \<open>\<open>retain\<close> on one node's list, dropping an emptied entry.\<close>

definition retain_edges :: "(edge \<Rightarrow> bool) \<Rightarrow> string \<Rightarrow> (string \<times> edge list) list \<Rightarrow> (string \<times> edge list) list" where
  "retain_edges keep c m =
     (case map_of m c of
        None \<Rightarrow> m
      | Some v \<Rightarrow> (let v' = filter keep v in if v' = [] then AList.delete c m else AList.update c v' m))"

definition remove_node_edges :: "string \<Rightarrow> string list \<Rightarrow> 'c subquery_registry \<Rightarrow> 'c subquery_registry" where
  "remove_node_edges sig child_sigs R =
     R\<lparr>rg_edges := fold (retain_edges (\<lambda>e. ed_dependent e \<noteq> DepNode sig)) child_sigs (AList.delete sig (rg_edges R))\<rparr>"

definition remove_shape_edges :: "compiled_predicate \<Rightarrow> string \<Rightarrow> 'c subquery_registry \<Rightarrow> 'c subquery_registry" where
  "remove_shape_edges pred shape_id R =
     R\<lparr>rg_edges := fold (\<lambda>l. retain_edges (\<lambda>e. ed_dependent e \<noteq> DepShape shape_id) (il_sig l))
         (collect_in_leaves pred) (rg_edges R)\<rparr>"

definition leaf_edge :: "dependent \<Rightarrow> in_leaf \<Rightarrow> edge" where
  "leaf_edge dep l =
     \<lparr>ed_node_sig = il_sig l, ed_dependent = dep, ed_connecting_col = il_col l,
      ed_negated = il_negated l, ed_null_sensitive = il_null_sensitive l\<rparr>"

section \<open>Discovering nodes\<close>

text \<open>The collector the residual is compiled with.\<close>

definition sig_only :: "f64_ops \<Rightarrow> unit collector" where
  "sig_only F s t proj w = (s, Ok (subquery_sig F t proj w))"

definition compile_residual :: "f64_ops \<Rightarrow> tschema \<Rightarrow> predicate_json list \<Rightarrow> compiled_predicate result" where
  "compile_residual F ts residual =
     (if residual = [] then Ok MatchAll else snd (compile_with F (sig_only F) ts (PAnd residual) ()))"

definition bind_param :: "f64_ops \<Rightarrow> tschema \<Rightarrow> string \<times> json \<Rightarrow> (nat \<times> val) result" where
  "bind_param F ts cl =
     (case cl of (col, lit) \<Rightarrow>
        rbind (column_index ts col) (\<lambda>idx. rbind (column_type_at ts idx) (\<lambda>ty.
          rbind (literal_from_json F lit ty) (\<lambda>v. Ok (idx, v)))))"

text \<open>The template of a new node: the existing one, or one made of its residual.\<close>

definition ensure_template ::
  "f64_ops \<Rightarrow> table_ref \<Rightarrow> tschema \<Rightarrow> nat \<Rightarrow> string \<Rightarrow> nat list \<Rightarrow> predicate_json list
     \<Rightarrow> (string \<times> template_group) list \<Rightarrow> (string \<times> template_group) list result" where
  "ensure_template F t ts proj_col tkey param_cols residual templates =
     (case map_of templates tkey of
        Some _ \<Rightarrow> Ok templates
      | None \<Rightarrow> rbind (compile_residual F ts residual) (\<lambda>res.
          Ok (AList.update tkey
                \<lparr>tg_inner_table = t, tg_proj_col = proj_col, tg_residual = res, tg_param_cols = param_cols,
                 tg_binds = [], tg_pk_nodes = Map.empty\<rparr> templates)))"

definition insert_bind :: "string \<Rightarrow> row \<Rightarrow> string \<Rightarrow> (string \<times> template_group) list \<Rightarrow> (string \<times> template_group) list" where
  "insert_bind tkey bind sig templates =
     (case map_of templates tkey of
        None \<Rightarrow> templates
      | Some tpl \<Rightarrow> AList.update tkey (tpl\<lparr>tg_binds := AList.update bind sig (tg_binds tpl)\<rparr>) templates)"

text \<open>The tail of \<open>collect_subquery\<close>: the projected column, the template and the node. The id counter advances
  even when a step after it fails.\<close>

definition register_node ::
  "f64_ops \<Rightarrow> string \<Rightarrow> table_ref \<Rightarrow> string \<Rightarrow> predicate_json option \<Rightarrow> tschema \<Rightarrow> compiled_predicate
     \<Rightarrow> 'c subquery_registry \<Rightarrow> 'c subquery_registry \<times> string result" where
  "register_node F sig t proj w ts pred R =
     (case column_index ts proj of
        Inl e \<Rightarrow> (R, Err e)
      | Inr proj_col \<Rightarrow>
          (let node_id = rg_next_node R; R1 = R\<lparr>rg_next_node := node_id + 1\<rparr> in
           case subquery_template F t proj w of (tkey, binds, residual) \<Rightarrow>
             (case map_res (bind_param F ts) binds of
                Inl e \<Rightarrow> (R1, Err e)
              | Inr pvs \<Rightarrow>
                  (case ensure_template F t ts proj_col tkey (map fst pvs) residual (rg_templates R1) of
                     Inl e \<Rightarrow> (R1, Err e)
                   | Inr templates \<Rightarrow>
                       (let bind = map snd pvs;
                            node = (node_new sig t proj_col (ts_pk_index ts) pred node_id)
                              \<lparr>sn_where_json := w, sn_template_key := tkey, sn_bind := bind, sn_refcount := 1\<rparr>
                        in (R1\<lparr>rg_templates := insert_bind tkey bind sig templates,
                               rg_nodes := AList.update sig node (rg_nodes R1),
                               rg_node_by_id := (rg_node_by_id R1)(node_id \<mapsto> sig),
                               rg_log := rg_log R1 @ [sig],
                               rg_pending_seed := rg_pending_seed R1 @ [sig]\<rparr>, Ok sig))))))"

text \<open>\<open>collect_subquery\<close>. It recurs through the compilation of the inner predicate; the fuel is a bound on the
  nesting of subqueries.\<close>

primrec collect_subquery :: "nat \<Rightarrow> f64_ops \<Rightarrow> 'c subquery_registry collector" where
  "collect_subquery 0 F R t proj w = (R, Err (Other ''fuel''))"
| "collect_subquery (Suc n) F R t proj w =
     (let sig = subquery_sig F t proj w in
      case map_of (rg_nodes R) sig of
        Some nd \<Rightarrow>
          (R\<lparr>rg_nodes := AList.update sig (nd\<lparr>sn_refcount := sn_refcount nd + 1\<rparr>) (rg_nodes R),
             rg_log := rg_log R @ [sig]\<rparr>, Ok sig)
      | None \<Rightarrow>
          (case rg_schemas R t of
             None \<Rightarrow> (R, Err (Other ''subquery: unknown inner table''))
           | Some ts \<Rightarrow>
               (case compile_opt_with F (collect_subquery n F) ts w R of
                  (R1, Inl e) \<Rightarrow> (R1, Err e)
                | (R1, Inr pred) \<Rightarrow>
                    register_node F sig t proj w ts pred
                      (R1\<lparr>rg_staged := rg_staged R1 @ map (leaf_edge (DepNode sig)) (collect_in_leaves pred)\<rparr>))))"

section \<open>Removing nodes\<close>

definition remove_bind :: "subq_node \<Rightarrow> (string \<times> template_group) list \<Rightarrow> (string \<times> template_group) list" where
  "remove_bind node templates =
     (case map_of templates (sn_template_key node) of
        None \<Rightarrow> templates
      | Some tpl \<Rightarrow>
          (let binds = AList.delete (sn_bind node) (tg_binds tpl) in
           if binds = [] then AList.delete (sn_template_key node) templates
           else AList.update (sn_template_key node) (tpl\<lparr>tg_binds := binds\<rparr>) templates))"

definition remove_node_entry :: "subq_node \<Rightarrow> 'c subquery_registry \<Rightarrow> 'c subquery_registry" where
  "remove_node_entry node R =
     R\<lparr>rg_node_by_id := (rg_node_by_id R)(sn_node_id node := None),
       rg_templates := remove_bind node (rg_templates R)\<rparr>"

text \<open>Dropping one node from a key's holders.\<close>

definition remove_holder :: "string \<Rightarrow> nat \<Rightarrow> template_group \<Rightarrow> template_group" where
  "remove_holder sig pk tpl =
     (case tg_pk_nodes tpl pk of
        None \<Rightarrow> tpl
      | Some holders \<Rightarrow>
          (let rest = removeAll sig holders in
           tpl\<lparr>tg_pk_nodes := (tg_pk_nodes tpl)(pk := if rest = [] then None else Some rest)\<rparr>))"

definition in_template :: "string \<Rightarrow> (template_group \<Rightarrow> template_group)
    \<Rightarrow> (string \<times> template_group) list \<Rightarrow> (string \<times> template_group) list" where
  "in_template tkey f templates =
     (case map_of templates tkey of None \<Rightarrow> templates | Some tpl \<Rightarrow> AList.update tkey (f tpl) templates)"

definition remove_node_with_state ::
  "'c dbsp_ops \<Rightarrow> string \<Rightarrow> 'c subquery_registry \<times> (pk_key \<times> assertion) list
     \<Rightarrow> 'c subquery_registry \<times> (pk_key \<times> assertion) list \<times> string list" where
  "remove_node_with_state D sig RA =
     (case RA of (R, asserts) \<Rightarrow>
       (case map_of (rg_nodes R) sig of
          None \<Rightarrow> (R, asserts, [])
        | Some node \<Rightarrow>
            (let child_sigs = leaf_sigs (sn_pred node);
                 entries = contributor_entries D (rg_circuit R) (sn_node_id node);
                 templates = fold (\<lambda>(pk, _). in_template (sn_template_key node) (remove_holder sig pk)) entries (rg_templates R);
                 asserts' = asserts @ map (\<lambda>(pk, _). (\<lparr>ck_id = sn_node_id node, ck_pk = pk\<rparr>, ADelete)) entries;
                 R1 = R\<lparr>rg_nodes := AList.delete sig (rg_nodes R), rg_templates := templates\<rparr>
             in (remove_node_edges sig child_sigs (remove_node_entry node R1), asserts', child_sigs))))"

text \<open>Releasing references: the stack of signatures, popped from its end.\<close>

lemma length_update_present: "map_of m k = Some v \<Longrightarrow> length (AList.update k v' m) = length m"
  by (induction m) auto

lemma length_delete_present: "map_of m k = Some v \<Longrightarrow> length (AList.delete k m) < length m"
proof -
  assume "map_of m k = Some v"
  then have "(k, v) \<in> set m" by (rule map_of_SomeD)
  then show ?thesis unfolding AList.delete_eq by (intro length_filter_less [of "(k, v)"]) auto
qed

lemma remove_node_with_state_length:
  assumes "remove_node_with_state D sig RA = (R2, asserts', cs)" "map_of (rg_nodes (fst RA)) sig = Some n"
  shows "length (rg_nodes R2) < length (rg_nodes (fst RA))"
  using assms length_delete_present [OF assms(2)]
  by (cases RA) (auto simp: remove_node_with_state_def Let_def remove_node_edges_def remove_node_entry_def)

function decref_loop ::
  "'c dbsp_ops \<Rightarrow> string list \<Rightarrow> 'c subquery_registry \<times> (pk_key \<times> assertion) list
     \<Rightarrow> 'c subquery_registry \<times> (pk_key \<times> assertion) list" where
  "decref_loop D stack RA =
     (if stack = [] then RA
      else
        (let sig = last stack; rest = butlast stack in
         case map_of (rg_nodes (fst RA)) sig of
           None \<Rightarrow> decref_loop D rest RA
         | Some node \<Rightarrow>
             (let R1 = (fst RA)\<lparr>rg_nodes := AList.update sig (node\<lparr>sn_refcount := sn_refcount node - 1\<rparr>) (rg_nodes (fst RA))\<rparr> in
              if sn_refcount node - 1 > 0 then decref_loop D rest (R1, snd RA)
              else
                (case remove_node_with_state D sig (R1, snd RA) of
                   (R2, asserts', child_sigs) \<Rightarrow> decref_loop D (rest @ child_sigs) (R2, asserts')))))"
  by pat_completeness auto
termination
proof (relation "measures [\<lambda>(D, stack, RA). length (rg_nodes (fst RA)), \<lambda>(D, stack, RA). length stack]", goal_cases)
  case (4 D stack RA)
  then show ?case
    by (auto simp: length_update_present update_conv' dest!: sym [of _ "remove_node_with_state _ _ _"] remove_node_with_state_length)
qed (simp_all add: length_update_present)

declare decref_loop.simps [simp del]

definition apply_discard :: "'c dbsp_ops \<Rightarrow> (pk_key \<times> assertion) list \<Rightarrow> 'c subquery_registry \<Rightarrow> 'c subquery_registry" where
  "apply_discard D asserts R =
     (if asserts = [] then R else R\<lparr>rg_circuit := fst (circuit_apply D asserts (rg_circuit R))\<rparr>)"

definition decref_nodes :: "'c dbsp_ops \<Rightarrow> string list \<Rightarrow> 'c subquery_registry \<Rightarrow> 'c subquery_registry" where
  "decref_nodes D sigs R =
     (case decref_loop D sigs (R, []) of (R', asserts) \<Rightarrow> apply_discard D asserts R')"

section \<open>Creating and dropping shapes\<close>

definition rollback_ref :: "string \<Rightarrow> 'c subquery_registry \<Rightarrow> 'c subquery_registry" where
  "rollback_ref sig R =
     (case map_of (rg_nodes R) sig of
        None \<Rightarrow> R
      | Some n \<Rightarrow>
          (let n' = n\<lparr>sn_refcount := sn_refcount n - 1\<rparr> in
           if sn_refcount n' = 0 then
             (remove_node_entry n' (R\<lparr>rg_nodes := AList.delete sig (rg_nodes R)\<rparr>))
               \<lparr>rg_pending_seed := filter (\<lambda>s. s \<noteq> sig) (rg_pending_seed R)\<rparr>
           else R\<lparr>rg_nodes := AList.update sig n' (rg_nodes R)\<rparr>))"

definition rollback_refs :: "string list \<Rightarrow> 'c subquery_registry \<Rightarrow> 'c subquery_registry" where
  "rollback_refs refs R = fold rollback_ref refs (R\<lparr>rg_staged := []\<rparr>)"

definition start_seeding :: "string \<Rightarrow> 'c subquery_registry \<Rightarrow> 'c subquery_registry" where
  "start_seeding sig R =
     (case map_of (rg_nodes R) sig of
        None \<Rightarrow> R
      | Some n \<Rightarrow> R\<lparr>rg_nodes := AList.update sig (n\<lparr>sn_seed_buffer := Some []\<rparr>) (rg_nodes R)\<rparr>)"

definition is_seeding :: "'c subquery_registry \<Rightarrow> string \<Rightarrow> bool" where
  "is_seeding R sig \<longleftrightarrow> (case map_of (rg_nodes R) sig of None \<Rightarrow> False | Some n \<Rightarrow> sn_seed_buffer n \<noteq> None)"

type_synonym seed_request = "string \<times> table_ref \<times> predicate_json option"

definition seed_requests :: "string list \<Rightarrow> 'c subquery_registry \<Rightarrow> seed_request list" where
  "seed_requests fresh R =
     concat (map (\<lambda>sig. case map_of (rg_nodes R) sig of None \<Rightarrow> []
                        | Some n \<Rightarrow> [(sig, sn_inner_table n, sn_where_json n)]) fresh)"

definition conflict_error :: error where
  "conflict_error = Other ''subquery create conflict: shares a node another create is seeding''"

definition begin_create ::
  "nat \<Rightarrow> f64_ops \<Rightarrow> string \<Rightarrow> table_ref \<Rightarrow> string \<Rightarrow> predicate_json \<Rightarrow> nat list option \<Rightarrow> bool
     \<Rightarrow> 'c subquery_registry \<Rightarrow> 'c subquery_registry \<times> seed_request list result" where
  "begin_create fuel F shape_id outer_table stream_path where_json out_cols changes_only R =
     (case rg_schemas R outer_table of
        None \<Rightarrow> (R, Err (Other ''subquery shape: unknown outer table''))
      | Some outer_ts \<Rightarrow>
          (case compile_with F (collect_subquery fuel F) outer_ts where_json (R\<lparr>rg_staged := [], rg_log := []\<rparr>) of
             (R1, Inl e) \<Rightarrow> (rollback_refs (rg_log R1) (R1\<lparr>rg_log := []\<rparr>), Err e)
           | (R1, Inr pred) \<Rightarrow>
               (let refs = rg_log R1; fresh = rg_pending_seed R1;
                    R2 = R1\<lparr>rg_log := [], rg_pending_seed := []\<rparr>
                in if \<exists>sig \<in> set refs. sig \<notin> set fresh \<and> is_seeding R2 sig
                   then (rollback_refs refs R2, Err conflict_error)
                   else
                     (let R3 = fold start_seeding fresh R2;
                          staged = rg_staged R3 @ map (leaf_edge (DepShape shape_id)) (collect_in_leaves pred);
                          R4 = fold add_edge staged (R3\<lparr>rg_staged := []\<rparr>);
                          p = \<lparr>pq_shape_id = shape_id, pq_outer_table = outer_table, pq_stream_path = stream_path,
                               pq_pred = pred, pq_out_cols = out_cols, pq_changes_only = changes_only,
                               pq_collect_log = refs, pq_buffer = [], pq_deferred = []\<rparr>
                      in (R4\<lparr>rg_pending := rg_pending R4 @ [p]\<rparr>, Ok (seed_requests fresh R4))))))"

definition install_shape :: "subquery_shape \<Rightarrow> 'c subquery_registry \<Rightarrow> 'c subquery_registry" where
  "install_shape sh R =
     R\<lparr>rg_feed_by_id := (rg_feed_by_id R)(ss_feed_id sh \<mapsto> ss_shape_id sh),
       rg_index := si_insert (ss_shape_id sh) (table_as_str (ss_outer_table sh), ss_pred sh) (rg_index R),
       rg_shapes := AList.update (ss_shape_id sh) sh (rg_shapes R)\<rparr>"

definition drop_subquery_shape :: "'c dbsp_ops \<Rightarrow> string \<Rightarrow> 'c subquery_registry \<Rightarrow> 'c subquery_registry" where
  "drop_subquery_shape D shape_id R =
     (case map_of (rg_shapes R) shape_id of
        None \<Rightarrow> R
      | Some sh \<Rightarrow>
          (let R1 = remove_shape_edges (ss_pred sh) shape_id (R\<lparr>rg_shapes := AList.delete shape_id (rg_shapes R)\<rparr>);
               R2 = R1\<lparr>rg_index := si_remove shape_id (rg_index R1),
                       rg_feed_by_id := (rg_feed_by_id R1)(ss_feed_id sh := None),
                       rg_feeds := drop_feed (ss_feed_id sh) (rg_feeds R1)\<rparr>
           in decref_nodes D (leaf_sigs (ss_pred sh)) R2))"

text \<open>One entry of the compile log of an aborted create; there is no cascade here.\<close>

definition abort_ref :: "'c dbsp_ops \<Rightarrow> string \<Rightarrow> 'c subquery_registry \<times> (pk_key \<times> assertion) list
    \<Rightarrow> 'c subquery_registry \<times> (pk_key \<times> assertion) list" where
  "abort_ref D sig RA =
     (case map_of (rg_nodes (fst RA)) sig of
        None \<Rightarrow> RA
      | Some n \<Rightarrow>
          (let R1 = (fst RA)\<lparr>rg_nodes := AList.update sig (n\<lparr>sn_refcount := sn_refcount n - 1\<rparr>) (rg_nodes (fst RA))\<rparr> in
           if sn_refcount n - 1 > 0 then (R1, snd RA)
           else
             (case remove_node_with_state D sig (R1, snd RA) of
                (R2, asserts', _) \<Rightarrow>
                  (R2\<lparr>rg_pending_seed := filter (\<lambda>s. s \<noteq> sig) (rg_pending_seed R2)\<rparr>, asserts'))))"

definition abort_create :: "'c dbsp_ops \<Rightarrow> string \<Rightarrow> 'c subquery_registry \<Rightarrow> 'c subquery_registry" where
  "abort_create D shape_id R =
     (if map_of (rg_shapes R) shape_id \<noteq> None then drop_subquery_shape D shape_id R
      else
        (case List.extract (\<lambda>p. pq_shape_id p = shape_id) (rg_pending R) of
           None \<Rightarrow> R
         | Some (before, p, after) \<Rightarrow>
             (let R1 = remove_shape_edges (pq_pred p) (pq_shape_id p) (R\<lparr>rg_pending := before @ after\<rparr>) in
              case fold (abort_ref D) (pq_collect_log p) (R1, []) of
                (R2, asserts) \<Rightarrow> apply_discard D asserts R2)))"

section \<open>Work that waits for a create\<close>

text \<open>The deduplication both queues share: a full re-derivation covers every value.\<close>

definition queue_shape_work :: "deferred_shape_work \<Rightarrow> deferred_shape_work list \<Rightarrow> deferred_shape_work list" where
  "queue_shape_work w q =
     (let has_full = (\<exists>x \<in> set q. case x of ShapeFull _ \<Rightarrow> True | _ \<Rightarrow> False) in
      case w of
        ShapeFull _ \<Rightarrow> if has_full then q else [w]
      | ShapeValue col v _ \<Rightarrow>
          (let dup = (\<exists>x \<in> set q. case x of ShapeValue c u _ \<Rightarrow> c = col \<and> u = v | _ \<Rightarrow> False) in
           if has_full \<or> dup then q else q @ [w]))"

fun queue_deferred_in :: "string \<Rightarrow> deferred_shape_work \<Rightarrow> pending_subquery_shape list \<Rightarrow> pending_subquery_shape list option" where
  "queue_deferred_in shape_id w [] = None"
| "queue_deferred_in shape_id w (p # ps) =
     (if pq_shape_id p = shape_id then Some (p\<lparr>pq_deferred := queue_shape_work w (pq_deferred p)\<rparr> # ps)
      else map_option ((#) p) (queue_deferred_in shape_id w ps))"

definition queue_deferred :: "string \<Rightarrow> deferred_shape_work \<Rightarrow> 'c subquery_registry \<Rightarrow> 'c subquery_registry \<times> bool" where
  "queue_deferred shape_id w R =
     (case queue_deferred_in shape_id w (rg_pending R) of
        None \<Rightarrow> (R, False)
      | Some ps \<Rightarrow> (R\<lparr>rg_pending := ps\<rparr>, True))"

definition queue_node_work :: "deferred_node_work \<Rightarrow> deferred_node_work list \<Rightarrow> deferred_node_work list" where
  "queue_node_work w q =
     (let has_full = NodeFull \<in> set q in
      case w of
        NodeFull \<Rightarrow> if has_full then q else [w]
      | NodeValue col v \<Rightarrow> if has_full \<or> NodeValue col v \<in> set q then q else q @ [w])"

definition queue_node_deferred :: "string \<Rightarrow> deferred_node_work \<Rightarrow> 'c subquery_registry \<Rightarrow> 'c subquery_registry \<times> bool" where
  "queue_node_deferred sig w R =
     (case map_of (rg_nodes R) sig of
        None \<Rightarrow> (R, False)
      | Some n \<Rightarrow>
          if sn_seed_buffer n = None then (R, False)
          else (R\<lparr>rg_nodes := AList.update sig (n\<lparr>sn_deferred := queue_node_work w (sn_deferred n)\<rparr>) (rg_nodes R)\<rparr>, True))"

end
