(* ===== verification/SubqRefs.thy ===== *)
theory SubqRefs
  imports SubqRegistry
begin

text \<open>
  What holds of the subquery registry's bookkeeping (theory \<open>SubqRegistry\<close>): a create that fails leaves
  no trace, and in every state each node is there exactly as long as a leaf refers to it, its count is
  the number of those leaves, and its edges are those leaves.
\<close>

section \<open>Compiling through a collector\<close>

text \<open>The subqueries a predicate asks its collector for.\<close>

fun subs :: "predicate_json \<Rightarrow> (table_ref \<times> string \<times> predicate_json option) list" where
  "subs (PAnd ps) = concat (map subs ps)"
| "subs (POr ps) = concat (map subs ps)"
| "subs (PNot p) = subs p"
| "subs (PIn col (Subquery t proj w) neg) = [(t, proj, w)]"
| "subs _ = []"

lemma length_join_elem: "x \<in> set xs \<Longrightarrow> length x \<le> length (join sep xs)"
  by (induction sep xs rule: join.induct) auto

lemma subs_shorter:
  "(t, proj, w) \<in> set (subs p) \<Longrightarrow> length (subquery_sig F t proj w) < length (canonical_pred F p)"
proof (induction p rule: subs.induct)
  case (1 ps)
  then obtain q where q: "q \<in> set ps" "(t, proj, w) \<in> set (subs q)" by auto
  with 1 have "length (subquery_sig F t proj w) < length (canonical_pred F q)" by simp
  also have "\<dots> \<le> length (join '','' (sort (map (canonical_pred F) ps)))"
    using q by (intro length_join_elem) simp
  finally show ?case by simp
next
  case (2 ps)
  then obtain q where q: "q \<in> set ps" "(t, proj, w) \<in> set (subs q)" by auto
  with 2 have "length (subquery_sig F t proj w) < length (canonical_pred F q)" by simp
  also have "\<dots> \<le> length (join '','' (sort (map (canonical_pred F) ps)))"
    using q by (intro length_join_elem) simp
  finally show ?case by simp
next
  case (3 p)
  then show ?case by simp
next
  case (4 col t' proj' w' neg)
  then show ?case by (simp add: subquery_sig_def)
qed simp_all

text \<open>A property of the collector's state that its calls keep, a compilation keeps.\<close>

lemma compile_keeps:
  "(\<And>R t proj w. (t, proj, w) \<in> set (subs p) \<Longrightarrow> I R \<Longrightarrow> I (fst (C R t proj w))) \<Longrightarrow>
     I R \<Longrightarrow> I (fst (compile_with F C ts p R))"
  "(\<And>R t proj w q. q \<in> set ps \<Longrightarrow> (t, proj, w) \<in> set (subs q) \<Longrightarrow> I R \<Longrightarrow> I (fst (C R t proj w))) \<Longrightarrow>
     I R \<Longrightarrow> I (fst (compile_list F C ts ps R))"
proof (induction F C ts p R and F C ts ps R rule: compile_with_compile_list.induct)
  case (3 F C ts ps st)
  have "I (fst (compile_list F C ts ps st))" by (rule 3(1) [OF _ 3(3)]) (rule 3(2), auto)
  then show ?case by (auto split: prod.splits)
next
  case (4 F C ts ps st)
  have "I (fst (compile_list F C ts ps st))" by (rule 4(1) [OF _ 4(3)]) (rule 4(2), auto)
  then show ?case by (auto split: prod.splits)
next
  case (6 F C ts col t proj w neg st)
  then have "I (fst (C st t proj w))" by simp
  then show ?case using 6(2) by (cases "C st t proj w") (auto split: sum.splits)
next
  case (8 F C ts p ps st)
  have one: "I (fst (compile_with F C ts p st))" by (rule 8(1) [OF _ 8(4)]) (rule 8(3) [where q = p], simp_all)
  show ?case
  proof (cases "snd (compile_with F C ts p st)")
    case (Inr c)
    then have "I (fst (compile_list F C ts ps (fst (compile_with F C ts p st))))"
      using 8 one by (metis list.set_intros(2) prod.collapse)
    with Inr show ?thesis
      by (cases "compile_with F C ts p st") (auto split: prod.splits)
  qed (use one in \<open>cases "compile_with F C ts p st"; simp\<close>)
qed (auto split: prod.splits sum.splits)

text \<open>One that counts the signatures handed out ends with the leaves of the compiled predicate.\<close>

definition plus_sigs :: "(string \<Rightarrow> nat) \<Rightarrow> string list \<Rightarrow> string \<Rightarrow> nat" where
  "plus_sigs X sigs s = X s + count_list sigs s"

lemma plus_sigs_simps [simp]:
  "plus_sigs X [] = X" "plus_sigs (plus_sigs X xs) ys = plus_sigs X (xs @ ys)"
  by (simp_all add: plus_sigs_def fun_eq_iff)

lemma compile_counts:
  "(\<And>X R t proj w R' sig. (t, proj, w) \<in> set (subs p) \<Longrightarrow> J X R \<Longrightarrow> C R t proj w = (R', Inr sig) \<Longrightarrow> J (plus_sigs X [sig]) R') \<Longrightarrow>
     J X R \<Longrightarrow> compile_with F C ts p R = (R', Inr c) \<Longrightarrow> J (plus_sigs X (leaf_sigs c)) R'"
  "(\<And>X R t proj w R' sig q. q \<in> set ps \<Longrightarrow> (t, proj, w) \<in> set (subs q) \<Longrightarrow> J X R \<Longrightarrow> C R t proj w = (R', Inr sig) \<Longrightarrow> J (plus_sigs X [sig]) R') \<Longrightarrow>
     J X R \<Longrightarrow> compile_list F C ts ps R = (R', Inr cs) \<Longrightarrow> J (plus_sigs X (concat (map leaf_sigs cs))) R'"
proof (induction F C ts p R and F C ts ps R arbitrary: X R' c and X R' cs rule: compile_with_compile_list.induct)
  case (3 F C ts ps st)
  from 3(4) obtain cs where cs: "compile_list F C ts ps st = (R', Inr cs)" "c = And cs"
    by (auto simp: res_simps split: prod.splits sum.splits)
  have "J (plus_sigs X (concat (map leaf_sigs cs))) R'"
    by (rule 3(1) [OF _ 3(3) cs(1)]) (rule 3(2), auto)
  then show ?case by (simp add: cs(2))
next
  case (4 F C ts ps st)
  from 4(4) obtain cs where cs: "compile_list F C ts ps st = (R', Inr cs)" "c = Or cs"
    by (auto simp: res_simps split: prod.splits sum.splits)
  have "J (plus_sigs X (concat (map leaf_sigs cs))) R'"
    by (rule 4(1) [OF _ 4(3) cs(1)]) (rule 4(2), auto)
  then show ?case by (simp add: cs(2))
next
  case (5 F C ts p st)
  from 5(4) obtain d where d: "compile_with F C ts p st = (R', Inr d)" "c = Not d"
    by (auto simp: res_simps split: prod.splits sum.splits)
  have "J (plus_sigs X (leaf_sigs d)) R'" by (rule 5(1) [OF _ 5(3) d(1)]) (rule 5(2), auto)
  then show ?case by (simp add: d(2))
next
  case (6 F C ts col t proj w neg st)
  from 6(3) obtain sig idx where s: "C st t proj w = (R', Inr sig)" "c = InSubquery idx sig neg"
    by (auto simp: res_simps split: prod.splits sum.splits)
  from 6(1) [OF _ 6(2) s(1)] show ?case by (simp add: s(2))
next
  case (8 F C ts p ps st)
  from 8(5) obtain c st' ds where s: "compile_with F C ts p st = (st', Inr c)"
    "compile_list F C ts ps st' = (R', Inr ds)" "cs = c # ds"
    by (auto simp: res_simps split: prod.splits sum.splits)
  have one: "J (plus_sigs X (leaf_sigs c)) st'" by (rule 8(1) [OF _ 8(4) s(1)]) (rule 8(3) [where q = p], simp_all)
  have "J (plus_sigs (plus_sigs X (leaf_sigs c)) (concat (map leaf_sigs ds))) R'"
    by (rule 8(2) [OF s(1) [symmetric] refl _ one s(2)]) (rule 8(3), auto)
  then show ?case by (simp add: s(3))
qed (auto simp: res_simps split: sum.splits)

section \<open>What a compilation does to the registry\<close>

abbreviation node_at :: "'c subquery_registry \<Rightarrow> string \<Rightarrow> subq_node option" where
  "node_at R sig \<equiv> map_of (rg_nodes R) sig"

abbreviation template_at :: "'c subquery_registry \<Rightarrow> string \<Rightarrow> template_group option" where
  "template_at R tk \<equiv> map_of (rg_templates R) tk"

text \<open>Node ids and signatures are inverse; the templates are those of the live nodes, their binds lead
  to live nodes, and each live node's bind is taken.\<close>

definition ids_match :: "'c subquery_registry \<Rightarrow> bool" where
  "ids_match R \<longleftrightarrow>
     (\<forall>sig n. node_at R sig = Some n \<longrightarrow> rg_node_by_id R (sn_node_id n) = Some sig \<and> sn_node_id n < rg_next_node R) \<and>
     (\<forall>i sig. rg_node_by_id R i = Some sig \<longrightarrow> (\<exists>n. node_at R sig = Some n \<and> sn_node_id n = i))"

definition templates_match :: "'c subquery_registry \<Rightarrow> bool" where
  "templates_match R \<longleftrightarrow>
     (\<forall>tk. template_at R tk \<noteq> None \<longleftrightarrow> (\<exists>sig n. node_at R sig = Some n \<and> sn_template_key n = tk)) \<and>
     (\<forall>tk tpl b sig. template_at R tk = Some tpl \<longrightarrow> map_of (tg_binds tpl) b = Some sig \<longrightarrow>
        (\<exists>n. node_at R sig = Some n \<and> sn_template_key n = tk \<and> sn_bind n = b)) \<and>
     (\<forall>sig n tpl. node_at R sig = Some n \<longrightarrow> template_at R (sn_template_key n) = Some tpl \<longrightarrow>
        map_of (tg_binds tpl) (sn_bind n) \<noteq> None)"

text \<open>No two live nodes are the same bind of one template. Signatures do not imply it: see
  \<open>bind_collision\<close>.\<close>

definition no_bind_clash :: "'c subquery_registry \<Rightarrow> bool" where
  "no_bind_clash R \<longleftrightarrow> (\<forall>sig sig' n n'. node_at R sig = Some n \<longrightarrow> node_at R sig' = Some n' \<longrightarrow>
     sn_template_key n = sn_template_key n' \<longrightarrow> sn_bind n = sn_bind n' \<longrightarrow> sig = sig')"

lemma templates_match_own:
  assumes "templates_match R" "no_bind_clash R" "node_at R sig = Some n" "template_at R (sn_template_key n) = Some tpl"
  shows "map_of (tg_binds tpl) (sn_bind n) = Some sig"
proof -
  from assms(1,3,4) obtain sig' where s: "map_of (tg_binds tpl) (sn_bind n) = Some sig'"
    unfolding templates_match_def by fastforce
  with assms(1,4) obtain n' where "node_at R sig' = Some n'" "sn_template_key n' = sn_template_key n" "sn_bind n' = sn_bind n"
    unfolding templates_match_def by blast
  with assms(2,3) have "sig' = sig" unfolding no_bind_clash_def by metis
  with s show ?thesis by simp
qed

text \<open>Both depend on the identity of nodes alone: id, template and bind.\<close>

definition node_identity :: "subq_node \<Rightarrow> int \<times> string \<times> row" where
  "node_identity n = (sn_node_id n, sn_template_key n, sn_bind n)"

lemma identity_at:
  assumes "\<And>s. map_option node_identity (node_at R' s) = map_option node_identity (node_at R s)"
  shows "node_at R' s = Some n' \<Longrightarrow> \<exists>n. node_at R s = Some n \<and> sn_node_id n = sn_node_id n' \<and>
      sn_template_key n = sn_template_key n' \<and> sn_bind n = sn_bind n'"
    and "node_at R s = Some n \<Longrightarrow> \<exists>n'. node_at R' s = Some n' \<and> sn_node_id n' = sn_node_id n \<and>
      sn_template_key n' = sn_template_key n \<and> sn_bind n' = sn_bind n"
  using assms [of s] by (cases "node_at R s"; cases "node_at R' s"; simp add: node_identity_def)+

lemma ids_match_same:
  assumes "ids_match R" and ids: "\<And>s. map_option node_identity (node_at R' s) = map_option node_identity (node_at R s)"
    and "rg_node_by_id R' = rg_node_by_id R" "rg_next_node R \<le> rg_next_node R'"
  shows "ids_match R'"
  unfolding ids_match_def
proof (intro conjI allI impI)
  fix s n' assume "node_at R' s = Some n'"
  then obtain n where n: "node_at R s = Some n" "sn_node_id n = sn_node_id n'" using identity_at(1) [OF ids] by blast
  then have "rg_node_by_id R (sn_node_id n) = Some s \<and> sn_node_id n < rg_next_node R"
    using assms(1) unfolding ids_match_def by blast
  then show "rg_node_by_id R' (sn_node_id n') = Some s" "sn_node_id n' < rg_next_node R'"
    using n(2) assms(3,4) by simp_all
next
  fix i s assume "rg_node_by_id R' i = Some s"
  then have "rg_node_by_id R i = Some s" by (simp add: assms(3))
  then obtain n where "node_at R s = Some n" "sn_node_id n = i"
    using assms(1) unfolding ids_match_def by blast
  then show "\<exists>n'. node_at R' s = Some n' \<and> sn_node_id n' = i" using identity_at(2) [OF ids] by blast
qed

lemma templates_match_same:
  assumes "templates_match R" and ids: "\<And>s. map_option node_identity (node_at R' s) = map_option node_identity (node_at R s)"
    and "rg_templates R' = rg_templates R"
  shows "templates_match R'"
  unfolding templates_match_def assms(3)
proof (intro conjI allI impI)
  fix tk
  have "template_at R tk \<noteq> None \<longleftrightarrow> (\<exists>s n. node_at R s = Some n \<and> sn_template_key n = tk)"
    using assms(1) unfolding templates_match_def by blast
  also have "\<dots> \<longleftrightarrow> (\<exists>s n. node_at R' s = Some n \<and> sn_template_key n = tk)"
    using identity_at [OF ids] by blast
  finally show "template_at R tk \<noteq> None \<longleftrightarrow> (\<exists>s n. node_at R' s = Some n \<and> sn_template_key n = tk)" .
next
  fix tk tpl b s assume "template_at R tk = Some tpl" "map_of (tg_binds tpl) b = Some s"
  then obtain n where "node_at R s = Some n" "sn_template_key n = tk" "sn_bind n = b"
    using assms(1) unfolding templates_match_def by blast
  then show "\<exists>n. node_at R' s = Some n \<and> sn_template_key n = tk \<and> sn_bind n = b"
    using identity_at(2) [OF ids] by blast
next
  fix s n' tpl assume n': "node_at R' s = Some n'" and t: "template_at R (sn_template_key n') = Some tpl"
  then obtain n where "node_at R s = Some n" "sn_template_key n = sn_template_key n'" "sn_bind n = sn_bind n'"
    using identity_at(1) [OF ids] by blast
  with assms(1) t show "map_of (tg_binds tpl) (sn_bind n') \<noteq> None" unfolding templates_match_def by metis
qed

text \<open>A compilation touches nodes, templates, ids and the create's scratch lists only.\<close>

definition same_outside :: "'c subquery_registry \<Rightarrow> 'c subquery_registry \<Rightarrow> bool" where
  "same_outside R0 R \<longleftrightarrow> rg_edges R = rg_edges R0 \<and> rg_shapes R = rg_shapes R0 \<and> rg_index R = rg_index R0 \<and>
     rg_circuit R = rg_circuit R0 \<and> rg_dict R = rg_dict R0 \<and> rg_next_feed R = rg_next_feed R0 \<and>
     rg_feed_by_id R = rg_feed_by_id R0 \<and> rg_feeds R = rg_feeds R0 \<and> rg_pending R = rg_pending R0 \<and>
     rg_schemas R = rg_schemas R0 \<and> rg_out R = rg_out R0"

definition grown :: "string list \<Rightarrow> 'c subquery_registry \<Rightarrow> 'c subquery_registry \<Rightarrow> bool" where
  "grown refs R0 R \<longleftrightarrow> same_outside R0 R \<and> rg_next_node R0 \<le> rg_next_node R \<and>
     (\<forall>sig n0. node_at R0 sig = Some n0 \<longrightarrow>
        node_at R sig = Some (n0\<lparr>sn_refcount := sn_refcount n0 + count_list refs sig\<rparr>)) \<and>
     (\<forall>sig. node_at R0 sig = None \<longrightarrow> node_at R sig = None \<longrightarrow> count_list refs sig = 0) \<and>
     (\<forall>sig n. node_at R0 sig = None \<longrightarrow> node_at R sig = Some n \<longrightarrow>
        0 < count_list refs sig \<and> sn_refcount n = count_list refs sig \<and>
        rg_next_node R0 \<le> sn_node_id n \<and> sn_seed_buffer n = None) \<and>
     ids_match R \<and> templates_match R \<and>
     (\<forall>tk tpl0. template_at R0 tk = Some tpl0 \<longrightarrow>
        (\<exists>tpl. template_at R tk = Some tpl \<and> tpl\<lparr>tg_binds := []\<rparr> = tpl0\<lparr>tg_binds := []\<rparr>))"

definition new_nodes :: "'c subquery_registry \<Rightarrow> 'c subquery_registry \<Rightarrow> string set" where
  "new_nodes R0 R = {sig. node_at R0 sig = None \<and> node_at R sig \<noteq> None}"

definition compiled_from :: "string list \<Rightarrow> 'c subquery_registry \<Rightarrow> 'c subquery_registry \<Rightarrow> bool" where
  "compiled_from refs R0 R \<longleftrightarrow> grown refs R0 R \<and> set (rg_pending_seed R) = new_nodes R0 R"

text \<open>Signatures nest: a subquery inside the inner predicate has a shorter one.\<close>

lemma register_node_nodes:
  "node_at (fst (register_node F sig t proj w ts pred R)) s \<noteq> None \<Longrightarrow> s = sig \<or> node_at R s \<noteq> None"
  by (auto simp: register_node_def Let_def update_conv' split: sum.splits prod.splits if_splits)

lemma collect_new_shorter:
  fixes R :: "'c subquery_registry"
  shows "node_at (fst (collect_subquery n F R t proj w)) s \<noteq> None \<Longrightarrow>
     node_at R s \<noteq> None \<or> length s \<le> length (subquery_sig F t proj w)"
proof (induction n arbitrary: R t proj w)
  case (Suc n)
  show ?case
  proof (cases "node_at R (subquery_sig F t proj w)")
    case None
    show ?thesis
    proof (cases "rg_schemas R t")
      case (Some ts)
      obtain R1 r where c: "compile_opt_with F (collect_subquery n F) ts w R = (R1, r)" by (cases "compile_opt_with F (collect_subquery n F) ts w R")
      have new: "node_at R s \<noteq> None \<or> length s < length (subquery_sig F t proj w)" if s: "node_at R1 s \<noteq> None"
      proof (cases w)
        case None
        then show ?thesis using c s by (simp add: compile_opt_with_def)
      next
        case (Some p)
        have "node_at (fst (compile_with F (collect_subquery n F) ts p R)) s \<noteq> None \<longrightarrow> node_at R s \<noteq> None \<or> length s < length (canonical_pred F p)"
        proof (rule compile_keeps(1))
          fix R' :: "'c subquery_registry" and t' proj' w'
          assume m: "(t', proj', w') \<in> set (subs p)"
            and I: "node_at R' s \<noteq> None \<longrightarrow> node_at R s \<noteq> None \<or> length s < length (canonical_pred F p)"
          show "node_at (fst (collect_subquery n F R' t' proj' w')) s \<noteq> None \<longrightarrow> node_at R s \<noteq> None \<or> length s < length (canonical_pred F p)"
            using Suc.IH [of R' t' proj' w'] I subs_shorter [OF m, of F] by linarith
        qed simp
        then show ?thesis using Some c s by (auto simp: compile_opt_with_def subquery_sig_def)
      qed
      show ?thesis
      proof (cases r)
        case (Inl e)
        then have "node_at R1 s \<noteq> None" using Suc.prems None Some c by (simp add: Let_def)
        then show ?thesis using new by linarith
      next
        case (Inr pred)
        let ?R2 = "R1\<lparr>rg_staged := rg_staged R1 @ map (leaf_edge (DepNode (subquery_sig F t proj w))) (collect_in_leaves pred)\<rparr>"
        have "node_at (fst (register_node F (subquery_sig F t proj w) t proj w ts pred ?R2)) s \<noteq> None"
          using Suc.prems None Some c Inr by (simp add: Let_def)
        from register_node_nodes [OF this] have "s = subquery_sig F t proj w \<or> node_at R1 s \<noteq> None" by simp
        then show ?thesis using new by fastforce
      qed
    qed (use Suc.prems None in \<open>simp add: Let_def\<close>)
  qed (use Suc.prems in \<open>auto simp: Let_def update_conv' split: if_splits\<close>)
qed simp

text \<open>The templates after a node's registration: only its own entry changes, by its bind.\<close>

lemma registered_templates:
  assumes "ensure_template F t ts pc tk cols residual T = Inr T1" and "T' = insert_bind tk bind sig T1"
  shows "\<exists>tpl. map_of T' = (map_of T)(tk \<mapsto> tpl) \<and>
    (case map_of T tk of
       None \<Rightarrow> map_of (tg_binds tpl) = [bind \<mapsto> sig]
     | Some tpl0 \<Rightarrow> tpl\<lparr>tg_binds := []\<rparr> = tpl0\<lparr>tg_binds := []\<rparr> \<and> map_of (tg_binds tpl) = (map_of (tg_binds tpl0))(bind \<mapsto> sig))"
  using assms
  by (intro exI [of _ "the (map_of T' tk)"])
    (auto simp: ensure_template_def insert_bind_def res_simps update_conv' split: option.splits)

text \<open>A node registered under a new signature.\<close>

lemma register_node_cases:
  assumes "register_node F sig t proj w ts pred R = (R', r)"
  shows "(\<exists>e nx. r = Inl e \<and> R' = R\<lparr>rg_next_node := nx\<rparr> \<and> rg_next_node R \<le> nx) \<or>
    (\<exists>node T1. r = Inr sig \<and> sn_pred node = pred \<and> sn_refcount node = 1 \<and> sn_node_id node = rg_next_node R \<and>
       sn_seed_buffer node = None \<and> sn_inner_table node = t \<and> sn_where_json node = w \<and> sn_sig node = sig \<and>
       R' = R\<lparr>rg_next_node := rg_next_node R + 1, rg_templates := insert_bind (sn_template_key node) (sn_bind node) sig T1,
              rg_nodes := AList.update sig node (rg_nodes R), rg_node_by_id := (rg_node_by_id R)(rg_next_node R \<mapsto> sig),
              rg_log := rg_log R @ [sig], rg_pending_seed := rg_pending_seed R @ [sig]\<rparr> \<and>
       (\<exists>pc cols residual. ensure_template F t ts pc (sn_template_key node) cols residual (rg_templates R) = Inr T1))"
proof (cases "column_index ts proj")
  case (Inl e)
  then show ?thesis using assms by (auto simp: register_node_def intro!: exI [of _ "rg_next_node R"])
next
  case (Inr pc)
  obtain tk binds residual where tpl: "subquery_template F t proj w = (tk, binds, residual)"
    by (cases "subquery_template F t proj w")
  show ?thesis
  proof (cases "map_res (bind_param F ts) binds")
    case (Inl e)
    then show ?thesis using assms Inr tpl
      by (auto simp: register_node_def Let_def intro!: exI [of _ "rg_next_node R + 1"])
  next
    case pvs: (Inr pvs)
    show ?thesis
    proof (cases "ensure_template F t ts pc tk (map fst pvs) residual (rg_templates R)")
      case (Inl e)
      then show ?thesis using assms Inr tpl pvs
        by (auto simp: register_node_def Let_def intro!: exI [of _ "rg_next_node R + 1"])
    next
      case T1: (Inr T1)
      let ?node = "(node_new sig t pc (ts_pk_index ts) pred (rg_next_node R))
        \<lparr>sn_where_json := w, sn_template_key := tk, sn_bind := map snd pvs, sn_refcount := 1\<rparr>"
      from assms Inr tpl pvs T1 show ?thesis
        by (intro disjI2 exI [of _ ?node] exI [of _ T1]) (auto simp: register_node_def Let_def node_new_def)
    qed
  qed
qed

lemma ids_match_new:
  assumes "ids_match R" "node_at R sig = None" "sn_node_id node = rg_next_node R"
    and "rg_nodes R' = AList.update sig node (rg_nodes R)" "rg_node_by_id R' = (rg_node_by_id R)(rg_next_node R \<mapsto> sig)"
    and "rg_next_node R' = rg_next_node R + 1"
  shows "ids_match R'"
  using assms unfolding ids_match_def by (auto simp: update_conv' split: if_splits) fastforce+

lemma templates_match_new:
  assumes m: "templates_match R" and new: "node_at R sig = None"
    and T1: "ensure_template F t ts pc (sn_template_key node) cols residual (rg_templates R) = Inr T1"
    and R': "rg_nodes R' = AList.update sig node (rg_nodes R)"
      "rg_templates R' = insert_bind (sn_template_key node) (sn_bind node) sig T1"
  shows "templates_match R'"
    and "template_at R tk = Some tpl0 \<Longrightarrow> \<exists>tpl. template_at R' tk = Some tpl \<and> tpl\<lparr>tg_binds := []\<rparr> = tpl0\<lparr>tg_binds := []\<rparr>"
proof -
  from registered_templates [OF T1 R'(2)] obtain tpl where
    tpl: "map_of (rg_templates R') = (map_of (rg_templates R))(sn_template_key node \<mapsto> tpl)"
    and binds: "case template_at R (sn_template_key node) of
       None \<Rightarrow> map_of (tg_binds tpl) = [sn_bind node \<mapsto> sig]
     | Some tpl0 \<Rightarrow> tpl\<lparr>tg_binds := []\<rparr> = tpl0\<lparr>tg_binds := []\<rparr> \<and>
         map_of (tg_binds tpl) = (map_of (tg_binds tpl0))(sn_bind node \<mapsto> sig)" by blast
  have nodes: "map_of (rg_nodes R') = (map_of (rg_nodes R))(sig \<mapsto> node)" by (simp add: R'(1) update_conv')
  show "templates_match R'"
    unfolding templates_match_def
  proof (intro conjI allI impI)
    fix tk
    show "template_at R' tk \<noteq> None \<longleftrightarrow> (\<exists>sig n. node_at R' sig = Some n \<and> sn_template_key n = tk)"
    proof (cases "tk = sn_template_key node")
      case False
      have "template_at R tk \<noteq> None \<longleftrightarrow> (\<exists>sig n. node_at R sig = Some n \<and> sn_template_key n = tk)"
        using m unfolding templates_match_def by blast
      moreover have "(\<exists>s n. node_at R' s = Some n \<and> sn_template_key n = tk) \<longleftrightarrow> (\<exists>s n. node_at R s = Some n \<and> sn_template_key n = tk)"
        using False new unfolding nodes by (metis fun_upd_apply option.distinct(1) option.inject)
      ultimately show ?thesis using False by (simp add: tpl)
    qed (auto simp: tpl nodes)
  next
    fix tk tpl' b s
    assume t': "template_at R' tk = Some tpl'" and b: "map_of (tg_binds tpl') b = Some s"
    have old: "\<exists>n. node_at R s = Some n \<and> sn_template_key n = tk \<and> sn_bind n = b"
      if "template_at R tk = Some tpl0" "map_of (tg_binds tpl0) b = Some s" for tpl0
      using m that unfolding templates_match_def by blast
    have keep: "\<exists>n. node_at R' s = Some n \<and> sn_template_key n = tk \<and> sn_bind n = b"
      if "\<exists>n. node_at R s = Some n \<and> sn_template_key n = tk \<and> sn_bind n = b"
      using that new by (auto simp: nodes)
    show "\<exists>n. node_at R' s = Some n \<and> sn_template_key n = tk \<and> sn_bind n = b"
    proof (cases "tk = sn_template_key node \<and> b = sn_bind node \<and> s = sig")
      case False
      then have "\<exists>tpl0. template_at R tk = Some tpl0 \<and> map_of (tg_binds tpl0) b = Some s"
        using t' b binds by (auto simp: tpl split: option.splits if_splits)
      then show ?thesis using old keep by blast
    qed (auto simp: nodes)
  next
    fix s n tpl' assume n: "node_at R' s = Some n" and t': "template_at R' (sn_template_key n) = Some tpl'"
    show "map_of (tg_binds tpl') (sn_bind n) \<noteq> None"
    proof (cases "s = sig")
      case True
      then show ?thesis using n t' binds by (auto simp: nodes tpl split: option.splits)
    next
      case False
      then have old: "node_at R s = Some n" using n by (simp add: nodes)
      with m obtain tpl0 where t0: "template_at R (sn_template_key n) = Some tpl0"
        unfolding templates_match_def by (metis option.exhaust)
      with m old have "map_of (tg_binds tpl0) (sn_bind n) \<noteq> None" unfolding templates_match_def by blast
      then show ?thesis using t' t0 binds by (auto simp: tpl split: option.splits if_splits)
    qed
  qed
  show "\<exists>tpl. template_at R' tk = Some tpl \<and> tpl\<lparr>tg_binds := []\<rparr> = tpl0\<lparr>tg_binds := []\<rparr>"
    if "template_at R tk = Some tpl0"
    using that binds by (auto simp: tpl split: option.splits)
qed

lemma grownD:
  assumes "grown refs R0 R"
  shows "same_outside R0 R" "rg_next_node R0 \<le> rg_next_node R"
    "node_at R0 sig = Some n0 \<Longrightarrow> node_at R sig = Some (n0\<lparr>sn_refcount := sn_refcount n0 + count_list refs sig\<rparr>)"
    "node_at R0 sig = None \<Longrightarrow> node_at R sig = None \<Longrightarrow> count_list refs sig = 0"
    "node_at R0 sig = None \<Longrightarrow> node_at R sig = Some n \<Longrightarrow> 0 < count_list refs sig \<and> sn_refcount n = count_list refs sig \<and>
       rg_next_node R0 \<le> sn_node_id n \<and> sn_seed_buffer n = None"
    "ids_match R" "templates_match R"
    "template_at R0 tk = Some tpl0 \<Longrightarrow> \<exists>tpl. template_at R tk = Some tpl \<and> tpl\<lparr>tg_binds := []\<rparr> = tpl0\<lparr>tg_binds := []\<rparr>"
  using assms unfolding grown_def by blast+

lemma compiled_fromD:
  assumes "compiled_from refs R0 R"
  shows "same_outside R0 R" "rg_next_node R0 \<le> rg_next_node R"
    "node_at R0 sig = Some n0 \<Longrightarrow> node_at R sig = Some (n0\<lparr>sn_refcount := sn_refcount n0 + count_list refs sig\<rparr>)"
    "node_at R0 sig = None \<Longrightarrow> node_at R sig = None \<Longrightarrow> count_list refs sig = 0"
    "node_at R0 sig = None \<Longrightarrow> node_at R sig = Some n \<Longrightarrow> 0 < count_list refs sig \<and> sn_refcount n = count_list refs sig \<and>
       rg_next_node R0 \<le> sn_node_id n \<and> sn_seed_buffer n = None"
    "set (rg_pending_seed R) = {sig. node_at R0 sig = None \<and> node_at R sig \<noteq> None}"
    "ids_match R" "templates_match R"
    "template_at R0 tk = Some tpl0 \<Longrightarrow> \<exists>tpl. template_at R tk = Some tpl \<and> tpl\<lparr>tg_binds := []\<rparr> = tpl0\<lparr>tg_binds := []\<rparr>"
  using assms unfolding compiled_from_def grown_def new_nodes_def by blast+

lemma count_list_snoc [simp]: "count_list (xs @ [x]) y = count_list xs y + (if x = y then 1 else 0)"
  by (induction xs) auto

lemma compiled_from_bump:
  assumes c: "compiled_from (rg_log R) R0 R" and nd: "node_at R sig = Some nd"
  shows "compiled_from (rg_log R @ [sig]) R0
    (R\<lparr>rg_nodes := AList.update sig (nd\<lparr>sn_refcount := sn_refcount nd + 1\<rparr>) (rg_nodes R), rg_log := rg_log R @ [sig]\<rparr>)"
    (is "compiled_from _ R0 ?R'")
proof -
  note D = compiled_fromD [OF c]
  have "ids_match ?R'" using D(7) by (rule ids_match_same) (use nd in \<open>auto simp: node_identity_def update_conv'\<close>)
  moreover have "templates_match ?R'" using D(8) by (rule templates_match_same) (use nd in \<open>auto simp: node_identity_def update_conv'\<close>)
  moreover have "same_outside R0 ?R'" using D(1) by (simp add: same_outside_def)
  moreover have "\<forall>s n0. node_at R0 s = Some n0 \<longrightarrow>
      node_at ?R' s = Some (n0\<lparr>sn_refcount := sn_refcount n0 + count_list (rg_log R @ [sig]) s\<rparr>)"
    using D(3) nd by (auto simp: update_conv')
  moreover have "\<forall>s. node_at R0 s = None \<longrightarrow> node_at ?R' s = None \<longrightarrow> count_list (rg_log R @ [sig]) s = 0"
    using D(4) nd by (auto simp: update_conv')
  moreover have "\<forall>s n. node_at R0 s = None \<longrightarrow> node_at ?R' s = Some n \<longrightarrow>
      0 < count_list (rg_log R @ [sig]) s \<and> sn_refcount n = count_list (rg_log R @ [sig]) s \<and>
      rg_next_node R0 \<le> sn_node_id n \<and> sn_seed_buffer n = None"
  proof (intro allI impI)
    fix s n assume a: "node_at R0 s = None" "node_at ?R' s = Some n"
    show "0 < count_list (rg_log R @ [sig]) s \<and> sn_refcount n = count_list (rg_log R @ [sig]) s \<and>
      rg_next_node R0 \<le> sn_node_id n \<and> sn_seed_buffer n = None"
      using a nd D(5) [of s] by (cases "s = sig") (auto simp: update_conv')
  qed
  moreover have "set (rg_pending_seed ?R') = {s. node_at R0 s = None \<and> node_at ?R' s \<noteq> None}"
    using D(6) nd by (auto simp: update_conv')
  moreover have "rg_next_node R0 \<le> rg_next_node ?R'" using D(2) by simp
  moreover have "\<forall>tk tpl0. template_at R0 tk = Some tpl0 \<longrightarrow>
      (\<exists>tpl. template_at ?R' tk = Some tpl \<and> tpl\<lparr>tg_binds := []\<rparr> = tpl0\<lparr>tg_binds := []\<rparr>)"
    using D(9) by fastforce
  ultimately show ?thesis unfolding compiled_from_def grown_def new_nodes_def by blast
qed

lemma compiled_from_next:
  assumes "compiled_from refs R0 R" "rg_next_node R \<le> nx"
  shows "compiled_from refs R0 (R\<lparr>rg_next_node := nx\<rparr>)"
proof -
  note D = compiled_fromD [OF assms(1)]
  have "ids_match (R\<lparr>rg_next_node := nx\<rparr>)" by (rule ids_match_same [OF D(7)]) (use assms(2) in simp_all)
  moreover have "templates_match (R\<lparr>rg_next_node := nx\<rparr>)" by (rule templates_match_same [OF D(8)]) simp_all
  ultimately show ?thesis using assms by (simp add: compiled_from_def grown_def new_nodes_def same_outside_def)
qed

lemma compiled_from_register:
  assumes c: "compiled_from (rg_log R) R0 R" and new: "node_at R sig = None"
    and r: "register_node F sig t proj w ts pred R = (R', res)"
  shows "compiled_from (rg_log R') R0 R'"
  using register_node_cases [OF r]
proof (elim disjE exE conjE)
  fix e nx assume "R' = R\<lparr>rg_next_node := nx\<rparr>" "rg_next_node R \<le> nx"
  then show ?thesis using compiled_from_next [OF c] by simp
next
  fix node T1 pc cols residual
  assume n: "sn_refcount node = 1" "sn_node_id node = rg_next_node R" "sn_seed_buffer node = None"
    and R': "R' = R\<lparr>rg_next_node := rg_next_node R + 1, rg_templates := insert_bind (sn_template_key node) (sn_bind node) sig T1,
              rg_nodes := AList.update sig node (rg_nodes R), rg_node_by_id := (rg_node_by_id R)(rg_next_node R \<mapsto> sig),
              rg_log := rg_log R @ [sig], rg_pending_seed := rg_pending_seed R @ [sig]\<rparr>"
    and T1: "ensure_template F t ts pc (sn_template_key node) cols residual (rg_templates R) = Inr T1"
  note D = compiled_fromD [OF c]
  have f: "rg_nodes R' = AList.update sig node (rg_nodes R)" "rg_next_node R' = rg_next_node R + 1"
    "rg_node_by_id R' = (rg_node_by_id R)(rg_next_node R \<mapsto> sig)" "rg_log R' = rg_log R @ [sig]"
    "rg_templates R' = insert_bind (sn_template_key node) (sn_bind node) sig T1"
    "rg_pending_seed R' = rg_pending_seed R @ [sig]" by (simp_all add: R')
  have new0: "node_at R0 sig = None" using D(3) new by (cases "node_at R0 sig") auto
  have "ids_match R'" by (rule ids_match_new [OF D(7) new n(2) f(1,3,2)])
  moreover note tm = templates_match_new [OF D(8) new T1 f(1,5)]
  moreover have "same_outside R0 R'" using D(1) by (simp add: same_outside_def R')
  moreover have "\<forall>s n0. node_at R0 s = Some n0 \<longrightarrow>
      node_at R' s = Some (n0\<lparr>sn_refcount := sn_refcount n0 + count_list (rg_log R') s\<rparr>)"
    using D(3) new new0 by (auto simp: f update_conv')
  moreover have "\<forall>s. node_at R0 s = None \<longrightarrow> node_at R' s = None \<longrightarrow> count_list (rg_log R') s = 0"
    using D(4) by (auto simp: f update_conv')
  moreover have "\<forall>s n. node_at R0 s = None \<longrightarrow> node_at R' s = Some n \<longrightarrow>
      0 < count_list (rg_log R') s \<and> sn_refcount n = count_list (rg_log R') s \<and>
      rg_next_node R0 \<le> sn_node_id n \<and> sn_seed_buffer n = None"
    using D(2,5) D(4) [OF new0 new] n by (auto simp: f update_conv')
  moreover have "set (rg_pending_seed R') = {s. node_at R0 s = None \<and> node_at R' s \<noteq> None}"
    using D(6) new new0 by (auto simp: f update_conv')
  moreover have "\<exists>tpl. template_at R' tk = Some tpl \<and> tpl\<lparr>tg_binds := []\<rparr> = tpl0\<lparr>tg_binds := []\<rparr>"
    if t0: "template_at R0 tk = Some tpl0" for tk tpl0
    using D(9) [OF t0] tm(2) by metis
  ultimately show ?thesis using D(2) unfolding compiled_from_def grown_def new_nodes_def by (simp add: f)
qed

lemma compiled_from_collect:
  fixes R :: "'c subquery_registry"
  shows "compiled_from (rg_log R) R0 R \<Longrightarrow>
    compiled_from (rg_log (fst (collect_subquery n F R t proj w))) R0 (fst (collect_subquery n F R t proj w))"
proof (induction n arbitrary: R t proj w)
  case (Suc n)
  let ?sig = "subquery_sig F t proj w"
  show ?case
  proof (cases "node_at R ?sig")
    case (Some nd)
    then show ?thesis using compiled_from_bump [OF Suc.prems Some] by (simp add: Let_def)
  next
    case None
    show ?thesis
    proof (cases "rg_schemas R t")
      case (Some ts)
      obtain R1 r where c: "compile_opt_with F (collect_subquery n F) ts w R = (R1, r)" by (cases "compile_opt_with F (collect_subquery n F) ts w R")
      have R1: "compiled_from (rg_log R1) R0 R1 \<and> node_at R1 ?sig = None"
      proof (cases w)
        case w: None
        then show ?thesis using c Suc.prems None by (simp add: compile_opt_with_def)
      next
        case w: (Some p)
        have "compiled_from (rg_log (fst (compile_with F (collect_subquery n F) ts p R))) R0 (fst (compile_with F (collect_subquery n F) ts p R)) \<and>
            node_at (fst (compile_with F (collect_subquery n F) ts p R)) ?sig = None"
        proof (rule compile_keeps(1) [where I = "\<lambda>R. compiled_from (rg_log R) R0 R \<and> node_at R ?sig = None"])
          fix R' :: "'c subquery_registry" and t' proj' w'
          assume m: "(t', proj', w') \<in> set (subs p)" and I: "compiled_from (rg_log R') R0 R' \<and> node_at R' ?sig = None"
          have "length (subquery_sig F t' proj' w') < length ?sig" using subs_shorter [OF m, of F] w by (simp add: subquery_sig_def)
          then show "compiled_from (rg_log (fst (collect_subquery n F R' t' proj' w'))) R0 (fst (collect_subquery n F R' t' proj' w')) \<and>
              node_at (fst (collect_subquery n F R' t' proj' w')) ?sig = None"
            using Suc.IH I collect_new_shorter [of n F R' t' proj' w' ?sig] by fastforce
        qed (use Suc.prems None in simp)
        then show ?thesis using w c by (simp add: compile_opt_with_def)
      qed
      show ?thesis
      proof (cases r)
        case (Inl e)
        then show ?thesis using None Some c R1 by (simp add: Let_def)
      next
        case (Inr pred)
        let ?R2 = "R1\<lparr>rg_staged := rg_staged R1 @ map (leaf_edge (DepNode ?sig)) (collect_in_leaves pred)\<rparr>"
        have R2: "compiled_from (rg_log ?R2) R0 ?R2" "node_at ?R2 ?sig = None"
          using R1 by (auto simp: compiled_from_def grown_def new_nodes_def same_outside_def ids_match_def templates_match_def)
        obtain R3 res where reg: "register_node F ?sig t proj w ts pred ?R2 = (R3, res)" by (cases "register_node F ?sig t proj w ts pred ?R2")
        from compiled_from_register [OF R2 reg] show ?thesis using None Some c Inr reg by (simp add: Let_def)
      qed
    qed (use Suc.prems None in \<open>simp add: Let_def\<close>)
  qed
qed simp

lemma compiled_from_compile:
  fixes R :: "'c subquery_registry"
  assumes "compiled_from (rg_log R) R0 R"
  shows "compiled_from (rg_log (fst (compile_with F (collect_subquery n F) ts p R))) R0 (fst (compile_with F (collect_subquery n F) ts p R))"
  by (rule compile_keeps(1) [where I = "\<lambda>R. compiled_from (rg_log R) R0 R"]) (auto intro: compiled_from_collect assms)

section \<open>Removing a node\<close>

lemma in_template_lookup: "map_of (in_template tk f T) x = (if x = tk then map_option f (map_of T tk) else map_of T x)"
  by (auto simp: in_template_def update_conv' split: option.splits)

lemma map_of_empty_iff: "m = [] \<longleftrightarrow> map_of m = Map.empty"
  by (cases m) auto

text \<open>The bookkeeping after a node and its bind are removed, whatever happened to the rest of the
  templates' contents.\<close>

lemma remove_entry_match:
  assumes ids: "ids_match R" and tm: "templates_match R" and nc: "no_bind_clash R" and n: "node_at R sig = Some n"
    and T1: "\<And>tk. map_option tg_binds (map_of T1 tk) = map_option tg_binds (template_at R tk)"
    and n': "node_identity n' = node_identity n"
    and R': "map_of (rg_nodes R') = (map_of (rg_nodes R))(sig := None)"
      "rg_node_by_id R' = (rg_node_by_id R)(sn_node_id n := None)" "rg_next_node R' = rg_next_node R"
      "rg_templates R' = remove_bind n' T1"
  shows "ids_match R'" "templates_match R'" "no_bind_clash R'"
    and "template_at R' tk = Some tpl' \<Longrightarrow> \<exists>tpl. map_of T1 tk = Some tpl \<and> tpl'\<lparr>tg_binds := []\<rparr> = tpl\<lparr>tg_binds := []\<rparr>"
proof -
  let ?tk = "sn_template_key n"
  have id: "sn_template_key n' = ?tk" "sn_bind n' = sn_bind n" using n' by (simp_all add: node_identity_def)
  from tm n obtain tpl0 where tpl0: "template_at R ?tk = Some tpl0" unfolding templates_match_def by fastforce
  with T1 [of ?tk] obtain tpl where tpl: "map_of T1 ?tk = Some tpl" "tg_binds tpl = tg_binds tpl0" by (cases "map_of T1 ?tk") auto
  define binds where "binds = AList.delete (sn_bind n) (tg_binds tpl)"
  have bm: "map_of binds = (map_of (tg_binds tpl0))(sn_bind n := None)" by (simp add: binds_def tpl)
  have T': "map_of (rg_templates R') = (map_of T1)(?tk := if binds = [] then None else Some (tpl\<lparr>tg_binds := binds\<rparr>))"
    unfolding R'(4) remove_bind_def id by (simp add: tpl(1) binds_def [symmetric] Let_def update_conv')
  show "ids_match R'"
    unfolding ids_match_def R'(1-3)
  proof (intro conjI allI impI)
    fix s m assume m: "((map_of (rg_nodes R))(sig := None)) s = Some m"
    then have m0: "node_at R s = Some m" "s \<noteq> sig" by (auto split: if_splits)
    then have "rg_node_by_id R (sn_node_id m) = Some s" "rg_node_by_id R (sn_node_id n) = Some sig" "sn_node_id m < rg_next_node R"
      using ids n unfolding ids_match_def by blast+
    with m0 show "((rg_node_by_id R)(sn_node_id n := None)) (sn_node_id m) = Some s" "sn_node_id m < rg_next_node R" by auto
  next
    fix i s assume i: "((rg_node_by_id R)(sn_node_id n := None)) i = Some s"
    then have "rg_node_by_id R i = Some s" "i \<noteq> sn_node_id n" by (auto split: if_splits)
    then obtain m where "node_at R s = Some m" "sn_node_id m = i" using ids unfolding ids_match_def by blast
    with \<open>i \<noteq> sn_node_id n\<close> n show "\<exists>m. ((map_of (rg_nodes R))(sig := None)) s = Some m \<and> sn_node_id m = i" by auto
  qed
  show "no_bind_clash R'" using nc unfolding no_bind_clash_def R'(1) by (auto split: if_splits)
  have own: "map_of (tg_binds tpl0) (sn_bind n) = Some sig" by (rule templates_match_own [OF tm nc n tpl0])
  show "templates_match R'"
    unfolding templates_match_def R'(1) T'
  proof (intro conjI allI impI)
    fix tk
    show "((map_of T1)(?tk := if binds = [] then None else Some (tpl\<lparr>tg_binds := binds\<rparr>))) tk \<noteq> None \<longleftrightarrow>
        (\<exists>s m. ((map_of (rg_nodes R))(sig := None)) s = Some m \<and> sn_template_key m = tk)"
    proof (cases "tk = ?tk")
      case False
      have "map_of T1 tk \<noteq> None \<longleftrightarrow> template_at R tk \<noteq> None" using T1 [of tk] by (metis option.map_disc_iff)
      also have "\<dots> \<longleftrightarrow> (\<exists>s m. node_at R s = Some m \<and> sn_template_key m = tk)"
        using tm unfolding templates_match_def by blast
      also have "\<dots> \<longleftrightarrow> (\<exists>s m. ((map_of (rg_nodes R))(sig := None)) s = Some m \<and> sn_template_key m = tk)"
      proof
        assume "\<exists>s m. node_at R s = Some m \<and> sn_template_key m = tk"
        then obtain s m where m: "node_at R s = Some m" "sn_template_key m = tk" by blast
        with False n have "s \<noteq> sig" by auto
        with m show "\<exists>s m. ((map_of (rg_nodes R))(sig := None)) s = Some m \<and> sn_template_key m = tk" by auto
      qed (auto split: if_splits)
      finally show ?thesis using False by simp
    next
      case True
      have "binds \<noteq> [] \<longleftrightarrow> (\<exists>b s. b \<noteq> sn_bind n \<and> map_of (tg_binds tpl0) b = Some s)"
        unfolding map_of_empty_iff bm by (auto simp: fun_eq_iff)
      also have "\<dots> \<longleftrightarrow> (\<exists>s m. s \<noteq> sig \<and> node_at R s = Some m \<and> sn_template_key m = ?tk)"
      proof
        assume "\<exists>b s. b \<noteq> sn_bind n \<and> map_of (tg_binds tpl0) b = Some s"
        then obtain b s where b: "b \<noteq> sn_bind n" "map_of (tg_binds tpl0) b = Some s" by blast
        then obtain m where m: "node_at R s = Some m" "sn_template_key m = ?tk" "sn_bind m = b"
          using tm tpl0 unfolding templates_match_def by blast
        then have "s \<noteq> sig" using b n by auto
        with m show "\<exists>s m. s \<noteq> sig \<and> node_at R s = Some m \<and> sn_template_key m = ?tk" by blast
      next
        assume "\<exists>s m. s \<noteq> sig \<and> node_at R s = Some m \<and> sn_template_key m = ?tk"
        then obtain s m where m: "s \<noteq> sig" "node_at R s = Some m" "sn_template_key m = ?tk" by blast
        have "map_of (tg_binds tpl0) (sn_bind m) = Some s" by (rule templates_match_own [OF tm nc m(2)]) (simp add: m tpl0)
        moreover have "sn_bind m \<noteq> sn_bind n" using nc m n unfolding no_bind_clash_def by metis
        ultimately show "\<exists>b s. b \<noteq> sn_bind n \<and> map_of (tg_binds tpl0) b = Some s" by blast
      qed
      finally show ?thesis using True by auto
    qed
  next
    fix tk tp b s
    assume tp: "((map_of T1)(?tk := if binds = [] then None else Some (tpl\<lparr>tg_binds := binds\<rparr>))) tk = Some tp"
      and b: "map_of (tg_binds tp) b = Some s"
    have "\<exists>tp0. template_at R tk = Some tp0 \<and> map_of (tg_binds tp0) b = Some s \<and> (tk = ?tk \<longrightarrow> b \<noteq> sn_bind n)"
    proof (cases "tk = ?tk")
      case True
      with tp b tpl0 bm show ?thesis by (auto split: if_splits)
    next
      case False
      with tp have "map_of T1 tk = Some tp" by simp
      with T1 [of tk] obtain tp0 where "template_at R tk = Some tp0" "tg_binds tp0 = tg_binds tp" by (cases "template_at R tk") auto
      with b False show ?thesis by auto
    qed
    then obtain tp0 where tp0: "template_at R tk = Some tp0" "map_of (tg_binds tp0) b = Some s" "tk = ?tk \<longrightarrow> b \<noteq> sn_bind n" by blast
    then obtain m where "node_at R s = Some m" "sn_template_key m = tk" "sn_bind m = b"
      using tm unfolding templates_match_def by blast
    with tp0(3) n show "\<exists>m. ((map_of (rg_nodes R))(sig := None)) s = Some m \<and> sn_template_key m = tk \<and> sn_bind m = b" by auto
  next
    fix s m tp assume m: "((map_of (rg_nodes R))(sig := None)) s = Some m"
      and tp: "((map_of T1)(?tk := if binds = [] then None else Some (tpl\<lparr>tg_binds := binds\<rparr>))) (sn_template_key m) = Some tp"
    from m have m0: "node_at R s = Some m" "s \<noteq> sig" by (auto split: if_splits)
    with tm obtain tp0 where tp0: "template_at R (sn_template_key m) = Some tp0" unfolding templates_match_def by fastforce
    have o: "map_of (tg_binds tp0) (sn_bind m) = Some s" by (rule templates_match_own [OF tm nc m0(1) tp0])
    show "map_of (tg_binds tp) (sn_bind m) \<noteq> None"
    proof (cases "sn_template_key m = ?tk")
      case True
      moreover have "sn_bind m \<noteq> sn_bind n" using nc m0 n True unfolding no_bind_clash_def by metis
      ultimately show ?thesis using tp tp0 tpl0 o bm by (auto split: if_splits)
    next
      case False
      with tp T1 [of "sn_template_key m"] tp0 o show ?thesis by (auto split: if_splits)
    qed
  qed
  show "\<exists>tpl. map_of T1 tk = Some tpl \<and> tpl'\<lparr>tg_binds := []\<rparr> = tpl\<lparr>tg_binds := []\<rparr>" if "template_at R' tk = Some tpl'"
    using that tpl unfolding T' by (auto split: if_splits)
qed

section \<open>Rolling back\<close>

lemma no_bind_clash_same:
  assumes "no_bind_clash R" and ids: "\<And>s. map_option node_identity (node_at R' s) = map_option node_identity (node_at R s)"
  shows "no_bind_clash R'"
  unfolding no_bind_clash_def
proof (intro allI impI)
  fix s s' m m' assume "node_at R' s = Some m" "node_at R' s' = Some m'"
    "sn_template_key m = sn_template_key m'" "sn_bind m = sn_bind m'"
  with identity_at(1) [OF ids] assms(1) show "s = s'" unfolding no_bind_clash_def by metis
qed

lemma rollback_ref_step:
  assumes g: "grown (sig # refs) R0 R" and nc: "no_bind_clash R"
    and pos: "\<And>n0. node_at R0 sig = Some n0 \<Longrightarrow> 0 < sn_refcount n0" and tm0: "templates_match R0"
  shows "grown refs R0 (rollback_ref sig R) \<and> no_bind_clash (rollback_ref sig R)"
proof -
  note D = grownD [OF g]
  obtain n where n: "node_at R sig = Some n" using D(3,4) [of sig] by (cases "node_at R0 sig"; cases "node_at R sig") auto
  let ?n = "n\<lparr>sn_refcount := sn_refcount n - 1\<rparr>"
  show ?thesis
  proof (cases "sn_refcount n - 1 = 0")
    case False
    then have R': "rollback_ref sig R = R\<lparr>rg_nodes := AList.update sig ?n (rg_nodes R)\<rparr>"
      by (simp add: rollback_ref_def n Let_def)
    let ?R' = "R\<lparr>rg_nodes := AList.update sig ?n (rg_nodes R)\<rparr>"
    have ids: "\<And>s. map_option node_identity (node_at ?R' s) = map_option node_identity (node_at R s)"
      using n by (auto simp: update_conv' node_identity_def)
    have "ids_match ?R'" by (rule ids_match_same [OF D(6) ids]) simp_all
    moreover have "templates_match ?R'" by (rule templates_match_same [OF D(7) ids]) simp
    moreover have "same_outside R0 ?R'" using D(1) by (simp add: same_outside_def)
    moreover have "\<forall>s n0. node_at R0 s = Some n0 \<longrightarrow> node_at ?R' s = Some (n0\<lparr>sn_refcount := sn_refcount n0 + count_list refs s\<rparr>)"
      using D(3) n by (auto simp: update_conv')
    moreover have "\<forall>s. node_at R0 s = None \<longrightarrow> node_at ?R' s = None \<longrightarrow> count_list refs s = 0"
    proof (intro allI impI)
      fix s assume "node_at R0 s = None" "node_at ?R' s = None"
      then show "count_list refs s = 0" using D(4) [of s] n by (cases "s = sig") (auto simp: update_conv')
    qed
    moreover have "\<forall>s m. node_at R0 s = None \<longrightarrow> node_at ?R' s = Some m \<longrightarrow>
        0 < count_list refs s \<and> sn_refcount m = count_list refs s \<and> rg_next_node R0 \<le> sn_node_id m \<and> sn_seed_buffer m = None"
    proof (intro allI impI)
      fix s m assume a: "node_at R0 s = None" "node_at ?R' s = Some m"
      show "0 < count_list refs s \<and> sn_refcount m = count_list refs s \<and> rg_next_node R0 \<le> sn_node_id m \<and> sn_seed_buffer m = None"
        using a n D(5) [of s] False by (cases "s = sig") (auto simp: update_conv')
    qed
    moreover have "\<forall>tk tpl0. template_at R0 tk = Some tpl0 \<longrightarrow>
      (\<exists>tpl. template_at ?R' tk = Some tpl \<and> tpl\<lparr>tg_binds := []\<rparr> = tpl0\<lparr>tg_binds := []\<rparr>)" using D(8) by fastforce
    moreover have "rg_next_node R0 \<le> rg_next_node ?R'" using D(2) by simp
    ultimately have "grown refs R0 ?R'" unfolding grown_def by blast
    moreover have "no_bind_clash ?R'" by (rule no_bind_clash_same [OF nc ids])
    ultimately show ?thesis unfolding R' by blast
  next
    case True
    have new: "node_at R0 sig = None"
      using D(3) [of sig] pos n True by (cases "node_at R0 sig") auto
    with D(5) [OF new n] True have c0: "count_list refs sig = 0" by simp
    let ?R' = "(remove_node_entry ?n (R\<lparr>rg_nodes := AList.delete sig (rg_nodes R)\<rparr>))
               \<lparr>rg_pending_seed := filter (\<lambda>s. s \<noteq> sig) (rg_pending_seed R)\<rparr>"
    have R': "rollback_ref sig R = ?R'" using True by (simp add: rollback_ref_def n Let_def)
    have rem: "ids_match ?R'" "templates_match ?R'" "no_bind_clash ?R'"
      "\<And>tk tpl'. template_at ?R' tk = Some tpl' \<Longrightarrow>
         \<exists>tpl. template_at R tk = Some tpl \<and> tpl'\<lparr>tg_binds := []\<rparr> = tpl\<lparr>tg_binds := []\<rparr>"
      by (rule remove_entry_match [OF D(6,7) nc n refl, of ?n ?R'];
          simp add: node_identity_def remove_node_entry_def)+
    have nodes: "map_of (rg_nodes ?R') = (map_of (rg_nodes R))(sig := None)" by (simp add: remove_node_entry_def)
    have "same_outside R0 ?R'" using D(1) by (simp add: same_outside_def remove_node_entry_def)
    moreover have "rg_next_node R0 \<le> rg_next_node ?R'" using D(2) by (simp add: remove_node_entry_def)
    moreover have live: "\<forall>s n0. node_at R0 s = Some n0 \<longrightarrow> node_at ?R' s = Some (n0\<lparr>sn_refcount := sn_refcount n0 + count_list refs s\<rparr>)"
      using D(3) new unfolding nodes by auto
    moreover have "\<forall>s. node_at R0 s = None \<longrightarrow> node_at ?R' s = None \<longrightarrow> count_list refs s = 0"
    proof (intro allI impI)
      fix s assume "node_at R0 s = None" "node_at ?R' s = None"
      then show "count_list refs s = 0" using D(4) [of s] c0 unfolding nodes by (cases "s = sig") auto
    qed
    moreover have "\<forall>s m. node_at R0 s = None \<longrightarrow> node_at ?R' s = Some m \<longrightarrow>
        0 < count_list refs s \<and> sn_refcount m = count_list refs s \<and> rg_next_node R0 \<le> sn_node_id m \<and> sn_seed_buffer m = None"
    proof (intro allI impI)
      fix s m assume a: "node_at R0 s = None" "node_at ?R' s = Some m"
      then have "s \<noteq> sig" "node_at R s = Some m" unfolding nodes by (auto split: if_splits)
      then show "0 < count_list refs s \<and> sn_refcount m = count_list refs s \<and> rg_next_node R0 \<le> sn_node_id m \<and> sn_seed_buffer m = None"
        using D(5) [OF a(1)] by auto
    qed
    moreover have "\<forall>tk tpl0. template_at R0 tk = Some tpl0 \<longrightarrow>
      (\<exists>tpl. template_at ?R' tk = Some tpl \<and> tpl\<lparr>tg_binds := []\<rparr> = tpl0\<lparr>tg_binds := []\<rparr>)"
    proof (intro allI impI)
      fix tk tpl0 assume t0: "template_at R0 tk = Some tpl0"
      with tm0 obtain s n0 where "node_at R0 s = Some n0" "sn_template_key n0 = tk"
        unfolding templates_match_def by blast
      with live have "node_at ?R' s = Some (n0\<lparr>sn_refcount := sn_refcount n0 + count_list refs s\<rparr>)" by blast
      moreover have "sn_template_key (n0\<lparr>sn_refcount := sn_refcount n0 + count_list refs s\<rparr>) = tk"
        using \<open>sn_template_key n0 = tk\<close> by simp
      ultimately have "template_at ?R' tk \<noteq> None" using rem(2) unfolding templates_match_def by blast
      then obtain tpl' where t': "template_at ?R' tk = Some tpl'" by auto
      with rem(4) [OF t'] D(8) [OF t0]
      show "\<exists>tpl. template_at ?R' tk = Some tpl \<and> tpl\<lparr>tg_binds := []\<rparr> = tpl0\<lparr>tg_binds := []\<rparr>" by auto
    qed
    ultimately have "grown refs R0 ?R'" using rem(1,2) unfolding grown_def by blast
    with rem(3) show ?thesis unfolding R' by blast
  qed
qed

text \<open>The scratch lists while references are rolled back.\<close>

lemma rollback_ref_scratch:
  "rg_staged (rollback_ref sig R) = rg_staged R" "rg_log (rollback_ref sig R) = rg_log R"
  by (simp_all add: rollback_ref_def remove_node_entry_def Let_def split: option.splits)

lemma rollback_ref_pending:
  assumes "set (rg_pending_seed R) \<subseteq> new_nodes R0 R"
  shows "set (rg_pending_seed (rollback_ref sig R)) \<subseteq> new_nodes R0 (rollback_ref sig R)"
  using assms
  by (auto simp: rollback_ref_def new_nodes_def remove_node_entry_def Let_def update_conv' split: option.splits)

lemma rollback_all:
  assumes "grown refs R0 R" "no_bind_clash R" "set (rg_pending_seed R) \<subseteq> new_nodes R0 R"
    and pos: "\<And>sig n0. node_at R0 sig = Some n0 \<Longrightarrow> 0 < sn_refcount n0" and tm0: "templates_match R0"
  shows "grown [] R0 (fold rollback_ref refs R) \<and> no_bind_clash (fold rollback_ref refs R) \<and>
    set (rg_pending_seed (fold rollback_ref refs R)) \<subseteq> new_nodes R0 (fold rollback_ref refs R) \<and>
    rg_staged (fold rollback_ref refs R) = rg_staged R \<and> rg_log (fold rollback_ref refs R) = rg_log R"
  using assms(1-3)
proof (induction refs arbitrary: R)
  case (Cons sig refs)
  have "grown refs R0 (rollback_ref sig R) \<and> no_bind_clash (rollback_ref sig R)"
    by (rule rollback_ref_step [OF Cons.prems(1,2) pos tm0])
  with Cons.IH [of "rollback_ref sig R"] rollback_ref_pending [OF Cons.prems(3)]
  show ?case by (simp add: rollback_ref_scratch)
qed simp

text \<open>Equal up to the order of association lists and the id counter, which never goes back.\<close>

definition same_template :: "template_group option \<Rightarrow> template_group option \<Rightarrow> bool" where
  "same_template a b \<longleftrightarrow>
     (case (a, b) of
        (None, None) \<Rightarrow> True
      | (Some t, Some u) \<Rightarrow> t\<lparr>tg_binds := []\<rparr> = u\<lparr>tg_binds := []\<rparr> \<and> map_of (tg_binds t) = map_of (tg_binds u)
      | _ \<Rightarrow> False)"

definition same_registry :: "'c subquery_registry \<Rightarrow> 'c subquery_registry \<Rightarrow> bool" where
  "same_registry R0 R \<longleftrightarrow> same_outside R0 R \<and> rg_staged R = rg_staged R0 \<and> rg_log R = rg_log R0 \<and>
     rg_pending_seed R = rg_pending_seed R0 \<and> rg_next_node R0 \<le> rg_next_node R \<and>
     map_of (rg_nodes R) = map_of (rg_nodes R0) \<and> rg_node_by_id R = rg_node_by_id R0 \<and>
     (\<forall>tk. same_template (template_at R0 tk) (template_at R tk))"

lemma ids_match_determined:
  assumes "ids_match R0" "ids_match R" "map_of (rg_nodes R) = map_of (rg_nodes R0)"
  shows "rg_node_by_id R = rg_node_by_id R0"
proof
  fix i
  have "rg_node_by_id R i = Some s \<longleftrightarrow> rg_node_by_id R0 i = Some s" for s
    using assms unfolding ids_match_def by metis
  then show "rg_node_by_id R i = rg_node_by_id R0 i" by (metis option.exhaust)
qed

lemma grown_none:
  assumes g: "grown [] R0 R" and nc: "no_bind_clash R" and im0: "ids_match R0" and tm0: "templates_match R0"
  shows "map_of (rg_nodes R) = map_of (rg_nodes R0)" "rg_node_by_id R = rg_node_by_id R0"
    "same_template (template_at R0 tk) (template_at R tk)"
proof -
  note D = grownD [OF g]
  show nodes: "map_of (rg_nodes R) = map_of (rg_nodes R0)"
  proof
    fix s show "node_at R s = node_at R0 s"
      using D(3) [of s] D(5) [of s] by (cases "node_at R0 s"; cases "node_at R s") auto
  qed
  show "rg_node_by_id R = rg_node_by_id R0" by (rule ids_match_determined [OF im0 D(6) nodes])
  have nc0: "no_bind_clash R0" using nc unfolding no_bind_clash_def nodes .
  have dom: "template_at R tk = None \<longleftrightarrow> template_at R0 tk = None"
    using D(7) tm0 unfolding templates_match_def nodes by metis
  show "same_template (template_at R0 tk) (template_at R tk)"
  proof (cases "template_at R0 tk")
    case None
    with dom show ?thesis by (simp add: same_template_def)
  next
    case (Some t0)
    with D(8) obtain t where t: "template_at R tk = Some t" "t\<lparr>tg_binds := []\<rparr> = t0\<lparr>tg_binds := []\<rparr>" by blast
    have "map_of (tg_binds t0) b = Some s \<longleftrightarrow> map_of (tg_binds t) b = Some s" for b s
    proof
      assume "map_of (tg_binds t0) b = Some s"
      then obtain n where n: "node_at R0 s = Some n" "sn_template_key n = tk" "sn_bind n = b"
        using tm0 Some unfolding templates_match_def by blast
      with templates_match_own [OF D(7) nc, of s n t] t show "map_of (tg_binds t) b = Some s" by (simp add: nodes)
    next
      assume "map_of (tg_binds t) b = Some s"
      then obtain n where n: "node_at R s = Some n" "sn_template_key n = tk" "sn_bind n = b"
        using D(7) t unfolding templates_match_def by blast
      with templates_match_own [OF tm0 nc0, of s n t0] Some show "map_of (tg_binds t0) b = Some s" by (simp add: nodes)
    qed
    then have "map_of (tg_binds t0) = map_of (tg_binds t)" by (intro ext) (metis option.exhaust)
    with Some t show ?thesis by (simp add: same_template_def)
  qed
qed

section \<open>Failed creates\<close>

text \<open>Between creates the scratch lists are empty.\<close>

definition registry_idle :: "'c subquery_registry \<Rightarrow> bool" where
  "registry_idle R \<longleftrightarrow> rg_staged R = [] \<and> rg_log R = [] \<and> rg_pending_seed R = [] \<and> ids_match R \<and> templates_match R \<and>
     (\<forall>sig n. node_at R sig = Some n \<longrightarrow> 0 < sn_refcount n)"

text \<open>The registry at the end of a create's compilation.\<close>

definition create_compiled :: "nat \<Rightarrow> f64_ops \<Rightarrow> table_ref \<Rightarrow> predicate_json \<Rightarrow> 'c subquery_registry \<Rightarrow> 'c subquery_registry" where
  "create_compiled fuel F t w R =
     (case rg_schemas R t of
        None \<Rightarrow> R
      | Some ts \<Rightarrow> fst (compile_with F (collect_subquery fuel F) ts w (R\<lparr>rg_staged := [], rg_log := []\<rparr>)))"

lemma compiled_start:
  assumes "registry_idle R"
  shows "compiled_from (rg_log (R\<lparr>rg_staged := [], rg_log := []\<rparr>)) R (R\<lparr>rg_staged := [], rg_log := []\<rparr>)"
  using assms unfolding registry_idle_def compiled_from_def grown_def new_nodes_def same_outside_def ids_match_def templates_match_def
  by auto

lemma compiled_scratch:
  assumes "grown refs R0 R"
  shows "grown refs R0 (R\<lparr>rg_staged := xs, rg_log := ys, rg_pending_seed := zs\<rparr>)"
  using assms unfolding grown_def same_outside_def ids_match_def templates_match_def by simp

lemma failed_create_restores:
  assumes idle: "registry_idle R" and fail: "begin_create fuel F shape_id t path w cols co R = (R', Inl e)"
    and nc: "no_bind_clash (create_compiled fuel F t w R)"
  shows "same_registry R R'"
proof (cases "rg_schemas R t")
  case None
  with fail have "R' = R" by (simp add: begin_create_def)
  moreover have "same_template x x" for x by (cases x) (simp_all add: same_template_def)
  ultimately show ?thesis by (simp add: same_registry_def same_outside_def)
next
  case (Some ts)
  obtain R1 r where c: "compile_with F (collect_subquery fuel F) ts w (R\<lparr>rg_staged := [], rg_log := []\<rparr>) = (R1, r)"
    by (cases "compile_with F (collect_subquery fuel F) ts w (R\<lparr>rg_staged := [], rg_log := []\<rparr>)")
  have R1: "grown (rg_log R1) R R1" "set (rg_pending_seed R1) = new_nodes R R1" "no_bind_clash R1"
    using compiled_from_compile [OF compiled_start [OF idle], where F = F and n = fuel and ts = ts and p = w] c nc Some
    by (simp_all add: compiled_from_def create_compiled_def)
  have idle': "ids_match R" "templates_match R" "\<And>sig n. node_at R sig = Some n \<Longrightarrow> 0 < sn_refcount n"
    "rg_staged R = []" "rg_log R = []" "rg_pending_seed R = []"
    using idle by (auto simp: registry_idle_def)
  have undone: "same_registry R (rollback_refs (rg_log R1) (R1\<lparr>rg_log := [], rg_pending_seed := zs\<rparr>))"
    if zs: "set zs \<subseteq> new_nodes R R1" for zs
  proof -
    let ?S = "R1\<lparr>rg_staged := [], rg_log := [], rg_pending_seed := zs\<rparr>"
    have S: "grown (rg_log R1) R ?S" by (rule compiled_scratch [OF R1(1)])
    have ncS: "no_bind_clash ?S" using R1(3) by (simp add: no_bind_clash_def)
    have pS: "set (rg_pending_seed ?S) \<subseteq> new_nodes R ?S" using zs by (simp add: new_nodes_def)
    let ?E = "fold rollback_ref (rg_log R1) ?S"
    have E: "grown [] R ?E" "no_bind_clash ?E" "set (rg_pending_seed ?E) \<subseteq> new_nodes R ?E"
      "rg_staged ?E = []" "rg_log ?E = []"
      using rollback_all [OF S ncS pS idle'(3,2)] by auto
    note nodes = grown_none [OF E(1,2) idle'(1,2)]
    have "new_nodes R ?E = {}" unfolding new_nodes_def nodes(1) by blast
    with E(3) have "rg_pending_seed ?E = []" by simp
    with E nodes grownD(1,2) [OF E(1)] idle' have "same_registry R ?E" by (simp add: same_registry_def)
    moreover have "rollback_refs (rg_log R1) (R1\<lparr>rg_log := [], rg_pending_seed := zs\<rparr>) = ?E"
      by (cases R1) (simp add: rollback_refs_def)
    ultimately show ?thesis by simp
  qed
  show ?thesis
  proof (cases r)
    case (Inl e')
    have "R1\<lparr>rg_log := [], rg_pending_seed := rg_pending_seed R1\<rparr> = R1\<lparr>rg_log := []\<rparr>" by simp
    with undone [of "rg_pending_seed R1"] R1(2) Inl fail Some c show ?thesis by (simp add: begin_create_def)
  next
    case (Inr pred)
    with fail Some c have "R' = rollback_refs (rg_log R1) (R1\<lparr>rg_log := [], rg_pending_seed := []\<rparr>)"
      by (simp add: begin_create_def Let_def split: if_splits)
    with undone [of "[]"] show ?thesis by simp
  qed
qed

section \<open>Properties\<close>


definition ex_registry :: "ref_circuit subquery_registry" where
  "ex_registry = set_schemas [ex_table \<mapsto> ex_schema] (registry_new ref_empty)"

definition ex_failing :: predicate_json where
  "ex_failing = PAnd [PIn ''user'' (Subquery ex_table ''user'' (Some (PLeaf ''role'' OpEq (JStr ''admin'')))) False,
     PLeaf ''missing'' OpEq (JBool True)]"

lemma ex_failing_result:
  "snd (begin_create 1 exact_f64 ''s1'' ex_table ''shape/s1'' ex_failing None False ex_registry) = Inl (UnknownColumn ''missing'')"
  by code_simp

lemma ex_failing_nodes: "length (rg_nodes (create_compiled 1 exact_f64 ex_table ex_failing ex_registry)) = 1"
  by code_simp


text \<open>The clash is real: a predicate and the conjunction of it alone have different signatures, so they
  are two nodes, but the template flattens conjunctions, so they are one bind. The later node takes the
  bind, and a change of the inner table is routed to it alone: the earlier node is not maintained any
  more.\<close>

definition ex_plain :: predicate_json where
  "ex_plain = PIn ''user'' (Subquery ex_table ''user'' (Some (PLeaf ''role'' OpEq (JStr ''admin'')))) False"

definition ex_wrapped :: predicate_json where
  "ex_wrapped = PIn ''user'' (Subquery ex_table ''user'' (Some (PAnd [PLeaf ''role'' OpEq (JStr ''admin'')]))) False"

definition ex_clash :: "ref_circuit subquery_registry" where
  "ex_clash = fst (begin_create 1 exact_f64 ''s2'' ex_table ''shape/s2'' ex_wrapped None False
     (fst (begin_create 1 exact_f64 ''s1'' ex_table ''shape/s1'' ex_plain None False ex_registry)))"

lemma bind_collision:
  "map fst (rg_nodes ex_clash) = [''public.members|user|L(role,Eq,\"admin\")'', ''public.members|user|A(L(role,Eq,\"admin\"))'']
   \<and> map (\<lambda>(_, tpl). tg_binds tpl) (rg_templates ex_clash) = [[([VText ''admin''], ''public.members|user|A(L(role,Eq,\"admin\"))'')]]"
  by code_simp

end
